(* ===== verification/CPrelude.thy ===== *)
theory CPrelude
  imports Main "HOL-Library.Word" "HOL-Library.Monad_Syntax" "HOL-Library.Multiset"
begin

text \<open>
  Shared vocabulary of the development: the C scalar types as fixed-width words, the fault
  monad, and checked array accesses.

  A C function that may run into undefined behaviour (a null dereference, an access outside
  an object, a failed assertion) or that may loop for ever is modelled in \<^typ>\<open>'a option\<close>:
  \<^const>\<open>None\<close> means that the call does not return normally, \<open>Some r\<close> that it returns
  \<open>r\<close>.  The error codes of the C code itself (\<open>-1\<close>, \<open>NULL\<close>) are ordinary values of
  \<open>r\<close>.  Pointers into an array are represented by the array and an offset.
\<close>

unbundle bit_operations_syntax

type_synonym byte = "8 word"
type_synonym u32 = "32 word"
type_synonym u64 = "64 word"

named_theorems cmem \<open>rules that evaluate checked memory accesses\<close>

section \<open>Words\<close>

lemma unat_drop_bit: "unat (drop_bit k v) = unat v div 2 ^ k"
  for v :: "'a::len word"
  by (metis drop_bit_eq_div unat_drop_bit_eq)

lemma unat_less_exp_iff: "unat x < 2 ^ k \<longleftrightarrow> take_bit k x = x" for x :: "'a::len word"
  by (metis take_bit_nat_eq_self_iff unsigned_take_bit_eq word_eq_iff_unsigned)

lemma unat_less_exp_bit: "unat x < 2 ^ k \<longleftrightarrow> (\<forall>n. bit x n \<longrightarrow> n < k)" for x :: "'a::len word"
  unfolding unat_less_exp_iff
  by (auto simp: bit_eq_iff bit_simps) (use bit_imp_le_length in blast)

section \<open>C integers\<close>

text \<open>Conversion to a 32-bit \<open>int\<close>, and addition of two of them, which faults when it overflows.\<close>

definition c_int :: "int \<Rightarrow> int" where
  "c_int x = signed_take_bit 31 x"

lemma c_int_small: "- (2 ^ 31) \<le> x \<Longrightarrow> x < 2 ^ 31 \<Longrightarrow> c_int x = x"
  by (simp add: c_int_def signed_take_bit_int_eq_self)

definition iadd :: "int \<Rightarrow> int \<Rightarrow> int option" where
  "iadd x y = (if - (2 ^ 31) \<le> x + y \<and> x + y < 2 ^ 31 then Some (x + y) else None)"

lemma iadd_in [simp]: "- (2 ^ 31) \<le> x + y \<Longrightarrow> x + y < 2 ^ 31 \<Longrightarrow> iadd x y = Some (x + y)"
  by (simp add: iadd_def)

section \<open>The fault monad\<close>

definition require :: "bool \<Rightarrow> unit option" where
  "require b = (if b then Some () else None)"

lemma require_simps [simp]:
  "require True = Some ()" "require False = None"
  by (simp_all add: require_def)

lemma require_eq_Some [simp]: "require b = Some u \<longleftrightarrow> b"
  by (simp add: require_def)

lemma require_bind_eq_Some [simp]:
  "(require b \<bind> f) = Some r \<longleftrightarrow> b \<and> f () = Some r"
  by (cases b) simp_all

text \<open>An operation applied to the elements of a list one after the other.\<close>

fun adds :: "('x \<Rightarrow> 'e \<Rightarrow> 'x option) \<Rightarrow> 'x \<Rightarrow> 'e list \<Rightarrow> 'x option" where
  "adds add x [] = Some x"
| "adds add x (e # es) = do { x \<leftarrow> add x e; adds add x es }"

section \<open>Arrays indexed by a C int\<close>

definition aget :: "'a list \<Rightarrow> int \<Rightarrow> 'a option" where
  "aget xs i = (if 0 \<le> i \<and> i < int (length xs) then Some (xs ! nat i) else None)"

definition aput :: "'a list \<Rightarrow> int \<Rightarrow> 'a \<Rightarrow> 'a list option" where
  "aput xs i v = (if 0 \<le> i \<and> i < int (length xs) then Some (xs[nat i := v]) else None)"

lemma aget_in [cmem]: "0 \<le> i \<Longrightarrow> i < int (length xs) \<Longrightarrow> aget xs i = Some (xs ! nat i)"
  by (simp add: aget_def)

lemma aget_out [cmem]: "\<not> (0 \<le> i \<and> i < int (length xs)) \<Longrightarrow> aget xs i = None"
  unfolding aget_def by simp

lemma aput_in [cmem]: "0 \<le> i \<Longrightarrow> i < int (length xs) \<Longrightarrow> aput xs i v = Some (xs[nat i := v])"
  by (simp add: aput_def)

lemma aput_out [cmem]: "\<not> (0 \<le> i \<and> i < int (length xs)) \<Longrightarrow> aput xs i v = None"
  unfolding aput_def by simp

lemma aget_nat [cmem]: "k < length xs \<Longrightarrow> aget xs (int k) = Some (xs ! k)"
  by (simp add: aget_def)

lemma aput_nat [cmem]: "k < length xs \<Longrightarrow> aput xs (int k) v = Some (xs[k := v])"
  by (simp add: aput_def)

lemma aget_eq_Some: "aget xs i = Some x \<longleftrightarrow> 0 \<le> i \<and> i < int (length xs) \<and> xs ! nat i = x"
  by (auto simp: aget_def)

lemma aput_length: "aput xs i v = Some ys \<Longrightarrow> length ys = length xs"
  by (auto simp: aput_def split: if_splits)

section \<open>Byte buffers with a moving pointer\<close>

text \<open>\<open>*(ptr++) = b\<close> and \<open>*p\<close> for a pointer given by its buffer and offset.\<close>

definition putb :: "byte list \<times> nat \<Rightarrow> byte \<Rightarrow> (byte list \<times> nat) option" where
  "putb bp b = (case bp of (buf, p) \<Rightarrow>
     if p < length buf then Some (buf[p := b], Suc p) else None)"

definition getb :: "byte list \<Rightarrow> nat \<Rightarrow> byte option" where
  "getb buf p = (if p < length buf then Some (buf ! p) else None)"

fun put_bytes :: "byte list \<Rightarrow> nat \<Rightarrow> byte list \<Rightarrow> byte list" where
  "put_bytes buf p [] = buf"
| "put_bytes buf p (b # bs) = put_bytes (buf[p := b]) (Suc p) bs"

lemma putb_in [cmem]: "p < length buf \<Longrightarrow> putb (buf, p) b = Some (buf[p := b], Suc p)"
  by (simp add: putb_def)

lemma getb_in [cmem]: "p < length buf \<Longrightarrow> getb buf p = Some (buf ! p)"
  by (simp add: getb_def)

lemma length_put_bytes [simp]: "length (put_bytes buf p bs) = length buf"
  by (induction bs arbitrary: buf p) auto

lemma put_bytes_before: "i < p \<Longrightarrow> put_bytes buf p bs ! i = buf ! i"
  by (induction bs arbitrary: buf p) auto

lemma put_bytes_nth:
  "p + length bs \<le> length buf \<Longrightarrow> i < length bs \<Longrightarrow> put_bytes buf p bs ! (p + i) = bs ! i"
proof (induction bs arbitrary: buf p i)
  case (Cons b bs)
  show ?case
  proof (cases i)
    case 0
    have "put_bytes (buf[p := b]) (Suc p) bs ! p = buf[p := b] ! p"
      by (rule put_bytes_before) simp
    with 0 Cons.prems show ?thesis by simp
  next
    case (Suc j)
    with Cons.prems Cons.IH [of "Suc p" "buf[p := b]" j] show ?thesis by simp
  qed
qed simp

lemma put_bytes_after: "p + length bs \<le> i \<Longrightarrow> put_bytes buf p bs ! i = buf ! i"
  by (induction bs arbitrary: buf p) auto

lemma put_bytes_eq:
  "p + length bs \<le> length buf \<Longrightarrow>
   put_bytes buf p bs = take p buf @ bs @ drop (p + length bs) buf"
  by (rule nth_equalityI)
     (auto simp: nth_append put_bytes_before put_bytes_after put_bytes_nth [of p bs buf, symmetric])

text \<open>The bytes of a buffer from an offset on.\<close>

definition bytes_at :: "byte list \<Rightarrow> nat \<Rightarrow> byte list \<Rightarrow> bool" where
  "bytes_at buf p bs \<longleftrightarrow> p + length bs \<le> length buf \<and> take (length bs) (drop p buf) = bs"

lemma bytes_at_put_bytes:
  "p + length bs \<le> length buf \<Longrightarrow> bytes_at (put_bytes buf p bs) p bs"
  by (simp add: bytes_at_def put_bytes_eq)

lemma bytes_at_Nil [simp]: "bytes_at buf p [] \<longleftrightarrow> p \<le> length buf"
  by (simp add: bytes_at_def)

lemma bytes_at_Cons:
  "bytes_at buf p (b # bs) \<longleftrightarrow> getb buf p = Some b \<and> bytes_at buf (Suc p) bs"
proof (cases "p < length buf")
  case True
  then have "drop p buf = buf ! p # drop (Suc p) buf" by (simp add: Cons_nth_drop_Suc)
  with True show ?thesis by (auto simp: bytes_at_def getb_def)
qed (auto simp: bytes_at_def getb_def)

section \<open>Copying between buffers\<close>

text \<open>\<open>memcpy(dst + d, src + s, n)\<close> between two distinct objects.\<close>

definition memcpy :: "'a list \<Rightarrow> nat \<Rightarrow> 'a list \<Rightarrow> nat \<Rightarrow> nat \<Rightarrow> 'a list option" where
  "memcpy dst d src s n =
     (if d + n \<le> length dst \<and> s + n \<le> length src
      then Some (take d dst @ take n (drop s src) @ drop (d + n) dst) else None)"

lemma memcpy_Some:
  "d + n \<le> length dst \<Longrightarrow> s + n \<le> length src \<Longrightarrow>
   memcpy dst d src s n = Some (take d dst @ take n (drop s src) @ drop (d + n) dst)"
  by (simp add: memcpy_def)

lemma memcpy_ex:
  "d + n \<le> length dst \<Longrightarrow> s + n \<le> length src \<Longrightarrow> \<exists>r. memcpy dst d src s n = Some r"
  by (simp add: memcpy_def)

lemma memcpy_length: "memcpy dst d src s n = Some r \<Longrightarrow> length r = length dst"
  by (auto simp: memcpy_def split: if_splits)

lemma memcpy_nth:
  "memcpy dst d src s n = Some r \<Longrightarrow> i < length dst \<Longrightarrow>
   r ! i = (if d \<le> i \<and> i < d + n then src ! (s + (i - d)) else dst ! i)"
  by (auto simp: memcpy_def nth_append split: if_splits)

end
