(* ===== verification/Coding.thy ===== *)
theory Coding
  imports CPrelude "HOL-Library.Signed_Division"
begin

text \<open>
  \<open>mycache/src/util/coding.h\<close>: fixed-width little-endian integers, base-128 varints and the
  zigzag transform.  A \<open>char *\<close> is a byte buffer and an offset into it; a write or read
  outside the buffer is a fault.  The endianness of the host is a parameter.
\<close>

section \<open>Bit inspection of a byte array\<close>

definition bm_getmask8 :: "int \<Rightarrow> (int \<times> byte) option" where
  "bm_getmask8 pos = do {
     require (0 \<le> pos smod 8);
     Some (pos sdiv 8, push_bit (nat (pos smod 8)) 1)
   }"

definition bm_isset8 :: "byte list \<Rightarrow> int \<Rightarrow> int option" where
  "bm_isset8 bm pos = do {
     (p, bmask) \<leftarrow> bm_getmask8 pos;
     b \<leftarrow> aget bm p;
     Some (if b AND bmask = 0 then 0 else 1)
   }"

text \<open>The digits that \<open>bm_foreach\<close> prints, highest bit first.\<close>

function bm_foreach8_loop :: "byte list \<Rightarrow> int \<Rightarrow> int list option" where
  "bm_foreach8_loop bmap i =
     (if i \<ge> 0 then do {
        d \<leftarrow> bm_isset8 bmap i;
        ds \<leftarrow> bm_foreach8_loop bmap (i - 1);
        Some (d # ds)
      } else Some [])"
  by pat_completeness auto
termination by (relation "measure (\<lambda>(_, i). nat (i + 1))") auto

definition bm_foreach8 :: "byte list \<Rightarrow> int \<Rightarrow> int list option" where
  "bm_foreach8 bmap nbits = bm_foreach8_loop bmap (nbits - 1)"

section \<open>Little-endian fixed-width integers\<close>

text \<open>
  \<open>host_le\<close> is the byte order of the machine: \<open>memcpy\<close> from or to an integer object
  moves its bytes in that order.
\<close>

definition le_bytes :: "nat \<Rightarrow> 'a::len word \<Rightarrow> byte list" where
  "le_bytes n v = map (\<lambda>i. ucast (drop_bit (8 * i) v)) [0..<n]"

fun of_le_bytes :: "byte list \<Rightarrow> 'a::len word" where
  "of_le_bytes [] = 0"
| "of_le_bytes (b # bs) = ucast b OR push_bit 8 (of_le_bytes bs)"

definition host_bytes :: "bool \<Rightarrow> nat \<Rightarrow> 'a::len word \<Rightarrow> byte list" where
  "host_bytes host_le n v = (if host_le then le_bytes n v else rev (le_bytes n v))"

definition of_host_bytes :: "bool \<Rightarrow> byte list \<Rightarrow> 'a::len word" where
  "of_host_bytes host_le bs = of_le_bytes (if host_le then bs else rev bs)"

text \<open>The global \<open>little_endian\<close>: set from the first byte of the int \<open>1\<close>.\<close>

definition is_little_endian :: "bool \<Rightarrow> int" where
  "is_little_endian host_le = (if host_bytes host_le 4 (1 :: u32) ! 0 \<noteq> 0 then 1 else 0)"

definition memcpy_in :: "byte list \<Rightarrow> nat \<Rightarrow> byte list \<Rightarrow> byte list option" where
  "memcpy_in buf p bs =
     (if p + length bs \<le> length buf then Some (put_bytes buf p bs) else None)"

definition memcpy_out :: "byte list \<Rightarrow> nat \<Rightarrow> nat \<Rightarrow> byte list option" where
  "memcpy_out buf p n = (if p + n \<le> length buf then Some (take n (drop p buf)) else None)"

definition encode_little_endian32 ::
  "bool \<Rightarrow> int \<Rightarrow> byte list \<Rightarrow> nat \<Rightarrow> u32 \<Rightarrow> byte list option" where
  "encode_little_endian32 host_le little_endian buf p value =
     (if little_endian \<noteq> 0 then memcpy_in buf p (host_bytes host_le 4 value)
      else memcpy_in buf p
        [ucast (value AND 0xff), ucast (drop_bit 8 value AND 0xff),
         ucast (drop_bit 16 value AND 0xff), ucast (drop_bit 24 value AND 0xff)])"

definition encode_little_endian64 ::
  "bool \<Rightarrow> int \<Rightarrow> byte list \<Rightarrow> nat \<Rightarrow> u64 \<Rightarrow> byte list option" where
  "encode_little_endian64 host_le little_endian buf p value =
     (if little_endian \<noteq> 0 then memcpy_in buf p (host_bytes host_le 8 value)
      else memcpy_in buf p
        [ucast (value AND 0xff), ucast (drop_bit 8 value AND 0xff),
         ucast (drop_bit 16 value AND 0xff), ucast (drop_bit 24 value AND 0xff),
         ucast (drop_bit 32 value AND 0xff), ucast (drop_bit 40 value AND 0xff),
         ucast (drop_bit 48 value AND 0xff), ucast (drop_bit 56 value AND 0xff)])"

definition decode_little_endian32 :: "bool \<Rightarrow> int \<Rightarrow> byte list \<Rightarrow> nat \<Rightarrow> u32 option" where
  "decode_little_endian32 host_le little_endian buf p =
     (if little_endian \<noteq> 0 then map_option (of_host_bytes host_le) (memcpy_out buf p 4)
      else do {
        b0 \<leftarrow> getb buf p;
        b1 \<leftarrow> getb buf (p + 1);
        b2 \<leftarrow> getb buf (p + 2);
        b3 \<leftarrow> getb buf (p + 3);
        Some (ucast b0 OR push_bit 8 (ucast b1) OR push_bit 16 (ucast b2)
              OR push_bit 24 (ucast b3))
      })"

definition decode_little_endian64 :: "bool \<Rightarrow> int \<Rightarrow> byte list \<Rightarrow> nat \<Rightarrow> u64 option" where
  "decode_little_endian64 host_le little_endian buf p =
     (if little_endian \<noteq> 0 then map_option (of_host_bytes host_le) (memcpy_out buf p 8)
      else do {
        lo \<leftarrow> decode_little_endian32 host_le little_endian buf p;
        hi \<leftarrow> decode_little_endian32 host_le little_endian buf (p + 4);
        Some (push_bit 32 (ucast hi) OR ucast lo)
      })"

section \<open>Varints\<close>

definition encode_varint32 :: "byte list \<Rightarrow> nat \<Rightarrow> u32 \<Rightarrow> (byte list \<times> nat) option" where
  "encode_varint32 buf dst v =
     (let B = 128; ptr = (buf, dst) in
      if v < 2 ^ 7 then putb ptr (ucast v)
      else if v < 2 ^ 14 then do {
        ptr \<leftarrow> putb ptr (ucast (v OR B));
        putb ptr (ucast (drop_bit 7 v))
      }
      else if v < 2 ^ 21 then do {
        ptr \<leftarrow> putb ptr (ucast (v OR B));
        ptr \<leftarrow> putb ptr (ucast (drop_bit 7 v OR B));
        putb ptr (ucast (drop_bit 14 v))
      }
      else if v < 2 ^ 28 then do {
        ptr \<leftarrow> putb ptr (ucast (v OR B));
        ptr \<leftarrow> putb ptr (ucast (drop_bit 7 v OR B));
        ptr \<leftarrow> putb ptr (ucast (drop_bit 14 v OR B));
        putb ptr (ucast (drop_bit 21 v))
      }
      else do {
        ptr \<leftarrow> putb ptr (ucast (v OR B));
        ptr \<leftarrow> putb ptr (ucast (drop_bit 7 v OR B));
        ptr \<leftarrow> putb ptr (ucast (drop_bit 14 v OR B));
        ptr \<leftarrow> putb ptr (ucast (drop_bit 21 v OR B));
        putb ptr (ucast (drop_bit 28 v))
      })"

lemma drop_bit_7_less:
  fixes v :: "'a::len word"
  assumes "v \<noteq> 0"
  shows "unat (drop_bit 7 v) < unat v"
  using assms by (simp add: unat_drop_bit unat_gt_0)

function encode_varint64 :: "byte list \<Rightarrow> nat \<Rightarrow> u64 \<Rightarrow> (byte list \<times> nat) option" where
  "encode_varint64 buf dst v =
     (if v \<ge> 128 then do {
        (buf', ptr) \<leftarrow> putb (buf, dst) (ucast ((v AND (128 - 1)) OR 128));
        encode_varint64 buf' ptr (drop_bit 7 v)
      }
      else putb (buf, dst) (ucast v))"
  by pat_completeness auto
termination
  by (relation "measure (\<lambda>(_, _, v). unat v)") (auto intro!: drop_bit_7_less)

function encode_varint_length_loop :: "u64 \<Rightarrow> int \<Rightarrow> int" where
  "encode_varint_length_loop v len =
     (if v \<ge> 128 then encode_varint_length_loop (drop_bit 7 v) (len + 1) else len)"
  by pat_completeness auto
termination
  by (relation "measure (\<lambda>(v, _). unat v)") (auto intro!: drop_bit_7_less)

definition encode_varint_length :: "u64 \<Rightarrow> int" where
  "encode_varint_length v = encode_varint_length_loop v 1"

text \<open>
  The decoders: \<open>Some None\<close> is the C result \<open>NULL\<close>, \<open>Some (Some (p, v))\<close> the pointer
  behind the varint together with \<open>*value\<close>.
\<close>

function get_varint32_loop ::
  "byte list \<Rightarrow> nat \<Rightarrow> nat \<Rightarrow> nat \<Rightarrow> u32 \<Rightarrow> (nat \<times> u32) option option" where
  "get_varint32_loop buf p limit shift result =
     (if shift \<le> 28 \<and> p < limit then do {
        b \<leftarrow> getb buf p;
        let byte = (ucast b :: u32);
        if byte AND 128 \<noteq> 0
        then get_varint32_loop buf (p + 1) limit (shift + 7)
               (result OR push_bit shift (byte AND 127))
        else Some (Some (p + 1, result OR push_bit shift byte))
      }
      else Some None)"
  by pat_completeness auto
termination by (relation "measure (\<lambda>(_, p, limit, _, _). limit - p)") auto

definition get_varint32_fallback ::
  "byte list \<Rightarrow> nat \<Rightarrow> nat \<Rightarrow> (nat \<times> u32) option option" where
  "get_varint32_fallback buf p limit = get_varint32_loop buf p limit 0 0"

function get_varint64_loop ::
  "byte list \<Rightarrow> nat \<Rightarrow> nat \<Rightarrow> nat \<Rightarrow> u64 \<Rightarrow> (nat \<times> u64) option option" where
  "get_varint64_loop buf p limit shift result =
     (if shift \<le> 63 \<and> p < limit then do {
        b \<leftarrow> getb buf p;
        let byte = (ucast b :: u64);
        if byte AND 128 \<noteq> 0
        then get_varint64_loop buf (p + 1) limit (shift + 7)
               (result OR push_bit shift (byte AND 127))
        else Some (Some (p + 1, result OR push_bit shift byte))
      }
      else Some None)"
  by pat_completeness auto
termination by (relation "measure (\<lambda>(_, p, limit, _, _). limit - p)") auto

definition get_varint64_fallback ::
  "byte list \<Rightarrow> nat \<Rightarrow> nat \<Rightarrow> (nat \<times> u64) option option" where
  "get_varint64_fallback buf p limit = get_varint64_loop buf p limit 0 0"

definition get_varint32_data_ptr ::
  "byte list \<Rightarrow> nat \<Rightarrow> nat \<Rightarrow> (nat \<times> u32) option option" where
  "get_varint32_data_ptr buf p limit =
     (if p < limit then do {
        b \<leftarrow> getb buf p;
        let result = (ucast b :: u32);
        if result AND 128 = 0 then Some (Some (p + 1, result))
        else get_varint32_fallback buf p limit
      }
      else get_varint32_fallback buf p limit)"

definition get_varint64_data_ptr ::
  "byte list \<Rightarrow> nat \<Rightarrow> nat \<Rightarrow> (nat \<times> u64) option option" where
  "get_varint64_data_ptr buf p limit = get_varint64_fallback buf p limit"

section \<open>Zigzag\<close>

definition zigzag_encode32 :: "u32 \<Rightarrow> u32" where
  "zigzag_encode32 n = push_bit 1 n XOR signed_drop_bit 31 n"

definition zigzag_decode32 :: "u32 \<Rightarrow> u32" where
  "zigzag_decode32 n = drop_bit 1 n XOR - (n AND 1)"

definition zigzag_encode64 :: "u64 \<Rightarrow> u64" where
  "zigzag_encode64 n = push_bit 1 n XOR signed_drop_bit 63 n"

definition zigzag_decode64 :: "u64 \<Rightarrow> u64" where
  "zigzag_decode64 n = drop_bit 1 n XOR - (n AND 1)"

declare bm_foreach8_loop.simps [simp del] encode_varint64.simps [simp del]
  encode_varint_length_loop.simps [simp del] get_varint32_loop.simps [simp del]
  get_varint64_loop.simps [simp del]

section \<open>Varints against their base-128 specification\<close>

text \<open>The reference encoding: base-128 digits, least significant first, high bit = more.\<close>

fun varint_bytes :: "nat \<Rightarrow> byte list" where
  "varint_bytes n =
     (if n < 128 then [of_nat n] else of_nat (128 + n mod 128) # varint_bytes (n div 128))"

declare varint_bytes.simps [simp del]

lemma varint_bytes_small: "n < 128 \<Longrightarrow> varint_bytes n = [of_nat n]"
  by (simp add: varint_bytes.simps)

lemma varint_bytes_big:
  "\<not> n < 128 \<Longrightarrow> varint_bytes n = of_nat (128 + n mod 128) # varint_bytes (n div 128)"
  by (simp add: varint_bytes.simps [of n])

lemma varint_bytes_nonempty [simp]: "varint_bytes n \<noteq> []"
  by (simp add: varint_bytes.simps [of n])

lemma length_varint_bytes_le: "n < 128 ^ Suc k \<Longrightarrow> length (varint_bytes n) \<le> Suc k"
proof (induction k arbitrary: n)
  case 0
  then show ?case by (simp add: varint_bytes_small)
next
  case (Suc k)
  show ?case
  proof (cases "n < 128")
    case False
    from Suc.prems have "n div 128 < 128 ^ Suc k" by (simp add: div_less_iff_less_mult)
    from Suc.IH [OF this] False show ?thesis by (simp add: varint_bytes_big)
  qed (simp add: varint_bytes_small)
qed


lemma or_exp_eq: "2 ^ k + take_bit k n = 2 ^ k OR take_bit k (n::nat)"
  by (rule disjunctive_add_eq_or, rule bit_eqI) (auto simp: bit_simps)

lemma ucast_more_gen:
  fixes v :: "'a::len word"
  assumes "8 \<le> LENGTH('a)"
  shows "(ucast (v OR 2 ^ 7) :: byte) = of_nat (2 ^ 7 + take_bit 7 (unat v))"
  unfolding or_exp_eq
  using assms by (intro bit_word_eqI) (auto simp: bit_simps simp del: power_numeral)

lemma ucast_more32: "(ucast (v OR 128 :: u32) :: byte) = of_nat (128 + unat v mod 128)"
  using ucast_more_gen [of v] by (simp add: take_bit_eq_mod)

lemma ucast_more64: "(ucast ((v AND (128 - 1)) OR 128 :: u64) :: byte) = of_nat (128 + unat v mod 128)"
proof -
  have "v AND (128 - 1) = take_bit 7 v"
    by (simp add: take_bit_eq_mask mask_eq_exp_minus_1)
  then show ?thesis
    using ucast_more_gen [of "take_bit 7 v"] by (simp add: take_bit_eq_mod unat_mod)
qed


lemma encode_varint64_spec:
  "dst + length (varint_bytes (unat v)) \<le> length buf \<Longrightarrow>
   encode_varint64 buf dst v =
     Some (put_bytes buf dst (varint_bytes (unat v)), dst + length (varint_bytes (unat v)))"
proof (induction buf dst v rule: encode_varint64.induct)
  case (1 buf dst v)
  show ?case
  proof (cases "v \<ge> 128")
    case True
    then have big: "\<not> unat v < 128" by (simp add: word_le_nat_alt)
    let ?b = "ucast ((v AND (128 - 1)) OR 128) :: byte"
    have put: "putb (buf, dst) ?b = Some (buf[dst := ?b], Suc dst)"
      using "1.prems" big by (intro putb_in) (simp add: varint_bytes_big)
    have "encode_varint64 (buf[dst := ?b]) (Suc dst) (drop_bit 7 v) =
        Some (put_bytes (buf[dst := ?b]) (Suc dst) (varint_bytes (unat v div 128)),
          Suc dst + length (varint_bytes (unat v div 128)))"
      using "1.IH" [OF True put refl] "1.prems" big
      by (simp add: varint_bytes_big unat_drop_bit)
    with True put big show ?thesis
      by (simp add: encode_varint64.simps [of buf dst v] varint_bytes_big
          ucast_more64 [simplified])
  next
    case False
    then have "unat v < 128" by (simp add: word_le_nat_alt)
    with False "1.prems" show ?thesis
      by (simp add: encode_varint64.simps [of buf dst v] varint_bytes_small putb_in)
  qed
qed

lemma ucast_drop_bit: "ucast (drop_bit k v) = (of_nat (unat v div 2 ^ k) :: byte)"
  by (simp flip: unat_drop_bit)

lemmas varint32_steps =
  ucast_drop_bit ucast_more32 unat_drop_bit varint_bytes_big varint_bytes_small putb_in

lemma encode_varint32_spec:
  assumes "dst + length (varint_bytes (unat v)) \<le> length buf"
  shows "encode_varint32 buf dst v =
     Some (put_bytes buf dst (varint_bytes (unat v)), dst + length (varint_bytes (unat v)))"
proof -
  consider "unat v < 2 ^ 7" | "\<not> unat v < 2 ^ 7" "unat v < 2 ^ 14"
    | "\<not> unat v < 2 ^ 14" "unat v < 2 ^ 21"
    | "\<not> unat v < 2 ^ 21" "unat v < 2 ^ 28" | "\<not> unat v < 2 ^ 28"
    by blast
  then show ?thesis
    using assms unsigned_less [of v, where ?'a = nat]
    by cases (simp_all add: encode_varint32_def Let_def varint32_steps word_less_nat_alt
        div_mult2_eq [symmetric])
qed

lemma encode_varint_length_spec:
  "encode_varint_length v = int (length (varint_bytes (unat v)))"
proof -
  have "encode_varint_length_loop v l = l - 1 + int (length (varint_bytes (unat v)))" for l
  proof (induction v l rule: encode_varint_length_loop.induct)
    case (1 v l)
    then show ?case
      by (auto simp: encode_varint_length_loop.simps [of v l] word_le_nat_alt varint_bytes_big
          varint_bytes_small unat_drop_bit)
  qed
  then show ?thesis by (simp add: encode_varint_length_def)
qed

lemma or_push_disjoint:
  fixes r :: "'a::len word"
  assumes "unat r < 2 ^ s"
  shows "r OR push_bit s x = r + push_bit s x"
proof -
  have "r = take_bit s r"
    using assms by (metis take_bit_nat_eq_self_iff unsigned_take_bit_eq word_eq_iff_unsigned)
  then have "r AND push_bit s x = 0"
    by (intro bit_eqI) (metis bit_and_iff bit_push_bit_iff bit_take_bit_iff bit_0_eq bot_apply linorder_not_le bot_bool_def)
  then show ?thesis by (simp add: disjunctive_add_eq_or)
qed

lemma or_push_of_nat:
  fixes r :: "'a::len word"
  assumes "unat r < 2 ^ s"
  shows "r OR push_bit s (of_nat m) = of_nat (unat r + m * 2 ^ s)"
  using or_push_disjoint [OF assms, of "of_nat m"] by (simp add: push_bit_eq_mult)

lemma unat_or_push:
  fixes r :: "'a::len word"
  assumes "unat r < 2 ^ s" and "unat r + m * 2 ^ s < 2 ^ LENGTH('a)"
  shows "unat (r OR push_bit s (of_nat m)) = unat r + m * 2 ^ s"
  using assms(2)
  by (simp only: or_push_of_nat [OF assms(1)] unsigned_of_nat of_nat_id take_bit_nat_eq_self)

lemma more_byte_bits:
  fixes n :: nat
  assumes "8 \<le> LENGTH('a::len)"
  defines "b \<equiv> (of_nat (128 + n mod 128) :: byte)"
  shows "(ucast b :: 'a word) AND 128 \<noteq> 0" and "(ucast b :: 'a word) AND 127 = of_nat (n mod 128)"
proof -
  have b: "b = of_nat (2 ^ 7 OR take_bit 7 n)"
    unfolding b_def using or_exp_eq [of 7 n] by (simp only: take_bit_eq_mod) simp
  have "bit ((ucast b :: 'a word) AND 2 ^ 7) 7"
    using assms(1) by (simp add: b bit_simps del: power_numeral)
  then show "(ucast b :: 'a word) AND 128 \<noteq> 0" by auto
  have "(ucast b :: 'a word) AND mask 7 = of_nat (take_bit 7 n)"
    using assms(1) by (intro bit_word_eqI) (auto simp: b bit_simps simp del: power_numeral)
  then show "(ucast b :: 'a word) AND 127 = of_nat (n mod 128)"
    by (simp add: mask_eq_exp_minus_1 take_bit_eq_mod)
qed

lemma last_byte_bits:
  fixes n :: nat
  assumes "8 \<le> LENGTH('a::len)" and "n < 128"
  shows "(ucast (of_nat n :: byte) :: 'a word) AND 128 = 0" and "(ucast (of_nat n :: byte) :: 'a word) = of_nat n"
proof -
  have n: "n = take_bit 7 n" using assms(2) by (simp add: take_bit_nat_eq_self)
  have "(ucast (of_nat (take_bit 7 n) :: byte) :: 'a word) AND 2 ^ 7 = 0"
    by (intro bit_word_eqI) (auto simp: bit_simps simp del: power_numeral)
  then show "(ucast (of_nat n :: byte) :: 'a word) AND 128 = 0" using n by simp
  have "(ucast (of_nat (take_bit 7 n) :: byte) :: 'a word) = of_nat (take_bit 7 n)"
    by (intro bit_word_eqI) (auto simp: bit_simps)
  then show "(ucast (of_nat n :: byte) :: 'a word) = of_nat n" using n by simp
qed

locale varint_reader =
  fixes rd :: "byte list \<Rightarrow> nat \<Rightarrow> nat \<Rightarrow> nat \<Rightarrow> 'a::len word \<Rightarrow> (nat \<times> 'a word) option option"
    and top :: nat
  assumes rd_unfold: "rd buf p limit shift result =
     (if shift \<le> top \<and> p < limit then do {
        b \<leftarrow> getb buf p;
        let byte = (ucast b :: 'a word);
        if byte AND 128 \<noteq> 0
        then rd buf (p + 1) limit (shift + 7) (result OR push_bit shift (byte AND 127))
        else Some (Some (p + 1, result OR push_bit shift byte))
      }
      else Some None)"
    and width: "8 \<le> LENGTH('a)"
    and top_digit: "7 * k < LENGTH('a) \<Longrightarrow> 7 * k \<le> top"
begin

lemma digit_shift_ok:
  assumes "unat r + n * 2 ^ (7 * k) < 2 ^ LENGTH('a)" and "0 < n \<or> k = 0"
  shows "7 * k \<le> top"
proof (cases "k = 0")
  case False
  with assms(2) have "2 ^ (7 * k) \<le> n * 2 ^ (7 * k)" by simp
  with assms(1) have "(2::nat) ^ (7 * k) < 2 ^ LENGTH('a)" by linarith
  then show ?thesis by (intro top_digit) simp
qed simp

lemma rd_last:
  assumes "getb buf p = Some (of_nat n)" and "n < 128" and "p < limit" and "shift \<le> top"
    and "unat r < 2 ^ shift"
  shows "rd buf p limit shift r = Some (Some (Suc p, of_nat (unat r + n * 2 ^ shift)))"
  using assms last_byte_bits [OF width assms(2)]
  by (subst rd_unfold) (simp add: or_push_of_nat Let_def)

lemma rd_more:
  assumes "getb buf p = Some (of_nat (128 + n mod 128))" and "p < limit" and "shift \<le> top"
  shows "rd buf p limit shift r =
    rd buf (Suc p) limit (shift + 7) (r OR push_bit shift (of_nat (n mod 128)))"
  using assms more_byte_bits [OF width, of n]
  by (subst rd_unfold) (simp add: Let_def del: of_nat_add)

lemma rd_complete:
  assumes "bytes_at buf p (varint_bytes n)" and "p + length (varint_bytes n) \<le> limit"
    and "unat r < 2 ^ (7 * k)" and "unat r + n * 2 ^ (7 * k) < 2 ^ LENGTH('a)"
    and "0 < n \<or> k = 0"
  shows "rd buf p limit (7 * k) r =
    Some (Some (p + length (varint_bytes n), of_nat (unat r + n * 2 ^ (7 * k))))"
  using assms
proof (induction n arbitrary: p r k rule: varint_bytes.induct)
  case (1 n)
  note at = "1.prems"(1) and lim = "1.prems"(2) and low = "1.prems"(3) and tot = "1.prems"(4)
  have ok: "7 * k \<le> top" using tot "1.prems"(5) by (rule digit_shift_ok)
  show ?case
  proof (cases "n < 128")
    case True
    with at lim show ?thesis
      using rd_last [OF _ True _ ok low, of buf p limit]
      by (simp add: varint_bytes_small bytes_at_Cons)
  next
    case False
    let ?r = "r OR push_bit (7 * k) (of_nat (n mod 128))"
    have split: "unat r + n * 2 ^ (7 * k) =
        (unat r + (n mod 128) * 2 ^ (7 * k)) + (n div 128) * 2 ^ (7 * Suc k)"
    proof -
      have "(m + 128 * q) * x = m * x + q * (128 * x)" for m q x :: nat
        by (simp add: algebra_simps)
      from this [of "n mod 128" "n div 128" "2 ^ (7 * k)"] show ?thesis
        by (simp add: power_add)
    qed
    have r': "unat ?r = unat r + (n mod 128) * 2 ^ (7 * k)"
      using low tot split by (intro unat_or_push) linarith+
    have "unat ?r < 2 ^ (7 * Suc k)"
    proof -
      have "n mod 128 \<le> 127" by simp
      then have "(n mod 128) * 2 ^ (7 * k) \<le> 127 * 2 ^ (7 * k)" by (rule mult_right_mono) simp
      moreover have "(2::nat) ^ (7 * Suc k) = 128 * 2 ^ (7 * k)" by (simp add: power_add)
      ultimately show ?thesis using low r' by linarith
    qed
    moreover have "unat ?r + (n div 128) * 2 ^ (7 * Suc k) < 2 ^ LENGTH('a)"
      using tot split r' by simp
    ultimately have "rd buf (Suc p) limit (7 * Suc k) ?r = Some (Some (Suc p + length (varint_bytes (n div 128)),
        of_nat (unat ?r + n div 128 * 2 ^ (7 * Suc k))))"
      using "1.IH" [OF False, of "Suc p" ?r "Suc k"] at lim False
      by (simp add: varint_bytes_big bytes_at_Cons)
    moreover have "rd buf p limit (7 * k) r = rd buf (Suc p) limit (7 * Suc k) ?r"
      using rd_more [OF _ _ ok, of buf p n limit r] at lim False
      by (simp add: varint_bytes_big bytes_at_Cons add.commute)
    ultimately show ?thesis
      using split r' False by (simp add: varint_bytes_big)
  qed
qed

lemma rd_truncated:
  assumes "bytes_at buf p (varint_bytes n)" and "limit < p + length (varint_bytes n)"
    and "p \<le> limit"
  shows "rd buf p limit shift r = Some None"
  using assms
proof (induction n arbitrary: p r shift rule: varint_bytes.induct)
  case (1 n)
  show ?case
  proof (cases "p < limit \<and> shift \<le> top")
    case True
    with "1.prems" have big: "\<not> n < 128" by (auto simp: varint_bytes_small)
    with "1.prems" True have "rd buf (Suc p) limit (shift + 7) r' = Some None" for r'
      using "1.IH" [OF big, of "Suc p" "shift + 7" r'] by (simp add: varint_bytes_big bytes_at_Cons)
    with True big "1.prems" show ?thesis
      using rd_more [of buf p n limit shift r] by (simp add: varint_bytes_big bytes_at_Cons)
  next
    case False
    then show ?thesis by (subst rd_unfold) auto
  qed
qed

end


interpretation v32: varint_reader get_varint32_loop 28
  by unfold_locales (subst get_varint32_loop.simps, simp_all)

interpretation v64: varint_reader get_varint64_loop 63
  by unfold_locales (subst get_varint64_loop.simps, simp_all)

lemma get_varint32_data_ptr_fallback:
  "get_varint32_data_ptr buf p limit = get_varint32_fallback buf p limit"
  by (cases "getb buf p")
     (auto simp: get_varint32_data_ptr_def get_varint32_fallback_def Let_def
       get_varint32_loop.simps [of buf p limit 0 0])

lemma get_varint32_correct:
  assumes "bytes_at buf p (varint_bytes (unat v))"
  shows "p + length (varint_bytes (unat v)) \<le> limit \<Longrightarrow>
      get_varint32_data_ptr buf p limit = Some (Some (p + length (varint_bytes (unat v)), v))"
    and "p \<le> limit \<Longrightarrow> limit < p + length (varint_bytes (unat v)) \<Longrightarrow>
      get_varint32_data_ptr buf p limit = Some None"
  using v32.rd_complete [OF assms, of limit 0 0] unsigned_less [of v, where ?'a = nat]
    v32.rd_truncated [OF assms, of limit 0 0]
  by (simp_all add: get_varint32_data_ptr_fallback get_varint32_fallback_def)

lemma get_varint64_correct:
  assumes "bytes_at buf p (varint_bytes (unat v))"
  shows "p + length (varint_bytes (unat v)) \<le> limit \<Longrightarrow>
      get_varint64_data_ptr buf p limit = Some (Some (p + length (varint_bytes (unat v)), v))"
    and "p \<le> limit \<Longrightarrow> limit < p + length (varint_bytes (unat v)) \<Longrightarrow>
      get_varint64_data_ptr buf p limit = Some None"
  using v64.rd_complete [OF assms, of limit 0 0] unsigned_less [of v, where ?'a = nat]
    v64.rd_truncated [OF assms, of limit 0 0]
  by (simp_all add: get_varint64_data_ptr_def get_varint64_fallback_def)

lemma length_varint32: "length (varint_bytes (unat (v::u32))) \<le> 5"
  using length_varint_bytes_le [of "unat v" 4] unsigned_less [of v, where ?'a = nat] by simp

lemma length_varint64: "length (varint_bytes (unat (v::u64))) \<le> 10"
  using length_varint_bytes_le [of "unat v" 9] unsigned_less [of v, where ?'a = nat] by simp

section \<open>Zigzag\<close>

lemma signed_drop_bit_top:
  fixes n :: "'a::len word"
  shows "signed_drop_bit (LENGTH('a) - 1) n = (if bit n (LENGTH('a) - 1) then -1 else 0)"
proof (rule bit_word_eqI)
  fix i assume "i < LENGTH('a)"
  then show "bit (signed_drop_bit (LENGTH('a) - 1) n) i =
      bit (if bit n (LENGTH('a) - 1) then -1 else 0 :: 'a word) i"
    by (cases i) (auto simp: bit_simps)
qed

lemma zigzag_nonneg:
  fixes n :: "'a::len word"
  assumes "\<not> bit n (LENGTH('a) - 1)"
  shows "drop_bit 1 (push_bit 1 n) = n"
proof (rule bit_word_eqI)
  fix i assume "i < LENGTH('a)"
  with assms show "bit (drop_bit 1 (push_bit 1 n)) i = bit n i"
    by (cases "Suc i < LENGTH('a)") (auto simp: bit_simps not_less le_Suc_eq simp del: push_bit_Suc)
qed

lemma zigzag_neg:
  fixes n :: "'a::len word"
  assumes "bit n (LENGTH('a) - 1)"
  shows "NOT (drop_bit 1 (NOT (push_bit 1 n))) = n"
proof (rule bit_word_eqI)
  fix i assume "i < LENGTH('a)"
  with assms show "bit (NOT (drop_bit 1 (NOT (push_bit 1 n)))) i = bit n i"
    by (cases "Suc i < LENGTH('a)") (auto simp: bit_simps not_less le_Suc_eq simp del: push_bit_Suc)
qed



lemma push_bit_1_even: "even (push_bit 1 (n :: 'a::len word))"
  by (simp add: even_push_bit_iff)

lemma and_1_eq: "(n :: 'a::len word) AND 1 = (if even n then 0 else 1)"
  by (simp add: and_one_eq mod2_eq_if)

lemma zigzag_roundtrip:
  fixes n :: "'a::len word"
  defines "m \<equiv> push_bit 1 n XOR signed_drop_bit (LENGTH('a) - 1) n"
  shows "drop_bit 1 m XOR - (m AND 1) = n"
proof (cases "bit n (LENGTH('a) - 1)")
  case True
  then have m: "m = NOT (push_bit 1 n)"
    by (simp only: m_def signed_drop_bit_top if_True) simp
  then have "odd m"
    using push_bit_1_even [of n] by (simp add: even_not_iff)
  with zigzag_neg [OF True] show ?thesis by (simp add: and_1_eq m)
next
  case False
  then have m: "m = push_bit 1 n"
    by (simp only: m_def signed_drop_bit_top if_False) simp
  then have "even m" by (simp only: push_bit_1_even)
  with zigzag_nonneg [OF False] show ?thesis by (simp add: and_1_eq m)
qed

lemma take_bit_uint [simp]: "take_bit LENGTH('a) (uint (x :: 'a::len word)) = uint x"
  by (rule take_bit_int_eq_self) simp_all

lemma sint_sign:
  fixes n :: "'a::len word"
  shows "sint n = uint n - (if bit n (LENGTH('a) - 1) then 2 ^ LENGTH('a) else 0)"
proof -
  have "sint n = take_bit LENGTH('a) (uint n) - 2 ^ LENGTH('a) * of_bool (bit (uint n) (LENGTH('a) - 1))"
    using signed_take_bit_eq_take_bit_minus [of "LENGTH('a) - 1" "uint n"] by (simp add: sint_uint)
  then show ?thesis by (simp add: bit_simps)
qed

lemma uint_not: "uint (NOT x) = 2 ^ LENGTH('a) - 1 - uint x" for x :: "'a::len word"
  by (simp add: unsigned_not_eq take_bit_not_eq_mask_diff mask_eq_exp_minus_1)

lemma bit_top_iff:
  fixes n :: "'a::len word"
  shows "bit n (LENGTH('a) - 1) \<longleftrightarrow> 2 ^ (LENGTH('a) - 1) \<le> uint n"
proof (cases "uint n < 2 ^ (LENGTH('a) - 1)")
  case True
  then have "\<not> bit (uint n) (LENGTH('a) - 1)" by (simp add: bit_iff_odd)
  with True show ?thesis by (simp add: bit_simps)
next
  case False
  have "uint n < 2 * 2 ^ (LENGTH('a) - 1)"
    using unsigned_less [of n, where ?'a = int] by (metis len_gt_0 power_minus_mult mult.commute)
  with False have "uint n div 2 ^ (LENGTH('a) - 1) = 1"
    by (intro int_div_pos_eq [where r = "uint n - 2 ^ (LENGTH('a) - 1)"]) auto
  then have "bit (uint n) (LENGTH('a) - 1)" by (simp add: bit_iff_odd)
  with False show ?thesis by (simp add: bit_simps)
qed

lemma uint_zigzag:
  fixes n :: "'a::len word"
  shows "uint (push_bit 1 n XOR signed_drop_bit (LENGTH('a) - 1) n) =
    (if 0 \<le> sint n then 2 * sint n else - 2 * sint n - 1)"
proof -
  let ?M = "2 ^ LENGTH('a) :: int"
  have M: "?M = 2 * 2 ^ (LENGTH('a) - 1)" by (metis len_gt_0 power_minus_mult mult.commute)
  have u: "0 \<le> uint n" "uint n < ?M" by simp_all
  have dbl: "uint (push_bit 1 n) = (2 * uint n) mod ?M"
    by (simp add: uint_word_ariths mult.commute)
  show ?thesis
  proof (cases "bit n (LENGTH('a) - 1)")
    case True
    then have "2 ^ (LENGTH('a) - 1) \<le> uint n" by (simp only: bit_top_iff)
    with u M have "(2 * uint n) mod ?M = 2 * uint n - ?M"
      by (intro int_mod_pos_eq [where q = 1]) auto
    with dbl have "uint (NOT (push_bit 1 n)) = 2 * (?M - uint n) - 1"
      by (simp only: uint_not) simp
    moreover have "sint n = uint n - ?M" using True sint_sign [of n] by (simp only: if_True)
    ultimately show ?thesis
      by (simp only: signed_drop_bit_top True if_True) (simp add: not_le)
  next
    case False
    then have "uint n < 2 ^ (LENGTH('a) - 1)" by (simp only: bit_top_iff not_le)
    with u M have "(2 * uint n) mod ?M = 2 * uint n" by (intro mod_pos_pos_trivial) auto
    moreover have "sint n = uint n" using False sint_sign [of n] by (simp only: if_False)
    ultimately show ?thesis
      using dbl by (simp only: signed_drop_bit_top False if_False) simp
  qed
qed

section \<open>Fixed-width little-endian integers\<close>

lemma ucast_and_ff: "(ucast (x AND 0xff) :: byte) = ucast (x :: 'a::len word)"
proof -
  have "(ucast (x AND mask 8) :: byte) = ucast x"
    by (rule bit_word_eqI) (auto simp: bit_simps dest: bit_imp_le_length)
  then show ?thesis by (simp add: mask_eq_exp_minus_1)
qed

lemma of_le_bytes_le_bytes:
  "of_le_bytes (le_bytes n v) = take_bit (8 * n) (v :: 'a::len word)"
proof (induction n arbitrary: v)
  case (Suc n)
  have "le_bytes (Suc n) v = ucast v # le_bytes n (drop_bit 8 v)"
    by (simp add: le_bytes_def upt_conv_Cons map_Suc_upt [symmetric] comp_def add.commute
        del: upt_Suc)
  moreover have "ucast (ucast v :: byte) OR push_bit 8 (take_bit (8 * n) (drop_bit 8 v)) =
      take_bit (8 * Suc n) v"
    by (rule bit_word_eqI) (auto simp: bit_simps)
  ultimately show ?case by (simp only: of_le_bytes.simps Suc)
qed (simp add: le_bytes_def)

lemma length_le_bytes [simp]: "length (le_bytes n v) = n"
  by (simp add: le_bytes_def)

lemma le_bytes_4: "le_bytes 4 v =
    [ucast v, ucast (drop_bit 8 v), ucast (drop_bit 16 v), ucast (drop_bit 24 v)]"
  by (simp add: le_bytes_def upt_rec numeral_eq_Suc)

lemma le_bytes_8: "le_bytes 8 v =
    [ucast v, ucast (drop_bit 8 v), ucast (drop_bit 16 v), ucast (drop_bit 24 v),
     ucast (drop_bit 32 v), ucast (drop_bit 40 v), ucast (drop_bit 48 v), ucast (drop_bit 56 v)]"
  by (simp add: le_bytes_def upt_rec numeral_eq_Suc)

lemma is_little_endian_eq: "is_little_endian host_le = (if host_le then 1 else 0)"
  by (simp add: is_little_endian_def host_bytes_def le_bytes_4)


lemmas le_codec_defs = encode_little_endian32_def encode_little_endian64_def
  decode_little_endian32_def decode_little_endian64_def memcpy_in_def memcpy_out_def
  host_bytes_def of_host_bytes_def ucast_and_ff

lemma encode_le32:
  assumes "le = 0 \<or> le = is_little_endian h" and "p + 4 \<le> length buf"
  shows "encode_little_endian32 h le buf p v = Some (put_bytes buf p (le_bytes 4 v))"
  using assms by (auto simp: le_codec_defs is_little_endian_eq le_bytes_4)

lemma encode_le64:
  assumes "le = 0 \<or> le = is_little_endian h" and "p + 8 \<le> length buf"
  shows "encode_little_endian64 h le buf p v = Some (put_bytes buf p (le_bytes 8 v))"
  using assms by (auto simp: le_codec_defs is_little_endian_eq le_bytes_8)

lemma memcpy_out_at: "bytes_at buf p (le_bytes n v) \<Longrightarrow> memcpy_out buf p n = Some (le_bytes n v)"
  by (simp add: bytes_at_def memcpy_out_def)

lemma decode_le32:
  assumes "le = 0 \<or> le = is_little_endian h" and "bytes_at buf p (le_bytes 4 v)"
  shows "decode_little_endian32 h le buf p = Some v"
proof -
  have v: "of_le_bytes (le_bytes 4 v) = v"
    by (simp add: of_le_bytes_le_bytes take_bit_word_eq_self)
  have ptr: "p + 1 = Suc p" "p + 2 = Suc (Suc p)" "p + 3 = Suc (Suc (Suc p))"
    by simp_all
  have "getb buf p = Some (ucast v)" "getb buf (p + 1) = Some (ucast (drop_bit 8 v))"
    "getb buf (p + 2) = Some (ucast (drop_bit 16 v))"
    "getb buf (p + 3) = Some (ucast (drop_bit 24 v))"
    using assms(2) unfolding ptr by (simp_all add: le_bytes_4 bytes_at_Cons)
  with assms(1) v memcpy_out_at [OF assms(2)] show ?thesis
    by (auto simp: decode_little_endian32_def of_host_bytes_def is_little_endian_eq)
       (simp_all add: le_bytes_4 push_bit_or ac_simps)
qed

lemma bytes_at_append:
  "bytes_at buf p (xs @ ys) \<longleftrightarrow> bytes_at buf p xs \<and> bytes_at buf (p + length xs) ys"
  by (induction xs arbitrary: p) (auto simp: bytes_at_Cons, auto simp: bytes_at_def)

lemma le_bytes_8_split:
  "le_bytes 8 (v :: u64) = le_bytes 4 (ucast v :: u32) @ le_bytes 4 (ucast (drop_bit 32 v) :: u32)"
proof -
  have "(ucast (drop_bit k (ucast x :: u32)) :: byte) = ucast (drop_bit k x)" if "k \<le> 24" for k and x :: u64
    using that by (intro bit_word_eqI) (auto simp: bit_simps)
  from this [of 0] this [of 8] this [of 16] this [of 24] show ?thesis
    by (simp add: le_bytes_8 le_bytes_4)
qed

lemma decode_le64:
  assumes "le = 0 \<or> le = is_little_endian h" and "bytes_at buf p (le_bytes 8 v)"
  shows "decode_little_endian64 h le buf p = Some v"
proof -
  have v: "of_le_bytes (le_bytes 8 v) = v"
    by (simp add: of_le_bytes_le_bytes take_bit_word_eq_self)
  have vv: "push_bit 32 (ucast (ucast (drop_bit 32 v) :: u32)) OR ucast (ucast v :: u32) = v"
    by (rule bit_word_eqI) (auto simp: bit_simps)
  have "bytes_at buf p (le_bytes 4 (ucast v :: u32))"
    "bytes_at buf (p + 4) (le_bytes 4 (ucast (drop_bit 32 v) :: u32))"
    using assms(2) by (simp_all add: le_bytes_8_split bytes_at_append)
  then have "decode_little_endian32 h 0 buf p = Some (ucast v)"
    "decode_little_endian32 h 0 buf (p + 4) = Some (ucast (drop_bit 32 v))"
    by (simp_all add: decode_le32)
  with assms(1) v vv memcpy_out_at [OF assms(2)] show ?thesis
    by (auto simp: decode_little_endian64_def is_little_endian_eq of_host_bytes_def)
qed

section \<open>Properties\<close>

text \<open>\<open>encode_varint32\<close> and \<open>get_varint32_data_ptr\<close> are inverse: with five bytes of room
  the encoder writes one to five bytes at \<open>dst\<close> and nothing else, the decoder then returns the
  pointer behind them and the value for every limit that covers them, and \<open>NULL\<close> for every
  limit that cuts the varint short.\<close>
theorem varint32_roundtrip:
  assumes "dst + 5 \<le> length buf"
  shows "\<exists>buf' p. encode_varint32 buf dst v = Some (buf', p) \<and> dst < p \<and> p \<le> dst + 5
    \<and> length buf' = length buf \<and> (\<forall>i. i < dst \<or> p \<le> i \<longrightarrow> buf' ! i = buf ! i)
    \<and> (\<forall>limit \<ge> p. get_varint32_data_ptr buf' dst limit = Some (Some (p, v)))
    \<and> (\<forall>limit. dst \<le> limit \<and> limit < p \<longrightarrow> get_varint32_data_ptr buf' dst limit = Some None)"
proof -
  let ?bs = "varint_bytes (unat v)"
  have room: "dst + length ?bs \<le> length buf" using assms length_varint32 [of v] by linarith
  note at = bytes_at_put_bytes [OF room]
  have "encode_varint32 buf dst v = Some (put_bytes buf dst ?bs, dst + length ?bs)"
    using room by (rule encode_varint32_spec)
  with get_varint32_correct [OF at] length_varint32 [of v] show ?thesis
    by (intro exI [of _ "put_bytes buf dst ?bs"] exI [of _ "dst + length ?bs"])
       (auto simp: put_bytes_before put_bytes_after)
qed

theorem varint32_roundtrip_witness:
  "\<exists>buf' p. encode_varint32 (replicate 8 0) 1 300 = Some (buf', p) \<and> 1 < p \<and> p \<le> 6
    \<and> get_varint32_data_ptr buf' 1 8 = Some (Some (p, 300))"
  using varint32_roundtrip [of 1 "replicate 8 0" 300] by fastforce

text \<open>(C34) The same for the 64-bit codec, at most ten bytes; \<open>encode_varint_length\<close> is the number
  of bytes that \<open>encode_varint64\<close> writes.\<close>
theorem varint64_roundtrip:
  assumes "dst + 10 \<le> length buf"
  shows "\<exists>buf' p. encode_varint64 buf dst v = Some (buf', p) \<and> dst < p \<and> p \<le> dst + 10
    \<and> int p = int dst + encode_varint_length v
    \<and> length buf' = length buf \<and> (\<forall>i. i < dst \<or> p \<le> i \<longrightarrow> buf' ! i = buf ! i)
    \<and> (\<forall>limit \<ge> p. get_varint64_data_ptr buf' dst limit = Some (Some (p, v)))
    \<and> (\<forall>limit. dst \<le> limit \<and> limit < p \<longrightarrow> get_varint64_data_ptr buf' dst limit = Some None)"
proof -
  let ?bs = "varint_bytes (unat v)"
  have room: "dst + length ?bs \<le> length buf" using assms length_varint64 [of v] by linarith
  note at = bytes_at_put_bytes [OF room]
  have "encode_varint64 buf dst v = Some (put_bytes buf dst ?bs, dst + length ?bs)"
    using room by (rule encode_varint64_spec)
  with get_varint64_correct [OF at] length_varint64 [of v] show ?thesis
    by (intro exI [of _ "put_bytes buf dst ?bs"] exI [of _ "dst + length ?bs"])
       (auto simp: put_bytes_before put_bytes_after encode_varint_length_spec)
qed

theorem varint64_roundtrip_witness:
  "\<exists>buf' p. encode_varint64 (replicate 12 0) 2 103218 = Some (buf', p) \<and> 2 < p \<and> p \<le> 12
    \<and> get_varint64_data_ptr buf' 2 12 = Some (Some (p, 103218))"
  using varint64_roundtrip [of 2 "replicate 12 0" 103218] by fastforce

text \<open>The zigzag transform maps \<open>0, -1, 1, -2, 2, \<dots>\<close> to \<open>0, 1, 2, 3, 4, \<dots>\<close> and its
  decoder inverts it, in 32 and in 64 bits.\<close>
theorem zigzag_correct:
  "uint (zigzag_encode32 m) = (if 0 \<le> sint m then 2 * sint m else - 2 * sint m - 1)
   \<and> zigzag_decode32 (zigzag_encode32 m) = m
   \<and> uint (zigzag_encode64 n) = (if 0 \<le> sint n then 2 * sint n else - 2 * sint n - 1)
   \<and> zigzag_decode64 (zigzag_encode64 n) = n"
  using uint_zigzag [of m] uint_zigzag [of n] zigzag_roundtrip [of m] zigzag_roundtrip [of n]
  by (simp add: zigzag_encode32_def zigzag_decode32_def zigzag_encode64_def zigzag_decode64_def)

text \<open>On a host of either byte order, and whether or not \<open>is_little_endian\<close> has been run,
  the fixed-width encoders store the bytes least significant first and the decoders read the
  value back.\<close>
theorem little_endian_roundtrip:
  assumes "le = 0 \<or> le = is_little_endian h" and "p + 8 \<le> length buf"
  shows "encode_little_endian32 h le buf p x = Some (put_bytes buf p (le_bytes 4 x))
   \<and> decode_little_endian32 h le (put_bytes buf p (le_bytes 4 x)) p = Some x
   \<and> encode_little_endian64 h le buf p y = Some (put_bytes buf p (le_bytes 8 y))
   \<and> decode_little_endian64 h le (put_bytes buf p (le_bytes 8 y)) p = Some y"
proof -
  have "bytes_at (put_bytes buf p (le_bytes 4 x)) p (le_bytes 4 x)"
    "bytes_at (put_bytes buf p (le_bytes 8 y)) p (le_bytes 8 y)"
    using assms(2) by (simp_all add: bytes_at_put_bytes)
  with assms show ?thesis
    by (simp add: encode_le32 encode_le64 decode_le32 decode_le64)
qed

theorem little_endian_roundtrip_witness:
  "encode_little_endian32 False 0 (replicate 8 0) 0 0x01020304 =
     Some (put_bytes (replicate 8 0) 0 (le_bytes 4 (0x01020304 :: u32)))"
  using little_endian_roundtrip [of 0 False 0 "replicate 8 0" "0x01020304" 0] by simp

end
