(* ===== verification/SortBase.thy ===== *)
theory SortBase
  imports CPrelude
begin

text \<open>
  What the sorting routines of \<open>sort_algorithms/\<close> share: the \<open>SWAP\<close> macro on array cells, the
  contract of a \<open>sort_cb\<close> as two locales, and lemmas on exchanging cells.  The elements are C
  ints that are only compared (and divided by ten in radix sort), the indices are C ints that stay
  between \<open>-1\<close> and the array length, so neither can overflow; both are integers here.  An
  access outside the array faults.
\<close>

section \<open>Exchanging two cells\<close>

definition SWAP :: "int list \<Rightarrow> int \<Rightarrow> int \<Rightarrow> int list option" where
  "SWAP a i j = do {
     tmp \<leftarrow> aget a i;
     y \<leftarrow> aget a j;
     a \<leftarrow> aput a i y;
     aput a j tmp
   }"

definition swapped :: "'a list \<Rightarrow> int \<Rightarrow> int \<Rightarrow> 'a list" where
  "swapped a i j = a[nat i := a ! nat j, nat j := a ! nat i]"

lemma upd_at: "0 \<le> i \<Longrightarrow> 0 \<le> j \<Longrightarrow> i < int (length xs) \<Longrightarrow>
    xs[nat i := v] ! nat j = (if i = j then v else xs ! nat j)"
  by (auto simp: nth_list_update)

lemma length_swapped [simp]: "length (swapped a i j) = length a"
  by (simp add: swapped_def)

lemma swapped_at:
  "0 \<le> i \<Longrightarrow> 0 \<le> j \<Longrightarrow> 0 \<le> k \<Longrightarrow> i < int (length a) \<Longrightarrow> j < int (length a) \<Longrightarrow>
   swapped a i j ! nat k = (if k = i then a ! nat j else if k = j then a ! nat i else a ! nat k)"
  by (auto simp: swapped_def upd_at)

lemma mset_swapped [simp]:
  "i < int (length a) \<Longrightarrow> j < int (length a) \<Longrightarrow> 0 \<le> i \<Longrightarrow> 0 \<le> j \<Longrightarrow> mset (swapped a i j) = mset a"
  unfolding swapped_def by (rule mset_swap) linarith+

lemma SWAP_in [cmem]:
  "0 \<le> i \<Longrightarrow> i < int (length a) \<Longrightarrow> 0 \<le> j \<Longrightarrow> j < int (length a) \<Longrightarrow> SWAP a i j = Some (swapped a i j)"
  by (simp add: SWAP_def cmem swapped_def)

section \<open>The contract of a sorting routine\<close>

text \<open>
  \<open>rearr a l r a'\<close>: \<open>a'\<close> is a rearrangement of \<open>a\<close> that moves only cells between the indices
  \<open>l\<close> and \<open>r\<close>.  \<open>sorts_range\<close> adds that those cells are sorted.
\<close>

definition rearr :: "'a list \<Rightarrow> int \<Rightarrow> int \<Rightarrow> 'a list \<Rightarrow> bool" where
  "rearr a l r a' \<longleftrightarrow> length a' = length a \<and> mset a' = mset a
     \<and> (\<forall>i. 0 \<le> i \<and> (i < l \<or> r < i) \<longrightarrow> a' ! nat i = a ! nat i)"

definition sorts_range :: "int list \<Rightarrow> int \<Rightarrow> int \<Rightarrow> int list \<Rightarrow> bool" where
  "sorts_range a h e a' \<longleftrightarrow> rearr a h e a'
     \<and> (\<forall>i j. h \<le> i \<and> i \<le> j \<and> j \<le> e \<longrightarrow> a' ! nat i \<le> a' ! nat j)"

lemma rearr_refl [simp, intro]: "rearr a l r a"
  by (simp add: rearr_def)

lemma rearr_trans: "rearr a l r b \<Longrightarrow> rearr b l' r' c \<Longrightarrow> l0 \<le> l \<Longrightarrow> l0 \<le> l' \<Longrightarrow> r \<le> r0 \<Longrightarrow> r' \<le> r0 \<Longrightarrow>
    rearr a l0 r0 c"
  unfolding rearr_def by (smt (verit))

lemma rearr_widen: "rearr a l r b \<Longrightarrow> l0 \<le> l \<Longrightarrow> r \<le> r0 \<Longrightarrow> rearr a l0 r0 b"
  unfolding rearr_def by (smt (verit))

lemma rearr_length: "rearr a l r b \<Longrightarrow> length b = length a"
  by (simp add: rearr_def)

lemma rearr_mset: "rearr a l r b \<Longrightarrow> mset b = mset a"
  by (simp add: rearr_def)

lemma rearr_outside: "rearr a l r b \<Longrightarrow> 0 \<le> i \<Longrightarrow> i < l \<or> r < i \<Longrightarrow> b ! nat i = a ! nat i"
  by (simp add: rearr_def)

lemma rearr_swapped:
  "0 \<le> l \<Longrightarrow> l \<le> i \<Longrightarrow> l \<le> j \<Longrightarrow> i \<le> r \<Longrightarrow> j \<le> r \<Longrightarrow> r < int (length a) \<Longrightarrow> rearr a l r (swapped a i j)"
  by (simp add: rearr_def swapped_at)

text \<open>The cells of the range hold the same values in some order.\<close>

lemma rearr_all:
  assumes "rearr a l r b" and "0 \<le> l" and "r < int (length a)"
    and all: "\<And>k. l \<le> k \<Longrightarrow> k \<le> r \<Longrightarrow> P (a ! nat k)" and k: "l \<le> k" "k \<le> r"
  shows "P (b ! nat k)"
proof -
  let ?s = "\<lambda>xs. drop (nat l) (take (nat (r + 1)) xs)"
  have split: "xs = take (nat l) xs @ ?s xs @ drop (nat (r + 1)) xs" for xs :: "'a list"
  proof -
    have "take (nat l) (take (nat (r + 1)) xs) = take (nat l) xs" using assms(2) k by (simp add: min_def)
    then show ?thesis by (metis append.assoc append_take_drop_id)
  qed
  have len: "length b = length a" using assms(1) by (simp add: rearr_def)
  have "take (nat l) b = take (nat l) a"
  proof (rule nth_equalityI)
    fix i assume "i < length (take (nat l) b)"
    then have "int i < l" "i < length b" by auto
    then show "take (nat l) b ! i = take (nat l) a ! i"
      using rearr_outside [OF assms(1), of "int i"] by simp
  qed (simp add: len)
  moreover have "drop (nat (r + 1)) b = drop (nat (r + 1)) a"
  proof (rule nth_equalityI)
    fix i assume "i < length (drop (nat (r + 1)) b)"
    then show "drop (nat (r + 1)) b ! i = drop (nat (r + 1)) a ! i"
      using rearr_outside [OF assms(1), of "r + 1 + int i"] assms(2) k by (simp add: nat_add_distrib len)
  qed (simp add: len)
  moreover have "mset b = mset a" using assms(1) by (simp add: rearr_def)
  ultimately have "mset (?s b) = mset (?s a)"
    using split [of a] split [of b] by (metis add_left_cancel add_right_cancel mset_append)
  moreover have "b ! nat k \<in> set (?s b)"
    unfolding set_conv_nth using k assms(2,3) len
    by (auto intro!: exI [of _ "nat (k - l)"] simp flip: nat_add_distrib)
  ultimately have "b ! nat k \<in> set (?s a)" by (metis set_mset_mset)
  then obtain i where i: "i < length (?s a)" "b ! nat k = ?s a ! i" by (auto simp: in_set_conv_nth)
  then have "nat l \<le> length a" "nat l \<le> nat (r + 1)" by auto
  with i have "b ! nat k = a ! nat (l + int i)" using assms(2) by (simp add: nat_add_distrib)
  then show ?thesis using all [of "l + int i"] i(1) assms(2,3) by simp
qed

lemma sorted_by_index:
  assumes "\<And>i j. 0 \<le> i \<Longrightarrow> i \<le> j \<Longrightarrow> j < int (length a) \<Longrightarrow> a ! nat i \<le> a ! nat j"
  shows "sorted a"
proof -
  have "a ! i \<le> a ! j" if "i \<le> j" "j < length a" for i j
    using assms [of "int i" "int j"] that by simp
  then show ?thesis by (simp add: sorted_iff_nth_mono)
qed

lemma eq_sortI: "mset b = mset a \<Longrightarrow> sorted b \<Longrightarrow> b = sort a" for a b :: "int list"
  by (metis properties_for_sort)

lemma sorts_range_full:
  assumes "sorts_range a 0 (int (length a) - 1) a'"
  shows "a' = sort a"
proof (rule eq_sortI)
  show "mset a' = mset a" using assms by (simp add: sorts_range_def rearr_def)
  have "length a' = length a" and le: "\<And>i j. 0 \<le> i \<and> i \<le> j \<and> j \<le> int (length a) - 1 \<Longrightarrow> a' ! nat i \<le> a' ! nat j"
    using assms unfolding sorts_range_def rearr_def by blast+
  then show "sorted a'" by (intro sorted_by_index) simp
qed

text \<open>
  A \<open>sort_cb\<close> called on a whole array sorts it, when its elements are ones it supports (\<open>ok\<close>).
\<close>

locale array_sort =
  fixes srt :: "int list \<Rightarrow> int \<Rightarrow> int \<Rightarrow> int \<Rightarrow> int list option"
    and ok :: "int list \<Rightarrow> bool"
  assumes sorts: "ok a \<Longrightarrow> srt a 0 (int (length a) - 1) (int (length a)) = Some (sort a)"
begin

lemma sorts_permutation:
  assumes "ok a" and "ok b" and "mset a = mset b"
  shows "srt a 0 (int (length a) - 1) (int (length a)) = srt b 0 (int (length b) - 1) (int (length b))"
proof -
  have "sort a = sort b" using assms(3) by (intro properties_for_sort) simp_all
  with assms(1,2) show ?thesis by (simp add: sorts)
qed

end

text \<open>
  The routines that honour \<open>hindex\<close> and \<open>eindex\<close> sort any range of an array and touch nothing
  else.
\<close>

locale range_sort =
  fixes srt :: "int list \<Rightarrow> int \<Rightarrow> int \<Rightarrow> int \<Rightarrow> int list option"
  assumes sorts_part: "0 \<le> h \<Longrightarrow> h \<le> e + 1 \<Longrightarrow> e < int (length a) \<Longrightarrow>
    \<exists>a'. srt a h e n = Some a' \<and> sorts_range a h e a'"

sublocale range_sort \<subseteq> array_sort srt "\<lambda>_. True"
proof
  fix a :: "int list"
  show "srt a 0 (int (length a) - 1) (int (length a)) = Some (sort a)"
    using sorts_part [of 0 "int (length a) - 1" a "int (length a)"] sorts_range_full by fastforce
qed

end
