(* ===== verification/ExchangeSorts.thy ===== *)
theory ExchangeSorts
  imports SortBase
begin

text \<open>
  The routines of \<open>sort_algorithms/\<close> that work by exchanging cells of a range:
  \<open>bubble_sort.h\<close>, \<open>select_sort.h\<close> and \<open>quick_sort.h\<close>.  Each is shown to satisfy the
  contract \<open>range_sort\<close>.
\<close>

section \<open>Definitions\<close>

function bubble_inner :: "int list \<Rightarrow> int \<Rightarrow> int \<Rightarrow> int list option" where
  "bubble_inner a i j =
     (if i < j then do {
        x \<leftarrow> aget a i;
        y \<leftarrow> aget a (i + 1);
        a \<leftarrow> (if x > y then SWAP a i (i + 1) else Some a);
        bubble_inner a (i + 1) j
      } else Some a)"
  by pat_completeness auto
termination by (relation "measure (\<lambda>(a, i, j). nat (j - i))") auto

function bubble_outer :: "int list \<Rightarrow> int \<Rightarrow> int \<Rightarrow> int list option" where
  "bubble_outer a hindex j =
     (if j \<ge> hindex then do {
        a \<leftarrow> bubble_inner a hindex j;
        bubble_outer a hindex (j - 1)
      } else Some a)"
  by pat_completeness auto
termination by (relation "measure (\<lambda>(a, h, j). nat (j - h + 1))") auto

definition bubble_sort :: "int list \<Rightarrow> int \<Rightarrow> int \<Rightarrow> int \<Rightarrow> int list option" where
  "bubble_sort a hindex eindex array_size = bubble_outer a hindex eindex"

function select_min :: "int list \<Rightarrow> int \<Rightarrow> int \<Rightarrow> int \<Rightarrow> int option" where
  "select_min a i eindex mn =
     (if i \<le> eindex then do {
        x \<leftarrow> aget a i;
        y \<leftarrow> aget a mn;
        select_min a (i + 1) eindex (if x < y then i else mn)
      } else Some mn)"
  by pat_completeness auto
termination by (relation "measure (\<lambda>(a, i, e, m). nat (e - i + 1))") auto

function select_outer :: "int list \<Rightarrow> int \<Rightarrow> int \<Rightarrow> int list option" where
  "select_outer a j eindex =
     (if j \<le> eindex then do {
        mn \<leftarrow> select_min a j eindex j;
        a \<leftarrow> (if mn \<noteq> j then SWAP a mn j else Some a);
        select_outer a (j + 1) eindex
      } else Some a)"
  by pat_completeness auto
termination by (relation "measure (\<lambda>(a, j, e). nat (e - j + 1))") auto

definition select_sort :: "int list \<Rightarrow> int \<Rightarrow> int \<Rightarrow> int \<Rightarrow> int list option" where
  "select_sort a hindex eindex array_size = select_outer a hindex eindex"

function partition_loop :: "int list \<Rightarrow> int \<Rightarrow> int \<Rightarrow> int \<Rightarrow> (int list \<times> int) option" where
  "partition_loop a i eindex mid =
     (if i < eindex then do {
        x \<leftarrow> aget a i;
        y \<leftarrow> aget a eindex;
        if x < y then do {
          a \<leftarrow> SWAP a i mid;
          partition_loop a (i + 1) eindex (mid + 1)
        } else partition_loop a (i + 1) eindex mid
      } else Some (a, mid))"
  by pat_completeness auto
termination by (relation "measure (\<lambda>(a, i, e, m). nat (e - i))") auto

definition partition :: "int list \<Rightarrow> int \<Rightarrow> int \<Rightarrow> (int list \<times> int) option" where
  "partition a hindex eindex = do {
     (a, mid) \<leftarrow> partition_loop a hindex eindex hindex;
     a \<leftarrow> SWAP a eindex mid;
     Some (a, mid)
   }"

text \<open>The recursion of \<open>quick_sort\<close> is only bounded because of what \<open>partition\<close> returns.\<close>

partial_function (option) quick_sort :: "int list \<Rightarrow> int \<Rightarrow> int \<Rightarrow> int \<Rightarrow> int list option" where
  "quick_sort a hindex eindex array_size =
     (if hindex < eindex then do {
        (a, mid) \<leftarrow> partition a hindex eindex;
        a \<leftarrow> quick_sort a hindex (mid - 1) array_size;
        quick_sort a (mid + 1) eindex array_size
      } else Some a)"

declare bubble_inner.simps [simp del] bubble_outer.simps [simp del] select_min.simps [simp del]
  select_outer.simps [simp del] partition_loop.simps [simp del]

section \<open>Bubble sort\<close>

lemma bubble_inner_spec:
  assumes "0 \<le> i" and "i \<le> j" and "j < int (length a)"
  shows "\<exists>a'. bubble_inner a i j = Some a' \<and> rearr a i j a' \<and> (\<forall>k. i \<le> k \<and> k \<le> j \<longrightarrow> a' ! nat k \<le> a' ! nat j)"
  using assms
proof (induction a i j rule: bubble_inner.induct)
  case (1 a i j)
  show ?case
  proof (cases "i < j")
    case False
    with 1 show ?thesis by (subst bubble_inner.simps) auto
  next
    case True
    define b where "b = (if a ! nat i > a ! nat (i + 1) then swapped a i (i + 1) else a)"
    have step: "(if a ! nat i > a ! nat (i + 1) then SWAP a i (i + 1) else Some a) = Some b"
      using 1(2-4) True by (simp add: b_def cmem)
    have b: "rearr a i j b" "length b = length a" "b ! nat i \<le> b ! nat (i + 1)"
      using 1(2-4) True by (auto intro: rearr_swapped simp: swapped_at b_def)
    obtain a' where a': "bubble_inner b (i + 1) j = Some a'" "rearr b (i + 1) j a'"
      "\<forall>k. i + 1 \<le> k \<and> k \<le> j \<longrightarrow> a' ! nat k \<le> a' ! nat j"
      using 1(1) [OF True _ _ step] 1(2-4) True b(2) by (auto simp: cmem)
    have "bubble_inner a i j = Some a'"
      using a'(1) 1(2-4) True step by (subst bubble_inner.simps) (simp add: cmem)
    moreover have "rearr a i j a'" using b(1) a'(2) by (rule rearr_trans) auto
    moreover have "a' ! nat i \<le> a' ! nat j"
    proof -
      have "b ! nat (i + 1) \<le> a' ! nat j"
      proof (rule ccontr)
        assume "\<not> ?thesis"
        then have "\<And>k. i + 1 \<le> k \<Longrightarrow> k \<le> j \<Longrightarrow> a' ! nat k < b ! nat (i + 1)"
          using a'(3) by (meson le_less_trans not_le)
        moreover have "rearr a' (i + 1) j b" using a'(2) by (simp add: rearr_def)
        ultimately have "b ! nat (i + 1) < b ! nat (i + 1)"
          using rearr_all [of a' "i + 1" j b "\<lambda>x. x < b ! nat (i + 1)" "i + 1"] 1(2-4) True
            rearr_length [OF a'(2)] b(2) by auto
        then show False by simp
      qed
      moreover have "a' ! nat i = b ! nat i" using a'(2) 1(2) by (intro rearr_outside) auto
      ultimately show ?thesis using b(3) by linarith
    qed
    ultimately show ?thesis using a'(3) by (intro exI [of _ a']) (metis add1_zle_eq antisym_conv2 zless_add1_eq not_le)
  qed
qed

lemma bubble_outer_spec:
  assumes "0 \<le> h" and "h \<le> j + 1" and "j \<le> e" and "e < int (length a)"
    and "\<And>i k. h \<le> i \<Longrightarrow> i \<le> k \<Longrightarrow> j < k \<Longrightarrow> k \<le> e \<Longrightarrow> a ! nat i \<le> a ! nat k"
  shows "\<exists>a'. bubble_outer a h j = Some a' \<and> sorts_range a h e a'"
  using assms
proof (induction a h j rule: bubble_outer.induct)
  case (1 a h j)
  show ?case
  proof (cases "j \<ge> h")
    case False
    with 1 show ?thesis by (subst bubble_outer.simps) (auto simp: sorts_range_def)
  next
    case True
    then obtain b where b: "bubble_inner a h j = Some b" "rearr a h j b"
      "\<forall>k. h \<le> k \<and> k \<le> j \<longrightarrow> b ! nat k \<le> b ! nat j"
      using bubble_inner_spec [of h j a] 1 by auto
    have "b ! nat i \<le> b ! nat k" if ik: "h \<le> i" "i \<le> k" "j - 1 < k" "k \<le> e" for i k
    proof (cases "k = j")
      case True
      with b(3) ik show ?thesis by auto
    next
      case False
      then have k: "b ! nat k = a ! nat k" using b(2) ik 1(2) by (intro rearr_outside) auto
      show ?thesis
      proof (cases "i \<le> j")
        case True
        have "b ! nat i \<le> a ! nat k"
          using b(2) by (rule rearr_all) (use 1(2-6) ik True False in auto)
        with k show ?thesis by simp
      next
        case False
        then have "b ! nat i = a ! nat i" using b(2) ik 1(2) by (intro rearr_outside) auto
        with k 1(6) [of i k] ik False show ?thesis by auto
      qed
    qed
    then obtain a' where "bubble_outer b h (j - 1) = Some a'" "sorts_range b h e a'"
      using 1(1) [OF True b(1)] 1(2-5) True rearr_length [OF b(2)] by auto
    then show ?thesis
      using b(1,2) True 1(4) rearr_trans [OF b(2), of h e a' h e]
      by (subst bubble_outer.simps) (auto simp: sorts_range_def)
  qed
qed

interpretation bubble: range_sort bubble_sort
proof
  fix h e n :: int and a :: "int list"
  assume "0 \<le> h" "h \<le> e + 1" "e < int (length a)"
  then show "\<exists>a'. bubble_sort a h e n = Some a' \<and> sorts_range a h e a'"
    unfolding bubble_sort_def by (intro bubble_outer_spec) auto
qed

section \<open>Selection sort\<close>

lemma select_min_spec:
  assumes "0 \<le> j" and "j \<le> mn" and "mn \<le> e" and "j \<le> i" and "mn \<le> i" and "i \<le> e + 1" and "e < int (length a)"
    and "\<And>k. j \<le> k \<Longrightarrow> k < i \<Longrightarrow> a ! nat mn \<le> a ! nat k"
  shows "\<exists>m. select_min a i e mn = Some m \<and> j \<le> m \<and> m \<le> e \<and> (\<forall>k. j \<le> k \<and> k \<le> e \<longrightarrow> a ! nat m \<le> a ! nat k)"
  using assms
proof (induction a i e mn rule: select_min.induct)
  case (1 a i e mn)
  show ?case
  proof (cases "i \<le> e")
    case False
    with 1 show ?thesis by (subst select_min.simps) auto
  next
    case True
    define m' where "m' = (if a ! nat i < a ! nat mn then i else mn)"
    have m': "j \<le> m'" "m' \<le> i" using 1(2-8) by (auto simp: m'_def)
    have min: "a ! nat m' \<le> a ! nat k" if "j \<le> k" "k < i + 1" for k
      using 1(9) [of k] that by (cases "k = i") (auto simp: m'_def)
    then obtain m where "select_min a (i + 1) e m' = Some m" "j \<le> m" "m \<le> e"
      "\<forall>k. j \<le> k \<and> k \<le> e \<longrightarrow> a ! nat m \<le> a ! nat k"
      using 1(1) [OF True, of "a ! nat i" "a ! nat mn"] 1(2-8) True m'
      by (auto simp: cmem simp flip: m'_def)
    with 1(2-8) True show ?thesis by (subst select_min.simps) (auto simp: cmem simp flip: m'_def)
  qed
qed

lemma select_outer_spec:
  assumes "0 \<le> h" and "h \<le> j" and "j \<le> e + 1" and "e < int (length a)"
    and "\<And>i k. h \<le> i \<Longrightarrow> i < j \<Longrightarrow> i \<le> k \<Longrightarrow> k \<le> e \<Longrightarrow> a ! nat i \<le> a ! nat k"
  shows "\<exists>a'. select_outer a j e = Some a' \<and> sorts_range a h e a'"
  using assms
proof (induction a j e rule: select_outer.induct)
  case (1 a j e)
  show ?case
  proof (cases "j \<le> e")
    case False
    with 1 show ?thesis by (subst select_outer.simps) (auto simp: sorts_range_def)
  next
    case True
    then obtain m where m: "select_min a j e j = Some m" "j \<le> m" "m \<le> e"
      "\<forall>k. j \<le> k \<and> k \<le> e \<longrightarrow> a ! nat m \<le> a ! nat k"
      using select_min_spec [of j j e j a] 1(2-5) by auto
    define b where "b = (if m \<noteq> j then swapped a m j else a)"
    have step: "(if m \<noteq> j then SWAP a m j else Some a) = Some b"
      using m 1(2-5) True by (simp add: b_def cmem)
    have b: "rearr a j e b" using m 1(2-5) True by (auto intro: rearr_swapped simp: b_def)
    have "b ! nat i \<le> b ! nat k" if ik: "h \<le> i" "i < j + 1" "i \<le> k" "k \<le> e" for i k
    proof (cases "i = j")
      case True
      with m ik 1(2-5) show ?thesis by (auto simp: swapped_at b_def)
    next
      case False
      with ik have "i < j" by simp
      then have "b ! nat i = a ! nat i" using b ik 1(2) by (intro rearr_outside) auto
      moreover have "a ! nat i \<le> b ! nat k"
        using ik \<open>i < j\<close> m 1(2-5) 1(6) [of i k] 1(6) [of i m] 1(6) [of i j] by (auto simp: swapped_at b_def)
      ultimately show ?thesis by simp
    qed
    then obtain a' where a': "select_outer b (j + 1) e = Some a'" "sorts_range b h e a'"
      using 1(1) [OF True m(1) step] 1(2-5) True rearr_length [OF b] by auto
    then show ?thesis
      using m(1) step True 1(3) rearr_trans [OF b, of h e a' h e]
      by (subst select_outer.simps) (auto simp: sorts_range_def)
  qed
qed

interpretation select: range_sort select_sort
proof
  fix h e n :: int and a :: "int list"
  assume "0 \<le> h" "h \<le> e + 1" "e < int (length a)"
  then show "\<exists>a'. select_sort a h e n = Some a' \<and> sorts_range a h e a'"
    unfolding select_sort_def by (intro select_outer_spec) auto
qed

section \<open>Quicksort\<close>

lemma partition_loop_spec:
  assumes "0 \<le> h" and "h \<le> mid" and "mid \<le> i" and "i \<le> e" and "e < int (length a)"
    and "\<And>k. h \<le> k \<Longrightarrow> k < mid \<Longrightarrow> a ! nat k < a ! nat e"
    and "\<And>k. mid \<le> k \<Longrightarrow> k < i \<Longrightarrow> a ! nat e \<le> a ! nat k"
  shows "\<exists>a' m. partition_loop a i e mid = Some (a', m) \<and> h \<le> m \<and> m \<le> e \<and> rearr a h (e - 1) a'
    \<and> (\<forall>k. h \<le> k \<and> k < m \<longrightarrow> a' ! nat k < a' ! nat e) \<and> (\<forall>k. m \<le> k \<and> k < e \<longrightarrow> a' ! nat e \<le> a' ! nat k)"
  using assms
proof (induction a i e mid rule: partition_loop.induct)
  case (1 a i e mid)
  note prems = 1(3-7) and below = 1(8) and above = 1(9)
  consider (stop) "\<not> i < e" | (less) "i < e" "a ! nat i < a ! nat e" | (geq) "i < e" "\<not> a ! nat i < a ! nat e"
    by blast
  then show ?case
  proof cases
    case stop
    with prems below above show ?thesis by (subst partition_loop.simps) auto
  next
    case less
    define b where "b = swapped a i mid"
    have step: "SWAP a i mid = Some b" using prems less by (simp add: b_def cmem)
    have b: "rearr a h (e - 1) b" using prems less by (auto intro: rearr_swapped simp: b_def)
    have at: "b ! nat k = (if k = i then a ! nat mid else if k = mid then a ! nat i else a ! nat k)"
      if "0 \<le> k" for k using that prems less by (simp add: b_def swapped_at)
    have "\<exists>a' m. partition_loop b (i + 1) e (mid + 1) = Some (a', m) \<and> h \<le> m \<and> m \<le> e \<and> rearr b h (e - 1) a'
      \<and> (\<forall>k. h \<le> k \<and> k < m \<longrightarrow> a' ! nat k < a' ! nat e) \<and> (\<forall>k. m \<le> k \<and> k < e \<longrightarrow> a' ! nat e \<le> a' ! nat k)"
    proof (rule 1(1) [OF less(1) _ _ less(2) step])
      fix k assume "h \<le> k" "k < mid + 1"
      then show "b ! nat k < b ! nat e" using below [of k] less prems by (auto simp: at)
    next
      fix k assume "mid + 1 \<le> k" "k < i + 1"
      then show "b ! nat e \<le> b ! nat k" using above [of k] above [of mid] less prems by (auto simp: at)
    qed (use prems less rearr_length [OF b] in \<open>auto simp: cmem\<close>)
    then obtain a' m where "partition_loop b (i + 1) e (mid + 1) = Some (a', m)" "h \<le> m" "m \<le> e"
      and r: "rearr b h (e - 1) a'"
      and "\<forall>k. h \<le> k \<and> k < m \<longrightarrow> a' ! nat k < a' ! nat e" "\<forall>k. m \<le> k \<and> k < e \<longrightarrow> a' ! nat e \<le> a' ! nat k"
      by blast
    moreover have "rearr a h (e - 1) a'" using b r by (rule rearr_trans) auto
    ultimately show ?thesis using prems less step by (subst partition_loop.simps) (simp add: cmem)
  next
    case geq
    have "\<exists>a' m. partition_loop a (i + 1) e mid = Some (a', m) \<and> h \<le> m \<and> m \<le> e \<and> rearr a h (e - 1) a'
      \<and> (\<forall>k. h \<le> k \<and> k < m \<longrightarrow> a' ! nat k < a' ! nat e) \<and> (\<forall>k. m \<le> k \<and> k < e \<longrightarrow> a' ! nat e \<le> a' ! nat k)"
    proof (rule 1(2) [OF geq(1) _ _ geq(2)])
      fix k assume "mid \<le> k" "k < i + 1"
      then show "a ! nat e \<le> a ! nat k" using above [of k] geq by (cases "k = i") auto
    qed (use prems geq below in \<open>auto simp: cmem\<close>)
    with prems geq show ?thesis by (subst partition_loop.simps) (simp add: cmem)
  qed
qed

lemma partition_spec:
  assumes "0 \<le> h" and "h < e" and "e < int (length a)"
  obtains a' m where "partition a h e = Some (a', m)" and "h \<le> m" and "m \<le> e" and "rearr a h e a'"
    and "\<And>k. h \<le> k \<Longrightarrow> k < m \<Longrightarrow> a' ! nat k \<le> a' ! nat m"
    and "\<And>k. m < k \<Longrightarrow> k \<le> e \<Longrightarrow> a' ! nat m \<le> a' ! nat k"
proof -
  obtain b m where b: "partition_loop a h e h = Some (b, m)" "h \<le> m" "m \<le> e" "rearr a h (e - 1) b"
    and lo: "\<And>k. h \<le> k \<and> k < m \<Longrightarrow> b ! nat k < b ! nat e" and hi: "\<And>k. m \<le> k \<and> k < e \<Longrightarrow> b ! nat e \<le> b ! nat k"
    using partition_loop_spec [of h h h e a] assms by auto
  have len: "length b = length a" by (rule rearr_length [OF b(4)])
  have "partition a h e = Some (swapped b e m, m)"
    using b assms len by (simp add: partition_def cmem)
  moreover have "rearr a h e (swapped b e m)"
    by (rule rearr_trans [OF b(4) rearr_swapped [of h e m e b]]) (use assms b len in auto)
  moreover have "swapped b e m ! nat k \<le> swapped b e m ! nat m" if "h \<le> k" "k < m" for k
    using lo [of k] that assms b(2,3) len by (simp add: swapped_at)
  moreover have "swapped b e m ! nat m \<le> swapped b e m ! nat k" if "m < k" "k \<le> e" for k
    using hi [of k] hi [of m] that assms b(2,3) len by (auto simp: swapped_at)
  ultimately show thesis using that b(2,3) by blast
qed

lemma quick_sort_spec:
  assumes "0 \<le> h" and "h \<le> e + 1" and "e < int (length a)"
  shows "\<exists>a'. quick_sort a h e n = Some a' \<and> sorts_range a h e a'"
  using assms
proof (induction "nat (e - h + 1)" arbitrary: a h e rule: less_induct)
  case less
  show ?case
  proof (cases "h < e")
    case False
    then have "i = j" if "h \<le> i" "i \<le> j" "j \<le> e" for i j using that by linarith
    then have "sorts_range a h e a" unfolding sorts_range_def by (metis order.refl rearr_refl)
    with False show ?thesis by (subst quick_sort.simps) simp
  next
    case True
    obtain b m where b: "partition a h e = Some (b, m)" "h \<le> m" "m \<le> e" "rearr a h e b"
      and lo: "\<And>k. h \<le> k \<Longrightarrow> k < m \<Longrightarrow> b ! nat k \<le> b ! nat m"
      and hi: "\<And>k. m < k \<Longrightarrow> k \<le> e \<Longrightarrow> b ! nat m \<le> b ! nat k"
      using partition_spec [OF less.prems(1) True less.prems(3)] by blast
    note len_b = rearr_length [OF b(4)]
    obtain c where c: "quick_sort b h (m - 1) n = Some c" "sorts_range b h (m - 1) c"
      using less.hyps [of "m - 1" h b] less.prems b(2,3) len_b by auto
    then have rc: "rearr b h (m - 1) c" by (simp add: sorts_range_def)
    note len_c = rearr_length [OF rc]
    obtain d where d: "quick_sort c (m + 1) e n = Some d" "sorts_range c (m + 1) e d"
      using less.hyps [of e "m + 1" c] less.prems b(2,3) len_b len_c True by auto
    then have rd: "rearr c (m + 1) e d" by (simp add: sorts_range_def)
    have left: "d ! nat i = c ! nat i" if "0 \<le> i" "i \<le> m" for i
      using rd that by (intro rearr_outside) auto
    have right: "c ! nat i = b ! nat i" if "m \<le> i" for i
      using rc that less.prems b by (intro rearr_outside) auto
    have below: "d ! nat i \<le> b ! nat m" if "h \<le> i" "i < m" for i
    proof -
      have "c ! nat i \<le> b ! nat m" using rc by (rule rearr_all) (use lo that less.prems b len_b in auto)
      with left that less.prems show ?thesis by simp
    qed
    have above: "b ! nat m \<le> d ! nat j" if "m < j" "j \<le> e" for j
      using rd by (rule rearr_all) (use hi right that less.prems b len_b len_c in auto)
    have "d ! nat i \<le> d ! nat j" if ij: "h \<le> i" "i \<le> j" "j \<le> e" for i j
    proof -
      consider "j < m" | "m < i" | "i \<le> m" "m \<le> j" by linarith
      then show ?thesis
      proof cases
        case 1
        then show ?thesis using c(2) ij left [of i] left [of j] less.prems by (auto simp: sorts_range_def)
      next
        case 2
        then show ?thesis using d(2) ij by (auto simp: sorts_range_def)
      next
        case 3
        have "d ! nat m = b ! nat m" using left right b less.prems by simp
        then have "d ! nat i \<le> b ! nat m" "b ! nat m \<le> d ! nat j"
          using 3 below [of i] above [of j] ij by (cases "i = m"; cases "j = m"; auto)+
        then show ?thesis by simp
      qed
    qed
    moreover have "rearr a h e d"
      using rearr_trans [OF rearr_trans [OF b(4) rc, of h e] rd, of h e] b(2,3) by auto
    ultimately show ?thesis using True b(1) c(1) d(1)
      by (subst quick_sort.simps) (auto simp: sorts_range_def)
  qed
qed

interpretation quick: range_sort quick_sort
  by unfold_locales (rule quick_sort_spec)

section \<open>Properties\<close>

text \<open>
  On every range inside an array, including the empty one, \<open>bubble_sort\<close>, \<open>select_sort\<close> and
  \<open>quick_sort\<close> return without an access outside the array, sort the cells of the range and leave
  all other cells unchanged.
\<close>

theorem exchange_sorts_correct:
  assumes "0 \<le> h" and "h \<le> e + 1" and "e < int (length a)"
    and "srt \<in> {bubble_sort, select_sort, quick_sort}"
  shows "\<exists>a'. srt a h e n = Some a' \<and> sorts_range a h e a'"
  using assms bubble.sorts_part [of h e a n] select.sorts_part [of h e a n] quick.sorts_part [of h e a n]
  by auto

theorem exchange_sorts_correct_witness:
  "\<exists>a'. quick_sort [10, 2, 4, 6, 7, 3] 1 4 6 = Some a' \<and> sorts_range [10, 2, 4, 6, 7, 3] 1 4 a'"
  using exchange_sorts_correct [of 1 4 "[10, 2, 4, 6, 7, 3]" quick_sort 6] by simp

end
