(* ===== verification/InsertSorts.thy ===== *)
theory InsertSorts
  imports SortBase "HOL-Library.Signed_Division"
begin

text \<open>
  The insertion based routines of \<open>sort_algorithms/\<close>: \<open>insert_sort.h\<close>, \<open>shell_sort.h\<close> and
  \<open>radix_sort.h\<close>.  Their inner loops differ only in the step (\<open>gap\<close>), the lowest index and the
  comparison, which are the parameters of \<open>shift_loop\<close> and \<open>insertion_pass\<close>.  The loops are
  related to a stable insertion on lists, which sorts by any key.
\<close>

section \<open>Definitions\<close>

text \<open>
  \<open>while (lo <= j && tmp < array[j]) { array[j + gap] = array[j]; j -= gap; }\<close>.  The result is the
  array and the final \<open>j\<close>; with a \<open>gap\<close> that is not positive the loop need not end.
\<close>

partial_function (option) shift_loop ::
  "(int \<Rightarrow> int \<Rightarrow> bool) \<Rightarrow> int \<Rightarrow> int \<Rightarrow> int list \<Rightarrow> int \<Rightarrow> int \<Rightarrow> (int list \<times> int) option" where
  "shift_loop lt gap lo a tmp j =
     (if lo \<le> j then do {
        x \<leftarrow> aget a j;
        if lt tmp x then do {
          a \<leftarrow> aput a (j + gap) x;
          shift_loop lt gap lo a tmp (j - gap)
        } else Some (a, j)
      } else Some (a, j))"

text \<open>\<open>for (; i <= hi; ++i) { tmp = array[i]; j = i - gap; ...; array[j + gap] = tmp; }\<close>\<close>

function insertion_pass ::
  "(int \<Rightarrow> int \<Rightarrow> bool) \<Rightarrow> int \<Rightarrow> int \<Rightarrow> int list \<Rightarrow> int \<Rightarrow> int \<Rightarrow> int list option" where
  "insertion_pass lt gap lo a i hi =
     (if i \<le> hi then do {
        tmp \<leftarrow> aget a i;
        (a, j) \<leftarrow> shift_loop lt gap lo a tmp (i - gap);
        a \<leftarrow> aput a (j + gap) tmp;
        insertion_pass lt gap lo a (i + 1) hi
      } else Some a)"
  by pat_completeness auto
termination by (relation "measure (\<lambda>(lt, gap, lo, a, i, hi). nat (hi - i + 1))") auto

definition insert_sort :: "int list \<Rightarrow> int \<Rightarrow> int \<Rightarrow> int \<Rightarrow> int list option" where
  "insert_sort a hindex eindex array_size = insertion_pass (<) 1 hindex a (hindex + 1) eindex"

function shell_loop :: "int list \<Rightarrow> int \<Rightarrow> int \<Rightarrow> int list option" where
  "shell_loop a gap array_size =
     (if gap > 0 then do {
        a \<leftarrow> insertion_pass (\<lambda>tmp x. x > tmp) gap 0 a gap (array_size - 1);
        shell_loop a (gap sdiv 2) array_size
      } else Some a)"
  by pat_completeness auto
termination
  by (relation "measure (\<lambda>(a, gap, n). nat gap)") (auto simp: signed_divide_int_def)

definition shell_sort :: "int list \<Rightarrow> int \<Rightarrow> int \<Rightarrow> int \<Rightarrow> int list option" where
  "shell_sort a hindex eindex array_size = shell_loop a (array_size sdiv 2) array_size"

text \<open>The macro \<open>GET_POS_NB\<close>: digit \<open>d\<close> of a number, with C's truncating division.\<close>

definition GET_POS_NB :: "int \<Rightarrow> nat \<Rightarrow> int \<Rightarrow> int" where
  "GET_POS_NB srcnb d ary = ((\<lambda>nb. nb sdiv ary) ^^ d) srcnb smod ary"

definition DEPTH :: nat where
  "DEPTH = 3"

function radix_loop :: "int list \<Rightarrow> int \<Rightarrow> int \<Rightarrow> nat \<Rightarrow> int list option" where
  "radix_loop a hindex eindex d =
     (if d < DEPTH then do {
        a \<leftarrow> insertion_pass (\<lambda>tmp x. GET_POS_NB tmp d 10 < GET_POS_NB x d 10) 1 hindex a
               (hindex + 1) eindex;
        radix_loop a hindex eindex (d + 1)
      } else Some a)"
  by pat_completeness auto
termination by (relation "measure (\<lambda>(a, h, e, d). DEPTH - d)") auto

definition radix_sort :: "int list \<Rightarrow> int \<Rightarrow> int \<Rightarrow> int \<Rightarrow> int list option" where
  "radix_sort a hindex eindex array_size = radix_loop a hindex eindex 0"

declare insertion_pass.simps [simp del] shell_loop.simps [simp del] radix_loop.simps [simp del]

section \<open>Stable insertion on lists\<close>

fun rins_rev :: "('a \<Rightarrow> 'a \<Rightarrow> bool) \<Rightarrow> 'a \<Rightarrow> 'a list \<Rightarrow> 'a list" where
  "rins_rev lt t [] = [t]"
| "rins_rev lt t (x # xs) = (if lt t x then x # rins_rev lt t xs else t # x # xs)"

definition rins :: "('a \<Rightarrow> 'a \<Rightarrow> bool) \<Rightarrow> 'a \<Rightarrow> 'a list \<Rightarrow> 'a list" where
  "rins lt t p = rev (rins_rev lt t (rev p))"

lemma rins_simps [simp]:
  "rins lt t [] = [t]"
  "rins lt t (p @ [x]) = (if lt t x then rins lt t p @ [x] else p @ [x, t])"
  by (simp_all add: rins_def)

lemma length_rins [simp]: "length (rins lt t p) = Suc (length p)"
  by (induction p rule: rev_induct) auto

lemma mset_rins [simp]: "mset (rins lt t p) = add_mset t (mset p)"
  by (induction p rule: rev_induct) auto

lemma set_rins [simp]: "set (rins lt t p) = insert t (set p)"
  by (induction p rule: rev_induct) auto

lemma sorted_rins:
  fixes f :: "'a \<Rightarrow> 'k::linorder"
  shows "sorted (map f p) \<Longrightarrow> sorted (map f (rins (\<lambda>t x. f t < f x) t p))"
proof (induction p rule: rev_induct)
  case (snoc x p)
  then show ?case by (auto simp: sorted_append not_less; fastforce)
qed simp

lemma filter_rins:
  fixes f :: "'a \<Rightarrow> 'k::linorder"
  shows "filter (\<lambda>x. k = f x) (rins (\<lambda>t x. f t < f x) t p) =
    filter (\<lambda>x. k = f x) p @ (if k = f t then [t] else [])"
  by (induction p rule: rev_induct) auto

lemma foldl_rins_sort_key:
  fixes f :: "'a \<Rightarrow> 'k::linorder"
  defines "ins \<equiv> \<lambda>p t. rins (\<lambda>t x. f t < f x) t p"
  shows "foldl ins [] xs = sort_key f xs"
proof (rule properties_for_sort_key [symmetric])
  have "mset (foldl ins p xs) = mset p + mset xs" for p
    by (induction xs arbitrary: p) (simp_all add: ins_def)
  then show "mset (foldl ins [] xs) = mset xs" by simp
  have "filter (\<lambda>x. k = f x) (foldl ins p xs) = filter (\<lambda>x. k = f x) p @ filter (\<lambda>x. k = f x) xs" for k p
    by (induction xs arbitrary: p) (simp_all add: ins_def filter_rins)
  then show "filter (\<lambda>x. f k = f x) (foldl ins [] xs) = filter (\<lambda>x. f k = f x) xs" for k by simp
  have "sorted (map f p) \<Longrightarrow> sorted (map f (foldl ins p xs))" for p
    by (induction xs arbitrary: p) (simp_all add: ins_def sorted_rins)
  then show "sorted (map f (foldl ins [] xs))" by simp
qed

section \<open>The loops with step one insert into a list\<close>

lemma shift_loop_one:
  "shift_loop lt 1 (int (length P)) (P @ p @ c # R) t (int (length P + length p) - 1) \<bind>
     (\<lambda>(a, j). aput a (j + 1) t) = Some (P @ rins lt t p @ R)"
proof (induction p arbitrary: c R rule: rev_induct)
  case Nil
  show ?case by (subst shift_loop.simps) (simp add: aput_def)
next
  case (snoc x p)
  have get: "aget (P @ p @ x # c # R) (int (length P) + int (length p)) = Some x"
    by (simp add: aget_def nth_append nat_add_distrib)
  have put: "aput (P @ p @ x # c # R) (1 + (int (length P) + int (length p))) v = Some (P @ p @ x # v # R)" for v
    by (simp add: aput_def list_update_append nat_add_distrib)
  show ?case
    using snoc [of x "x # R"] by (subst shift_loop.simps) (simp add: get put algebra_simps)
qed

lemma insertion_pass_one:
  "insertion_pass lt 1 (int (length P)) (P @ p @ q @ R) (int (length P + length p))
     (int (length P + length p + length q) - 1) =
   Some (P @ foldl (\<lambda>p t. rins lt t p) p q @ R)"
proof (induction q arbitrary: p)
  case Nil
  show ?case by (subst insertion_pass.simps) simp
next
  case (Cons t q)
  have get: "aget (P @ p @ t # q @ R) (int (length P + length p)) = Some t"
    by (simp add: aget_def nth_append nat_add_distrib)
  obtain a j where sh: "shift_loop lt 1 (int (length P)) (P @ p @ t # q @ R) t
      (int (length P + length p) - 1) = Some (a, j)"
    and put: "aput a (j + 1) t = Some (P @ rins lt t p @ q @ R)"
    using shift_loop_one [of lt P p t "q @ R" t] by (auto split: bind_splits)
  show ?case
    using get sh put Cons.IH [of "rins lt t p"]
    by (subst insertion_pass.simps) (simp add: algebra_simps)
qed

lemma insertion_pass_sort_key:
  fixes f :: "int \<Rightarrow> 'k::linorder"
  shows "insertion_pass (\<lambda>t x. f t < f x) 1 (int (length P)) (P @ q @ R) (int (length P) + 1)
    (int (length P + length q) - 1) = Some (P @ sort_key f q @ R)"
proof (cases q)
  case Nil
  then show ?thesis by (subst insertion_pass.simps) simp
next
  case (Cons x q')
  have "foldl (\<lambda>p t. rins (\<lambda>t x. f t < f x) t p) [x] q' = sort_key f q"
    using foldl_rins_sort_key [of f q] Cons by simp
  with insertion_pass_one [of "\<lambda>t x. f t < f x" P "[x]" q' R] Cons show ?thesis
    by (simp add: algebra_simps)
qed

section \<open>Insertion sort\<close>

lemma slices:
  assumes "0 \<le> h" and "h \<le> e + 1" and "e < int (length a)"
  obtains P q R where "a = P @ q @ R" and "h = int (length P)" and "e = int (length P + length q) - 1"
proof
  let ?q = "take (nat (e + 1) - nat h) (drop (nat h) a)"
  show "a = take (nat h) a @ ?q @ drop (nat (e + 1)) a"
    using assms by (metis append_take_drop_id drop_drop le_add_diff_inverse2 nat_mono)
  show "h = int (length (take (nat h) a))" "e = int (length (take (nat h) a) + length ?q) - 1"
    using assms by auto
qed

lemma sorts_range_slices:
  assumes "sorted q'" and "mset q' = mset q"
  shows "sorts_range (P @ q @ R) (int (length P)) (int (length P + length q) - 1) (P @ q' @ R)"
proof -
  have len: "length q' = length q" using assms(2) by (rule mset_eq_length)
  have "(P @ q' @ R) ! nat i = q' ! (nat i - length P)"
    if "int (length P) \<le> i" "i \<le> int (length P + length q) - 1" for i
    using that len by (auto simp: nth_append)
  moreover have "q' ! (nat i - length P) \<le> q' ! (nat j - length P)"
    if "i \<le> j" "int (length P) \<le> i" "j \<le> int (length P + length q) - 1" for i j
    by (rule sorted_nth_mono [OF assms(1)]) (use that len in auto)
  moreover have "rearr (P @ q @ R) (int (length P)) (int (length P + length q) - 1) (P @ q' @ R)"
    using assms(2) len by (auto simp: rearr_def nth_append)
  ultimately show ?thesis unfolding sorts_range_def by auto
qed

interpretation insrt: range_sort insert_sort
proof
  fix h e n :: int and a :: "int list"
  assume "0 \<le> h" "h \<le> e + 1" "e < int (length a)"
  then obtain P q R where "a = P @ q @ R" "h = int (length P)" "e = int (length P + length q) - 1"
    by (rule slices)
  then show "\<exists>a'. insert_sort a h e n = Some a' \<and> sorts_range a h e a'"
    using insertion_pass_sort_key [of "\<lambda>x. x" P q R] sorts_range_slices [of "sort q" q P R]
    by (simp add: insert_sort_def)
qed

section \<open>Shell sort\<close>

text \<open>C's division truncates; on operands that are not negative it is \<open>div\<close>.\<close>

lemma sdiv_nonneg: "0 \<le> x \<Longrightarrow> 0 < k \<Longrightarrow> x sdiv k = x div k" for x k :: int
  by (cases "x = 0") (auto simp: signed_divide_int_def)

lemma smod_nonneg: "0 \<le> x \<Longrightarrow> 0 < k \<Longrightarrow> x smod k = x mod k" for x k :: int
  by (cases "x = 0") (auto simp: signed_modulo_int_def)

text \<open>With any positive step a pass rearranges the array; the last pass has step one.\<close>

lemma shift_loop_rearr:
  assumes "0 \<le> lo" and "0 < gap" and "lo \<le> j + gap" and "j + gap < int (length a)"
  shows "\<exists>a' j'. shift_loop lt gap lo a t j = Some (a', j') \<and> length a' = length a
    \<and> 0 \<le> j' + gap \<and> j' + gap < int (length a)
    \<and> mset (a'[nat (j' + gap) := t]) = mset (a[nat (j + gap) := t])"
  using assms
proof (induction "nat (j - lo + gap)" arbitrary: a j rule: less_induct)
  case less
  show ?case
  proof (cases "lo \<le> j \<and> lt t (a ! nat j)")
    case False
    with less.prems show ?thesis by (subst shift_loop.simps) (auto simp: cmem)
  next
    case True
    let ?b = "a[nat (j + gap) := a ! nat j]"
    obtain a' j' where IH: "shift_loop lt gap lo ?b t (j - gap) = Some (a', j')" "length a' = length a"
      "0 \<le> j' + gap" "j' + gap < int (length a)" "mset (a'[nat (j' + gap) := t]) = mset (?b[nat j := t])"
      using less.hyps [of "j - gap" ?b] less.prems True by auto
    have "mset (?b[nat j := t]) = mset (a[nat (j + gap) := t])"
    proof -
      let ?c = "a[nat (j + gap) := t]"
      have "?b[nat j := t] = ?c[nat (j + gap) := ?c ! nat j, nat j := ?c ! nat (j + gap)]"
        using less.prems True by (simp add: upd_at)
      then show ?thesis using less.prems True by (simp only:) (rule mset_swap; auto)
    qed
    with IH less.prems True show ?thesis by (subst shift_loop.simps) (simp add: cmem)
  qed
qed

lemma insertion_pass_mset:
  assumes "0 \<le> lo" and "0 < gap" and "lo \<le> i" and "hi < int (length a)"
  shows "\<exists>a'. insertion_pass lt gap lo a i hi = Some a' \<and> mset a' = mset a"
  using assms
proof (induction lt gap lo a i hi rule: insertion_pass.induct)
  case (1 lt gap lo a i hi)
  show ?case
  proof (cases "i \<le> hi")
    case False
    then show ?thesis by (subst insertion_pass.simps) simp
  next
    case True
    obtain b j where b: "shift_loop lt gap lo a (a ! nat i) (i - gap) = Some (b, j)" "length b = length a"
      "0 \<le> j + gap" "j + gap < int (length a)" "mset (b[nat (j + gap) := a ! nat i]) = mset a"
      using shift_loop_rearr [of lo gap "i - gap" a lt "a ! nat i"] "1.prems" True by auto
    have get: "aget a i = Some (a ! nat i)" and put: "aput b (j + gap) (a ! nat i) = Some (b[nat (j + gap) := a ! nat i])"
      using b "1.prems" True by (simp_all add: cmem)
    obtain a' where "insertion_pass lt gap lo (b[nat (j + gap) := a ! nat i]) (i + 1) hi = Some a'"
      "mset a' = mset (b[nat (j + gap) := a ! nat i])"
      using "1.IH" [OF True get b(1) refl put] "1.prems" b by auto
    with True b get put show ?thesis by (subst insertion_pass.simps) simp
  qed
qed

lemma shell_loop_spec:
  assumes "1 \<le> gap"
  shows "shell_loop a gap (int (length a)) = Some (sort a)"
  using assms
proof (induction "nat gap" arbitrary: a gap rule: less_induct)
  case less
  have half: "gap sdiv 2 = gap div 2" using less.prems by (simp add: sdiv_nonneg)
  show ?case
  proof (cases "gap = 1")
    case True
    have "insertion_pass (<) 1 0 a 1 (int (length a) - 1) = Some (sort a)"
      using insertion_pass_sort_key [of "\<lambda>x. x" "[]" a "[]"] by simp
    with True show ?thesis
      by (subst shell_loop.simps) (simp add: shell_loop.simps [of _ 0] signed_divide_int_def)
  next
    case False
    obtain b where b: "insertion_pass (<) gap 0 a gap (int (length a) - 1) = Some b" "mset b = mset a"
      using insertion_pass_mset [of 0 gap gap "int (length a) - 1" a "(<)"] less.prems by auto
    have "shell_loop b (gap div 2) (int (length b)) = Some (sort b)"
      using less.hyps [of "gap div 2" b] less.prems False by auto
    moreover have "sort b = sort a" using b(2) by (intro properties_for_sort) simp_all
    moreover have "length b = length a" using b(2) by (rule mset_eq_length)
    ultimately show ?thesis using b(1) less.prems half by (subst shell_loop.simps) simp
  qed
qed

interpretation shell: array_sort shell_sort "\<lambda>_. True"
proof
  fix a :: "int list"
  let ?n = "int (length a)"
  have half: "?n sdiv 2 = ?n div 2" by (simp add: sdiv_nonneg)
  show "shell_sort a 0 (?n - 1) ?n = Some (sort a)"
  proof (cases "1 \<le> ?n div 2")
    case True
    then show ?thesis by (simp only: shell_sort_def half shell_loop_spec)
  next
    case False
    then have "length a \<le> 1" by linarith
    then have "sort a = a" by (intro sorted_sort_id sorted_by_index) (auto simp: le_Suc_eq)
    with False show ?thesis by (simp add: shell_sort_def half shell_loop.simps)
  qed
qed

section \<open>Radix sort\<close>

text \<open>The digit keys with truncating division, on numbers that are not negative.\<close>

lemma GET_POS_NB_nonneg:
  assumes "0 \<le> x"
  shows "GET_POS_NB x d 10 = x div 10 ^ d mod 10"
proof -
  have pos: "0 \<le> x div 10 ^ k" for k using assms by (simp add: pos_imp_zdiv_nonneg_iff)
  have "((\<lambda>nb. nb sdiv 10) ^^ d) x = x div 10 ^ d"
  proof (induction d)
    case (Suc d)
    then show ?case using pos [of d] by (simp add: sdiv_nonneg mult.commute [of 10] zdiv_zmult2_eq)
  qed simp
  with pos [of d] show ?thesis by (simp add: GET_POS_NB_def smod_nonneg)
qed

text \<open>Sorting stably by \<open>f\<close> a list that is sorted by \<open>g\<close> sorts it by \<open>(f, g)\<close>.\<close>

lemma sort_key_lexicographic:
  fixes f :: "'a \<Rightarrow> 'k::linorder" and g :: "'a \<Rightarrow> 'l::linorder"
  assumes "sorted (map g xs)"
  shows "sorted_wrt (\<lambda>x y. f x < f y \<or> f x = f y \<and> g x \<le> g y) (sort_key f xs)"
  unfolding sorted_wrt_iff_nth_less
proof (intro allI impI)
  let ?ys = "sort_key f xs"
  fix i j assume ij: "i < j" "j < length ?ys"
  show "f (?ys ! i) < f (?ys ! j) \<or> f (?ys ! i) = f (?ys ! j) \<and> g (?ys ! i) \<le> g (?ys ! j)"
  proof (cases "f (?ys ! i) = f (?ys ! j)")
    case False
    moreover have "f (?ys ! i) \<le> f (?ys ! j)"
      using sorted_nth_mono [OF sorted_sort_key [of f xs], of i j] ij by simp
    ultimately show ?thesis by simp
  next
    case True
    let ?P = "\<lambda>x. f x = f (?ys ! j)"
    have ys: "?ys = take j ?ys @ ?ys ! j # drop (Suc j) ?ys" using ij(2) by (rule id_take_nth_drop)
    have "filter ?P ?ys = filter ?P xs" by (rule sort_key_stable [unfolded eq_commute [of "f _" ]])
    then have "filter ?P xs = filter ?P (take j ?ys) @ ?ys ! j # filter ?P (drop (Suc j) ?ys)"
      using ys by (metis (mono_tags, lifting) filter.simps(2) filter_append)
    moreover have "?ys ! i \<in> set (filter ?P (take j ?ys))"
      using ij True by (auto simp: in_set_conv_nth intro!: exI [of _ i])
    moreover have "sorted (map g (filter ?P xs))" using assms by (rule sorted_filter)
    ultimately have "g (?ys ! i) \<le> g (?ys ! j)" by (auto simp: sorted_append)
    with True show ?thesis by simp
  qed
qed

definition digits3 :: "int list \<Rightarrow> bool" where
  "digits3 a \<longleftrightarrow> (\<forall>x \<in> set a. 0 \<le> x \<and> x < 1000)"

lemma digit_order:
  fixes a b c d :: int
  assumes "a < b \<or> a = b \<and> c \<le> d" and "c < k" and "0 \<le> d" and "0 < k"
  shows "k * a + c \<le> k * b + d"
proof (cases "a < b")
  case True
  then have "k * (a + 1) \<le> k * b" using assms(4) by simp
  with assms show ?thesis by (simp add: algebra_simps)
qed (use assms in simp)

lemma digits_two:
  fixes x y :: int
  assumes "x div 10 mod 10 < y div 10 mod 10 \<or> x div 10 mod 10 = y div 10 mod 10 \<and> x mod 10 \<le> y mod 10"
  shows "x mod 100 \<le> y mod 100"
proof -
  have eq: "z mod 100 = 10 * (z div 10 mod 10) + z mod 10" for z :: int
  proof -
    have hundred: "(100::int) = 10 * 10" by simp
    show ?thesis unfolding hundred by (rule zmod_zmult2_eq) simp
  qed
  show ?thesis unfolding eq using assms by (rule digit_order) simp_all
qed

lemma digits_three:
  fixes x y :: int
  assumes "x div 100 mod 10 < y div 100 mod 10 \<or> x div 100 mod 10 = y div 100 mod 10 \<and> x mod 100 \<le> y mod 100"
    and "0 \<le> x" "x < 1000" "0 \<le> y" "y < 1000"
  shows "x \<le> y"
proof -
  have eq: "100 * (z div 100 mod 10) + z mod 100 = z" if "0 \<le> z" "z < 1000" for z :: int
  proof -
    have "z div 100 mod 10 = z div 100"
      using that by (intro mod_pos_pos_trivial) (simp_all add: pos_imp_zdiv_nonneg_iff div_less_iff_less_mult)
    then show ?thesis by simp
  qed
  have "100 * (x div 100 mod 10) + x mod 100 \<le> 100 * (y div 100 mod 10) + y mod 100"
    using assms(1) by (rule digit_order) simp_all
  then show ?thesis using assms(2-5) by (simp only: eq)
qed

lemma three_passes:
  assumes "digits3 q"
  defines "s \<equiv> \<lambda>d. sort_key (\<lambda>x. GET_POS_NB x d 10)"
  shows "s 2 (s 1 (s 0 q)) = sort q"
proof -
  define f where "f = (\<lambda>d x. GET_POS_NB x d 10)"
  have key: "f d x = x div 10 ^ d mod 10" if "x \<in> set q" for d x
    using assms(1) that by (auto simp: digits3_def f_def GET_POS_NB_nonneg)
  have key0: "f 0 x = x mod 10" and key1: "f 1 x = x div 10 mod 10" and key2: "f 2 x = x div 100 mod 10"
    if "x \<in> set q" for x using key [OF that, of 0] key [OF that, of 1] key [OF that, of 2] by simp_all
  have "sorted_wrt (\<lambda>x y. x mod 100 \<le> y mod 100) (sort_key (f 1) (sort_key (f 0) q))"
  proof (rule sorted_wrt_mono_rel [OF _ sort_key_lexicographic [OF sorted_sort_key]])
    fix x y
    assume "x \<in> set (sort_key (f 1) (sort_key (f 0) q))" "y \<in> set (sort_key (f 1) (sort_key (f 0) q))"
      and le: "f 1 x < f 1 y \<or> f 1 x = f 1 y \<and> f 0 x \<le> f 0 y"
    then have xy: "x \<in> set q" "y \<in> set q" by simp_all
    show "x mod 100 \<le> y mod 100"
      using le unfolding xy [THEN key0] xy [THEN key1] by (rule digits_two)
  qed
  then have two: "sorted (map (\<lambda>x. x mod 100) (sort_key (f 1) (sort_key (f 0) q)))"
    by (simp add: sorted_map)
  have "sorted_wrt (\<le>) (sort_key (f 2) (sort_key (f 1) (sort_key (f 0) q)))"
  proof (rule sorted_wrt_mono_rel [OF _ sort_key_lexicographic [OF two]])
    fix x y
    assume "x \<in> set (sort_key (f 2) (sort_key (f 1) (sort_key (f 0) q)))"
      and "y \<in> set (sort_key (f 2) (sort_key (f 1) (sort_key (f 0) q)))"
      and le: "f 2 x < f 2 y \<or> f 2 x = f 2 y \<and> x mod 100 \<le> y mod 100"
    then have xy: "x \<in> set q" "y \<in> set q" by simp_all
    show "x \<le> y"
      using le unfolding xy [THEN key2]
      by (rule digits_three) (use xy assms(1) in \<open>auto simp: digits3_def\<close>)
  qed
  then show ?thesis unfolding s_def f_def by (intro eq_sortI) simp_all
qed

lemma radix_sort_range:
  assumes "0 \<le> h" and "h \<le> e + 1" and "e < int (length a)" and "digits3 a"
  shows "\<exists>a'. radix_sort a h e n = Some a' \<and> sorts_range a h e a'"
proof -
  obtain P q R where a: "a = P @ q @ R" "h = int (length P)" "e = int (length P + length q) - 1"
    using assms(1-3) by (rule slices)
  then have "digits3 q" using assms(4) by (simp add: digits3_def)
  have pass: "insertion_pass (\<lambda>tmp x. GET_POS_NB tmp d 10 < GET_POS_NB x d 10) 1 h (P @ q' @ R) (h + 1) e =
      Some (P @ sort_key (\<lambda>x. GET_POS_NB x d 10) q' @ R)" if "length q' = length q" for d q'
    using insertion_pass_sort_key [of "\<lambda>x. GET_POS_NB x d 10" P q' R] a that by simp
  have "radix_sort a h e n = Some (P @ sort q @ R)"
    using three_passes [OF \<open>digits3 q\<close>] a(1)
    by (simp add: radix_sort_def radix_loop.simps DEPTH_def pass numeral_2_eq_2)
  then show ?thesis using a sorts_range_slices [of "sort q" q P R] by simp
qed

interpretation radix: array_sort radix_sort digits3
proof
  fix a :: "int list"
  assume "digits3 a"
  then show "radix_sort a 0 (int (length a) - 1) (int (length a)) = Some (sort a)"
    using radix_sort_range [of 0 "int (length a) - 1" a "int (length a)"] sorts_range_full by fastforce
qed

section \<open>Properties\<close>

text \<open>
  On every range inside an array \<open>insert_sort\<close> returns, sorts the range and changes nothing
  else; so does \<open>radix_sort\<close> on arrays whose elements have at most three decimal digits and are
  not negative.  \<open>shell_sort\<close>, which ignores the range, sorts the whole array.
\<close>

theorem insertion_sorts_correct:
  assumes "0 \<le> h" and "h \<le> e + 1" and "e < int (length a)"
  shows "(\<exists>a'. insert_sort a h e n = Some a' \<and> sorts_range a h e a')
    \<and> ((\<forall>x \<in> set a. 0 \<le> x \<and> x < 1000) \<longrightarrow> (\<exists>a'. radix_sort a h e n = Some a' \<and> sorts_range a h e a'))
    \<and> shell_sort a h e (int (length a)) = Some (sort a)"
  using insrt.sorts_part [OF assms, of n] radix_sort_range [OF assms, of n] shell.sorts [of a]
  by (simp add: digits3_def shell_sort_def)

theorem insertion_sorts_correct_witness:
  "(\<exists>a'. insert_sort [10, 2, 4, 6, 7, 3] 1 4 6 = Some a' \<and> sorts_range [10, 2, 4, 6, 7, 3] 1 4 a')
    \<and> (\<exists>a'. radix_sort [10, 2, 4, 6, 7, 3] 1 4 6 = Some a' \<and> sorts_range [10, 2, 4, 6, 7, 3] 1 4 a')"
  using insertion_sorts_correct [of 1 4 "[10, 2, 4, 6, 7, 3]" 6] by simp

end
