(* ===== verification/MergeSort.thy ===== *)
theory MergeSort
  imports SortBase "HOL-Library.Signed_Division"
begin

text \<open>
  \<open>sort_algorithms/merge_sort.h\<close>.  The recursive calls work on parts of one array, given by the
  array and an offset; the local array of \<open>merge_array\<close> is filled from the front, so it is the
  list of the cells written so far.
\<close>

section \<open>Definitions\<close>

function merge_both :: "int list \<Rightarrow> int \<Rightarrow> int \<Rightarrow> int \<Rightarrow> int \<Rightarrow> int \<Rightarrow> int \<Rightarrow> int list \<Rightarrow>
    (int \<times> int \<times> int list) option" where
  "merge_both a harray tarray harray_size tarray_size i j array =
     (if i < harray_size \<and> j < tarray_size then do {
        x \<leftarrow> aget a (harray + i);
        y \<leftarrow> aget a (tarray + j);
        if x < y then merge_both a harray tarray harray_size tarray_size (i + 1) j (array @ [x])
        else merge_both a harray tarray harray_size tarray_size i (j + 1) (array @ [y])
      } else Some (i, j, array))"
  by pat_completeness auto
termination by (relation "measure (\<lambda>(a, h, t, hs, ts, i, j, r). nat (hs - i) + nat (ts - j))") auto

text \<open>\<open>while (i < size) array[k++] = part[i++];\<close>\<close>

function merge_rest :: "int list \<Rightarrow> int \<Rightarrow> int \<Rightarrow> int \<Rightarrow> int list \<Rightarrow> int list option" where
  "merge_rest a part sz i array =
     (if i < sz then do {
        x \<leftarrow> aget a (part + i);
        merge_rest a part sz (i + 1) (array @ [x])
      } else Some array)"
  by pat_completeness auto
termination by (relation "measure (\<lambda>(a, p, s, i, r). nat (s - i))") auto

function merge_back :: "int list \<Rightarrow> int \<Rightarrow> int list \<Rightarrow> int \<Rightarrow> int \<Rightarrow> int list option" where
  "merge_back a harray array i sz =
     (if i < sz then do {
        x \<leftarrow> aget array i;
        a \<leftarrow> aput a (harray + i) x;
        merge_back a harray array (i + 1) sz
      } else Some a)"
  by pat_completeness auto
termination by (relation "measure (\<lambda>(a, h, r, i, s). nat (s - i))") auto

definition merge_array :: "int list \<Rightarrow> int \<Rightarrow> int \<Rightarrow> int \<Rightarrow> int \<Rightarrow> int list option" where
  "merge_array a harray tarray harray_size tarray_size = do {
     (i, j, array) \<leftarrow> merge_both a harray tarray harray_size tarray_size 0 0 [];
     array \<leftarrow> merge_rest a harray harray_size i array;
     array \<leftarrow> merge_rest a tarray tarray_size j array;
     merge_back a harray array 0 (harray_size + tarray_size)
   }"

function merge_sort_rec :: "int list \<Rightarrow> int \<Rightarrow> int \<Rightarrow> int list option" where
  "merge_sort_rec a array array_size =
     (if array_size > 1 then do {
        let harray_size = array_size sdiv 2;
        let tarray_size = array_size - harray_size;
        let harray = array;
        let tarray = array + harray_size;
        a \<leftarrow> merge_sort_rec a harray harray_size;
        a \<leftarrow> merge_sort_rec a tarray tarray_size;
        merge_array a harray tarray harray_size tarray_size
      } else Some a)"
  by pat_completeness auto
termination
  by (relation "measure (\<lambda>(a, p, n). nat n)") (auto simp: signed_divide_int_def)

definition merge_sort :: "int list \<Rightarrow> int \<Rightarrow> int \<Rightarrow> int \<Rightarrow> int list option" where
  "merge_sort a hindex eindex array_size = merge_sort_rec a 0 array_size"

declare merge_both.simps [simp del] merge_rest.simps [simp del] merge_back.simps [simp del]
  merge_sort_rec.simps [simp del]

section \<open>Merging on lists\<close>

fun merge :: "int list \<Rightarrow> int list \<Rightarrow> int list" where
  "merge [] ys = ys"
| "merge xs [] = xs"
| "merge (x # xs) (y # ys) = (if x < y then x # merge xs (y # ys) else y # merge (x # xs) ys)"

lemma merge_Nil2 [simp]: "merge xs [] = xs"
  by (cases xs) auto

lemma mset_merge [simp]: "mset (merge xs ys) = mset xs + mset ys"
  by (induction xs ys rule: merge.induct) auto

lemma length_merge [simp]: "length (merge xs ys) = length xs + length ys"
  by (metis length_append mset_append mset_eq_length mset_merge)

lemma set_merge [simp]: "set (merge xs ys) = set xs \<union> set ys"
  by (metis mset_merge set_mset_mset set_mset_union)

lemma sorted_merge: "sorted xs \<Longrightarrow> sorted ys \<Longrightarrow> sorted (merge xs ys)"
  by (induction xs ys rule: merge.induct) (auto simp: not_less dest: order.strict_trans2; fastforce)+

section \<open>The loops merge the two parts\<close>

text \<open>\<open>part a p n\<close>: the \<open>n\<close> cells of \<open>a\<close> from index \<open>p\<close> on.\<close>

definition part :: "'a list \<Rightarrow> int \<Rightarrow> int \<Rightarrow> 'a list" where
  "part a p n = take (nat n) (drop (nat p) a)"

lemma part_Cons:
  assumes "0 \<le> p" and "0 \<le> i" and "i < n" and "p + n \<le> int (length a)"
  shows "part a (p + i) (n - i) = a ! nat (p + i) # part a (p + (i + 1)) (n - (i + 1))"
proof -
  have "drop (nat (p + i)) a = a ! nat (p + i) # drop (nat (p + (i + 1))) a"
    using assms Cons_nth_drop_Suc [of "nat (p + i)" a] by (simp add: Suc_nat_eq_nat_zadd1 algebra_simps)
  moreover have "nat (n - i) = Suc (nat (n - (i + 1)))" using assms by simp
  ultimately show ?thesis by (simp add: part_def)
qed

lemma part_empty [simp]: "n \<le> 0 \<Longrightarrow> part a p n = []"
  by (simp add: part_def)

lemma length_part: "0 \<le> p \<Longrightarrow> 0 \<le> n \<Longrightarrow> p + n \<le> int (length a) \<Longrightarrow> length (part a p n) = nat n"
  by (simp add: part_def)

lemma merge_both_spec:
  assumes "0 \<le> h" "0 \<le> t" "h + hs \<le> int (length a)" "t + ts \<le> int (length a)" "0 \<le> i" "i \<le> hs" "0 \<le> j" "j \<le> ts"
  shows "\<exists>i' j' r'. merge_both a h t hs ts i j r = Some (i', j', r') \<and> 0 \<le> i' \<and> i' \<le> hs \<and> 0 \<le> j' \<and> j' \<le> ts
    \<and> r @ merge (part a (h + i) (hs - i)) (part a (t + j) (ts - j)) =
      r' @ part a (h + i') (hs - i') @ part a (t + j') (ts - j')"
  using assms
proof (induction a h t hs ts i j r rule: merge_both.induct)
  case (1 a h t hs ts i j r)
  show ?case
  proof (cases "i < hs \<and> j < ts")
    case False
    then have "part a (h + i) (hs - i) = [] \<or> part a (t + j) (ts - j) = []" by auto
    with False "1.prems" show ?thesis by (subst merge_both.simps) auto
  next
    case True
    have get: "aget a (h + i) = Some (a ! nat (h + i))" "aget a (t + j) = Some (a ! nat (t + j))"
      using True "1.prems" by (simp_all add: cmem)
    have parts: "part a (h + i) (hs - i) = a ! nat (h + i) # part a (h + (i + 1)) (hs - (i + 1))"
      "part a (t + j) (ts - j) = a ! nat (t + j) # part a (t + (j + 1)) (ts - (j + 1))"
      using True "1.prems" by (auto intro: part_Cons)
    show ?thesis
    proof (cases "a ! nat (h + i) < a ! nat (t + j)")
      case less: True
      from "1.IH"(1) [OF True get less] "1.prems" True
      show ?thesis using less by (subst merge_both.simps) (simp add: get parts)
    next
      case nless: False
      from "1.IH"(2) [OF True get nless] "1.prems" True
      show ?thesis using nless by (subst merge_both.simps) (simp add: get parts)
    qed
  qed
qed

lemma merge_rest_spec:
  assumes "0 \<le> p" "0 \<le> i" "p + n \<le> int (length a)"
  shows "merge_rest a p n i r = Some (r @ part a (p + i) (n - i))"
  using assms
proof (induction a p n i r rule: merge_rest.induct)
  case (1 a p n i r)
  show ?case
  proof (cases "i < n")
    case True
    have "aget a (p + i) = Some (a ! nat (p + i))" using True 1 by (simp add: cmem)
    with True 1 part_Cons [of p i n a] show ?thesis by (subst merge_rest.simps) simp
  qed (subst merge_rest.simps, simp)
qed

lemma merge_back_spec:
  assumes "0 \<le> p" "0 \<le> i" "n = int (length r)" "p + n \<le> int (length a)" "i \<le> n"
    and "\<And>k. 0 \<le> k \<Longrightarrow> k < i \<Longrightarrow> a ! nat (p + k) = r ! nat k"
  shows "\<exists>a'. merge_back a p r i n = Some a' \<and> length a' = length a \<and> part a' p n = r
    \<and> take (nat p) a' = take (nat p) a \<and> drop (nat (p + n)) a' = drop (nat (p + n)) a"
  using assms
proof (induction a p r i n rule: merge_back.induct)
  case (1 a p r i n)
  show ?case
  proof (cases "i < n")
    case False
    have "part a p n = r"
    proof (rule nth_equalityI)
      show len: "length (part a p n) = length r" using "1.prems" by (simp add: length_part)
      fix k assume "k < length (part a p n)"
      then show "part a p n ! k = r ! k"
        using "1.prems"(6) [of "int k"] "1.prems"(1-5) False len by (simp add: part_def nat_add_distrib)
    qed
    with False show ?thesis by (subst merge_back.simps) simp
  next
    case True
    let ?b = "a[nat (p + i) := r ! nat i]"
    have get: "aget r i = Some (r ! nat i)" and put: "aput a (p + i) (r ! nat i) = Some ?b"
      using True "1.prems" by (simp_all add: cmem)
    have "?b ! nat (p + k) = r ! nat k" if "0 \<le> k" "k < i + 1" for k
      using "1.prems"(1-5) "1.prems"(6) [of k] that True by (auto simp: upd_at)
    then obtain a' where "merge_back ?b p r (i + 1) n = Some a'" "length a' = length a" "part a' p n = r"
      "take (nat p) a' = take (nat p) ?b" "drop (nat (p + n)) a' = drop (nat (p + n)) ?b"
      using "1.IH" [OF True get put] "1.prems"(1-5) True by auto
    moreover have "take (nat p) ?b = take (nat p) a" "drop (nat (p + n)) ?b = drop (nat (p + n)) a"
      using "1.prems" True by auto
    ultimately show ?thesis using True get put by (subst merge_back.simps) simp
  qed
qed

lemma part_take: "0 \<le> p \<Longrightarrow> 0 \<le> n \<Longrightarrow> part a p n = drop (nat p) (take (nat (p + n)) a)"
  by (simp add: part_def take_drop nat_add_distrib add.commute)

lemma part_append:
  assumes "0 \<le> p" "0 \<le> m" "0 \<le> n"
  shows "part a p (m + n) = part a p m @ part a (p + m) n"
  using assms by (simp add: part_def nat_add_distrib take_add add.commute [of "nat p"])

lemma merge_array_spec:
  assumes "0 \<le> p" "0 \<le> hs" "0 \<le> ts" "p + hs + ts \<le> int (length a)"
  shows "\<exists>a'. merge_array a p (p + hs) hs ts = Some a' \<and> length a' = length a
    \<and> part a' p (hs + ts) = merge (part a p hs) (part a (p + hs) ts)
    \<and> take (nat p) a' = take (nat p) a \<and> drop (nat (p + hs + ts)) a' = drop (nat (p + hs + ts)) a"
proof -
  let ?m = "merge (part a p hs) (part a (p + hs) ts)"
  obtain i j r where both: "merge_both a p (p + hs) hs ts 0 0 [] = Some (i, j, r)" "0 \<le> i" "0 \<le> j"
    and m: "?m = r @ part a (p + i) (hs - i) @ part a (p + hs + j) (ts - j)"
    using merge_both_spec [of p "p + hs" hs a ts 0 0 "[]"] assms by auto
  have rest: "merge_rest a p hs i r = Some (r @ part a (p + i) (hs - i))"
    "merge_rest a (p + hs) ts j (r @ part a (p + i) (hs - i)) = Some ?m"
    using merge_rest_spec [of p i hs a r] assms both m
      merge_rest_spec [of "p + hs" j ts a "r @ part a (p + i) (hs - i)"] by simp_all
  have "length ?m = nat (hs + ts)" using assms by (simp add: length_part nat_add_distrib)
  then obtain a' where "merge_back a p ?m 0 (hs + ts) = Some a'" "length a' = length a"
    "part a' p (hs + ts) = ?m" "take (nat p) a' = take (nat p) a"
    "drop (nat (p + (hs + ts))) a' = drop (nat (p + (hs + ts))) a"
    using merge_back_spec [of p 0 "hs + ts" ?m a] assms by auto
  with both(1) rest show ?thesis by (simp add: merge_array_def add.assoc)
qed

lemma merge_sort_rec_spec:
  assumes "0 \<le> p" "0 \<le> n" "p + n \<le> int (length a)"
  shows "\<exists>a'. merge_sort_rec a p n = Some a' \<and> length a' = length a \<and> part a' p n = sort (part a p n)
    \<and> take (nat p) a' = take (nat p) a \<and> drop (nat (p + n)) a' = drop (nat (p + n)) a"
  using assms
proof (induction "nat n" arbitrary: a p n rule: less_induct)
  case less
  show ?case
  proof (cases "1 < n")
    case False
    then have "length (part a p n) \<le> 1" using less.prems by (simp add: length_part)
    then have "sort (part a p n) = part a p n"
      by (intro sorted_sort_id sorted_by_index) (auto simp: le_Suc_eq)
    with False show ?thesis by (subst merge_sort_rec.simps) simp
  next
    case True
    define hs where "hs = n div 2"
    have hs: "n sdiv 2 = hs" "0 < hs" "hs < n" using True by (auto simp: hs_def signed_divide_int_def)
    let ?ts = "n - hs"
    obtain b where b: "merge_sort_rec a p hs = Some b" "length b = length a"
      "part b p hs = sort (part a p hs)" "take (nat p) b = take (nat p) a"
      "drop (nat (p + hs)) b = drop (nat (p + hs)) a"
      using less.hyps [of hs p a] less.prems hs by auto
    obtain c where c: "merge_sort_rec b (p + hs) ?ts = Some c" "length c = length a"
      "part c (p + hs) ?ts = sort (part b (p + hs) ?ts)" "take (nat (p + hs)) c = take (nat (p + hs)) b"
      "drop (nat (p + n)) c = drop (nat (p + n)) b"
      using less.hyps [of ?ts "p + hs" b] less.prems hs b(2) by auto
    have halves: "part c p hs = sort (part a p hs)" "part c (p + hs) ?ts = sort (part a (p + hs) ?ts)"
      using b(3,5) c(3,4) less.prems hs by (simp_all add: part_take [of p hs]) (simp_all add: part_def)
    obtain d where d: "merge_array c p (p + hs) hs ?ts = Some d" "length d = length a"
      "part d p n = merge (part c p hs) (part c (p + hs) ?ts)"
      "take (nat p) d = take (nat p) c" "drop (nat (p + n)) d = drop (nat (p + n)) c"
      using merge_array_spec [of p hs ?ts c] less.prems hs c(2) by auto
    have "part d p n = sort (part a p n)"
    proof (rule eq_sortI)
      show "mset (part d p n) = mset (part a p n)"
        using part_append [of p hs ?ts a] less.prems hs by (simp add: d(3) halves)
      show "sorted (part d p n)" by (simp add: d(3) halves sorted_merge)
    qed
    moreover have "take (nat p) d = take (nat p) a"
    proof -
      have "take (nat p) c = take (nat p) b"
        using c(4) hs(2) by (metis less_imp_le min.absorb1 nat_mono less_add_same_cancel1 take_take)
      with d(4) b(4) show ?thesis by simp
    qed
    moreover have "drop (nat (p + n)) d = drop (nat (p + n)) a"
    proof -
      have "nat (p + n) = nat ?ts + nat (p + hs)" using less.prems hs by simp
      then have "drop (nat (p + n)) b = drop (nat (p + n)) a" using b(5) by (metis drop_drop)
      with d(5) c(5) show ?thesis by simp
    qed
    moreover have "merge_sort_rec a p n = Some d"
      using True b(1) c(1) d(1) hs(1) by (subst merge_sort_rec.simps) (simp add: Let_def)
    ultimately show ?thesis using d(2) by blast
  qed
qed

interpretation mrg: array_sort merge_sort "\<lambda>_. True"
proof
  fix a :: "int list"
  have "part b 0 (int (length a)) = b" if "length b = length a" for b :: "int list"
    using that by (simp add: part_def)
  then show "merge_sort a 0 (int (length a) - 1) (int (length a)) = Some (sort a)"
    using merge_sort_rec_spec [of 0 "int (length a)" a] by (auto simp: merge_sort_def)
qed

section \<open>Property\<close>

text \<open>
  \<open>merge_sort\<close> on a whole array returns, without an access outside it, and the array is
  sorted.  Its recursive part \<open>__merge_sort\<close> sorts any part of an array and leaves the cells before
  and behind it unchanged.
\<close>

theorem merge_sort_correct:
  "merge_sort a h e (int (length a)) = Some (sort a)
   \<and> (0 \<le> p \<and> 0 \<le> n \<and> p + n \<le> int (length a) \<longrightarrow>
      (\<exists>a'. merge_sort_rec a p n = Some a' \<and> length a' = length a \<and> part a' p n = sort (part a p n)
        \<and> take (nat p) a' = take (nat p) a \<and> drop (nat (p + n)) a' = drop (nat (p + n)) a))"
  using mrg.sorts [of a] merge_sort_rec_spec [of p n a] by (simp add: merge_sort_def)

theorem merge_sort_correct_witness:
  "merge_sort [3, 1, 2] 0 2 3 = Some [1, 2, 3]
   \<and> (\<exists>a'. merge_sort_rec [5, 3, 1, 2, 0] 1 3 = Some a' \<and> part a' 1 3 = [1, 2, 3])"
proof -
  have "sort (part [5, 3, 1, 2, 0 :: int] 1 3) = [1, 2, 3]" "sort [3, 1, 2 :: int] = [1, 2, 3]"
    by (simp_all add: part_def)
  with merge_sort_correct [of "[3, 1, 2]" 0 2 0 0] merge_sort_correct [of "[5, 3, 1, 2, 0]" 0 4 1 3]
  show ?thesis by auto
qed

end
