(* ===== verification/HeapSort.thy ===== *)
theory HeapSort
  imports SortBase "HOL-Library.Signed_Division"
begin

text \<open>
  \<open>sort_algorithms/heap_sort.h\<close>: the sift-down loop \<open>up_heap\<close>, the construction of the heap
  \<open>max_heap\<close>, and the sort.  The heap invariant is stated on the array seen as a function of the
  index.
\<close>

section \<open>Definitions\<close>

definition LEFT :: "int \<Rightarrow> int" where
  "LEFT x = push_bit 1 x + 1"

definition RIGHT :: "int \<Rightarrow> int" where
  "RIGHT x = push_bit 1 x + 2"

text \<open>\<open>if (child < array_size && array[child] > array[current]) current = child;\<close>\<close>

definition pick :: "int list \<Rightarrow> int \<Rightarrow> int \<Rightarrow> int \<Rightarrow> int option" where
  "pick a child array_size current =
     (if child < array_size then do {
        x \<leftarrow> aget a child;
        y \<leftarrow> aget a current;
        Some (if x > y then child else current)
      } else Some current)"

partial_function (option) up_heap_loop :: "int list \<Rightarrow> int \<Rightarrow> int \<Rightarrow> int \<Rightarrow> int \<Rightarrow> int list option" where
  "up_heap_loop a leaf_index current index array_size =
     (if current < leaf_index then do {
        let lindex = LEFT index;
        let rindex = RIGHT index;
        current \<leftarrow> pick a lindex array_size current;
        current \<leftarrow> pick a rindex array_size current;
        if current \<noteq> index then do {
          a \<leftarrow> SWAP a current index;
          up_heap_loop a leaf_index current current array_size
        } else Some a
      } else Some a)"

definition up_heap :: "int list \<Rightarrow> int \<Rightarrow> int \<Rightarrow> int list option" where
  "up_heap a index array_size = up_heap_loop a (array_size sdiv 2) index index array_size"

function max_heap_loop :: "int list \<Rightarrow> int \<Rightarrow> int \<Rightarrow> int \<Rightarrow> int list option" where
  "max_heap_loop a i hindex array_size =
     (if i \<ge> hindex then do {
        a \<leftarrow> up_heap a i array_size;
        max_heap_loop a (i - 1) hindex array_size
      } else Some a)"
  by pat_completeness auto
termination by (relation "measure (\<lambda>(a, i, h, n). nat (i - h + 1))") auto

definition max_heap :: "int list \<Rightarrow> int \<Rightarrow> int \<Rightarrow> int \<Rightarrow> int list option" where
  "max_heap a hindex eindex array_size = max_heap_loop a (array_size sdiv 2 - 1) hindex array_size"

function heap_sort_loop :: "int list \<Rightarrow> int \<Rightarrow> int \<Rightarrow> int \<Rightarrow> int list option" where
  "heap_sort_loop a hindex tail_index array_size =
     (if array_size > 0 \<and> tail_index > hindex then do {
        a \<leftarrow> SWAP a tail_index hindex;
        a \<leftarrow> up_heap a hindex (array_size - 1);
        heap_sort_loop a hindex (tail_index - 1) (array_size - 1)
      } else Some a)"
  by pat_completeness auto
termination by (relation "measure (\<lambda>(a, h, t, n). nat n)") auto

definition heap_sort :: "int list \<Rightarrow> int \<Rightarrow> int \<Rightarrow> int \<Rightarrow> int list option" where
  "heap_sort a hindex eindex array_size = do {
     a \<leftarrow> max_heap a hindex eindex array_size;
     heap_sort_loop a hindex eindex array_size
   }"

declare max_heap_loop.simps [simp del] heap_sort_loop.simps [simp del]

section \<open>The heap order\<close>

definition view :: "int list \<Rightarrow> int \<Rightarrow> int" where
  "view a i = a ! nat i"

definition hp :: "(int \<Rightarrow> int) \<Rightarrow> int \<Rightarrow> int \<Rightarrow> bool" where
  "hp A n i \<longleftrightarrow> (2 * i + 1 < n \<longrightarrow> A (2 * i + 1) \<le> A i) \<and> (2 * i + 2 < n \<longrightarrow> A (2 * i + 2) \<le> A i)"

text \<open>Sift-down invariant: the order holds from \<open>k\<close> on except possibly at \<open>p\<close>, whose children are
  bounded by its parent.\<close>

definition hole :: "(int \<Rightarrow> int) \<Rightarrow> int \<Rightarrow> int \<Rightarrow> int \<Rightarrow> bool" where
  "hole A n k p \<longleftrightarrow> (\<forall>i \<ge> k. i \<noteq> p \<longrightarrow> hp A n i)
     \<and> (\<forall>q \<ge> k. p = 2 * q + 1 \<or> p = 2 * q + 2 \<longrightarrow>
          (2 * p + 1 < n \<longrightarrow> A (2 * p + 1) \<le> A q) \<and> (2 * p + 2 < n \<longrightarrow> A (2 * p + 2) \<le> A q))"

lemma hole_step:
  assumes "hole A n k p" and "0 \<le> k" and "k \<le> p" and "c = 2 * p + 1 \<or> c = 2 * p + 2" and "c < n"
    and "A p < A c" and "2 * p + 1 < n \<Longrightarrow> A (2 * p + 1) \<le> A c" and "2 * p + 2 < n \<Longrightarrow> A (2 * p + 2) \<le> A c"
  shows "hole (A(c := A p, p := A c)) n k c"
proof -
  let ?B = "A(c := A p, p := A c)"
  have c: "p < c" using assms(2-4) by auto
  have ord: "hp A n i" if "k \<le> i" "i \<noteq> p" for i using assms(1) that by (auto simp: hole_def)
  have up: "A c \<le> A q" if "k \<le> q" "p = 2 * q + 1 \<or> p = 2 * q + 2" for q
    using assms(1,4,5) that unfolding hole_def by blast
  have "hp ?B n i" if i: "k \<le> i" "i \<noteq> c" for i
  proof (cases "i = p")
    case True
    then show ?thesis using assms(2-8) c by (auto simp: hp_def)
  next
    case False
    then have par: "2 * i + 1 \<noteq> c" "2 * i + 2 \<noteq> c" using assms(4) by presburger+
    with False i up [of i] ord [of i] show ?thesis by (auto simp: hp_def)
  qed
  moreover have "(2 * c + 1 < n \<longrightarrow> ?B (2 * c + 1) \<le> ?B q) \<and> (2 * c + 2 < n \<longrightarrow> ?B (2 * c + 2) \<le> ?B q)"
    if "k \<le> q" "c = 2 * q + 1 \<or> c = 2 * q + 2" for q
  proof -
    have "q = p" using that(2) assms(4) by presburger
    then show ?thesis using ord [of c] c assms(2,3) by (auto simp: hp_def)
  qed
  ultimately show ?thesis by (auto simp: hole_def)
qed

lemma heap_root_max:
  assumes "\<And>i. 0 \<le> i \<Longrightarrow> hp A n i" and "0 \<le> j" and "j < n"
  shows "A j \<le> A 0"
  using assms(2,3)
proof (induction "nat j" arbitrary: j rule: less_induct)
  case less
  show ?case
  proof (cases "j = 0")
    case False
    let ?q = "(j - 1) div 2"
    have q: "0 \<le> ?q" "?q < j" "j = 2 * ?q + 1 \<or> j = 2 * ?q + 2" using less.prems False by presburger+
    then have "A j \<le> A ?q" using assms(1) [of ?q] less.prems by (auto simp: hp_def)
    also have "A ?q \<le> A 0" using less q by auto
    finally show ?thesis .
  qed simp
qed

section \<open>Sifting down\<close>

lemma view_swapped:
  "0 \<le> i \<Longrightarrow> 0 \<le> j \<Longrightarrow> i < int (length a) \<Longrightarrow> j < int (length a) \<Longrightarrow> 0 \<le> k \<Longrightarrow>
   view (swapped a i j) k = ((view a)(i := view a j, j := view a i)) k"
  by (auto simp: view_def swapped_at)

lemma hole_cong:
  assumes "\<And>i. 0 \<le> i \<Longrightarrow> A i = B i" and "0 \<le> k" and "0 \<le> p"
  shows "hole A n k p \<longleftrightarrow> hole B n k p"
  using assms unfolding hole_def hp_def by (smt (verit))

lemma pick_spec:
  assumes "0 \<le> child" and "n \<le> int (length a)" and "0 \<le> current" and "current < n"
  shows "pick a child n current =
    Some (if child < n \<and> view a child > view a current then child else current)"
  using assms by (simp add: pick_def cmem view_def)

lemma up_heap_loop_spec:
  assumes "hole (view a) n k p" and "0 \<le> k" and "k \<le> p" and "p < n" and "n \<le> int (length a)"
  shows "\<exists>a'. up_heap_loop a (n div 2) p p n = Some a' \<and> rearr a p (n - 1) a' \<and> (\<forall>i \<ge> k. hp (view a') n i)"
  using assms
proof (induction "nat (n - p)" arbitrary: a p rule: less_induct)
  case less
  note prems = less.prems
  show ?case
  proof (cases "p < n div 2")
    case False
    then have "hp (view a) n p" using prems by (auto simp: hp_def)
    then have "\<forall>i \<ge> k. hp (view a) n i" using prems(1) by (auto simp: hole_def)
    with False show ?thesis by (subst up_heap_loop.simps) auto
  next
    case True
    have LR: "LEFT p = 2 * p + 1" "RIGHT p = 2 * p + 2" by (simp_all add: LEFT_def RIGHT_def push_bit_eq_mult)
    define d where "d = (if LEFT p < n \<and> view a (LEFT p) > view a p then LEFT p else p)"
    define c where "c = (if RIGHT p < n \<and> view a (RIGHT p) > view a d then RIGHT p else d)"
    have d: "pick a (LEFT p) n p = Some d" unfolding d_def by (rule pick_spec) (use prems LR in auto)
    have "0 \<le> d" "d < n" using prems LR by (auto simp: d_def)
    then have c: "pick a (RIGHT p) n d = Some c" unfolding c_def by (intro pick_spec) (use prems LR in auto)
    have big: "2 * p + 1 < n \<Longrightarrow> view a (2 * p + 1) \<le> view a c" "2 * p + 2 < n \<Longrightarrow> view a (2 * p + 2) \<le> view a c"
      by (auto simp: c_def d_def LR)
    show ?thesis
    proof (cases "c = p")
      case same: True
      then have "hp (view a) n p" using big by (simp add: hp_def)
      then have "\<forall>i \<ge> k. hp (view a) n i" using prems(1) by (auto simp: hole_def)
      with True same c d show ?thesis by (subst up_heap_loop.simps) (auto simp: Let_def)
    next
      case moved: False
      then have ch: "c = 2 * p + 1 \<or> c = 2 * p + 2" "c < n" "view a p < view a c"
        by (auto simp: c_def d_def LR split: if_splits)
      let ?b = "swapped a c p"
      have "hole ((view a)(c := view a p, p := view a c)) n k c"
        using prems(1-3) ch big by (rule hole_step)
      moreover have "view ?b i = ((view a)(c := view a p, p := view a c)) i" if "0 \<le> i" for i
        using that prems ch by (intro view_swapped) auto
      ultimately have "hole (view ?b) n k c"
        using hole_cong [of "view ?b" "(view a)(c := view a p, p := view a c)" k c n] prems ch by auto
      then obtain a' where a': "up_heap_loop ?b (n div 2) c c n = Some a'" "rearr ?b c (n - 1) a'"
        "\<forall>i \<ge> k. hp (view a') n i"
        using less.hyps [of c ?b] prems ch by auto
      have "rearr a p (n - 1) a'"
        by (rule rearr_trans [OF rearr_swapped [of p c p "n - 1" a] a'(2)]) (use prems ch in auto)
      moreover have "SWAP a c p = Some ?b" using prems ch by (auto simp: cmem)
      ultimately show ?thesis using a' True moved c d by (subst up_heap_loop.simps) (simp add: Let_def)
    qed
  qed
qed

lemma half: "0 \<le> n \<Longrightarrow> n sdiv 2 = n div 2" for n :: int
  by (cases "n = 0") (auto simp: signed_divide_int_def)

lemma up_heap_spec:
  assumes "\<And>i. p < i \<Longrightarrow> hp (view a) n i" and "0 \<le> p" and "n \<le> int (length a)" and "p < n"
  shows "\<exists>a'. up_heap a p n = Some a' \<and> rearr a p (n - 1) a' \<and> (\<forall>i \<ge> p. hp (view a') n i)"
proof -
  have "hole (view a) n p p" using assms(1,2) by (auto simp: hole_def)
  from up_heap_loop_spec [OF this] show ?thesis using assms by (simp add: up_heap_def half)
qed

lemma max_heap_loop_spec:
  assumes "\<And>k. i < k \<Longrightarrow> hp (view a) n k" and "-1 \<le> i" and "i < n" and "n \<le> int (length a)"
  shows "\<exists>a'. max_heap_loop a i 0 n = Some a' \<and> rearr a 0 (n - 1) a' \<and> (\<forall>k \<ge> 0. hp (view a') n k)"
  using assms
proof (induction "nat (i + 1)" arbitrary: a i rule: less_induct)
  case less
  show ?case
  proof (cases "0 \<le> i")
    case False
    with less.prems(1,2) show ?thesis by (subst max_heap_loop.simps) auto
  next
    case True
    obtain b where b: "up_heap a i n = Some b" "rearr a i (n - 1) b" "\<forall>k \<ge> i. hp (view b) n k"
      using up_heap_spec [OF less.prems(1) True less.prems(4,3)] by auto
    then obtain a' where "max_heap_loop b (i - 1) 0 n = Some a'" "rearr b 0 (n - 1) a'" "\<forall>k \<ge> 0. hp (view a') n k"
      using less.hyps [of "i - 1" b] less.prems True rearr_length [OF b(2)] by auto
    with b True show ?thesis
      using rearr_trans [OF b(2), of 0 "n - 1" a' 0 "n - 1"] by (subst max_heap_loop.simps) auto
  qed
qed

lemma max_heap_spec:
  assumes "0 \<le> n" and "n \<le> int (length a)"
  shows "\<exists>a'. max_heap a 0 e n = Some a' \<and> rearr a 0 (n - 1) a' \<and> (\<forall>k \<ge> 0. hp (view a') n k)"
proof -
  have "hp (view a) n k" if "n div 2 - 1 < k" for k using that by (auto simp: hp_def)
  then show ?thesis unfolding max_heap_def half [OF assms(1)]
    by (rule max_heap_loop_spec) (use assms in auto)
qed

section \<open>Sorting\<close>

lemma heap_sort_loop_spec:
  assumes "\<And>k. 0 \<le> k \<Longrightarrow> hp (view a) n k" and "0 \<le> n" and "n \<le> int (length a)"
    and "\<And>i j. 0 \<le> i \<Longrightarrow> i \<le> j \<Longrightarrow> n \<le> j \<Longrightarrow> j < int (length a) \<Longrightarrow> a ! nat i \<le> a ! nat j"
  shows "\<exists>a'. heap_sort_loop a 0 (n - 1) n = Some a' \<and> mset a' = mset a \<and> sorted a'"
  using assms
proof (induction "nat n" arbitrary: a n rule: less_induct)
  case less
  note tail = less.prems(4)
  show ?case
  proof (cases "1 < n")
    case False
    have "a ! nat i \<le> a ! nat j" if "0 \<le> i" "i \<le> j" "j < int (length a)" for i j
      using tail [of i j] that less.prems False by (cases "j = 0") auto
    then have "sorted a" by (intro sorted_by_index)
    with False show ?thesis by (subst heap_sort_loop.simps) auto
  next
    case True
    let ?b = "swapped a (n - 1) 0"
    have ne: "a \<noteq> []" using True less.prems(3) by auto
    have at: "?b ! nat i = (if i = n - 1 then a ! 0 else if i = 0 then a ! nat (n - 1) else a ! nat i)"
      if "0 \<le> i" for i using swapped_at [of "n - 1" 0 i a] that True less.prems(3) ne by auto
    have "hp (view ?b) (n - 1) i" if "0 < i" for i
      using less.prems(1) [of i] that at [of i] at [of "2 * i + 1"] at [of "2 * i + 2"]
      by (auto simp: hp_def view_def split: if_splits)
    then obtain c where c: "up_heap ?b 0 (n - 1) = Some c" "rearr ?b 0 (n - 2) c" "\<forall>i \<ge> 0. hp (view c) (n - 1) i"
      using up_heap_spec [of 0 ?b "n - 1"] True less.prems(3) by auto
    have len: "length c = length a" using rearr_length [OF c(2)] by simp
    have root: "a ! nat i \<le> a ! 0" if "0 \<le> i" "i < n" for i
      using heap_root_max [of "view a" n i] less.prems(1) that by (simp add: view_def)
    have "c ! nat i \<le> c ! nat j" if ij: "0 \<le> i" "i \<le> j" "n - 1 \<le> j" "j < int (length a)" for i j
    proof -
      have cj: "c ! nat j = ?b ! nat j" using c(2) ij by (intro rearr_outside) auto
      have bnd: "?b ! nat k \<le> ?b ! nat j" if "0 \<le> k" "k \<le> j" for k
        using at [of k] at [of j] that ij True root [of k] root [of "n - 1"] tail [of k j] tail [of 0 j] tail [of "n - 1" j]
        by (auto split: if_splits)
      show ?thesis
      proof (cases "i \<le> n - 2")
        case small: True
        have "c ! nat i \<le> ?b ! nat j"
          by (rule rearr_all [OF c(2)]) (use bnd small ij less.prems(3) in auto)
        with cj show ?thesis by simp
      next
        case False
        then have "c ! nat i = ?b ! nat i" using c(2) ij by (intro rearr_outside) auto
        with bnd ij cj show ?thesis by simp
      qed
    qed
    then obtain a' where "heap_sort_loop c 0 (n - 1 - 1) (n - 1) = Some a'" "mset a' = mset c" "sorted a'"
      using less.hyps [of "n - 1" c] c(3) True less.prems(3) len by auto
    moreover have "SWAP a (n - 1) 0 = Some ?b" using True less.prems(3) ne by (simp add: cmem)
    moreover have "mset c = mset a" using rearr_mset [OF c(2)] True less.prems(3) ne by simp
    ultimately show ?thesis using True c(1) by (subst heap_sort_loop.simps) simp
  qed
qed

interpretation heap: array_sort heap_sort "\<lambda>_. True"
proof
  fix a :: "int list"
  let ?n = "int (length a)"
  obtain b where b: "max_heap a 0 (?n - 1) ?n = Some b" "rearr a 0 (?n - 1) b" "\<forall>k \<ge> 0. hp (view b) ?n k"
    using max_heap_spec [of ?n a "?n - 1"] by auto
  obtain c where c: "heap_sort_loop b 0 (?n - 1) ?n = Some c" "mset c = mset b" "sorted c"
    using heap_sort_loop_spec [of b ?n] b(3) rearr_length [OF b(2)] by auto
  have "c = sort a" using c rearr_mset [OF b(2)] by (intro eq_sortI) simp_all
  with b(1) c(1) show "heap_sort a 0 (?n - 1) ?n = Some (sort a)" by (simp add: heap_sort_def)
qed

section \<open>Property\<close>

text \<open>
  \<open>max_heap\<close> turns any array into a max-heap, and \<open>heap_sort\<close> of a whole array returns,
  without an access outside it, and leaves it sorted.
\<close>

theorem heap_sort_correct:
  "(\<exists>b. max_heap a 0 e (int (length a)) = Some b \<and> mset b = mset a
      \<and> (\<forall>i j. 0 \<le> i \<and> j < int (length a) \<and> (j = 2 * i + 1 \<or> j = 2 * i + 2) \<longrightarrow> b ! nat j \<le> b ! nat i))
   \<and> heap_sort a 0 (int (length a) - 1) (int (length a)) = Some (sort a)"
proof
  obtain b where b: "max_heap a 0 e (int (length a)) = Some b" "rearr a 0 (int (length a) - 1) b"
    "\<forall>k \<ge> 0. hp (view b) (int (length a)) k"
    using max_heap_spec [of "int (length a)" a e] by auto
  have "b ! nat j \<le> b ! nat i" if "0 \<le> i" "j < int (length a)" "j = 2 * i + 1 \<or> j = 2 * i + 2" for i j
    using b(3) that by (auto simp: hp_def view_def)
  with b(1) rearr_mset [OF b(2)]
  show "\<exists>b. max_heap a 0 e (int (length a)) = Some b \<and> mset b = mset a
      \<and> (\<forall>i j. 0 \<le> i \<and> j < int (length a) \<and> (j = 2 * i + 1 \<or> j = 2 * i + 2) \<longrightarrow> b ! nat j \<le> b ! nat i)"
    by blast
qed (use heap.sorts [of a] in simp)

theorem heap_sort_correct_witness:
  "\<exists>b. max_heap [1, 2, 3] 0 2 3 = Some b \<and> mset b = mset [1, 2, 3] \<and> b ! 1 \<le> b ! 0 \<and> b ! 2 \<le> b ! 0"
proof -
  obtain b where b: "max_heap [1, 2, 3] 0 2 3 = Some b" "mset b = mset [1, 2, 3]"
    and le: "\<And>i j. 0 \<le> i \<and> j < 3 \<and> (j = 2 * i + 1 \<or> j = 2 * i + 2) \<Longrightarrow> b ! nat j \<le> b ! nat i"
    using heap_sort_correct [of "[1, 2, 3]" 2] by auto
  have "b ! 1 \<le> b ! 0" "b ! 2 \<le> b ! 0" using le [of 0 1] le [of 0 2] by simp_all
  with b show ?thesis by blast
qed

end
