(* ===== verification/SortNode.thy ===== *)
theory SortNode
  imports ExchangeSorts InsertSorts MergeSort HeapSort
begin

text \<open>
  \<open>sort_algorithms/sort.h\<close>: the node that carries an array, a range and the routine chosen by a
  type code.  The node's pointer to the caller's array is represented by the contents of that array,
  so running the node updates them.  \<open>sort_node_print\<close> returns the numbers it prints.
\<close>

section \<open>Definitions\<close>

type_synonym sort_cb = "int list \<Rightarrow> int \<Rightarrow> int \<Rightarrow> int \<Rightarrow> int list option"

datatype sort_type = BITMAP | BUBBLE | BUCKET | COUNT | INSERT | MERGE | HEAP | QUICK | RADIX | SELECT | SHELL

fun type_code :: "sort_type \<Rightarrow> int" where
  "type_code BITMAP = 1"
| "type_code BUBBLE = 2"
| "type_code BUCKET = 3"
| "type_code COUNT = 4"
| "type_code INSERT = 5"
| "type_code MERGE = 6"
| "type_code HEAP = 7"
| "type_code QUICK = 8"
| "type_code RADIX = 9"
| "type_code SELECT = 10"
| "type_code SHELL = 11"

record sort_node =
  array2sort :: "int list"
  stype :: int
  hindex :: int
  eindex :: int
  array_len :: int
  cb :: sort_cb

definition choose_cb :: "int \<Rightarrow> int \<times> sort_cb" where
  "choose_cb t =
     (if t = type_code INSERT then (t, insert_sort)
      else if t = type_code BUBBLE then (t, bubble_sort)
      else if t = type_code QUICK then (t, quick_sort)
      else if t = type_code HEAP then (t, heap_sort)
      else if t = type_code SELECT then (t, select_sort)
      else if t = type_code SHELL then (t, shell_sort)
      else if t = type_code MERGE then (t, merge_sort)
      else if t = type_code RADIX then (t, radix_sort)
      else (type_code INSERT, insert_sort))"

definition sort_node_init :: "bool \<Rightarrow> int list \<Rightarrow> int \<Rightarrow> int \<Rightarrow> int \<Rightarrow> int \<Rightarrow> sort_node option" where
  "sort_node_init malloc_ok array h e len t =
     (if \<not> malloc_ok then None
      else Some \<lparr>array2sort = array, stype = fst (choose_cb t), hindex = h, eindex = e,
                 array_len = len, cb = snd (choose_cb t)\<rparr>)"

definition sort_node_run :: "sort_node option \<Rightarrow> sort_node option option" where
  "sort_node_run snode = (case snode of
     None \<Rightarrow> Some None
   | Some s \<Rightarrow> do {
       a \<leftarrow> cb s (array2sort s) (hindex s) (eindex s) (array_len s);
       Some (Some (s\<lparr>array2sort := a\<rparr>))
     })"

function raw_print :: "int list \<Rightarrow> int \<Rightarrow> int \<Rightarrow> int list option" where
  "raw_print a i e =
     (if i \<le> e then do {
        x \<leftarrow> aget a i;
        out \<leftarrow> raw_print a (i + 1) e;
        Some (x # out)
      } else Some [])"
  by pat_completeness auto
termination by (relation "measure (\<lambda>(a, i, e). nat (e - i + 1))") auto

definition sort_node_print :: "sort_node option \<Rightarrow> int list option" where
  "sort_node_print snode = (case snode of
     None \<Rightarrow> Some []
   | Some s \<Rightarrow> raw_print (array2sort s) (hindex s) (eindex s))"

declare raw_print.simps [simp del]

section \<open>Every routine the switch can choose sorts\<close>

lemma raw_print_drop:
  assumes "0 \<le> i"
  shows "raw_print a i (int (length a) - 1) = Some (drop (nat i) a)"
  using assms
proof (induction "nat (int (length a) - i)" arbitrary: i rule: less_induct)
  case less
  show ?case
  proof (cases "i < int (length a)")
    case True
    then have "raw_print a (i + 1) (int (length a) - 1) = Some (drop (nat (i + 1)) a)"
      using less by auto
    moreover have "drop (nat i) a = a ! nat i # drop (nat (i + 1)) a"
      using Cons_nth_drop_Suc [of "nat i" a] True less.prems by (simp add: Suc_nat_eq_nat_zadd1 add.commute)
    ultimately show ?thesis using True less.prems by (subst raw_print.simps) (simp add: cmem)
  next
    case False
    then show ?thesis by (subst raw_print.simps) simp
  qed
qed

lemma chosen_sorts:
  assumes "t = type_code RADIX \<longrightarrow> digits3 a"
  shows "snd (choose_cb t) a 0 (int (length a) - 1) (int (length a)) = Some (sort a)"
  using assms bubble.sorts [of a] select.sorts [of a] quick.sorts [of a] insrt.sorts [of a]
    shell.sorts [of a] radix.sorts [of a] mrg.sorts [of a] heap.sorts [of a]
  by (simp add: choose_cb_def)

section \<open>Property\<close>

text \<open>
  (C9) Whatever type code a node is created with (unknown codes fall back to insertion sort),
  running it on a whole array returns and leaves the array sorted, which is what printing the node then
  shows; for radix sort the elements have to be between \<open>0\<close> and \<open>999\<close>.
\<close>

theorem sort_node_sorts:
  assumes "t = type_code RADIX \<longrightarrow> (\<forall>x \<in> set a. 0 \<le> x \<and> x < 1000)"
  shows "\<exists>s. sort_node_run (sort_node_init True a 0 (int (length a) - 1) (int (length a)) t) = Some (Some s)
    \<and> array2sort s = sort a \<and> sort_node_print (Some s) = Some (sort a)"
  using chosen_sorts [of t a] assms raw_print_drop [of 0 "sort a"]
  by (simp add: sort_node_run_def sort_node_init_def sort_node_print_def digits3_def)

theorem sort_node_sorts_witness:
  "\<exists>s. sort_node_run (sort_node_init True [10, 2, 4, 123] 0 3 4 9) = Some (Some s)
    \<and> array2sort s = [2, 4, 10, 123]"
  using sort_node_sorts [of 9 "[10, 2, 4, 123]"] by (auto simp: sort_node_init_def)

end
