(* ===== verification/Bitmap.thy ===== *)
theory Bitmap
  imports CPrelude
begin

text \<open>
  \<open>mycache/src/struct/bitmap.h\<close>: a bitmap of \<open>unsigned long\<close> words.  Bit positions are C ints;
  a position outside the array faults.  \<open>small_const_nbits\<close> depends on whether the compiler sees a
  constant, which is the parameter \<open>builtin_const\<close>.  The behaviour is specified by a locale on single
  bits, in which the region operations are verified once.
\<close>

section \<open>Definitions\<close>

definition BITS_TO_LONGS :: "nat \<Rightarrow> nat" where
  "BITS_TO_LONGS nr = (nr + 64 - 1) div 64"

definition BITMAP_LAST_WORD_MASK :: "nat \<Rightarrow> u64" where
  "BITMAP_LAST_WORD_MASK nbits = (if nbits mod 64 \<noteq> 0 then push_bit (nbits mod 64) 1 - 1 else NOT 0)"

text \<open>The new \<open>*pos\<close> and \<open>*bmask\<close>.\<close>

definition bm_getmask :: "int \<Rightarrow> int \<times> u64" where
  "bm_getmask pos = (drop_bit 6 pos, push_bit (nat (pos mod 64)) 1)"

definition bm_setbit :: "u64 list \<Rightarrow> int \<Rightarrow> u64 list option" where
  "bm_setbit bm pos = do {
     let (pos, bmask) = bm_getmask pos;
     w \<leftarrow> aget bm pos;
     aput bm pos (w OR bmask)
   }"

definition bm_clrbit :: "u64 list \<Rightarrow> int \<Rightarrow> u64 list option" where
  "bm_clrbit bm pos = do {
     let (pos, bmask) = bm_getmask pos;
     w \<leftarrow> aget bm pos;
     aput bm pos (w AND NOT bmask)
   }"

definition bm_isset :: "u64 list \<Rightarrow> int \<Rightarrow> int option" where
  "bm_isset bm pos = do {
     let (pos, bmask) = bm_getmask pos;
     w \<leftarrow> aget bm pos;
     Some (if w AND bmask \<noteq> 0 then 1 else 0)
   }"

text \<open>\<open>for (; i < region; ++i) op(bm, pos + i);\<close> and the loop that stops at the first set bit.\<close>

function for_region :: "('m \<Rightarrow> int \<Rightarrow> 'm option) \<Rightarrow> 'm \<Rightarrow> int \<Rightarrow> int \<Rightarrow> int \<Rightarrow> 'm option" where
  "for_region f m pos i region =
     (if i < region then do { m \<leftarrow> f m (pos + i); for_region f m pos (i + 1) region } else Some m)"
  by pat_completeness auto
termination by (relation "measure (\<lambda>(f, m, p, i, r). nat (r - i))") auto

function any_region :: "('m \<Rightarrow> int \<Rightarrow> int option) \<Rightarrow> 'm \<Rightarrow> int \<Rightarrow> int \<Rightarrow> int \<Rightarrow> int option" where
  "any_region f m pos i region =
     (if i < region then do {
        b \<leftarrow> f m (pos + i);
        if b \<noteq> 0 then Some 1 else any_region f m pos (i + 1) region
      } else Some 0)"
  by pat_completeness auto
termination by (relation "measure (\<lambda>(f, m, p, i, r). nat (r - i))") auto

definition bm_setbit_region :: "u64 list \<Rightarrow> int \<Rightarrow> int \<Rightarrow> u64 list option" where
  "bm_setbit_region bm pos region = for_region bm_setbit bm pos 0 region"

definition bm_clrbit_region :: "u64 list \<Rightarrow> int \<Rightarrow> int \<Rightarrow> u64 list option" where
  "bm_clrbit_region bm pos region = for_region bm_clrbit bm pos 0 region"

definition bm_isset_region :: "u64 list \<Rightarrow> int \<Rightarrow> int \<Rightarrow> int option" where
  "bm_isset_region bm pos region = any_region bm_isset bm pos 0 region"

text \<open>\<open>memset\<close> of whole words; a byte count that does not fit the \<open>int len\<close> faults.\<close>

definition memset_longs :: "u64 list \<Rightarrow> u64 \<Rightarrow> nat \<Rightarrow> u64 list option" where
  "memset_longs dst w n = do {
     require (8 * n < 2 ^ 31 \<and> n \<le> length dst);
     Some (replicate n w @ drop n dst)
   }"

definition bm_zero :: "bool \<Rightarrow> u64 list \<Rightarrow> nat \<Rightarrow> u64 list option" where
  "bm_zero builtin_const dst nbits =
     (if builtin_const \<and> nbits \<le> 64 then aput dst 0 0
      else memset_longs dst 0 (BITS_TO_LONGS nbits))"

definition bm_fill :: "bool \<Rightarrow> u64 list \<Rightarrow> nat \<Rightarrow> u64 list option" where
  "bm_fill builtin_const dst nbits = do {
     let nlongs = BITS_TO_LONGS nbits;
     require (0 < nlongs);
     dst \<leftarrow> (if \<not> (builtin_const \<and> nbits \<le> 64) then memset_longs dst (- 1) (nlongs - 1) else Some dst);
     aput dst (int nlongs - 1) (BITMAP_LAST_WORD_MASK nbits)
   }"

declare for_region.simps [simp del] any_region.simps [simp del]

section \<open>The interface: an array of bits\<close>

locale bit_store =
  fixes setb :: "'m \<Rightarrow> int \<Rightarrow> 'm option" and clrb :: "'m \<Rightarrow> int \<Rightarrow> 'm option"
    and tst :: "'m \<Rightarrow> int \<Rightarrow> int option"
    and nbits :: "'m \<Rightarrow> int" and val :: "'m \<Rightarrow> int \<Rightarrow> bool"
  assumes set_law: "0 \<le> p \<Longrightarrow> p < nbits m \<Longrightarrow>
      \<exists>m'. setb m p = Some m' \<and> nbits m' = nbits m \<and> (\<forall>q. val m' q \<longleftrightarrow> q = p \<or> val m q)"
    and clr_law: "0 \<le> p \<Longrightarrow> p < nbits m \<Longrightarrow>
      \<exists>m'. clrb m p = Some m' \<and> nbits m' = nbits m \<and> (\<forall>q. val m' q \<longleftrightarrow> q \<noteq> p \<and> val m q)"
    and tst_law: "0 \<le> p \<Longrightarrow> p < nbits m \<Longrightarrow> tst m p = Some (if val m p then 1 else 0)"
begin

lemma set_region:
  assumes "0 \<le> pos + i" and "pos + r \<le> nbits m"
  shows "\<exists>m'. for_region setb m pos i r = Some m' \<and> nbits m' = nbits m
    \<and> (\<forall>q. val m' q \<longleftrightarrow> pos + i \<le> q \<and> q < pos + r \<or> val m q)"
  using assms
proof (induction "nat (r - i)" arbitrary: m i rule: less_induct)
  case less
  show ?case
  proof (cases "i < r")
    case True
    obtain m1 where m1: "setb m (pos + i) = Some m1" "nbits m1 = nbits m"
      "\<And>q. val m1 q \<longleftrightarrow> q = pos + i \<or> val m q"
      using set_law [of "pos + i" m] less.prems True by auto
    obtain m' where "for_region setb m1 pos (i + 1) r = Some m'" "nbits m' = nbits m1"
      "\<And>q. val m' q \<longleftrightarrow> pos + (i + 1) \<le> q \<and> q < pos + r \<or> val m1 q"
      using less.hyps [of "i + 1" m1] less.prems True m1(2) by auto
    with m1 True show ?thesis by (subst for_region.simps) auto
  qed (subst for_region.simps, auto)
qed

lemma clr_region:
  assumes "0 \<le> pos + i" and "pos + r \<le> nbits m"
  shows "\<exists>m'. for_region clrb m pos i r = Some m' \<and> nbits m' = nbits m
    \<and> (\<forall>q. val m' q \<longleftrightarrow> \<not> (pos + i \<le> q \<and> q < pos + r) \<and> val m q)"
  using assms
proof (induction "nat (r - i)" arbitrary: m i rule: less_induct)
  case less
  show ?case
  proof (cases "i < r")
    case True
    obtain m1 where m1: "clrb m (pos + i) = Some m1" "nbits m1 = nbits m"
      "\<And>q. val m1 q \<longleftrightarrow> q \<noteq> pos + i \<and> val m q"
      using clr_law [of "pos + i" m] less.prems True by auto
    obtain m' where m': "for_region clrb m1 pos (i + 1) r = Some m'" "nbits m' = nbits m1"
      "\<And>q. val m' q \<longleftrightarrow> \<not> (pos + (i + 1) \<le> q \<and> q < pos + r) \<and> val m1 q"
      using less.hyps [of "i + 1" m1] less.prems True m1(2) by auto
    have "val m' q \<longleftrightarrow> \<not> (pos + i \<le> q \<and> q < pos + r) \<and> val m q" for q
      using True by (cases "q = pos + i") (simp_all add: m'(3) m1(3), linarith)
    with m' m1(1,2) True show ?thesis by (subst for_region.simps) simp
  qed (subst for_region.simps, auto)
qed

lemma tst_region:
  assumes "0 \<le> pos + i" and "pos + r \<le> nbits m"
  shows "any_region tst m pos i r = Some (if \<exists>q. pos + i \<le> q \<and> q < pos + r \<and> val m q then 1 else 0)"
  using assms
proof (induction "nat (r - i)" arbitrary: i rule: less_induct)
  case less
  show ?case
  proof (cases "i < r")
    case True
    have "any_region tst m pos (i + 1) r =
        Some (if \<exists>q. pos + (i + 1) \<le> q \<and> q < pos + r \<and> val m q then 1 else 0)"
      using less.hyps [of "i + 1"] less.prems True by auto
    moreover have "(\<exists>q. pos + i \<le> q \<and> q < pos + r \<and> val m q) \<longleftrightarrow>
        val m (pos + i) \<or> (\<exists>q. pos + (i + 1) \<le> q \<and> q < pos + r \<and> val m q)"
    proof
      assume "\<exists>q. pos + i \<le> q \<and> q < pos + r \<and> val m q"
      then obtain q where "pos + i \<le> q" "q < pos + r" "val m q" by blast
      then show "val m (pos + i) \<or> (\<exists>q. pos + (i + 1) \<le> q \<and> q < pos + r \<and> val m q)"
        by (cases "q = pos + i") auto
    next
      assume "val m (pos + i) \<or> (\<exists>q. pos + (i + 1) \<le> q \<and> q < pos + r \<and> val m q)"
      then show "\<exists>q. pos + i \<le> q \<and> q < pos + r \<and> val m q"
      proof
        assume "val m (pos + i)"
        with True show ?thesis by (intro exI [of _ "pos + i"]) simp
      next
        assume "\<exists>q. pos + (i + 1) \<le> q \<and> q < pos + r \<and> val m q"
        then obtain q where "pos + (i + 1) \<le> q" "q < pos + r" "val m q" by blast
        then show ?thesis by (intro exI [of _ q]) simp
      qed
    qed
    ultimately show ?thesis using tst_law [of "pos + i" m] less.prems True
      by (subst any_region.simps) auto
  qed (subst any_region.simps, auto)
qed

end

section \<open>The bitmap is an array of bits\<close>

definition bm_bits :: "u64 list \<Rightarrow> int" where
  "bm_bits bm = 64 * int (length bm)"

definition bm_val :: "u64 list \<Rightarrow> int \<Rightarrow> bool" where
  "bm_val bm q \<longleftrightarrow> 0 \<le> q \<and> q < bm_bits bm \<and> bit (bm ! nat (q div 64)) (nat (q mod 64))"

lemma word_index: "0 \<le> p \<Longrightarrow> p < bm_bits bm \<Longrightarrow> 0 \<le> p div 64 \<and> p div 64 < int (length bm)"
  by (simp add: bm_bits_def pos_imp_zdiv_nonneg_iff div_less_iff_less_mult)

lemma getmask: "bm_getmask p = (p div 64, 2 ^ nat (p mod 64))"
  by (simp add: bm_getmask_def drop_bit_eq_div)

lemma bit_position:
  fixes p q :: int
  shows "p = q \<longleftrightarrow> p div 64 = q div 64 \<and> nat (p mod 64) = nat (q mod 64)"
proof
  assume h: "p div 64 = q div 64 \<and> nat (p mod 64) = nat (q mod 64)"
  then have "p mod 64 = q mod 64" by (simp add: eq_nat_nat_iff)
  with h show "p = q" by (metis mult_div_mod_eq)
qed simp

lemma bit_mask: "bit (2 ^ nat (p mod 64) :: u64) (nat (q mod 64)) \<longleftrightarrow> nat (p mod 64) = nat (q mod 64)"
proof -
  have "nat (q mod 64) < 64" by auto
  then show ?thesis unfolding bit_exp_iff by auto
qed

lemma bm_val_update:
  assumes "0 \<le> p" and "p < bm_bits bm"
  shows "bm_val (bm[nat (p div 64) := w]) q \<longleftrightarrow> 0 \<le> q \<and> q < bm_bits bm
    \<and> bit (if q div 64 = p div 64 then w else bm ! nat (q div 64)) (nat (q mod 64))"
proof -
  have "nat (q div 64) = nat (p div 64) \<longleftrightarrow> q div 64 = p div 64" if "0 \<le> q"
    using that assms(1) by (simp add: eq_nat_nat_iff pos_imp_zdiv_nonneg_iff)
  moreover have "nat (p div 64) < length bm" using word_index [OF assms] by auto
  ultimately show ?thesis by (auto simp: bm_val_def bm_bits_def nth_list_update)
qed

lemma bm_val_or:
  assumes "0 \<le> p" and "p < bm_bits m"
  shows "bm_val (m[nat (p div 64) := m ! nat (p div 64) OR 2 ^ nat (p mod 64)]) q \<longleftrightarrow> q = p \<or> bm_val m q"
proof (cases "q div 64 = p div 64")
  case True
  then have "q = p \<longleftrightarrow> nat (p mod 64) = nat (q mod 64)" using bit_position [of p q] by auto
  then show ?thesis
    unfolding bm_val_update [OF assms] bm_val_def [of m] using True assms
    by (cases "q = p") (simp_all only: if_True simp_thms bit_or_iff bit_mask)
next
  case False
  then have "q \<noteq> p" by blast
  with False show ?thesis unfolding bm_val_update [OF assms] bm_val_def [of m] by (simp only: if_False) blast
qed

lemma bm_val_andnot:
  assumes "0 \<le> p" and "p < bm_bits m"
  shows "bm_val (m[nat (p div 64) := m ! nat (p div 64) AND NOT (2 ^ nat (p mod 64))]) q \<longleftrightarrow> q \<noteq> p \<and> bm_val m q"
proof (cases "q div 64 = p div 64")
  case True
  then have "q = p \<longleftrightarrow> nat (p mod 64) = nat (q mod 64)" using bit_position [of p q] by auto
  moreover have "possible_bit TYPE(u64) (nat (q mod 64))" by (simp add: nat_less_iff)
  ultimately show ?thesis
    unfolding bm_val_update [OF assms] bm_val_def [of m] using True assms
    by (cases "q = p") (simp_all only: if_True simp_thms bit_and_iff bit_not_iff bit_mask)
next
  case False
  then have "q \<noteq> p" by blast
  with False show ?thesis unfolding bm_val_update [OF assms] bm_val_def [of m] by (simp only: if_False) blast
qed

interpretation bm: bit_store bm_setbit bm_clrbit bm_isset bm_bits bm_val
proof
  fix p m
  assume p: "0 \<le> p" "p < bm_bits m"
  note idx = word_index [OF p]
  let ?k = "p div 64" and ?w = "m ! nat (p div 64)" and ?mask = "2 ^ nat (p mod 64) :: u64"
  have "bm_setbit m p = Some (m[nat ?k := ?w OR ?mask])"
    using idx by (simp add: bm_setbit_def getmask cmem)
  then show "\<exists>m'. bm_setbit m p = Some m' \<and> bm_bits m' = bm_bits m
      \<and> (\<forall>q. bm_val m' q \<longleftrightarrow> q = p \<or> bm_val m q)" using bm_val_or [OF p] by (simp add: bm_bits_def)
  have "bm_clrbit m p = Some (m[nat ?k := ?w AND NOT ?mask])"
    using idx by (simp add: bm_clrbit_def getmask cmem)
  then show "\<exists>m'. bm_clrbit m p = Some m' \<and> bm_bits m' = bm_bits m
      \<and> (\<forall>q. bm_val m' q \<longleftrightarrow> q \<noteq> p \<and> bm_val m q)" using bm_val_andnot [OF p] by (simp add: bm_bits_def)
  show "bm_isset m p = Some (if bm_val m p then 1 else 0)"
    using idx p by (simp add: bm_isset_def getmask cmem bm_val_def and_exp_eq_0_iff_not_bit)
qed

section \<open>Properties\<close>

text \<open>
  (C26) Inside the bitmap, \<open>bitmap_setbit_region\<close> sets exactly the bits of the region,
  \<open>bitmap_clrbit_region\<close> clears exactly those, both leave every other bit alone, and
  \<open>bitmap_isset_region\<close> answers whether some bit of the region is set.  A region of one bit gives the
  single-bit operations.
\<close>

theorem bitmap_regions_correct:
  assumes "0 \<le> pos" and "pos + region \<le> 64 * int (length bm)"
  shows "(\<exists>bm'. bm_setbit_region bm pos region = Some bm' \<and> length bm' = length bm
      \<and> (\<forall>q. bm_val bm' q \<longleftrightarrow> pos \<le> q \<and> q < pos + region \<or> bm_val bm q))
    \<and> (\<exists>bm'. bm_clrbit_region bm pos region = Some bm' \<and> length bm' = length bm
      \<and> (\<forall>q. bm_val bm' q \<longleftrightarrow> \<not> (pos \<le> q \<and> q < pos + region) \<and> bm_val bm q))
    \<and> bm_isset_region bm pos region =
        Some (if \<exists>q. pos \<le> q \<and> q < pos + region \<and> bm_val bm q then 1 else 0)"
  using bm.set_region [of pos 0 region bm] bm.clr_region [of pos 0 region bm]
    bm.tst_region [of pos 0 region bm] assms
  by (auto simp: bm_setbit_region_def bm_clrbit_region_def bm_isset_region_def bm_bits_def)

theorem bitmap_regions_correct_witness:
  "(\<exists>bm'. bm_setbit_region [0, 0] 60 8 = Some bm' \<and> bm_val bm' 67 \<and> \<not> bm_val bm' 68)
   \<and> bm_isset_region [0, 0] 60 8 = Some 0"
proof -
  have empty: "\<not> bm_val [0, 0] q" for q
  proof -
    have "nat (q div 64) < 2" if "0 \<le> q" "q < 128" using that by (simp add: nat_less_iff div_less_iff_less_mult)
    then show ?thesis by (auto simp: bm_val_def bm_bits_def nth_Cons' split: if_splits)
  qed
  show ?thesis using bitmap_regions_correct [of 60 8 "[0, 0]"] by (auto simp: empty)
qed

lemma BITS_TO_LONGS: "0 < n \<Longrightarrow> n \<le> 64 * BITS_TO_LONGS n \<and> 64 * BITS_TO_LONGS n < n + 64"
  unfolding BITS_TO_LONGS_def
  using div_mult_mod_eq [of "n + 64 - 1" 64] mod_less_divisor [of 64 "n + 64 - 1"] by linarith

lemma last_word_mask:
  assumes "i < 64" and "nbits mod 64 = 0 \<or> i < nbits mod 64"
  shows "bit (BITMAP_LAST_WORD_MASK nbits) i"
proof (cases "nbits mod 64 = 0")
  case True
  with assms show ?thesis by (simp add: BITMAP_LAST_WORD_MASK_def)
next
  case False
  have "BITMAP_LAST_WORD_MASK nbits = mask (nbits mod 64)"
    using False by (simp add: BITMAP_LAST_WORD_MASK_def mask_eq_exp_minus_1)
  with False assms show ?thesis by (simp add: bit_mask_iff)
qed

text \<open>
  \<open>bitmap_zero\<close> clears and \<open>bitmap_fill\<close> sets every bit below \<open>nbits\<close>, whether or not the
  compiler knows the size, and a bit is reported by \<open>bitmap_isset\<close> accordingly.
\<close>

theorem bitmap_zero_fill_correct:
  assumes "0 < nbits" and "nbits \<le> 64 * length bm" and "length bm < 2 ^ 28"
  shows "(\<exists>bm'. bm_zero c bm nbits = Some bm' \<and> length bm' = length bm
      \<and> (\<forall>q. 0 \<le> q \<and> q < int nbits \<longrightarrow> bm_isset bm' q = Some 0))
    \<and> (\<exists>bm'. bm_fill c bm nbits = Some bm' \<and> length bm' = length bm
      \<and> (\<forall>q. 0 \<le> q \<and> q < int nbits \<longrightarrow> bm_isset bm' q = Some 1))"
proof (intro conjI)
  let ?n = "BITS_TO_LONGS nbits"
  note n = BITS_TO_LONGS [OF assms(1)]
  have n': "0 < ?n" "?n \<le> length bm" using n assms(1,2) by linarith+
  have idx: "nat (q div 64) < ?n" "nat (q mod 64) < 64" if "0 \<le> q" "q < int nbits" for q
  proof -
    have "q < int ?n * 64" using that n by linarith
    then show "nat (q div 64) < ?n" using that by (simp add: nat_less_iff div_less_iff_less_mult)
  qed (simp add: nat_less_iff)
  have isset: "bm_isset b q = Some (if bit (b ! nat (q div 64)) (nat (q mod 64)) then 1 else 0)"
    if "length b = length bm" "0 \<le> q" "q < int nbits" for b q
    using bm.tst_law [of q b] that assms(2) by (simp add: bm_val_def bm_bits_def)
  let ?z = "if c \<and> nbits \<le> 64 then bm[0 := 0] else replicate ?n 0 @ drop ?n bm"
  have len: "length ?z = length bm" using n' by simp
  have "bm_zero c bm nbits = Some ?z"
    using n' assms(3) by (auto simp: bm_zero_def memset_longs_def aput_def)
  moreover have "?z ! nat (q div 64) = 0" if "0 \<le> q" "q < int nbits" for q
  proof (cases "c \<and> nbits \<le> 64")
    case True
    then have "q div 64 = 0" using that by simp
    moreover have "0 < length bm" using n' by linarith
    ultimately show ?thesis using True by simp
  next
    case False
    with idx [OF that] show ?thesis by (auto simp: nth_append)
  qed
  ultimately show "\<exists>bm'. bm_zero c bm nbits = Some bm' \<and> length bm' = length bm
      \<and> (\<forall>q. 0 \<le> q \<and> q < int nbits \<longrightarrow> bm_isset bm' q = Some 0)"
    using isset [OF len] len by simp
  let ?d = "if c \<and> nbits \<le> 64 then bm else replicate (?n - 1) (- 1) @ drop (?n - 1) bm"
  let ?f = "?d[?n - 1 := BITMAP_LAST_WORD_MASK nbits]"
  have len: "length ?f = length bm" "length ?d = length bm" using n' by simp_all
  have "bm_fill c bm nbits = Some ?f"
    using n' assms(3) len(2) by (auto simp: bm_fill_def memset_longs_def aput_def nat_diff_distrib Let_def)
  moreover have "bit (?f ! nat (q div 64)) (nat (q mod 64))" if q: "0 \<le> q" "q < int nbits" for q
  proof (cases "nat (q div 64) = ?n - 1")
    case True
    have "nbits mod 64 = 0 \<or> nat (q mod 64) < nbits mod 64"
    proof -
      have "nbits = 64 * (nbits div 64) + nbits mod 64" by simp
      then have "int nbits = 64 * int (nbits div 64) + int (nbits mod 64)" by linarith
      moreover have "q = 64 * (q div 64) + q mod 64" by simp
      moreover have "q div 64 = int ?n - 1" using True n' q by (simp add: pos_imp_zdiv_nonneg_iff)
      moreover have "nbits mod 64 \<noteq> 0 \<Longrightarrow> ?n = nbits div 64 + 1"
        using n div_mult_mod_eq [of nbits 64] mod_less_divisor [of 64 nbits] by linarith
      ultimately show ?thesis using q by (cases "nbits mod 64 = 0") (simp_all add: nat_less_iff)
    qed
    then have "bit (BITMAP_LAST_WORD_MASK nbits) (nat (q mod 64))"
      using idx [OF q] by (intro last_word_mask) auto
    with True n' len show ?thesis by simp
  next
    case False
    then have k: "nat (q div 64) < ?n - 1" using idx(1) [OF q] by linarith
    then have "\<not> nbits \<le> 64" using n by linarith
    with k idx(2) [OF q] show ?thesis by (simp add: nth_append)
  qed
  ultimately show "\<exists>bm'. bm_fill c bm nbits = Some bm' \<and> length bm' = length bm
      \<and> (\<forall>q. 0 \<le> q \<and> q < int nbits \<longrightarrow> bm_isset bm' q = Some 1)"
    using isset [OF len(1)] len(1) by simp
qed

theorem bitmap_zero_fill_correct_witness:
  "\<exists>bm'. bm_fill False [0, 0] 70 = Some bm' \<and> bm_isset bm' 69 = Some 1"
  using bitmap_zero_fill_correct [of 70 "[0, 0]" False] by auto

end
