(* ===== verification/CHeap.thy ===== *)
theory CHeap
  imports CPrelude
begin

text \<open>
  A typed heap: the live objects of one struct type by address, \<open>NULL\<close> being address \<open>0\<close>, where
  nothing is ever allocated.  \<open>malloc\<close> is represented by the address it returns: a fresh
  one, or \<open>0\<close> when it fails.  Reading, writing or freeing an object that is not live faults.
\<close>

type_synonym addr = nat
type_synonym 'n heap = "addr \<Rightarrow> 'n option"

definition heap_alloc :: "'n heap \<Rightarrow> addr \<Rightarrow> 'n \<Rightarrow> 'n heap option" where
  "heap_alloc h p n = do { require (h p = None \<and> p \<noteq> 0); Some (h(p \<mapsto> n)) }"

definition heap_set :: "('n \<Rightarrow> 'n) \<Rightarrow> 'n heap \<Rightarrow> addr \<Rightarrow> 'n heap option" where
  "heap_set f h p = do { n \<leftarrow> h p; Some (h(p \<mapsto> f n)) }"

definition heap_free :: "'n heap \<Rightarrow> addr \<Rightarrow> 'n heap option" where
  "heap_free h p = (if p = 0 then Some h else do { n \<leftarrow> h p; Some (h(p := None)) })"

lemma heap_set_in [cmem]: "h p = Some n \<Longrightarrow> heap_set f h p = Some (h(p \<mapsto> f n))"
  by (simp add: heap_set_def)

lemma heap_alloc_in [cmem]: "h p = None \<Longrightarrow> p \<noteq> 0 \<Longrightarrow> heap_alloc h p n = Some (h(p \<mapsto> n))"
  by (simp add: heap_alloc_def)

lemma heap_free_in [cmem]: "h p = Some n \<Longrightarrow> p \<noteq> 0 \<Longrightarrow> heap_free h p = Some (h(p := None))"
  by (simp add: heap_free_def)

lemma heap_set_eq_Some: "heap_set f h p = Some h' \<longleftrightarrow> (\<exists>n. h p = Some n \<and> h' = h(p \<mapsto> f n))"
  by (auto simp: heap_set_def split: bind_splits)

section \<open>Linked lists\<close>

text \<open>The addresses of a \<open>NULL\<close>-terminated list, by the field \<open>nx\<close> of its nodes.\<close>

fun linked :: "('n \<Rightarrow> addr) \<Rightarrow> 'n heap \<Rightarrow> addr \<Rightarrow> addr list \<Rightarrow> bool" where
  "linked nx h p [] \<longleftrightarrow> p = 0"
| "linked nx h p (x # xs) \<longleftrightarrow> p = x \<and> x \<noteq> 0 \<and> (\<exists>n. h x = Some n \<and> linked nx h (nx n) xs)"

lemma linked_cong: "(\<And>x. x \<in> set xs \<Longrightarrow> h' x = h x) \<Longrightarrow> linked nx h' p xs \<longleftrightarrow> linked nx h p xs"
  by (induction xs arbitrary: p) auto

lemma linked_live: "linked nx h p xs \<Longrightarrow> x \<in> set xs \<Longrightarrow> x \<noteq> 0 \<and> h x \<noteq> None"
  by (induction xs arbitrary: p) auto

lemma linked_unique: "linked nx h p xs \<Longrightarrow> linked nx h p ys \<Longrightarrow> xs = ys"
proof (induction xs arbitrary: p ys)
  case Nil
  then show ?case by (cases ys) auto
next
  case (Cons x xs)
  then show ?case by (cases ys) auto
qed

lemma linked_suffix: "linked nx h p (xs @ y # ys) \<Longrightarrow> linked nx h y (y # ys)"
  by (induction xs arbitrary: p) auto

lemma linked_distinct: "linked nx h p xs \<Longrightarrow> distinct xs"
proof (induction xs arbitrary: p)
  case (Cons x xs)
  have "x \<notin> set xs"
  proof
    assume "x \<in> set xs"
    then obtain us vs where xs: "xs = us @ x # vs" by (auto dest: split_list)
    then have "linked nx h x (x # vs)" using Cons.prems linked_suffix [of nx h p "x # us" x vs] by simp
    moreover have "linked nx h x (x # xs)" using Cons.prems by simp
    ultimately have "x # vs = x # xs" by (rule linked_unique)
    then show False using xs by simp
  qed
  then show ?case using Cons by auto
qed simp

text \<open>Unlinking the node behind \<open>f\<close>.\<close>

lemma linked_unlink:
  assumes "linked nx h p (xs @ f # r # ys)" and "\<And>x. x \<in> set xs \<union> set ys \<Longrightarrow> h' x = h x"
    and "h r = Some n" and "h' f = Some m" and "nx m = nx n"
  shows "linked nx h' p (xs @ f # ys)"
  using assms
proof (induction xs arbitrary: p)
  case Nil
  have "linked nx h (nx n) ys" using Nil(1,3) by auto
  then have "linked nx h' (nx m) ys" using Nil(2,5) linked_cong [of ys h' h nx "nx m"] by simp
  then show ?case using Nil by auto
qed auto

end
