(* ===== verification/DoubleQueue.thy ===== *)
theory DoubleQueue
  imports CHeap
begin

text \<open>
  \<open>mycache/src/struct/doublequeue.h\<close> and \<open>doublequeue.c\<close>: a FIFO queue of pointers made of two
  circular doubly linked lists.  The producer inserts into the ring \<open>in\<close>, the consumer removes from the
  ring \<open>out\<close> and exchanges the two when \<open>out\<close> is empty; a semaphore says that \<open>in\<close> is not empty.
  The nodes live in a heap; the mutex is a flag, the semaphore a counter.  \<open>sem_timedwait\<close> with a
  positive counter succeeds unless it is interrupted (\<open>wake\<close> false); with the counter at zero it
  times out.
\<close>

section \<open>Definitions\<close>

record double_queue_node =
  nextp :: addr
  prevp :: addr
  data :: addr

record double_queue_head =
  nodes :: "double_queue_node heap"
  inq :: addr
  outq :: addr
  lock :: bool
  no_empty :: nat

definition new_double_queue_node ::
  "double_queue_node heap \<Rightarrow> addr \<Rightarrow> addr \<Rightarrow> double_queue_node heap option" where
  "new_double_queue_node h p d = heap_alloc h p \<lparr>nextp = 0, prevp = 0, data = d\<rparr>"

definition free_double_queue_node :: "double_queue_node heap \<Rightarrow> addr \<Rightarrow> double_queue_node heap option" where
  "free_double_queue_node h node = (if node = 0 then Some h else heap_free h node)"

definition new_double_queue_node_dummy ::
  "double_queue_node heap \<Rightarrow> addr \<Rightarrow> double_queue_node heap option" where
  "new_double_queue_node_dummy h p =
     (if p = 0 then Some h else heap_alloc h p \<lparr>nextp = p, prevp = p, data = 0\<rparr>)"

text \<open>\<open>p\<close> and \<open>q\<close> are what the two \<open>malloc\<close> calls for the dummies return.  The result is the
  heap and the head, or no head for \<open>NULL\<close>.\<close>

definition double_queue_init ::
  "double_queue_node heap \<Rightarrow> bool \<Rightarrow> addr \<Rightarrow> addr \<Rightarrow> (double_queue_node heap \<times> double_queue_head option) option"
  where
  "double_queue_init h head_ok p q =
     (if \<not> head_ok then Some (h, None) else do {
        h \<leftarrow> new_double_queue_node_dummy h p;
        if p = 0 then Some (h, None) else do {
          h \<leftarrow> new_double_queue_node_dummy h q;
          if q = 0 then Some (h, None)
          else Some (h, Some \<lparr>nodes = h, inq = p, outq = q, lock = False, no_empty = 0\<rparr>)
        }
      })"

definition free_double_queue_dummy :: "double_queue_node heap \<Rightarrow> addr \<Rightarrow> double_queue_node heap option" where
  "free_double_queue_dummy h dummy = heap_free h dummy"

text \<open>The loop that frees one ring; the list collects the arguments of \<open>handler\<close>.\<close>

partial_function (option) free_ring ::
  "double_queue_node heap \<Rightarrow> addr \<Rightarrow> addr \<Rightarrow> addr list \<Rightarrow> (double_queue_node heap \<times> addr list) option" where
  "free_ring h dummy p calls =
     (if p \<noteq> dummy then do {
        n \<leftarrow> h p;
        h \<leftarrow> heap_free h p;
        free_ring h dummy (nextp n) (calls @ [data n])
      } else do {
        h \<leftarrow> free_double_queue_dummy h p;
        Some (h, calls)
      })"

definition double_queue_free :: "double_queue_head \<Rightarrow> (double_queue_node heap \<times> addr list) option" where
  "double_queue_free head = do {
     d \<leftarrow> nodes head (inq head);
     (h, calls) \<leftarrow> free_ring (nodes head) (inq head) (nextp d) [];
     d \<leftarrow> h (outq head);
     free_ring h (outq head) (nextp d) calls
   }"

definition set_next :: "double_queue_node heap \<Rightarrow> addr \<Rightarrow> addr \<Rightarrow> double_queue_node heap option" where
  "set_next h p v = heap_set (nextp_update (\<lambda>_. v)) h p"

definition set_prev :: "double_queue_node heap \<Rightarrow> addr \<Rightarrow> addr \<Rightarrow> double_queue_node heap option" where
  "set_prev h p v = heap_set (prevp_update (\<lambda>_. v)) h p"

definition sem_post :: "double_queue_head \<Rightarrow> double_queue_head" where
  "sem_post head = head\<lparr>no_empty := no_empty head + 1\<rparr>"

definition sem_timedwait :: "bool \<Rightarrow> double_queue_head \<Rightarrow> double_queue_head \<times> int" where
  "sem_timedwait wake head =
     (if wake \<and> no_empty head > 0 then (head\<lparr>no_empty := no_empty head - 1\<rparr>, 0) else (head, - 1))"

definition mutex_lock :: "double_queue_head \<Rightarrow> double_queue_head option" where
  "mutex_lock head = (if lock head then None else Some (head\<lparr>lock := True\<rparr>))"

definition mutex_unlock :: "double_queue_head \<Rightarrow> double_queue_head" where
  "mutex_unlock head = head\<lparr>lock := False\<rparr>"

definition double_queue_put_nolock :: "double_queue_head \<Rightarrow> addr \<Rightarrow> (double_queue_head \<times> int) option" where
  "double_queue_put_nolock head node = do {
     let in_head = inq head;
     if in_head = 0 then Some (head, - 1) else do {
       d \<leftarrow> nodes head in_head;
       h \<leftarrow> set_next (nodes head) node (nextp d);
       d \<leftarrow> h in_head;
       h \<leftarrow> set_prev h (nextp d) node;
       h \<leftarrow> set_next h in_head node;
       h \<leftarrow> set_prev h node in_head;
       n \<leftarrow> h node;
       let head = head\<lparr>nodes := h\<rparr>;
       Some (if in_head = nextp n then sem_post head else head, 0)
     }
   }"

text \<open>\<open>p\<close> is what \<open>malloc\<close> returns for the new node.  \<open>head\<close> is not \<open>NULL\<close>.\<close>

definition double_queue_put :: "double_queue_head \<Rightarrow> addr \<Rightarrow> addr \<Rightarrow> (double_queue_head \<times> int) option" where
  "double_queue_put head p d =
     (if d = 0 then Some (head, - 1)
      else if p = 0 then Some (head, - 1)
      else do {
        h \<leftarrow> new_double_queue_node (nodes head) p d;
        head \<leftarrow> mutex_lock (head\<lparr>nodes := h\<rparr>);
        (head, ret) \<leftarrow> double_queue_put_nolock head p;
        Some (mutex_unlock head, ret)
      })"

text \<open>The critical section of the consumer, and the removal of the last node.\<close>

definition swap_in_out :: "double_queue_head \<Rightarrow> double_queue_head option" where
  "swap_in_out head = do {
     head \<leftarrow> mutex_lock head;
     Some (mutex_unlock (head\<lparr>outq := inq head, inq := outq head\<rparr>))
   }"

definition take_last :: "double_queue_head \<Rightarrow> (double_queue_head \<times> addr) option" where
  "take_last head = do {
     let out_head = outq head;
     d \<leftarrow> nodes head out_head;
     let last = prevp d;
     if last = out_head then Some (head, 0) else do {
       l \<leftarrow> nodes head last;
       h \<leftarrow> set_next (nodes head) (prevp l) (nextp l);
       l \<leftarrow> h last;
       h \<leftarrow> set_prev h (nextp l) (prevp l);
       Some (head\<lparr>nodes := h\<rparr>, last)
     }
   }"

definition double_queue_get_node :: "bool \<Rightarrow> double_queue_head \<Rightarrow> (double_queue_head \<times> addr) option" where
  "double_queue_get_node wake head = do {
     let out_head = outq head;
     if out_head = 0 then Some (head, 0) else do {
       d \<leftarrow> nodes head out_head;
       if out_head = nextp d then do {
         let (head, ret) = sem_timedwait wake head;
         if ret \<noteq> 0 then Some (head, 0) else do {
           head \<leftarrow> swap_in_out head;
           take_last head
         }
       } else take_last head
     }
   }"

definition double_queue_get :: "bool \<Rightarrow> double_queue_head \<Rightarrow> (double_queue_head \<times> addr) option" where
  "double_queue_get wake head = do {
     (head, node) \<leftarrow> double_queue_get_node wake head;
     if node = 0 then Some (head, 0) else do {
       n \<leftarrow> nodes head node;
       h \<leftarrow> free_double_queue_node (nodes head) node;
       Some (head\<lparr>nodes := h\<rparr>, data n)
     }
   }"

section \<open>Rings in the heap\<close>

definition nxt :: "double_queue_node heap \<Rightarrow> addr \<Rightarrow> addr option" where
  "nxt h p = map_option nextp (h p)"

definition prv :: "double_queue_node heap \<Rightarrow> addr \<Rightarrow> addr option" where
  "prv h p = map_option prevp (h p)"

definition dat :: "double_queue_node heap \<Rightarrow> addr \<Rightarrow> addr option" where
  "dat h p = map_option data (h p)"

fun links :: "double_queue_node heap \<Rightarrow> addr list \<Rightarrow> bool" where
  "links h (a # b # r) \<longleftrightarrow> nxt h a = Some b \<and> prv h b = Some a \<and> links h (b # r)"
| "links h _ \<longleftrightarrow> True"

text \<open>\<open>ring h d xs\<close>: from the dummy \<open>d\<close>, following \<open>next\<close>, come the nodes \<open>xs\<close> and then \<open>d\<close> again, and
  the \<open>prev\<close> pointers run backwards.\<close>

definition ring :: "double_queue_node heap \<Rightarrow> addr \<Rightarrow> addr list \<Rightarrow> bool" where
  "ring h d xs \<longleftrightarrow> distinct (d # xs) \<and> links h (d # xs @ [d])"

lemma field_simps_upd [simp]:
  "nxt (h(p \<mapsto> n)) q = (if q = p then Some (nextp n) else nxt h q)"
  "prv (h(p \<mapsto> n)) q = (if q = p then Some (prevp n) else prv h q)"
  "dat (h(p \<mapsto> n)) q = (if q = p then Some (data n) else dat h q)"
  "nxt (h(p := None)) q = (if q = p then None else nxt h q)"
  "prv (h(p := None)) q = (if q = p then None else prv h q)"
  "dat (h(p := None)) q = (if q = p then None else dat h q)"
  by (simp_all add: nxt_def prv_def dat_def)

lemma links_split: "links h (xs @ y # ys) \<longleftrightarrow> links h (xs @ [y]) \<and> links h (y # ys)"
  by (induction h xs rule: links.induct) auto

lemma links_cong:
  "(\<And>a. a \<in> set (butlast L) \<Longrightarrow> nxt h a = nxt h' a) \<Longrightarrow> (\<And>a. a \<in> set (tl L) \<Longrightarrow> prv h a = prv h' a) \<Longrightarrow>
   links h L \<longleftrightarrow> links h' L"
  by (induction h L rule: links.induct) auto

lemma ring_cong:
  assumes "\<And>a. a \<in> set (d # xs) \<Longrightarrow> nxt h a = nxt h' a \<and> prv h a = prv h' a"
  shows "ring h d xs \<longleftrightarrow> ring h' d xs"
proof -
  have "links h (d # xs @ [d]) \<longleftrightarrow> links h' (d # xs @ [d])"
    by (rule links_cong) (use assms in \<open>auto simp: butlast_append\<close>)
  then show ?thesis by (simp add: ring_def)
qed

lemma links_dom: "links h L \<Longrightarrow> 2 \<le> length L \<Longrightarrow> a \<in> set L \<Longrightarrow> h a \<noteq> None"
proof (induction h L rule: links.induct)
  case (1 h a' b r)
  then show ?case by (cases r) (auto simp: nxt_def prv_def)
qed auto

lemma ring_dom: "ring h d xs \<Longrightarrow> a \<in> set (d # xs) \<Longrightarrow> \<exists>n. h a = Some n"
  using links_dom [of h "d # xs @ [d]" a] by (auto simp: ring_def)

lemma ring_empty: "ring h d [] \<longleftrightarrow> nxt h d = Some d \<and> prv h d = Some d"
  by (simp add: ring_def)

lemma ring_head: "ring h d xs \<Longrightarrow> nxt h d = Some (hd (xs @ [d]))"
  by (cases xs) (auto simp: ring_def)

lemma ring_last: "ring h d xs \<Longrightarrow> prv h d = Some (last (d # xs))"
  using links_split [of h "d # butlast xs" "last xs" "[d]"]
  by (cases xs rule: rev_cases) (auto simp: ring_def)

lemma fieldsE:
  assumes "nxt h p = Some a" and "prv h p = Some b"
  obtains n where "h p = Some n" and "nextp n = a" and "prevp n = b"
  using assms by (auto simp: nxt_def prv_def)

lemma nxtE:
  assumes "nxt h p = Some a"
  obtains n where "h p = Some n" and "nextp n = a"
  using assms by (auto simp: nxt_def)

lemma set_next_ex:
  assumes "h p \<noteq> None"
  shows "\<exists>h'. set_next h p v = Some h' \<and> nxt h' = (nxt h)(p \<mapsto> v) \<and> prv h' = prv h \<and> dat h' = dat h
    \<and> (\<forall>q. h' q = None \<longleftrightarrow> h q = None)"
proof -
  from assms obtain n where n: "h p = Some n" by blast
  show ?thesis
    by (rule exI [of _ "h(p \<mapsto> n\<lparr>nextp := v\<rparr>)"])
      (use n in \<open>auto simp: set_next_def cmem nxt_def prv_def dat_def\<close>)
qed

lemma set_prev_ex:
  assumes "h p \<noteq> None"
  shows "\<exists>h'. set_prev h p v = Some h' \<and> nxt h' = nxt h \<and> prv h' = (prv h)(p \<mapsto> v) \<and> dat h' = dat h
    \<and> (\<forall>q. h' q = None \<longleftrightarrow> h q = None)"
proof -
  from assms obtain n where n: "h p = Some n" by blast
  show ?thesis
    by (rule exI [of _ "h(p \<mapsto> n\<lparr>prevp := v\<rparr>)"])
      (use n in \<open>auto simp: set_prev_def cmem nxt_def prv_def dat_def\<close>)
qed

section \<open>Insertion and removal\<close>

lemma links_snoc:
  "xs \<noteq> [] \<Longrightarrow> links h (xs @ [y]) \<longleftrightarrow> links h xs \<and> nxt h (last xs) = Some y \<and> prv h y = Some (last xs)"
  by (induction h xs rule: links.induct) auto

lemma put_nolock_ring:
  assumes r: "ring (nodes s) (inq s) xs" and n: "n \<notin> set (inq s # xs)" "nodes s n \<noteq> None" and nz: "inq s \<noteq> 0"
  obtains h where "double_queue_put_nolock s n =
      Some (if xs = [] then sem_post (s\<lparr>nodes := h\<rparr>) else s\<lparr>nodes := h\<rparr>, 0)"
    and "ring h (inq s) (n # xs)" and "dat h = dat (nodes s)"
    and "\<And>a. a \<notin> set (n # inq s # xs) \<Longrightarrow> nxt h a = nxt (nodes s) a \<and> prv h a = prv (nodes s) a"
    and "\<And>q. h q = None \<longleftrightarrow> nodes s q = None"
proof -
  let ?h = "nodes s" and ?d = "inq s" and ?f = "hd (xs @ [inq s])"
  have f: "nxt ?h ?d = Some ?f" "?f \<in> set (?d # xs)" using ring_head [OF r] by (auto simp: hd_append)
  obtain dn where dn: "?h ?d = Some dn" "nextp dn = ?f" using f(1) by (rule nxtE)
  obtain h1 where h1: "set_next ?h n ?f = Some h1" "nxt h1 = (nxt ?h)(n \<mapsto> ?f)" "prv h1 = prv ?h"
    "dat h1 = dat ?h" "\<And>q. h1 q = None \<longleftrightarrow> ?h q = None" using set_next_ex [of ?h n ?f] n(2) by blast
  have "nxt h1 ?d = Some ?f" using h1(2) f n by auto
  then obtain dn1 where dn1: "h1 ?d = Some dn1" "nextp dn1 = ?f" by (rule nxtE)
  have "h1 ?f \<noteq> None" using ring_dom [OF r f(2)] h1(5) by auto
  then obtain h2 where h2: "set_prev h1 ?f n = Some h2" "nxt h2 = nxt h1" "prv h2 = (prv h1)(?f \<mapsto> n)"
    "dat h2 = dat h1" "\<And>q. h2 q = None \<longleftrightarrow> h1 q = None" using set_prev_ex [of h1 ?f n] by blast
  have "h2 ?d \<noteq> None" using dn h1(5) h2(5) by auto
  then obtain h3 where h3: "set_next h2 ?d n = Some h3" "nxt h3 = (nxt h2)(?d \<mapsto> n)" "prv h3 = prv h2"
    "dat h3 = dat h2" "\<And>q. h3 q = None \<longleftrightarrow> h2 q = None" using set_next_ex [of h2 ?d n] by blast
  have "h3 n \<noteq> None" using n(2) h1(5) h2(5) h3(5) by auto
  then obtain h4 where h4: "set_prev h3 n ?d = Some h4" "nxt h4 = nxt h3" "prv h4 = (prv h3)(n \<mapsto> ?d)"
    "dat h4 = dat h3" "\<And>q. h4 q = None \<longleftrightarrow> h3 q = None" using set_prev_ex [of h3 n ?d] by blast
  have nx: "nxt h4 = (nxt ?h)(n \<mapsto> ?f, ?d \<mapsto> n)" and pv: "prv h4 = (prv ?h)(?f \<mapsto> n, n \<mapsto> ?d)"
    using h1 h2 h3 h4 by simp_all
  have "nxt h4 n = Some ?f" using nx n by simp
  then obtain nn where nn: "h4 n = Some nn" "nextp nn = ?f" by (rule nxtE)
  have dist: "distinct (?d # xs)" and L: "links ?h (?d # xs @ [?d])" using r by (auto simp: ring_def)
  have "links h4 (xs @ [?d]) \<longleftrightarrow> links ?h (xs @ [?d])"
    by (rule links_cong) (use dist n nx pv in \<open>cases xs; auto\<close>)+
  moreover have "links ?h (xs @ [?d])" using L by (cases xs) auto
  ultimately have "links h4 (xs @ [?d])" by simp
  then have "links h4 (?d # n # xs @ [?d])" using nx pv n f(2) by (cases xs) auto
  then have "ring h4 ?d (n # xs)" using dist n by (auto simp: ring_def)
  moreover have "?d = ?f \<longleftrightarrow> xs = []" using dist by (cases xs) auto
  then have "double_queue_put_nolock s n = Some (if xs = [] then sem_post (s\<lparr>nodes := h4\<rparr>) else s\<lparr>nodes := h4\<rparr>, 0)"
    using nz dn dn1 h1(1) h2(1) h3(1) h4(1) nn by (simp add: double_queue_put_nolock_def Let_def)
  moreover have "nxt h4 a = nxt ?h a \<and> prv h4 a = prv ?h a" if "a \<notin> set (n # ?d # xs)" for a
    using that f(2) nx pv by auto
  ultimately show thesis using that h1(4,5) h2(4,5) h3(4,5) h4(4,5) by simp
qed

lemma take_last_empty:
  assumes "ring (nodes s) (outq s) []"
  shows "take_last s = Some (s, 0)"
proof -
  obtain n where "nodes s (outq s) = Some n" "prevp n = outq s"
    using assms by (auto simp: ring_empty prv_def)
  then show ?thesis by (simp add: take_last_def Let_def)
qed

lemma take_last_ring:
  assumes r: "ring (nodes s) (outq s) (xs @ [l])"
  obtains h where "take_last s = Some (s\<lparr>nodes := h\<rparr>, l)" and "ring h (outq s) xs" and "dat h = dat (nodes s)"
    and "\<And>a. a \<notin> set (outq s # xs) \<Longrightarrow> nxt h a = nxt (nodes s) a \<and> prv h a = prv (nodes s) a"
    and "\<And>q. h q = None \<longleftrightarrow> nodes s q = None"
proof -
  let ?h = "nodes s" and ?d = "outq s"
  let ?p = "last (?d # xs)"
  have dist: "distinct (?d # xs @ [l])" and L: "links ?h (?d # xs @ [l, ?d])" using r by (auto simp: ring_def)
  have parts: "links ?h (?d # xs)" "nxt ?h l = Some ?d" "prv ?h ?d = Some l" "prv ?h l = Some ?p"
    using L links_snoc [of "?d # xs @ [l]" ?h ?d] links_snoc [of "?d # xs" ?h l] by auto
  obtain dn where dn: "?h ?d = Some dn" "prevp dn = l" using parts(3) by (auto simp: prv_def)
  obtain ln where ln: "?h l = Some ln" "nextp ln = ?d" "prevp ln = ?p" using parts(2) parts(4) by (rule fieldsE)
  have p: "?p \<in> set (?d # xs)" by (rule last_in_set) simp
  then have "?h ?p \<noteq> None" using ring_dom [OF r, of ?p] by auto
  then obtain h1 where h1: "set_next ?h ?p ?d = Some h1" "nxt h1 = (nxt ?h)(?p \<mapsto> ?d)" "prv h1 = prv ?h"
    "dat h1 = dat ?h" "\<And>q. h1 q = None \<longleftrightarrow> ?h q = None" using set_next_ex [of ?h ?p ?d] by blast
  have "nxt h1 l = Some ?d" "prv h1 l = Some ?p" using h1 parts(2) parts(4) dist p by auto
  then obtain ln1 where ln1: "h1 l = Some ln1" "nextp ln1 = ?d" "prevp ln1 = ?p" by (rule fieldsE)
  have "h1 ?d \<noteq> None" using dn h1(5) by auto
  then obtain h2 where h2: "set_prev h1 ?d ?p = Some h2" "nxt h2 = nxt h1" "prv h2 = (prv h1)(?d \<mapsto> ?p)"
    "dat h2 = dat h1" "\<And>q. h2 q = None \<longleftrightarrow> h1 q = None" using set_prev_ex [of h1 ?d ?p] by blast
  have nx: "nxt h2 = (nxt ?h)(?p \<mapsto> ?d)" and pv: "prv h2 = (prv ?h)(?d \<mapsto> ?p)" using h1 h2 by simp_all
  have notin: "?p \<notin> set (butlast (?d # xs))"
    using dist append_butlast_last_id [of "?d # xs"]
    by (metis distinct.simps(2) distinct_append not_distinct_conv_prefix list.discI append_Cons)
  have "links h2 (?d # xs) \<longleftrightarrow> links ?h (?d # xs)"
    by (rule links_cong) (use dist notin nx pv in auto)
  then have "links h2 (?d # xs)" using parts(1) by simp
  then have "links h2 (?d # xs @ [?d])" using nx pv links_snoc [of "?d # xs" h2 ?d] by simp
  then have "ring h2 ?d xs" using dist by (simp add: ring_def)
  moreover have "take_last s = Some (s\<lparr>nodes := h2\<rparr>, l)"
    using dn ln ln1 h1(1) h2(1) dist by (simp add: take_last_def Let_def)
  moreover have "nxt h2 a = nxt ?h a \<and> prv h2 a = prv ?h a" if "a \<notin> set (?d # xs)" for a
    using that p nx pv by auto
  ultimately show thesis using that h1(4,5) h2(4,5) by simp
qed

section \<open>The queue a state stands for\<close>

definition dq_rings :: "double_queue_head \<Rightarrow> addr list \<Rightarrow> addr list \<Rightarrow> bool" where
  "dq_rings s ins outs \<longleftrightarrow> ring (nodes s) (inq s) ins \<and> ring (nodes s) (outq s) outs
     \<and> set (inq s # ins) \<inter> set (outq s # outs) = {} \<and> nodes s 0 = None
     \<and> (\<forall>p \<in> set (ins @ outs). dat (nodes s) p \<noteq> Some 0)"

definition vals :: "double_queue_head \<Rightarrow> addr list \<Rightarrow> addr list" where
  "vals s ps = map (\<lambda>p. the (dat (nodes s) p)) (rev ps)"

text \<open>Oldest element first: the consumer's ring, then the producer's.\<close>

definition dq_rel :: "double_queue_head \<Rightarrow> addr list \<Rightarrow> bool" where
  "dq_rel s q \<longleftrightarrow> \<not> lock s \<and> (\<exists>ins outs. dq_rings s ins outs
     \<and> no_empty s = (if ins = [] then 0 else 1) \<and> q = vals s outs @ vals s ins)"

lemma vals_simps [simp]:
  "vals s [] = []" "vals s (p # ps) = vals s ps @ [the (dat (nodes s) p)]"
  "vals s (ps @ qs) = vals s qs @ vals s ps"
  by (simp_all add: vals_def)

lemma vals_cong: "(\<And>p. p \<in> set ps \<Longrightarrow> dat (nodes s) p = dat (nodes t) p) \<Longrightarrow> vals s ps = vals t ps"
  by (simp add: vals_def)

lemma dq_rings_nonnull:
  assumes "dq_rings s ins outs"
  shows "inq s \<noteq> 0" and "outq s \<noteq> 0" and "0 \<notin> set (ins @ outs)"
  using assms ring_dom [of "nodes s" "inq s" ins 0] ring_dom [of "nodes s" "outq s" outs 0]
  by (auto simp: dq_rings_def)

lemma dq_rings_live: "dq_rings s ins outs \<Longrightarrow> p \<in> set (inq s # outq s # ins @ outs) \<Longrightarrow> nodes s p \<noteq> None"
  using ring_dom [of "nodes s" "inq s" ins p] ring_dom [of "nodes s" "outq s" outs p]
  by (auto simp: dq_rings_def)

text \<open>A change of the heap outside both rings does not matter.\<close>

lemma dq_rings_frame:
  assumes "dq_rings s ins outs" and "p \<notin> set (inq s # outq s # ins @ outs)" and "h 0 = None"
    and "\<And>q. q \<noteq> p \<Longrightarrow> h q = nodes s q"
  shows "dq_rings (s\<lparr>nodes := h\<rparr>) ins outs" and "vals (s\<lparr>nodes := h\<rparr>) ins = vals s ins"
    and "vals (s\<lparr>nodes := h\<rparr>) outs = vals s outs"
proof -
  have same: "nxt h q = nxt (nodes s) q" "prv h q = prv (nodes s) q" "dat h q = dat (nodes s) q"
    if "q \<in> set (inq s # outq s # ins @ outs)" for q
  proof -
    have "q \<noteq> p" using that assms(2) by blast
    then have "h q = nodes s q" by (rule assms(4))
    then show "nxt h q = nxt (nodes s) q" "prv h q = prv (nodes s) q" "dat h q = dat (nodes s) q"
      by (simp_all add: nxt_def prv_def dat_def)
  qed
  have "ring h (inq s) ins = ring (nodes s) (inq s) ins" "ring h (outq s) outs = ring (nodes s) (outq s) outs"
    using same by (auto intro!: ring_cong)
  with assms(1,3) same show "dq_rings (s\<lparr>nodes := h\<rparr>) ins outs" by (simp add: dq_rings_def)
  show "vals (s\<lparr>nodes := h\<rparr>) ins = vals s ins" "vals (s\<lparr>nodes := h\<rparr>) outs = vals s outs"
    using same by (auto intro!: vals_cong)
qed

text \<open>The critical section of the producer on a node outside both rings.\<close>

lemma put_nolock_rings:
  assumes rs: "dq_rings s ins outs" and p: "p \<notin> set (inq s # outq s # ins @ outs)" "nodes s p \<noteq> None"
    and d: "dat (nodes s) p = Some d" "d \<noteq> 0"
  obtains h where "double_queue_put_nolock s p =
      Some (if ins = [] then sem_post (s\<lparr>nodes := h\<rparr>) else s\<lparr>nodes := h\<rparr>, 0)"
    and "dq_rings (s\<lparr>nodes := h\<rparr>) (p # ins) outs" and "dat h = dat (nodes s)"
    and "\<And>q. h q = None \<longleftrightarrow> nodes s q = None"
proof -
  have r: "ring (nodes s) (inq s) ins" and n: "p \<notin> set (inq s # ins)"
    using rs p by (auto simp: dq_rings_def)
  from r n p(2) dq_rings_nonnull(1) [OF rs] obtain h where h: "double_queue_put_nolock s p =
      Some (if ins = [] then sem_post (s\<lparr>nodes := h\<rparr>) else s\<lparr>nodes := h\<rparr>, 0)"
    and hr: "ring h (inq s) (p # ins)" and hd: "dat h = dat (nodes s)"
    and frame: "\<And>a. a \<notin> set (p # inq s # ins) \<Longrightarrow> nxt h a = nxt (nodes s) a \<and> prv h a = prv (nodes s) a"
    and live: "\<And>q. h q = None \<longleftrightarrow> nodes s q = None"
    by (rule put_nolock_ring) blast
  have "nxt h a = nxt (nodes s) a \<and> prv h a = prv (nodes s) a" if "a \<in> set (outq s # outs)" for a
    using that rs p(1) by (intro frame) (auto simp: dq_rings_def)
  then have "ring h (outq s) outs \<longleftrightarrow> ring (nodes s) (outq s) outs" by (rule ring_cong)
  with rs hr hd live d p have "dq_rings (s\<lparr>nodes := h\<rparr>) (p # ins) outs" by (auto simp: dq_rings_def)
  with h hd live that show thesis by blast
qed

lemma take_last_rings:
  assumes rs: "dq_rings s ins (outs @ [l])"
  obtains h where "take_last s = Some (s\<lparr>nodes := h\<rparr>, l)" and "dq_rings (s\<lparr>nodes := h\<rparr>) ins outs"
    and "dat h = dat (nodes s)" and "l \<notin> set (inq s # outq s # ins @ outs)"
    and "\<And>q. h q = None \<longleftrightarrow> nodes s q = None"
proof -
  have r: "ring (nodes s) (outq s) (outs @ [l])" using rs by (simp add: dq_rings_def)
  then obtain h where h: "take_last s = Some (s\<lparr>nodes := h\<rparr>, l)" and hr: "ring h (outq s) outs"
    and hd: "dat h = dat (nodes s)"
    and frame: "\<And>a. a \<notin> set (outq s # outs) \<Longrightarrow> nxt h a = nxt (nodes s) a \<and> prv h a = prv (nodes s) a"
    and live: "\<And>q. h q = None \<longleftrightarrow> nodes s q = None"
    by (rule take_last_ring) blast
  have "nxt h a = nxt (nodes s) a \<and> prv h a = prv (nodes s) a" if "a \<in> set (inq s # ins)" for a
    using that rs by (intro frame) (auto simp: dq_rings_def)
  then have "ring h (inq s) ins \<longleftrightarrow> ring (nodes s) (inq s) ins" by (rule ring_cong)
  with rs hr hd live have "dq_rings (s\<lparr>nodes := h\<rparr>) ins outs" by (auto simp: dq_rings_def)
  moreover have "l \<notin> set (inq s # outq s # ins @ outs)" using rs r by (auto simp: dq_rings_def ring_def)
  ultimately show thesis using h hd live that by blast
qed

section \<open>Sequential behaviour\<close>

lemma double_queue_put_rel:
  assumes "dq_rel s q" and "d \<noteq> 0" and "p \<noteq> 0" and "nodes s p = None"
  shows "\<exists>s'. double_queue_put s p d = Some (s', 0) \<and> dq_rel s' (q @ [d])"
proof -
  obtain ins outs where nl: "\<not> lock s" and rs: "dq_rings s ins outs"
    and sem: "no_empty s = (if ins = [] then 0 else 1)" and q: "q = vals s outs @ vals s ins"
    using assms(1) by (auto simp: dq_rel_def)
  have fresh: "p \<notin> set (inq s # outq s # ins @ outs)" using dq_rings_live [OF rs] assms(4) by blast
  let ?n = "\<lparr>nextp = 0, prevp = 0, data = d\<rparr>"
  let ?s1 = "s\<lparr>nodes := (nodes s)(p \<mapsto> ?n), lock := True\<rparr>"
  have h0: "((nodes s)(p \<mapsto> ?n)) 0 = None" using rs assms(3) by (simp add: dq_rings_def)
  have f: "dq_rings (s\<lparr>nodes := (nodes s)(p \<mapsto> ?n)\<rparr>) ins outs"
    "vals (s\<lparr>nodes := (nodes s)(p \<mapsto> ?n)\<rparr>) ins = vals s ins"
    "vals (s\<lparr>nodes := (nodes s)(p \<mapsto> ?n)\<rparr>) outs = vals s outs"
    using dq_rings_frame [of s ins outs p "(nodes s)(p \<mapsto> ?n)"] rs fresh h0 by auto
  have rs1: "dq_rings ?s1 ins outs" using f(1) by (simp add: dq_rings_def)
  have fresh1: "p \<notin> set (inq ?s1 # outq ?s1 # ins @ outs)" using fresh by simp
  obtain h where h: "double_queue_put_nolock ?s1 p =
      Some (if ins = [] then sem_post (?s1\<lparr>nodes := h\<rparr>) else ?s1\<lparr>nodes := h\<rparr>, 0)"
    and hr: "dq_rings (?s1\<lparr>nodes := h\<rparr>) (p # ins) outs" and hd: "dat h = dat (nodes ?s1)"
    by (rule put_nolock_rings [OF rs1 fresh1, of d]) (use assms(2) in auto)
  let ?s' = "s\<lparr>nodes := h, no_empty := 1\<rparr>"
  have "double_queue_put s p d = Some (?s', 0)"
    using assms nl h sem
    by (cases "ins = []")
      (simp_all add: double_queue_put_def new_double_queue_node_def cmem mutex_lock_def mutex_unlock_def sem_post_def)
  moreover have "dq_rings ?s' (p # ins) outs" using hr by (simp add: dq_rings_def)
  moreover have "vals ?s' xs = vals (s\<lparr>nodes := (nodes s)(p \<mapsto> ?n)\<rparr>) xs" for xs
    using hd by (intro vals_cong) simp
  then have "vals ?s' outs @ vals ?s' (p # ins) = q @ [d]" using f(2,3) q hd by simp
  ultimately show ?thesis using nl unfolding dq_rel_def by (intro exI [of _ ?s']) force
qed

lemma take_and_free:
  assumes rs: "dq_rings s ins (outs @ [l])"
  obtains h where "do { (head, node) \<leftarrow> take_last s;
        if node = 0 then Some (head, 0) else do {
          n \<leftarrow> nodes head node;
          h \<leftarrow> free_double_queue_node (nodes head) node;
          Some (head\<lparr>nodes := h\<rparr>, data n) } } = Some (s\<lparr>nodes := h\<rparr>, the (dat (nodes s) l))"
    and "dq_rings (s\<lparr>nodes := h\<rparr>) ins outs"
    and "vals (s\<lparr>nodes := h\<rparr>) ins = vals s ins" and "vals (s\<lparr>nodes := h\<rparr>) outs = vals s outs"
proof -
  obtain h where h: "take_last s = Some (s\<lparr>nodes := h\<rparr>, l)" "dq_rings (s\<lparr>nodes := h\<rparr>) ins outs"
    "dat h = dat (nodes s)" "l \<notin> set (inq s # outq s # ins @ outs)" "\<And>q. h q = None \<longleftrightarrow> nodes s q = None"
    using rs by (rule take_last_rings) blast
  have l0: "l \<noteq> 0" using dq_rings_nonnull(3) [OF rs] by auto
  have "nodes s l \<noteq> None" using dq_rings_live [OF rs, of l] by simp
  then obtain n where n: "h l = Some n" using h(5) [of l] by auto
  then have dn: "the (dat (nodes s) l) = data n" using h(3) by (metis dat_def option.map(2) option.sel)
  let ?h = "h(l := None)"
  have h0: "?h 0 = None" using h(2) by (simp add: dq_rings_def)
  have out: "l \<notin> set (inq (s\<lparr>nodes := h\<rparr>) # outq (s\<lparr>nodes := h\<rparr>) # ins @ outs)" using h(4) by simp
  have f: "dq_rings (s\<lparr>nodes := ?h\<rparr>) ins outs" "vals (s\<lparr>nodes := ?h\<rparr>) ins = vals (s\<lparr>nodes := h\<rparr>) ins"
    "vals (s\<lparr>nodes := ?h\<rparr>) outs = vals (s\<lparr>nodes := h\<rparr>) outs"
    using dq_rings_frame [of "s\<lparr>nodes := h\<rparr>" ins outs l ?h] h(2) out h0 by auto
  have v: "vals (s\<lparr>nodes := h\<rparr>) xs = vals s xs" for xs using h(3) by (intro vals_cong) simp
  show thesis
    by (rule that [of ?h]) (use h(1) n l0 dn f v in \<open>simp_all add: free_double_queue_node_def cmem\<close>)
qed

lemma double_queue_get_rel:
  assumes "dq_rel s (d # q)"
  shows "\<exists>s'. double_queue_get True s = Some (s', d) \<and> dq_rel s' q \<and> d \<noteq> 0"
proof -
  obtain ins outs where nl: "\<not> lock s" and rs: "dq_rings s ins outs"
    and sem: "no_empty s = (if ins = [] then 0 else 1)" and q: "d # q = vals s outs @ vals s ins"
    using assms by (auto simp: dq_rel_def)
  have o0: "outq s \<noteq> 0" by (rule dq_rings_nonnull(2) [OF rs])
  have ro: "ring (nodes s) (outq s) outs" using rs by (simp add: dq_rings_def)
  obtain dn where dn: "nodes s (outq s) = Some dn" "nextp dn = hd (outs @ [outq s])"
    using ring_head [OF ro] by (rule nxtE)
  have nz: "the (dat (nodes s) l) \<noteq> 0" if l: "l \<in> set (ins @ outs)" for l
  proof -
    obtain y where y: "nodes s l = Some y" using dq_rings_live [OF rs, of l] l by auto
    have "dat (nodes s) l \<noteq> Some 0" using rs l unfolding dq_rings_def by blast
    with y show ?thesis by (simp add: dat_def)
  qed
  show ?thesis
  proof (cases outs rule: rev_cases)
    case Nil
    then obtain xs l where ins: "ins = xs @ [l]" using q by (cases ins rule: rev_cases) auto
    let ?s1 = "s\<lparr>no_empty := 0, outq := inq s, inq := outq s, lock := False\<rparr>"
    have rs1: "dq_rings ?s1 [] (xs @ [l])" using rs Nil ins by (auto simp: dq_rings_def)
    have v: "vals ?s1 ps = vals s ps" for ps by (rule vals_cong) simp
    from rs1 obtain h where h: "do { (head, node) \<leftarrow> take_last ?s1;
          if node = 0 then Some (head, 0) else do {
            n \<leftarrow> nodes head node;
            h \<leftarrow> free_double_queue_node (nodes head) node;
            Some (head\<lparr>nodes := h\<rparr>, data n) } } = Some (?s1\<lparr>nodes := h\<rparr>, the (dat (nodes ?s1) l))"
      "dq_rings (?s1\<lparr>nodes := h\<rparr>) [] xs" "vals (?s1\<lparr>nodes := h\<rparr>) xs = vals ?s1 xs"
      by (rule take_and_free) blast
    have "double_queue_get True s = Some (?s1\<lparr>nodes := h\<rparr>, the (dat (nodes s) l))"
      using h(1) dn nl sem Nil ins o0
      by (simp add: double_queue_get_def double_queue_get_node_def Let_def sem_timedwait_def swap_in_out_def
          mutex_lock_def mutex_unlock_def)
    moreover have "d = the (dat (nodes s) l)" "q = vals s xs" using q Nil ins by simp_all
    moreover have "dq_rel (?s1\<lparr>nodes := h\<rparr>) (vals s xs)"
      using h(2,3) nl v unfolding dq_rel_def by (intro conjI exI [of _ "[]"] exI [of _ xs]) simp_all
    ultimately show ?thesis using nz [of l] ins by auto
  next
    case (snoc xs l)
    with rs obtain h where h: "do { (head, node) \<leftarrow> take_last s;
          if node = 0 then Some (head, 0) else do {
            n \<leftarrow> nodes head node;
            h \<leftarrow> free_double_queue_node (nodes head) node;
            Some (head\<lparr>nodes := h\<rparr>, data n) } } = Some (s\<lparr>nodes := h\<rparr>, the (dat (nodes s) l))"
      "dq_rings (s\<lparr>nodes := h\<rparr>) ins xs" "vals (s\<lparr>nodes := h\<rparr>) ins = vals s ins"
      "vals (s\<lparr>nodes := h\<rparr>) xs = vals s xs"
      by (auto elim: take_and_free)
    have "hd (outs @ [outq s]) \<noteq> outq s" using ro snoc by (cases xs) (auto simp: ring_def)
    then have "double_queue_get True s = Some (s\<lparr>nodes := h\<rparr>, the (dat (nodes s) l))"
      using h(1) dn o0 by (simp add: double_queue_get_def double_queue_get_node_def Let_def)
    moreover have "d = the (dat (nodes s) l)" "q = vals s xs @ vals s ins" using q snoc by simp_all
    moreover have "dq_rel (s\<lparr>nodes := h\<rparr>) (vals s xs @ vals s ins)"
      using h(2-4) nl sem unfolding dq_rel_def by (intro conjI exI [of _ ins] exI [of _ xs]) simp_all
    ultimately show ?thesis using nz [of l] snoc by auto
  qed
qed

lemma double_queue_get_empty:
  assumes "dq_rel s []"
  shows "double_queue_get wake s = Some (s, 0)"
proof -
  obtain ins outs where rs: "dq_rings s ins outs" and sem: "no_empty s = (if ins = [] then 0 else 1)"
    and e: "vals s outs @ vals s ins = []" using assms by (auto simp: dq_rel_def)
  from e have "outs = []" "ins = []" by (simp_all add: vals_def)
  moreover from this obtain dn where "nodes s (outq s) = Some dn" "nextp dn = outq s"
    using rs by (auto simp: dq_rings_def ring_empty nxt_def)
  ultimately show ?thesis using sem dq_rings_nonnull(2) [OF rs]
    by (simp add: double_queue_get_def double_queue_get_node_def Let_def sem_timedwait_def)
qed

section \<open>Creation and destruction\<close>

lemma double_queue_init_rel:
  assumes "h 0 = None" and "h p = None" and "h q = None" and "p \<noteq> 0" and "q \<noteq> 0" and "p \<noteq> q"
  shows "\<exists>h' s. double_queue_init h True p q = Some (h', Some s) \<and> nodes s = h' \<and> dq_rel s []"
proof -
  let ?h = "h(p \<mapsto> \<lparr>nextp = p, prevp = p, data = 0\<rparr>, q \<mapsto> \<lparr>nextp = q, prevp = q, data = 0\<rparr>)"
  let ?s = "\<lparr>nodes = ?h, inq = p, outq = q, lock = False, no_empty = 0\<rparr>"
  have "double_queue_init h True p q = Some (?h, Some ?s)"
    using assms by (simp add: double_queue_init_def new_double_queue_node_dummy_def cmem)
  moreover have "dq_rings ?s [] []" using assms by (simp add: dq_rings_def ring_empty)
  then have "dq_rel ?s []" unfolding dq_rel_def by (intro conjI exI [of _ "[]"]) simp_all
  ultimately show ?thesis by auto
qed

lemma free_ring_spec:
  assumes "links h (p # xs @ [d])" and "p \<noteq> d" and "distinct (p # xs @ [d])" and "0 \<notin> set (p # xs @ [d])"
  shows "free_ring h d p calls =
    Some (\<lambda>a. if a \<in> set (p # xs @ [d]) then None else h a, calls @ map (\<lambda>a. the (dat h a)) (p # xs))"
  using assms
proof (induction xs arbitrary: h p calls)
  case Nil
  obtain n m where n: "h p = Some n" "nextp n = d" and m: "h d = Some m"
    using Nil by (auto simp: nxt_def prv_def)
  have "free_ring (h(p := None)) d d (calls @ [data n]) = Some ((h(p := None))(d := None), calls @ [data n])"
    using m Nil by (subst free_ring.simps) (simp add: free_double_queue_dummy_def cmem)
  moreover have "(h(p := None))(d := None) = (\<lambda>a. if a \<in> set (p # [] @ [d]) then None else h a)" by auto
  ultimately show ?case using n Nil by (subst free_ring.simps) (simp add: cmem dat_def)
next
  case (Cons x xs)
  obtain n where n: "h p = Some n" "nextp n = x" using Cons.prems(1) by (auto simp: nxt_def)
  let ?h = "h(p := None)"
  have "links ?h (x # xs @ [d]) \<longleftrightarrow> links h (x # xs @ [d])"
    by (rule links_cong) (use Cons.prems in \<open>auto simp: nxt_def prv_def dest: in_set_butlastD\<close>)
  then have L: "links ?h (x # xs @ [d])" using Cons.prems(1) by simp
  have "free_ring ?h d x (calls @ [data n]) =
      Some (\<lambda>a. if a \<in> set (x # xs @ [d]) then None else ?h a, (calls @ [data n]) @ map (\<lambda>a. the (dat ?h a)) (x # xs))"
    using L by (rule Cons.IH) (use Cons.prems in auto)
  moreover have "(\<lambda>a. if a \<in> set (x # xs @ [d]) then None else ?h a) =
      (\<lambda>a. if a \<in> set (p # (x # xs) @ [d]) then None else h a)" by auto
  moreover have "map (\<lambda>a. the (dat ?h a)) (x # xs) = map (\<lambda>a. the (dat h a)) (x # xs)"
    using Cons.prems(3) by (auto simp: dat_def)
  ultimately show ?case using n Cons.prems by (subst free_ring.simps) (simp add: cmem dat_def)
qed

lemma free_whole_ring:
  assumes "ring h d xs" and "h 0 = None"
  shows "\<exists>n. h d = Some n \<and> free_ring h d (nextp n) calls =
    Some (\<lambda>a. if a \<in> set (d # xs) then None else h a, calls @ map (\<lambda>a. the (dat h a)) xs)"
proof -
  obtain n where n: "h d = Some n" "nextp n = hd (xs @ [d])" using ring_head [OF assms(1)] by (rule nxtE)
  have d0: "d \<noteq> 0" using n assms(2) by (metis option.discI)
  show ?thesis
  proof (cases xs)
    case Nil
    have "free_ring h d d calls = Some (h(d := None), calls)"
      using n d0 by (subst free_ring.simps) (simp add: free_double_queue_dummy_def cmem)
    moreover have "h(d := None) = (\<lambda>a. if a \<in> set (d # xs) then None else h a)" using Nil by auto
    ultimately show ?thesis using n Nil by simp
  next
    case (Cons x ys)
    have L: "links h (x # ys @ [d])" "distinct (x # ys @ [d])" using assms(1) Cons by (auto simp: ring_def)
    have "0 \<notin> set (d # xs)" using ring_dom [OF assms(1), of 0] assms(2) by (metis option.discI)
    then have "0 \<notin> set (x # ys @ [d])" using Cons by auto
    then have "free_ring h d x calls =
      Some (\<lambda>a. if a \<in> set (x # ys @ [d]) then None else h a, calls @ map (\<lambda>a. the (dat h a)) (x # ys))"
      using L by (intro free_ring_spec) auto
    moreover have "(\<lambda>a. if a \<in> set (x # ys @ [d]) then None else h a) = (\<lambda>a. if a \<in> set (d # xs) then None else h a)"
      using Cons by auto
    ultimately show ?thesis using n Cons by simp
  qed
qed

lemma double_queue_free_spec:
  assumes "dq_rel s q"
  shows "\<exists>h calls. double_queue_free s = Some (h, calls) \<and> mset calls = mset q
    \<and> (\<forall>p. h p = nodes s p \<or> h p = None) \<and> h (inq s) = None \<and> h (outq s) = None"
proof -
  obtain ins outs where rs: "dq_rings s ins outs" and q: "q = vals s outs @ vals s ins"
    using assms by (auto simp: dq_rel_def)
  have r: "ring (nodes s) (inq s) ins" "ring (nodes s) (outq s) outs" "nodes s 0 = None"
    and dis: "set (inq s # ins) \<inter> set (outq s # outs) = {}" using rs by (auto simp: dq_rings_def)
  define h1 where "h1 = (\<lambda>a. if a \<in> set (inq s # ins) then None else nodes s a)"
  obtain n where n: "nodes s (inq s) = Some n" "free_ring (nodes s) (inq s) (nextp n) [] =
      Some (h1, map (\<lambda>a. the (dat (nodes s) a)) ins)"
    using free_whole_ring [OF r(1,3), of "[]"] by (auto simp: h1_def)
  have same: "h1 a = nodes s a" if "a \<in> set (outq s # outs)" for a using that dis by (auto simp: h1_def)
  have r1: "ring h1 (outq s) outs"
    using r(2) ring_cong [of "outq s" outs h1 "nodes s"] same by (auto simp: nxt_def prv_def)
  have h10: "h1 0 = None" using r(3) by (simp add: h1_def)
  obtain m where m: "h1 (outq s) = Some m" "free_ring h1 (outq s) (nextp m) (map (\<lambda>a. the (dat (nodes s) a)) ins) =
      Some (\<lambda>a. if a \<in> set (outq s # outs) then None else h1 a,
        map (\<lambda>a. the (dat (nodes s) a)) ins @ map (\<lambda>a. the (dat h1 a)) outs)"
    using free_whole_ring [OF r1 h10, of "map (\<lambda>a. the (dat (nodes s) a)) ins"] by blast
  have "map (\<lambda>a. the (dat h1 a)) outs = map (\<lambda>a. the (dat (nodes s) a)) outs"
    using same by (auto simp: dat_def)
  with n m q have "double_queue_free s = Some (\<lambda>a. if a \<in> set (outq s # outs) then None else h1 a,
        map (\<lambda>a. the (dat (nodes s) a)) ins @ map (\<lambda>a. the (dat (nodes s) a)) outs)"
    "mset (map (\<lambda>a. the (dat (nodes s) a)) ins @ map (\<lambda>a. the (dat (nodes s) a)) outs) = mset q"
    by (simp_all add: double_queue_free_def vals_def)
  then show ?thesis
    by (intro exI [of _ "\<lambda>a. if a \<in> set (outq s # outs) then None else h1 a"]
        exI [of _ "map (\<lambda>a. the (dat (nodes s) a)) ins @ map (\<lambda>a. the (dat (nodes s) a)) outs"])
      (auto simp: h1_def)
qed

section \<open>The interface: a queue of pointers\<close>

text \<open>\<open>malloc\<close> picks the address of a new node from the heap state; \<open>0\<close> is failure.\<close>

locale ptr_queue =
  fixes put :: "'s \<Rightarrow> addr \<Rightarrow> ('s \<times> int) option" and get :: "'s \<Rightarrow> ('s \<times> addr) option"
    and rel :: "'s \<Rightarrow> addr list \<Rightarrow> bool"
  assumes put_law: "rel s q \<Longrightarrow> \<exists>s' r. put s d = Some (s', r) \<and>
      (r = 0 \<and> d \<noteq> 0 \<and> rel s' (q @ [d]) \<or> r = - 1 \<and> rel s' q)"
    and get_empty: "rel s [] \<Longrightarrow> \<exists>s'. get s = Some (s', 0) \<and> rel s' []"
    and get_law: "rel s (d # q) \<Longrightarrow> \<exists>s'. get s = Some (s', d) \<and> rel s' q \<and> d \<noteq> 0"

datatype ptr_op = PutP addr | GetP

text \<open>A run of operations: the pointers accepted (\<open>put\<close> returned 0) and delivered (not \<open>NULL\<close>).\<close>

fun ptr_run :: "('s \<Rightarrow> addr \<Rightarrow> ('s \<times> int) option) \<Rightarrow> ('s \<Rightarrow> ('s \<times> addr) option) \<Rightarrow> 's \<Rightarrow> ptr_op list \<Rightarrow>
    ('s \<times> addr list \<times> addr list) option" where
  "ptr_run put get s [] = Some (s, [], [])"
| "ptr_run put get s (PutP d # ops) = do {
     (s, r) \<leftarrow> put s d;
     (s, acc, del) \<leftarrow> ptr_run put get s ops;
     Some (s, if r = 0 then d # acc else acc, del)
   }"
| "ptr_run put get s (GetP # ops) = do {
     (s, d) \<leftarrow> get s;
     (s, acc, del) \<leftarrow> ptr_run put get s ops;
     Some (s, acc, if d = 0 then del else d # del)
   }"

context ptr_queue
begin

lemma run_fifo:
  assumes "rel s q"
  shows "\<exists>s' acc del q'. ptr_run put get s ops = Some (s', acc, del) \<and> rel s' q' \<and> q @ acc = del @ q'"
  using assms
proof (induction ops arbitrary: s q)
  case Nil
  then show ?case by auto
next
  case (Cons op ops)
  show ?case
  proof (cases op)
    case (PutP d)
    obtain s1 r where p: "put s d = Some (s1, r)"
      and alt: "r = 0 \<and> d \<noteq> 0 \<and> rel s1 (q @ [d]) \<or> r = - 1 \<and> rel s1 q"
      using put_law [OF Cons.prems] by blast
    from alt show ?thesis
    proof (elim disjE conjE)
      assume "r = 0" "rel s1 (q @ [d])"
      with Cons.IH [of s1 "q @ [d]"] p PutP show ?thesis by fastforce
    next
      assume "r = - 1" "rel s1 q"
      with Cons.IH [of s1 q] p PutP show ?thesis by fastforce
    qed
  next
    case GetP
    show ?thesis
    proof (cases q)
      case Nil
      with Cons.prems obtain s1 where "get s = Some (s1, 0)" "rel s1 []" using get_empty by blast
      with Cons.IH [of s1 "[]"] GetP Nil show ?thesis by fastforce
    next
      case (Cons d q1)
      with Cons.prems obtain s1 where "get s = Some (s1, d)" "rel s1 q1" "d \<noteq> 0" using get_law by blast
      with Cons.IH [of s1 q1] GetP Cons show ?thesis by fastforce
    qed
  qed
qed

end

text \<open>
  The queue operations satisfy the interface for every \<open>malloc\<close> that never returns the address of a
  live node; a first-fit choice among candidate addresses is one.
\<close>

definition dq_malloc :: "double_queue_node heap \<Rightarrow> addr list \<Rightarrow> addr" where
  "dq_malloc h cands = (case filter (\<lambda>p. h p = None) cands of [] \<Rightarrow> 0 | p # _ \<Rightarrow> p)"

lemma dq_malloc_fresh: "h 0 = None \<Longrightarrow> h (dq_malloc h cands) = None"
  by (auto simp: dq_malloc_def split: list.split dest: filter_eq_ConsD)

lemma double_queue_is_queue:
  assumes malloc: "\<And>h. h 0 = None \<Longrightarrow> h (malloc h) = None"
  shows "ptr_queue (\<lambda>s d. double_queue_put s (malloc (nodes s)) d) (double_queue_get True) dq_rel"
proof
  fix s q d
  assume r: "dq_rel s q"
  then have "nodes s 0 = None" by (auto simp: dq_rel_def dq_rings_def)
  then have fresh: "nodes s (malloc (nodes s)) = None" by (rule malloc)
  show "\<exists>s' ret. double_queue_put s (malloc (nodes s)) d = Some (s', ret) \<and>
      (ret = 0 \<and> d \<noteq> 0 \<and> dq_rel s' (q @ [d]) \<or> ret = - 1 \<and> dq_rel s' q)"
  proof (cases "d = 0 \<or> malloc (nodes s) = 0")
    case True
    then have "double_queue_put s (malloc (nodes s)) d = Some (s, - 1)"
      by (auto simp: double_queue_put_def)
    with r show ?thesis by blast
  next
    case False
    with double_queue_put_rel [OF r, of d] fresh show ?thesis by blast
  qed
next
  fix s assume "dq_rel s []"
  with double_queue_get_empty show "\<exists>s'. double_queue_get True s = Some (s', 0) \<and> dq_rel s' []" by blast
next
  fix s d q assume "dq_rel s (d # q)"
  then show "\<exists>s'. double_queue_get True s = Some (s', d) \<and> dq_rel s' q \<and> d \<noteq> 0" by (rule double_queue_get_rel)
qed

interpretation dq: ptr_queue "\<lambda>s d. double_queue_put s (dq_malloc (nodes s) cands) d" "double_queue_get True" dq_rel
  for cands
  by (rule double_queue_is_queue) (rule dq_malloc_fresh)

section \<open>One producer and one consumer\<close>

text \<open>
  The two threads interleave.  A step of the producer is the allocation of a node or its critical
  section; a step of the consumer is the test of its own ring, the wait, its critical section, the
  removal of the last node, or the release of that node.  The ghost fields record the pointers accepted
  and delivered.
\<close>

datatype producer = PIdle | PNode addr addr
datatype consumer = CIdle | CWait | CSwap | CTake | CNode addr

record dq_conc =
  hd_st :: double_queue_head
  prod :: producer
  cons :: consumer
  accepted :: "addr list"
  delivered :: "addr list"

inductive dq_step :: "dq_conc \<Rightarrow> dq_conc \<Rightarrow> bool" where
  p_alloc: "prod c = PIdle \<Longrightarrow> d \<noteq> 0 \<Longrightarrow> p \<noteq> 0 \<Longrightarrow> new_double_queue_node (nodes (hd_st c)) p d = Some h \<Longrightarrow>
    dq_step c (c\<lparr>hd_st := (hd_st c)\<lparr>nodes := h\<rparr>, prod := PNode p d\<rparr>)"
| p_put: "prod c = PNode p d \<Longrightarrow> mutex_lock (hd_st c) = Some s \<Longrightarrow> double_queue_put_nolock s p = Some (s', 0) \<Longrightarrow>
    dq_step c (c\<lparr>hd_st := mutex_unlock s', prod := PIdle, accepted := accepted c @ [d]\<rparr>)"
| c_nonempty: "cons c = CIdle \<Longrightarrow> nodes (hd_st c) (outq (hd_st c)) = Some n \<Longrightarrow> nextp n \<noteq> outq (hd_st c) \<Longrightarrow>
    dq_step c (c\<lparr>cons := CTake\<rparr>)"
| c_empty: "cons c = CIdle \<Longrightarrow> nodes (hd_st c) (outq (hd_st c)) = Some n \<Longrightarrow> nextp n = outq (hd_st c) \<Longrightarrow>
    dq_step c (c\<lparr>cons := CWait\<rparr>)"
| c_wake: "cons c = CWait \<Longrightarrow> sem_timedwait True (hd_st c) = (s, 0) \<Longrightarrow> dq_step c (c\<lparr>hd_st := s, cons := CSwap\<rparr>)"
| c_timeout: "cons c = CWait \<Longrightarrow> dq_step c (c\<lparr>cons := CIdle\<rparr>)"
| c_swap: "cons c = CSwap \<Longrightarrow> swap_in_out (hd_st c) = Some s \<Longrightarrow> dq_step c (c\<lparr>hd_st := s, cons := CTake\<rparr>)"
| c_take: "cons c = CTake \<Longrightarrow> take_last (hd_st c) = Some (s, l) \<Longrightarrow>
    dq_step c (c\<lparr>hd_st := s, cons := (if l = 0 then CIdle else CNode l)\<rparr>)"
| c_free: "cons c = CNode l \<Longrightarrow> nodes (hd_st c) l = Some n \<Longrightarrow> free_double_queue_node (nodes (hd_st c)) l = Some h \<Longrightarrow>
    dq_step c (c\<lparr>hd_st := (hd_st c)\<lparr>nodes := h\<rparr>, cons := CIdle, delivered := delivered c @ [data n]\<rparr>)"

fun pending :: "double_queue_head \<Rightarrow> consumer \<Rightarrow> addr list" where
  "pending s (CNode l) = [the (dat (nodes s) l)]"
| "pending s _ = []"

fun prod_ok :: "double_queue_head \<Rightarrow> addr list \<Rightarrow> producer \<Rightarrow> bool" where
  "prod_ok s used (PNode p d) \<longleftrightarrow> d \<noteq> 0 \<and> dat (nodes s) p = Some d \<and> p \<notin> set used"
| "prod_ok s used PIdle \<longleftrightarrow> True"

fun cons_ok :: "double_queue_head \<Rightarrow> addr list \<Rightarrow> addr list \<Rightarrow> consumer \<Rightarrow> bool" where
  "cons_ok s ins outs CIdle \<longleftrightarrow> True"
| "cons_ok s ins outs CWait \<longleftrightarrow> outs = []"
| "cons_ok s ins outs CSwap \<longleftrightarrow> outs = [] \<and> ins \<noteq> []"
| "cons_ok s ins outs CTake \<longleftrightarrow> outs \<noteq> []"
| "cons_ok s ins outs (CNode l) \<longleftrightarrow> l \<noteq> 0 \<and> nodes s l \<noteq> None \<and> l \<notin> set (inq s # outq s # ins @ outs)"

fun held :: "consumer \<Rightarrow> addr list" where
  "held (CNode l) = [l]"
| "held _ = []"

definition dq_shape :: "double_queue_head \<Rightarrow> producer \<Rightarrow> consumer \<Rightarrow> addr list \<Rightarrow> addr list \<Rightarrow> addr list \<Rightarrow> addr list \<Rightarrow> bool"
  where
  "dq_shape s P C acc del ins outs \<longleftrightarrow> \<not> lock s \<and> dq_rings s ins outs
     \<and> no_empty s = (if ins = [] \<or> C = CSwap then 0 else 1)
     \<and> prod_ok s (inq s # outq s # ins @ outs @ held C) P \<and> cons_ok s ins outs C
     \<and> acc = del @ pending s C @ vals s outs @ vals s ins"

definition dq_inv :: "dq_conc \<Rightarrow> bool" where
  "dq_inv c \<longleftrightarrow> (\<exists>ins outs. dq_shape (hd_st c) (prod c) (cons c) (accepted c) (delivered c) ins outs)"

lemma dq_shapeD:
  assumes "dq_shape s P C acc del ins outs"
  shows "\<not> lock s" and "dq_rings s ins outs" and "no_empty s = (if ins = [] \<or> C = CSwap then 0 else 1)"
    and "prod_ok s (inq s # outq s # ins @ outs @ held C) P" and "cons_ok s ins outs C"
    and "acc = del @ pending s C @ vals s outs @ vals s ins"
  using assms by (auto simp: dq_shape_def)

lemma dq_rings_cong:
  "nodes t = nodes s \<Longrightarrow> inq t = inq s \<Longrightarrow> outq t = outq s \<Longrightarrow> dq_rings t ins outs = dq_rings s ins outs"
  by (simp add: dq_rings_def)

lemma vals_same: "nodes t = nodes s \<Longrightarrow> vals t ps = vals s ps"
  by (simp add: vals_def)

lemma pending_same: "dat (nodes t) = dat (nodes s) \<Longrightarrow> pending t x = pending s x"
  by (cases x) auto

lemma vals_dat: "dat (nodes t) = dat (nodes s) \<Longrightarrow> vals t ps = vals s ps"
  by (simp add: vals_def)

lemma shape_p_alloc:
  assumes a: "dq_shape s PIdle C acc del ins outs" and "d \<noteq> 0" and "p \<noteq> 0"
    and new: "new_double_queue_node (nodes s) p d = Some h"
  shows "dq_shape (s\<lparr>nodes := h\<rparr>) (PNode p d) C acc del ins outs"
proof -
  note a = dq_shapeD [OF a]
  have h: "h = (nodes s)(p \<mapsto> \<lparr>nextp = 0, prevp = 0, data = d\<rparr>)" "nodes s p = None"
    using new by (auto simp: new_double_queue_node_def heap_alloc_def)
  have fresh: "p \<notin> set (inq s # outq s # ins @ outs)" using dq_rings_live [OF a(2)] h(2) by blast
  have h0: "h 0 = None" using a(2) h(1) assms(3) by (simp add: dq_rings_def)
  have f: "dq_rings (s\<lparr>nodes := h\<rparr>) ins outs" "vals (s\<lparr>nodes := h\<rparr>) ins = vals s ins"
    "vals (s\<lparr>nodes := h\<rparr>) outs = vals s outs"
    using dq_rings_frame [of s ins outs p h] a(2) fresh h0 h(1) by auto
  have nh: "p \<notin> set (held C)" using a(5) h(2) by (cases C) auto
  have pd: "pending (s\<lparr>nodes := h\<rparr>) C = pending s C" using nh h(1) by (cases C) auto
  have ck: "cons_ok (s\<lparr>nodes := h\<rparr>) ins outs C" using a(5) h(1) by (cases C) simp_all
  have pk: "prod_ok (s\<lparr>nodes := h\<rparr>) (inq s # outq s # ins @ outs @ held C) (PNode p d)"
    using fresh nh assms(2) h(1) by simp
  show ?thesis unfolding dq_shape_def using a(1,3,6) f pd ck pk by simp
qed

lemma shape_p_put:
  assumes a: "dq_shape s0 (PNode p d) C acc del ins outs" and lock: "mutex_lock s0 = Some s"
    and put: "double_queue_put_nolock s p = Some (s', 0)"
  shows "dq_shape (mutex_unlock s') PIdle C (acc @ [d]) del (p # ins) outs"
proof -
  note a = dq_shapeD [OF a]
  have s: "s = s0\<lparr>lock := True\<rparr>" using lock by (auto simp: mutex_lock_def split: if_splits)
  have p: "p \<notin> set (inq s # outq s # ins @ outs)" "dat (nodes s) p = Some d" "d \<noteq> 0" "p \<notin> set (held C)"
    using a(4) s by simp_all
  then have live: "nodes s p \<noteq> None" by (auto simp: dat_def)
  have rs: "dq_rings s ins outs" using a(2) s by (simp add: dq_rings_def)
  obtain h where h: "double_queue_put_nolock s p =
      Some (if ins = [] then sem_post (s\<lparr>nodes := h\<rparr>) else s\<lparr>nodes := h\<rparr>, 0)"
    "dq_rings (s\<lparr>nodes := h\<rparr>) (p # ins) outs" "dat h = dat (nodes s)" "\<And>q. h q = None \<longleftrightarrow> nodes s q = None"
    using put_nolock_rings [OF rs p(1) live p(2,3)] by blast
  define t where "t = mutex_unlock s'"
  have t: "nodes t = h" "inq t = inq s0" "outq t = outq s0" "\<not> lock t"
    "no_empty t = (if ins = [] then no_empty s0 + 1 else no_empty s0)"
    using h(1) put s by (auto simp: mutex_unlock_def sem_post_def t_def)
  have sem: "no_empty t = (if C = CSwap then 0 else 1)"
  proof (cases "C = CSwap")
    case True
    with a(3,5) t(5) show ?thesis by simp
  next
    case False
    with a(3) t(5) show ?thesis by simp
  qed
  have rings: "dq_rings t (p # ins) outs" using h(2) s t by (simp add: dq_rings_def)
  have same: "dat (nodes t) = dat (nodes s0)" using t(1) h(3) s by simp
  have ck: "cons_ok t (p # ins) outs C" using a(5) p(4) t h(4) s by (cases C) simp_all
  have "the (dat (nodes t) p) = d" using p(2) s same by simp
  then have acc: "acc @ [d] = del @ pending t C @ vals t outs @ vals t (p # ins)"
    using a(6) by (simp add: vals_dat [OF same] pending_same [OF same])
  show ?thesis unfolding t_def [symmetric] dq_shape_def using rings sem t(4) ck acc by simp
qed

lemma shape_c_idle:
  assumes "dq_shape s P C acc del ins outs" and "C = CIdle \<or> C = CWait"
  shows "dq_shape s P CIdle acc del ins outs"
  using assms by (auto simp: dq_shape_def)

lemma shape_c_test:
  assumes a: "dq_shape s P CIdle acc del ins outs" and n: "nodes s (outq s) = Some n"
  shows "dq_shape s P (if nextp n = outq s then CWait else CTake) acc del ins outs"
proof -
  have ro: "ring (nodes s) (outq s) outs" using dq_shapeD(2) [OF a] by (simp add: dq_rings_def)
  have "nextp n = hd (outs @ [outq s])" using ring_head [OF ro] n by (simp add: nxt_def)
  then have "nextp n = outq s \<longleftrightarrow> outs = []" using ro by (cases outs) (auto simp: ring_def)
  with a show ?thesis by (auto simp: dq_shape_def)
qed

lemma shape_c_wake:
  assumes a: "dq_shape s0 P CWait acc del ins outs" and w: "sem_timedwait True s0 = (s, 0)"
  shows "dq_shape s P CSwap acc del ins outs"
proof -
  note a = dq_shapeD [OF a]
  have s: "s = s0\<lparr>no_empty := no_empty s0 - 1\<rparr>" "0 < no_empty s0"
    using w by (auto simp: sem_timedwait_def split: if_splits)
  then have ne: "ins \<noteq> []" "outs = []" using a(3,5) by (auto split: if_splits)
  have fields: "nodes s = nodes s0" "inq s = inq s0" "outq s = outq s0" "\<not> lock s" "no_empty s = 0"
    using s a(1,3) ne by simp_all
  have po: "prod_ok s xs P = prod_ok s0 xs P" for xs using s by (cases P) simp_all
  have rings: "dq_rings s ins outs" using a(2) by (simp add: dq_rings_def fields)
  show ?thesis unfolding dq_shape_def using rings ne fields a(4,6) po by (simp add: vals_def)
qed

lemma shape_c_swap:
  assumes a: "dq_shape s0 P CSwap acc del ins outs" and w: "swap_in_out s0 = Some s"
  shows "dq_shape s P CTake acc del [] ins"
proof -
  note a = dq_shapeD [OF a]
  have s: "s = s0\<lparr>outq := inq s0, inq := outq s0, lock := False\<rparr>"
    using w a(1) by (auto simp: swap_in_out_def mutex_lock_def mutex_unlock_def)
  have ne: "ins \<noteq> []" "outs = []" using a(5) by auto
  have fields: "nodes s = nodes s0" "inq s = outq s0" "outq s = inq s0" "\<not> lock s" "no_empty s = 0"
    using s a(3) by simp_all
  have po: "prod_ok s (outq s0 # inq s0 # ins) P" using a(4) ne fields by (cases P) auto
  have rings: "dq_rings s [] ins" using a(2) ne by (auto simp: dq_rings_def fields)
  show ?thesis unfolding dq_shape_def using rings ne fields po a(6) by (simp add: vals_def)
qed

lemma shape_c_take:
  assumes a: "dq_shape s0 P CTake acc del ins outs" and w: "take_last s0 = Some (s, l)"
  shows "l \<noteq> 0 \<and> dq_shape s P (CNode l) acc del ins (butlast outs)"
proof -
  note a = dq_shapeD [OF a]
  obtain xs l' where outs: "outs = xs @ [l']" using a(5) by (cases outs rule: rev_cases) auto
  then have rs: "dq_rings s0 ins (xs @ [l'])" using a(2) by simp
  obtain h where h: "take_last s0 = Some (s0\<lparr>nodes := h\<rparr>, l')" "dq_rings (s0\<lparr>nodes := h\<rparr>) ins xs"
    "dat h = dat (nodes s0)" "l' \<notin> set (inq s0 # outq s0 # ins @ xs)" "\<And>q. h q = None \<longleftrightarrow> nodes s0 q = None"
    using take_last_rings [OF rs] by blast
  have s: "s = s0\<lparr>nodes := h\<rparr>" "l = l'" using h(1) w by simp_all
  have l0: "l \<noteq> 0" "nodes s0 l \<noteq> None"
    using dq_rings_nonnull(3) [OF rs] dq_rings_live [OF rs, of l'] s(2) by auto
  have same: "dat (nodes s) = dat (nodes s0)" using s h(3) by simp
  have po: "prod_ok s (inq s0 # outq s0 # ins @ xs @ [l]) P" using a(4) outs s same by (cases P) simp_all
  have "dq_shape s P (CNode l) acc del ins xs"
    unfolding dq_shape_def using a(1,3,6) h(2,4,5) l0 po outs same
    by (simp add: s vals_dat [OF same, unfolded s])
  with l0 outs show ?thesis by simp
qed

lemma shape_c_free:
  assumes a: "dq_shape s P (CNode l) acc del ins outs" and n: "nodes s l = Some n"
    and free: "free_double_queue_node (nodes s) l = Some h"
  shows "dq_shape (s\<lparr>nodes := h\<rparr>) P CIdle acc (del @ [data n]) ins outs"
proof -
  note a = dq_shapeD [OF a]
  have l: "l \<noteq> 0" "l \<notin> set (inq s # outq s # ins @ outs)" using a(5) by simp_all
  then have h: "h = (nodes s)(l := None)" using n free by (simp add: free_double_queue_node_def cmem)
  have h0: "h 0 = None" using a(2) h by (simp add: dq_rings_def)
  have f: "dq_rings (s\<lparr>nodes := h\<rparr>) ins outs" "vals (s\<lparr>nodes := h\<rparr>) ins = vals s ins"
    "vals (s\<lparr>nodes := h\<rparr>) outs = vals s outs"
    using dq_rings_frame [of s ins outs l h] a(2) l(2) h0 h by auto
  have po: "prod_ok (s\<lparr>nodes := h\<rparr>) (inq s # outq s # ins @ outs) P" using a(4) h by (cases P) auto
  have "the (dat (nodes s) l) = data n" using n by (simp add: dat_def)
  then show ?thesis unfolding dq_shape_def using a(1,3,6) f po by simp
qed

lemma dq_step_inv: "dq_step c c' \<Longrightarrow> dq_inv c \<Longrightarrow> dq_inv c'"
proof (induction rule: dq_step.induct)
  case (p_alloc c d p h)
  then obtain ins outs where
    sh: "dq_shape (hd_st c) (prod c) (cons c) (accepted c) (delivered c) ins outs" by (auto simp: dq_inv_def)
  from shape_p_alloc [OF sh [unfolded p_alloc(1)] p_alloc(2-4)] show ?case by (auto simp: dq_inv_def)
next
  case (p_put c p d s s')
  then obtain ins outs where
    sh: "dq_shape (hd_st c) (prod c) (cons c) (accepted c) (delivered c) ins outs" by (auto simp: dq_inv_def)
  from shape_p_put [OF sh [unfolded p_put(1)] p_put(2,3)] show ?case by (auto simp: dq_inv_def)
next
  case (c_nonempty c n)
  then obtain ins outs where
    sh: "dq_shape (hd_st c) (prod c) (cons c) (accepted c) (delivered c) ins outs" by (auto simp: dq_inv_def)
  from shape_c_test [OF sh [unfolded c_nonempty(1)] c_nonempty(2)] c_nonempty(3) show ?case by (auto simp: dq_inv_def)
next
  case (c_empty c n)
  then obtain ins outs where
    sh: "dq_shape (hd_st c) (prod c) (cons c) (accepted c) (delivered c) ins outs" by (auto simp: dq_inv_def)
  from shape_c_test [OF sh [unfolded c_empty(1)] c_empty(2)] c_empty(3) show ?case by (auto simp: dq_inv_def)
next
  case (c_wake c s)
  then obtain ins outs where
    sh: "dq_shape (hd_st c) (prod c) (cons c) (accepted c) (delivered c) ins outs" by (auto simp: dq_inv_def)
  from shape_c_wake [OF sh [unfolded c_wake(1)] c_wake(2)] show ?case by (auto simp: dq_inv_def)
next
  case (c_timeout c)
  then obtain ins outs where
    sh: "dq_shape (hd_st c) (prod c) (cons c) (accepted c) (delivered c) ins outs" by (auto simp: dq_inv_def)
  from shape_c_idle [OF sh] c_timeout(1) show ?case by (auto simp: dq_inv_def)
next
  case (c_swap c s)
  then obtain ins outs where
    sh: "dq_shape (hd_st c) (prod c) (cons c) (accepted c) (delivered c) ins outs" by (auto simp: dq_inv_def)
  from shape_c_swap [OF sh [unfolded c_swap(1)] c_swap(2)] show ?case by (auto simp: dq_inv_def)
next
  case (c_take c s l)
  then obtain ins outs where
    sh: "dq_shape (hd_st c) (prod c) (cons c) (accepted c) (delivered c) ins outs" by (auto simp: dq_inv_def)
  from shape_c_take [OF sh [unfolded c_take(1)] c_take(2)] show ?case by (auto simp: dq_inv_def)
next
  case (c_free c l n h)
  then obtain ins outs where
    sh: "dq_shape (hd_st c) (prod c) (cons c) (accepted c) (delivered c) ins outs" by (auto simp: dq_inv_def)
  from shape_c_free [OF sh [unfolded c_free(1)] c_free(2,3)] show ?case by (auto simp: dq_inv_def)
qed

text \<open>No step a thread is about to take can be blocked or fault.\<close>

lemma prod_progress:
  assumes "dq_inv c" and "prod c = PNode p d"
  shows "\<exists>s s'. mutex_lock (hd_st c) = Some s \<and> double_queue_put_nolock s p = Some (s', 0)"
proof -
  obtain ins outs where "dq_shape (hd_st c) (PNode p d) (cons c) (accepted c) (delivered c) ins outs"
    using assms by (auto simp: dq_inv_def)
  note a = dq_shapeD [OF this]
  let ?s = "(hd_st c)\<lparr>lock := True\<rparr>"
  have rs: "dq_rings ?s ins outs" using a(2) by (simp add: dq_rings_def)
  have p: "p \<notin> set (inq ?s # outq ?s # ins @ outs)" "dat (nodes ?s) p = Some d" "d \<noteq> 0" using a(4) by simp_all
  then have live: "nodes ?s p \<noteq> None" by (auto simp: dat_def)
  have "mutex_lock (hd_st c) = Some ?s" using a(1) by (simp add: mutex_lock_def)
  then show ?thesis using put_nolock_rings [OF rs p(1) live p(2,3)] by (metis (no_types, lifting))
qed

lemma cons_progress:
  assumes "dq_inv c"
  shows "cons c = CIdle \<Longrightarrow> \<exists>n. nodes (hd_st c) (outq (hd_st c)) = Some n"
    and "cons c = CSwap \<Longrightarrow> \<exists>s. swap_in_out (hd_st c) = Some s"
    and "cons c = CTake \<Longrightarrow> \<exists>s l. take_last (hd_st c) = Some (s, l) \<and> l \<noteq> 0"
    and "cons c = CNode l \<Longrightarrow> \<exists>n h. nodes (hd_st c) l = Some n \<and> free_double_queue_node (nodes (hd_st c)) l = Some h"
proof -
  obtain ins outs where sh: "dq_shape (hd_st c) (prod c) (cons c) (accepted c) (delivered c) ins outs"
    using assms by (auto simp: dq_inv_def)
  note a = dq_shapeD [OF this]
  show "\<exists>n. nodes (hd_st c) (outq (hd_st c)) = Some n" using dq_rings_live [OF a(2), of "outq (hd_st c)"] by auto
  show "\<exists>s. swap_in_out (hd_st c) = Some s" using a(1) by (simp add: swap_in_out_def mutex_lock_def)
  { assume t: "cons c = CTake"
    then obtain xs l where "outs = xs @ [l]" using a(5) by (cases outs rule: rev_cases) auto
    then obtain h where "take_last (hd_st c) = Some ((hd_st c)\<lparr>nodes := h\<rparr>, l)" using take_last_rings a(2) by metis
    with shape_c_take [OF sh [unfolded t]] show "\<exists>s l. take_last (hd_st c) = Some (s, l) \<and> l \<noteq> 0" by blast }
  { assume "cons c = CNode l"
    then show "\<exists>n h. nodes (hd_st c) l = Some n \<and> free_double_queue_node (nodes (hd_st c)) l = Some h"
      using a(5) by (auto simp: free_double_queue_node_def heap_free_def) }
qed

section \<open>Properties\<close>

text \<open>
  (C6) The queue as a client uses it: \<open>double_queue_init\<close> gives an empty queue; \<open>double_queue_put\<close> of a
  pointer that is not \<open>NULL\<close> appends it (and answers \<open>-1\<close>, changing nothing, for \<open>NULL\<close> or when
  \<open>malloc\<close> fails); \<open>double_queue_get\<close> removes the oldest pointer, or answers \<open>NULL\<close> when the queue
  is empty; \<open>double_queue_free\<close> returns without touching freed memory and hands exactly the stored
  pointers to the handler.
\<close>

theorem double_queue_correct:
  assumes "h 0 = None" and "h p = None" and "h q = None" and "p \<noteq> 0" and "q \<noteq> 0" and "p \<noteq> q"
  shows "(\<exists>h' s. double_queue_init h True p q = Some (h', Some s) \<and> dq_rel s [])
    \<and> (\<forall>s xs n d. dq_rel s xs \<and> nodes s n = None \<longrightarrow>
        (if d = 0 \<or> n = 0 then double_queue_put s n d = Some (s, - 1)
         else \<exists>s'. double_queue_put s n d = Some (s', 0) \<and> dq_rel s' (xs @ [d])))
    \<and> (\<forall>s wake. dq_rel s [] \<longrightarrow> double_queue_get wake s = Some (s, 0))
    \<and> (\<forall>s d xs. dq_rel s (d # xs) \<longrightarrow> (\<exists>s'. double_queue_get True s = Some (s', d) \<and> dq_rel s' xs))
    \<and> (\<forall>s xs. dq_rel s xs \<longrightarrow> (\<exists>h' calls. double_queue_free s = Some (h', calls) \<and> mset calls = mset xs))"
proof (intro conjI allI impI)
  show "\<exists>h' s. double_queue_init h True p q = Some (h', Some s) \<and> dq_rel s []"
    using double_queue_init_rel [OF assms] by blast
next
  fix s xs n d assume "dq_rel s xs \<and> nodes s n = None"
  then show "if d = 0 \<or> n = 0 then double_queue_put s n d = Some (s, - 1)
      else \<exists>s'. double_queue_put s n d = Some (s', 0) \<and> dq_rel s' (xs @ [d])"
    using double_queue_put_rel [of s xs d n] by (auto simp: double_queue_put_def)
next
  fix s wake assume "dq_rel s []"
  then show "double_queue_get wake s = Some (s, 0)" by (rule double_queue_get_empty)
next
  fix s d xs assume "dq_rel s (d # xs)"
  then show "\<exists>s'. double_queue_get True s = Some (s', d) \<and> dq_rel s' xs" using double_queue_get_rel by blast
next
  fix s xs assume "dq_rel s xs"
  then show "\<exists>h' calls. double_queue_free s = Some (h', calls) \<and> mset calls = mset xs"
    using double_queue_free_spec by blast
qed

theorem double_queue_correct_witness:
  "\<exists>h' s s1 s2. double_queue_init Map.empty True (Suc 0) (Suc (Suc 0)) = Some (h', Some s)
     \<and> double_queue_put s 3 77 = Some (s1, 0) \<and> double_queue_get True s1 = Some (s2, 77) \<and> dq_rel s2 []"
proof -
  note ops = double_queue_correct [of Map.empty "Suc 0" "Suc (Suc 0)", OF refl refl refl nat.distinct(2) nat.distinct(2)
      n_not_Suc_n]
  obtain h' s where s: "double_queue_init Map.empty True (Suc 0) (Suc (Suc 0)) = Some (h', Some s)" "dq_rel s []"
    using ops [THEN conjunct1] by blast
  have "nodes s 3 = None"
    using s(1) by (auto simp: double_queue_init_def new_double_queue_node_dummy_def cmem)
  then obtain s1 where s1: "double_queue_put s 3 77 = Some (s1, 0)" "dq_rel s1 [77]"
    using ops [THEN conjunct2, THEN conjunct1, rule_format, of s "[]" 3 77] s(2) by auto
  then obtain s2 where "double_queue_get True s1 = Some (s2, 77)" "dq_rel s2 []"
    using ops [THEN conjunct2, THEN conjunct2, THEN conjunct2, THEN conjunct1, rule_format, of s1 77 "[]"] by blast
  with s s1 show ?thesis by blast
qed

text \<open>
  First in, first out, for a single thread of control: whatever sequence of puts and gets is performed
  and whichever \<open>malloc\<close> calls fail, every call returns, and the pointers delivered followed by those still
  queued are those queued before followed by those accepted.
\<close>

theorem double_queue_fifo:
  assumes "\<forall>h. h 0 = None \<longrightarrow> h (malloc h) = None" and "dq_rel s q"
  shows "\<exists>s' accepted delivered q'.
    ptr_run (\<lambda>s d. double_queue_put s (malloc (nodes s)) d) (double_queue_get True) s ops = Some (s', accepted, delivered)
    \<and> dq_rel s' q' \<and> q @ accepted = delivered @ q'"
proof -
  have "ptr_queue (\<lambda>s d. double_queue_put s (malloc (nodes s)) d) (double_queue_get True) dq_rel"
    by (rule double_queue_is_queue) (use assms(1) in blast)
  from ptr_queue.run_fifo [OF this assms(2)] show ?thesis by blast
qed

theorem double_queue_fifo_witness:
  "\<exists>s' accepted delivered q'.
    ptr_run (\<lambda>s d. double_queue_put s (dq_malloc (nodes s) [1..<9]) d) (double_queue_get True)
      \<lparr>nodes = [1 \<mapsto> \<lparr>nextp = 1, prevp = 1, data = 0\<rparr>, 2 \<mapsto> \<lparr>nextp = 2, prevp = 2, data = 0\<rparr>],
       inq = 1, outq = 2, lock = False, no_empty = 0\<rparr>
      [PutP 5, PutP 6, GetP, PutP 7, GetP, GetP, GetP] = Some (s', accepted, delivered)
    \<and> accepted = delivered @ q'"
proof -
  let ?s = "\<lparr>nodes = [1 \<mapsto> \<lparr>nextp = 1, prevp = 1, data = 0\<rparr>, 2 \<mapsto> \<lparr>nextp = 2, prevp = 2, data = 0\<rparr>],
       inq = 1, outq = 2, lock = False, no_empty = 0\<rparr>"
  have "dq_rings ?s [] []" by (simp add: dq_rings_def ring_empty)
  then have "dq_rel ?s []" unfolding dq_rel_def by (intro conjI exI [of _ "[]"]) simp_all
  moreover have "\<forall>h. h 0 = None \<longrightarrow> h (dq_malloc h [1..<9]) = None" using dq_malloc_fresh by blast
  ultimately show ?thesis
    using double_queue_fifo [of "\<lambda>h. dq_malloc h [1..<9]" ?s "[]" "[PutP 5, PutP 6, GetP, PutP 7, GetP, GetP, GetP]"]
    by auto
qed

text \<open>
  (C1) One producer thread and one consumer thread, interleaved in any way from an empty queue: the
  pointers delivered are a prefix of the pointers accepted, in order; no step of either thread faults or
  finds the mutex taken for ever, the producer can always complete its insertion, and a consumer whose wait on
  the semaphore succeeded always gets a node (it never returns \<open>NULL\<close> after a successful wait).
\<close>

theorem double_queue_spsc:
  assumes "dq_step\<^sup>*\<^sup>* \<lparr>hd_st = s, prod = PIdle, cons = CIdle, accepted = [], delivered = []\<rparr> c" and "dq_rel s []"
  shows "(\<exists>rest. accepted c = delivered c @ rest)
    \<and> (\<forall>p d. prod c = PNode p d \<longrightarrow> (\<exists>t t'. mutex_lock (hd_st c) = Some t \<and> double_queue_put_nolock t p = Some (t', 0)))
    \<and> (cons c = CSwap \<longrightarrow> (\<exists>t. swap_in_out (hd_st c) = Some t))
    \<and> (cons c = CTake \<longrightarrow> (\<exists>t l. take_last (hd_st c) = Some (t, l) \<and> l \<noteq> 0))
    \<and> (\<forall>l. cons c = CNode l \<longrightarrow> (\<exists>h. free_double_queue_node (nodes (hd_st c)) l = Some h))"
proof -
  have "dq_inv \<lparr>hd_st = s, prod = PIdle, cons = CIdle, accepted = [], delivered = []\<rparr>"
    using assms(2) by (auto simp: dq_inv_def dq_shape_def dq_rel_def)
  with assms(1) have inv: "dq_inv c"
    by (induction rule: rtranclp_induct) (auto intro: dq_step_inv)
  then have "\<exists>rest. accepted c = delivered c @ rest" by (auto simp: dq_inv_def dq_shape_def)
  with prod_progress [OF inv] cons_progress [OF inv] show ?thesis by blast
qed

theorem double_queue_spsc_witness:
  "\<exists>s c. dq_rel s [] \<and> dq_step\<^sup>*\<^sup>* \<lparr>hd_st = s, prod = PIdle, cons = CIdle, accepted = [], delivered = []\<rparr> c
     \<and> prod c = PNode 3 77
     \<and> (\<exists>t t'. mutex_lock (hd_st c) = Some t \<and> double_queue_put_nolock t 3 = Some (t', 0))"
proof -
  let ?s = "\<lparr>nodes = [1 \<mapsto> \<lparr>nextp = 1, prevp = 1, data = 0\<rparr>, 2 \<mapsto> \<lparr>nextp = 2, prevp = 2, data = 0\<rparr>],
       inq = 1, outq = 2, lock = False, no_empty = 0\<rparr>"
  let ?c = "\<lparr>hd_st = ?s, prod = PIdle, cons = CIdle, accepted = [], delivered = []\<rparr>"
  let ?h = "(nodes ?s)(3 \<mapsto> \<lparr>nextp = 0, prevp = 0, data = 77\<rparr>)"
  have "dq_rings ?s [] []" by (simp add: dq_rings_def ring_empty)
  then have r: "dq_rel ?s []" unfolding dq_rel_def by (intro conjI exI [of _ "[]"]) simp_all
  have st: "dq_step\<^sup>*\<^sup>* ?c (?c\<lparr>hd_st := ?s\<lparr>nodes := ?h\<rparr>, prod := PNode 3 77\<rparr>)"
    using p_alloc [of ?c 77 3 ?h] by (simp add: new_double_queue_node_def cmem)
  from double_queue_spsc [OF st r] st r show ?thesis by (intro exI [of _ ?s] exI) auto
qed

text \<open>
  When the allocation of the second dummy fails, \<open>double_queue_init\<close> answers \<open>NULL\<close> and frees the
  head, but the first dummy stays allocated with no pointer left to it.
\<close>

theorem double_queue_init_leak:
  assumes "p \<noteq> 0" and "h p = None"
  shows "\<exists>h'. double_queue_init h True p 0 = Some (h', None) \<and> h' p \<noteq> None"
  using assms by (simp add: double_queue_init_def new_double_queue_node_dummy_def cmem)

theorem double_queue_init_leak_witness:
  "\<exists>h'. double_queue_init Map.empty True 1 0 = Some (h', None) \<and> h' 1 \<noteq> None"
  using double_queue_init_leak [of 1 Map.empty] by simp

end
