(* ===== verification/SkipCore.thy ===== *)
theory SkipCore
  imports CHeap
begin

text \<open>
  The skip list that \<open>mycache/src/struct/skip_list.c\<close> and \<open>mycache/src/cache/kvcache.c\<close> both
  implement: nodes with a priority, two verification hashes, a flexible array \<open>elem\<close> of forward
  pointers, and a body that differs between the two.  The loops the two files share are defined once,
  with the comparison of priorities as a parameter where the loops differ, and related to the list of
  nodes in level 0.
\<close>

section \<open>Definitions\<close>

record 'd sl_node =
  priority :: u64
  ack_hash_1 :: u64
  ack_hash_2 :: u64
  elem :: "addr list"
  body :: 'd

type_synonym 'd sl_heap = "'d sl_node heap"

text \<open>\<open>p->elem[k]\<close> and its assignment; an index outside the flexible array faults.\<close>

definition nxk :: "'d sl_heap \<Rightarrow> nat \<Rightarrow> addr \<Rightarrow> addr option" where
  "nxk h k p = do { n \<leftarrow> h p; if k < length (elem n) then Some (elem n ! k) else None }"

definition set_elem :: "'d sl_heap \<Rightarrow> addr \<Rightarrow> nat \<Rightarrow> addr \<Rightarrow> 'd sl_heap option" where
  "set_elem h p k v = do {
     n \<leftarrow> h p;
     require (k < length (elem n));
     Some (h(p \<mapsto> n\<lparr>elem := (elem n)[k := v]\<rparr>))
   }"

text \<open>\<open>while ((pnode = phead->elem[slevel]) && cmp(pnode->priority)) phead = pnode;\<close>, returning
  \<open>phead\<close> and \<open>pnode\<close>.\<close>

partial_function (option) walk ::
  "(u64 \<Rightarrow> bool) \<Rightarrow> 'd sl_heap \<Rightarrow> nat \<Rightarrow> addr \<Rightarrow> (addr \<times> addr) option" where
  "walk cmp h slevel phead = do {
     pnode \<leftarrow> nxk h slevel phead;
     if pnode \<noteq> 0 then do {
       n \<leftarrow> h pnode;
       if cmp (priority n) then walk cmp h slevel pnode else Some (phead, pnode)
     } else Some (phead, pnode)
   }"

text \<open>\<open>do { ...; update[slevel] = phead; } while (--slevel >= 0);\<close>\<close>

primrec descend ::
  "(u64 \<Rightarrow> bool) \<Rightarrow> 'd sl_heap \<Rightarrow> nat \<Rightarrow> addr \<Rightarrow> addr list \<Rightarrow> (addr \<times> addr \<times> addr list) option" where
  "descend cmp h 0 phead update = do {
     (phead, pnode) \<leftarrow> walk cmp h 0 phead;
     require (0 < length update);
     Some (phead, pnode, update[0 := phead])
   }"
| "descend cmp h (Suc slevel) phead update = do {
     (phead, pnode) \<leftarrow> walk cmp h (Suc slevel) phead;
     require (Suc slevel < length update);
     descend cmp h slevel phead (update[Suc slevel := phead])
   }"

text \<open>The descent of a search, which keeps no \<open>update\<close> and returns the last \<open>pnode\<close>.\<close>

primrec descend_get :: "(u64 \<Rightarrow> bool) \<Rightarrow> 'd sl_heap \<Rightarrow> nat \<Rightarrow> addr \<Rightarrow> addr option" where
  "descend_get cmp h 0 phead = do { (phead, pnode) \<leftarrow> walk cmp h 0 phead; Some pnode }"
| "descend_get cmp h (Suc slevel) phead = do {
     (phead, pnode) \<leftarrow> walk cmp h (Suc slevel) phead;
     descend_get cmp h slevel phead
   }"

text \<open>The loop over the nodes of equal priority; \<open>0\<close> when none has the two hashes.\<close>

partial_function (option) scan :: "'d sl_heap \<Rightarrow> u64 \<Rightarrow> u64 \<Rightarrow> u64 \<Rightarrow> addr \<Rightarrow> addr option" where
  "scan h prio a1 a2 pnode =
     (if pnode = 0 then Some 0 else do {
        n \<leftarrow> h pnode;
        if prio = priority n then
          if a1 = ack_hash_1 n \<and> a2 = ack_hash_2 n then Some pnode
          else do { q \<leftarrow> nxk h 0 pnode; scan h prio a1 a2 q }
        else Some 0
      })"

text \<open>\<open>do { phead = update[slevel]; snode->elem[slevel] = phead->elem[slevel];
  phead->elem[slevel] = snode; } while (--slevel >= 0);\<close>\<close>

definition link_at :: "'d sl_heap \<Rightarrow> addr list \<Rightarrow> addr \<Rightarrow> nat \<Rightarrow> 'd sl_heap option" where
  "link_at h update snode slevel = do {
     require (slevel < length update);
     let phead = update ! slevel;
     q \<leftarrow> nxk h slevel phead;
     h \<leftarrow> set_elem h snode slevel q;
     set_elem h phead slevel snode
   }"

primrec link_loop :: "'d sl_heap \<Rightarrow> addr list \<Rightarrow> addr \<Rightarrow> nat \<Rightarrow> 'd sl_heap option" where
  "link_loop h update snode 0 = link_at h update snode 0"
| "link_loop h update snode (Suc slevel) = do {
     h \<leftarrow> link_at h update snode (Suc slevel);
     link_loop h update snode slevel
   }"

text \<open>\<open>if (slevel > shead->level) { slevel = ++shead->level; update[slevel] = shead->head; }\<close>, returning
  \<open>slevel\<close>, the level of the list, and \<open>update\<close>.\<close>

definition choose_level :: "nat \<Rightarrow> nat \<Rightarrow> addr \<Rightarrow> addr list \<Rightarrow> (nat \<times> nat \<times> addr list) option" where
  "choose_level slevel level head update =
     (if slevel > level then do {
        require (level + 1 < length update);
        Some (level + 1, level + 1, update[level + 1 := head])
      } else Some (slevel, level, update))"

text \<open>\<open>for (slevel = 0; slevel <= tmplevel && (phead = update[slevel])->elem[slevel] == pnode; slevel++)
  phead->elem[slevel] = pnode->elem[slevel];\<close>\<close>

function unlink_loop :: "'d sl_heap \<Rightarrow> addr list \<Rightarrow> addr \<Rightarrow> nat \<Rightarrow> nat \<Rightarrow> 'd sl_heap option" where
  "unlink_loop h update pnode slevel tmplevel =
     (if slevel \<le> tmplevel then do {
        require (slevel < length update);
        let phead = update ! slevel;
        q \<leftarrow> nxk h slevel phead;
        if q = pnode then do {
          r \<leftarrow> nxk h slevel pnode;
          h \<leftarrow> set_elem h phead slevel r;
          unlink_loop h update pnode (Suc slevel) tmplevel
        } else Some h
      } else Some h)"
  by pat_completeness auto
termination by (relation "measure (\<lambda>(h, u, p, s, t). Suc t - s)") auto

text \<open>\<open>while (head->elem[tmplevel] == NIL && tmplevel > 0) tmplevel--;\<close>\<close>

primrec lower_level :: "'d sl_heap \<Rightarrow> addr \<Rightarrow> nat \<Rightarrow> nat option" where
  "lower_level h head 0 = do { q \<leftarrow> nxk h 0 head; Some 0 }"
| "lower_level h head (Suc tmplevel) = do {
     q \<leftarrow> nxk h (Suc tmplevel) head;
     if q = 0 then lower_level h head tmplevel else Some (Suc tmplevel)
   }"

declare unlink_loop.simps [simp del]

section \<open>Views of the heap\<close>

definition ht :: "'d sl_heap \<Rightarrow> addr \<Rightarrow> nat" where
  "ht h p = (case h p of None \<Rightarrow> 0 | Some n \<Rightarrow> length (elem n))"

definition pr :: "'d sl_heap \<Rightarrow> addr \<Rightarrow> u64" where
  "pr h p = (case h p of None \<Rightarrow> 0 | Some n \<Rightarrow> priority n)"

text \<open>Everything of a node except the values of its forward pointers.\<close>

definition core :: "'d sl_heap \<Rightarrow> addr \<Rightarrow> (nat \<times> u64 \<times> u64 \<times> u64 \<times> 'd) option" where
  "core h p = map_option (\<lambda>n. (length (elem n), priority n, ack_hash_1 n, ack_hash_2 n, body n)) (h p)"

lemma core_eqD:
  assumes "core h p = core h' p"
  shows "ht h p = ht h' p" and "pr h p = pr h' p" and "h p = None \<longleftrightarrow> h' p = None"
  using assms by (auto simp: core_def ht_def pr_def split: option.splits)

lemma nxk_ex: "k < ht h p \<Longrightarrow> \<exists>q. nxk h k p = Some q"
  by (auto simp: ht_def nxk_def split: option.splits)

lemma nxk_SomeD: "nxk h k p = Some q \<Longrightarrow> k < ht h p \<and> h p \<noteq> None"
  by (auto simp: ht_def nxk_def split: bind_splits option.splits if_splits)

lemma set_elem_spec:
  assumes "k < ht h p"
  shows "\<exists>h'. set_elem h p k v = Some h' \<and> core h' = core h
    \<and> (\<forall>j q. nxk h' j q = (if j = k \<and> q = p then Some v else nxk h j q)) \<and> (\<forall>q. q \<noteq> p \<longrightarrow> h' q = h q)"
proof -
  obtain n where n: "h p = Some n" "k < length (elem n)" using assms by (auto simp: ht_def split: option.splits)
  show ?thesis
    by (rule exI [of _ "h(p \<mapsto> n\<lparr>elem := (elem n)[k := v]\<rparr>)"])
      (use n in \<open>auto simp: set_elem_def core_def nxk_def fun_eq_iff nth_list_update\<close>)
qed

fun path :: "'d sl_heap \<Rightarrow> nat \<Rightarrow> addr \<Rightarrow> addr list \<Rightarrow> bool" where
  "path h k a [] \<longleftrightarrow> nxk h k a = Some 0"
| "path h k a (x # xs) \<longleftrightarrow> nxk h k a = Some x \<and> path h k x xs"

lemma path_append: "path h k a (xs @ y # ys) \<Longrightarrow> path h k y ys"
  by (induction xs arbitrary: a) auto

lemma path_hd: "path h k a xs \<Longrightarrow> nxk h k a = Some (hd (xs @ [0]))"
  by (cases xs) auto

lemma path_cong: "(\<And>b. b \<in> set (a # xs) \<Longrightarrow> nxk h' k b = nxk h k b) \<Longrightarrow> path h' k a xs \<longleftrightarrow> path h k a xs"
  by (induction xs arbitrary: a) auto

lemma path_insert:
  assumes "path h k a (xs @ ys)" and "distinct (a # xs @ ys)"
    and "\<And>b. b \<in> set (a # xs @ ys) \<Longrightarrow> b \<noteq> last (a # xs) \<Longrightarrow> nxk h' k b = nxk h k b"
    and "nxk h' k (last (a # xs)) = Some n" and "nxk h' k n = nxk h k (last (a # xs))"
  shows "path h' k a (xs @ n # ys)"
  using assms
proof (induction xs arbitrary: a)
  case Nil
  have "path h' k n ys"
  proof (cases ys)
    case (Cons y zs)
    have "path h' k y zs \<longleftrightarrow> path h k y zs" by (rule path_cong) (use Nil Cons in auto)
    with Nil Cons show ?thesis by simp
  qed (use Nil in simp)
  with Nil show ?case by simp
next
  case (Cons x xs)
  have "path h' k x (xs @ n # ys)" by (rule Cons.IH) (use Cons.prems in auto)
  moreover have "a \<noteq> last (a # x # xs)" using Cons.prems(2) last_in_set [of "x # xs"] by auto
  then have "nxk h' k a = nxk h k a" using Cons.prems(3) [of a] by simp
  ultimately show ?case using Cons.prems(1) by simp
qed

lemma path_remove:
  assumes "path h k a (xs @ n # ys)" and "distinct (a # xs @ n # ys)"
    and "\<And>b. b \<in> set (a # xs @ ys) \<Longrightarrow> b \<noteq> last (a # xs) \<Longrightarrow> nxk h' k b = nxk h k b"
    and "nxk h' k (last (a # xs)) = nxk h k n"
  shows "path h' k a (xs @ ys)"
  using assms
proof (induction xs arbitrary: a)
  case Nil
  show ?case
  proof (cases ys)
    case (Cons y zs)
    have "path h' k y zs \<longleftrightarrow> path h k y zs" by (rule path_cong) (use Nil Cons in auto)
    with Nil Cons show ?thesis by simp
  qed (use Nil in simp)
next
  case (Cons x xs)
  have "path h' k x (xs @ ys)" by (rule Cons.IH) (use Cons.prems in auto)
  moreover have "a \<noteq> last (a # x # xs)" using Cons.prems(2) last_in_set [of "x # xs"] by auto
  then have "nxk h' k a = nxk h k a" using Cons.prems(3) [of a] by simp
  ultimately show ?case using Cons.prems(1) by simp
qed

section \<open>The skip list invariant\<close>

definition chain :: "'d sl_heap \<Rightarrow> addr list \<Rightarrow> nat \<Rightarrow> addr list" where
  "chain h ns k = filter (\<lambda>a. k < ht h a) ns"

definition sl_ok :: "'d sl_heap \<Rightarrow> addr \<Rightarrow> nat \<Rightarrow> addr list \<Rightarrow> bool" where
  "sl_ok h head level ns \<longleftrightarrow> distinct (head # ns) \<and> 0 \<notin> set (head # ns) \<and> h 0 = None
     \<and> ht h head = 16 \<and> level < 16 \<and> (\<forall>a \<in> set ns. 0 < ht h a \<and> ht h a \<le> Suc level)
     \<and> (\<forall>k < 16. path h k head (chain h ns k)) \<and> sorted (map (pr h) ns)"

lemma sl_okD:
  assumes "sl_ok h head level ns"
  shows "distinct (head # ns)" and "0 \<notin> set (head # ns)" and "h 0 = None" and "ht h head = 16" and "level < 16"
    and "\<And>a. a \<in> set ns \<Longrightarrow> 0 < ht h a \<and> ht h a \<le> Suc level"
    and "\<And>k. k < 16 \<Longrightarrow> path h k head (chain h ns k)" and "sorted (map (pr h) ns)"
  using assms by (simp_all add: sl_ok_def)

lemma chain_zero: "sl_ok h head level ns \<Longrightarrow> chain h ns 0 = ns"
  using sl_okD(6) by (fastforce simp: chain_def filter_id_conv)

lemma ht_live: "0 < ht h a \<Longrightarrow> \<exists>n. h a = Some n"
  by (auto simp: ht_def split: option.splits)

text \<open>On a sorted list a downward closed test selects a prefix.\<close>

definition down :: "(u64 \<Rightarrow> bool) \<Rightarrow> bool" where
  "down cmp \<longleftrightarrow> (\<forall>x y. x \<le> y \<longrightarrow> cmp y \<longrightarrow> cmp x)"

lemma sorted_split:
  assumes "sorted (map f xs)" and "down cmp"
  shows "xs = filter (\<lambda>x. cmp (f x)) xs @ filter (\<lambda>x. \<not> cmp (f x)) xs"
  using assms(1)
proof (induction xs)
  case (Cons x xs)
  show ?case
  proof (cases "cmp (f x)")
    case False
    then have "\<not> cmp (f y)" if "y \<in> set xs" for y
      using Cons.prems that assms(2) unfolding down_def by auto
    then have "filter (\<lambda>x. cmp (f x)) xs = []" "filter (\<lambda>x. \<not> cmp (f x)) xs = xs"
      by (simp_all add: filter_empty_conv filter_id_conv)
    with False show ?thesis by simp
  qed (use Cons in simp)
qed simp

lemma filter_chain: "filter P (chain h ns k) = chain h (filter P ns) k"
  by (simp add: chain_def conj_commute)

lemma chain_split:
  assumes "sl_ok h head level ns" and "down cmp"
  shows "chain h ns k = chain h (filter (\<lambda>x. cmp (pr h x)) ns) k @ chain h (filter (\<lambda>x. \<not> cmp (pr h x)) ns) k"
proof -
  have "ns = filter (\<lambda>x. cmp (pr h x)) ns @ filter (\<lambda>x. \<not> cmp (pr h x)) ns"
    using sl_okD(8) [OF assms(1)] assms(2) by (rule sorted_split)
  then have "chain h ns k = chain h (filter (\<lambda>x. cmp (pr h x)) ns @ filter (\<lambda>x. \<not> cmp (pr h x)) ns) k" by simp
  then show ?thesis unfolding chain_def filter_append .
qed

section \<open>Searching\<close>

lemma walk_spec:
  assumes "path h k a (xs @ ys)" and "\<And>x. x \<in> set (xs @ ys) \<Longrightarrow> x \<noteq> 0 \<and> h x \<noteq> None"
    and "\<And>x. x \<in> set xs \<Longrightarrow> cmp (pr h x)" and "\<And>x. x \<in> set ys \<Longrightarrow> \<not> cmp (pr h x)"
  shows "walk cmp h k a = Some (last (a # xs), hd (ys @ [0]))"
  using assms
proof (induction xs arbitrary: a)
  case Nil
  show ?case
  proof (cases ys)
    case Nil
    with \<open>path h k a ([] @ ys)\<close> show ?thesis by (subst walk.simps) simp
  next
    case (Cons y zs)
    with Nil.prems(2) [of y] obtain n where "h y = Some n" "y \<noteq> 0" by auto
    moreover from this Nil.prems(4) [of y] Cons have "\<not> cmp (priority n)" by (simp add: pr_def)
    ultimately show ?thesis using Nil.prems(1) Cons by (subst walk.simps) simp
  qed
next
  case (Cons x xs)
  from Cons.prems(2) [of x] obtain n where n: "h x = Some n" "x \<noteq> 0" by auto
  then have "cmp (priority n)" using Cons.prems(3) [of x] by (simp add: pr_def)
  moreover have "walk cmp h k x = Some (last (x # xs), hd (ys @ [0]))"
    by (rule Cons.IH) (use Cons.prems in auto)
  ultimately show ?case using Cons.prems(1) n by (subst walk.simps) simp
qed

text \<open>The last node of level \<open>k\<close> that passes the test, or the head.\<close>

definition pred_at :: "(u64 \<Rightarrow> bool) \<Rightarrow> 'd sl_heap \<Rightarrow> addr \<Rightarrow> addr list \<Rightarrow> nat \<Rightarrow> addr" where
  "pred_at cmp h head ns k = last (head # chain h (filter (\<lambda>x. cmp (pr h x)) ns) k)"

lemma walk_from_prefix:
  assumes ok: "sl_ok h head level ns" and "down cmp" and "k < 16"
    and a: "a \<in> set (head # chain h (filter (\<lambda>x. cmp (pr h x)) ns) k)"
  shows "walk cmp h k a =
    Some (pred_at cmp h head ns k, hd (chain h (filter (\<lambda>x. \<not> cmp (pr h x)) ns) k @ [0]))"
proof -
  let ?xs = "chain h (filter (\<lambda>x. cmp (pr h x)) ns) k" and ?ys = "chain h (filter (\<lambda>x. \<not> cmp (pr h x)) ns) k"
  have p: "path h k head (?xs @ ?ys)" using sl_okD(7) [OF ok assms(3)] chain_split [OF ok assms(2)] by simp
  have live: "x \<noteq> 0 \<and> h x \<noteq> None" if "x \<in> set (?xs @ ?ys)" for x
  proof -
    have "x \<in> set ns" using that by (auto simp: chain_def)
    then show ?thesis using sl_okD(2) [OF ok] sl_okD(6) [OF ok, of x] ht_live [of h x] by (cases "x = 0") auto
  qed
  from a show ?thesis
  proof (cases "a = head")
    case True
    show ?thesis unfolding pred_at_def True by (rule walk_spec [OF p live]) (auto simp: chain_def)
  next
    case False
    with a obtain us vs where xs: "?xs = us @ a # vs" by (auto dest: split_list)
    then have "path h k a (vs @ ?ys)" using p path_append [of h k head us a "vs @ ?ys"] by simp
    then have "walk cmp h k a = Some (last (a # vs), hd (?ys @ [0]))"
    proof (rule walk_spec)
      fix x assume "x \<in> set (vs @ ?ys)"
      then show "x \<noteq> 0 \<and> h x \<noteq> None" using xs live [of x] by auto
    next
      fix x assume "x \<in> set vs"
      then have "x \<in> set ?xs" using xs by simp
      then show "cmp (pr h x)" by (simp add: chain_def)
    qed (simp add: chain_def)
    then show ?thesis by (simp add: pred_at_def xs)
  qed
qed

lemma pred_at_lower:
  "j \<le> k \<Longrightarrow> pred_at cmp h head ns k \<in> set (head # chain h (filter (\<lambda>x. cmp (pr h x)) ns) j)"
proof -
  assume "j \<le> k"
  have "pred_at cmp h head ns k \<in> set (head # chain h (filter (\<lambda>x. cmp (pr h x)) ns) k)"
    unfolding pred_at_def by (rule last_in_set) simp
  with \<open>j \<le> k\<close> show ?thesis by (auto simp: chain_def)
qed

lemma descend_spec:
  assumes ok: "sl_ok h head level ns" and d: "down cmp" and "k < 16"
    and "a \<in> set (head # chain h (filter (\<lambda>x. cmp (pr h x)) ns) k)" and "length u = 16"
  shows "\<exists>u'. descend cmp h k a u =
      Some (pred_at cmp h head ns 0, hd (filter (\<lambda>x. \<not> cmp (pr h x)) ns @ [0]), u') \<and> length u' = 16
    \<and> (\<forall>j. u' ! j = (if j \<le> k then pred_at cmp h head ns j else u ! j))"
  using assms(3-5)
proof (induction k arbitrary: a u)
  case 0
  have "filter (\<lambda>x. \<not> cmp (pr h x)) (chain h ns 0) = filter (\<lambda>x. \<not> cmp (pr h x)) ns"
    by (simp add: chain_zero [OF ok])
  then have "chain h (filter (\<lambda>x. \<not> cmp (pr h x)) ns) 0 = filter (\<lambda>x. \<not> cmp (pr h x)) ns"
    by (simp add: filter_chain)
  with walk_from_prefix [OF ok d 0(1,2)] 0(3) show ?case by (auto simp: nth_list_update)
next
  case (Suc k)
  note w = walk_from_prefix [OF ok d Suc.prems(1,2)]
  let ?u = "u[Suc k := pred_at cmp h head ns (Suc k)]"
  have low: "pred_at cmp h head ns (Suc k) \<in> set (head # chain h (filter (\<lambda>x. cmp (pr h x)) ns) k)"
    by (rule pred_at_lower) simp
  obtain u' where "descend cmp h k (pred_at cmp h head ns (Suc k)) ?u =
      Some (pred_at cmp h head ns 0, hd (filter (\<lambda>x. \<not> cmp (pr h x)) ns @ [0]), u')" "length u' = 16"
    "\<And>j. u' ! j = (if j \<le> k then pred_at cmp h head ns j else ?u ! j)"
    using Suc.IH [OF _ low, of ?u] Suc.prems by auto
  with w Suc.prems show ?case by (auto simp: nth_list_update le_Suc_eq)
qed

lemma descend_get_eq:
  "descend cmp h k a u = Some (b, q, u') \<Longrightarrow> descend_get cmp h k a = Some q"
proof (induction k arbitrary: a u)
  case 0
  then show ?case by (cases "walk cmp h 0 a") auto
next
  case (Suc k)
  then show ?case by (cases "walk cmp h (Suc k) a") auto
qed

text \<open>The nodes of equal priority form the front of the rest; the scan finds the first match.\<close>

definition key_of :: "'d sl_heap \<Rightarrow> addr \<Rightarrow> u64 \<times> u64 \<times> u64" where
  "key_of h p = (case h p of None \<Rightarrow> (0, 0, 0) | Some n \<Rightarrow> (priority n, ack_hash_1 n, ack_hash_2 n))"

lemma scan_spec:
  assumes "path h 0 a xs" and "\<And>x. x \<in> set (a # xs) \<Longrightarrow> x \<noteq> 0 \<and> h x \<noteq> None"
    and "sorted (map (pr h) (a # xs))" and "\<And>x. x \<in> set (a # xs) \<Longrightarrow> prio \<le> pr h x"
  shows "scan h prio a1 a2 a = Some (case find (\<lambda>x. key_of h x = (prio, a1, a2)) (a # xs) of None \<Rightarrow> 0 | Some x \<Rightarrow> x)"
  using assms
proof (induction xs arbitrary: a)
  case Nil
  from Nil.prems(2) [of a] obtain n where "h a = Some n" "a \<noteq> 0" by auto
  with Nil.prems(1) show ?case
    by (subst scan.simps) (auto simp: key_of_def scan.simps [of _ _ _ _ 0])
next
  case (Cons x xs)
  from Cons.prems(2) [of a] obtain n where n: "h a = Some n" "a \<noteq> 0" by auto
  show ?case
  proof (cases "prio = priority n")
    case False
    then have "prio < pr h a" using Cons.prems(4) [of a] n by (simp add: pr_def)
    then have "prio < pr h y" if "y \<in> set (a # x # xs)" for y using Cons.prems(3) that by auto
    then have "key_of h y \<noteq> (prio, a1, a2)" if "y \<in> set (a # x # xs)" for y
      using that by (fastforce simp: key_of_def pr_def split: option.splits)
    then have "find (\<lambda>x. key_of h x = (prio, a1, a2)) (a # x # xs) = None" by (simp add: find_None_iff)
    with False n show ?thesis by (subst scan.simps) simp
  next
    case True
    have "scan h prio a1 a2 x = Some (case find (\<lambda>x. key_of h x = (prio, a1, a2)) (x # xs) of None \<Rightarrow> 0 | Some x \<Rightarrow> x)"
      by (rule Cons.IH) (use Cons.prems in auto)
    with True n Cons.prems(1) show ?thesis by (subst scan.simps) (auto simp: key_of_def)
  qed
qed

lemma down_less: "down (\<lambda>q. q < p)" and down_le: "down (\<lambda>q. q \<le> p)"
  by (auto simp: down_def)

lemma sl_live:
  assumes "sl_ok h head level ns" and "x \<in> set ns"
  shows "x \<noteq> 0" and "h x \<noteq> None" and "x \<noteq> head"
  using sl_okD(1,2) [OF assms(1)] sl_okD(6) [OF assms] ht_live [of h x] assms(2) by (cases "x = 0"; auto)+

lemma scan_rest:
  assumes ok: "sl_ok h head level ns" and ns: "ns = xs @ ys" and ge: "\<And>y. y \<in> set ys \<Longrightarrow> prio \<le> pr h y"
  shows "scan h prio a1 a2 (hd (ys @ [0])) =
    Some (case find (\<lambda>x. key_of h x = (prio, a1, a2)) ys of None \<Rightarrow> 0 | Some x \<Rightarrow> x)"
proof (cases ys)
  case Nil
  then show ?thesis by (subst scan.simps) simp
next
  case (Cons y zs)
  have "path h 0 head (xs @ y # zs)" using sl_okD(7) [OF ok, of 0] chain_zero [OF ok] ns Cons by simp
  then have "path h 0 y zs" by (rule path_append)
  moreover have "sorted (map (pr h) (y # zs))" using sl_okD(8) [OF ok] ns Cons by (simp add: sorted_append)
  moreover have "x \<noteq> 0 \<and> h x \<noteq> None" if "x \<in> set (y # zs)" for x using sl_live [OF ok, of x] that ns Cons by auto
  ultimately have "scan h prio a1 a2 y =
      Some (case find (\<lambda>x. key_of h x = (prio, a1, a2)) (y # zs) of None \<Rightarrow> 0 | Some x \<Rightarrow> x)"
    using ge Cons by (intro scan_spec) auto
  then show ?thesis using Cons by simp
qed

lemma key_prio: "h x \<noteq> None \<Longrightarrow> key_of h x = (p, a1, a2) \<Longrightarrow> pr h x = p"
  by (auto simp: key_of_def pr_def split: option.splits)

lemma find_filter:
  assumes "\<And>x. x \<in> set xs \<Longrightarrow> P x \<Longrightarrow> Q x"
  shows "find P (filter Q xs) = find P xs"
  using assms by (induction xs) auto

text \<open>Search: the first node with the key, or \<open>NULL\<close>.\<close>

lemma search_spec:
  assumes ok: "sl_ok h head level ns" and "length u = 16"
  obtains u' where "descend (\<lambda>q. q < prio) h level head u =
      Some (pred_at (\<lambda>q. q < prio) h head ns 0, hd (filter (\<lambda>x. \<not> pr h x < prio) ns @ [0]), u')"
    and "length u' = 16" and "\<And>j. j \<le> level \<Longrightarrow> u' ! j = pred_at (\<lambda>q. q < prio) h head ns j"
    and "scan h prio a1 a2 (hd (filter (\<lambda>x. \<not> pr h x < prio) ns @ [0])) =
      Some (case find (\<lambda>x. key_of h x = (prio, a1, a2)) ns of None \<Rightarrow> 0 | Some x \<Rightarrow> x)"
proof -
  have l: "level < 16" by (rule sl_okD(5) [OF ok])
  obtain u' where u': "descend (\<lambda>q. q < prio) h level head u =
      Some (pred_at (\<lambda>q. q < prio) h head ns 0, hd (filter (\<lambda>x. \<not> pr h x < prio) ns @ [0]), u')"
    "length u' = 16" "\<And>j. u' ! j = (if j \<le> level then pred_at (\<lambda>q. q < prio) h head ns j else u ! j)"
    using descend_spec [OF ok down_less l _ assms(2), of head prio] by auto
  have ns: "ns = filter (\<lambda>x. pr h x < prio) ns @ filter (\<lambda>x. \<not> pr h x < prio) ns"
    by (rule sorted_split [OF sl_okD(8) [OF ok] down_less])
  have "scan h prio a1 a2 (hd (filter (\<lambda>x. \<not> pr h x < prio) ns @ [0])) =
      Some (case find (\<lambda>x. key_of h x = (prio, a1, a2)) (filter (\<lambda>x. \<not> pr h x < prio) ns) of None \<Rightarrow> 0 | Some x \<Rightarrow> x)"
    by (rule scan_rest [OF ok ns]) auto
  moreover have "find (\<lambda>x. key_of h x = (prio, a1, a2)) (filter (\<lambda>x. \<not> pr h x < prio) ns) =
      find (\<lambda>x. key_of h x = (prio, a1, a2)) ns"
  proof (rule find_filter)
    fix x assume "x \<in> set ns" "key_of h x = (prio, a1, a2)"
    then have "pr h x = prio" using sl_live(2) [OF ok] key_prio by blast
    then show "\<not> pr h x < prio" by simp
  qed
  ultimately show thesis using that [OF u'(1,2)] u'(3) by simp
qed

section \<open>Insertion\<close>

lemma link_loop_spec:
  assumes "\<And>j. j \<le> k \<Longrightarrow> u ! j \<noteq> n \<and> j < ht h (u ! j)" and "k < ht h n" and "k < length u"
  shows "\<exists>h'. link_loop h u n k = Some h' \<and> core h' = core h
    \<and> (\<forall>j b. nxk h' j b = (if j \<le> k \<and> b = u ! j then Some n
        else if j \<le> k \<and> b = n then nxk h j (u ! j) else nxk h j b))
    \<and> (\<forall>b. b \<noteq> n \<longrightarrow> (\<forall>j \<le> k. b \<noteq> u ! j) \<longrightarrow> h' b = h b)"
  using assms
proof (induction k arbitrary: h)
  case 0
  obtain q where q: "nxk h 0 (u ! 0) = Some q" using nxk_ex 0 by blast
  obtain h1 where h1: "set_elem h n 0 q = Some h1" "core h1 = core h"
    "\<And>j b. nxk h1 j b = (if j = 0 \<and> b = n then Some q else nxk h j b)" "\<And>b. b \<noteq> n \<Longrightarrow> h1 b = h b"
    using set_elem_spec [OF 0(2), of q] by blast
  have "0 < ht h1 (u ! 0)" using 0(1) [of 0] core_eqD(1) [of h1 "u ! 0" h] h1(2) by simp
  then obtain h2 where h2: "set_elem h1 (u ! 0) 0 n = Some h2" "core h2 = core h1"
    "\<And>j b. nxk h2 j b = (if j = 0 \<and> b = u ! 0 then Some n else nxk h1 j b)" "\<And>b. b \<noteq> u ! 0 \<Longrightarrow> h2 b = h1 b"
    using set_elem_spec [of 0 h1 "u ! 0" n] by blast
  have "link_loop h u n 0 = Some h2" using q h1(1) h2(1) 0(3) by (simp add: link_at_def Let_def)
  with h1 h2 q show ?case by auto
next
  case (Suc k)
  obtain q where q: "nxk h (Suc k) (u ! Suc k) = Some q" using nxk_ex Suc.prems by blast
  obtain h1 where h1: "set_elem h n (Suc k) q = Some h1" "core h1 = core h"
    "\<And>j b. nxk h1 j b = (if j = Suc k \<and> b = n then Some q else nxk h j b)" "\<And>b. b \<noteq> n \<Longrightarrow> h1 b = h b"
    using set_elem_spec [OF Suc.prems(2), of q] by blast
  have "Suc k < ht h1 (u ! Suc k)" using Suc.prems(1) [of "Suc k"] core_eqD(1) [of h1 "u ! Suc k" h] h1(2) by simp
  then obtain h2 where h2: "set_elem h1 (u ! Suc k) (Suc k) n = Some h2" "core h2 = core h1"
    "\<And>j b. nxk h2 j b = (if j = Suc k \<and> b = u ! Suc k then Some n else nxk h1 j b)"
    "\<And>b. b \<noteq> u ! Suc k \<Longrightarrow> h2 b = h1 b"
    using set_elem_spec [of "Suc k" h1 "u ! Suc k" n] by blast
  have hts: "ht h2 b = ht h b" for b using core_eqD(1) [of h2 b h] h1(2) h2(2) by simp
  obtain h' where h': "link_loop h2 u n k = Some h'" "core h' = core h2"
    "\<And>j b. nxk h' j b = (if j \<le> k \<and> b = u ! j then Some n
        else if j \<le> k \<and> b = n then nxk h2 j (u ! j) else nxk h2 j b)"
    "\<And>b. b \<noteq> n \<Longrightarrow> (\<forall>j \<le> k. b \<noteq> u ! j) \<Longrightarrow> h' b = h2 b"
    using Suc.IH [of h2] Suc.prems hts by auto
  have "link_loop h u n (Suc k) = Some h'" using q h1(1) h2(1) h'(1) Suc.prems(3) by (simp add: link_at_def Let_def)
  moreover have "nxk h' j b = (if j \<le> Suc k \<and> b = u ! j then Some n
        else if j \<le> Suc k \<and> b = n then nxk h j (u ! j) else nxk h j b)" for j b
    using h1(3) h2(3) h'(3) q Suc.prems(1) by (cases "j = Suc k") auto
  moreover have "h' b = h b" if "b \<noteq> n" "\<forall>j \<le> Suc k. b \<noteq> u ! j" for b
    using that h1(4) [of b] h2(4) [of b] h'(4) [of b] by simp
  ultimately show ?case using h1(2) h2(2) h'(2) by auto
qed

lemma pred_at_top:
  assumes "sl_ok h head level ns" and "level < k"
  shows "pred_at cmp h head ns k = head"
proof -
  have "chain h (filter (\<lambda>x. cmp (pr h x)) ns) k = []"
    using sl_okD(6) [OF assms(1)] assms(2) by (force simp: chain_def filter_empty_conv)
  then show ?thesis by (simp add: pred_at_def)
qed

lemma pred_at_ht:
  assumes "sl_ok h head level ns" and "k < 16"
  shows "k < ht h (pred_at cmp h head ns k)" and "pred_at cmp h head ns k \<in> set (head # ns)"
proof -
  have "pred_at cmp h head ns k \<in> set (head # chain h (filter (\<lambda>x. cmp (pr h x)) ns) k)"
    by (rule pred_at_lower) simp
  then show "k < ht h (pred_at cmp h head ns k)" "pred_at cmp h head ns k \<in> set (head # ns)"
    using sl_okD(4) [OF assms(1)] assms(2) by (auto simp: chain_def)
qed

lemma choose_level_spec:
  assumes ok: "sl_ok h head level ns" and "rl \<le> 15" and "length u = 16"
    and "\<And>j. j \<le> level \<Longrightarrow> u ! j = pred_at cmp h head ns j"
  obtains k u' where "choose_level rl level head u = Some (k, max level k, u')"
    and "k < 16" and "k \<le> Suc level" and "length u' = 16" and "\<And>j. j \<le> k \<Longrightarrow> u' ! j = pred_at cmp h head ns j"
proof (cases "rl > level")
  case True
  show thesis
  proof (rule that [of "level + 1" "u[level + 1 := head]"])
    fix j assume "j \<le> level + 1"
    then show "u[level + 1 := head] ! j = pred_at cmp h head ns j"
      using assms(2-4) True pred_at_top [OF ok, of "level + 1" cmp] by (cases "j = level + 1") auto
  qed (use True assms in \<open>auto simp: choose_level_def max_def\<close>)
next
  case False
  show thesis by (rule that [of rl u]) (use False assms in \<open>auto simp: choose_level_def max_def\<close>)
qed

lemma insert_spec:
  assumes ok: "sl_ok h head level ns" and n: "h n = None" "n \<noteq> 0"
    and node: "length (elem node) = Suc k" "priority node = p" and k: "k < 16" "k \<le> Suc level"
    and u: "\<And>j. j \<le> k \<Longrightarrow> u ! j = pred_at (\<lambda>q. q \<le> p) h head ns j" "length u = 16"
  shows "\<exists>h'. link_loop (h(n \<mapsto> node)) u n k = Some h' \<and> core h' = (core h)(n := core (h(n \<mapsto> node)) n)
    \<and> sl_ok h' head (max level k) (filter (\<lambda>x. pr h x \<le> p) ns @ n # filter (\<lambda>x. \<not> pr h x \<le> p) ns)
    \<and> (\<forall>b. b \<notin> set (n # head # ns) \<longrightarrow> h' b = h b)"
proof -
  let ?h = "h(n \<mapsto> node)" and ?xs = "filter (\<lambda>x. pr h x \<le> p) ns" and ?ys = "filter (\<lambda>x. \<not> pr h x \<le> p) ns"
  have ns: "ns = ?xs @ ?ys" by (rule sorted_split [OF sl_okD(8) [OF ok] down_le])
  have "n \<notin> set ns" "n \<noteq> head"
    using n(1) sl_live(2) [OF ok, of n] sl_okD(4) [OF ok] by (auto simp: ht_def)
  then have new: "n \<notin> set (head # ns)" by simp
  have alloc: "ht ?h b = (if b = n then Suc k else ht h b)" "pr ?h b = (if b = n then p else pr h b)"
    for b using node by (simp_all add: ht_def pr_def)
  have alloc_nx: "nxk ?h j b = nxk h j b" if "b \<noteq> n" for j b using that by (simp add: nxk_def)
  have uj: "u ! j \<noteq> n \<and> j < ht ?h (u ! j)" if "j \<le> k" for j
    using pred_at_ht [OF ok, of j "\<lambda>q. q \<le> p"] that u(1) [OF that] k new by (auto simp: alloc)
  obtain h' where h': "link_loop ?h u n k = Some h'" "core h' = core ?h"
    and nx: "\<And>j b. nxk h' j b = (if j \<le> k \<and> b = u ! j then Some n
        else if j \<le> k \<and> b = n then nxk ?h j (u ! j) else nxk ?h j b)"
    and fr: "\<And>b. b \<noteq> n \<Longrightarrow> (\<forall>j \<le> k. b \<noteq> u ! j) \<Longrightarrow> h' b = ?h b"
  proof -
    have "k < ht ?h n" "k < length u" using k(1) u(2) by (simp_all add: alloc)
    then show thesis using link_loop_spec [of k u n ?h, OF uj] that by blast
  qed
  have ht': "ht h' b = (if b = n then Suc k else ht h b)" and pr': "pr h' b = (if b = n then p else pr h b)" for b
    using core_eqD(1,2) [of h' b ?h] h'(2) alloc by simp_all
  have ch: "chain h' zs j = chain h zs j" if "n \<notin> set zs" for zs j
    using that by (auto simp: chain_def ht' intro!: filter_cong)
  have nin: "n \<notin> set ?xs" "n \<notin> set ?ys" using new by auto
  have chs: "chain h ns j = chain h ?xs j @ chain h ?ys j" for j
    by (rule chain_split [OF ok down_le])
  have "path h' j head (chain h' (?xs @ n # ?ys) j)" if j: "j < 16" for j
  proof (cases "j \<le> k")
    case True
    have split: "chain h' (?xs @ n # ?ys) j = chain h ?xs j @ n # chain h ?ys j"
      using True ch [OF nin(1)] ch [OF nin(2)] by (simp add: chain_def ht')
    have ul: "u ! j = last (head # chain h ?xs j)" using u(1) [OF True] by (simp add: pred_at_def)
    have sub: "set (head # chain h ?xs j @ chain h ?ys j) \<subseteq> set (head # ns)" by (auto simp: chain_def)
    have "path h' j head (chain h ?xs j @ n # chain h ?ys j)"
    proof (rule path_insert [of h])
      show "path h j head (chain h ?xs j @ chain h ?ys j)" using sl_okD(7) [OF ok j] chs by simp
      show "distinct (head # chain h ?xs j @ chain h ?ys j)"
        using sl_okD(1) [OF ok] unfolding chs [symmetric] by (simp add: chain_def)
      fix b assume "b \<in> set (head # chain h ?xs j @ chain h ?ys j)" "b \<noteq> last (head # chain h ?xs j)"
      then have "b \<noteq> n" "b \<noteq> u ! j" using sub new ul by blast+
      then show "nxk h' j b = nxk h j b" by (simp add: nx alloc_nx)
    next
      have "u ! j \<noteq> n" using uj [OF True] by simp
      then show "nxk h' j (last (head # chain h ?xs j)) = Some n"
        "nxk h' j n = nxk h j (last (head # chain h ?xs j))" using nx True ul alloc_nx [of "u ! j" j] by simp_all
    qed
    with split show ?thesis by simp
  next
    case False
    have "chain h' (?xs @ n # ?ys) j = chain h ns j"
      using False ch [OF nin(1)] ch [OF nin(2)] chs by (simp add: chain_def ht')
    moreover have "path h' j head (chain h ns j) \<longleftrightarrow> path h j head (chain h ns j)"
    proof (rule path_cong)
      fix b assume "b \<in> set (head # chain h ns j)"
      then have "b \<noteq> n" using new by (auto simp: chain_def)
      then show "nxk h' j b = nxk h j b" using False by (simp add: nx alloc_nx)
    qed
    ultimately show ?thesis using sl_okD(7) [OF ok j] by simp
  qed
  moreover have "sorted (map (pr h') (?xs @ n # ?ys))"
  proof -
    have "map (pr h') ?xs = map (pr h) ?xs" "map (pr h') ?ys = map (pr h) ?ys" using nin by (auto simp: pr')
    then have m: "map (pr h') (?xs @ n # ?ys) = map (pr h) ?xs @ p # map (pr h) ?ys"
      by (simp only: map_append list.map pr' if_True simp_thms)
    have "sorted (map (pr h) (?xs @ ?ys))" using sl_okD(8) [OF ok] ns by simp
    then show ?thesis unfolding m by (auto simp: sorted_append)
  qed
  moreover have "distinct (head # ?xs @ n # ?ys)"
  proof -
    have "distinct (head # ?xs @ ?ys)" using sl_okD(1) [OF ok] ns by simp
    with new show ?thesis by auto
  qed
  moreover have "h' 0 = None" using core_eqD(3) [of h' 0 ?h] h'(2) n(2) sl_okD(3) [OF ok] by simp
  moreover have "0 < ht h' a \<and> ht h' a \<le> Suc (max level k)" if "a \<in> set (?xs @ n # ?ys)" for a
    using that sl_okD(6) [OF ok, of a] by (auto simp: ht')
  ultimately have "sl_ok h' head (max level k) (?xs @ n # ?ys)"
    unfolding sl_ok_def using sl_okD(2,4,5) [OF ok] k new n(2) by (auto simp: ht')
  moreover have "core ?h = (core h)(n := core ?h n)" by (auto simp: core_def)
  moreover have "h' b = h b" if "b \<notin> set (n # head # ns)" for b
  proof -
    have "b \<noteq> u ! j" if "j \<le> k" for j
      using pred_at_ht(2) [OF ok, of j "\<lambda>q. q \<le> p"] u(1) [OF that] that k(1) \<open>b \<notin> set (n # head # ns)\<close> by auto
    then show ?thesis using that fr [of b] by simp
  qed
  ultimately show ?thesis using h' by auto
qed

section \<open>Deletion\<close>

lemma path_last_next: "path h k a (xs @ ys) \<Longrightarrow> nxk h k (last (a # xs)) = Some (hd (ys @ [0]))"
  by (induction xs arbitrary: a) (auto simp: path_hd)

lemma unlink_loop_spec:
  assumes "\<And>j. s \<le> j \<Longrightarrow> j \<le> t \<Longrightarrow> j < ht h (u ! j) \<and> u ! j \<noteq> x \<and> (nxk h j (u ! j) = Some x \<longleftrightarrow> j < m)"
    and "m \<le> ht h x" and "t < length u"
  shows "\<exists>h'. unlink_loop h u x s t = Some h' \<and> core h' = core h
    \<and> (\<forall>j b. nxk h' j b = (if s \<le> j \<and> j \<le> t \<and> j < m \<and> b = u ! j then nxk h j x else nxk h j b))
    \<and> (\<forall>b. (\<forall>j \<le> t. b \<noteq> u ! j) \<longrightarrow> h' b = h b)"
  using assms
proof (induction "Suc t - s" arbitrary: s h)
  case 0
  then show ?case by (subst unlink_loop.simps) auto
next
  case (Suc d)
  then have st: "s \<le> t" by simp
  obtain q where q: "nxk h s (u ! s) = Some q" using nxk_ex Suc.prems(1) st by blast
  show ?case
  proof (cases "s < m")
    case False
    then have "q \<noteq> x" using Suc.prems(1) [of s] st q by auto
    then have "unlink_loop h u x s t = Some h" using q st Suc.prems(3) by (subst unlink_loop.simps) (simp add: Let_def)
    with False show ?thesis by auto
  next
    case True
    then have qx: "q = x" using Suc.prems(1) [of s] st q by auto
    obtain r where r: "nxk h s x = Some r" using nxk_ex True Suc.prems(2) by (metis less_le_trans)
    obtain h1 where h1: "set_elem h (u ! s) s r = Some h1" "core h1 = core h"
      "\<And>j b. nxk h1 j b = (if j = s \<and> b = u ! s then Some r else nxk h j b)" "\<And>b. b \<noteq> u ! s \<Longrightarrow> h1 b = h b"
      using set_elem_spec Suc.prems(1) [of s] st by blast
    have hts: "ht h1 b = ht h b" for b using core_eqD(1) [of h1 b h] h1(2) by simp
    have "\<exists>h'. unlink_loop h1 u x (Suc s) t = Some h' \<and> core h' = core h1
      \<and> (\<forall>j b. nxk h' j b = (if Suc s \<le> j \<and> j \<le> t \<and> j < m \<and> b = u ! j then nxk h1 j x else nxk h1 j b))
      \<and> (\<forall>b. (\<forall>j \<le> t. b \<noteq> u ! j) \<longrightarrow> h' b = h1 b)"
      by (rule Suc.hyps(1)) (use Suc.hyps(2) Suc.prems hts h1(3) in auto)
    then obtain h' where h': "unlink_loop h1 u x (Suc s) t = Some h'" "core h' = core h1"
      "\<And>j b. nxk h' j b = (if Suc s \<le> j \<and> j \<le> t \<and> j < m \<and> b = u ! j then nxk h1 j x else nxk h1 j b)"
      "\<And>b. \<forall>j \<le> t. b \<noteq> u ! j \<Longrightarrow> h' b = h1 b" by blast
    have "unlink_loop h u x s t = Some h'"
      using q qx r h1(1) h'(1) st Suc.prems(3) by (subst unlink_loop.simps) (simp add: Let_def)
    moreover have "nxk h' j b = (if s \<le> j \<and> j \<le> t \<and> j < m \<and> b = u ! j then nxk h j x else nxk h j b)" for j b
      using h'(3) h1(3) r True st Suc.prems(1) [of s] by (cases "j = s") auto
    moreover have "h' b = h b" if "\<forall>j \<le> t. b \<noteq> u ! j" for b using that h'(4) [of b] h1(4) [of b] st by simp
    ultimately show ?thesis using h'(2) h1(2) by auto
  qed
qed

lemma lower_level_spec:
  "sl_ok h head t ns \<Longrightarrow> \<exists>l. lower_level h head t = Some l \<and> l \<le> t \<and> sl_ok h head l ns"
proof (induction t)
  case 0
  have "path h 0 head (chain h ns 0)" using sl_okD(7) [OF 0] by simp
  with 0 show ?case by (auto dest: path_hd)
next
  case (Suc t)
  have p: "path h (Suc t) head (chain h ns (Suc t))" using sl_okD(5,7) [OF Suc.prems] by simp
  show ?case
  proof (cases "chain h ns (Suc t) = []")
    case True
    then have "\<forall>a \<in> set ns. 0 < ht h a \<and> ht h a \<le> Suc t"
      using sl_okD(6) [OF Suc.prems] by (auto simp: chain_def filter_empty_conv not_less)
    then have "sl_ok h head t ns" using Suc.prems by (auto simp: sl_ok_def)
    with Suc.IH p True show ?thesis by auto
  next
    case False
    then obtain a as where a: "chain h ns (Suc t) = a # as" by (cases "chain h ns (Suc t)") auto
    then have "a \<in> set ns" by (metis chain_def filter_is_subset list.set_intros(1) subsetD)
    then have "a \<noteq> 0" by (rule sl_live(1) [OF Suc.prems])
    with p a Suc.prems show ?thesis by auto
  qed
qed

lemma delete_spec:
  assumes ok: "sl_ok h head level ns" and ns: "ns = xs @ x # ys"
    and xs: "filter (\<lambda>a. pr h a < p) ns = xs"
    and u: "\<And>j. j \<le> level \<Longrightarrow> u ! j = pred_at (\<lambda>q. q < p) h head ns j" "length u = 16"
  shows "\<exists>h1 l. unlink_loop h u x 0 level = Some h1 \<and> h1 x \<noteq> None
    \<and> lower_level (h1(x := None)) head level = Some l \<and> core (h1(x := None)) = (core h)(x := None)
    \<and> sl_ok (h1(x := None)) head l (xs @ ys) \<and> (\<forall>b. b \<notin> set (head # ns) \<longrightarrow> h1 b = h b) \<and> core h1 = core h"
proof -
  have lv: "level < 16" by (rule sl_okD(5) [OF ok])
  have chs: "chain h ns j = chain h xs j @ chain h (x # ys) j" for j by (simp add: chain_def ns)
  have xin: "x \<in> set ns" using ns by simp
  note xlive = sl_live [OF ok xin] and xht = sl_okD(6) [OF ok xin]
  have dist: "distinct (head # xs @ x # ys)" using sl_okD(1) [OF ok] ns by simp
  have ul: "u ! j = last (head # chain h xs j)" if "j \<le> level" for j
    using u(1) [OF that] xs by (simp add: pred_at_def)
  have pj: "path h j head (chain h xs j @ chain h (x # ys) j)" if "j < 16" for j
    using sl_okD(7) [OF ok that] chs by simp
  have hit: "nxk h j (u ! j) = Some x \<longleftrightarrow> j < ht h x" if "j \<le> level" for j
  proof -
    have "nxk h j (u ! j) = Some (hd (chain h (x # ys) j @ [0]))"
      using path_last_next [OF pj] that lv ul by simp
    moreover have "hd (chain h ys j @ [0]) \<noteq> x"
      using dist xlive(1) by (cases "chain h ys j") (auto simp: chain_def filter_eq_Cons_iff)
    ultimately show ?thesis by (auto simp: chain_def)
  qed
  have unx: "u ! j \<noteq> x \<and> j < ht h (u ! j)" if "j \<le> level" for j
  proof
    show "j < ht h (u ! j)" using pred_at_ht(1) [OF ok] u(1) that lv by simp
    have "u ! j \<in> set (head # chain h xs j)" unfolding ul [OF that] by (rule last_in_set) simp
    then show "u ! j \<noteq> x" using dist by (auto simp: chain_def)
  qed
  obtain h1 where h1: "unlink_loop h u x 0 level = Some h1" "core h1 = core h"
    "\<And>j b. nxk h1 j b = (if j \<le> level \<and> j < ht h x \<and> b = u ! j then nxk h j x else nxk h j b)"
    "\<And>b. \<forall>j \<le> level. b \<noteq> u ! j \<Longrightarrow> h1 b = h b"
    using unlink_loop_spec [of 0 level h u x "ht h x"] hit unx u(2) lv by auto
  let ?h = "h1(x := None)"
  have c: "core ?h = (core h)(x := None)" using h1(2) by (auto simp: core_def fun_eq_iff)
  have hts: "ht ?h a = ht h a" "pr ?h a = pr h a" if "a \<noteq> x" for a
    using core_eqD(1,2) [of ?h a h] c that by simp_all
  have ch: "chain ?h zs j = chain h zs j" if "x \<notin> set zs" for zs j
    unfolding chain_def
  proof (rule filter_cong [OF refl])
    fix a assume "a \<in> set zs"
    then have "a \<noteq> x" using that by blast
    then show "j < ht ?h a \<longleftrightarrow> j < ht h a" by (simp add: hts(1))
  qed
  have nx: "nxk ?h j b = nxk h1 j b" if "b \<noteq> x" for j b using that by (simp add: nxk_def)
  have notin: "x \<notin> set (xs @ ys)" using dist by auto
  have "path ?h j head (chain ?h (xs @ ys) j)" if j: "j < 16" for j
  proof -
    have split: "chain ?h (xs @ ys) j = chain h xs j @ chain h ys j"
      unfolding ch [OF notin] by (simp add: chain_def)
    show ?thesis
    proof (cases "j < ht h x")
      case True
      then have jl: "j \<le> level" using xht by simp
      have "path h j head (chain h xs j @ x # chain h ys j)" using pj [OF j] True by (simp add: chain_def)
      then have "path ?h j head (chain h xs j @ chain h ys j)"
      proof (rule path_remove)
        show "distinct (head # chain h xs j @ x # chain h ys j)" using dist by (auto simp: chain_def)
        fix b assume "b \<in> set (head # chain h xs j @ chain h ys j)" "b \<noteq> last (head # chain h xs j)"
        moreover from this have "b \<noteq> x" using dist by (auto simp: chain_def)
        ultimately show "nxk ?h j b = nxk h j b" using ul [OF jl] by (simp add: nx h1(3))
      next
        have "u ! j \<noteq> x" using unx [OF jl] by simp
        then show "nxk ?h j (last (head # chain h xs j)) = nxk h j x"
          using ul [OF jl] True jl by (simp add: nx h1(3))
      qed
      with split show ?thesis by simp
    next
      case False
      have "path ?h j head (chain h xs j @ chain h ys j) \<longleftrightarrow> path h j head (chain h xs j @ chain h ys j)"
      proof (rule path_cong)
        fix b assume "b \<in> set (head # chain h xs j @ chain h ys j)"
        then have "b \<noteq> x" using dist by (auto simp: chain_def)
        then show "nxk ?h j b = nxk h j b" using False by (simp add: nx h1(3))
      qed
      with split pj [OF j] False show ?thesis by (simp add: chain_def)
    qed
  qed
  moreover have "sorted (map (pr ?h) (xs @ ys))"
  proof -
    have "map (pr ?h) (xs @ ys) = map (pr h) (xs @ ys)" using hts(2) notin by (intro map_cong) (metis, metis)
    moreover have "sorted (map (pr h) (xs @ ys))" using sl_okD(8) [OF ok] ns by (simp add: sorted_append)
    ultimately show ?thesis by (simp only:)
  qed
  moreover have "h1 0 = None" using core_eqD(3) [of h1 0 h] h1(2) sl_okD(3) [OF ok] by simp
  moreover have "0 < ht ?h a \<and> ht ?h a \<le> Suc level" if "a \<in> set (xs @ ys)" for a
    using that sl_okD(6) [OF ok, of a] hts(1) [of a] notin ns by (cases "a = x") auto
  ultimately have "sl_ok ?h head level (xs @ ys)"
    unfolding sl_ok_def using dist sl_okD(2,4) [OF ok] ns lv hts(1) [of head] xlive(3) by auto
  then obtain l where "lower_level ?h head level = Some l" "sl_ok ?h head l (xs @ ys)"
    using lower_level_spec by blast
  moreover have "h1 x \<noteq> None" using core_eqD(3) [of h1 x h] h1(2) xlive(2) by simp
  moreover have "h1 b = h b" if "b \<notin> set (head # ns)" for b
  proof (rule h1(4), intro allI impI)
    fix j assume "j \<le> level"
    then show "b \<noteq> u ! j" using pred_at_ht(2) [OF ok, of j "\<lambda>q. q < p"] u(1) [of j] lv that by auto
  qed
  ultimately show ?thesis using h1(1,2) c by blast
qed

text \<open>The invariant depends only on the nodes of the list.\<close>

lemma sl_ok_cong:
  assumes same: "\<And>b. b \<in> set (head # ns) \<Longrightarrow> h' b = h b" and "h' 0 = None" and ok: "sl_ok h head level ns"
  shows "sl_ok h' head level ns"
proof -
  have v: "ht h' b = ht h b" "pr h' b = pr h b" "nxk h' k b = nxk h k b" if "b \<in> set (head # ns)" for b k
    using same [OF that] by (simp_all add: ht_def pr_def nxk_def)
  have ch: "chain h' ns k = chain h ns k" for k unfolding chain_def by (rule filter_cong) (use v in auto)
  have "path h' k head (chain h' ns k)" if "k < 16" for k
    using sl_okD(7) [OF ok that] path_cong [of head "chain h ns k" h' k h] v(3) ch by (auto simp: chain_def)
  moreover have "sorted (map (pr h') ns)"
  proof -
    have "map (pr h') ns = map (pr h) ns" using v(2) by auto
    then show ?thesis using sl_okD(8) [OF ok] by (simp only:)
  qed
  ultimately show ?thesis using sl_okD(1,2,4,5,6) [OF ok] v(1) assms(2) unfolding sl_ok_def by simp
qed

lemma sl_ok_views:
  assumes "\<And>b k. nxk h' k b = nxk h k b" and "\<And>b. ht h' b = ht h b" and "\<And>b. pr h' b = pr h b" and "h' 0 = None"
    and ok: "sl_ok h head level ns"
  shows "sl_ok h' head level ns"
proof -
  have eq: "pr h' = pr h" "ht h' = ht h" "chain h' ns k = chain h ns k" for k
    using assms(2,3) by (auto simp: chain_def)
  have "path h' k a xs = path h k a xs" for k a xs by (rule path_cong) (use assms(1) in simp)
  with ok assms(4) show ?thesis by (simp add: sl_ok_def eq)
qed

section \<open>The interface: an ordered multimap that is searched from the front\<close>

locale multimap =
  fixes add :: "'s \<Rightarrow> 'k \<Rightarrow> addr \<Rightarrow> 's option" and search :: "'s \<Rightarrow> 'k \<Rightarrow> addr option"
    and fresh :: "'s \<Rightarrow> addr \<Rightarrow> bool" and view :: "'s \<Rightarrow> ('k \<times> addr) list \<Rightarrow> bool"
  assumes add_law: "view s xs \<Longrightarrow> fresh s p \<Longrightarrow>
      \<exists>s' ys zs. add s k p = Some s' \<and> xs = ys @ zs \<and> k \<notin> fst ` set zs \<and> view s' (ys @ (k, p) # zs)"
    and search_law: "view s xs \<Longrightarrow> search s k = Some (case map_of xs k of None \<Rightarrow> 0 | Some p \<Rightarrow> p)"
begin

text \<open>A new key is found, an old key keeps its old entry, other keys are not affected.\<close>

lemma search_after_add:
  assumes "view s xs" and "fresh s p"
  shows "\<exists>s'. add s k p = Some s' \<and> search s' k = Some (case map_of xs k of None \<Rightarrow> p | Some q \<Rightarrow> q)
    \<and> (\<forall>k'. k' \<noteq> k \<longrightarrow> search s' k' = search s k')"
proof -
  obtain s' ys zs where a: "add s k p = Some s'" "xs = ys @ zs" "k \<notin> fst ` set zs" and v: "view s' (ys @ (k, p) # zs)"
    using add_law [OF assms, of k] by (elim exE conjE)
  have z: "map_of zs k = None" using a(3) by (simp add: map_of_eq_None_iff)
  have "map_of (ys @ (k, p) # zs) k = Some (case map_of xs k of None \<Rightarrow> p | Some q \<Rightarrow> q)"
    by (cases "map_of ys k") (simp_all add: a(2) map_add_def z)
  moreover have "map_of (ys @ (k, p) # zs) k' = map_of xs k'" if "k' \<noteq> k" for k'
    using that by (cases "map_of ys k'") (simp_all add: a(2) map_add_def)
  ultimately have "search s' k = Some (case map_of xs k of None \<Rightarrow> p | Some q \<Rightarrow> q)"
    "\<And>k'. k' \<noteq> k \<Longrightarrow> search s' k' = search s k'"
    by (simp_all add: search_law [OF v] search_law [OF assms(1)] del: map_of_append)
  with a(1) show ?thesis by blast
qed

end

end
