(* ===== verification/SkipList.thy ===== *)
theory SkipList
  imports SkipCore
begin

text \<open>
  \<open>mycache/src/struct/skip_list.h\<close> and \<open>skip_list.c\<close>.  The head is \<open>None\<close> for a \<open>NULL\<close> argument.
  The level \<open>__get_random_level\<close> returned, the address \<open>malloc\<close> returned and the undetermined contents of
  fresh memory are arguments of \<open>skip_list_add\<close>; \<open>get_random_level\<close> itself is modelled on a stream of
  random numbers.
\<close>

section \<open>Definitions\<close>

record sl_info =
  phead :: addr
  nlevel :: u64

record skip_list_head =
  level :: nat
  head :: addr

type_synonym sl_node_heap = "sl_info sl_heap"

definition MAX_SKIP_LIST_LEVEL :: nat where
  "MAX_SKIP_LIST_LEVEL = 16"

definition skip_list_init :: "sl_node_heap \<Rightarrow> bool \<Rightarrow> addr \<Rightarrow> u64 \<Rightarrow> u64 \<Rightarrow> addr \<Rightarrow>
    (sl_node_heap \<times> skip_list_head option) option" where
  "skip_list_init h head_ok p j1 j2 j3 =
     (if \<not> head_ok then Some (h, None)
      else if p = 0 then Some (h, None)
      else do {
        h \<leftarrow> heap_alloc h p \<lparr>priority = - 1, ack_hash_1 = j1, ack_hash_2 = j2,
               elem = replicate MAX_SKIP_LIST_LEVEL 0, body = \<lparr>phead = j3, nlevel = 16\<rparr>\<rparr>;
        Some (h, Some \<lparr>level = 0, head = p\<rparr>)
      })"

text \<open>
  \<open>rnd i\<close> is the value of the \<open>i\<close>-th call of \<open>__random\<close>, \<open>left\<close> the static counter
  \<open>randomsLeft\<close>.  The result is the level, the counter and the number of random numbers used.
\<close>

partial_function (option) random_loop ::
  "(nat \<Rightarrow> u32) \<Rightarrow> nat \<Rightarrow> u32 \<Rightarrow> nat \<Rightarrow> nat \<Rightarrow> (nat \<times> nat \<times> nat) option" where
  "random_loop rnd i bits left lev = (
     let b = bits AND 3;
         lev = (if b = 0 then lev + 1 else lev);
         bits = signed_drop_bit 2 bits;
         left = left - 1;
         (i, bits, left) = (if left = 0 then (i + 1, rnd i, MAX_SKIP_LIST_LEVEL - 1) else (i, bits, left))
     in if b = 0 then random_loop rnd i bits left lev else Some (lev, left, i))"

definition get_random_level :: "(nat \<Rightarrow> u32) \<Rightarrow> nat \<Rightarrow> nat \<Rightarrow> (nat \<times> nat \<times> nat) option" where
  "get_random_level rnd i left = do {
     (lev, left, i) \<leftarrow> random_loop rnd (i + 1) (rnd i) left 0;
     Some (if lev > MAX_SKIP_LIST_LEVEL - 1 then MAX_SKIP_LIST_LEVEL - 1 else lev, left, i)
   }"

definition skip_list_add :: "sl_node_heap \<Rightarrow> skip_list_head option \<Rightarrow> nat \<Rightarrow> addr \<Rightarrow> (nat \<Rightarrow> addr) \<Rightarrow> sl_info \<Rightarrow>
    u64 \<Rightarrow> u64 \<Rightarrow> u64 \<Rightarrow> (sl_node_heap \<times> skip_list_head option \<times> addr) option" where
  "skip_list_add h sh rlevel p junk jbody prio a1 a2 = (case sh of None \<Rightarrow> Some (h, None, 0) | Some s \<Rightarrow> do {
     (ph, pnode, update) \<leftarrow> descend (\<lambda>q. q \<le> prio) h (level s) (head s) (replicate MAX_SKIP_LIST_LEVEL 0);
     m \<leftarrow> scan h prio a1 a2 pnode;
     if m \<noteq> 0 then Some (h, Some s, m) else do {
       (slevel, lv, update) \<leftarrow> choose_level rlevel (level s) (head s) update;
       h \<leftarrow> heap_alloc h p \<lparr>priority = prio, ack_hash_1 = a1, ack_hash_2 = a2,
              elem = map junk [0..<slevel + 1], body = jbody\<rparr>;
       h \<leftarrow> link_loop h update p slevel;
       Some (h, Some (s\<lparr>level := lv\<rparr>), p)
     }
   })"

partial_function (option) free_nodes :: "'d sl_heap \<Rightarrow> addr \<Rightarrow> 'd sl_heap option" where
  "free_nodes h p = do {
     q \<leftarrow> nxk h 0 p;
     h \<leftarrow> heap_free h p;
     if q \<noteq> 0 then free_nodes h q else Some h
   }"

definition skip_list_free :: "sl_node_heap \<Rightarrow> skip_list_head option \<Rightarrow> sl_node_heap option" where
  "skip_list_free h sh = (case sh of None \<Rightarrow> Some h | Some s \<Rightarrow> free_nodes h (head s))"

definition skip_list_del :: "sl_node_heap \<Rightarrow> skip_list_head option \<Rightarrow> u64 \<Rightarrow> u64 \<Rightarrow> u64 \<Rightarrow>
    (sl_node_heap \<times> skip_list_head option \<times> addr) option" where
  "skip_list_del h sh prio a1 a2 = (case sh of None \<Rightarrow> Some (h, None, 0) | Some s \<Rightarrow> do {
     (ph, pnode, update) \<leftarrow> descend (\<lambda>q. q < prio) h (level s) (head s) (replicate MAX_SKIP_LIST_LEVEL 0);
     m \<leftarrow> scan h prio a1 a2 pnode;
     if m = 0 then Some (h, Some s, 0) else do {
       h \<leftarrow> unlink_loop h update m 0 (level s);
       h \<leftarrow> heap_free h m;
       l \<leftarrow> lower_level h (head s) (level s);
       Some (h, Some (s\<lparr>level := l\<rparr>), m)
     }
   })"

definition skip_list_search :: "sl_node_heap \<Rightarrow> skip_list_head option \<Rightarrow> u64 \<Rightarrow> u64 \<Rightarrow> u64 \<Rightarrow> addr option" where
  "skip_list_search h sh prio a1 a2 = (case sh of None \<Rightarrow> Some 0 | Some s \<Rightarrow> do {
     pnode \<leftarrow> descend_get (\<lambda>q. q < prio) h (level s) (head s);
     scan h prio a1 a2 pnode
   })"

section \<open>The search of an insertion never meets an equal key\<close>

lemma add_search:
  assumes ok: "sl_ok h hd0 lv ns"
  obtains u' where "descend (\<lambda>q. q \<le> prio) h lv hd0 (replicate 16 0) =
      Some (pred_at (\<lambda>q. q \<le> prio) h hd0 ns 0, hd (filter (\<lambda>x. \<not> pr h x \<le> prio) ns @ [0]), u')"
    and "length u' = 16" and "\<And>j. j \<le> lv \<Longrightarrow> u' ! j = pred_at (\<lambda>q. q \<le> prio) h hd0 ns j"
    and "scan h prio a1 a2 (hd (filter (\<lambda>x. \<not> pr h x \<le> prio) ns @ [0])) = Some 0"
proof -
  have l: "lv < 16" by (rule sl_okD(5) [OF ok])
  obtain u' where u': "descend (\<lambda>q. q \<le> prio) h lv hd0 (replicate 16 0) =
      Some (pred_at (\<lambda>q. q \<le> prio) h hd0 ns 0, hd (filter (\<lambda>x. \<not> pr h x \<le> prio) ns @ [0]), u')"
    "length u' = 16"
    "\<And>j. u' ! j = (if j \<le> lv then pred_at (\<lambda>q. q \<le> prio) h hd0 ns j else replicate 16 0 ! j)"
    using descend_spec [OF ok down_le l, of hd0 prio "replicate 16 0"] by auto
  let ?ys = "filter (\<lambda>x. \<not> pr h x \<le> prio) ns"
  have "scan h prio a1 a2 (hd (?ys @ [0])) = Some 0"
  proof (cases ?ys)
    case Nil
    then show ?thesis by (subst scan.simps) simp
  next
    case (Cons y zs)
    then have y: "y \<in> set ns" "\<not> pr h y \<le> prio" by (auto dest!: arg_cong [of _ _ set])
    then obtain n where "h y = Some n" using sl_live(2) [OF ok] by blast
    with y(2) Cons sl_live(1) [OF ok y(1)] show ?thesis by (subst scan.simps) (auto simp: pr_def)
  qed
  then show thesis using that [OF u'(1,2)] u'(3) by simp
qed

section \<open>Operations on the list of nodes\<close>

definition sl_rel :: "'d sl_heap \<Rightarrow> skip_list_head \<Rightarrow> addr list \<Rightarrow> bool" where
  "sl_rel h s ns \<longleftrightarrow> sl_ok h (head s) (level s) ns"

lemma skip_list_search_spec:
  assumes "sl_rel h s ns"
  shows "skip_list_search h (Some s) prio a1 a2 =
    Some (case find (\<lambda>x. key_of h x = (prio, a1, a2)) ns of None \<Rightarrow> 0 | Some x \<Rightarrow> x)"
proof -
  have ok: "sl_ok h (head s) (level s) ns" using assms by (simp add: sl_rel_def)
  obtain u' where d: "descend (\<lambda>q. q < prio) h (level s) (head s) (replicate 16 0) =
      Some (pred_at (\<lambda>q. q < prio) h (head s) ns 0, hd (filter (\<lambda>x. \<not> pr h x < prio) ns @ [0]), u')"
    "scan h prio a1 a2 (hd (filter (\<lambda>x. \<not> pr h x < prio) ns @ [0])) =
      Some (case find (\<lambda>x. key_of h x = (prio, a1, a2)) ns of None \<Rightarrow> 0 | Some x \<Rightarrow> x)"
    using search_spec [OF ok, of "replicate 16 0" prio a1 a2] by auto
  then show ?thesis using descend_get_eq [OF d(1)] by (simp add: skip_list_search_def)
qed

lemma key_of_core: "core h' q = core h q \<Longrightarrow> key_of h' q = key_of h q"
  by (auto simp: core_def key_of_def split: option.splits)

lemma skip_list_add_spec:
  assumes "sl_rel h s ns" and "h p = None" and "p \<noteq> 0" and "rlevel \<le> 15"
  shows "\<exists>h' s'. skip_list_add h (Some s) rlevel p junk jbody prio a1 a2 = Some (h', Some s', p)
    \<and> sl_rel h' s' (filter (\<lambda>x. pr h x \<le> prio) ns @ p # filter (\<lambda>x. \<not> pr h x \<le> prio) ns)
    \<and> key_of h' p = (prio, a1, a2) \<and> (\<forall>q. q \<noteq> p \<longrightarrow> core h' q = core h q)"
proof -
  have ok: "sl_ok h (head s) (level s) ns" using assms(1) by (simp add: sl_rel_def)
  obtain u where u: "descend (\<lambda>q. q \<le> prio) h (level s) (head s) (replicate 16 0) =
      Some (pred_at (\<lambda>q. q \<le> prio) h (head s) ns 0, hd (filter (\<lambda>x. \<not> pr h x \<le> prio) ns @ [0]), u)"
    "length u = 16" "\<And>j. j \<le> level s \<Longrightarrow> u ! j = pred_at (\<lambda>q. q \<le> prio) h (head s) ns j"
    "scan h prio a1 a2 (hd (filter (\<lambda>x. \<not> pr h x \<le> prio) ns @ [0])) = Some 0"
    using add_search [OF ok, of prio a1 a2] by blast
  obtain k u' where k: "choose_level rlevel (level s) (head s) u = Some (k, max (level s) k, u')"
    and kk: "k < 16" "k \<le> Suc (level s)" "length u' = 16"
    and uu: "\<And>j. j \<le> k \<Longrightarrow> u' ! j = pred_at (\<lambda>q. q \<le> prio) h (head s) ns j"
    using choose_level_spec [OF ok assms(4) u(2,3)] by blast
  define node where "node = \<lparr>priority = prio, ack_hash_1 = a1, ack_hash_2 = a2, elem = map junk [0..<k + 1], body = jbody\<rparr>"
  obtain h' where h': "link_loop (h(p \<mapsto> node)) u' p k = Some h'" "core h' = (core h)(p := core (h(p \<mapsto> node)) p)"
    "sl_ok h' (head s) (max (level s) k) (filter (\<lambda>x. pr h x \<le> prio) ns @ p # filter (\<lambda>x. \<not> pr h x \<le> prio) ns)"
    using insert_spec [OF ok assms(2,3), of node k prio u'] kk uu by (auto simp: node_def)
  let ?s = "s\<lparr>level := max (level s) k\<rparr>"
  have "skip_list_add h (Some s) rlevel p junk jbody prio a1 a2 = Some (h', Some ?s, p)"
    using u(1,4) k h'(1) assms(2,3)
    by (simp add: skip_list_add_def MAX_SKIP_LIST_LEVEL_def heap_alloc_in node_def del: upt_Suc)
  moreover have "sl_rel h' ?s (filter (\<lambda>x. pr h x \<le> prio) ns @ p # filter (\<lambda>x. \<not> pr h x \<le> prio) ns)"
    using h'(3) by (simp add: sl_rel_def)
  moreover have "key_of h' p = (prio, a1, a2)"
    using key_of_core [of h' p "h(p \<mapsto> node)"] h'(2) by (simp add: key_of_def node_def)
  ultimately show ?thesis using h'(2) by auto
qed

text \<open>Deleting the first node of its priority.\<close>

lemma delete_first:
  assumes ok: "sl_ok h hd0 lv ns" and find: "find (\<lambda>x. key_of h x = (prio, a1, a2)) ns = Some x"
    and first: "\<And>y. y \<in> set ns \<Longrightarrow> pr h y = prio \<Longrightarrow> y \<noteq> x \<Longrightarrow> y \<in> set (dropWhile (\<lambda>z. z \<noteq> x) ns)"
  obtains ph q u h1 l where "descend (\<lambda>q. q < prio) h lv hd0 (replicate 16 0) = Some (ph, q, u)"
    and "scan h prio a1 a2 q = Some x" and "unlink_loop h u x 0 lv = Some h1" and "core h1 = core h"
    and "lower_level (h1(x := None)) hd0 lv = Some l" and "sl_ok (h1(x := None)) hd0 l (filter (\<lambda>y. y \<noteq> x) ns)"
    and "\<forall>b. b \<notin> set (hd0 # ns) \<longrightarrow> h1 b = h b" and "x \<noteq> 0" and "x \<in> set ns"
proof -
  have xin: "x \<in> set ns" and key: "key_of h x = (prio, a1, a2)" using find by (auto simp: find_Some_iff)
  have prx: "pr h x = prio" using key_prio [OF sl_live(2) [OF ok xin] key] .
  obtain xs ys where ns: "ns = xs @ x # ys" and xxs: "x \<notin> set xs" using split_list_first [OF xin] by blast
  have dist: "distinct ns" using sl_okD(1) [OF ok] by simp
  have "dropWhile (\<lambda>z. z \<noteq> x) ns = x # ys" using xxs ns by (simp add: dropWhile_append)
  then have strict: "pr h y < prio" if "y \<in> set xs" for y
  proof -
    have "pr h y \<le> prio" using sl_okD(8) [OF ok] that prx ns by (auto simp: sorted_append)
    moreover have "pr h y \<noteq> prio"
      using first [of y] that ns dist xxs \<open>dropWhile (\<lambda>z. z \<noteq> x) ns = x # ys\<close> by auto
    ultimately show ?thesis by simp
  qed
  have "\<not> pr h y < prio" if "y \<in> set (x # ys)" for y
    using sl_okD(8) [OF ok] that prx ns by (auto simp: sorted_append)
  then have fx: "filter (\<lambda>a. pr h a < prio) ns = xs"
    using strict ns by (auto simp: filter_id_conv filter_empty_conv)
  obtain u where u: "descend (\<lambda>q. q < prio) h lv hd0 (replicate 16 0) =
      Some (pred_at (\<lambda>q. q < prio) h hd0 ns 0, hd (filter (\<lambda>x. \<not> pr h x < prio) ns @ [0]), u)"
    "length u = 16" "\<And>j. j \<le> lv \<Longrightarrow> u ! j = pred_at (\<lambda>q. q < prio) h hd0 ns j"
    "scan h prio a1 a2 (hd (filter (\<lambda>x. \<not> pr h x < prio) ns @ [0])) = Some x"
    using search_spec [OF ok, of "replicate 16 0" prio a1 a2] find by auto
  obtain h1 l where h1: "unlink_loop h u x 0 lv = Some h1" "lower_level (h1(x := None)) hd0 lv = Some l"
    "sl_ok (h1(x := None)) hd0 l (xs @ ys)" "\<forall>b. b \<notin> set (hd0 # ns) \<longrightarrow> h1 b = h b" "core h1 = core h"
    using delete_spec [OF ok ns fx u(3,2)] by blast
  have "filter (\<lambda>y. y \<noteq> x) zs = zs" if "x \<notin> set zs" for zs using that by (induction zs) auto
  then have "filter (\<lambda>y. y \<noteq> x) ns = xs @ ys" using ns dist by simp
  with that [OF u(1,4) h1(1,5,2) _ h1(4)] h1(3) sl_live(1) [OF ok xin] xin show thesis by simp
qed

lemma skip_list_del_spec:
  assumes "sl_rel h s ns" and "find (\<lambda>x. key_of h x = (prio, a1, a2)) ns = Some x"
    and "\<And>y. y \<in> set ns \<Longrightarrow> pr h y = prio \<Longrightarrow> y \<noteq> x \<Longrightarrow> y \<in> set (dropWhile (\<lambda>z. z \<noteq> x) ns)"
  shows "\<exists>h' s'. skip_list_del h (Some s) prio a1 a2 = Some (h', Some s', x) \<and> h' x = None
    \<and> sl_rel h' s' (filter (\<lambda>y. y \<noteq> x) ns) \<and> (\<forall>q. q \<noteq> x \<longrightarrow> core h' q = core h q)"
proof -
  have ok: "sl_ok h (head s) (level s) ns" using assms(1) by (simp add: sl_rel_def)
  obtain ph q u h1 l where d: "descend (\<lambda>q. q < prio) h (level s) (head s) (replicate 16 0) = Some (ph, q, u)"
    "scan h prio a1 a2 q = Some x" "unlink_loop h u x 0 (level s) = Some h1" "core h1 = core h"
    "lower_level (h1(x := None)) (head s) (level s) = Some l"
    "sl_ok (h1(x := None)) (head s) l (filter (\<lambda>y. y \<noteq> x) ns)" "x \<noteq> 0" "x \<in> set ns"
    by (rule delete_first [OF ok assms(2,3)])
  have "h1 x \<noteq> None" using core_eqD(3) [of h1 x h] d(4) sl_live(2) [OF ok d(8)] by simp
  then have "heap_free h1 x = Some (h1(x := None))" using d(7) by (auto simp: heap_free_def)
  then have "skip_list_del h (Some s) prio a1 a2 = Some (h1(x := None), Some (s\<lparr>level := l\<rparr>), x)"
    using d(1,2,3,5,7) by (simp add: skip_list_del_def MAX_SKIP_LIST_LEVEL_def)
  moreover have "core (h1(x := None)) b = core h b" if "b \<noteq> x" for b
    using that d(4) by (simp add: core_def fun_eq_iff)
  ultimately show ?thesis using d(6) by (auto simp: sl_rel_def)
qed

lemma skip_list_del_absent:
  assumes "sl_rel h s ns" and "find (\<lambda>x. key_of h x = (prio, a1, a2)) ns = None"
  shows "skip_list_del h (Some s) prio a1 a2 = Some (h, Some s, 0)"
proof -
  have ok: "sl_ok h (head s) (level s) ns" using assms(1) by (simp add: sl_rel_def)
  obtain u where "descend (\<lambda>q. q < prio) h (level s) (head s) (replicate 16 0) =
      Some (pred_at (\<lambda>q. q < prio) h (head s) ns 0, hd (filter (\<lambda>x. \<not> pr h x < prio) ns @ [0]), u)"
    "scan h prio a1 a2 (hd (filter (\<lambda>x. \<not> pr h x < prio) ns @ [0])) = Some 0"
    using search_spec [OF ok, of "replicate 16 0" prio a1 a2] assms(2) by auto
  then show ?thesis by (simp add: skip_list_del_def MAX_SKIP_LIST_LEVEL_def)
qed

lemma lower_level_cong: "(\<And>j. j \<le> t \<Longrightarrow> nxk h' j a = nxk h j a) \<Longrightarrow> lower_level h' a t = lower_level h a t"
proof (induction t)
  case (Suc t)
  then have "lower_level h' a t = lower_level h a t" "nxk h' (Suc t) a = nxk h (Suc t) a" by simp_all
  then show ?case by (cases "nxk h (Suc t) a") simp_all
qed simp

text \<open>Deleting a node behind another of the same priority frees it without unlinking it.\<close>

lemma skip_list_del_dangling:
  assumes "sl_rel h s (xs @ y # zs @ x # ys)" and "pr h y = prio"
    and find: "find (\<lambda>a. key_of h a = (prio, a1, a2)) (xs @ y # zs @ x # ys) = Some x"
  shows "\<exists>h' s'. skip_list_del h (Some s) prio a1 a2 = Some (h', Some s', x) \<and> h' x = None
    \<and> nxk h' 0 (last (y # zs)) = Some x"
proof -
  define ns where "ns = xs @ y # zs @ x # ys"
  have ok: "sl_ok h (head s) (level s) ns" using assms(1) by (simp add: sl_rel_def ns_def)
  obtain u where u: "descend (\<lambda>q. q < prio) h (level s) (head s) (replicate 16 0) =
      Some (pred_at (\<lambda>q. q < prio) h (head s) ns 0, hd (filter (\<lambda>x. \<not> pr h x < prio) ns @ [0]), u)"
    "length u = 16" "\<And>j. j \<le> level s \<Longrightarrow> u ! j = pred_at (\<lambda>q. q < prio) h (head s) ns j"
    "scan h prio a1 a2 (hd (filter (\<lambda>x. \<not> pr h x < prio) ns @ [0])) = Some x"
    using search_spec [OF ok, of "replicate 16 0" prio a1 a2] find by (auto simp: ns_def)
  have p0: "path h 0 (head s) ns" using sl_okD(7) [OF ok, of 0] chain_zero [OF ok] by simp
  define lo hi where "lo = filter (\<lambda>a. pr h a < prio) ns" and "hi = filter (\<lambda>a. \<not> pr h a < prio) ns"
  have split: "ns = lo @ hi" unfolding lo_def hi_def by (rule sorted_split [OF sl_okD(8) [OF ok] down_less])
  have "chain h lo 0 = lo"
    using filter_chain [of "\<lambda>a. pr h a < prio" h ns 0] chain_zero [OF ok] by (simp add: lo_def)
  then have "u ! 0 = last (head s # lo)" using u(3) [of 0] by (simp add: pred_at_def flip: lo_def)
  then have next0: "nxk h 0 (u ! 0) = Some (hd (hi @ [0]))"
    using path_last_next [of h 0 "head s" lo hi] p0 split by simp
  have dist: "distinct ns" using sl_okD(1) [OF ok] by simp
  have "hd (hi @ [0]) \<noteq> x"
  proof (cases "filter (\<lambda>a. \<not> pr h a < prio) xs")
    case Nil
    then show ?thesis using assms(2) dist by (auto simp: hi_def ns_def)
  next
    case (Cons a as)
    then have "a \<in> set xs" by (auto dest!: arg_cong [of _ _ set])
    then show ?thesis using Cons dist by (auto simp: hi_def ns_def)
  qed
  then have un: "unlink_loop h u x 0 (level s) = Some h"
    using next0 u(2) by (subst unlink_loop.simps) (simp add: Let_def)
  have xin: "x \<in> set ns" by (simp add: ns_def)
  note xl = sl_live [OF ok xin]
  have fr: "heap_free h x = Some (h(x := None))" using xl(1,2) by (auto simp: heap_free_def)
  obtain l where "lower_level h (head s) (level s) = Some l" using lower_level_spec [OF ok] by blast
  then have "lower_level (h(x := None)) (head s) (level s) = Some l"
    using lower_level_cong [of "level s" "h(x := None)" "head s" h] xl(3) by (simp add: nxk_def)
  then have "skip_list_del h (Some s) prio a1 a2 = Some (h(x := None), Some (s\<lparr>level := l\<rparr>), x)"
    using u(1,4) un fr xl(1) by (simp add: skip_list_del_def MAX_SKIP_LIST_LEVEL_def)
  moreover have "nxk (h(x := None)) 0 (last (y # zs)) = Some x"
  proof -
    have "nxk h 0 (last (head s # xs @ y # zs)) = Some (hd ((x # ys) @ [0]))"
      by (rule path_last_next) (use p0 in \<open>simp add: ns_def\<close>)
    moreover have "last (y # zs) \<noteq> x" using dist last_in_set [of "y # zs"] by (auto simp: ns_def)
    ultimately show ?thesis by (simp add: nxk_def)
  qed
  ultimately show ?thesis by auto
qed

lemma free_nodes_spec:
  assumes "path h 0 a xs" and "distinct (a # xs)" and "\<And>x. x \<in> set (a # xs) \<Longrightarrow> x \<noteq> 0 \<and> h x \<noteq> None"
  shows "free_nodes h a = Some (\<lambda>q. if q \<in> set (a # xs) then None else h q)"
  using assms
proof (induction xs arbitrary: a h)
  case Nil
  then have "heap_free h a = Some (h(a := None))" using Nil(3) [of a] by (auto simp: heap_free_def)
  moreover have "h(a := None) = (\<lambda>q. if q \<in> set [a] then None else h q)" by auto
  ultimately show ?case using Nil by (subst free_nodes.simps) simp
next
  case (Cons x xs)
  have f: "heap_free h a = Some (h(a := None))" using Cons.prems(3) [of a] by (auto simp: heap_free_def)
  have "path (h(a := None)) 0 x xs \<longleftrightarrow> path h 0 x xs"
    by (rule path_cong) (use Cons.prems(2) in \<open>auto simp: nxk_def\<close>)
  then have L: "path (h(a := None)) 0 x xs" using Cons.prems(1) by simp
  have "free_nodes (h(a := None)) x = Some (\<lambda>q. if q \<in> set (x # xs) then None else (h(a := None)) q)"
  proof (rule Cons.IH [OF L])
    fix y assume "y \<in> set (x # xs)"
    then show "y \<noteq> 0 \<and> (h(a := None)) y \<noteq> None" using Cons.prems(2) Cons.prems(3) [of y] by auto
  qed (use Cons.prems(2) in simp)
  moreover have "(\<lambda>q. if q \<in> set (x # xs) then None else (h(a := None)) q) =
      (\<lambda>q. if q \<in> set (a # x # xs) then None else h q)" by auto
  moreover have "x \<noteq> 0" using Cons.prems(3) [of x] by simp
  ultimately show ?case using f Cons.prems(1) by (subst free_nodes.simps) simp
qed

section \<open>The skip list is an ordered multimap\<close>

text \<open>The map from keys to nodes, in the order of level 0.\<close>

definition entries :: "'d sl_heap \<Rightarrow> addr list \<Rightarrow> ((u64 \<times> u64 \<times> u64) \<times> addr) list" where
  "entries h ns = map (\<lambda>x. (key_of h x, x)) ns"

lemma find_entries: "map_of (entries h ns) k = find (\<lambda>x. key_of h x = k) ns"
  by (induction ns) (auto simp: entries_def)

lemma entries_cong: "(\<And>q. q \<in> set ns \<Longrightarrow> core h' q = core h q) \<Longrightarrow> entries h' ns = entries h ns"
  unfolding entries_def by (rule map_cong) (auto dest: key_of_core)

definition sl_view :: "sl_node_heap \<times> skip_list_head option \<Rightarrow> ((u64 \<times> u64 \<times> u64) \<times> addr) list \<Rightarrow> bool" where
  "sl_view hs xs \<longleftrightarrow> (\<exists>s ns. snd hs = Some s \<and> sl_rel (fst hs) s ns \<and> xs = entries (fst hs) ns)"

definition sl_fresh :: "sl_node_heap \<times> skip_list_head option \<Rightarrow> addr \<Rightarrow> bool" where
  "sl_fresh hs p \<longleftrightarrow> fst hs p = None \<and> p \<noteq> 0"

definition ins_at :: "'d sl_heap \<Rightarrow> u64 \<Rightarrow> addr \<Rightarrow> addr list \<Rightarrow> addr list" where
  "ins_at h prio p ns = filter (\<lambda>x. pr h x \<le> prio) ns @ p # filter (\<lambda>x. \<not> pr h x \<le> prio) ns"

lemma set_ins_at [simp]: "set (ins_at h prio p ns) = insert p (set ns)"
  by (auto simp: ins_at_def)

lemma entries_ins_at:
  assumes ok: "sl_ok h hd0 lv ns" and p: "h p = None" and key: "key_of h' p = (prio, a1, a2)"
    and same: "\<And>q. q \<noteq> p \<Longrightarrow> core h' q = core h q"
  shows "\<exists>ys zs. entries h ns = ys @ zs \<and> (prio, a1, a2) \<notin> fst ` set zs
    \<and> entries h' (ins_at h prio p ns) = ys @ ((prio, a1, a2), p) # zs"
proof -
  let ?lo = "filter (\<lambda>x. pr h x \<le> prio) ns" and ?hi = "filter (\<lambda>x. \<not> pr h x \<le> prio) ns"
  have live: "h q \<noteq> None" if "q \<in> set ns" for q by (rule sl_live(2) [OF ok that])
  have "core h' q = core h q" if "q \<in> set ns" for q using that live p same by metis
  then have "entries h' ?lo = entries h ?lo" "entries h' ?hi = entries h ?hi" by (auto intro!: entries_cong)
  then have "entries h' (ins_at h prio p ns) = entries h ?lo @ ((prio, a1, a2), p) # entries h ?hi"
    using key by (simp add: entries_def ins_at_def)
  moreover have "(prio, a1, a2) \<notin> fst ` set (entries h ?hi)"
  proof
    assume "(prio, a1, a2) \<in> fst ` set (entries h ?hi)"
    then obtain x where "x \<in> set ns" "\<not> pr h x \<le> prio" "key_of h x = (prio, a1, a2)" by (auto simp: entries_def)
    then show False using key_prio [of h x prio a1 a2] live [of x] by auto
  qed
  moreover have "ns = ?lo @ ?hi" by (rule sorted_split [OF sl_okD(8) [OF ok] down_le])
  then have "entries h ns = entries h ?lo @ entries h ?hi" unfolding entries_def by (metis map_append)
  ultimately show ?thesis by blast
qed

lemma sl_add_law:
  assumes "sl_view (h, sh) xs" and "sl_fresh (h, sh) p" and "rl \<le> 15"
  shows "\<exists>h' sh' ys zs. skip_list_add h sh rl p junk jb prio a1 a2 = Some (h', sh', p) \<and> xs = ys @ zs
    \<and> (prio, a1, a2) \<notin> fst ` set zs \<and> sl_view (h', sh') (ys @ ((prio, a1, a2), p) # zs)"
proof -
  obtain s ns where s: "sh = Some s" "sl_rel h s ns" "xs = entries h ns" using assms(1) by (auto simp: sl_view_def)
  have p: "h p = None" "p \<noteq> 0" using assms(2) by (auto simp: sl_fresh_def)
  obtain h' s' where h': "skip_list_add h (Some s) rl p junk jb prio a1 a2 = Some (h', Some s', p)"
    "sl_rel h' s' (ins_at h prio p ns)" "key_of h' p = (prio, a1, a2)" "\<And>q. q \<noteq> p \<Longrightarrow> core h' q = core h q"
    using skip_list_add_spec [OF s(2) p assms(3)] unfolding ins_at_def by blast
  obtain ys zs where "entries h ns = ys @ zs" "(prio, a1, a2) \<notin> fst ` set zs"
    "entries h' (ins_at h prio p ns) = ys @ ((prio, a1, a2), p) # zs"
    using entries_ins_at [of h _ _ ns p h' prio a1 a2] s(2) p h'(3,4) unfolding sl_rel_def by blast
  then show ?thesis using h'(1,2) s(1,3) by (force simp: sl_view_def)
qed

interpretation sl: multimap
  "\<lambda>hs (prio, a1, a2) p. do { (h, sh, q) \<leftarrow> skip_list_add (fst hs) (snd hs) (min rl 15) p junk jb prio a1 a2; Some (h, sh) }"
  "\<lambda>hs (prio, a1, a2). skip_list_search (fst hs) (snd hs) prio a1 a2" sl_fresh sl_view
  for rl junk jb
proof (unfold_locales, goal_cases)
  case (1 s xs p k)
  obtain h sh where hs: "s = (h, sh)" by (cases s)
  obtain prio a1 a2 where k: "k = (prio, a1, a2)" by (cases k)
  from sl_add_law [of h sh xs p "min rl 15" junk jb prio a1 a2] 1 hs k show ?case by fastforce
next
  case (2 s xs k)
  obtain prio a1 a2 where k: "k = (prio, a1, a2)" by (cases k)
  from 2 obtain sh ns where "snd s = Some sh" "sl_rel (fst s) sh ns" "xs = entries (fst s) ns" by (auto simp: sl_view_def)
  then show ?case using skip_list_search_spec [of "fst s" sh ns prio a1 a2] k by (simp add: find_entries)
qed

lemma find_skip: "find P xs = None \<Longrightarrow> find P (xs @ ys) = find P ys"
  by (induction xs) (auto split: if_splits)

section \<open>Properties\<close>


lemma sl_init_rel:
  assumes "h p = None" and "p \<noteq> 0" and "h 0 = None"
  shows "\<exists>h' s. skip_list_init h True p j1 j2 j3 = Some (h', Some s) \<and> sl_rel h' s []"
  using assms
  by (auto simp: skip_list_init_def cmem sl_rel_def sl_ok_def MAX_SKIP_LIST_LEVEL_def ht_def chain_def nxk_def)


text \<open>
  The check for an existing key in \<open>skip_list_add\<close> never succeeds: the search stops behind all nodes of
  equal priority.  Adding a key that is already present therefore creates a second node, and a search still
  returns the old one; other keys are found as before.
\<close>

theorem skip_list_add_duplicates:
  assumes "sl_rel h s ns" and "h p = None" and "p \<noteq> 0" and "rlevel \<le> 15"
    and "find (\<lambda>x. key_of h x = (prio, a1, a2)) ns = Some old"
  shows "\<exists>h' s'. skip_list_add h (Some s) rlevel p junk jbody prio a1 a2 = Some (h', Some s', p) \<and> p \<noteq> old
    \<and> skip_list_search h' (Some s') prio a1 a2 = Some old"
proof -
  have v: "sl_view (h, Some s) (entries h ns)" using assms(1) by (auto simp: sl_view_def)
  have f: "sl_fresh (h, Some s) p" using assms(2,3) by (simp add: sl_fresh_def)
  obtain h' s' where h': "skip_list_add h (Some s) rlevel p junk jbody prio a1 a2 = Some (h', Some s', p)"
    using skip_list_add_spec [OF assms(1-4)] by blast
  have "old \<in> set ns" using assms(5) by (auto simp: find_Some_iff)
  then have "p \<noteq> old" using assms(1,2) sl_live(2) [of h "head s" "level s" ns old] by (auto simp: sl_rel_def)
  with h' sl.search_after_add [OF v f, of rlevel junk jbody "(prio, a1, a2)"] assms(4,5)
  show ?thesis by (auto simp: find_entries min_def)
qed

theorem skip_list_add_duplicates_witness:
  "\<exists>h s h1 s1 h2 s2. skip_list_init Map.empty True 1 0 0 0 = Some (h, Some s)
    \<and> skip_list_add h (Some s) 0 2 (\<lambda>_. 0) \<lparr>phead = 0, nlevel = 0\<rparr> 5 6 7 = Some (h1, Some s1, 2)
    \<and> skip_list_add h1 (Some s1) 0 3 (\<lambda>_. 0) \<lparr>phead = 0, nlevel = 0\<rparr> 5 6 7 = Some (h2, Some s2, 3)
    \<and> skip_list_search h2 (Some s2) 5 6 7 = Some 2"
proof -
  obtain h s where h: "skip_list_init Map.empty True 1 0 0 0 = Some (h, Some s)" "sl_rel h s []"
    using sl_init_rel [of Map.empty 1 0 0 0] by auto
  have hn: "h 2 = None" "h 3 = None" using h(1) by (auto simp: skip_list_init_def cmem)
  obtain h1 s1 where h1: "skip_list_add h (Some s) 0 2 (\<lambda>_. 0) \<lparr>phead = 0, nlevel = 0\<rparr> 5 6 7 = Some (h1, Some s1, 2)"
    "sl_rel h1 s1 [2]" "key_of h1 2 = (5, 6, 7)" "\<And>q. q \<noteq> 2 \<Longrightarrow> core h1 q = core h q"
    using skip_list_add_spec [OF h(2) hn(1), of 0 "\<lambda>_. 0" "\<lparr>phead = 0, nlevel = 0\<rparr>" 5 6 7] by auto
  have "h1 3 = None" using core_eqD(3) [of h1 3 h] h1(4) [of 3] hn(2) by simp
  from skip_list_add_duplicates [OF h1(2) this, of 0 5 6 7 2 "\<lambda>_. 0" "\<lparr>phead = 0, nlevel = 0\<rparr>"] h h1
  show ?thesis by auto
qed

text \<open>
  Deleting a node that stands behind another node of the same priority frees it but leaves it linked:
  its predecessor in level 0 still points to the released memory.
\<close>

theorem skip_list_del_leaves_dangling:
  assumes "sl_rel h s (xs @ y # zs @ x # ys)" and "pr h y = prio"
    and "find (\<lambda>a. key_of h a = (prio, a1, a2)) (xs @ y # zs @ x # ys) = Some x"
  shows "\<exists>h' s'. skip_list_del h (Some s) prio a1 a2 = Some (h', Some s', x) \<and> h' x = None
    \<and> nxk h' 0 (last (y # zs)) = Some x"
  using assms by (rule skip_list_del_dangling)

theorem skip_list_del_leaves_dangling_witness:
  "\<exists>h s h' s'. sl_rel h s [2, 3] \<and> skip_list_del h (Some s) 5 6 8 = Some (h', Some s', 3) \<and> h' 3 = None
    \<and> nxk h' 0 2 = Some 3"
proof -
  obtain h s where h: "skip_list_init Map.empty True 1 0 0 0 = Some (h, Some s)" "sl_rel h s []"
    using sl_init_rel [of Map.empty 1 0 0 0] by auto
  have hn: "h 2 = None" "h 3 = None" using h(1) by (auto simp: skip_list_init_def cmem)
  obtain h1 s1 where h1: "sl_rel h1 s1 [2]" "key_of h1 2 = (5, 6, 7)" "\<And>q. q \<noteq> 2 \<Longrightarrow> core h1 q = core h q"
    using skip_list_add_spec [OF h(2) hn(1), of 0 "\<lambda>_. 0" "\<lparr>phead = 0, nlevel = 0\<rparr>" 5 6 7] by auto
  have h13: "h1 3 = None" using core_eqD(3) [of h1 3 h] h1(3) [of 3] hn(2) by simp
  have live: "h1 2 \<noteq> None" using h1(1) by (auto simp: sl_rel_def dest: sl_live(2))
  have pr2: "pr h1 2 = 5" using key_prio [OF live h1(2)] .
  obtain h2 s2 where h2: "sl_rel h2 s2 [2, 3]" "key_of h2 3 = (5, 6, 8)" "\<And>q. q \<noteq> 3 \<Longrightarrow> core h2 q = core h1 q"
    using skip_list_add_spec [OF h1(1) h13, of 0 "\<lambda>_. 0" "\<lparr>phead = 0, nlevel = 0\<rparr>" 5 6 8] pr2 by auto
  have c2: "core h2 2 = core h1 2" by (rule h2(3)) simp
  have "pr h2 2 = 5" "key_of h2 2 = (5, 6, 7)" using core_eqD(2) [OF c2] key_of_core [OF c2] pr2 h1(2) by simp_all
  with skip_list_del_leaves_dangling [of h2 s2 "[]" 2 "[]" 3 "[]" 5 6 8] h2 show ?thesis by auto
qed

end
