(* ===== verification/HashString.thy ===== *)
theory HashString
  imports CPrelude
begin

text \<open>
  \<open>mycache/src/struct/hash.c\<close>: the table of pseudo-random words and the hash of a string under one of
  its five parts.  \<open>ulong_t\<close> is a 64-bit word.  A \<open>char\<close> is signed, so a byte of 128 and more is a
  negative number; an index outside the table faults.  \<open>toupper\<close> is that of the C locale.
\<close>

section \<open>Definitions\<close>

definition next_seed :: "u64 \<Rightarrow> u64" where
  "next_seed seed = (seed * 125 + 3) mod 0x2AAAAB"

function crypt_inner :: "u64 list \<Rightarrow> u64 \<Rightarrow> nat \<Rightarrow> nat \<Rightarrow> (u64 list \<times> u64) option" where
  "crypt_inner table seed index2 i =
     (if i < 5 then do {
        let seed = next_seed seed;
        let temp1 = push_bit 16 (seed AND 0xFFFF);
        let seed = next_seed seed;
        let temp2 = seed AND 0xFFFF;
        table \<leftarrow> aput table (int index2) (temp1 OR temp2);
        crypt_inner table seed (index2 + 0x100) (i + 1)
      } else Some (table, seed))"
  by pat_completeness auto
termination by (relation "measure (\<lambda>(t, s, k, i). 5 - i)") auto

function crypt_outer :: "u64 list \<Rightarrow> u64 \<Rightarrow> nat \<Rightarrow> u64 list option" where
  "crypt_outer table seed index1 =
     (if index1 < 0x100 then do {
        (table, seed) \<leftarrow> crypt_inner table seed index1 0;
        crypt_outer table seed (index1 + 1)
      } else Some table)"
  by pat_completeness auto
termination by (relation "measure (\<lambda>(t, s, k). 0x100 - k)") auto

definition crypt_table_init :: "u64 list \<Rightarrow> u64 list option" where
  "crypt_table_init table = crypt_outer table 0x00100001 0"

definition toupper :: "int \<Rightarrow> int" where
  "toupper c = (if 97 \<le> c \<and> c \<le> 122 then c - 32 else c)"

function hash_loop :: "u64 list \<Rightarrow> byte list \<Rightarrow> nat \<Rightarrow> int \<Rightarrow> nat \<Rightarrow> u64 \<Rightarrow> u64 \<Rightarrow> u64 option" where
  "hash_loop table cstring stringlen hash_type i seed1 seed2 =
     (if i < stringlen then do {
        b \<leftarrow> getb cstring i;
        let ch = toupper (sint b);
        t \<leftarrow> aget table (push_bit 8 hash_type + ch);
        let seed1 = t XOR (seed1 + seed2);
        let seed2 = word_of_int ch + seed1 + seed2 + push_bit 5 seed2 + 3;
        hash_loop table cstring stringlen hash_type (i + 1) seed1 seed2
      } else Some seed1)"
  by pat_completeness auto
termination by (relation "measure (\<lambda>(t, s, n, ty, i, s1, s2). n - i)") auto

definition hash_string :: "u64 list \<Rightarrow> byte list \<Rightarrow> nat \<Rightarrow> int \<Rightarrow> u64 option" where
  "hash_string table cstring stringlen hash_type =
     hash_loop table cstring stringlen hash_type 0 0x7FED7FED 0xEEEEEEEE"

declare crypt_inner.simps [simp del] crypt_outer.simps [simp del] hash_loop.simps [simp del]

section \<open>The table\<close>

lemma crypt_inner_spec:
  assumes "i \<le> 5" and "k + 0x100 * (5 - i) \<le> length t + 0xFF" and "length t' = length t"
    and "\<And>j. j \<in> A \<Longrightarrow> t ! j = t' ! j" and "A \<subseteq> {..<length t}"
  shows "\<exists>u u' s'. crypt_inner t s k i = Some (u, s') \<and> crypt_inner t' s k i = Some (u', s')
    \<and> length u = length t \<and> length u' = length t
    \<and> (\<forall>j \<in> A \<union> {k + 0x100 * m | m. m < 5 - i}. u ! j = u' ! j)"
  using assms
proof (induction "5 - i" arbitrary: i k t t' s A)
  case 0
  then show ?case by (auto simp: crypt_inner.simps)
next
  case (Suc d)
  then have i: "i < 5" by simp
  have k: "k < length t"
  proof -
    have "1 \<le> 5 - i" using i by simp
    then have "0x100 \<le> 0x100 * (5 - i)" by linarith
    then show ?thesis using Suc.prems(2) by linarith
  qed
  define s1 where "s1 = next_seed (next_seed s)"
  define w where "w = push_bit 16 (next_seed s AND 0xFFFF) OR (s1 AND 0xFFFF)"
  have step: "crypt_inner v s k i = crypt_inner (v[k := w]) s1 (k + 0x100) (i + 1)" if "k < length v" for v
    using that i by (subst crypt_inner.simps) (simp add: Let_def aput_nat s1_def w_def)
  let ?B = "insert k A \<union> {k + 0x100 + 0x100 * m | m. m < 5 - (i + 1)}"
  have IH: "\<exists>u u' s'. crypt_inner (t[k := w]) s1 (k + 0x100) (i + 1) = Some (u, s')
      \<and> crypt_inner (t'[k := w]) s1 (k + 0x100) (i + 1) = Some (u', s')
      \<and> length u = length (t[k := w]) \<and> length u' = length (t[k := w])
      \<and> (\<forall>j \<in> insert k A \<union> {k + 0x100 + 0x100 * m | m. m < 5 - (i + 1)}. u ! j = u' ! j)"
  proof (rule Suc.hyps(1))
    show "d = 5 - (i + 1)" using Suc.hyps(2) by simp
    show "k + 0x100 + 0x100 * (5 - (i + 1)) \<le> length (t[k := w]) + 0xFF"
    proof -
      have "0x100 + 0x100 * (5 - (i + 1)) = 0x100 * (5 - i)" using i by (simp add: algebra_simps)
      then show ?thesis using Suc.prems(2) by simp
    qed
    show "(t[k := w]) ! j = (t'[k := w]) ! j" if "j \<in> insert k A" for j
      using that Suc.prems(3,4) k by (cases "j = k") auto
  qed (use Suc.prems i k in auto)
  have sub: "A \<union> {k + 0x100 * m | m. m < 5 - i} \<subseteq> ?B"
  proof
    fix j assume "j \<in> A \<union> {k + 0x100 * m | m. m < 5 - i}"
    then consider "j \<in> A" | m where "j = k + 0x100 * m" "m < 5 - i" by blast
    then show "j \<in> ?B"
    proof cases
      case 2
      then show ?thesis by (cases m) auto
    qed simp
  qed
  from IH obtain u u' s' where r: "crypt_inner (t[k := w]) s1 (k + 0x100) (i + 1) = Some (u, s')"
    "crypt_inner (t'[k := w]) s1 (k + 0x100) (i + 1) = Some (u', s')" "length u = length t" "length u' = length t"
    and agree: "\<forall>j \<in> ?B. u ! j = u' ! j" by auto
  have "\<forall>j \<in> A \<union> {k + 0x100 * m | m. m < 5 - i}. u ! j = u' ! j" using agree sub by blast
  moreover have "k < length t'" using k Suc.prems(3) by simp
  ultimately show ?case using step [OF k] step [of t'] r by (intro exI conjI) (simp_all only:)
qed

lemma crypt_outer_spec:
  assumes "k \<le> 0x100" and "length t = 0x500" and "length t' = 0x500"
    and "\<And>j. j < 0x500 \<Longrightarrow> j mod 0x100 < k \<Longrightarrow> t ! j = t' ! j"
  shows "\<exists>u. crypt_outer t s k = Some u \<and> crypt_outer t' s k = Some u \<and> length u = 0x500"
  using assms
proof (induction "0x100 - k" arbitrary: k t t' s)
  case 0
  have "j mod 0x100 < k" for j using 0 by simp
  then have "t = t'" using 0 by (intro nth_equalityI) auto
  with 0 show ?case by (subst (1 2) crypt_outer.simps) simp
next
  case (Suc d)
  then have k: "k < 0x100" by simp
  let ?A = "{j. j < 0x500 \<and> j mod 0x100 < k}"
  obtain u u' s' where in1: "crypt_inner t s k 0 = Some (u, s')" "crypt_inner t' s k 0 = Some (u', s')"
    "length u = length t" "length u' = length t"
    and agree: "\<And>j. j \<in> ?A \<union> {k + 0x100 * m | m. m < 5 - 0} \<Longrightarrow> u ! j = u' ! j"
  proof -
    have "?A \<subseteq> {..<length t}" using Suc.prems(2) by auto
    then show thesis using crypt_inner_spec [of 0 k t t' ?A s] Suc.prems k that by auto
  qed
  have same: "u ! j = u' ! j" if j: "j < 0x500" "j mod 0x100 < k + 1" for j
  proof (cases "j mod 0x100 < k")
    case False
    then have "j = k + 0x100 * (j div 0x100)" using j div_mult_mod_eq [of j "0x100"] by linarith
    moreover have "j div 0x100 < 5 - 0" using j(1) by (simp add: div_less_iff_less_mult)
    ultimately show ?thesis by (intro agree) blast
  qed (use j in \<open>auto intro: agree\<close>)
  obtain w where "crypt_outer u s' (k + 1) = Some w" "crypt_outer u' s' (k + 1) = Some w" "length w = 0x500"
  proof -
    have "d = 0x100 - (k + 1)" using Suc.hyps(2) by simp
    then show thesis using Suc.hyps(1) [of "k + 1" u u' s', OF _ _ _ _ same] Suc.prems in1 k that by auto
  qed
  with in1 k show ?case by (subst (1 2) crypt_outer.simps) simp
qed

section \<open>The hash\<close>

lemma sint_small: "b < 128 \<Longrightarrow> sint b = uint b" for b :: byte
proof -
  assume "b < 128"
  then have "uint b < 128" by (simp add: word_less_def)
  moreover have "0 \<le> uint b" by simp
  ultimately have "- 128 \<le> uint b \<and> uint b < 128" by linarith
  then show ?thesis by (simp add: sint_uint signed_take_bit_int_eq_self_iff)
qed

lemma sint_large: "128 \<le> b \<Longrightarrow> sint b < 0" for b :: byte
proof -
  assume "128 \<le> b"
  then have "128 \<le> uint b" by (simp add: word_le_def)
  moreover have "uint b < 256" using uint_lt2p [of b] by simp
  ultimately have "signed_take_bit 7 (uint b) = signed_take_bit 7 (uint b - 256)"
    using signed_take_bit_eq_iff_take_bit_eq [of 7 "uint b" "uint b - 256"]
    by (simp add: take_bit_eq_mod mod_diff_eq [symmetric])
  moreover have "signed_take_bit 7 (uint b - 256) = uint b - 256"
    using \<open>128 \<le> uint b\<close> \<open>uint b < 256\<close> by (intro signed_take_bit_int_eq_self) auto
  ultimately show ?thesis using \<open>uint b < 256\<close> by (simp add: sint_uint)
qed

lemma hash_loop_returns:
  assumes "length table = 0x500" and "0 \<le> hash_type" and "hash_type \<le> 4"
    and "stringlen \<le> length s" and "\<And>i. i < stringlen \<Longrightarrow> s ! i < 128"
  shows "\<exists>v. hash_loop table s stringlen hash_type i s1 s2 = Some v"
proof (induction "stringlen - i" arbitrary: i s1 s2)
  case 0
  then show ?case by (subst hash_loop.simps) simp
next
  case (Suc d)
  then have i: "i < stringlen" by simp
  let ?b = "s ! i"
  have b: "uint ?b < 128" using assms(5) [OF i] by (simp add: word_less_def)
  have "sint ?b = uint ?b" by (rule sint_small [OF assms(5) [OF i]])
  then have "0 \<le> toupper (sint ?b)" "toupper (sint ?b) < 128" using b by (auto simp: toupper_def)
  moreover have "push_bit 8 hash_type = 256 * hash_type" by (simp add: push_bit_eq_mult)
  ultimately have "aget table (push_bit 8 hash_type + toupper (sint ?b)) =
      Some (table ! nat (push_bit 8 hash_type + toupper (sint ?b)))"
    using assms(1-3) by (intro aget_in) auto
  then show ?case using Suc i assms(4) by (subst hash_loop.simps) (simp add: cmem Let_def)
qed

definition upcase :: "byte \<Rightarrow> byte" where
  "upcase b = (if 97 \<le> b \<and> b \<le> 122 then b - 32 else b)"

lemma toupper_upcase: "toupper (sint (upcase b)) = toupper (sint b)"
proof (cases "97 \<le> b \<and> b \<le> 122")
  case True
  then have u: "97 \<le> uint b" "uint b \<le> 122" by (simp_all add: word_le_def)
  have "uint (b - 32) = uint b - 32" using u by (simp add: uint_word_ariths)
  then have "b - 32 < 128" "b < 128" "sint (b - 32) = uint b - 32"
    using u sint_small [of "b - 32"] by (simp_all add: word_less_def)
  then show ?thesis using True u sint_small [of b] by (simp add: upcase_def toupper_def)
qed (auto simp: upcase_def)

lemma hash_loop_upcase:
  "hash_loop table (map upcase s) n ty i s1 s2 = hash_loop table s n ty i s1 s2"
proof (induction table s n ty i s1 s2 rule: hash_loop.induct)
  case (1 table s n ty i s1 s2)
  show ?case
  proof (cases "i < n \<and> i < length s")
    case True
    have g: "getb (map upcase s) i = Some (upcase (s ! i))" "getb s i = Some (s ! i)" using True by (simp_all add: cmem)
    show ?thesis
    proof (cases "aget table (push_bit 8 ty + toupper (sint (s ! i)))")
      case None
      with True g show ?thesis by (subst (1 2) hash_loop.simps) (simp add: toupper_upcase)
    next
      case (Some t)
      with True g 1 show ?thesis by (subst (1 2) hash_loop.simps) (simp add: toupper_upcase Let_def)
    qed
  next
    case False
    then show ?thesis by (subst (1 2) hash_loop.simps) (auto simp: getb_def)
  qed
qed

section \<open>Properties\<close>

text \<open>
  \<open>crypt_table_init\<close> fills the whole table without leaving it: the result does not depend on the
  previous contents.  With any table of that size, every string of 7-bit characters has a hash under
  each of the five types; and upper and lower case letters hash alike.
\<close>

theorem hash_correct:
  "(\<exists>T. length T = 0x500 \<and> (\<forall>t. length t = 0x500 \<longrightarrow> crypt_table_init t = Some T))
   \<and> (length table = 0x500 \<and> 0 \<le> hash_type \<and> hash_type \<le> 4 \<and> n \<le> length s \<and> (\<forall>i < n. s ! i < 128) \<longrightarrow>
       (\<exists>v. hash_string table s n hash_type = Some v))
   \<and> hash_string table (map upcase s) n hash_type = hash_string table s n hash_type"
proof (intro conjI impI)
  define t0 where "t0 = replicate 0x500 (0 :: u64)"
  have t0: "length t0 = 0x500" by (simp add: t0_def)
  obtain T where T: "crypt_table_init t0 = Some T" "length T = 0x500"
    using crypt_outer_spec [OF _ t0 t0, of 0] by (auto simp: crypt_table_init_def)
  have "crypt_table_init t = Some T" if "length t = 0x500" for t
    using crypt_outer_spec [OF _ that t0, of 0 "0x00100001"] T by (auto simp: crypt_table_init_def)
  with T show "\<exists>T. length T = 0x500 \<and> (\<forall>t. length t = 0x500 \<longrightarrow> crypt_table_init t = Some T)" by blast
qed (auto simp: hash_string_def hash_loop_upcase intro: hash_loop_returns)

theorem hash_correct_witness:
  "(\<exists>v. hash_string (replicate 0x500 0) [97, 98] 2 0 = Some v)
   \<and> hash_string (replicate 0x500 0) (map upcase [97, 98]) 2 0 = hash_string (replicate 0x500 0) [97, 98] 2 0"
proof -
  have "\<forall>i < 2. [97, 98 :: byte] ! i < 128" by (simp add: less_2_cases_iff)
  then show ?thesis using hash_correct [of "replicate 0x500 0" 0 2 "[97, 98]"] by simp
qed

text \<open>
  Characters are signed: a string that begins with a byte of 128 or more indexes before the start
  of the table when it is hashed with type 0, which every cache operation does.
\<close>

theorem hash_string_signed_char:
  assumes "0 < n" and "s \<noteq> []" and "128 \<le> s ! 0"
  shows "hash_string table s n 0 = None"
proof -
  let ?b = "s ! 0"
  have "toupper (sint ?b) < 0" using sint_large [OF assms(3)] by (simp add: toupper_def)
  with assms(1,2) show ?thesis
    by (simp add: hash_string_def hash_loop.simps [of _ _ _ _ 0] getb_in Let_def aget_out)
qed

theorem hash_string_signed_char_witness: "hash_string (replicate 0x500 0) [0xC3, 0xA9] 2 0 = None"
  using hash_string_signed_char [of 2 "[0xC3, 0xA9]" "replicate 0x500 0"] by simp

end
