(* ===== verification/KvCache.thy ===== *)
theory KvCache
  imports SkipList HashString
begin

text \<open>
  \<open>mycache/src/cache/kvcache.h\<close> and \<open>kvcache.c\<close>: a hash table whose areas are skip lists of nodes that
  own a copy of their key and value.  The state is the heap of nodes, the heap of byte buffers and the
  global ring of areas.  What the environment supplies is an argument: the addresses \<open>malloc\<close> returned
  (\<open>0\<close> when it failed), the undetermined contents of fresh memory, the level \<open>__get_random_level\<close> returned,
  and the time.  Nodes are identified by their hashes alone; the stored key is never compared.
\<close>

section \<open>Definitions\<close>

record kv_body =
  key :: addr
  val :: addr
  klen :: nat
  vlen :: nat
  ntype :: byte
  ttl :: int
  tms :: int

record kvcache_head =
  area_level :: nat
  area_head :: addr

record kvcache =
  nodes :: "kv_body sl_heap"
  bufs :: "byte list heap"
  ring :: "kvcache_head list"

definition MAX_AREA_SIZE :: nat where
  "MAX_AREA_SIZE = push_bit 5 1024"

definition MAX_SK_LEVEL :: nat where
  "MAX_SK_LEVEL = 16"

definition MAX_SK_LEVEL_INDEX :: nat where
  "MAX_SK_LEVEL_INDEX = MAX_SK_LEVEL - 1"

text \<open>\<open>rnd i\<close> is the \<open>i\<close>-th result of \<open>__random\<close>; the result is the level, the static counter
  \<open>randomsLeft\<close> and the number of random numbers used.\<close>

partial_function (option) kv_random_loop ::
  "(nat \<Rightarrow> u32) \<Rightarrow> nat \<Rightarrow> u32 \<Rightarrow> nat \<Rightarrow> nat \<Rightarrow> (nat \<times> nat \<times> nat) option" where
  "kv_random_loop rnd i bits left lev = (
     let b = bits AND 3;
         lev = (if b = 0 then lev + 1 else lev);
         bits = signed_drop_bit 2 bits;
         left = left - 1;
         (i, bits, left) = (if left = 0 then (i + 1, rnd i, MAX_SK_LEVEL_INDEX) else (i, bits, left))
     in if b = 0 then kv_random_loop rnd i bits left lev else Some (lev, left, i))"

definition kv_random_level :: "(nat \<Rightarrow> u32) \<Rightarrow> nat \<Rightarrow> nat \<Rightarrow> (nat \<times> nat \<times> nat) option" where
  "kv_random_level rnd i left = do {
     (lev, left, i) \<leftarrow> kv_random_loop rnd (i + 1) (rnd i) left 0;
     Some (if lev > MAX_SK_LEVEL_INDEX then MAX_SK_LEVEL_INDEX else lev, left, i)
   }"

definition kv_node_free :: "kvcache \<Rightarrow> addr \<Rightarrow> kvcache option" where
  "kv_node_free st p = do {
     n \<leftarrow> nodes st p;
     b \<leftarrow> (if key (body n) \<noteq> 0 then heap_free (bufs st) (key (body n)) else Some (bufs st));
     b \<leftarrow> (if val (body n) \<noteq> 0 then heap_free b (val (body n)) else Some b);
     h \<leftarrow> heap_free (nodes st) p;
     Some (st\<lparr>nodes := h, bufs := b\<rparr>)
   }"

partial_function (option) kv_free_loop :: "kvcache \<Rightarrow> addr \<Rightarrow> kvcache option" where
  "kv_free_loop st p = do {
     q \<leftarrow> nxk (nodes st) 0 p;
     st \<leftarrow> kv_node_free st p;
     if q \<noteq> 0 then kv_free_loop st q else Some st
   }"

definition kvcache_free_area :: "kvcache \<Rightarrow> nat option \<Rightarrow> kvcache option" where
  "kvcache_free_area st kv_head = (case kv_head of None \<Rightarrow> Some st
     | Some i \<Rightarrow> do { s \<leftarrow> aget (ring st) (int i); kv_free_loop st (area_head s) })"

definition kvcache_set_node :: "kvcache \<Rightarrow> nat option \<Rightarrow> nat \<Rightarrow> addr \<Rightarrow> (nat \<Rightarrow> addr) \<Rightarrow> kv_body \<Rightarrow>
    u64 \<Rightarrow> u64 \<Rightarrow> u64 \<Rightarrow> (kvcache \<times> addr) option" where
  "kvcache_set_node st shead rlevel p junk jbody prio a1 a2 = (case shead of None \<Rightarrow> Some (st, 0) | Some i \<Rightarrow> do {
     s \<leftarrow> aget (ring st) (int i);
     (ph, pnode, update) \<leftarrow>
       descend (\<lambda>q. q \<le> prio) (nodes st) (area_level s) (area_head s) (replicate MAX_SK_LEVEL 0);
     m \<leftarrow> scan (nodes st) prio a1 a2 pnode;
     if m \<noteq> 0 then Some (st, m) else do {
       (slevel, lv, update) \<leftarrow> choose_level rlevel (area_level s) (area_head s) update;
       h \<leftarrow> heap_alloc (nodes st) p \<lparr>priority = prio, ack_hash_1 = a1, ack_hash_2 = a2,
              elem = map junk [0..<slevel + 1], body = jbody\<lparr>key := 0, val := 0, klen := 0, vlen := 0\<rparr>\<rparr>;
       h \<leftarrow> link_loop h update p slevel;
       Some (st\<lparr>nodes := h, ring := (ring st)[i := s\<lparr>area_level := lv\<rparr>]\<rparr>, p)
     }
   })"

definition kvcache_del_node :: "kvcache \<Rightarrow> nat option \<Rightarrow> u64 \<Rightarrow> u64 \<Rightarrow> u64 \<Rightarrow> (kvcache \<times> int) option" where
  "kvcache_del_node st shead prio a1 a2 = (case shead of None \<Rightarrow> Some (st, 0) | Some i \<Rightarrow> do {
     s \<leftarrow> aget (ring st) (int i);
     (ph, pnode, update) \<leftarrow>
       descend (\<lambda>q. q < prio) (nodes st) (area_level s) (area_head s) (replicate MAX_SK_LEVEL 0);
     m \<leftarrow> scan (nodes st) prio a1 a2 pnode;
     if m = 0 then Some (st, - 1) else do {
       h \<leftarrow> unlink_loop (nodes st) update m 0 (area_level s);
       st \<leftarrow> kv_node_free (st\<lparr>nodes := h\<rparr>) m;
       l \<leftarrow> lower_level (nodes st) (area_head s) (area_level s);
       Some (st\<lparr>ring := (ring st)[i := s\<lparr>area_level := l\<rparr>]\<rparr>, 0)
     }
   })"

definition kvcache_get_node :: "kvcache \<Rightarrow> nat option \<Rightarrow> u64 \<Rightarrow> u64 \<Rightarrow> u64 \<Rightarrow> addr option" where
  "kvcache_get_node st shead prio a1 a2 = (case shead of None \<Rightarrow> Some 0 | Some i \<Rightarrow> do {
     s \<leftarrow> aget (ring st) (int i);
     pnode \<leftarrow> descend_get (\<lambda>q. q < prio) (nodes st) (area_level s) (area_head s);
     scan (nodes st) prio a1 a2 pnode
   })"

text \<open>\<open>kvcache_init\<close>: \<open>alloc i\<close> is what the \<open>i\<close>-th allocation returns, \<open>junk i\<close> what it contains besides the
  fields the loop assigns.\<close>

function kvcache_init_loop :: "kvcache \<Rightarrow> (nat \<Rightarrow> addr) \<Rightarrow> (nat \<Rightarrow> kv_body sl_node) \<Rightarrow> nat \<Rightarrow> (kvcache \<times> int) option" where
  "kvcache_init_loop st alloc junk i =
     (if i < MAX_AREA_SIZE then do {
        r \<leftarrow> aput (ring st) (int i) \<lparr>area_level = 0, area_head = alloc i\<rparr>;
        if alloc i = 0 then Some (st\<lparr>ring := r\<rparr>, - 1) else do {
          h \<leftarrow> heap_alloc (nodes st) (alloc i) ((junk i)\<lparr>elem := replicate MAX_SK_LEVEL 0, priority := - 1\<rparr>);
          kvcache_init_loop (st\<lparr>ring := r, nodes := h\<rparr>) alloc junk (i + 1)
        }
      } else Some (st, 0))"
  by pat_completeness auto
termination by (relation "measure (\<lambda>(st, al, j, i). MAX_AREA_SIZE - i)") auto

definition kvcache_init :: "kvcache \<Rightarrow> (nat \<Rightarrow> addr) \<Rightarrow> (nat \<Rightarrow> kv_body sl_node) \<Rightarrow> (kvcache \<times> int) option" where
  "kvcache_init st alloc junk = kvcache_init_loop st alloc junk 0"

function kvcache_free_from :: "kvcache \<Rightarrow> nat \<Rightarrow> kvcache option" where
  "kvcache_free_from st i =
     (if i < MAX_AREA_SIZE then do { st \<leftarrow> kvcache_free_area st (Some i); kvcache_free_from st (i + 1) }
      else Some st)"
  by pat_completeness auto
termination by (relation "measure (\<lambda>(st, i). MAX_AREA_SIZE - i)") auto

definition kvcache_free :: "kvcache \<Rightarrow> kvcache option" where
  "kvcache_free st = kvcache_free_from st 0"

declare kvcache_init_loop.simps [simp del] kvcache_free_from.simps [simp del]

text \<open>The three hashes every operation starts with: area, priority and the two verification hashes.\<close>

definition kv_hashes :: "u64 list \<Rightarrow> byte list \<Rightarrow> nat \<Rightarrow> (nat \<times> u64 \<times> u64 \<times> u64) option" where
  "kv_hashes table k n = do {
     h0 \<leftarrow> hash_string table k n 0;
     h1 \<leftarrow> hash_string table k n 1;
     h2 \<leftarrow> hash_string table k n 2;
     Some (unat (h0 mod of_nat MAX_AREA_SIZE), h0 div of_nat MAX_AREA_SIZE, h1, h2)
   }"

text \<open>\<open>P_MALLOC(n)\<close> at \<open>p\<close> followed by \<open>memcpy\<close> of \<open>n\<close> bytes into it.\<close>

definition copy_new :: "byte list heap \<Rightarrow> addr \<Rightarrow> byte list \<Rightarrow> nat \<Rightarrow> byte list heap option" where
  "copy_new b p src n = do {
     c \<leftarrow> memcpy (replicate n 0) 0 src 0 n;
     heap_alloc b p c
   }"

definition kvcache_set :: "u64 list \<Rightarrow> kvcache \<Rightarrow> nat \<Rightarrow> addr \<Rightarrow> (nat \<Rightarrow> addr) \<Rightarrow> kv_body \<Rightarrow> addr \<Rightarrow> addr \<Rightarrow> int \<Rightarrow>
    byte list \<Rightarrow> byte list \<Rightarrow> nat \<Rightarrow> nat \<Rightarrow> int \<Rightarrow> (kvcache \<times> int) option" where
  "kvcache_set table st rlevel p junk jbody kp vp now k v kl vl tt = do {
     (area, prio, a1, a2) \<leftarrow> kv_hashes table k kl;
     (st, m) \<leftarrow> kvcache_set_node st (Some area) rlevel p junk jbody prio a1 a2;
     if m = 0 then Some (st, - 1) else do {
       n \<leftarrow> nodes st m;
       if key (body n) \<noteq> 0 \<and> val (body n) \<noteq> 0 then do {
         b \<leftarrow> heap_free (bufs st) (val (body n));
         b \<leftarrow> copy_new b vp v vl;
         h \<leftarrow> heap_set (body_update (\<lambda>d. d\<lparr>val := vp, vlen := vl\<rparr>)) (nodes st) m;
         Some (st\<lparr>nodes := h, bufs := b\<rparr>, 0)
       } else do {
         b \<leftarrow> copy_new (bufs st) kp k kl;
         b \<leftarrow> copy_new b vp v vl;
         h \<leftarrow> heap_set (body_update (\<lambda>d. d\<lparr>key := kp, val := vp, klen := kl, vlen := vl, ttl := tt, tms := now\<rparr>))
                (nodes st) m;
         Some (st\<lparr>nodes := h, bufs := b\<rparr>, 0)
       }
     }
   }"

text \<open>Addition and subtraction of \<open>long\<close> fault when they overflow; \<open>int\<close> keeps the low 32 bits.\<close>

definition long_ok :: "int \<Rightarrow> int option" where
  "long_ok x = (if - (2 ^ 63) \<le> x \<and> x < 2 ^ 63 then Some x else None)"

definition to_int32 :: "int \<Rightarrow> int" where
  "to_int32 x = sint (word_of_int x :: 32 word)"

definition kvcache_get :: "u64 list \<Rightarrow> kvcache \<Rightarrow> int \<Rightarrow> byte list \<Rightarrow> nat \<Rightarrow> addr option" where
  "kvcache_get table st now k kl = do {
     (area, prio, a1, a2) \<leftarrow> kv_hashes table k kl;
     m \<leftarrow> kvcache_get_node st (Some area) prio a1 a2;
     if m = 0 then Some 0 else do {
       n \<leftarrow> nodes st m;
       e \<leftarrow> long_ok (tms (body n) + ttl (body n));
       if now > e then Some 0 else Some (val (body n))
     }
   }"

definition kvcache_del :: "u64 list \<Rightarrow> kvcache \<Rightarrow> byte list \<Rightarrow> nat \<Rightarrow> (kvcache \<times> int) option" where
  "kvcache_del table st k kl = do {
     (area, prio, a1, a2) \<leftarrow> kv_hashes table k kl;
     kvcache_del_node st (Some area) prio a1 a2
   }"

definition kvcache_ttl :: "u64 list \<Rightarrow> kvcache \<Rightarrow> int \<Rightarrow> byte list \<Rightarrow> nat \<Rightarrow> int option" where
  "kvcache_ttl table st now k kl = do {
     (area, prio, a1, a2) \<leftarrow> kv_hashes table k kl;
     m \<leftarrow> kvcache_get_node st (Some area) prio a1 a2;
     if m = 0 then Some 0 else do {
       n \<leftarrow> nodes st m;
       d \<leftarrow> long_ok (now - tms (body n));
       let t = to_int32 d;
       Some (if t > 0 then t else - 1)
     }
   }"

definition kvcache_expire :: "u64 list \<Rightarrow> kvcache \<Rightarrow> int \<Rightarrow> byte list \<Rightarrow> nat \<Rightarrow> int \<Rightarrow> (kvcache \<times> int) option" where
  "kvcache_expire table st now k kl tt = do {
     (area, prio, a1, a2) \<leftarrow> kv_hashes table k kl;
     m \<leftarrow> kvcache_get_node st (Some area) prio a1 a2;
     if m = 0 then Some (st, 0) else do {
       n \<leftarrow> nodes st m;
       e \<leftarrow> long_ok (tms (body n) + ttl (body n));
       if now > e then Some (st, - 1) else do {
         h \<leftarrow> heap_set (body_update (\<lambda>d. d\<lparr>tms := now, ttl := tt\<rparr>)) (nodes st) m;
         Some (st\<lparr>nodes := h\<rparr>, 0)
       }
     }
   }"

section \<open>The areas\<close>

definition kv_lists :: "kvcache \<Rightarrow> addr list list \<Rightarrow> bool" where
  "kv_lists st nss \<longleftrightarrow> length (ring st) = MAX_AREA_SIZE \<and> length nss = MAX_AREA_SIZE
     \<and> (\<forall>i < MAX_AREA_SIZE. sl_ok (nodes st) (area_head (ring st ! i)) (area_level (ring st ! i)) (nss ! i))
     \<and> (\<forall>i < MAX_AREA_SIZE. \<forall>j < MAX_AREA_SIZE. i \<noteq> j \<longrightarrow>
          set (area_head (ring st ! i) # nss ! i) \<inter> set (area_head (ring st ! j) # nss ! j) = {})"

lemma kv_listsD:
  assumes "kv_lists st nss" and "i < MAX_AREA_SIZE"
  shows "aget (ring st) (int i) = Some (ring st ! i)"
    and "sl_ok (nodes st) (area_head (ring st ! i)) (area_level (ring st ! i)) (nss ! i)"
    and "\<And>j. j < MAX_AREA_SIZE \<Longrightarrow> i \<noteq> j \<Longrightarrow>
      set (area_head (ring st ! i) # nss ! i) \<inter> set (area_head (ring st ! j) # nss ! j) = {}"
    and "length (ring st) = MAX_AREA_SIZE" and "length nss = MAX_AREA_SIZE"
  using assms by (simp_all add: kv_lists_def aget_nat)

lemma kv_lists_live:
  assumes "kv_lists st nss" and "i < MAX_AREA_SIZE" and "x \<in> set (nss ! i)"
  shows "nodes st x \<noteq> None" and "x \<noteq> 0"
  using sl_live [OF kv_listsD(2) [OF assms(1,2)] assms(3)] by blast+

lemma kv_lists_node:
  assumes "kv_lists st nss" and "i < MAX_AREA_SIZE" and "x \<in> set (area_head (ring st ! i) # nss ! i)"
  shows "nodes st x \<noteq> None"
  using kv_lists_live(1) [OF assms(1,2), of x] sl_okD(4) [OF kv_listsD(2) [OF assms(1,2)]] assms(3)
  by (cases "x = area_head (ring st ! i)") (auto simp: ht_def split: option.splits)

text \<open>One area changes, the nodes of the others do not.\<close>

lemma kv_lists_update:
  assumes l: "kv_lists st nss" and i: "i < MAX_AREA_SIZE"
    and ok: "sl_ok h (area_head (ring st ! i)) lv ns"
    and same: "\<And>j b. j < MAX_AREA_SIZE \<Longrightarrow> j \<noteq> i \<Longrightarrow> b \<in> set (area_head (ring st ! j) # nss ! j) \<Longrightarrow>
      h b = nodes st b \<and> b \<notin> set ns"
    and st': "nodes st' = h" "ring st' = (ring st)[i := (ring st ! i)\<lparr>area_level := lv\<rparr>]"
  shows "kv_lists st' (nss[i := ns])"
proof -
  have len: "length (ring st) = MAX_AREA_SIZE" "length nss = MAX_AREA_SIZE" using l by (simp_all add: kv_lists_def)
  have z: "h 0 = None" by (rule sl_okD(3) [OF ok])
  have hds: "area_head (ring st' ! j) = area_head (ring st ! j)" for j
    using i len by (cases "j = i") (simp_all add: st'(2))
  have "sl_ok (nodes st') (area_head (ring st' ! j)) (area_level (ring st' ! j)) (nss[i := ns] ! j)"
    if j: "j < MAX_AREA_SIZE" for j
  proof (cases "j = i")
    case True
    then show ?thesis using ok i len by (simp add: st')
  next
    case False
    have "sl_ok h (area_head (ring st ! j)) (area_level (ring st ! j)) (nss ! j)"
      by (rule sl_ok_cong [where h = "nodes st"]) (use same [OF j False] z kv_listsD(2) [OF l j] in blast)+
    then show ?thesis using False by (simp add: st')
  qed
  moreover have "set (area_head (ring st' ! a) # nss[i := ns] ! a) \<inter> set (area_head (ring st' ! b) # nss[i := ns] ! b) = {}"
    if ab: "a < MAX_AREA_SIZE" "b < MAX_AREA_SIZE" "a \<noteq> b" for a b
  proof -
    note d = kv_listsD(3) [OF l ab(1,2,3)]
    consider "a = i" | "b = i" | "a \<noteq> i" "b \<noteq> i" by blast
    then show ?thesis
    proof cases
      case 1
      then show ?thesis using d same [OF ab(2)] ab(3) i len by (auto simp: hds)
    next
      case 2
      then show ?thesis using d same [OF ab(1)] ab(3) i len by (auto simp: hds)
    qed (use d in \<open>simp add: hds\<close>)
  qed
  ultimately show ?thesis using len by (simp add: kv_lists_def st'(2))
qed

lemma get_node_spec:
  assumes "kv_lists st nss" and "i < MAX_AREA_SIZE"
  shows "kvcache_get_node st (Some i) prio a1 a2 =
    Some (case find (\<lambda>x. key_of (nodes st) x = (prio, a1, a2)) (nss ! i) of None \<Rightarrow> 0 | Some x \<Rightarrow> x)"
proof -
  note ok = kv_listsD(2) [OF assms]
  obtain u' where d: "descend (\<lambda>q. q < prio) (nodes st) (area_level (ring st ! i)) (area_head (ring st ! i)) (replicate 16 0) =
      Some (pred_at (\<lambda>q. q < prio) (nodes st) (area_head (ring st ! i)) (nss ! i) 0,
        hd (filter (\<lambda>x. \<not> pr (nodes st) x < prio) (nss ! i) @ [0]), u')"
    "scan (nodes st) prio a1 a2 (hd (filter (\<lambda>x. \<not> pr (nodes st) x < prio) (nss ! i) @ [0])) =
      Some (case find (\<lambda>x. key_of (nodes st) x = (prio, a1, a2)) (nss ! i) of None \<Rightarrow> 0 | Some x \<Rightarrow> x)"
    using search_spec [OF ok, of "replicate 16 0" prio a1 a2] by auto
  then show ?thesis
    using descend_get_eq [OF d(1)] by (simp add: kvcache_get_node_def kv_listsD(1) [OF assms])
qed

lemma set_node_spec:
  assumes l: "kv_lists st nss" and i: "i < MAX_AREA_SIZE" and p: "nodes st p = None" "p \<noteq> 0" and "rlevel \<le> 15"
  shows "\<exists>st'. kvcache_set_node st (Some i) rlevel p junk jb prio a1 a2 = Some (st', p)
    \<and> kv_lists st' (nss[i := ins_at (nodes st) prio p (nss ! i)]) \<and> bufs st' = bufs st
    \<and> (\<forall>q. q \<noteq> p \<longrightarrow> core (nodes st') q = core (nodes st) q) \<and> key_of (nodes st') p = (prio, a1, a2)
    \<and> map_option body (nodes st' p) = Some (jb\<lparr>key := 0, val := 0, klen := 0, vlen := 0\<rparr>)"
proof -
  let ?h = "nodes st" and ?s = "ring st ! i"
  note ok = kv_listsD(2) [OF l i]
  obtain u where u: "descend (\<lambda>q. q \<le> prio) ?h (area_level ?s) (area_head ?s) (replicate 16 0) =
      Some (pred_at (\<lambda>q. q \<le> prio) ?h (area_head ?s) (nss ! i) 0, hd (filter (\<lambda>x. \<not> pr ?h x \<le> prio) (nss ! i) @ [0]), u)"
    "length u = 16" "\<And>j. j \<le> area_level ?s \<Longrightarrow> u ! j = pred_at (\<lambda>q. q \<le> prio) ?h (area_head ?s) (nss ! i) j"
    "scan ?h prio a1 a2 (hd (filter (\<lambda>x. \<not> pr ?h x \<le> prio) (nss ! i) @ [0])) = Some 0"
    using add_search [OF ok, of prio a1 a2] by blast
  obtain k u' where k: "choose_level rlevel (area_level ?s) (area_head ?s) u = Some (k, max (area_level ?s) k, u')"
    and kk: "k < 16" "k \<le> Suc (area_level ?s)" "length u' = 16"
    and uu: "\<And>j. j \<le> k \<Longrightarrow> u' ! j = pred_at (\<lambda>q. q \<le> prio) ?h (area_head ?s) (nss ! i) j"
    using choose_level_spec [OF ok assms(5) u(2,3)] by blast
  define node where "node = \<lparr>priority = prio, ack_hash_1 = a1, ack_hash_2 = a2, elem = map junk [0..<k + 1],
    body = jb\<lparr>key := 0, val := 0, klen := 0, vlen := 0\<rparr>\<rparr>"
  have nn: "length (elem node) = Suc k" "priority node = prio" by (simp_all add: node_def)
  obtain h' where h': "link_loop (?h(p \<mapsto> node)) u' p k = Some h'" "core h' = (core ?h)(p := core (?h(p \<mapsto> node)) p)"
    "sl_ok h' (area_head ?s) (max (area_level ?s) k) (ins_at ?h prio p (nss ! i))"
    "\<And>b. b \<notin> set (p # area_head ?s # nss ! i) \<Longrightarrow> h' b = ?h b"
    unfolding ins_at_def using insert_spec [OF ok p nn kk(1,2) uu kk(3)] by blast
  let ?st = "st\<lparr>nodes := h', ring := (ring st)[i := ?s\<lparr>area_level := max (area_level ?s) k\<rparr>]\<rparr>"
  have "kvcache_set_node st (Some i) rlevel p junk jb prio a1 a2 = Some (?st, p)"
    using u(1,4) k h'(1) p
    by (simp add: kvcache_set_node_def kv_listsD(1) [OF l i] MAX_SK_LEVEL_def heap_alloc_in node_def del: upt_Suc)
  moreover have "kv_lists ?st (nss[i := ins_at ?h prio p (nss ! i)])"
  proof (rule kv_lists_update [OF l i h'(3)])
    fix j b assume j: "j < MAX_AREA_SIZE" "j \<noteq> i" "b \<in> set (area_head (ring st ! j) # nss ! j)"
    have "b \<notin> set (area_head ?s # nss ! i)" using kv_listsD(3) [OF l i j(1)] j(2,3) by blast
    moreover have "?h b \<noteq> None" by (rule kv_lists_node [OF l j(1,3)])
    then have "b \<noteq> p" using p by auto
    ultimately show "h' b = ?h b \<and> b \<notin> set (ins_at ?h prio p (nss ! i))" using h'(4) by auto
  qed simp_all
  moreover have "core h' p = core (?h(p \<mapsto> node)) p" using h'(2) by simp
  then have "key_of h' p = (prio, a1, a2) \<and> map_option body (h' p) = Some (body node)"
    using key_of_core [of h' p "?h(p \<mapsto> node)"] by (auto simp: core_def node_def key_of_def split: option.splits)
  ultimately show ?thesis using h'(2) by (auto simp: node_def)
qed

text \<open>One area is an ordered multimap that is searched from the front.\<close>

interpretation kva: multimap
  "\<lambda>st (prio, a1, a2) p. do { (st, q) \<leftarrow> kvcache_set_node st (Some i) (min rl 15) p junk jb prio a1 a2; Some st }"
  "\<lambda>st (prio, a1, a2). kvcache_get_node st (Some i) prio a1 a2" "\<lambda>st p. nodes st p = None \<and> p \<noteq> 0"
  "\<lambda>st xs. i < MAX_AREA_SIZE \<and> (\<exists>nss. kv_lists st nss \<and> xs = entries (nodes st) (nss ! i))"
  for i rl junk jb
proof (unfold_locales, goal_cases)
  case (1 st xs p k)
  obtain prio a1 a2 where k: "k = (prio, a1, a2)" by (cases k)
  obtain nss where l: "kv_lists st nss" "xs = entries (nodes st) (nss ! i)" and i: "i < MAX_AREA_SIZE" using 1(1) by blast
  have p: "nodes st p = None" "p \<noteq> 0" using 1(2) by auto
  have "min rl 15 \<le> 15" by simp
  then obtain st' where s: "kvcache_set_node st (Some i) (min rl 15) p junk jb prio a1 a2 = Some (st', p)"
    "kv_lists st' (nss[i := ins_at (nodes st) prio p (nss ! i)])" "key_of (nodes st') p = (prio, a1, a2)"
    "\<And>q. q \<noteq> p \<Longrightarrow> core (nodes st') q = core (nodes st) q"
    using set_node_spec [OF l(1) i p, of "min rl 15" junk jb prio a1 a2] by blast
  obtain ys zs where e: "entries (nodes st) (nss ! i) = ys @ zs" "(prio, a1, a2) \<notin> fst ` set zs"
    "entries (nodes st') (ins_at (nodes st) prio p (nss ! i)) = ys @ ((prio, a1, a2), p) # zs"
    using entries_ins_at [OF kv_listsD(2) [OF l(1) i] p(1) s(3,4)] by blast
  have "nss[i := ins_at (nodes st) prio p (nss ! i)] ! i = ins_at (nodes st) prio p (nss ! i)"
    using i kv_listsD(5) [OF l(1) i] by simp
  then have "\<exists>ns. kv_lists st' ns \<and> ys @ ((prio, a1, a2), p) # zs = entries (nodes st') (ns ! i)"
    using s(2) e(3) by metis
  moreover have "(do { (st, q) \<leftarrow> kvcache_set_node st (Some i) (min rl 15) p junk jb prio a1 a2; Some st }) = Some st'"
    using s(1) by simp
  ultimately show ?case using e(1,2) l(2) i k by (simp del: bind_eq_Some_conv) blast
next
  case (2 st xs k)
  obtain prio a1 a2 where k: "k = (prio, a1, a2)" by (cases k)
  obtain nss where l: "kv_lists st nss" "xs = entries (nodes st) (nss ! i)" and i: "i < MAX_AREA_SIZE" using 2 by blast
  then show ?case using get_node_spec [OF l(1) i, of prio a1 a2] k by (simp add: find_entries)
qed

text \<open>The lookup in an area after an insertion.\<close>

lemma find_after_set:
  assumes l: "kv_lists st nss" and i: "i < MAX_AREA_SIZE" and p: "nodes st p = None" "p \<noteq> 0" and rl: "rl \<le> 15"
    and s: "kvcache_set_node st (Some i) rl p junk jb prio a1 a2 = Some (st', q)" and l': "kv_lists st' nss'"
  shows "find (\<lambda>x. key_of (nodes st') x = k) (nss' ! i) =
    (if k = (prio, a1, a2) \<and> find (\<lambda>x. key_of (nodes st) x = k) (nss ! i) = None then Some p
     else find (\<lambda>x. key_of (nodes st) x = k) (nss ! i))"
proof -
  let ?f = "\<lambda>st nss. find (\<lambda>x. key_of (nodes st) x = k) (nss ! i)"
  obtain b0 b1 b2 where k: "k = (b0, b1, b2)" by (cases k)
  have v: "i < MAX_AREA_SIZE \<and> (\<exists>n. kv_lists st n \<and> entries (nodes st) (nss ! i) = entries (nodes st) (n ! i))"
    using l i by blast
  have pp: "nodes st p = None \<and> p \<noteq> 0" using p by simp
  have "(do { (st, q) \<leftarrow> kvcache_set_node st (Some i) (min rl 15) p junk jb prio a1 a2; Some st }) = Some st'"
    using s rl by simp
  with kva.search_after_add [OF v pp, of rl junk jb "(prio, a1, a2)"]
  have A: "kvcache_get_node st' (Some i) prio a1 a2 =
      Some (case find (\<lambda>x. key_of (nodes st) x = (prio, a1, a2)) (nss ! i) of None \<Rightarrow> p | Some x \<Rightarrow> x)"
    and B: "\<forall>k'. k' \<noteq> (prio, a1, a2) \<longrightarrow> (case k' of (prio, a1, a2) \<Rightarrow> kvcache_get_node st' (Some i) prio a1 a2) =
      (case k' of (prio, a1, a2) \<Rightarrow> kvcache_get_node st (Some i) prio a1 a2)"
    by (simp_all add: find_entries)
  have nz: "x \<noteq> 0" if "find (\<lambda>x. key_of (nodes t) x = k) (n ! i) = Some x" "kv_lists t n" for t n x
    using that kv_lists_live(2) [OF that(2) i, of x] by (auto simp: find_Some_iff)
  have "kvcache_get_node st' (Some i) b0 b1 b2 = Some (case ?f st' nss' of None \<Rightarrow> 0 | Some x \<Rightarrow> x)"
    "kvcache_get_node st (Some i) b0 b1 b2 = Some (case ?f st nss of None \<Rightarrow> 0 | Some x \<Rightarrow> x)"
    using get_node_spec [OF l' i] get_node_spec [OF l i] k by simp_all
  with A B k nz [of st' nss'] nz [of st nss] l l' p show ?thesis
    by (cases "k = (prio, a1, a2)"; cases "?f st' nss'"; cases "?f st nss") auto
qed

lemma del_node_spec:
  assumes l: "kv_lists st nss" and i: "i < MAX_AREA_SIZE"
    and find: "find (\<lambda>x. key_of (nodes st) x = (prio, a1, a2)) (nss ! i) = Some x"
    and first: "\<And>y. y \<in> set (nss ! i) \<Longrightarrow> pr (nodes st) y = prio \<Longrightarrow> y \<noteq> x \<Longrightarrow>
      y \<in> set (dropWhile (\<lambda>z. z \<noteq> x) (nss ! i))"
    and n: "nodes st x = Some n" "key (body n) \<noteq> 0" "val (body n) \<noteq> 0" "key (body n) \<noteq> val (body n)"
      "bufs st (key (body n)) \<noteq> None" "bufs st (val (body n)) \<noteq> None"
  shows "\<exists>st'. kvcache_del_node st (Some i) prio a1 a2 = Some (st', 0)
    \<and> kv_lists st' (nss[i := filter (\<lambda>y. y \<noteq> x) (nss ! i)])
    \<and> bufs st' = (bufs st)(key (body n) := None, val (body n) := None)
    \<and> nodes st' x = None \<and> (\<forall>q. q \<noteq> x \<longrightarrow> core (nodes st') q = core (nodes st) q)"
proof -
  let ?s = "ring st ! i"
  note ok = kv_listsD(2) [OF l i]
  obtain ph q u h1 lv where d: "descend (\<lambda>q. q < prio) (nodes st) (area_level ?s) (area_head ?s) (replicate 16 0) = Some (ph, q, u)"
    "scan (nodes st) prio a1 a2 q = Some x" "unlink_loop (nodes st) u x 0 (area_level ?s) = Some h1" "core h1 = core (nodes st)"
    "lower_level (h1(x := None)) (area_head ?s) (area_level ?s) = Some lv"
    "sl_ok (h1(x := None)) (area_head ?s) lv (filter (\<lambda>y. y \<noteq> x) (nss ! i))"
    "\<forall>b. b \<notin> set (area_head ?s # nss ! i) \<longrightarrow> h1 b = nodes st b" "x \<noteq> 0" "x \<in> set (nss ! i)"
    by (rule delete_first [OF ok find first])
  have "core h1 x = core (nodes st) x" using d(4) by simp
  then obtain m where m: "h1 x = Some m" "body m = body n" using n(1) by (auto simp: core_def)
  let ?b = "(bufs st)(key (body n) := None, val (body n) := None)"
  have "heap_free (bufs st) (key (body n)) = Some ((bufs st)(key (body n) := None))"
    "heap_free ((bufs st)(key (body n) := None)) (val (body n)) = Some ?b"
    using n by (auto simp: heap_free_def)
  moreover have "heap_free h1 x = Some (h1(x := None))" using m d(8) by (simp add: heap_free_def)
  ultimately have f: "kv_node_free (st\<lparr>nodes := h1\<rparr>) x = Some (st\<lparr>nodes := h1(x := None), bufs := ?b\<rparr>)"
    using m n(2,3) by (simp add: kv_node_free_def)
  let ?st = "st\<lparr>nodes := h1(x := None), bufs := ?b, ring := (ring st)[i := ?s\<lparr>area_level := lv\<rparr>]\<rparr>"
  have "kvcache_del_node st (Some i) prio a1 a2 = Some (?st, 0)"
    using d(1,2,3,5,8) f by (simp add: kvcache_del_node_def kv_listsD(1) [OF l i] MAX_SK_LEVEL_def)
  moreover have "kv_lists ?st (nss[i := filter (\<lambda>y. y \<noteq> x) (nss ! i)])"
  proof (rule kv_lists_update [OF l i d(6)])
    fix j b assume j: "j < MAX_AREA_SIZE" "j \<noteq> i" "b \<in> set (area_head (ring st ! j) # nss ! j)"
    have "b \<notin> set (area_head ?s # nss ! i)" using kv_listsD(3) [OF l i j(1)] j(2,3) by blast
    then show "(h1(x := None)) b = nodes st b \<and> b \<notin> set (filter (\<lambda>y. y \<noteq> x) (nss ! i))" using d(7,9) by auto
  qed simp_all
  moreover have "core (h1(x := None)) b = core (nodes st) b" if "b \<noteq> x" for b
    using that d(4) by (simp add: core_def fun_eq_iff)
  ultimately show ?thesis by auto
qed

section \<open>The cache as a map\<close>

definition bd :: "'d sl_heap \<Rightarrow> addr \<Rightarrow> 'd" where
  "bd h a = body (the (h a))"

lemma bd_core: "core h' a = core h a \<Longrightarrow> h a \<noteq> None \<Longrightarrow> bd h' a = bd h a"
  by (auto simp: core_def bd_def)

text \<open>Every node owns two live buffers, its key and its value, and shares them with no other node.\<close>

definition kv_owned :: "kv_body sl_heap \<Rightarrow> byte list heap \<Rightarrow> addr set \<Rightarrow> bool" where
  "kv_owned h b L \<longleftrightarrow> b 0 = None
     \<and> (\<forall>a \<in> L. b (key (bd h a)) \<noteq> None \<and> b (val (bd h a)) \<noteq> None \<and> key (bd h a) \<noteq> val (bd h a))
     \<and> (\<forall>a \<in> L. \<forall>c \<in> L. a \<noteq> c \<longrightarrow> {key (bd h a), val (bd h a)} \<inter> {key (bd h c), val (bd h c)} = {})"

definition kv_live :: "addr list list \<Rightarrow> addr set" where
  "kv_live nss = (\<Union>ns \<in> set nss. set ns)"

definition kv_inv :: "kvcache \<Rightarrow> addr list list \<Rightarrow> bool" where
  "kv_inv st nss \<longleftrightarrow> kv_lists st nss \<and> kv_owned (nodes st) (bufs st) (kv_live nss)"

text \<open>The contents: value, time to live and time stamp by area, priority and verification hashes.\<close>

type_synonym kv_key = "nat \<times> u64 \<times> u64 \<times> u64"

definition kv_find :: "kvcache \<Rightarrow> addr list list \<Rightarrow> kv_key \<Rightarrow> addr option" where
  "kv_find st nss K = (if fst K < MAX_AREA_SIZE
     then find (\<lambda>x. key_of (nodes st) x = snd K) (nss ! fst K) else None)"

definition kv_abs :: "kvcache \<Rightarrow> addr list list \<Rightarrow> kv_key \<Rightarrow> (byte list \<times> int \<times> int) option" where
  "kv_abs st nss K = map_option (\<lambda>a. (the (bufs st (val (bd (nodes st) a))), ttl (bd (nodes st) a), tms (bd (nodes st) a)))
     (kv_find st nss K)"

lemma kv_invD:
  assumes "kv_inv st nss"
  shows "kv_lists st nss" and "kv_owned (nodes st) (bufs st) (kv_live nss)"
  using assms by (simp_all add: kv_inv_def)

lemma kv_live_nth: "i < length nss \<Longrightarrow> x \<in> set (nss ! i) \<Longrightarrow> x \<in> kv_live nss"
  by (auto simp: kv_live_def)

lemma kv_live_in: "x \<in> kv_live nss \<Longrightarrow> \<exists>i < length nss. x \<in> set (nss ! i)"
  by (force simp: kv_live_def in_set_conv_nth)

lemma kv_live_node: "kv_lists st nss \<Longrightarrow> x \<in> kv_live nss \<Longrightarrow> nodes st x \<noteq> None \<and> x \<noteq> 0"
  using kv_live_in [of x nss] kv_lists_live [of st nss _ x] by (auto simp: kv_lists_def)

lemma kv_find_in:
  assumes "kv_find st nss K = Some a" and "kv_lists st nss"
  shows "fst K < MAX_AREA_SIZE" and "a \<in> set (nss ! fst K)" and "a \<in> kv_live nss"
    and "key_of (nodes st) a = snd K" and "nodes st a \<noteq> None" and "a \<noteq> 0"
proof -
  show A: "fst K < MAX_AREA_SIZE" "a \<in> set (nss ! fst K)" "key_of (nodes st) a = snd K"
    using assms(1) by (auto simp: kv_find_def find_Some_iff split: if_splits)
  then show "a \<in> kv_live nss" using assms(2) by (intro kv_live_nth [of "fst K"]) (simp_all add: kv_lists_def)
  then show "nodes st a \<noteq> None" "a \<noteq> 0" using kv_live_node [OF assms(2)] by blast+
qed

lemma kv_ownedD:
  assumes "kv_owned h b L" and "a \<in> L"
  shows "b (key (bd h a)) \<noteq> None" and "b (val (bd h a)) \<noteq> None" and "key (bd h a) \<noteq> val (bd h a)"
    and "key (bd h a) \<noteq> 0" and "val (bd h a) \<noteq> 0" and "b 0 = None"
    and "\<And>c. c \<in> L \<Longrightarrow> a \<noteq> c \<Longrightarrow> {key (bd h a), val (bd h a)} \<inter> {key (bd h c), val (bd h c)} = {}"
proof -
  have *: "b 0 = None" "b (key (bd h a)) \<noteq> None \<and> b (val (bd h a)) \<noteq> None \<and> key (bd h a) \<noteq> val (bd h a)"
    "\<And>c. c \<in> L \<Longrightarrow> a \<noteq> c \<Longrightarrow> {key (bd h a), val (bd h a)} \<inter> {key (bd h c), val (bd h c)} = {}"
    using assms unfolding kv_owned_def by blast+
  then show "b (key (bd h a)) \<noteq> None" "b (val (bd h a)) \<noteq> None" "key (bd h a) \<noteq> val (bd h a)" "b 0 = None" by simp_all
  then show "key (bd h a) \<noteq> 0" "val (bd h a) \<noteq> 0" by metis+
  show "\<And>c. c \<in> L \<Longrightarrow> a \<noteq> c \<Longrightarrow> {key (bd h a), val (bd h a)} \<inter> {key (bd h c), val (bd h c)} = {}" by (rule *(3))
qed

text \<open>Setting the body of a node.\<close>

lemma kv_lists_body:
  assumes "kv_lists st nss" and "nodes st m = Some n"
  shows "kv_lists (st\<lparr>nodes := (nodes st)(m \<mapsto> body_update f n), bufs := b\<rparr>) nss"
proof -
  let ?h = "(nodes st)(m \<mapsto> body_update f n)"
  have v: "nxk ?h k x = nxk (nodes st) k x" "ht ?h x = ht (nodes st) x" "pr ?h x = pr (nodes st) x" for k x
    using assms(2) by (simp_all add: nxk_def ht_def pr_def)
  have "?h 0 = None" if "i < MAX_AREA_SIZE" for i
    using sl_okD(3) [OF kv_listsD(2) [OF assms(1) that]] assms(2) by (cases "m = 0") auto
  then show ?thesis using assms(1) unfolding kv_lists_def
    by (auto intro: sl_ok_views [where h = "nodes st", OF v])
qed

lemma key_of_body: "h m = Some n \<Longrightarrow> key_of (h(m \<mapsto> body_update f n)) x = key_of h x"
  by (simp add: key_of_def)

lemma bd_body: "h m = Some n \<Longrightarrow> bd (h(m \<mapsto> body_update f n)) x = (if x = m then f (bd h m) else bd h x)"
  by (simp add: bd_def)

lemma kv_owned_add:
  assumes own: "kv_owned h b L" and fr: "b kp = None" "b vp = None" "kp \<noteq> 0" "vp \<noteq> 0" "kp \<noteq> vp"
    and same: "\<And>a. a \<in> L \<Longrightarrow> bd h' a = bd h a" and new: "key (bd h' p) = kp" "val (bd h' p) = vp" and p: "p \<notin> L"
  shows "kv_owned h' (b(kp \<mapsto> x, vp \<mapsto> y)) (insert p L)"
proof -
  have old: "b (key (bd h' a)) \<noteq> None \<and> b (val (bd h' a)) \<noteq> None \<and> key (bd h' a) \<noteq> val (bd h' a)"
    if "a \<in> L" for a using kv_ownedD(1-3) [OF own that] same [OF that] by simp
  then have sep: "key (bd h' a) \<notin> {kp, vp} \<and> val (bd h' a) \<notin> {kp, vp}" if "a \<in> L" for a
    using that fr(1,2) by fastforce
  have "{key (bd h' a), val (bd h' a)} \<inter> {key (bd h' c), val (bd h' c)} = {}"
    if "a \<in> insert p L" "c \<in> insert p L" "a \<noteq> c" for a c
    using that sep new kv_ownedD(7) [OF own, of a c] same by (cases "a = p"; cases "c = p") auto
  moreover have "b 0 = None" using own by (simp add: kv_owned_def)
  ultimately show ?thesis using old sep fr(3-5) new unfolding kv_owned_def by auto
qed

section \<open>The operations on the map\<close>

lemma MAX_AREA_SIZE_val: "MAX_AREA_SIZE = 32768"
  by (simp add: MAX_AREA_SIZE_def push_bit_eq_mult)

lemma kv_hashes_area: "kv_hashes table k kl = Some (i, r) \<Longrightarrow> i < MAX_AREA_SIZE"
proof -
  assume "kv_hashes table k kl = Some (i, r)"
  then obtain h0 :: u64 where "i = unat (h0 mod of_nat MAX_AREA_SIZE)" by (auto simp: kv_hashes_def split: bind_splits)
  then have "i = unat h0 mod 32768" by (simp add: unat_mod_distrib MAX_AREA_SIZE_val)
  then show ?thesis by (simp add: MAX_AREA_SIZE_val)
qed

definition ascii_key :: "u64 list \<Rightarrow> byte list \<Rightarrow> nat \<Rightarrow> bool" where
  "ascii_key table k kl \<longleftrightarrow> length table = 0x500 \<and> kl \<le> length k \<and> (\<forall>i < kl. k ! i < 128)"

lemma kv_hashes_ex:
  assumes "ascii_key table k kl"
  obtains i prio a1 a2 where "kv_hashes table k kl = Some (i, prio, a1, a2)" and "i < MAX_AREA_SIZE"
proof -
  have "\<exists>v. hash_string table k kl t = Some v" if "0 \<le> t" "t \<le> 4" for t
    unfolding hash_string_def by (rule hash_loop_returns) (use assms that in \<open>auto simp: ascii_key_def\<close>)
  then obtain h0 h1 h2 where "hash_string table k kl 0 = Some h0" "hash_string table k kl 1 = Some h1"
    "hash_string table k kl 2 = Some h2" by (metis one_le_numeral zero_le_numeral zero_le_one numeral_le_iff order_refl
      semiring_norm(68) semiring_norm(69) semiring_norm(71))
  then have "kv_hashes table k kl =
      Some (unat (h0 mod of_nat MAX_AREA_SIZE), h0 div of_nat MAX_AREA_SIZE, h1, h2)" by (simp add: kv_hashes_def)
  with that kv_hashes_area show thesis by blast
qed

lemma copy_new_in: "b p = None \<Longrightarrow> p \<noteq> 0 \<Longrightarrow> n \<le> length src \<Longrightarrow> copy_new b p src n = Some (b(p \<mapsto> take n src))"
  by (simp add: copy_new_def memcpy_def heap_alloc_in)

lemma kv_abs_cong:
  assumes "kv_find st' nss' K = kv_find st nss K"
    and "\<And>a. kv_find st nss K = Some a \<Longrightarrow> bd (nodes st') a = bd (nodes st) a
      \<and> bufs st' (val (bd (nodes st) a)) = bufs st (val (bd (nodes st) a))"
  shows "kv_abs st' nss' K = kv_abs st nss K"
  using assms by (cases "kv_find st nss K") (simp_all add: kv_abs_def)

lemma kv_live_update:
  "i < length nss \<Longrightarrow> set ns = insert p (set (nss ! i)) \<Longrightarrow> kv_live (nss[i := ns]) = insert p (kv_live nss)"
proof -
  assume i: "i < length nss" and ns: "set ns = insert p (set (nss ! i))"
  have "x \<in> kv_live (nss[i := ns]) \<longleftrightarrow> x \<in> insert p (kv_live nss)" for x
  proof
    assume "x \<in> kv_live (nss[i := ns])"
    then obtain j where "j < length nss" "x \<in> set (nss[i := ns] ! j)" using kv_live_in by fastforce
    then show "x \<in> insert p (kv_live nss)" using kv_live_nth [of j nss x] ns i by (cases "j = i") auto
  next
    assume "x \<in> insert p (kv_live nss)"
    then consider "x = p" | j where "j < length nss" "x \<in> set (nss ! j)" using kv_live_in by auto
    then show "x \<in> kv_live (nss[i := ns])"
    proof cases
      case 1
      then show ?thesis using kv_live_nth [of i "nss[i := ns]" p] ns i by simp
    next
      case 2
      then show ?thesis using kv_live_nth [of j "nss[i := ns]" x] ns i by (cases "j = i") auto
    qed
  qed
  then show ?thesis by blast
qed

lemma kvcache_set_spec:
  assumes inv: "kv_inv st nss" and K: "kv_hashes table k kl = Some (i, prio, a1, a2)"
    and p: "nodes st p = None" "p \<noteq> 0" and rl: "rl \<le> 15"
    and fr: "bufs st kp = None" "bufs st vp = None" "kp \<noteq> 0" "vp \<noteq> 0" "kp \<noteq> vp"
    and len: "kl \<le> length k" "vl \<le> length v"
  shows "\<exists>st'. kvcache_set table st rl p junk jb kp vp now k v kl vl tt = Some (st', 0)
    \<and> kv_inv st' (nss[i := ins_at (nodes st) prio p (nss ! i)])
    \<and> (\<forall>K'. kv_abs st' (nss[i := ins_at (nodes st) prio p (nss ! i)]) K' =
        (if K' = (i, prio, a1, a2) \<and> kv_abs st nss K' = None then Some (take vl v, tt, now) else kv_abs st nss K'))
    \<and> (\<forall>a. a \<notin> {kp, vp} \<longrightarrow> bufs st' a = bufs st a) \<and> (\<forall>a. a \<noteq> p \<longrightarrow> nodes st a = None \<longrightarrow> nodes st' a = None)"
proof -
  have i: "i < MAX_AREA_SIZE" by (rule kv_hashes_area [OF K])
  note l = kv_invD(1) [OF inv] and own = kv_invD(2) [OF inv]
  define nss' where "nss' = nss[i := ins_at (nodes st) prio p (nss ! i)]"
  obtain s1 where s1: "kvcache_set_node st (Some i) rl p junk jb prio a1 a2 = Some (s1, p)" "kv_lists s1 nss'"
    "bufs s1 = bufs st" "\<And>q. q \<noteq> p \<Longrightarrow> core (nodes s1) q = core (nodes st) q" "key_of (nodes s1) p = (prio, a1, a2)"
    "map_option body (nodes s1 p) = Some (jb\<lparr>key := 0, val := 0, klen := 0, vlen := 0\<rparr>)"
    using set_node_spec [OF l i p rl, of junk jb prio a1 a2] unfolding nss'_def by blast
  obtain n where n: "nodes s1 p = Some n" "body n = jb\<lparr>key := 0, val := 0, klen := 0, vlen := 0\<rparr>" using s1(6) by auto
  let ?f = "\<lambda>d :: kv_body. d\<lparr>key := kp, val := vp, klen := kl, vlen := vl, ttl := tt, tms := now\<rparr>"
  let ?b = "(bufs st)(kp \<mapsto> take kl k, vp \<mapsto> take vl v)"
  define st' where "st' = s1\<lparr>nodes := (nodes s1)(p \<mapsto> body_update ?f n), bufs := ?b\<rparr>"
  have "copy_new (bufs st) kp k kl = Some ((bufs st)(kp \<mapsto> take kl k))"
    "copy_new ((bufs st)(kp \<mapsto> take kl k)) vp v vl = Some ?b" using fr len by (simp_all add: copy_new_in)
  then have run: "kvcache_set table st rl p junk jb kp vp now k v kl vl tt = Some (st', 0)"
    using K s1(1,3) p(2) n by (simp add: kvcache_set_def heap_set_in st'_def)
  have pL: "p \<notin> kv_live nss" using kv_live_node [OF l] p(1) by blast
  have bdn: "bd (nodes st') a = (if a = p then ?f (body n) else bd (nodes st) a)" if "a = p \<or> nodes st a \<noteq> None" for a
    using that bd_body [of "nodes s1" p n ?f a] n bd_core [OF s1(4), of a] by (auto simp: st'_def bd_def)
  have liv: "kv_live nss' = insert p (kv_live nss)"
    unfolding nss'_def using i kv_listsD(5) [OF l i] by (intro kv_live_update) simp_all
  have "kv_owned (nodes st') (bufs st') (insert p (kv_live nss))"
  proof -
    have "bufs st' = ?b" by (simp add: st'_def)
    moreover have "kv_owned (nodes st') ?b (insert p (kv_live nss))"
      using kv_live_node [OF l] pL by (intro kv_owned_add [OF own fr _ _ _ pL]) (auto simp: bdn)
    ultimately show ?thesis by simp
  qed
  moreover have "kv_lists st' nss'" unfolding st'_def by (rule kv_lists_body [OF s1(2) n(1)])
  ultimately have inv': "kv_inv st' nss'" using liv by (simp add: kv_inv_def)
  have find: "kv_find st' nss' K' = (if K' = (i, prio, a1, a2) \<and> kv_find st nss K' = None then Some p else kv_find st nss K')"
    for K'
  proof (cases "fst K' = i")
    case True
    then have "kv_find st' nss' K' = find (\<lambda>x. key_of (nodes s1) x = snd K') (nss' ! i)"
      using i key_of_body [of "nodes s1" p n, OF n(1)] by (simp add: kv_find_def st'_def)
    then show ?thesis
      using find_after_set [OF l i p rl s1(1,2), of "snd K'"] True i by (cases K') (auto simp: kv_find_def)
  next
    case False
    have "key_of (nodes st') x = key_of (nodes st) x" if "x \<in> set (nss ! fst K')" "fst K' < MAX_AREA_SIZE" for x
    proof -
      have "nodes st x \<noteq> None" by (rule kv_lists_live(1) [OF l that(2,1)])
      then have "x \<noteq> p" using p(1) by blast
      then show ?thesis using key_of_body [of "nodes s1" p n, OF n(1)] key_of_core [OF s1(4)] by (simp add: st'_def)
    qed
    then have "kv_find st' nss' K' = kv_find st nss K'"
      using False by (simp add: kv_find_def nss'_def cong: find_cong)
    with False show ?thesis by auto
  qed
  have "kv_abs st' nss' K' = (if K' = (i, prio, a1, a2) \<and> kv_abs st nss K' = None then Some (take vl v, tt, now)
      else kv_abs st nss K')" for K'
  proof (cases "K' = (i, prio, a1, a2) \<and> kv_find st nss K' = None")
    case True
    then have "kv_find st' nss' K' = Some p" "kv_abs st nss K' = None" using find [of K'] by (auto simp: kv_abs_def)
    moreover have "bufs st' vp = Some (take vl v)" by (simp add: st'_def)
    ultimately show ?thesis using bdn [of p] True by (simp add: kv_abs_def [of st'])
  next
    case False
    have "kv_abs st' nss' K' = kv_abs st nss K'"
    proof (rule kv_abs_cong)
      show "kv_find st' nss' K' = kv_find st nss K'" using find [of K'] False by auto
      fix a assume a: "kv_find st nss K' = Some a"
      note in' = kv_find_in [OF a l]
      then have ap: "a \<noteq> p" using p(1) by blast
      have "bufs st (val (bd (nodes st) a)) \<noteq> None" by (rule kv_ownedD(2) [OF own in'(3)])
      then show "bd (nodes st') a = bd (nodes st) a \<and> bufs st' (val (bd (nodes st) a)) = bufs st (val (bd (nodes st) a))"
        using bdn [of a] in'(5) ap fr(1,2) by (auto simp: st'_def)
    qed
    with False show ?thesis by (auto simp: kv_abs_def)
  qed
  moreover have "bufs st' a = bufs st a" if "a \<notin> {kp, vp}" for a using that by (simp add: st'_def)
  moreover have "nodes st' a = None" if "a \<noteq> p" "nodes st a = None" for a
    using that core_eqD(3) [OF s1(4) [OF that(1)]] by (simp add: st'_def)
  ultimately show ?thesis using run inv' unfolding nss'_def by blast
qed

lemma kv_find_inj:
  assumes l: "kv_lists st nss" and "kv_find st nss K = Some a" and "kv_find st nss K' = Some a"
  shows "K = K'"
proof -
  note k = kv_find_in(1,2,4) [OF assms(2) l] kv_find_in(1,2,4) [OF assms(3) l]
  then have "fst K = fst K'" using kv_listsD(3) [OF l, of "fst K" "fst K'"] by fastforce
  then show ?thesis using k by (simp add: prod_eq_iff)
qed

text \<open>What a lookup of the map says about the node the operations find.\<close>

lemma kv_abs_Some:
  assumes inv: "kv_inv st nss" and "kv_abs st nss (i, prio, a1, a2) = Some (v, t, m)"
  obtains a n where "kv_find st nss (i, prio, a1, a2) = Some a" and "kvcache_get_node st (Some i) prio a1 a2 = Some a"
    and "a \<noteq> 0" and "nodes st a = Some n" and "ttl (body n) = t" and "tms (body n) = m"
    and "bufs st (val (body n)) = Some v" and "val (body n) \<noteq> 0" and "i < MAX_AREA_SIZE" and "a \<in> kv_live nss"
proof -
  note l = kv_invD(1) [OF inv] and own = kv_invD(2) [OF inv]
  obtain a where a: "kv_find st nss (i, prio, a1, a2) = Some a" using assms(2) by (auto simp: kv_abs_def)
  note in' = kv_find_in [OF a l]
  obtain n where n: "nodes st a = Some n" using in'(5) by auto
  then have b: "bd (nodes st) a = body n" by (simp add: bd_def)
  have i: "i < MAX_AREA_SIZE" using in'(1) by simp
  have "kvcache_get_node st (Some i) prio a1 a2 = Some a" using get_node_spec [OF l i, of prio a1 a2] a i by (simp add: kv_find_def)
  moreover have "bufs st (val (body n)) = Some v" "ttl (body n) = t" "tms (body n) = m"
    using assms(2) a b kv_ownedD(2) [OF own in'(3)] by (auto simp: kv_abs_def)
  ultimately show thesis using that [OF a _ in'(6) n] kv_ownedD(5) [OF own in'(3)] b i in'(3) by simp
qed

lemma kv_abs_None:
  assumes "kv_inv st nss" and "i < MAX_AREA_SIZE" and "kv_abs st nss (i, prio, a1, a2) = None"
  shows "kvcache_get_node st (Some i) prio a1 a2 = Some 0"
    and "find (\<lambda>x. key_of (nodes st) x = (prio, a1, a2)) (nss ! i) = None"
proof -
  show f: "find (\<lambda>x. key_of (nodes st) x = (prio, a1, a2)) (nss ! i) = None"
    using assms(2,3) by (simp add: kv_abs_def kv_find_def)
  then show "kvcache_get_node st (Some i) prio a1 a2 = Some 0"
    using get_node_spec [OF kv_invD(1) [OF assms(1)] assms(2), of prio a1 a2] by simp
qed

lemma long_ok_in: "- (2 ^ 63) \<le> x \<Longrightarrow> x < 2 ^ 63 \<Longrightarrow> long_ok x = Some x"
  by (simp add: long_ok_def)

lemma to_int32_in: "- (2 ^ 31) \<le> x \<Longrightarrow> x < 2 ^ 31 \<Longrightarrow> to_int32 x = x"
  by (simp add: to_int32_def signed_take_bit_int_eq_self_iff signed_of_int)

lemma kvcache_get_spec:
  assumes inv: "kv_inv st nss" and K: "kv_hashes table k kl = Some K"
  shows "kv_abs st nss K = None \<longrightarrow> kvcache_get table st now k kl = Some 0"
    and "\<lbrakk>kv_abs st nss K = Some (v, t, m); - (2 ^ 63) \<le> m + t; m + t < 2 ^ 63\<rbrakk> \<Longrightarrow>
      if now > m + t then kvcache_get table st now k kl = Some 0
      else \<exists>a. kvcache_get table st now k kl = Some a \<and> a \<noteq> 0 \<and> bufs st a = Some v"
proof -
  obtain i prio a1 a2 where KK: "K = (i, prio, a1, a2)" by (cases K)
  have i: "i < MAX_AREA_SIZE" using kv_hashes_area K KK by blast
  show "kv_abs st nss K = None \<longrightarrow> kvcache_get table st now k kl = Some 0"
    using kv_abs_None [OF inv i] K KK by (simp add: kvcache_get_def)
  assume A: "kv_abs st nss K = Some (v, t, m)" "- (2 ^ 63) \<le> m + t" "m + t < 2 ^ 63"
  show "if now > m + t then kvcache_get table st now k kl = Some 0
      else \<exists>a. kvcache_get table st now k kl = Some a \<and> a \<noteq> 0 \<and> bufs st a = Some v"
    by (rule kv_abs_Some [OF inv A(1) [unfolded KK]])
      (use A(2,3) K KK in \<open>simp add: kvcache_get_def long_ok_def\<close>)
qed

lemma kvcache_ttl_spec:
  assumes inv: "kv_inv st nss" and K: "kv_hashes table k kl = Some K"
  shows "kv_abs st nss K = None \<longrightarrow> kvcache_ttl table st now k kl = Some 0"
    and "\<lbrakk>kv_abs st nss K = Some (v, t, m); \<bar>now - m\<bar> < 2 ^ 31\<rbrakk> \<Longrightarrow>
      kvcache_ttl table st now k kl = Some (if now > m then now - m else - 1)"
proof -
  obtain i prio a1 a2 where KK: "K = (i, prio, a1, a2)" by (cases K)
  have i: "i < MAX_AREA_SIZE" using kv_hashes_area K KK by blast
  show "kv_abs st nss K = None \<longrightarrow> kvcache_ttl table st now k kl = Some 0"
    using kv_abs_None [OF inv i] K KK by (simp add: kvcache_ttl_def)
  assume A: "kv_abs st nss K = Some (v, t, m)" "\<bar>now - m\<bar> < 2 ^ 31"
  then have d: "long_ok (now - m) = Some (now - m)" "to_int32 (now - m) = now - m"
    by (intro long_ok_in to_int32_in; simp add: abs_if split: if_splits)+
  show "kvcache_ttl table st now k kl = Some (if now > m then now - m else - 1)"
    by (rule kv_abs_Some [OF inv A(1) [unfolded KK]]) (use d K KK in \<open>simp add: kvcache_ttl_def Let_def\<close>)
qed

lemma kvcache_expire_spec:
  assumes inv: "kv_inv st nss" and K: "kv_hashes table k kl = Some K"
  shows "kv_abs st nss K = None \<longrightarrow> kvcache_expire table st now k kl tt = Some (st, 0)"
    and "\<lbrakk>kv_abs st nss K = Some (v, t, m); - (2 ^ 63) \<le> m + t; m + t < 2 ^ 63\<rbrakk> \<Longrightarrow>
      if now > m + t then kvcache_expire table st now k kl tt = Some (st, - 1)
      else \<exists>st'. kvcache_expire table st now k kl tt = Some (st', 0) \<and> kv_inv st' nss
        \<and> kv_abs st' nss = (kv_abs st nss)(K \<mapsto> (v, tt, now))"
proof -
  obtain i prio a1 a2 where KK: "K = (i, prio, a1, a2)" by (cases K)
  have i: "i < MAX_AREA_SIZE" using kv_hashes_area K KK by blast
  show "kv_abs st nss K = None \<longrightarrow> kvcache_expire table st now k kl tt = Some (st, 0)"
    using kv_abs_None [OF inv i] K KK by (simp add: kvcache_expire_def)
  assume A: "kv_abs st nss K = Some (v, t, m)" "- (2 ^ 63) \<le> m + t" "m + t < 2 ^ 63"
  obtain a n where a: "kv_find st nss K = Some a" "kvcache_get_node st (Some i) prio a1 a2 = Some a"
    and n: "a \<noteq> 0" "nodes st a = Some n" "ttl (body n) = t" "tms (body n) = m" "bufs st (val (body n)) = Some v"
    by (rule kv_abs_Some [OF inv A(1) [unfolded KK]]) (use KK in simp)
  show "if now > m + t then kvcache_expire table st now k kl tt = Some (st, - 1)
      else \<exists>st'. kvcache_expire table st now k kl tt = Some (st', 0) \<and> kv_inv st' nss
        \<and> kv_abs st' nss = (kv_abs st nss)(K \<mapsto> (v, tt, now))"
  proof (cases "now > m + t")
    case True
    then show ?thesis using a(2) n A(2,3) K KK by (simp add: kvcache_expire_def long_ok_def)
  next
    case False
    let ?f = "\<lambda>d :: kv_body. d\<lparr>tms := now, ttl := tt\<rparr>"
    let ?h = "(nodes st)(a \<mapsto> body_update ?f n)"
    define st' where "st' = st\<lparr>nodes := ?h\<rparr>"
    have run: "kvcache_expire table st now k kl tt = Some (st', 0)"
      using False a(2) n A(2,3) K KK by (simp add: kvcache_expire_def long_ok_def heap_set_in st'_def)
    have B: "bd ?h x = (if x = a then ?f (bd (nodes st) a) else bd (nodes st) x)" for x
      by (rule bd_body [of "nodes st" a n ?f x, OF n(2)])
    then have same: "key (bd ?h x) = key (bd (nodes st) x)" "val (bd ?h x) = val (bd (nodes st) x)" for x by simp_all
    have "kv_lists (st\<lparr>nodes := ?h, bufs := bufs st\<rparr>) nss" by (rule kv_lists_body [OF kv_invD(1) [OF inv] n(2)])
    moreover have "st\<lparr>nodes := ?h, bufs := bufs st\<rparr> = st'" by (simp add: st'_def)
    moreover have "kv_owned ?h (bufs st) (kv_live nss)" using kv_invD(2) [OF inv] unfolding kv_owned_def same .
    ultimately have "kv_inv st' nss" by (simp add: kv_inv_def st'_def)
    moreover have fnd: "kv_find st' nss K' = kv_find st nss K'" for K'
      using key_of_body [of "nodes st" a n ?f, OF n(2)] by (simp add: kv_find_def st'_def)
    have "kv_abs st' nss K' = ((kv_abs st nss)(K \<mapsto> (v, tt, now))) K'" for K'
    proof (cases "K' = K")
      case True
      have "bd (nodes st) a = body n" using n(2) by (simp add: bd_def)
      then show ?thesis using True a(1) fnd [of K] B [of a] n(5) by (simp add: kv_abs_def st'_def)
    next
      case False
      have "kv_abs st' nss K' = kv_abs st nss K'"
      proof (rule kv_abs_cong [OF fnd])
        fix x assume x: "kv_find st nss K' = Some x"
        have "x \<noteq> a" using kv_find_inj [OF kv_invD(1) [OF inv], of K' x K] x a(1) False by auto
        then show "bd (nodes st') x = bd (nodes st) x \<and> bufs st' (val (bd (nodes st) x)) = bufs st (val (bd (nodes st) x))"
          using B [of x] by (simp add: st'_def)
      qed
      with False show ?thesis by simp
    qed
    then have "kv_abs st' nss = (kv_abs st nss)(K \<mapsto> (v, tt, now))" by (rule ext)
    ultimately show ?thesis using run False by auto
  qed
qed

lemma kv_owned_remove:
  assumes own: "kv_owned h b L" and x: "x \<in> L" and same: "\<And>a. a \<in> L - {x} \<Longrightarrow> bd h' a = bd h a"
  shows "kv_owned h' (b(key (bd h x) := None, val (bd h x) := None)) (L - {x})"
proof -
  have sep: "{key (bd h x), val (bd h x)} \<inter> {key (bd h a), val (bd h a)} = {}" if "a \<in> L - {x}" for a
    using kv_ownedD(7) [OF own x, of a] that by auto
  have "b 0 = None" "key (bd h x) \<noteq> 0" "val (bd h x) \<noteq> 0" using kv_ownedD(4-6) [OF own x] by simp_all
  moreover have "b (key (bd h a)) \<noteq> None \<and> b (val (bd h a)) \<noteq> None \<and> key (bd h a) \<noteq> val (bd h a)"
    if "a \<in> L - {x}" for a using kv_ownedD(1-3) [OF own, of a] that by simp
  moreover have "{key (bd h a), val (bd h a)} \<inter> {key (bd h c), val (bd h c)} = {}"
    if "a \<in> L - {x}" "c \<in> L - {x}" "a \<noteq> c" for a c using kv_ownedD(7) [OF own, of a c] that by simp
  ultimately show ?thesis using same sep unfolding kv_owned_def by force
qed

lemma kv_live_filter:
  assumes l: "kv_lists st nss" and i: "i < MAX_AREA_SIZE" and x: "x \<in> set (nss ! i)"
  shows "kv_live (nss[i := filter (\<lambda>y. y \<noteq> x) (nss ! i)]) = kv_live nss - {x}"
proof -
  let ?n = "nss[i := filter (\<lambda>y. y \<noteq> x) (nss ! i)]"
  have len: "length nss = MAX_AREA_SIZE" by (rule kv_listsD(5) [OF l i])
  have at: "set (?n ! j) = set (nss ! j) - {x}" if j: "j < MAX_AREA_SIZE" for j
  proof (cases "j = i")
    case False
    then have "x \<notin> set (nss ! j)" using kv_listsD(3) [OF l i j] x by auto
    with False show ?thesis by simp
  qed (use len i in auto)
  have "y \<in> kv_live ?n \<longleftrightarrow> y \<in> kv_live nss - {x}" for y
  proof
    assume "y \<in> kv_live ?n"
    then obtain j where "j < MAX_AREA_SIZE" "y \<in> set (?n ! j)" using kv_live_in [of y ?n] len by auto
    then show "y \<in> kv_live nss - {x}" using at [of j] kv_live_nth [of j nss y] len by auto
  next
    assume "y \<in> kv_live nss - {x}"
    then obtain j where "j < MAX_AREA_SIZE" "y \<in> set (nss ! j)" "y \<noteq> x" using kv_live_in [of y nss] len by auto
    then show "y \<in> kv_live ?n" using at [of j] kv_live_nth [of j ?n y] len by auto
  qed
  then show ?thesis by blast
qed

lemma find_filter_other: "\<not> P x \<Longrightarrow> find P (filter (\<lambda>y. y \<noteq> x) ns) = find P ns"
  by (induction ns) auto

lemma kv_find_remove:
  assumes l: "kv_lists st nss" and i: "i < MAX_AREA_SIZE" and f: "kv_find st nss (i, prio, a1, a2) = Some x"
    and uniq: "\<forall>y \<in> set (nss ! i). pr (nodes st) y = prio \<longrightarrow> y = x"
    and same: "\<And>q. q \<noteq> x \<Longrightarrow> core (nodes st') q = core (nodes st) q"
  shows "kv_find st' (nss[i := filter (\<lambda>y. y \<noteq> x) (nss ! i)]) K' =
    (if K' = (i, prio, a1, a2) then None else kv_find st nss K')"
proof (cases "fst K' < MAX_AREA_SIZE")
  case True
  note in' = kv_find_in [OF f l]
  have xin: "x \<in> set (nss ! i)" using in'(2) by simp
  have keys: "key_of (nodes st') y = key_of (nodes st) y" if "y \<noteq> x" for y by (rule key_of_core [OF same [OF that]])
  have all: "find (\<lambda>y. key_of (nodes st') y = snd K') ns = find (\<lambda>y. key_of (nodes st) y = snd K') ns"
    if "x \<notin> set ns" for ns using that by (intro find_cong refl) (metis keys)
  consider "K' = (i, prio, a1, a2)" | "fst K' = i" "K' \<noteq> (i, prio, a1, a2)" | "fst K' \<noteq> i" by blast
  then show ?thesis
  proof cases
    case 1
    have "key_of (nodes st) y \<noteq> (prio, a1, a2)" if "y \<in> set (nss ! i)" "y \<noteq> x" for y
      using that uniq key_prio [of "nodes st" y prio a1 a2] kv_lists_live(1) [OF l i that(1)] by auto
    then have "find (\<lambda>y. key_of (nodes st) y = (prio, a1, a2)) (filter (\<lambda>y. y \<noteq> x) (nss ! i)) = None"
      by (auto simp: find_None_iff)
    then show ?thesis using 1 i kv_listsD(5) [OF l i] all [of "filter (\<lambda>y. y \<noteq> x) (nss ! i)"] by (simp add: kv_find_def)
  next
    case 2
    then have "snd K' \<noteq> (prio, a1, a2)" by (cases K') auto
    then have "key_of (nodes st) x \<noteq> snd K'" using in'(4) by auto
    then show ?thesis
      using 2 i kv_listsD(5) [OF l i] all [of "filter (\<lambda>y. y \<noteq> x) (nss ! i)"]
        find_filter_other [of "\<lambda>y. key_of (nodes st) y = snd K'" x "nss ! i"] by (simp add: kv_find_def)
  next
    case 3
    then have "x \<notin> set (nss ! fst K')" using kv_listsD(3) [OF l i True] xin by auto
    then show ?thesis using 3 all by (auto simp: kv_find_def)
  qed
qed (auto simp: kv_find_def i)

lemma kvcache_del_spec:
  assumes inv: "kv_inv st nss" and K: "kv_hashes table k kl = Some (i, prio, a1, a2)"
  shows "kv_abs st nss (i, prio, a1, a2) = None \<longrightarrow> kvcache_del table st k kl = Some (st, - 1)"
    and "\<lbrakk>kv_find st nss (i, prio, a1, a2) = Some x; \<forall>y \<in> set (nss ! i). pr (nodes st) y = prio \<longrightarrow> y = x\<rbrakk> \<Longrightarrow>
      \<exists>st'. kvcache_del table st k kl = Some (st', 0) \<and> kv_inv st' (nss[i := filter (\<lambda>y. y \<noteq> x) (nss ! i)])
        \<and> kv_abs st' (nss[i := filter (\<lambda>y. y \<noteq> x) (nss ! i)]) = (kv_abs st nss)((i, prio, a1, a2) := None)"
proof -
  note l = kv_invD(1) [OF inv] and own = kv_invD(2) [OF inv]
  have i: "i < MAX_AREA_SIZE" by (rule kv_hashes_area [OF K])
  have "kvcache_del_node st (Some i) prio a1 a2 = Some (st, - 1)" if N: "kv_abs st nss (i, prio, a1, a2) = None"
  proof -
    obtain u where "descend (\<lambda>q. q < prio) (nodes st) (area_level (ring st ! i)) (area_head (ring st ! i)) (replicate 16 0) =
        Some (pred_at (\<lambda>q. q < prio) (nodes st) (area_head (ring st ! i)) (nss ! i) 0,
          hd (filter (\<lambda>x. \<not> pr (nodes st) x < prio) (nss ! i) @ [0]), u)"
      "scan (nodes st) prio a1 a2 (hd (filter (\<lambda>x. \<not> pr (nodes st) x < prio) (nss ! i) @ [0])) = Some 0"
      using search_spec [OF kv_listsD(2) [OF l i], of "replicate 16 0" prio a1 a2] kv_abs_None(2) [OF inv i N] by auto
    then show ?thesis by (simp add: kvcache_del_node_def kv_listsD(1) [OF l i] MAX_SK_LEVEL_def)
  qed
  then show "kv_abs st nss (i, prio, a1, a2) = None \<longrightarrow> kvcache_del table st k kl = Some (st, - 1)"
    using K by (simp add: kvcache_del_def)
  assume f: "kv_find st nss (i, prio, a1, a2) = Some x" and uniq: "\<forall>y \<in> set (nss ! i). pr (nodes st) y = prio \<longrightarrow> y = x"
  note in' = kv_find_in [OF f l]
  obtain n where n: "nodes st x = Some n" using in'(5) by auto
  then have b: "bd (nodes st) x = body n" by (simp add: bd_def)
  note o = kv_ownedD [OF own in'(3), unfolded b]
  let ?nss = "nss[i := filter (\<lambda>y. y \<noteq> x) (nss ! i)]"
  have ff: "find (\<lambda>x. key_of (nodes st) x = (prio, a1, a2)) (nss ! i) = Some x" using f i by (simp add: kv_find_def)
  obtain st' where st': "kvcache_del_node st (Some i) prio a1 a2 = Some (st', 0)" "kv_lists st' ?nss"
    "bufs st' = (bufs st)(key (body n) := None, val (body n) := None)" "nodes st' x = None"
    "\<And>q. q \<noteq> x \<Longrightarrow> core (nodes st') q = core (nodes st) q"
    using del_node_spec [OF l i ff _ n o(4,5,3,1,2)] uniq by blast
  have xin: "x \<in> set (nss ! i)" using in'(2) by simp
  have same: "bd (nodes st') a = bd (nodes st) a" if "a \<in> kv_live nss - {x}" for a
    using bd_core [OF st'(5), of a] kv_live_node [OF l, of a] that by blast
  have "kv_owned (nodes st') (bufs st') (kv_live ?nss)"
    using kv_owned_remove [OF own in'(3) same] st'(3) b kv_live_filter [OF l i xin] by simp
  with st'(2) have inv': "kv_inv st' ?nss" by (simp add: kv_inv_def)
  note find = kv_find_remove [OF l i f uniq st'(5)]
  have "kv_abs st' ?nss K' = ((kv_abs st nss)((i, prio, a1, a2) := None)) K'" for K'
  proof (cases "K' = (i, prio, a1, a2)")
    case True
    then show ?thesis using find [of K'] by (simp add: kv_abs_def)
  next
    case False
    have "kv_abs st' ?nss K' = kv_abs st nss K'"
    proof (rule kv_abs_cong)
      show "kv_find st' ?nss K' = kv_find st nss K'" using find [of K'] False by simp
      fix y assume y: "kv_find st nss K' = Some y"
      have yx: "y \<noteq> x" using kv_find_inj [OF l y, of "(i, prio, a1, a2)"] f False by auto
      have yl: "y \<in> kv_live nss" by (rule kv_find_in(3) [OF y l])
      have "val (bd (nodes st) y) \<notin> {key (body n), val (body n)}"
        using kv_ownedD(7) [OF own in'(3) yl] yx b by auto
      then show "bd (nodes st') y = bd (nodes st) y \<and> bufs st' (val (bd (nodes st) y)) = bufs st (val (bd (nodes st) y))"
        using same [of y] yl yx st'(3) by simp
    qed
    with False show ?thesis by simp
  qed
  then have "kv_abs st' ?nss = (kv_abs st nss)((i, prio, a1, a2) := None)" by (rule ext)
  with st'(1) inv' K show "\<exists>st'. kvcache_del table st k kl = Some (st', 0) \<and> kv_inv st' ?nss
      \<and> kv_abs st' ?nss = (kv_abs st nss)((i, prio, a1, a2) := None)" by (simp add: kvcache_del_def)
qed

section \<open>Initialisation and destruction\<close>

definition head_node :: "kv_body sl_node \<Rightarrow> kv_body sl_node" where
  "head_node j = j\<lparr>elem := replicate MAX_SK_LEVEL 0, priority := - 1\<rparr>"

lemma init_loop_ok:
  assumes "i \<le> MAX_AREA_SIZE" and "length (ring st) = MAX_AREA_SIZE"
    and "\<And>j. i \<le> j \<Longrightarrow> j < MAX_AREA_SIZE \<Longrightarrow> alloc j \<noteq> 0 \<and> nodes st (alloc j) = None"
    and "inj_on alloc {i..<MAX_AREA_SIZE}"
  shows "\<exists>st'. kvcache_init_loop st alloc junk i = Some (st', 0) \<and> bufs st' = bufs st
    \<and> length (ring st') = MAX_AREA_SIZE
    \<and> (\<forall>j < MAX_AREA_SIZE. ring st' ! j = (if j < i then ring st ! j else \<lparr>area_level = 0, area_head = alloc j\<rparr>))
    \<and> (\<forall>j. i \<le> j \<and> j < MAX_AREA_SIZE \<longrightarrow> nodes st' (alloc j) = Some (head_node (junk j)))
    \<and> (\<forall>a. a \<notin> alloc ` {i..<MAX_AREA_SIZE} \<longrightarrow> nodes st' a = nodes st a)"
  using assms
proof (induction "MAX_AREA_SIZE - i" arbitrary: i st)
  case 0
  then show ?case by (subst kvcache_init_loop.simps) auto
next
  case (Suc d)
  then have i: "i < MAX_AREA_SIZE" by simp
  define s1 where "s1 = st\<lparr>ring := (ring st)[i := \<lparr>area_level = 0, area_head = alloc i\<rparr>],
    nodes := (nodes st)(alloc i \<mapsto> head_node (junk i))\<rparr>"
  have ai: "alloc i \<noteq> 0" "nodes st (alloc i) = None" using Suc.prems(3) [of i] i by simp_all
  have step: "kvcache_init_loop st alloc junk i = kvcache_init_loop s1 alloc junk (Suc i)"
    using i ai Suc.prems(2)
    by (subst kvcache_init_loop.simps) (simp add: aput_nat heap_alloc_in s1_def head_node_def MAX_SK_LEVEL_def)
  have other: "alloc j \<noteq> alloc i" if "Suc i \<le> j" "j < MAX_AREA_SIZE" for j
    using inj_onD [OF Suc.prems(4), of j i] that by auto
  obtain st' where st': "kvcache_init_loop s1 alloc junk (Suc i) = Some (st', 0)" "bufs st' = bufs s1"
    "length (ring st') = MAX_AREA_SIZE"
    "\<And>j. j < MAX_AREA_SIZE \<Longrightarrow> ring st' ! j = (if j < Suc i then ring s1 ! j else \<lparr>area_level = 0, area_head = alloc j\<rparr>)"
    "\<And>j. Suc i \<le> j \<Longrightarrow> j < MAX_AREA_SIZE \<Longrightarrow> nodes st' (alloc j) = Some (head_node (junk j))"
    "\<And>a. a \<notin> alloc ` {Suc i..<MAX_AREA_SIZE} \<Longrightarrow> nodes st' a = nodes s1 a"
  proof -
    have "\<exists>st'. kvcache_init_loop s1 alloc junk (Suc i) = Some (st', 0) \<and> bufs st' = bufs s1
      \<and> length (ring st') = MAX_AREA_SIZE
      \<and> (\<forall>j < MAX_AREA_SIZE. ring st' ! j = (if j < Suc i then ring s1 ! j else \<lparr>area_level = 0, area_head = alloc j\<rparr>))
      \<and> (\<forall>j. Suc i \<le> j \<and> j < MAX_AREA_SIZE \<longrightarrow> nodes st' (alloc j) = Some (head_node (junk j)))
      \<and> (\<forall>a. a \<notin> alloc ` {Suc i..<MAX_AREA_SIZE} \<longrightarrow> nodes st' a = nodes s1 a)"
    proof (rule Suc.hyps(1))
      show "alloc j \<noteq> 0 \<and> nodes s1 (alloc j) = None" if "Suc i \<le> j" "j < MAX_AREA_SIZE" for j
        using that other [OF that] Suc.prems(3) [of j] by (simp add: s1_def)
      show "inj_on alloc {Suc i..<MAX_AREA_SIZE}" using Suc.prems(4) by (rule inj_on_subset) auto
    qed (use Suc.hyps(2) Suc.prems(2) i in \<open>simp_all add: s1_def\<close>)
    then show thesis using that by blast
  qed
  have "ring st' ! j = (if j < i then ring st ! j else \<lparr>area_level = 0, area_head = alloc j\<rparr>)" if "j < MAX_AREA_SIZE" for j
    using st'(4) [OF that] i Suc.prems(2) by (cases "j = i") (auto simp: s1_def)
  moreover have "alloc i \<notin> alloc ` {Suc i..<MAX_AREA_SIZE}" using other by force
  then have "nodes st' (alloc j) = Some (head_node (junk j))" if "i \<le> j" "j < MAX_AREA_SIZE" for j
    using st'(5) [of j] st'(6) [of "alloc i"] that by (cases "j = i") (auto simp: s1_def)
  moreover have "nodes st' a = nodes st a" if "a \<notin> alloc ` {i..<MAX_AREA_SIZE}" for a
  proof -
    have "a \<noteq> alloc i" using that i by auto
    moreover have "a \<notin> alloc ` {Suc i..<MAX_AREA_SIZE}" using that by auto
    ultimately show ?thesis using st'(6) [of a] by (simp add: s1_def)
  qed
  ultimately show ?case using step st'(1-3) by (auto simp: s1_def)
qed

lemma head_list_ok:
  assumes "h a = Some (head_node j)" and "a \<noteq> 0" and "h 0 = None"
  shows "sl_ok h a 0 []"
  using assms by (simp add: sl_ok_def ht_def nxk_def chain_def head_node_def MAX_SK_LEVEL_def)

lemma kvcache_init_ok:
  assumes "length (ring st) = MAX_AREA_SIZE" and "nodes st 0 = None" and "bufs st 0 = None"
    and al: "\<And>j. j < MAX_AREA_SIZE \<Longrightarrow> alloc j \<noteq> 0 \<and> nodes st (alloc j) = None"
    and inj: "inj_on alloc {..<MAX_AREA_SIZE}"
  shows "\<exists>st'. kvcache_init st alloc junk = Some (st', 0) \<and> bufs st' = bufs st
    \<and> (\<forall>a. a \<notin> alloc ` {..<MAX_AREA_SIZE} \<longrightarrow> nodes st' a = nodes st a)
    \<and> (\<forall>j < MAX_AREA_SIZE. area_head (ring st' ! j) = alloc j \<and> nodes st' (alloc j) = Some (head_node (junk j)))
    \<and> kv_inv st' (replicate MAX_AREA_SIZE []) \<and> kv_abs st' (replicate MAX_AREA_SIZE []) = Map.empty"
proof -
  have eq: "{0..<MAX_AREA_SIZE} = {..<MAX_AREA_SIZE}" by auto
  obtain st' where st': "kvcache_init_loop st alloc junk 0 = Some (st', 0)" "bufs st' = bufs st"
    "length (ring st') = MAX_AREA_SIZE"
    "\<And>j. j < MAX_AREA_SIZE \<Longrightarrow> ring st' ! j = \<lparr>area_level = 0, area_head = alloc j\<rparr>"
    "\<And>j. j < MAX_AREA_SIZE \<Longrightarrow> nodes st' (alloc j) = Some (head_node (junk j))"
    "\<And>a. a \<notin> alloc ` {..<MAX_AREA_SIZE} \<Longrightarrow> nodes st' a = nodes st a"
    using init_loop_ok [of 0 st alloc junk] assms(1) al inj unfolding eq by auto
  have z: "nodes st' 0 = None" using st'(6) [of 0] assms(2) al by (metis imageE lessThan_iff)
  have ok: "sl_ok (nodes st') (alloc j) 0 []" if "j < MAX_AREA_SIZE" for j
    using head_list_ok [OF st'(5) [OF that] _ z] al [OF that] by blast
  have "alloc i \<noteq> alloc j" if "i < MAX_AREA_SIZE" "j < MAX_AREA_SIZE" "i \<noteq> j" for i j
    using inj_onD [OF inj, of i j] that by auto
  then have "kv_lists st' (replicate MAX_AREA_SIZE [])" using st'(3,4) ok by (simp add: kv_lists_def)
  moreover have "kv_live (replicate MAX_AREA_SIZE []) = {}" by (auto simp: kv_live_def)
  ultimately have "kv_inv st' (replicate MAX_AREA_SIZE [])" using assms(3) st'(2) by (simp add: kv_inv_def kv_owned_def)
  moreover have "kv_abs st' (replicate MAX_AREA_SIZE []) K = None" for K by (simp add: kv_abs_def kv_find_def)
  then have "kv_abs st' (replicate MAX_AREA_SIZE []) = Map.empty" by (rule ext)
  ultimately show ?thesis using st' by (auto simp: kvcache_init_def)
qed

lemma init_loop_fails:
  assumes "m < MAX_AREA_SIZE" and "alloc m = 0" and "i \<le> m" and "length (ring st) = MAX_AREA_SIZE"
    and "\<And>j. i \<le> j \<Longrightarrow> j < m \<Longrightarrow> alloc j \<noteq> 0 \<and> nodes st (alloc j) = None" and "inj_on alloc {i..<m}"
  shows "\<exists>st'. kvcache_init_loop st alloc junk i = Some (st', - 1)"
  using assms
proof (induction "m - i" arbitrary: i st)
  case 0
  then show ?case by (subst kvcache_init_loop.simps) (simp add: aput_nat)
next
  case (Suc d)
  then have i: "i < m" by simp
  define s1 where "s1 = st\<lparr>ring := (ring st)[i := \<lparr>area_level = 0, area_head = alloc i\<rparr>],
    nodes := (nodes st)(alloc i \<mapsto> head_node (junk i))\<rparr>"
  have "kvcache_init_loop st alloc junk i = kvcache_init_loop s1 alloc junk (Suc i)"
    using i Suc.prems(1,4) Suc.prems(5) [of i]
    by (subst kvcache_init_loop.simps) (simp add: aput_nat heap_alloc_in s1_def head_node_def MAX_SK_LEVEL_def)
  moreover have "\<exists>st'. kvcache_init_loop s1 alloc junk (Suc i) = Some (st', - 1)"
  proof (rule Suc.hyps(1))
    fix j assume j: "Suc i \<le> j" "j < m"
    have "alloc j \<noteq> alloc i" using inj_onD [OF Suc.prems(6), of j i] j i by auto
    then show "alloc j \<noteq> 0 \<and> nodes s1 (alloc j) = None" using Suc.prems(5) [of j] j by (simp add: s1_def)
  next
    show "inj_on alloc {Suc i..<m}" using Suc.prems(6) by (rule inj_on_subset) auto
  qed (use Suc.hyps(2) Suc.prems i in \<open>simp_all add: s1_def\<close>)
  ultimately show ?case by simp
qed

text \<open>The buffers of a node, and a set of nodes that can be freed in any order.\<close>

definition own_bufs :: "kv_body sl_heap \<Rightarrow> addr \<Rightarrow> addr set" where
  "own_bufs h a = {key (bd h a), val (bd h a)} - {0}"

definition freeable :: "kv_body sl_heap \<Rightarrow> byte list heap \<Rightarrow> addr set \<Rightarrow> bool" where
  "freeable h b S \<longleftrightarrow> (\<forall>a \<in> S. a \<noteq> 0 \<and> h a \<noteq> None \<and> (\<forall>q \<in> own_bufs h a. b q \<noteq> None)
       \<and> (key (bd h a) = val (bd h a) \<longrightarrow> key (bd h a) = 0))
     \<and> (\<forall>a \<in> S. \<forall>c \<in> S. a \<noteq> c \<longrightarrow> own_bufs h a \<inter> own_bufs h c = {})"

definition without :: "addr set \<Rightarrow> 'n heap \<Rightarrow> 'n heap" where
  "without S h = (\<lambda>q. if q \<in> S then None else h q)"

lemma without_empty [simp]: "without {} h = h" and without_without [simp]: "without S (without T h) = without (T \<union> S) h"
  by (auto simp: without_def)

lemma own_bufs_without: "a \<notin> S \<Longrightarrow> own_bufs (without S h) a = own_bufs h a"
  by (simp add: own_bufs_def bd_def without_def)

lemma freeable_without:
  assumes "freeable h b S" and "T \<subseteq> S"
  shows "freeable (without T h) (without (\<Union>a \<in> T. own_bufs h a) b) (S - T)"
proof -
  have e: "own_bufs (without T h) a = own_bufs h a" "bd (without T h) a = bd h a" "without T h a = h a" if "a \<in> S - T" for a
    using that by (simp_all add: own_bufs_def bd_def without_def)
  have "without (\<Union>a \<in> T. own_bufs h a) b q = b q" if "a \<in> S - T" "q \<in> own_bufs h a" for a q
    using assms that unfolding freeable_def without_def by fastforce
  then show ?thesis using assms(1) unfolding freeable_def by (auto simp: e)
qed

lemma kv_node_free_spec:
  assumes "freeable (nodes st) (bufs st) S" and "a \<in> S"
  shows "kv_node_free st a = Some (st\<lparr>nodes := without {a} (nodes st), bufs := without (own_bufs (nodes st) a) (bufs st)\<rparr>)"
proof -
  obtain n where n: "nodes st a = Some n" "a \<noteq> 0" using assms unfolding freeable_def by auto
  let ?k = "key (body n)" and ?v = "val (body n)"
  have b: "bd (nodes st) a = body n" using n by (simp add: bd_def)
  have live: "?k \<noteq> 0 \<Longrightarrow> bufs st ?k \<noteq> None" "?v \<noteq> 0 \<Longrightarrow> bufs st ?v \<noteq> None" "?k = ?v \<longrightarrow> ?k = 0"
    using assms b unfolding freeable_def own_bufs_def by auto
  have "heap_free (nodes st) a = Some (without {a} (nodes st))" using n by (auto simp: heap_free_def without_def)
  moreover have "(do { b \<leftarrow> (if ?k \<noteq> 0 then heap_free (bufs st) ?k else Some (bufs st));
      if ?v \<noteq> 0 then heap_free b ?v else Some b }) = Some (without (own_bufs (nodes st) a) (bufs st))"
    using live by (auto simp: heap_free_def without_def own_bufs_def b fun_eq_iff)
  ultimately show ?thesis using n(1)
    by (auto simp: kv_node_free_def simp flip: Option.bind_assoc split: bind_splits)
qed

lemma kv_free_loop_spec:
  assumes "path (nodes st) 0 a xs" and "distinct (a # xs)" and "freeable (nodes st) (bufs st) S" and "set (a # xs) \<subseteq> S"
  shows "kv_free_loop st a = Some (st\<lparr>nodes := without (set (a # xs)) (nodes st),
    bufs := without (\<Union>x \<in> set (a # xs). own_bufs (nodes st) x) (bufs st)\<rparr>)"
  using assms
proof (induction xs arbitrary: a st S)
  case Nil
  then show ?case by (subst kv_free_loop.simps) (simp add: kv_node_free_spec [OF Nil(3)])
next
  case (Cons x xs)
  define s1 where "s1 = st\<lparr>nodes := without {a} (nodes st), bufs := without (own_bufs (nodes st) a) (bufs st)\<rparr>"
  have f: "kv_node_free st a = Some s1" unfolding s1_def by (rule kv_node_free_spec [OF Cons.prems(3)]) (use Cons.prems(4) in simp)
  have x: "x \<noteq> 0" using Cons.prems(3,4) unfolding freeable_def by auto
  have nx: "nxk (nodes st) 0 a = Some x" using Cons.prems(1) by simp
  have "path (nodes s1) 0 x xs \<longleftrightarrow> path (nodes st) 0 x xs"
    by (rule path_cong) (use Cons.prems(2) in \<open>auto simp: s1_def nxk_def without_def\<close>)
  moreover have "freeable (nodes s1) (bufs s1) (S - {a})"
    using freeable_without [OF Cons.prems(3), of "{a}"] Cons.prems(4) by (simp add: s1_def)
  ultimately have IH: "kv_free_loop s1 x = Some (s1\<lparr>nodes := without (set (x # xs)) (nodes s1),
      bufs := without (\<Union>y \<in> set (x # xs). own_bufs (nodes s1) y) (bufs s1)\<rparr>)"
    using Cons.prems by (intro Cons.IH) auto
  have "own_bufs (nodes s1) y = own_bufs (nodes st) y" if "y \<in> set (x # xs)" for y
    using that Cons.prems(2) own_bufs_without [of y "{a}" "nodes st"] by (auto simp: s1_def)
  then have "(\<Union>y \<in> set (x # xs). own_bufs (nodes s1) y) = (\<Union>y \<in> set (x # xs). own_bufs (nodes st) y)" by (rule SUP_cong [OF refl])
  with IH have "kv_free_loop s1 x = Some (st\<lparr>nodes := without ({a} \<union> set (x # xs)) (nodes st),
      bufs := without (own_bufs (nodes st) a \<union> (\<Union>y \<in> set (x # xs). own_bufs (nodes st) y)) (bufs st)\<rparr>)"
    by (simp only: s1_def kvcache.simps kvcache.select_convs kvcache.update_convs without_without) simp
  then show ?case using f nx x by (subst kv_free_loop.simps) (simp add: insert_commute)
qed

definition area_nodes :: "kvcache \<Rightarrow> addr list list \<Rightarrow> nat \<Rightarrow> addr set" where
  "area_nodes st nss j = set (area_head (ring st ! j) # nss ! j)"

lemma kvcache_free_from_spec:
  assumes "i \<le> MAX_AREA_SIZE" and "length (ring st) = MAX_AREA_SIZE"
    and "\<And>j. i \<le> j \<Longrightarrow> j < MAX_AREA_SIZE \<Longrightarrow>
      path (nodes st) 0 (area_head (ring st ! j)) (nss ! j) \<and> distinct (area_head (ring st ! j) # nss ! j)"
    and "\<And>j l. i \<le> j \<Longrightarrow> j < l \<Longrightarrow> l < MAX_AREA_SIZE \<Longrightarrow> area_nodes st nss j \<inter> area_nodes st nss l = {}"
    and "freeable (nodes st) (bufs st) (\<Union>j \<in> {i..<MAX_AREA_SIZE}. area_nodes st nss j)"
  defines "S \<equiv> (\<Union>j \<in> {i..<MAX_AREA_SIZE}. area_nodes st nss j)"
  shows "kvcache_free_from st i = Some (st\<lparr>nodes := without S (nodes st), bufs := without (\<Union>a \<in> S. own_bufs (nodes st) a) (bufs st)\<rparr>)"
  using assms(1-5) unfolding S_def
proof (induction "MAX_AREA_SIZE - i" arbitrary: i st)
  case 0
  then show ?case by (subst kvcache_free_from.simps) simp
next
  case (Suc d)
  then have i: "i < MAX_AREA_SIZE" by simp
  let ?A = "area_nodes st nss i" and ?R = "\<Union>j \<in> {Suc i..<MAX_AREA_SIZE}. area_nodes st nss j"
  have un: "(\<Union>j \<in> {i..<MAX_AREA_SIZE}. area_nodes st nss j) = ?A \<union> ?R"
  proof -
    have "{i..<MAX_AREA_SIZE} = insert i {Suc i..<MAX_AREA_SIZE}" using i by auto
    then show ?thesis by simp
  qed
  have "?A \<inter> area_nodes st nss j = {}" if "j \<in> {Suc i..<MAX_AREA_SIZE}" for j using Suc.prems(4) [of i j] that by simp
  then have dis: "?A \<inter> ?R = {}" by blast
  define s1 where "s1 = st\<lparr>nodes := without ?A (nodes st), bufs := without (\<Union>x \<in> ?A. own_bufs (nodes st) x) (bufs st)\<rparr>"
  have run: "kvcache_free_area st (Some i) = Some s1"
  proof -
    have "set (area_head (ring st ! i) # nss ! i) \<subseteq> ?A \<union> ?R" by (auto simp: area_nodes_def)
    with kv_free_loop_spec [of st "area_head (ring st ! i)" "nss ! i" "?A \<union> ?R"] Suc.prems(2,5) Suc.prems(3) [of i] i un
    show ?thesis by (simp add: kvcache_free_area_def aget_nat s1_def flip: area_nodes_def) (simp add: area_nodes_def)
  qed
  have an: "area_nodes s1 nss j = area_nodes st nss j" for j by (simp add: area_nodes_def s1_def)
  have IH: "kvcache_free_from s1 (Suc i) = Some (s1\<lparr>nodes := without (\<Union>j \<in> {Suc i..<MAX_AREA_SIZE}. area_nodes s1 nss j) (nodes s1),
      bufs := without (\<Union>a \<in> (\<Union>j \<in> {Suc i..<MAX_AREA_SIZE}. area_nodes s1 nss j). own_bufs (nodes s1) a) (bufs s1)\<rparr>)"
  proof (rule Suc.hyps(1))
    fix j assume j: "Suc i \<le> j" "j < MAX_AREA_SIZE"
    have "path (nodes s1) 0 (area_head (ring st ! j)) (nss ! j) \<longleftrightarrow> path (nodes st) 0 (area_head (ring st ! j)) (nss ! j)"
      using Suc.prems(4) [of i j] j by (intro path_cong) (auto simp: s1_def nxk_def without_def area_nodes_def)
    then show "path (nodes s1) 0 (area_head (ring s1 ! j)) (nss ! j) \<and> distinct (area_head (ring s1 ! j) # nss ! j)"
      using Suc.prems(3) [of j] j by (simp add: s1_def)
  next
    have "(?A \<union> ?R) - ?A = ?R" using dis by auto
    then show "freeable (nodes s1) (bufs s1) (\<Union>j \<in> {Suc i..<MAX_AREA_SIZE}. area_nodes s1 nss j)"
      unfolding an using freeable_without [of "nodes st" "bufs st" "?A \<union> ?R" ?A] Suc.prems(5) un by (simp add: s1_def)
  qed (use Suc.hyps(2) Suc.prems(2,4) i an in \<open>simp_all add: s1_def\<close>)
  have "own_bufs (nodes s1) a = own_bufs (nodes st) a" if "a \<in> ?R" for a
    using that dis own_bufs_without [of a ?A "nodes st"] by (auto simp: s1_def)
  then have "(\<Union>a \<in> ?R. own_bufs (nodes s1) a) = (\<Union>a \<in> ?R. own_bufs (nodes st) a)" by (rule SUP_cong [OF refl])
  with IH have "kvcache_free_from s1 (Suc i) = Some (st\<lparr>nodes := without (?A \<union> ?R) (nodes st),
      bufs := without ((\<Union>x \<in> ?A. own_bufs (nodes st) x) \<union> (\<Union>a \<in> ?R. own_bufs (nodes st) a)) (bufs st)\<rparr>)"
    by (simp only: an) (simp add: s1_def)
  then show ?case unfolding un UN_Un using run i by (subst kvcache_free_from.simps) simp
qed

section \<open>Properties\<close>

lemma kv_abs_set:
  assumes "kv_inv st nss" and "kv_hashes table k kl = Some K"
    and "nodes st p = None" and "p \<noteq> 0" and "rl \<le> 15" and "bufs st kp = None" and "bufs st vp = None"
    and "kp \<noteq> 0" and "vp \<noteq> 0" and "kp \<noteq> vp" and "kl \<le> length k" and "vl \<le> length v"
  shows "\<exists>st' nss'. kvcache_set table st rl p junk jb kp vp now k v kl vl tt = Some (st', 0) \<and> kv_inv st' nss'
    \<and> kv_abs st' nss' = (if kv_abs st nss K = None then (kv_abs st nss)(K \<mapsto> (take vl v, tt, now)) else kv_abs st nss)"
proof -
  obtain i prio a1 a2 where K: "K = (i, prio, a1, a2)" by (cases K)
  let ?nss = "nss[i := ins_at (nodes st) prio p (nss ! i)]"
  obtain st' where st': "kvcache_set table st rl p junk jb kp vp now k v kl vl tt = Some (st', 0)" "kv_inv st' ?nss"
    "\<And>K'. kv_abs st' ?nss K' = (if K' = K \<and> kv_abs st nss K' = None then Some (take vl v, tt, now) else kv_abs st nss K')"
    using kvcache_set_spec [OF assms(1) assms(2) [unfolded K] assms(3-12), of junk jb now tt] K by blast
  then have "kv_abs st' ?nss = (if kv_abs st nss K = None then (kv_abs st nss)(K \<mapsto> (take vl v, tt, now)) else kv_abs st nss)"
    by (auto simp: fun_eq_iff)
  with st' show ?thesis by blast
qed


text \<open>A cache after \<open>kvcache_init\<close>, started from the zeroed global ring.\<close>

definition kv_zero :: kvcache where
  "kv_zero = \<lparr>nodes = Map.empty, bufs = Map.empty, ring = replicate MAX_AREA_SIZE \<lparr>area_level = 0, area_head = 0\<rparr>\<rparr>"

lemma kv_start:
  "\<exists>st. kvcache_init kv_zero Suc junk = Some (st, 0) \<and> kv_inv st (replicate MAX_AREA_SIZE [])
    \<and> kv_abs st (replicate MAX_AREA_SIZE []) = Map.empty \<and> bufs st = Map.empty \<and> nodes st 40000 = None \<and> nodes st 40001 = None"
proof -
  have "\<exists>st. kvcache_init kv_zero Suc junk = Some (st, 0) \<and> bufs st = bufs kv_zero
      \<and> (\<forall>a. a \<notin> Suc ` {..<MAX_AREA_SIZE} \<longrightarrow> nodes st a = nodes kv_zero a)
      \<and> (\<forall>j < MAX_AREA_SIZE. area_head (ring st ! j) = Suc j \<and> nodes st (Suc j) = Some (head_node (junk j)))
      \<and> kv_inv st (replicate MAX_AREA_SIZE []) \<and> kv_abs st (replicate MAX_AREA_SIZE []) = Map.empty"
    by (rule kvcache_init_ok) (simp_all add: kv_zero_def)
  moreover have "40000 \<notin> Suc ` {..<MAX_AREA_SIZE}" "40001 \<notin> Suc ` {..<MAX_AREA_SIZE}" by (auto simp: MAX_AREA_SIZE_val)
  ultimately show ?thesis by (auto simp: kv_zero_def)
qed

abbreviation (input) "zero_table \<equiv> replicate 0x500 (0 :: u64)"
abbreviation (input) "zero_body \<equiv> \<lparr>key = 0, val = 0, klen = 0, vlen = 0, ntype = 0, ttl = 0, tms = 0\<rparr>"

abbreviation (input) "zero_node \<equiv> \<lparr>priority = 0, ack_hash_1 = 0, ack_hash_2 = 0, elem = [], body = zero_body\<rparr>"

lemma ascii_key_a: "ascii_key zero_table [97] 1"
  by (simp add: ascii_key_def)


text \<open>
  Setting a key that is present does not change its value: \<open>__kvcache_set\<close> never finds the old node, a second
  node is inserted behind it, and until the old entry expires \<open>kvcache_get\<close> keeps returning the old value.
\<close>

theorem kvcache_set_keeps_old:
  assumes "kv_inv st nss" and "ascii_key table k kl" and "kv_hashes table k kl = Some K"
    and "kv_abs st nss K = Some (old, t, m)" and "- (2 ^ 63) \<le> m + t" and "m + t < 2 ^ 63" and "later \<le> m + t"
    and "nodes st p = None" and "p \<noteq> 0" and "rl \<le> 15" and "bufs st kp = None" and "bufs st vp = None"
    and "kp \<noteq> 0" and "vp \<noteq> 0" and "kp \<noteq> vp" and "vl \<le> length v"
  shows "\<exists>st' a. kvcache_set table st rl p junk jb kp vp now k v kl vl tt = Some (st', 0)
    \<and> kvcache_get table st' later k kl = Some a \<and> bufs st' a = Some old"
proof -
  have kl: "kl \<le> length k" using assms(2) by (simp add: ascii_key_def)
  obtain st' nss' where st': "kvcache_set table st rl p junk jb kp vp now k v kl vl tt = Some (st', 0)" "kv_inv st' nss'"
    "kv_abs st' nss' = kv_abs st nss"
    using kv_abs_set [OF assms(1,3,8-15) kl assms(16), of junk jb now tt] assms(4) by auto
  have "kv_abs st' nss' K = Some (old, t, m)" using st'(3) assms(4) by simp
  from kvcache_get_spec(2) [OF st'(2) assms(3) this assms(5,6), of later] assms(7) st'(1) show ?thesis
    by (auto simp: not_less [symmetric])
qed

theorem kvcache_set_keeps_old_witness:
  "\<exists>st st1 st2 a. kvcache_init kv_zero Suc (\<lambda>_. zero_node) = Some (st, 0)
    \<and> kvcache_set zero_table st 0 40000 (\<lambda>_. 0) zero_body 1 2 5 [97] [98, 99] 1 2 60 = Some (st1, 0)
    \<and> kvcache_set zero_table st1 0 40001 (\<lambda>_. 0) zero_body 3 4 6 [97] [100] 1 1 60 = Some (st2, 0)
    \<and> kvcache_get zero_table st2 7 [97] 1 = Some a \<and> bufs st2 a = Some [98, 99]"
proof -
  obtain st where st: "kvcache_init kv_zero Suc (\<lambda>_. zero_node) = Some (st, 0)" "kv_inv st (replicate MAX_AREA_SIZE [])"
    "kv_abs st (replicate MAX_AREA_SIZE []) = Map.empty" "bufs st = Map.empty" "nodes st 40000 = None" "nodes st 40001 = None"
    using kv_start by blast
  obtain i prio a1 a2 where K: "kv_hashes zero_table [97] 1 = Some (i, prio, a1, a2)" by (rule kv_hashes_ex [OF ascii_key_a])
  let ?nss = "(replicate MAX_AREA_SIZE [])[i := ins_at (nodes st) prio 40000 (replicate MAX_AREA_SIZE [] ! i)]"
  obtain st1 where st1: "kvcache_set zero_table st 0 40000 (\<lambda>_. 0) zero_body 1 2 5 [97] [98, 99] 1 2 60 = Some (st1, 0)"
    "kv_inv st1 ?nss" "kv_abs st1 ?nss (i, prio, a1, a2) = Some ([98, 99], 60, 5)"
    "\<And>a. a \<notin> {1, 2} \<Longrightarrow> bufs st1 a = bufs st a" "nodes st1 40001 = None"
    using kvcache_set_spec [OF st(2) K st(5), of 0 1 2 2 "[98, 99]" "\<lambda>_. 0" zero_body 5 60] st(3,4,6) by auto
  from kvcache_set_keeps_old [OF st1(2) ascii_key_a K st1(3), of 7 40001 0 3 4 1 "[100]" "\<lambda>_. 0" zero_body 6 60]
    st st1(1,4,5) show ?thesis by auto
qed

text \<open>
  \<open>kvcache_init\<close> with every allocation succeeding answers \<open>0\<close> and leaves an empty well-formed cache; when the
  allocation of an area fails it answers \<open>-1\<close>.
\<close>

theorem kvcache_init_correct:
  assumes "length (ring st) = MAX_AREA_SIZE" and "nodes st 0 = None" and "bufs st 0 = None" and "m \<le> MAX_AREA_SIZE"
    and "\<And>j. j < m \<Longrightarrow> alloc j \<noteq> 0 \<and> nodes st (alloc j) = None" and "inj_on alloc {..<m}"
  shows "(m = MAX_AREA_SIZE \<longrightarrow> (\<exists>st'. kvcache_init st alloc junk = Some (st', 0)
      \<and> kv_inv st' (replicate MAX_AREA_SIZE []) \<and> kv_abs st' (replicate MAX_AREA_SIZE []) = Map.empty))
    \<and> (m < MAX_AREA_SIZE \<and> alloc m = 0 \<longrightarrow> (\<exists>st'. kvcache_init st alloc junk = Some (st', - 1)))"
proof (intro conjI impI)
  assume "m = MAX_AREA_SIZE"
  then show "\<exists>st'. kvcache_init st alloc junk = Some (st', 0) \<and> kv_inv st' (replicate MAX_AREA_SIZE [])
      \<and> kv_abs st' (replicate MAX_AREA_SIZE []) = Map.empty"
    using kvcache_init_ok [of st alloc junk] assms by blast
next
  assume "m < MAX_AREA_SIZE \<and> alloc m = 0"
  moreover have "{0..<m} = {..<m}" by auto
  ultimately show "\<exists>st'. kvcache_init st alloc junk = Some (st', - 1)"
    using init_loop_fails [of m alloc 0 st junk] assms by (simp add: kvcache_init_def)
qed

theorem kvcache_init_correct_witness:
  "(\<exists>st'. kvcache_init kv_zero Suc (\<lambda>_. zero_node) = Some (st', 0) \<and> kv_abs st' (replicate MAX_AREA_SIZE []) = Map.empty)
   \<and> (\<exists>st'. kvcache_init kv_zero (\<lambda>j. if j < 2 then Suc j else 0) (\<lambda>_. zero_node) = Some (st', - 1))"
proof
  show "\<exists>st'. kvcache_init kv_zero Suc (\<lambda>_. zero_node) = Some (st', 0) \<and> kv_abs st' (replicate MAX_AREA_SIZE []) = Map.empty"
    using kvcache_init_correct [of kv_zero MAX_AREA_SIZE Suc "\<lambda>_. zero_node"] by (auto simp: kv_zero_def)
  show "\<exists>st'. kvcache_init kv_zero (\<lambda>j. if j < 2 then Suc j else 0) (\<lambda>_. zero_node) = Some (st', - 1)"
    using kvcache_init_correct [of kv_zero 2 "\<lambda>j. if j < 2 then Suc j else 0" "\<lambda>_. zero_node"]
    by (simp add: kv_zero_def MAX_AREA_SIZE_val inj_on_def)
qed

lemma kv_inv_freeable:
  assumes inv: "kv_inv st nss"
    and heads: "\<And>j. j < MAX_AREA_SIZE \<Longrightarrow> own_bufs (nodes st) (area_head (ring st ! j)) = {}"
  shows "freeable (nodes st) (bufs st) (\<Union>j \<in> {0..<MAX_AREA_SIZE}. area_nodes st nss j)"
proof -
  note l = kv_invD(1) [OF inv] and own = kv_invD(2) [OF inv]
  let ?S = "\<Union>j \<in> {0..<MAX_AREA_SIZE}. area_nodes st nss j"
  have cases': "own_bufs (nodes st) a = {} \<or> a \<in> kv_live nss" if "a \<in> ?S" for a
    using that heads kv_live_nth [of _ nss a] kv_listsD(5) [OF l] by (auto simp: area_nodes_def)
  have "a \<noteq> 0 \<and> nodes st a \<noteq> None" if aS: "a \<in> ?S" for a
  proof -
    obtain j where j: "j < MAX_AREA_SIZE" "a \<in> set (area_head (ring st ! j) # nss ! j)" using aS by (auto simp: area_nodes_def)
    then show ?thesis using kv_lists_node [OF l j] sl_okD(2) [OF kv_listsD(2) [OF l j(1)]] by metis
  qed
  moreover have "(\<forall>q \<in> own_bufs (nodes st) a. bufs st q \<noteq> None)
      \<and> (key (bd (nodes st) a) = val (bd (nodes st) a) \<longrightarrow> key (bd (nodes st) a) = 0)" if "a \<in> ?S" for a
    using cases' [OF that] kv_ownedD(1-3) [OF own, of a] by (auto simp: own_bufs_def)
  moreover have "own_bufs (nodes st) a \<inter> own_bufs (nodes st) c = {}" if "a \<in> ?S" "c \<in> ?S" "a \<noteq> c" for a c
    using cases' [OF that(1)] cases' [OF that(2)] kv_ownedD(7) [OF own, of a c] that(3) by (auto simp: own_bufs_def)
  ultimately show ?thesis unfolding freeable_def by blast
qed

lemma kv_free_wild:
  assumes "key (bd (nodes st) a) \<noteq> 0" and "bufs st (key (bd (nodes st) a)) = None"
  shows "kv_free_loop st a = None"
proof -
  have "kv_node_free st a = None"
    using assms by (cases "nodes st a") (simp_all add: kv_node_free_def bd_def heap_free_def)
  then show ?thesis by (subst kv_free_loop.simps) (cases "nxk (nodes st) 0 a"; simp)
qed

text \<open>
  \<open>kvcache_free\<close> depends on fields \<open>kvcache_init\<close> never assigns.  When the key and value of every list head
  happen to be \<open>NULL\<close> it releases every node and every buffer of the cache and nothing else; when the key of the
  first head is any other value that is not an allocated buffer, the call frees a wild pointer.
\<close>

theorem kvcache_free_correct:
  assumes inv: "kv_inv st nss"
  shows "((\<forall>j < MAX_AREA_SIZE. own_bufs (nodes st) (area_head (ring st ! j)) = {}) \<longrightarrow>
      (let S = (\<Union>j \<in> {0..<MAX_AREA_SIZE}. area_nodes st nss j) in
        kvcache_free st = Some (st\<lparr>nodes := without S (nodes st), bufs := without (\<Union>a \<in> S. own_bufs (nodes st) a) (bufs st)\<rparr>)))
    \<and> (key (bd (nodes st) (area_head (ring st ! 0))) \<noteq> 0 \<and> bufs st (key (bd (nodes st) (area_head (ring st ! 0)))) = None \<longrightarrow>
        kvcache_free st = None)"
proof (intro conjI impI)
  note l = kv_invD(1) [OF inv]
  assume h: "\<forall>j < MAX_AREA_SIZE. own_bufs (nodes st) (area_head (ring st ! j)) = {}"
  have "kvcache_free_from st 0 = Some (st\<lparr>nodes := without (\<Union>j \<in> {0..<MAX_AREA_SIZE}. area_nodes st nss j) (nodes st),
      bufs := without (\<Union>a \<in> (\<Union>j \<in> {0..<MAX_AREA_SIZE}. area_nodes st nss j). own_bufs (nodes st) a) (bufs st)\<rparr>)"
  proof (rule kvcache_free_from_spec)
    fix j assume "j < MAX_AREA_SIZE"
    note ok = kv_listsD(2) [OF l this]
    show "path (nodes st) 0 (area_head (ring st ! j)) (nss ! j) \<and> distinct (area_head (ring st ! j) # nss ! j)"
      using sl_okD(7) [OF ok, of 0] chain_zero [OF ok] sl_okD(1) [OF ok] by simp
  next
    fix j k assume "j < k" "k < MAX_AREA_SIZE"
    then show "area_nodes st nss j \<inter> area_nodes st nss k = {}" using kv_listsD(3) [OF l, of j k] by (simp add: area_nodes_def)
  next
    show "freeable (nodes st) (bufs st) (\<Union>j \<in> {0..<MAX_AREA_SIZE}. area_nodes st nss j)"
      by (rule kv_inv_freeable [OF inv]) (use h in blast)
  qed (use l in \<open>simp_all add: kv_lists_def\<close>)
  then show "let S = (\<Union>j \<in> {0..<MAX_AREA_SIZE}. area_nodes st nss j) in
      kvcache_free st = Some (st\<lparr>nodes := without S (nodes st), bufs := without (\<Union>a \<in> S. own_bufs (nodes st) a) (bufs st)\<rparr>)"
    unfolding kvcache_free_def Let_def .
next
  have p: "0 < MAX_AREA_SIZE" by (simp add: MAX_AREA_SIZE_val)
  note l = kv_invD(1) [OF inv]
  let ?a = "area_head (ring st ! 0)"
  assume "key (bd (nodes st) ?a) \<noteq> 0 \<and> bufs st (key (bd (nodes st) ?a)) = None"
  then have "kv_free_loop st ?a = None" using kv_free_wild by blast
  then have "kvcache_free_area st (Some 0) = None" using kv_listsD(1) [OF l p] by (simp add: kvcache_free_area_def)
  then show "kvcache_free st = None" unfolding kvcache_free_def using p by (subst kvcache_free_from.simps) simp
qed

lemma kv_start_heads:
  "\<exists>st. kvcache_init kv_zero Suc junk = Some (st, 0) \<and> kv_inv st (replicate MAX_AREA_SIZE []) \<and> bufs st = Map.empty
    \<and> (\<forall>j < MAX_AREA_SIZE. bd (nodes st) (area_head (ring st ! j)) = body (junk j))"
proof -
  have "\<exists>st. kvcache_init kv_zero Suc junk = Some (st, 0) \<and> bufs st = bufs kv_zero
      \<and> (\<forall>a. a \<notin> Suc ` {..<MAX_AREA_SIZE} \<longrightarrow> nodes st a = nodes kv_zero a)
      \<and> (\<forall>j < MAX_AREA_SIZE. area_head (ring st ! j) = Suc j \<and> nodes st (Suc j) = Some (head_node (junk j)))
      \<and> kv_inv st (replicate MAX_AREA_SIZE []) \<and> kv_abs st (replicate MAX_AREA_SIZE []) = Map.empty"
    by (rule kvcache_init_ok) (simp_all add: kv_zero_def)
  then show ?thesis by (auto simp: kv_zero_def bd_def head_node_def)
qed

theorem kvcache_free_correct_witness:
  "(\<exists>st st'. kvcache_init kv_zero Suc (\<lambda>_. \<lparr>priority = 0, ack_hash_1 = 0, ack_hash_2 = 0, elem = [], body = zero_body\<rparr>) = Some (st, 0)
      \<and> kvcache_free st = Some st')
   \<and> (\<exists>st. kvcache_init kv_zero Suc (\<lambda>_. \<lparr>priority = 0, ack_hash_1 = 0, ack_hash_2 = 0, elem = [],
        body = zero_body\<lparr>key := 17\<rparr>\<rparr>) = Some (st, 0) \<and> kvcache_free st = None)"
proof -
  let ?j = "\<lambda>b. (\<lambda>_ :: nat. \<lparr>priority = 0, ack_hash_1 = 0, ack_hash_2 = 0, elem = [], body = b :: kv_body\<rparr>)"
  obtain st where st: "kvcache_init kv_zero Suc (?j zero_body) = Some (st, 0)" "kv_inv st (replicate MAX_AREA_SIZE [])"
    "\<forall>j < MAX_AREA_SIZE. bd (nodes st) (area_head (ring st ! j)) = zero_body"
    using kv_start_heads [of "?j zero_body"] by auto
  obtain s where s: "kvcache_init kv_zero Suc (?j (zero_body\<lparr>key := 17\<rparr>)) = Some (s, 0)" "kv_inv s (replicate MAX_AREA_SIZE [])"
    "bufs s = Map.empty" "\<forall>j < MAX_AREA_SIZE. bd (nodes s) (area_head (ring s ! j)) = zero_body\<lparr>key := 17\<rparr>"
    using kv_start_heads [of "?j (zero_body\<lparr>key := 17\<rparr>)"] by auto
  have "bd (nodes s) (area_head (ring s ! 0)) = zero_body\<lparr>key := 17\<rparr>" using s(4) by (simp add: MAX_AREA_SIZE_val)
  then have "kvcache_free s = None" using kvcache_free_correct [OF s(2)] s(3) by simp
  moreover have "\<exists>st'. kvcache_free st = Some st'"
    using kvcache_free_correct [OF st(2)] st(3) by (simp add: own_bufs_def Let_def)
  ultimately show ?thesis using st(1) s(1) by blast
qed

text \<open>
  \<open>kvcache_ttl\<close> answers the age of an entry (and \<open>-1\<close> when it was set in this second), not the time it has left,
  and \<open>0\<close> for an absent key; \<open>kvcache_expire\<close> of an absent key answers \<open>0\<close>, the same as success.
\<close>

theorem kvcache_ttl_is_age:
  assumes "kv_inv st nss" and "kv_hashes table k kl = Some K"
  shows "(\<forall>v t m. kv_abs st nss K = Some (v, t, m) \<and> \<bar>now - m\<bar> < 2 ^ 31 \<longrightarrow>
      kvcache_ttl table st now k kl = Some (if now > m then now - m else - 1))
    \<and> (kv_abs st nss K = None \<longrightarrow> kvcache_ttl table st now k kl = Some 0 \<and> kvcache_expire table st now k kl tt = Some (st, 0))"
  using kvcache_ttl_spec [OF assms] kvcache_expire_spec(1) [OF assms] by blast

theorem kvcache_ttl_is_age_witness:
  "\<exists>st. kvcache_init kv_zero Suc (\<lambda>_. zero_node) = Some (st, 0) \<and> kvcache_ttl zero_table st 9 [97] 1 = Some 0
    \<and> kvcache_expire zero_table st 9 [97] 1 60 = Some (st, 0)"
proof -
  obtain st where st: "kvcache_init kv_zero Suc (\<lambda>_. zero_node) = Some (st, 0)" "kv_inv st (replicate MAX_AREA_SIZE [])"
    "kv_abs st (replicate MAX_AREA_SIZE []) = Map.empty" using kv_start by blast
  obtain i prio a1 a2 where K: "kv_hashes zero_table [97] 1 = Some (i, prio, a1, a2)" by (rule kv_hashes_ex [OF ascii_key_a])
  from kvcache_ttl_is_age [OF st(2) K, of 9 60] st(1,3) show ?thesis by auto
qed

end
