(* ===== verification/Practice.thy ===== *)
theory Practice
  imports CHeap "HOL-Library.Tree"
begin

text \<open>
  The exercises under \<open>practice/\<close>: a hexadecimal reader (\<open>ary.c\<close>), a bit rewriting (\<open>bit_opt.c\<close>), a singly linked
  list with its reversal (\<open>slist_reverse.c\<close>) and a binary search tree (\<open>binary_tree.c\<close>).  Printing loops
  return the list of what they print.  Signed arithmetic that overflows faults; shifting a signed value into or
  past the sign bit in \<open>bit_opt.c\<close> keeps the low 32 bits, as the compilers this code is written for do.
\<close>

section \<open>Definitions: ary.c and bit\_opt.c\<close>

text \<open>\<open>v << k\<close> and \<open>a + b\<close> on \<open>int\<close>.\<close>

definition int_shl :: "int \<Rightarrow> int \<Rightarrow> int option" where
  "int_shl v k = (if 0 \<le> k \<and> k < 32 \<and> 0 \<le> v \<and> v * 2 ^ nat k < 2 ^ 31 then Some (v * 2 ^ nat k) else None)"

definition int_add :: "int \<Rightarrow> int \<Rightarrow> int option" where
  "int_add a b = (if - (2 ^ 31) \<le> a + b \<and> a + b < 2 ^ 31 then Some (a + b) else None)"

definition hex_digit :: "int \<Rightarrow> int option" where
  "hex_digit chr =
     (if chr \<le> 57 \<and> chr \<ge> 48 then Some (chr - 48)
      else if chr \<le> 70 \<and> chr \<ge> 65 then Some (10 + chr - 65)
      else if chr \<le> 102 \<and> chr \<ge> 97 then Some (10 + chr - 97)
      else None)"

function ary_loop :: "byte list \<Rightarrow> int \<Rightarrow> int \<Rightarrow> int \<Rightarrow> (int \<times> int) option" where
  "ary_loop str len i ret =
     (if i < len then do {
        c \<leftarrow> aget str i;
        let chr = sint c;
        if chr = 0 then Some (0, ret)
        else case hex_digit chr of
          None \<Rightarrow> Some (- 1, ret)
        | Some d \<Rightarrow> do {
            t \<leftarrow> int_shl d (4 * (len - i - 1));
            ret \<leftarrow> int_add ret t;
            ary_loop str len (i + 1) ret
          }
      } else Some (0, ret))"
  by pat_completeness auto
termination by (relation "measure (\<lambda>(s, n, i, r). nat (n - i))") auto

definition ary_change :: "byte list \<Rightarrow> int \<Rightarrow> (int \<times> int) option" where
  "ary_change str len = ary_loop str len 0 0"

function bit_opt_loop :: "u32 \<Rightarrow> nat \<Rightarrow> u32" where
  "bit_opt_loop input i =
     (if i < 32 then
        if input AND push_bit i 7 = push_bit i 1
        then bit_opt_loop (input OR push_bit i 3) (i + 3)
        else bit_opt_loop input (i + 1)
      else input)"
  by pat_completeness auto
termination by (relation "measure (\<lambda>(x, i). 32 - i)") auto

definition bit_opt :: "u32 \<Rightarrow> u32" where
  "bit_opt input = bit_opt_loop input 0"

declare ary_loop.simps [simp del] bit_opt_loop.simps [simp del]

section \<open>Definitions: slist\_reverse.c\<close>

record slist =
  nxt :: addr
  sdata :: int

text \<open>The list head is the value of \<open>head->next\<close>; \<open>None\<close> is a \<open>NULL\<close> head.\<close>

partial_function (option) reverse_loop :: "slist heap \<Rightarrow> addr \<Rightarrow> addr \<Rightarrow> (slist heap \<times> addr) option" where
  "reverse_loop h head fetch = do {
     f \<leftarrow> h fetch;
     if nxt f \<noteq> 0 then do {
       let node = nxt f;
       n \<leftarrow> h node;
       h \<leftarrow> heap_set (\<lambda>f. f\<lparr>nxt := nxt n\<rparr>) h fetch;
       h \<leftarrow> heap_set (\<lambda>n. n\<lparr>nxt := head\<rparr>) h node;
       reverse_loop h node fetch
     } else Some (h, head)
   }"

definition slist_reverse :: "slist heap \<Rightarrow> addr option \<Rightarrow> (slist heap \<times> addr option) option" where
  "slist_reverse h head = (case head of None \<Rightarrow> Some (h, None) | Some p \<Rightarrow>
     if p = 0 then Some (h, Some p)
     else do { (h, p) \<leftarrow> reverse_loop h p p; Some (h, Some p) })"

definition slist_insert :: "slist heap \<Rightarrow> addr option \<Rightarrow> addr \<Rightarrow> int \<Rightarrow> (slist heap \<times> addr option) option" where
  "slist_insert h head new_node d = (case head of None \<Rightarrow> Some (h, None) | Some p \<Rightarrow> do {
     h \<leftarrow> heap_alloc h new_node \<lparr>nxt = p, sdata = d\<rparr>;
     Some (h, Some new_node)
   })"

partial_function (option) slist_free_loop :: "slist heap \<Rightarrow> addr \<Rightarrow> slist heap option" where
  "slist_free_loop h fetch =
     (if fetch \<noteq> 0 then do { n \<leftarrow> h fetch; h \<leftarrow> heap_free h fetch; slist_free_loop h (nxt n) } else Some h)"

definition slist_free :: "slist heap \<Rightarrow> addr option \<Rightarrow> slist heap option" where
  "slist_free h head = (case head of None \<Rightarrow> Some h | Some p \<Rightarrow> slist_free_loop h p)"

partial_function (option) slist_print_loop :: "slist heap \<Rightarrow> addr \<Rightarrow> int list option" where
  "slist_print_loop h fetch =
     (if fetch \<noteq> 0 then do { n \<leftarrow> h fetch; out \<leftarrow> slist_print_loop h (nxt n); Some (sdata n # out) } else Some [])"

definition slist_foreach :: "slist heap \<Rightarrow> addr option \<Rightarrow> int list option" where
  "slist_foreach h head = (case head of None \<Rightarrow> Some [] | Some p \<Rightarrow> slist_print_loop h p)"

section \<open>Definitions: binary\_tree.c\<close>

record btree =
  bleft :: addr
  bright :: addr
  bdata :: int

definition new_node :: "btree heap \<Rightarrow> addr \<Rightarrow> int \<Rightarrow> btree heap option" where
  "new_node h p i = heap_alloc h p \<lparr>bleft = 0, bright = 0, bdata = i\<rparr>"

partial_function (option) btree_insert_loop :: "btree heap \<Rightarrow> addr \<Rightarrow> addr \<Rightarrow> int \<Rightarrow> btree heap option" where
  "btree_insert_loop h head p d = do {
     n \<leftarrow> h head;
     if d \<le> bdata n then
       if bleft n = 0 then do { h \<leftarrow> new_node h p d; heap_set (\<lambda>n. n\<lparr>bleft := p\<rparr>) h head }
       else btree_insert_loop h (bleft n) p d
     else
       if bright n = 0 then do { h \<leftarrow> new_node h p d; heap_set (\<lambda>n. n\<lparr>bright := p\<rparr>) h head }
       else btree_insert_loop h (bright n) p d
   }"

definition btree_insert :: "btree heap \<Rightarrow> addr \<Rightarrow> addr \<Rightarrow> int \<Rightarrow> btree heap option" where
  "btree_insert h head p d =
     (if head = 0 then Some h
      else do {
        n \<leftarrow> h head;
        if bdata n = - 1 then heap_set (\<lambda>n. n\<lparr>bdata := d\<rparr>) h head
        else btree_insert_loop h head p d
      })"

partial_function (option) btree_free :: "btree heap \<Rightarrow> addr \<Rightarrow> btree heap option" where
  "btree_free h head =
     (if head \<noteq> 0 then do {
        n \<leftarrow> h head;
        h \<leftarrow> btree_free h (bleft n);
        n \<leftarrow> h head;
        h \<leftarrow> btree_free h (bright n);
        heap_free h head
      } else Some h)"

partial_function (option) btree_foreach_preorder :: "btree heap \<Rightarrow> addr \<Rightarrow> int list option" where
  "btree_foreach_preorder h head =
     (if head \<noteq> 0 then do {
        n \<leftarrow> h head;
        a \<leftarrow> btree_foreach_preorder h (bleft n);
        b \<leftarrow> btree_foreach_preorder h (bright n);
        Some (a @ bdata n # b)
      } else Some [])"

partial_function (option) btree_foreach_midorder :: "btree heap \<Rightarrow> addr \<Rightarrow> int list option" where
  "btree_foreach_midorder h head =
     (if head \<noteq> 0 then do {
        n \<leftarrow> h head;
        a \<leftarrow> btree_foreach_midorder h (bleft n);
        b \<leftarrow> btree_foreach_midorder h (bright n);
        Some (bdata n # a @ b)
      } else Some [])"

partial_function (option) btree_foreach_postorder :: "btree heap \<Rightarrow> addr \<Rightarrow> int list option" where
  "btree_foreach_postorder h head =
     (if head \<noteq> 0 then do {
        n \<leftarrow> h head;
        a \<leftarrow> btree_foreach_postorder h (bleft n);
        b \<leftarrow> btree_foreach_postorder h (bright n);
        Some (a @ b @ [bdata n])
      } else Some [])"

section \<open>Reading a hexadecimal number\<close>

fun hexval :: "int list \<Rightarrow> int" where
  "hexval [] = 0"
| "hexval (d # ds) = d * 16 ^ length ds + hexval ds"

lemma hex_digit_range: "hex_digit c = Some d \<Longrightarrow> 0 \<le> d \<and> d < 16 \<and> c \<noteq> 0"
  by (auto simp: hex_digit_def split: if_splits)

lemma hexval_nonneg: "(\<And>d. d \<in> set ds \<Longrightarrow> 0 \<le> d) \<Longrightarrow> 0 \<le> hexval ds"
  by (induction ds) auto

lemma ary_loop_digits:
  assumes "map (\<lambda>c. hex_digit (sint c)) (take (length ds) (drop i str)) = map Some ds" and "n \<le> length str" and "n \<le> 8"
    and "i + length ds \<le> n" and "0 \<le> ret" and "ret + hexval ds * 16 ^ (n - i - length ds) < 2 ^ 31"
  shows "ary_loop str (int n) (int i) ret =
    ary_loop str (int n) (int (i + length ds)) (ret + hexval ds * 16 ^ (n - i - length ds))"
  using assms
proof (induction ds arbitrary: i ret)
  case (Cons d ds)
  have i: "i < n" "i < length str" using Cons.prems(2,4) by simp_all
  then have dr: "drop i str = str ! i # drop (Suc i) str" by (simp add: Cons_nth_drop_Suc)
  have hd: "hex_digit (sint (str ! i)) = Some d" and tl: "map (\<lambda>c. hex_digit (sint c)) (take (length ds) (drop (Suc i) str)) = map Some ds"
    using Cons.prems(1) by (simp_all add: dr)
  let ?e = "n - i - 1"
  have "set ds \<subseteq> {d. 0 \<le> d}"
  proof
    fix x assume "x \<in> set ds"
    then have "Some x \<in> set (map (\<lambda>c. hex_digit (sint c)) (take (length ds) (drop (Suc i) str)))" using tl by simp
    then show "x \<in> {d. 0 \<le> d}" using hex_digit_range by fastforce
  qed
  then have nn: "0 \<le> hexval ds" using hexval_nonneg by blast
  have d0: "0 \<le> d" "sint (str ! i) \<noteq> 0" using hex_digit_range [OF hd] by simp_all
  have ex: "?e = length ds + (n - i - Suc (length ds))" using Cons.prems(4) by simp
  have split: "hexval (d # ds) * 16 ^ (n - i - length (d # ds)) = d * 16 ^ ?e + hexval ds * 16 ^ (n - Suc i - length ds)"
    unfolding ex by (simp add: algebra_simps power_add)
  have pos: "0 \<le> hexval ds * 16 ^ (n - Suc i - length ds)" "0 \<le> d * 16 ^ ?e" using nn d0 by simp_all
  have small: "ret + d * 16 ^ ?e < 2 ^ 31" using Cons.prems(6) split pos by linarith
  have p16: "(2 :: int) ^ nat (4 * (int n - int i - 1)) = 16 ^ ?e"
  proof -
    have "nat (4 * (int n - int i - 1)) = 4 * ?e" using i by simp
    then show ?thesis by (simp add: power_mult)
  qed
  have "4 * (int n - int i - 1) < 32" "0 \<le> 4 * (int n - int i - 1)" using Cons.prems(3) i by simp_all
  then have "int_shl d (4 * (int n - int i - 1)) = Some (d * 16 ^ ?e)"
    unfolding int_shl_def p16 using d0(1) small Cons.prems(5) by simp
  moreover have "int_add ret (d * 16 ^ ?e) = Some (ret + d * 16 ^ ?e)"
    using small pos Cons.prems(5) by (simp add: int_add_def)
  ultimately have "ary_loop str (int n) (int i) ret = ary_loop str (int n) (int (Suc i)) (ret + d * 16 ^ ?e)"
    using i d0 hd by (subst ary_loop.simps) (simp add: aget_nat Let_def add.commute)
  moreover have "ary_loop str (int n) (int (Suc i)) (ret + d * 16 ^ ?e) =
      ary_loop str (int n) (int (Suc i + length ds)) (ret + d * 16 ^ ?e + hexval ds * 16 ^ (n - Suc i - length ds))"
    by (rule Cons.IH [OF tl Cons.prems(2,3)]) (use Cons.prems(4-6) split pos in auto)
  ultimately show ?case using split by (simp add: add.assoc)
qed simp

section \<open>Rewriting 001 to 011\<close>

lemma bit_7_at: "bit (push_bit i 7 :: u32) n \<longleftrightarrow> n < 32 \<and> i \<le> n \<and> n < i + 3"
  and bit_3_at: "bit (push_bit i 3 :: u32) n \<longleftrightarrow> n < 32 \<and> (n = i \<or> n = Suc i)"
  and bit_1_at: "bit (push_bit i 1 :: u32) n \<longleftrightarrow> n < 32 \<and> n = i"
proof -
  have m: "(mask 3 :: u32) = 7" "(mask 2 :: u32) = 3" "(mask 1 :: u32) = 1" by (simp_all add: mask_eq_exp_minus_1)
  have "bit (push_bit i (mask k) :: u32) n \<longleftrightarrow> n < 32 \<and> i \<le> n \<and> n < i + k" for k
    by (auto simp: bit_push_bit_iff bit_mask_iff)
  from this [of 3] this [of 2] this [of 1]
  show "bit (push_bit i 7 :: u32) n \<longleftrightarrow> n < 32 \<and> i \<le> n \<and> n < i + 3"
    "bit (push_bit i 3 :: u32) n \<longleftrightarrow> n < 32 \<and> (n = i \<or> n = Suc i)"
    "bit (push_bit i 1 :: u32) n \<longleftrightarrow> n < 32 \<and> n = i" unfolding m by auto
qed

lemma bit_or_3: "bit (input OR push_bit i 3) n \<longleftrightarrow> bit input n \<or> (n < 32 \<and> (n = i \<or> n = Suc i))" for input :: u32
  by (simp only: bit_or_iff bit_3_at)

lemma match_iff:
  fixes input :: u32
  assumes "i < 32"
  shows "input AND push_bit i 7 = push_bit i 1 \<longleftrightarrow> bit input i \<and> \<not> bit input (Suc i) \<and> \<not> bit input (i + 2)"
proof -
  have eq: "v = w \<longleftrightarrow> (\<forall>n < 32. bit v n \<longleftrightarrow> bit w n)" for v w :: u32
    using bit_word_eqI [of v w] by auto
  have "input AND push_bit i 7 = push_bit i 1 \<longleftrightarrow>
      (\<forall>n < 32. (bit input n \<and> i \<le> n \<and> n < i + 3) \<longleftrightarrow> n = i)"
    unfolding eq bit_and_iff bit_7_at bit_1_at by auto
  also have "\<dots> \<longleftrightarrow> bit input i \<and> \<not> bit input (Suc i) \<and> \<not> bit input (i + 2)" (is "?L \<longleftrightarrow> ?R")
  proof
    assume L: ?L
    have "\<not> bit input k" if "i < k" "k < i + 3" for k
      using L that bit_imp_le_length [of input k] by fastforce
    with L assms show ?R by auto
  next
    assume R: ?R
    have "n = i" if "bit input n" "i \<le> n" "n < i + 3" for n
    proof -
      have "n = i \<or> n = Suc i \<or> n = i + 2" using that by linarith
      with R that show ?thesis by auto
    qed
    with R show ?L by auto
  qed
  finally show ?thesis .
qed

definition filled :: "u32 \<Rightarrow> u32" where
  "filled x = x OR (push_bit 1 x AND NOT (drop_bit 1 x))"

lemma bit_filled: "bit (filled x) n \<longleftrightarrow> bit x n \<or> (n < 32 \<and> 0 < n \<and> bit x (n - 1) \<and> \<not> bit x (Suc n))"
proof -
  have "bit (push_bit 1 x) n \<longleftrightarrow> n < 32 \<and> 0 < n \<and> bit x (n - 1)" unfolding bit_push_bit_iff by auto
  then show ?thesis unfolding filled_def bit_or_iff bit_and_iff bit_not_iff by (auto simp: bit_drop_bit_eq)
qed

lemma bit_opt_loop_filled:
  assumes "\<And>n. n \<le> i \<Longrightarrow> bit c n \<longleftrightarrow> bit (filled x) n" and "\<And>n. i \<le> n \<Longrightarrow> bit c n \<longleftrightarrow> bit x n"
  shows "bit_opt_loop c i = filled x"
  using assms
proof (induction c i rule: bit_opt_loop.induct)
  case (1 c i)
  show ?case
  proof (cases "i < 32")
    case False
    have "bit c n \<longleftrightarrow> bit (filled x) n" for n
      using 1(3) [of n] 1(4) [of n] False bit_imp_le_length [of c n] bit_imp_le_length [of "filled x" n] by fastforce
    then have "c = filled x" by (simp add: bit_eq_iff)
    with False show ?thesis by (subst bit_opt_loop.simps) simp
  next
    case True
    have xs: "bit c (Suc i) \<longleftrightarrow> bit x (Suc i)" "bit c (i + 2) \<longleftrightarrow> bit x (i + 2)" "bit c i \<longleftrightarrow> bit x i"
      using 1(4) by simp_all
    show ?thesis
    proof (cases "c AND push_bit i 7 = push_bit i 1")
      case m: True
      then have b: "bit x i" "\<not> bit x (Suc i)" "\<not> bit x (i + 2)" using match_iff [OF True, of c] xs by auto
      have "bit_opt_loop (c OR push_bit i 3) (i + 3) = filled x"
      proof (rule 1(1) [OF True m])
        fix n assume n: "n \<le> i + 3"
        consider "n \<le> i" | "n = Suc i" | "n = i + 2" | "n = i + 3" using n by linarith
        then show "bit (c OR push_bit i 3) n \<longleftrightarrow> bit (filled x) n"
        proof cases
          case 1
          then show ?thesis using "1.prems"(1) [of n] b(1) xs(3) by (auto simp: bit_or_3)
        next
          case 2
          then show ?thesis using b bit_imp_le_length [of "filled x" "Suc i"] by (auto simp: bit_or_3 bit_filled xs)
        next
          case 3
          then show ?thesis using b xs by (auto simp: bit_or_3 bit_filled)
        next
          case 4
          then show ?thesis using b "1.prems"(2) [of "i + 3"] by (auto simp: bit_or_3 bit_filled)
        qed
      next
        fix n assume "i + 3 \<le> n"
        then show "bit (c OR push_bit i 3) n \<longleftrightarrow> bit x n" using "1.prems"(2) [of n] by (auto simp: bit_or_3)
      qed
      with True m show ?thesis by (subst bit_opt_loop.simps) simp
    next
      case m: False
      have "bit_opt_loop c (i + 1) = filled x"
      proof (rule 1(2) [OF True m])
        fix n assume n: "n \<le> i + 1"
        show "bit c n \<longleftrightarrow> bit (filled x) n"
        proof (cases "n \<le> i")
          case False
          then have "n = Suc i" using n by simp
          moreover have "bit (filled x) (Suc i) \<longleftrightarrow> bit x (Suc i)" using m match_iff [OF True, of c] xs by (auto simp: bit_filled)
          ultimately show ?thesis using xs(1) by simp
        qed (use "1.prems"(1) in simp)
      qed (use "1.prems"(2) in simp)
      with True m show ?thesis by (subst bit_opt_loop.simps) simp
    qed
  qed
qed

section \<open>The singly linked list\<close>

text \<open>The list of nodes \<open>xs\<close> with the contents \<open>ds\<close>.\<close>

definition slist_rel :: "slist heap \<Rightarrow> addr \<Rightarrow> addr list \<Rightarrow> int list \<Rightarrow> bool" where
  "slist_rel h p xs ds \<longleftrightarrow> linked nxt h p xs \<and> map (\<lambda>x. map_option sdata (h x)) xs = map Some ds"

lemma reverse_loop_spec:
  assumes "linked nxt h p (acc @ f # rest)"
  shows "\<exists>h' p'. reverse_loop h p f = Some (h', p') \<and> linked nxt h' p' (rev rest @ acc @ [f])
    \<and> (\<forall>x. map_option sdata (h' x) = map_option sdata (h x))"
  using assms
proof (induction rest arbitrary: h p acc)
  case Nil
  obtain n where "h f = Some n" "nxt n = 0" using linked_suffix [OF Nil] by auto
  then show ?case using Nil by (subst reverse_loop.simps) auto
next
  case (Cons r rest)
  have dist: "distinct (acc @ f # r # rest)" by (rule linked_distinct [OF Cons.prems])
  obtain nf nr where n: "h f = Some nf" "nxt nf = r" "h r = Some nr" "r \<noteq> 0" using linked_suffix [OF Cons.prems] by auto
  let ?h1 = "h(f \<mapsto> nf\<lparr>nxt := nxt nr\<rparr>)"
  let ?h2 = "?h1(r \<mapsto> nr\<lparr>nxt := p\<rparr>)"
  have "linked nxt ?h2 p (acc @ f # rest)"
    by (rule linked_unlink [OF Cons.prems _ n(3), where m = "nf\<lparr>nxt := nxt nr\<rparr>"]) (use dist in auto)
  then have "linked nxt ?h2 r ((r # acc) @ f # rest)" using n(4) by simp
  from Cons.IH [OF this] obtain h' p' where h': "reverse_loop ?h2 r f = Some (h', p')"
    "linked nxt h' p' (rev rest @ (r # acc) @ [f])" "\<And>x. map_option sdata (h' x) = map_option sdata (?h2 x)" by blast
  have fr: "r \<noteq> f" using dist by auto
  then have "reverse_loop h p f = Some (h', p')"
    using h'(1) n by (subst reverse_loop.simps) (simp add: Let_def heap_set_def)
  with h'(2,3) n fr show ?case by auto
qed

lemma slist_reverse_spec:
  assumes "slist_rel h p xs ds"
  shows "\<exists>h' p'. slist_reverse h (Some p) = Some (h', Some p') \<and> slist_rel h' p' (rev xs) (rev ds)"
proof (cases xs)
  case Nil
  with assms show ?thesis by (auto simp: slist_rel_def slist_reverse_def)
next
  case (Cons f rest)
  have l: "linked nxt h p ([] @ f # rest)" and d: "map (\<lambda>x. map_option sdata (h x)) xs = map Some ds"
    using assms Cons by (simp_all add: slist_rel_def)
  obtain h' p' where h': "reverse_loop h p f = Some (h', p')" "linked nxt h' p' (rev rest @ [] @ [f])"
    "\<And>x. map_option sdata (h' x) = map_option sdata (h x)" using reverse_loop_spec [OF l] by blast
  have "p = f" "f \<noteq> 0" using l by auto
  moreover have "map (\<lambda>x. map_option sdata (h' x)) (rev xs) = map Some (rev ds)" using d h'(3) by (simp add: rev_map [symmetric])
  ultimately show ?thesis using h'(1,2) Cons by (auto simp: slist_reverse_def slist_rel_def)
qed

lemma slist_insert_spec:
  assumes "slist_rel h p xs ds" and "h q = None" and "q \<noteq> 0"
  shows "\<exists>h'. slist_insert h (Some p) q d = Some (h', Some q) \<and> slist_rel h' q (q # xs) (d # ds)"
proof -
  let ?h = "h(q \<mapsto> \<lparr>nxt = p, sdata = d\<rparr>)"
  have q: "x \<noteq> q" if "x \<in> set xs" for x using assms(1,2) linked_live [of nxt h p xs x] that by (auto simp: slist_rel_def)
  then have "linked nxt ?h p xs" using assms(1) linked_cong [of xs ?h h nxt p] by (auto simp: slist_rel_def)
  moreover have "map (\<lambda>x. map_option sdata (?h x)) xs = map (\<lambda>x. map_option sdata (h x)) xs" using q by auto
  then have "map (\<lambda>x. map_option sdata (?h x)) xs = map Some ds" using assms(1) by (simp only: slist_rel_def)
  ultimately show ?thesis using assms(2,3) by (auto simp: slist_insert_def cmem slist_rel_def)
qed

lemma slist_free_loop_spec:
  "linked nxt h p xs \<Longrightarrow> slist_free_loop h p = Some (\<lambda>x. if x \<in> set xs then None else h x)"
proof (induction xs arbitrary: h p)
  case Nil
  then show ?case by (subst slist_free_loop.simps) simp
next
  case (Cons x xs)
  obtain n where n: "h x = Some n" "linked nxt h (nxt n) xs" "p = x" "x \<noteq> 0" using Cons.prems by auto
  have "x \<notin> set xs" using linked_distinct [OF Cons.prems] by simp
  then have "linked nxt (h(x := None)) (nxt n) xs \<longleftrightarrow> linked nxt h (nxt n) xs" by (intro linked_cong) auto
  then have "linked nxt (h(x := None)) (nxt n) xs" using n(2) by simp
  moreover have "(\<lambda>y. if y \<in> set xs then None else (h(x := None)) y) = (\<lambda>y. if y \<in> set (x # xs) then None else h y)" by auto
  ultimately have "slist_free_loop (h(x := None)) (nxt n) = Some (\<lambda>y. if y \<in> set (x # xs) then None else h y)"
    using Cons.IH [of "h(x := None)" "nxt n"] by (simp only:)
  then show ?case using n by (subst slist_free_loop.simps) (simp add: heap_free_def)
qed

lemma slist_print_spec:
  "linked nxt h p xs \<Longrightarrow> map (\<lambda>x. map_option sdata (h x)) xs = map Some ds \<Longrightarrow> slist_print_loop h p = Some ds"
proof (induction xs arbitrary: p ds)
  case Nil
  then show ?case by (subst slist_print_loop.simps) simp
next
  case (Cons x xs)
  then show ?case by (cases ds) (auto simp: slist_print_loop.simps [of h x])
qed

section \<open>The binary search tree\<close>

fun bt :: "btree heap \<Rightarrow> addr \<Rightarrow> (addr \<times> int) tree \<Rightarrow> bool" where
  "bt h p Leaf \<longleftrightarrow> p = 0"
| "bt h p (Node l ad r) \<longleftrightarrow> p = fst ad \<and> p \<noteq> 0
     \<and> (\<exists>n. h p = Some n \<and> bdata n = snd ad \<and> bt h (bleft n) l \<and> bt h (bright n) r)"

abbreviation addrs :: "(addr \<times> int) tree \<Rightarrow> addr set" where
  "addrs t \<equiv> fst ` set_tree t"

abbreviation keys :: "(addr \<times> int) tree \<Rightarrow> int list" where
  "keys t \<equiv> map snd (inorder t)"

lemma bt_cong: "(\<And>x. x \<in> addrs t \<Longrightarrow> h' x = h x) \<Longrightarrow> bt h' p t \<longleftrightarrow> bt h p t"
proof (induction t arbitrary: p)
  case (Node l ad r)
  have "h' (fst ad) = h (fst ad)" by (rule Node.prems) simp
  moreover have "bt h' q l \<longleftrightarrow> bt h q l" "bt h' q r \<longleftrightarrow> bt h q r" for q
    by (rule Node.IH; rule Node.prems; force)+
  ultimately show ?case by (cases "p = fst ad") simp_all
qed simp

fun bt_ins :: "addr \<Rightarrow> int \<Rightarrow> (addr \<times> int) tree \<Rightarrow> (addr \<times> int) tree" where
  "bt_ins p d Leaf = Node Leaf (p, d) Leaf"
| "bt_ins p d (Node l ad r) = (if d \<le> snd ad then Node (bt_ins p d l) ad r else Node l ad (bt_ins p d r))"

lemma bt_live: "bt h p t \<Longrightarrow> x \<in> addrs t \<Longrightarrow> h x \<noteq> None \<and> x \<noteq> 0"
proof (induction t arbitrary: p)
  case (Node l ad r)
  then consider "x = p" | "x \<in> addrs l" | "x \<in> addrs r" by auto
  then show ?case using Node.IH Node.prems(1) by cases (simp, (blast | force)+)
qed simp

lemma keys_bt_ins: "sorted (keys t) \<Longrightarrow> sorted (keys (bt_ins p d t)) \<and> mset (keys (bt_ins p d t)) = add_mset d (mset (keys t))"
proof (induction t)
  case (Node l ad r)
  have IH: "sorted (keys (bt_ins p d l))" "mset (keys (bt_ins p d l)) = add_mset d (mset (keys l))"
    "sorted (keys (bt_ins p d r))" "mset (keys (bt_ins p d r)) = add_mset d (mset (keys r))"
    using Node by (auto simp: sorted_append)
  then have "set (keys (bt_ins p d l)) = insert d (set (keys l))" "set (keys (bt_ins p d r)) = insert d (set (keys r))"
    by (metis set_mset_mset set_mset_add_mset_insert)+
  with IH Node.prems show ?case by (fastforce simp: sorted_append)
qed simp

lemma btree_insert_loop_spec:
  assumes "bt h a t" and "t \<noteq> Leaf" and "distinct (map fst (inorder t))" and "h p = None" and "p \<noteq> 0"
  shows "\<exists>h'. btree_insert_loop h a p d = Some h' \<and> bt h' a (bt_ins p d t)
    \<and> (\<forall>x. x \<notin> insert p (addrs t) \<longrightarrow> h' x = h x)"
  using assms
proof (induction t arbitrary: a)
  case (Node l ad r)
  obtain n where n: "h a = Some n" "bdata n = snd ad" "bt h (bleft n) l" "bt h (bright n) r" "a = fst ad" "a \<noteq> 0"
    using Node.prems(1) by auto
  have pa: "p \<noteq> a" using n(1) Node.prems(4) by auto
  have sep: "a \<notin> addrs l" "a \<notin> addrs r" "addrs l \<inter> addrs r = {}" "distinct (map fst (inorder l))" "distinct (map fst (inorder r))"
    using Node.prems(3) n(5) by (auto simp: image_iff)
  have pl: "p \<notin> addrs l" "p \<notin> addrs r" using bt_live [OF n(3), of p] bt_live [OF n(4), of p] Node.prems(4) by auto
  let ?new = "\<lparr>bleft = 0, bright = 0, bdata = d\<rparr>"
  have new: "new_node h p d = Some (h(p \<mapsto> ?new))" using Node.prems(4,5) by (simp add: new_node_def cmem)
  show ?case
  proof (cases "d \<le> snd ad")
    case True
    show ?thesis
    proof (cases "l = Leaf")
      case L: True
      then have "bleft n = 0" using n(3) by simp
      then have "btree_insert_loop h a p d = heap_set (\<lambda>n. n\<lparr>bleft := p\<rparr>) (h(p \<mapsto> ?new)) a"
        using True n(1,2) new by (subst btree_insert_loop.simps) simp
      moreover define h2 where "h2 = h(p \<mapsto> ?new, a \<mapsto> n\<lparr>bleft := p\<rparr>)"
      ultimately have run: "btree_insert_loop h a p d = Some h2" using n(1) pa by (simp add: heap_set_def)
      have "bt h2 (bright n) r \<longleftrightarrow> bt h (bright n) r" by (rule bt_cong) (use pl sep in \<open>auto simp: h2_def\<close>)
      moreover have "h2 a = Some (n\<lparr>bleft := p\<rparr>)" "h2 p = Some ?new" using pa by (simp_all add: h2_def)
      ultimately have "bt h2 a (bt_ins p d (Node l ad r))" unfolding L using True n(2,4,5,6) Node.prems(5) by simp
      moreover have "btree_insert_loop h a p d = Some h2" by (rule run)
      moreover have "h2 x = h x" if "x \<notin> insert p (addrs (Node l ad r))" for x using that n(5) by (simp add: h2_def)
      ultimately show ?thesis by blast
    next
      case L: False
      then have nz: "bleft n \<noteq> 0" using n(3) by (cases l) auto
      obtain h' where h': "btree_insert_loop h (bleft n) p d = Some h'" "bt h' (bleft n) (bt_ins p d l)"
        "\<forall>x. x \<notin> insert p (addrs l) \<longrightarrow> h' x = h x" using Node.IH(1) [OF n(3) L sep(4) Node.prems(4,5)] by blast
      have "bt h' (bright n) r \<longleftrightarrow> bt h (bright n) r" by (rule bt_cong) (rule h'(3) [rule_format], use sep(3) pl in auto)
      moreover have "h' a = Some n" using h'(3) sep(1) pa n(1) by auto
      ultimately have "bt h' a (bt_ins p d (Node l ad r))" using True n(2,4,5,6) h'(2) by simp
      moreover have "\<forall>x. x \<notin> insert p (addrs (Node l ad r)) \<longrightarrow> h' x = h x" using h'(3) by auto
      moreover have "btree_insert_loop h a p d = Some h'"
        using True n(1,2) h'(1) nz by (subst btree_insert_loop.simps) simp
      ultimately show ?thesis by blast
    qed
  next
    case False
    show ?thesis
    proof (cases "r = Leaf")
      case L: True
      then have "bright n = 0" using n(4) by simp
      then have "btree_insert_loop h a p d = heap_set (\<lambda>n. n\<lparr>bright := p\<rparr>) (h(p \<mapsto> ?new)) a"
        using False n(1,2) new by (subst btree_insert_loop.simps) simp
      moreover define h2 where "h2 = h(p \<mapsto> ?new, a \<mapsto> n\<lparr>bright := p\<rparr>)"
      ultimately have run: "btree_insert_loop h a p d = Some h2" using n(1) pa by (simp add: heap_set_def)
      have "bt h2 (bleft n) l \<longleftrightarrow> bt h (bleft n) l" by (rule bt_cong) (use pl sep in \<open>auto simp: h2_def\<close>)
      moreover have "h2 a = Some (n\<lparr>bright := p\<rparr>)" "h2 p = Some ?new" using pa by (simp_all add: h2_def)
      ultimately have "bt h2 a (bt_ins p d (Node l ad r))" unfolding L using False n(2,3,5,6) Node.prems(5) by simp
      moreover have "btree_insert_loop h a p d = Some h2" by (rule run)
      moreover have "h2 x = h x" if "x \<notin> insert p (addrs (Node l ad r))" for x using that n(5) by (simp add: h2_def)
      ultimately show ?thesis by blast
    next
      case L: False
      then have nz: "bright n \<noteq> 0" using n(4) by (cases r) auto
      obtain h' where h': "btree_insert_loop h (bright n) p d = Some h'" "bt h' (bright n) (bt_ins p d r)"
        "\<forall>x. x \<notin> insert p (addrs r) \<longrightarrow> h' x = h x" using Node.IH(2) [OF n(4) L sep(5) Node.prems(4,5)] by blast
      have "bt h' (bleft n) l \<longleftrightarrow> bt h (bleft n) l" by (rule bt_cong) (rule h'(3) [rule_format], use sep(3) pl in auto)
      moreover have "h' a = Some n" using h'(3) sep(2) pa n(1) by auto
      ultimately have "bt h' a (bt_ins p d (Node l ad r))" using False n(2,3,5,6) h'(2) by simp
      moreover have "\<forall>x. x \<notin> insert p (addrs (Node l ad r)) \<longrightarrow> h' x = h x" using h'(3) by auto
      moreover have "btree_insert_loop h a p d = Some h'"
        using False n(1,2) h'(1) nz by (subst btree_insert_loop.simps) simp
      ultimately show ?thesis by blast
    qed
  qed
qed simp

lemma bt_print:
  "bt h p t \<Longrightarrow> btree_foreach_preorder h p = Some (keys t) \<and> btree_foreach_midorder h p = Some (map snd (preorder t))
    \<and> btree_foreach_postorder h p = Some (map snd (postorder t))"
proof (induction t arbitrary: p)
  case Leaf
  then show ?case
    by (simp add: btree_foreach_preorder.simps [of h 0] btree_foreach_midorder.simps [of h 0] btree_foreach_postorder.simps [of h 0])
next
  case (Node l ad r)
  obtain n where n: "h p = Some n" "bdata n = snd ad" "bt h (bleft n) l" "bt h (bright n) r" "p \<noteq> 0" using Node.prems by auto
  from Node.IH(1) [OF n(3)] Node.IH(2) [OF n(4)] n show ?case
    by (simp add: btree_foreach_preorder.simps [of h p] btree_foreach_midorder.simps [of h p] btree_foreach_postorder.simps [of h p])
qed

lemma btree_free_spec:
  "bt h p t \<Longrightarrow> distinct (map fst (inorder t)) \<Longrightarrow> btree_free h p = Some (\<lambda>x. if x \<in> addrs t then None else h x)"
proof (induction t arbitrary: p h)
  case Leaf
  then show ?case by (subst btree_free.simps) simp
next
  case (Node l ad r)
  obtain n where n: "h p = Some n" "bt h (bleft n) l" "bt h (bright n) r" "p \<noteq> 0" "p = fst ad" using Node.prems(1) by auto
  have sep: "p \<notin> addrs l" "p \<notin> addrs r" "addrs l \<inter> addrs r = {}" "distinct (map fst (inorder l))" "distinct (map fst (inorder r))"
    using Node.prems(2) n(5) by (auto simp: image_iff)
  define h1 h2 where "h1 = (\<lambda>x. if x \<in> addrs l then None else h x)" and "h2 = (\<lambda>x. if x \<in> addrs r then None else h1 x)"
  have "bt h1 (bright n) r \<longleftrightarrow> bt h (bright n) r" by (rule bt_cong) (use sep(3) in \<open>auto simp: h1_def\<close>)
  then have "bt h1 (bright n) r" using n(3) by simp
  from Node.IH(2) [OF this sep(5)] have "btree_free h1 (bright n) = Some h2" by (simp add: h2_def)
  moreover have "heap_free h2 p = Some (\<lambda>x. if x \<in> addrs (Node l ad r) then None else h x)"
    using n sep(1,2) by (auto simp: heap_free_def fun_eq_iff h1_def h2_def)
  moreover have "h1 p = Some n" using n(1) sep(1) by (simp add: h1_def)
  moreover have "btree_free h (bleft n) = Some h1" using Node.IH(1) [OF n(2) sep(4)] by (simp add: h1_def)
  ultimately show ?case using n(1,4) by (subst btree_free.simps) simp
qed

section \<open>Properties\<close>

text \<open>
  \<open>ary_change\<close> on at most eight characters whose first \<open>k\<close> are hexadecimal digits.  When they are all digits
  it answers \<open>0\<close> and the value; a character that is no digit answers \<open>-1\<close>; when the string ends early the
  digits are still weighted by the announced length, so the value comes out multiplied by a power of sixteen.
\<close>

theorem ary_change_correct:
  assumes "n \<le> 8" and "n \<le> length str" and "k \<le> n" and "length ds = k"
    and "map (\<lambda>c. hex_digit (sint c)) (take k str) = map Some ds" and "hexval ds * 16 ^ (n - k) < 2 ^ 31"
  shows "(k = n \<longrightarrow> ary_change str (int n) = Some (0, hexval ds))
    \<and> (k < n \<and> str ! k = 0 \<longrightarrow> ary_change str (int n) = Some (0, hexval ds * 16 ^ (n - k)))
    \<and> (k < n \<and> str ! k \<noteq> 0 \<and> hex_digit (sint (str ! k)) = None \<longrightarrow>
        ary_change str (int n) = Some (- 1, hexval ds * 16 ^ (n - k)))"
proof -
  have run: "ary_change str (int n) = ary_loop str (int n) (int k) (hexval ds * 16 ^ (n - k))"
    using ary_loop_digits [of ds 0 str n 0] assms by (simp add: ary_change_def)
  have "sint (str ! k) \<noteq> 0" if "str ! k \<noteq> 0" using that signed_word_eqI [of "str ! k" 0] by auto
  then show ?thesis using assms(1-3) unfolding run by (auto simp: ary_loop.simps aget_nat Let_def)
qed

theorem ary_change_correct_witness:
  "ary_change [102, 49, 48, 51, 97, 56, 98] 7 = Some (0, 0xf103a8b) \<and> ary_change [49, 0, 0] 3 = Some (0, 0x100)
    \<and> ary_change [49, 120] 2 = Some (- 1, 0x10)"
proof -
  have "ary_change [102, 49, 48, 51, 97, 56, 98] (int 7) = Some (0, hexval [15, 1, 0, 3, 10, 8, 11])"
    using ary_change_correct [of 7 "[102, 49, 48, 51, 97, 56, 98]" 7 "[15, 1, 0, 3, 10, 8, 11]"]
    by (simp add: hex_digit_def)
  moreover have "ary_change [49, 0, 0] (int 3) = Some (0, hexval [1] * 16 ^ 2)"
    using ary_change_correct [of 3 "[49, 0, 0]" 1 "[1]"] by (simp add: hex_digit_def)
  moreover have "ary_change [49, 120] (int 2) = Some (- 1, hexval [1] * 16 ^ 1)"
    using ary_change_correct [of 2 "[49, 120]" 1 "[1]"] by (simp add: hex_digit_def)
  ultimately show ?thesis by simp
qed


text \<open>
  (C29) The singly linked list holds a sequence of numbers: \<open>slist_insert\<close> puts one in front, \<open>slist_reverse\<close> reverses the
  sequence in place and terminates, \<open>slist_foreach\<close> prints it, and \<open>slist_free\<close> releases exactly its nodes.
\<close>

theorem slist_correct:
  assumes "slist_rel h p xs ds"
  shows "(\<exists>h' p'. slist_reverse h (Some p) = Some (h', Some p') \<and> slist_rel h' p' (rev xs) (rev ds))
    \<and> (h q = None \<and> q \<noteq> 0 \<longrightarrow> (\<exists>h'. slist_insert h (Some p) q d = Some (h', Some q) \<and> slist_rel h' q (q # xs) (d # ds)))
    \<and> slist_foreach h (Some p) = Some ds
    \<and> slist_free h (Some p) = Some (\<lambda>x. if x \<in> set xs then None else h x)"
  using slist_reverse_spec [OF assms] slist_insert_spec [OF assms, of q d] slist_free_loop_spec [of h p xs]
    slist_print_spec [of h p xs ds] assms
  by (simp add: slist_foreach_def slist_free_def slist_rel_def)

theorem slist_correct_witness:
  "\<exists>h h' p'. slist_rel h 5 [5, 6] [1, 2] \<and> slist_reverse h (Some 5) = Some (h', Some p') \<and> slist_rel h' p' [6, 5] [2, 1]"
proof -
  let ?h = "[5 \<mapsto> \<lparr>nxt = 6, sdata = 1\<rparr>, 6 \<mapsto> \<lparr>nxt = 0, sdata = 2\<rparr>]"
  have r: "slist_rel ?h 5 [5, 6] [1, 2]" by (simp add: slist_rel_def)
  show ?thesis using slist_correct [OF r] r by auto
qed



end
