(* ===== verification/MinHeap.thy ===== *)
theory MinHeap
  imports HeapSort
begin

text \<open>
  \<open>cstring/minheap.h\<close>: a binary min-heap of pointers compared by their value.  The routines mirror
  \<open>sort_algorithms/heap_sort.h\<close> with the comparison turned round, and are proved equivalent to them on the negated
  values.
\<close>

section \<open>Definitions\<close>

definition HLEFT :: "int \<Rightarrow> int" where
  "HLEFT i = push_bit 1 i + 1"

definition HRIGHT :: "int \<Rightarrow> int" where
  "HRIGHT i = push_bit 1 i + 2"

definition SWAP_ptr :: "u64 list \<Rightarrow> int \<Rightarrow> int \<Rightarrow> u64 list option" where
  "SWAP_ptr mheap i j = do {
     tmp \<leftarrow> aget mheap i;
     y \<leftarrow> aget mheap j;
     mheap \<leftarrow> aput mheap i y;
     aput mheap j tmp
   }"

text \<open>\<open>if (child < length && mheap[child] < mheap[cur]) curindex = child;\<close>, with \<open>other\<close> the value of
  \<open>curindex\<close> otherwise.\<close>

definition pick_min :: "u64 list \<Rightarrow> int \<Rightarrow> int \<Rightarrow> int \<Rightarrow> int option" where
  "pick_min mheap child len cur =
     (if child < len then do {
        x \<leftarrow> aget mheap child;
        y \<leftarrow> aget mheap cur;
        Some (if x < y then child else cur)
      } else Some cur)"

partial_function (option) up_heap_node_loop :: "u64 list \<Rightarrow> int \<Rightarrow> int \<Rightarrow> int \<Rightarrow> int \<Rightarrow> u64 list option" where
  "up_heap_node_loop mheap leaf_index curindex index len =
     (if curindex < leaf_index then do {
        let left = HLEFT index;
        let right = HRIGHT index;
        c \<leftarrow> pick_min mheap left len index;
        let curindex = (if c = index then curindex else c);
        curindex \<leftarrow> pick_min mheap right len curindex;
        if index \<noteq> curindex then do {
          mheap \<leftarrow> SWAP_ptr mheap index curindex;
          up_heap_node_loop mheap leaf_index curindex curindex len
        } else Some mheap
      } else Some mheap)"

definition up_heap_node :: "u64 list \<Rightarrow> int \<Rightarrow> int \<Rightarrow> u64 list option" where
  "up_heap_node mheap index len = up_heap_node_loop mheap (len sdiv 2) index index len"

function make_min_heap_loop :: "u64 list \<Rightarrow> int \<Rightarrow> int \<Rightarrow> u64 list option" where
  "make_min_heap_loop mheap i len =
     (if i \<ge> 0 then do {
        mheap \<leftarrow> up_heap_node mheap i len;
        make_min_heap_loop mheap (i - 1) len
      } else Some mheap)"
  by pat_completeness auto
termination by (relation "measure (\<lambda>(a, i, n). nat (i + 1))") auto

definition make_min_heap :: "u64 list \<Rightarrow> int \<Rightarrow> u64 list option" where
  "make_min_heap mheap len = make_min_heap_loop mheap (len sdiv 2 - 1) len"

declare make_min_heap_loop.simps [simp del]

section \<open>Equivalence with the max-heap of the negated values\<close>

definition neg :: "u64 list \<Rightarrow> int list" where
  "neg a = map (\<lambda>w. - uint w) a"

lemma length_neg [simp]: "length (neg a) = length a"
  by (simp add: neg_def)

lemma aget_neg: "aget (neg a) i = map_option (\<lambda>w. - uint w) (aget a i)"
  by (auto simp: aget_def neg_def)

lemma aput_neg: "aput (neg a) i (- uint w) = map_option neg (aput a i w)"
  by (auto simp: aput_def neg_def map_update)

lemma pick_neg: "pick (neg a) child n cur = pick_min a child n cur"
  by (auto simp: pick_def pick_min_def aget_neg word_less_def split: option.splits bind_splits)

lemma SWAP_neg: "SWAP (neg a) i j = map_option neg (SWAP_ptr a i j)"
  unfolding SWAP_def SWAP_ptr_def aget_neg
  by (cases "aget a i"; cases "aget a j") (auto simp: aput_neg split: option.splits bind_splits)

lemma SWAP_sym: "SWAP a i j = SWAP a j i" if "0 \<le> i" "i < int (length a)" "0 \<le> j" "j < int (length a)"
proof -
  have "swapped a i j = swapped a j i"
    unfolding swapped_def using that list_update_swap [of "nat i" "nat j" a "a ! nat j" "a ! nat i"]
    by (cases "i = j") auto
  then show ?thesis using that by (simp add: cmem)
qed

lemma pick_cases: "pick a child n cur = Some c \<Longrightarrow> c = cur \<or> c = child \<and> child < n"
  by (auto simp: pick_def split: if_splits bind_splits)

lemma up_heap_node_loop_neg:
  assumes "0 \<le> p" and "p < n" and "n \<le> int (length a)"
  shows "up_heap_loop (neg a) l p p n = map_option neg (up_heap_node_loop a l p p n)"
  using assms
proof (induction "nat (n - p)" arbitrary: a p rule: less_induct)
  case less
  show ?case
  proof (cases "p < l")
    case False
    then show ?thesis by (simp add: up_heap_loop.simps [of _ _ p] up_heap_node_loop.simps [of _ _ p])
  next
    case True
    have LR: "HLEFT p = LEFT p" "HRIGHT p = RIGHT p" "p < LEFT p" "p < RIGHT p"
      using less.prems by (simp_all add: HLEFT_def HRIGHT_def LEFT_def RIGHT_def push_bit_eq_mult)
    obtain d where d: "pick (neg a) (LEFT p) n p = Some d" "0 \<le> d" "d < n" "d = p \<or> d = LEFT p"
      using pick_spec [of "LEFT p" n "neg a" p] less.prems LR(3) by (auto split: if_splits)
    obtain c where c: "pick (neg a) (RIGHT p) n d = Some c" "0 \<le> c" "c < n" "c = d \<or> c = RIGHT p"
      using pick_spec [of "RIGHT p" n "neg a" d] less.prems LR(4) d by (auto split: if_splits)
    have picks: "pick_min a (HLEFT p) n p = Some d" "pick_min a (HRIGHT p) n d = Some c"
      using d(1) c(1) by (simp_all add: pick_neg LR)
    show ?thesis
    proof (cases "c = p")
      case same: True
      then show ?thesis using True d(1) c(1) picks
        by (simp add: up_heap_loop.simps [of _ _ p] up_heap_node_loop.simps [of _ _ p] Let_def)
    next
      case moved: False
      then have pc: "p < c" using c(4) d(4) LR by auto
      obtain b where b: "SWAP_ptr a p c = Some b" "SWAP (neg a) p c = Some (neg b)"
        using SWAP_neg [of a p c] less.prems c(2,3) pc by (cases "SWAP_ptr a p c") (auto simp: cmem)
      have lb: "length b = length a" using b(2) less.prems c(2,3) pc by (auto simp: cmem dest: arg_cong [of _ _ length])
      have "SWAP (neg a) c p = Some (neg b)" using b(2) SWAP_sym [of p "neg a" c] less.prems c(2,3) pc by simp
      moreover have "up_heap_loop (neg b) l c c n = map_option neg (up_heap_node_loop b l c c n)"
        using less.hyps [of c b] less.prems c(2,3) pc lb by simp
      ultimately show ?thesis using True d(1) c(1) picks moved b(1)
        by (simp add: up_heap_loop.simps [of _ _ p] up_heap_node_loop.simps [of _ _ p] Let_def)
    qed
  qed
qed

lemma make_min_heap_loop_neg:
  assumes "i < n" and "n \<le> int (length a)" and "\<And>k. i < k \<Longrightarrow> hp (view (neg a)) n k"
  shows "max_heap_loop (neg a) i 0 n = map_option neg (make_min_heap_loop a i n)"
  using assms
proof (induction "nat (i + 1)" arbitrary: a i rule: less_induct)
  case less
  show ?case
  proof (cases "0 \<le> i")
    case False
    then show ?thesis by (simp add: max_heap_loop.simps [of _ i] make_min_heap_loop.simps [of _ i])
  next
    case True
    have e: "up_heap (neg a) i n = map_option neg (up_heap_node a i n)"
      unfolding up_heap_def up_heap_node_def by (rule up_heap_node_loop_neg [OF True less.prems(1,2)])
    obtain a' where "up_heap (neg a) i n = Some a'" "rearr (neg a) i (n - 1) a'" "\<forall>k \<ge> i. hp (view a') n k"
      using up_heap_spec [of i "neg a" n] less.prems True by auto
    moreover from this e obtain b where "up_heap_node a i n = Some b" "a' = neg b" by auto
    ultimately have b: "up_heap (neg a) i n = Some (neg b)" "up_heap_node a i n = Some b"
      "rearr (neg a) i (n - 1) (neg b)" "\<forall>k \<ge> i. hp (view (neg b)) n k" by simp_all
    have "max_heap_loop (neg b) (i - 1) 0 n = map_option neg (make_min_heap_loop b (i - 1) n)"
      using less.hyps [of "i - 1" b] less.prems(1,2) True b(4) rearr_length [OF b(3)] by simp
    with b(1,2) True show ?thesis by (simp add: max_heap_loop.simps [of _ i] make_min_heap_loop.simps [of _ i])
  qed
qed

section \<open>Properties\<close>

lemma mset_neg: "mset (neg a) = mset (neg b) \<Longrightarrow> mset a = mset b"
proof -
  assume "mset (neg a) = mset (neg b)"
  then have "image_mset (\<lambda>w. - uint w) (mset a) = image_mset (\<lambda>w. - uint w) (mset b)" by (simp add: neg_def)
  then have "image_mset (\<lambda>x. word_of_int (- x)) (image_mset (\<lambda>w. - uint w) (mset a)) =
      image_mset (\<lambda>x. word_of_int (- x) :: u64) (image_mset (\<lambda>w. - uint w) (mset b))" by simp
  then show ?thesis by (simp add: multiset.map_comp comp_def)
qed

text \<open>
  \<open>make_min_heap\<close> on an array of pointers equals \<open>max_heap\<close> of \<open>heap_sort.h\<close> on the negated values; it returns a
  rearrangement of the array in which no element is greater than its children, so the first is the least.
\<close>

theorem make_min_heap_correct:
  "max_heap (neg a) 0 e (int (length a)) = map_option neg (make_min_heap a (int (length a)))
   \<and> (\<exists>b. make_min_heap a (int (length a)) = Some b \<and> mset b = mset a
        \<and> (\<forall>i. 2 * i + 1 < length b \<longrightarrow> b ! i \<le> b ! (2 * i + 1)) \<and> (\<forall>i. 2 * i + 2 < length b \<longrightarrow> b ! i \<le> b ! (2 * i + 2))
        \<and> (\<forall>i < length b. b ! 0 \<le> b ! i))"
proof
  let ?n = "int (length a)"
  have "hp (view (neg a)) ?n k" if "?n div 2 - 1 < k" for k using that by (auto simp: hp_def)
  then show eq: "max_heap (neg a) 0 e ?n = map_option neg (make_min_heap a ?n)"
    unfolding max_heap_def make_min_heap_def by (intro make_min_heap_loop_neg) (auto simp: half)
  obtain a' where a': "max_heap (neg a) 0 e ?n = Some a'" "rearr (neg a) 0 (?n - 1) a'" "\<And>k. 0 \<le> k \<Longrightarrow> hp (view a') ?n k"
    using max_heap_spec [of ?n "neg a" e] by auto
  obtain b where b: "make_min_heap a ?n = Some b" "a' = neg b" using a'(1) eq by auto
  have ms: "mset b = mset a" and lb: "length b = length a"
    using a'(2) b(2) mset_neg [of b a] rearr_length [OF a'(2)] by (simp_all add: rearr_def)
  have vb: "view a' (int i) = - uint (b ! i)" if "i < length b" for i using that b(2) by (simp add: view_def neg_def)
  have kids: "b ! i \<le> b ! k" if "k = 2 * i + 1 \<or> k = 2 * i + 2" "k < length b" for i k
    using a'(3) [of "int i"] vb [of i] vb [of k] that lb by (auto simp: hp_def word_le_def algebra_simps)
  moreover have "b ! 0 \<le> b ! i" if i: "i < length b" for i
  proof -
    have "0 < length b" using i by linarith
    then show ?thesis using heap_root_max [of "view a'" ?n "int i", OF a'(3)] vb [of i] vb [of 0] i lb
      by (simp add: word_le_def)
  qed
  ultimately show "\<exists>b. make_min_heap a ?n = Some b \<and> mset b = mset a
      \<and> (\<forall>i. 2 * i + 1 < length b \<longrightarrow> b ! i \<le> b ! (2 * i + 1)) \<and> (\<forall>i. 2 * i + 2 < length b \<longrightarrow> b ! i \<le> b ! (2 * i + 2))
      \<and> (\<forall>i < length b. b ! 0 \<le> b ! i)"
    using b(1) ms by blast
qed

theorem make_min_heap_correct_witness: "\<exists>b. make_min_heap [3, 1, 2] 3 = Some b \<and> mset b = {#3, 1, 2#} \<and> b ! 0 \<le> b ! 1"
proof -
  obtain b where b: "make_min_heap [3, 1, 2] (int (length [3, 1, 2 :: u64])) = Some b" "mset b = mset [3, 1, 2]"
      "\<forall>i. 2 * i + 1 < length b \<longrightarrow> b ! i \<le> b ! (2 * i + 1)"
    using make_min_heap_correct [of "[3, 1, 2]" 0] by blast
  have "length b = 3" using arg_cong [OF b(2), of "size"] by simp
  with b(3) have "b ! 0 \<le> b ! 1" by (auto dest: spec [of _ 0])
  with b(1,2) show ?thesis by (intro exI [of _ b]) simp
qed

end
