(* ===== verification/CString.thy ===== *)
theory CString
  imports CHeap
begin

text \<open>
  \<open>cstring/cstring.h\<close>: reference-counted strings.  A block is \<open>sizeof(cstring)\<close> = 16 bytes plus the requested
  size; \<open>value\<close> starts at byte 12, so a request for \<open>n\<close> bytes leaves \<open>n + 4\<close> bytes for \<open>value\<close>.  A variable of
  type \<open>string\<close> carries the attribute \<open>cleanup(cstring_free)\<close>: every return from its scope calls \<open>cstring_free\<close>
  on it.  The addresses \<open>malloc\<close> and \<open>realloc\<close> return and the contents of fresh bytes are arguments.  What
  \<open>cstring_free\<close> prints is left out.
\<close>

section \<open>Definitions\<close>

record cstring =
  refcount :: int
  cstrlen :: u32
  cvalue :: "byte list"

type_synonym cs_heap = "cstring heap"

definition value_bytes :: "nat \<Rightarrow> nat" where
  "value_bytes n = n + 4"

definition to_int :: "int \<Rightarrow> int" where
  "to_int x = sint (word_of_int x :: 32 word)"

definition atomic_fetch_sub_long :: "cs_heap \<Rightarrow> addr \<Rightarrow> int \<Rightarrow> (cs_heap \<times> int) option" where
  "atomic_fetch_sub_long h p v = do {
     c \<leftarrow> h p;
     Some (h(p \<mapsto> c\<lparr>refcount := refcount c - v\<rparr>), refcount c)
   }"

definition atomic_fetch_add_long :: "cs_heap \<Rightarrow> addr \<Rightarrow> int \<Rightarrow> (cs_heap \<times> int) option" where
  "atomic_fetch_add_long h p v = do {
     c \<leftarrow> h p;
     Some (h(p \<mapsto> c\<lparr>refcount := refcount c + v\<rparr>), refcount c)
   }"

definition cstring_free :: "cs_heap \<Rightarrow> addr \<Rightarrow> cs_heap option" where
  "cstring_free h p = do {
     (h, old) \<leftarrow> atomic_fetch_sub_long h p 1;
     if 1 = to_int old then heap_free h p else Some h
   }"

definition new_string :: "cs_heap \<Rightarrow> addr \<Rightarrow> (nat \<Rightarrow> byte) \<Rightarrow> byte list option \<Rightarrow> u32 \<Rightarrow> u32 \<Rightarrow> (cs_heap \<times> addr) option" where
  "new_string h q junk pcstr index len = (case pcstr of None \<Rightarrow> Some (h, 0) | Some src \<Rightarrow>
     if index > 0xfffffff \<or> len > 0xfffffff then Some (h, 0)
     else do {
       h \<leftarrow> heap_alloc h q \<lparr>refcount = 2, cstrlen = len + 1, cvalue = map junk [0..<value_bytes (unat len + 1)]\<rparr>;
       c \<leftarrow> h q;
       v \<leftarrow> memcpy (cvalue c) 0 src (unat index) (unat len);
       v \<leftarrow> aput v (uint len) 0;
       h \<leftarrow> heap_set (\<lambda>c. c\<lparr>cvalue := v\<rparr>) h q;
       h \<leftarrow> cstring_free h q;
       Some (h, q)
     })"

definition cs_at :: "cs_heap \<Rightarrow> addr \<Rightarrow> int \<Rightarrow> byte option" where
  "cs_at h p pos =
     (if p = 0 \<or> pos < 0 then Some 0
      else do { c \<leftarrow> h p; if pos \<ge> uint (cstrlen c) then Some 0 else aget (cvalue c) pos })"

definition cs_empty :: "cs_heap \<Rightarrow> addr \<Rightarrow> int option" where
  "cs_empty h p = do { c \<leftarrow> h p; Some (if cstrlen c > 1 then 1 else 0) }"

definition cs_length :: "cs_heap \<Rightarrow> addr \<Rightarrow> u32 option" where
  "cs_length h p = do { c \<leftarrow> h p; Some (cstrlen c - 1) }"

definition substr :: "cs_heap \<Rightarrow> addr \<Rightarrow> (nat \<Rightarrow> byte) \<Rightarrow> addr \<Rightarrow> u32 \<Rightarrow> u32 \<Rightarrow> (cs_heap \<times> addr) option" where
  "substr h q junk p pos num = do {
     c \<leftarrow> h p;
     (h, newp) \<leftarrow> new_string h q junk (Some (cvalue c)) pos num;
     (h, old) \<leftarrow> atomic_fetch_add_long h newp 1;
     if 1 > to_int old then do {
       h \<leftarrow> heap_free h p;
       h \<leftarrow> cstring_free h newp;
       Some (h, 0)
     } else do {
       h \<leftarrow> cstring_free h newp;
       Some (h, newp)
     }
   }"

definition append :: "cs_heap \<Rightarrow> addr \<Rightarrow> (nat \<Rightarrow> byte) \<Rightarrow> addr \<Rightarrow> addr \<Rightarrow> (cs_heap \<times> addr) option" where
  "append h q junk p ip = do {
     c \<leftarrow> h p;
     i \<leftarrow> h ip;
     let newstrlen = cstrlen c + cstrlen i - 1;
     h \<leftarrow> heap_alloc h q \<lparr>refcount = 2, cstrlen = newstrlen, cvalue = map junk [0..<value_bytes (unat newstrlen)]\<rparr>;
     n \<leftarrow> h q;
     v \<leftarrow> memcpy (cvalue n) 0 (cvalue c) 0 (unat (cstrlen c - 1));
     v \<leftarrow> memcpy v (unat (cstrlen c) - 1) (cvalue i) 0 (unat (cstrlen i - 1));
     v \<leftarrow> aput v (uint newstrlen) 0;
     h \<leftarrow> heap_set (\<lambda>c. c\<lparr>cvalue := v\<rparr>) h q;
     h \<leftarrow> cstring_free h q;
     Some (h, q)
   }"

text \<open>\<open>realloc(p, ...)\<close> returned \<open>q\<close>: \<open>NULL\<close> leaves the block alone, another address moves it.\<close>

definition realloc_value :: "byte list \<Rightarrow> (nat \<Rightarrow> byte) \<Rightarrow> nat \<Rightarrow> byte list" where
  "realloc_value v junk n = map (\<lambda>k. if k < length v then v ! k else junk k) [0..<n]"

definition append_realloc :: "cs_heap \<Rightarrow> addr \<Rightarrow> (nat \<Rightarrow> byte) \<Rightarrow> addr \<Rightarrow> addr \<Rightarrow> (cs_heap \<times> addr) option" where
  "append_realloc h q junk p ip = do {
     c \<leftarrow> h p;
     i \<leftarrow> h ip;
     let plen = cstrlen c;
     let iplen = cstrlen i;
     if q = 0 then Some (h, 0)
     else do {
       require (q = p \<or> h q = None);
       let v = realloc_value (cvalue c) junk (value_bytes (unat plen + unat iplen - 1));
       let h = (h(p := None))(q \<mapsto> c\<lparr>refcount := 1, cstrlen := plen + iplen - 1, cvalue := v\<rparr>);
       i \<leftarrow> h ip;
       v \<leftarrow> memcpy v (unat plen - 1) (cvalue i) 0 (unat (iplen - 1));
       v \<leftarrow> aput v (uint (plen + iplen - 1)) 0;
       h \<leftarrow> heap_set (\<lambda>c. c\<lparr>cvalue := v\<rparr>) h q;
       Some (h, q)
     }
   }"

definition c_str :: "cs_heap \<Rightarrow> addr \<Rightarrow> byte list option option" where
  "c_str h p = (if p = 0 then Some None else do { c \<leftarrow> h p; Some (Some (cvalue c)) })"

section \<open>The string a block holds\<close>

definition cs_ok :: "cstring \<Rightarrow> byte list \<Rightarrow> bool" where
  "cs_ok c s \<longleftrightarrow> unat (cstrlen c) = length s + 1 \<and> length s < length (cvalue c) \<and> take (length s) (cvalue c) = s"

lemma cs_okD:
  assumes "cs_ok c s"
  shows "unat (cstrlen c) = length s + 1" and "length s < length (cvalue c)" and "take (length s) (cvalue c) = s"
    and "unat (cstrlen c - 1) = length s" and "\<And>k. k < length s \<Longrightarrow> cvalue c ! k = s ! k"
proof -
  show a: "unat (cstrlen c) = length s + 1" "length s < length (cvalue c)" "take (length s) (cvalue c) = s"
    using assms by (simp_all add: cs_ok_def)
  have "1 \<le> cstrlen c" using a(1) by (simp add: word_le_nat_alt)
  then show "unat (cstrlen c - 1) = length s" using a(1) by (simp add: unat_sub)
  show "cvalue c ! k = s ! k" if "k < length s" for k using a(3) that by (metis nth_take)
qed

lemma to_int_small: "to_int 1 = 1" "to_int 2 = 2"
  by (simp_all add: to_int_def)

lemma fresh_free: "cstring_free (h(q \<mapsto> c\<lparr>refcount := 2\<rparr>)) q = Some (h(q \<mapsto> c\<lparr>refcount := 1\<rparr>))"
  by (simp add: cstring_free_def atomic_fetch_sub_long_def to_int_small)

lemma new_string_spec:
  assumes "h q = None" and "q \<noteq> 0" and "index \<le> 0xfffffff" and "len \<le> 0xfffffff" and "unat index + unat len \<le> length src"
  shows "\<exists>c. new_string h q junk (Some src) index len = Some (h(q \<mapsto> c), q) \<and> refcount c = 1
    \<and> cs_ok c (take (unat len) (drop (unat index) src)) \<and> cvalue c ! unat len = 0"
proof -
  let ?n = "unat len"
  define junkv where "junkv = map junk [0..<value_bytes (?n + 1)]"
  have lj: "length junkv = ?n + 5" and jv: "map junk [0..<value_bytes (Suc ?n)] = junkv" by (simp_all add: junkv_def value_bytes_def)
  define v where "v = (take 0 junkv @ take ?n (drop (unat index) src) @ drop (0 + ?n) junkv)[?n := 0]"
  have m: "memcpy junkv 0 src (unat index) ?n = Some (take 0 junkv @ take ?n (drop (unat index) src) @ drop (0 + ?n) junkv)"
    using assms(5) lj by (intro memcpy_Some) auto
  have l1: "length (take ?n (drop (unat index) src)) = ?n" using assms(5) by simp
  have p: "aput (take 0 junkv @ take ?n (drop (unat index) src) @ drop (0 + ?n) junkv) (uint len) 0 = Some v"
    using lj l1 by (simp add: aput_def v_def)
  have ov: "unat (len + 1) = ?n + 1"
  proof -
    have "?n \<le> 0xfffffff" using assms(4) by (simp add: word_le_nat_alt)
    then show ?thesis by (simp add: unat_word_ariths)
  qed
  let ?c = "\<lparr>refcount = 1, cstrlen = len + 1, cvalue = v\<rparr>"
  have "cstring_free (h(q \<mapsto> \<lparr>refcount = 2, cstrlen = len + 1, cvalue = v\<rparr>)) q = Some (h(q \<mapsto> ?c))"
    using fresh_free [of h q ?c] by simp
  then have "new_string h q junk (Some src) index len = Some (h(q \<mapsto> ?c), q)"
    using assms(1-4) m p by (simp add: new_string_def heap_alloc_in heap_set_def not_less jv)
  moreover have "cs_ok ?c (take ?n (drop (unat index) src))" "v ! ?n = 0"
    using ov lj l1 by (simp_all add: cs_ok_def v_def)
  ultimately show ?thesis by (intro exI [of _ ?c]) simp
qed

lemma append_spec:
  assumes "h p = Some c" and "h ip = Some i" and "cs_ok c s" and "cs_ok i t" and "h q = None" and "q \<noteq> 0"
    and "length s + length t + 1 < 2 ^ 32"
  shows "\<exists>n. append h q junk p ip = Some (h(q \<mapsto> n), q) \<and> refcount n = 1 \<and> cs_ok n (s @ t)
    \<and> cvalue n ! length (s @ t) = junk (length (s @ t)) \<and> cvalue n ! Suc (length (s @ t)) = 0"
proof -
  note cd = cs_okD [OF assms(3)] and id = cs_okD [OF assms(4)]
  let ?L = "length s + length t"
  define w where "w = cstrlen c + cstrlen i - 1"
  have uw: "unat w = ?L + 1"
  proof -
    have "unat (x + y + 1) = unat x + unat y + 1" if "unat x + unat y + 1 < 2 ^ 32" for x y :: u32
      using that by (simp add: unat_word_ariths)
    from this [of "cstrlen c - 1" "cstrlen i - 1"] show ?thesis using cd(4) id(4) assms(7) by (simp add: w_def)
  qed
  define j where "j = map junk [0..<value_bytes (unat w)]"
  have lj: "length j = ?L + 5" by (simp add: j_def value_bytes_def uw)
  define v1 where "v1 = take 0 j @ take (length s) (drop 0 (cvalue c)) @ drop (0 + length s) j"
  have m1: "memcpy j 0 (cvalue c) 0 (length s) = Some v1" unfolding v1_def using lj cd(2) by (intro memcpy_Some) auto
  have v1: "v1 = s @ drop (length s) j" unfolding v1_def by (simp add: cd(3))
  define v2 where "v2 = take (length s) v1 @ take (length t) (drop 0 (cvalue i)) @ drop (length s + length t) v1"
  have m2: "memcpy v1 (length s) (cvalue i) 0 (length t) = Some v2"
    unfolding v2_def using lj id(2) v1 by (intro memcpy_Some) auto
  have v2: "v2 = s @ t @ drop ?L j" unfolding v2_def using v1 id(3) lj by (simp add: add.commute)
  have lv: "length v2 = ?L + 5" using v2 lj by simp
  have uiw: "uint w = int (?L + 1)" using uw by (metis uint_nat)
  have p: "aput v2 (uint w) 0 = Some (v2[?L + 1 := 0])" unfolding uiw using lv by (intro aput_nat) simp
  let ?n = "\<lparr>refcount = 1, cstrlen = w, cvalue = v2[?L + 1 := 0]\<rparr>"
  have "cstring_free (h(q \<mapsto> \<lparr>refcount = 2, cstrlen = w, cvalue = v2[?L + 1 := 0]\<rparr>)) q = Some (h(q \<mapsto> ?n))"
    using fresh_free [of h q ?n] by simp
  then have "append h q junk p ip = Some (h(q \<mapsto> ?n), q)"
    using assms(1,2,5,6) m1 m2 p cd(1,4) id(4)
    by (simp add: append_def Let_def heap_alloc_in heap_set_def flip: w_def j_def)
  moreover have "cs_ok ?n (s @ t)" using uw lv v2 by (simp add: cs_ok_def)
  moreover have "v2[?L + 1 := 0] ! ?L = junk ?L" using v2 lj by (simp add: nth_append j_def value_bytes_def uw del: upt_Suc)
  moreover have "v2[?L + 1 := 0] ! Suc ?L = 0" using lv by simp
  ultimately show ?thesis by (intro exI [of _ ?n]) simp
qed

lemma substr_spec:
  assumes "h p = Some c" and "cs_ok c s" and "h q = None" and "q \<noteq> 0" and "pos \<le> 0xfffffff" and "num \<le> 0xfffffff"
    and "unat pos + unat num \<le> length s"
  shows "\<exists>n. substr h q junk p pos num = Some (h(q \<mapsto> n), q) \<and> refcount n = 1
    \<and> cs_ok n (take (unat num) (drop (unat pos) s)) \<and> cvalue n ! unat num = 0"
proof -
  note cd = cs_okD [OF assms(2)]
  have len: "unat pos + unat num \<le> length (cvalue c)" using cd(2) assms(7) by simp
  obtain n where n: "new_string h q junk (Some (cvalue c)) pos num = Some (h(q \<mapsto> n), q)" "refcount n = 1"
    "cs_ok n (take (unat num) (drop (unat pos) (cvalue c)))" "cvalue n ! unat num = 0"
    using new_string_spec [of h q pos num "cvalue c" junk, OF assms(3-6) len] by blast
  have "cstring_free (h(q \<mapsto> n\<lparr>refcount := 2\<rparr>)) q = Some (h(q \<mapsto> n\<lparr>refcount := 1\<rparr>))" by (rule fresh_free)
  moreover have "n\<lparr>refcount := 1\<rparr> = n" using n(2) by simp
  ultimately have "substr h q junk p pos num = Some (h(q \<mapsto> n), q)"
    using n(1,2) assms(1) by (simp add: substr_def atomic_fetch_add_long_def to_int_small)
  moreover have "take (unat num) (drop (unat pos) (cvalue c)) = take (unat num) (drop (unat pos) s)"
  proof -
    have "take (unat num) (drop (unat pos) (take (length s) (cvalue c))) = take (unat num) (drop (unat pos) (cvalue c))"
      using assms(7) by (simp add: drop_take min_def)
    then show ?thesis by (simp add: cd(3))
  qed
  ultimately show ?thesis using n(2,3,4) by auto
qed

lemma append_realloc_spec:
  assumes "h p = Some c" and "h ip = Some i" and "cs_ok c s" and "cs_ok i t" and "q = p \<or> h q = None" and "q \<noteq> 0"
    and "p \<noteq> ip" and "length s + length t + 1 < 2 ^ 32"
  shows "\<exists>n. append_realloc h q junk p ip = Some ((h(p := None))(q \<mapsto> n), q) \<and> refcount n = 1 \<and> cs_ok n (s @ t)
    \<and> cvalue n ! Suc (length (s @ t)) = 0"
proof -
  note cd = cs_okD [OF assms(3)] and id = cs_okD [OF assms(4)]
  let ?L = "length s + length t"
  define w where "w = cstrlen c + cstrlen i - 1"
  have uw: "unat w = ?L + 1"
  proof -
    have "unat (x + y + 1) = unat x + unat y + 1" if "unat x + unat y + 1 < 2 ^ 32" for x y :: u32
      using that by (simp add: unat_word_ariths)
    from this [of "cstrlen c - 1" "cstrlen i - 1"] show ?thesis using cd(4) id(4) assms(8) by (simp add: w_def)
  qed
  define v where "v = realloc_value (cvalue c) junk (value_bytes (unat (cstrlen c) + unat (cstrlen i) - 1))"
  have vv: "realloc_value (cvalue c) junk (value_bytes (length s + unat (cstrlen i))) = v" by (simp add: v_def cd(1))
  have lv: "length v = ?L + 5" by (simp add: v_def realloc_value_def value_bytes_def cd(1) id(1))
  have tv: "take (length s) v = s"
    using lv cd(2,5) by (intro nth_equalityI) (auto simp: v_def realloc_value_def)
  define v2 where "v2 = take (length s) v @ take (length t) (drop 0 (cvalue i)) @ drop (length s + length t) v"
  have m: "memcpy v (length s) (cvalue i) 0 (length t) = Some v2" unfolding v2_def using lv id(2) by (intro memcpy_Some) auto
  have v2: "v2 = s @ t @ drop ?L v" unfolding v2_def using tv id(3) by simp
  have uiw: "uint w = int (?L + 1)" using uw by (metis uint_nat)
  have p: "aput v2 (uint w) 0 = Some (v2[?L + 1 := 0])" unfolding uiw using v2 lv by (intro aput_nat) simp
  let ?n = "c\<lparr>refcount := 1, cstrlen := w, cvalue := v2[?L + 1 := 0]\<rparr>"
  have ipq: "ip \<noteq> q" using assms(2,5,7) by auto
  have "append_realloc h q junk p ip = Some ((h(p := None))(q \<mapsto> ?n), q)"
    using assms(1,2,5-7) m p cd(1) id(4) ipq vv
    by (simp add: append_realloc_def Let_def heap_set_def flip: w_def)
  moreover have "cs_ok ?n (s @ t)" using uw lv v2 by (simp add: cs_ok_def)
  moreover have "v2[?L + 1 := 0] ! Suc ?L = 0" using lv v2 by simp
  ultimately show ?thesis by (intro exI [of _ ?n]) simp
qed

section \<open>Properties\<close>

text \<open>
  (C31) A block made by \<open>new_string\<close> or \<open>substr\<close> is a terminated copy of the selected characters with one reference;
  \<open>append\<close> makes a block with the concatenation and one reference, but writes its terminator one byte too far, so
  the byte behind the last character keeps whatever \<open>malloc\<close> left there.  \<open>append_realloc\<close> extends the first string
  in a block \<open>realloc\<close> moved elsewhere, and faults when a string is appended to itself, because it reads the released
  block.  \<open>at\<close> and \<open>length\<close> read the string,
  \<open>empty\<close> answers \<open>1\<close> exactly for the strings that are not empty, and \<open>cstring_free\<close> releases a block when the
  last reference goes and only then.
\<close>

theorem cstring_correct:
  assumes "h p = Some c" and "cs_ok c s" and "h ip = Some i" and "cs_ok i t" and "p \<noteq> 0" and "h q = None" and "q \<noteq> 0"
    and "length s + length t + 1 < 2 ^ 32"
  shows "(index \<le> 0xfffffff \<and> len \<le> 0xfffffff \<and> unat index + unat len \<le> length src \<longrightarrow>
      (\<exists>n. new_string h q junk (Some src) index len = Some (h(q \<mapsto> n), q) \<and> refcount n = 1
        \<and> cs_ok n (take (unat len) (drop (unat index) src)) \<and> cvalue n ! unat len = 0))
    \<and> (index \<le> 0xfffffff \<and> len \<le> 0xfffffff \<and> unat index + unat len \<le> length s \<longrightarrow>
      (\<exists>n. substr h q junk p index len = Some (h(q \<mapsto> n), q) \<and> refcount n = 1
        \<and> cs_ok n (take (unat len) (drop (unat index) s)) \<and> cvalue n ! unat len = 0))
    \<and> (\<exists>n. append h q junk p ip = Some (h(q \<mapsto> n), q) \<and> refcount n = 1 \<and> cs_ok n (s @ t)
        \<and> cvalue n ! length (s @ t) = junk (length (s @ t)))
    \<and> (p \<noteq> ip \<longrightarrow> (\<exists>n. append_realloc h q junk p ip = Some ((h(p := None))(q \<mapsto> n), q) \<and> refcount n = 1 \<and> cs_ok n (s @ t)))
    \<and> append_realloc h q junk p p = None
    \<and> (\<forall>k < length s. cs_at h p (int k) = Some (s ! k)) \<and> (\<forall>k > int (length s). cs_at h p k = Some 0)
    \<and> (\<exists>n. cs_length h p = Some n \<and> unat n = length s)
    \<and> cs_empty h p = Some (if s = [] then 0 else 1)
    \<and> (refcount c = 1 \<longrightarrow> cstring_free h p = Some (h(p := None)))
    \<and> (1 < refcount c \<and> refcount c < 2 ^ 31 \<longrightarrow> cstring_free h p = Some (h(p \<mapsto> c\<lparr>refcount := refcount c - 1\<rparr>)))"
proof (intro conjI impI allI)
  note cd = cs_okD [OF assms(2)]
  have u: "uint (cstrlen c) = int (length s) + 1" using cd(1) by (simp add: uint_nat)
  fix k
  show "cs_at h p (int k) = Some (s ! k)" if "k < length s" for k
    using that assms(1,5) cd(2,5) u by (simp add: cs_at_def aget_nat)
  show "cs_at h p k = Some 0" if "int (length s) < k" using that assms(1,5) u by (simp add: cs_at_def)
next
  note cd = cs_okD [OF assms(2)]
  show "\<exists>n. cs_length h p = Some n \<and> unat n = length s" using assms(1) cd(4) by (simp add: cs_length_def)
  have "cstrlen c > 1 \<longleftrightarrow> s \<noteq> []" using cd(1) by (simp add: word_less_nat_alt)
  then show "cs_empty h p = Some (if s = [] then 0 else 1)" using assms(1) by (simp add: cs_empty_def)
next
  show "append_realloc h q junk p p = None" using assms(1,6,7) by (auto simp: append_realloc_def Let_def)
next
  assume "refcount c = 1"
  then show "cstring_free h p = Some (h(p := None))"
    using assms(1,5) by (simp add: cstring_free_def atomic_fetch_sub_long_def to_int_small heap_free_def)
next
  assume "1 < refcount c \<and> refcount c < 2 ^ 31"
  then have "to_int (refcount c) = refcount c" by (simp add: to_int_def signed_of_int signed_take_bit_int_eq_self_iff)
  with \<open>1 < refcount c \<and> refcount c < 2 ^ 31\<close>
  show "cstring_free h p = Some (h(p \<mapsto> c\<lparr>refcount := refcount c - 1\<rparr>))"
    using assms(1) by (simp add: cstring_free_def atomic_fetch_sub_long_def)
qed (use new_string_spec [of h q index len src junk, OF assms(6,7)]
    substr_spec [of h p c s q index len junk, OF assms(1,2,6,7)] append_spec [of h p c ip i s t q junk, OF assms(1,3,2,4,6-8)]
    append_realloc_spec [of h p c ip i s t q junk, OF assms(1,3,2,4) disjI2 [OF assms(6)] assms(7) _ assms(8)] in blast)+

theorem cstring_correct_witness:
  "\<exists>n. append [1 \<mapsto> \<lparr>refcount = 1, cstrlen = 2, cvalue = [97, 0]\<rparr>, 2 \<mapsto> \<lparr>refcount = 1, cstrlen = 2, cvalue = [98, 0]\<rparr>]
      3 (\<lambda>_. 7) 1 2 = Some (n, 3)"
proof -
  let ?a = "\<lparr>refcount = 1, cstrlen = 2, cvalue = [97, 0]\<rparr>" and ?b = "\<lparr>refcount = 1, cstrlen = 2, cvalue = [98, 0]\<rparr>"
  have "cs_ok ?a [97]" "cs_ok ?b [98]" by (simp_all add: cs_ok_def)
  then show ?thesis
    using cstring_correct [of "[1 \<mapsto> ?a, 2 \<mapsto> ?b]" 1 ?a "[97]" 2 ?b "[98]" 3 0 0 "[]" "\<lambda>_. 7"] by auto
qed

end
