(* ===== verification/Kfifo.thy ===== *)
theory Kfifo
  imports CPrelude
begin

text \<open>
  \<open>mycache/src/struct/kfifo.h\<close> and \<open>kfifo.c\<close>: a byte ring buffer whose two 32-bit indices
  run freely and wrap at \<open>2 ^ 32\<close>.  The spin lock that \<open>fifo->lock\<close> points to is a flag of
  the record; taking a held lock does not return.  The results of \<open>malloc\<close> (success, and the
  undetermined initial contents) are parameters of the allocation.
\<close>

section \<open>Definitions\<close>

record kfifo =
  buffer :: "byte list"
  fsize :: u32
  kin :: u32
  kout :: u32
  lck :: bool

definition is_power_of_2 :: "u32 \<Rightarrow> bool" where
  "is_power_of_2 x \<longleftrightarrow> x \<noteq> 0 \<and> x AND (x - 1) = 0"

definition fls :: "u32 \<Rightarrow> nat" where
  "fls x =
     (if x = 0 then 0 else
      let (x, r) = (if x AND 0xffff0000 \<noteq> 0 then (drop_bit 16 x, 16) else (x, 0));
          (x, r) = (if x AND 0xff00 \<noteq> 0 then (drop_bit 8 x, r + 8) else (x, r));
          (x, r) = (if x AND 0xf0 \<noteq> 0 then (drop_bit 4 x, r + 4) else (x, r));
          (x, r) = (if x AND 0xc \<noteq> 0 then (drop_bit 2 x, r + 2) else (x, r));
          (x, r) = (if x AND 0x2 \<noteq> 0 then (drop_bit 1 x, r + 1) else (x, r))
      in r)"

definition roundup_pow_of_two :: "u32 \<Rightarrow> u32" where
  "roundup_pow_of_two n =
     (if n = 0 then 0 else push_bit (if n \<ge> 2 ^ 31 then 31 else fls n + 1) 1)"

text \<open>\<open>BUG_ON\<close> is \<open>assert\<close>: a failure aborts.\<close>

definition BUG_ON :: "bool \<Rightarrow> unit option" where
  "BUG_ON c = require (\<not> c)"

definition kfifo_init :: "bool \<Rightarrow> byte list \<Rightarrow> u32 \<Rightarrow> kfifo option option" where
  "kfifo_init malloc_ok buf sz = do {
     BUG_ON (\<not> is_power_of_2 sz);
     if \<not> malloc_ok then Some None
     else Some (Some \<lparr>buffer = buf, fsize = sz, kin = 0, kout = 0, lck = False\<rparr>)
   }"

text \<open>\<open>junk\<close> stands for the undetermined bytes of the fresh buffer.\<close>

definition kfifo_alloc :: "bool \<Rightarrow> (nat \<Rightarrow> byte) \<Rightarrow> bool \<Rightarrow> u32 \<Rightarrow> kfifo option option" where
  "kfifo_alloc buf_ok junk struct_ok sz = do {
     sz \<leftarrow> (if \<not> is_power_of_2 sz then do {
               BUG_ON (sz > 0x80000000);
               Some (roundup_pow_of_two sz)
             } else Some sz);
     if \<not> buf_ok then Some None
     else kfifo_init struct_ok (map junk [0..<unat sz]) sz
   }"

definition kfifo_put_nolock :: "kfifo \<Rightarrow> byte list \<Rightarrow> u32 \<Rightarrow> (kfifo \<times> u32) option" where
  "kfifo_put_nolock fifo src len = do {
     let len = min len (fsize fifo - kin fifo + kout fifo);
     let off = kin fifo AND (fsize fifo - 1);
     let l = min len (fsize fifo - off);
     b \<leftarrow> memcpy (buffer fifo) (unat off) src 0 (unat l);
     b \<leftarrow> memcpy b 0 src (unat l) (unat (len - l));
     Some (fifo\<lparr>buffer := b, kin := kin fifo + len\<rparr>, len)
   }"

definition kfifo_get_nolock ::
  "kfifo \<Rightarrow> byte list \<Rightarrow> u32 \<Rightarrow> (kfifo \<times> byte list \<times> u32) option" where
  "kfifo_get_nolock fifo dst len = do {
     let len = min len (kin fifo - kout fifo);
     let off = kout fifo AND (fsize fifo - 1);
     let l = min len (fsize fifo - off);
     d \<leftarrow> memcpy dst 0 (buffer fifo) (unat off) (unat l);
     d \<leftarrow> memcpy d (unat l) (buffer fifo) 0 (unat (len - l));
     Some (fifo\<lparr>kout := kout fifo + len\<rparr>, d, len)
   }"

definition kfifo_reset_nolock :: "kfifo \<Rightarrow> kfifo" where
  "kfifo_reset_nolock fifo = fifo\<lparr>kin := 0, kout := 0\<rparr>"

definition kfifo_len_nolock :: "kfifo \<Rightarrow> u32" where
  "kfifo_len_nolock fifo = kin fifo - kout fifo"

definition spin_lock :: "kfifo \<Rightarrow> kfifo option" where
  "spin_lock fifo = (if lck fifo then None else Some (fifo\<lparr>lck := True\<rparr>))"

definition spin_unlock :: "kfifo \<Rightarrow> kfifo" where
  "spin_unlock fifo = fifo\<lparr>lck := False\<rparr>"

definition kfifo_reset :: "kfifo \<Rightarrow> kfifo option" where
  "kfifo_reset fifo = do {
     fifo \<leftarrow> spin_lock fifo;
     Some (spin_unlock (kfifo_reset_nolock fifo))
   }"

definition kfifo_put :: "kfifo \<Rightarrow> byte list \<Rightarrow> u32 \<Rightarrow> (kfifo \<times> u32) option" where
  "kfifo_put fifo src len = do {
     fifo \<leftarrow> spin_lock fifo;
     (fifo, ret) \<leftarrow> kfifo_put_nolock fifo src len;
     Some (spin_unlock fifo, ret)
   }"

definition kfifo_get :: "kfifo \<Rightarrow> byte list \<Rightarrow> u32 \<Rightarrow> (kfifo \<times> byte list \<times> u32) option" where
  "kfifo_get fifo dst len = do {
     fifo \<leftarrow> spin_lock fifo;
     (fifo, dst, ret) \<leftarrow> kfifo_get_nolock fifo dst len;
     let fifo = (if kin fifo = kout fifo then fifo\<lparr>kin := 0, kout := 0\<rparr> else fifo);
     Some (spin_unlock fifo, dst, ret)
   }"

definition kfifo_len :: "kfifo \<Rightarrow> (kfifo \<times> u32) option" where
  "kfifo_len fifo = do {
     fifo \<leftarrow> spin_lock fifo;
     let ret = kfifo_len_nolock fifo;
     Some (spin_unlock fifo, ret)
   }"

section \<open>Powers of two\<close>

lemma nat_pow2_iff: "0 < n \<Longrightarrow> n AND (n - 1) = 0 \<longleftrightarrow> (\<exists>k. n = 2 ^ k)" for n :: nat
proof (induction n rule: less_induct)
  case (less n)
  show ?case
  proof (cases "even n")
    case True
    then obtain m where m: "n = 2 * m" by blast
    with less.prems have m0: "0 < m" "m < n" by auto
    have "n - 1 = 1 + 2 * (m - 1)" using m m0 by simp
    then have "n AND (n - 1) = 2 * (m AND (m - 1))"
      by (subst and_rec) (simp add: m)
    with less.IH [OF m0(2,1)] have "n AND (n - 1) = 0 \<longleftrightarrow> (\<exists>k. m = 2 ^ k)" by simp
    also have "\<dots> \<longleftrightarrow> (\<exists>k. n = 2 ^ k)"
    proof
      assume "\<exists>k. m = 2 ^ k"
      then show "\<exists>k. n = 2 ^ k" using m by (metis power_Suc)
    next
      assume "\<exists>k. n = 2 ^ k"
      then obtain k where k: "n = 2 ^ k" by blast
      with True have "k \<noteq> 0" by (cases k) auto
      then obtain j where "k = Suc j" by (cases k) auto
      with k m show "\<exists>k. m = 2 ^ k" by auto
    qed
    finally show ?thesis .
  next
    case False
    then obtain m where m: "n = 2 * m + 1" using oddE by blast
    have "n AND (n - 1) = 2 * m" by (subst and_rec) (simp add: m)
    moreover have "(\<exists>k. n = 2 ^ k) \<longleftrightarrow> m = 0"
    proof
      assume "\<exists>k. n = 2 ^ k"
      then obtain k where k: "n = 2 ^ k" by blast
      with False have "k = 0" by (cases k) auto
      with k m show "m = 0" by simp
    next
      assume "m = 0"
      with m have "n = 2 ^ 0" by simp
      then show "\<exists>k. n = 2 ^ k" by blast
    qed
    ultimately show ?thesis by simp
  qed
qed

lemma is_power_of_2_iff: "is_power_of_2 x \<longleftrightarrow> (\<exists>k < 32. unat x = 2 ^ k)"
proof (cases "x = 0")
  case True
  then show ?thesis by (simp add: is_power_of_2_def)
next
  case False
  then have pos: "0 < unat x" by (simp add: unat_gt_0)
  have "unat (x AND (x - 1)) = unat x AND (unat x - 1)"
    using False by (simp add: unsigned_and_eq unat_minus_one)
  then have "is_power_of_2 x \<longleftrightarrow> unat x AND (unat x - 1) = 0"
    using False by (metis is_power_of_2_def unat_eq_zero)
  also have "\<dots> \<longleftrightarrow> (\<exists>k. unat x = 2 ^ k)" using pos by (rule nat_pow2_iff)
  also have "\<dots> \<longleftrightarrow> (\<exists>k < 32. unat x = 2 ^ k)"
  proof
    assume "\<exists>k. unat x = 2 ^ k"
    then obtain k where k: "unat x = 2 ^ k" by blast
    then have "(2::nat) ^ k < 2 ^ 32" using unsigned_less [of x, where ?'a = nat] by simp
    then have "k < 32" by (rule power_less_imp_less_exp [rotated]) simp
    with k show "\<exists>k < 32. unat x = 2 ^ k" by blast
  qed blast
  finally show ?thesis .
qed

text \<open>One halving step of \<open>fls\<close>: the tested mask covers bits \<open>k\<close> to \<open>k + j - 1\<close>.\<close>

lemma mask_test:
  fixes x :: "'a::len word"
  assumes "unat x < 2 ^ (k + j)"
  shows "x AND push_bit k (mask j) = 0 \<longleftrightarrow> unat x < 2 ^ k"
proof
  assume z: "x AND push_bit k (mask j) = 0"
  show "unat x < 2 ^ k"
    unfolding unat_less_exp_bit
  proof (intro allI impI)
    fix n assume n: "bit x n"
    have "\<not> bit (x AND push_bit k (mask j)) n" using z by simp
    with n assms bit_imp_le_length [OF n] show "n < k"
      unfolding unat_less_exp_bit by (fastforce simp: bit_simps)
  qed
next
  assume "unat x < 2 ^ k"
  then show "x AND push_bit k (mask j) = 0"
    unfolding unat_less_exp_bit by (auto simp: bit_eq_iff bit_simps)
qed

lemma fls_masks:
  fixes x :: u32
  shows "x AND 0xffff0000 = 0 \<longleftrightarrow> unat x < 2 ^ 16"
    and "unat x < 2 ^ 16 \<Longrightarrow> x AND 0xff00 = 0 \<longleftrightarrow> unat x < 2 ^ 8"
    and "unat x < 2 ^ 8 \<Longrightarrow> x AND 0xf0 = 0 \<longleftrightarrow> unat x < 2 ^ 4"
    and "unat x < 2 ^ 4 \<Longrightarrow> x AND 0xc = 0 \<longleftrightarrow> unat x < 2 ^ 2"
    and "unat x < 2 ^ 2 \<Longrightarrow> x AND 0x2 = 0 \<longleftrightarrow> unat x < 2 ^ 1"
  using mask_test [of x 16 16] mask_test [of x 8 8] mask_test [of x 4 4] mask_test [of x 2 2]
    mask_test [of x 1 1] unsigned_less [of x, where ?'a = nat]
  by (simp_all add: mask_eq_exp_minus_1 push_bit_eq_mult)

definition fls_inv :: "nat \<Rightarrow> u32 \<Rightarrow> u32 \<times> nat \<Rightarrow> bool" where
  "fls_inv b n xr \<longleftrightarrow> unat (fst xr) = unat n div 2 ^ snd xr \<and> 0 < unat (fst xr) \<and> unat (fst xr) < 2 ^ b"

lemma fls_inv_lt: "fls_inv b n s \<Longrightarrow> unat (fst s) < 2 ^ b"
  by (simp add: fls_inv_def)

lemma fls_inv_step:
  assumes "fls_inv (k + k) n s" and "fst s AND m = 0 \<longleftrightarrow> unat (fst s) < 2 ^ k"
  shows "fls_inv k n (if fst s AND m \<noteq> 0 then (drop_bit k (fst s), snd s + k) else s)"
proof (cases "unat (fst s) < 2 ^ k")
  case False
  have "unat (drop_bit k (fst s)) = unat (fst s) div 2 ^ k" by (rule unat_drop_bit)
  moreover have "0 < unat (fst s) div 2 ^ k" using False by (simp add: div_greater_zero_iff)
  moreover from fls_inv_lt [OF assms(1)] have "unat (fst s) div 2 ^ k < 2 ^ k"
    by (simp add: div_less_iff_less_mult power_add)
  ultimately show ?thesis
    using assms False by (simp add: fls_inv_def power_add div_mult2_eq)
qed (use assms in \<open>auto simp: fls_inv_def\<close>)

lemma fls_bounds:
  assumes "x \<noteq> 0"
  shows "2 ^ fls x \<le> unat x \<and> unat x < 2 ^ Suc (fls x)"
proof -
  define s1 where "s1 = (if x AND 0xffff0000 \<noteq> 0 then (drop_bit 16 x, 16::nat) else (x, 0))"
  define s2 where "s2 = (if fst s1 AND 0xff00 \<noteq> 0 then (drop_bit 8 (fst s1), snd s1 + 8) else s1)"
  define s3 where "s3 = (if fst s2 AND 0xf0 \<noteq> 0 then (drop_bit 4 (fst s2), snd s2 + 4) else s2)"
  define s4 where "s4 = (if fst s3 AND 0xc \<noteq> 0 then (drop_bit 2 (fst s3), snd s3 + 2) else s3)"
  define s5 where "s5 = (if fst s4 AND 0x2 \<noteq> 0 then (drop_bit 1 (fst s4), snd s4 + 1) else s4)"
  have fls: "fls x = snd s5"
    using assms unfolding fls_def s5_def s4_def s3_def s2_def s1_def
    by (simp add: Let_def split_def)
  have "fls_inv 32 x (x, 0)"
    using assms unsigned_less [of x, where ?'a = nat] by (simp add: fls_inv_def unat_gt_0)
  then have "fls_inv 16 x s1"
    using fls_inv_step [of 16 x "(x, 0)" "0xffff0000"] fls_masks(1) [of x]
    by (simp add: s1_def del: power_numeral split: if_splits)
  then have "fls_inv 8 x s2"
    using fls_inv_step [of 8 x s1 "0xff00"] fls_masks(2) [OF fls_inv_lt] by (simp add: s2_def)
  then have "fls_inv 4 x s3"
    using fls_inv_step [of 4 x s2 "0xf0"] fls_masks(3) [OF fls_inv_lt] by (simp add: s3_def)
  then have "fls_inv 2 x s4"
    using fls_inv_step [of 2 x s3 "0xc"] fls_masks(4) [OF fls_inv_lt] by (simp add: s4_def)
  then have "fls_inv 1 x s5"
    using fls_inv_step [of 1 x s4 "0x2"] fls_masks(5) [OF fls_inv_lt]
    by (simp add: s5_def numeral_2_eq_2)
  then have "unat x div 2 ^ snd s5 = 1" by (simp add: fls_inv_def)
  then have "unat x = 2 ^ snd s5 + unat x mod 2 ^ snd s5"
    using div_mult_mod_eq [of "unat x" "2 ^ snd s5"] by simp
  moreover have "unat x mod 2 ^ snd s5 < 2 ^ snd s5" by simp
  ultimately show ?thesis unfolding fls power_Suc by linarith
qed

section \<open>Reading and writing a window of the ring\<close>

text \<open>The \<open>n\<close> bytes of a ring that start at index \<open>s\<close>, wrapping at its end.\<close>

definition ring :: "byte list \<Rightarrow> nat \<Rightarrow> nat \<Rightarrow> byte list" where
  "ring b s n = map (\<lambda>i. b ! ((s + i) mod length b)) [0..<n]"

lemma length_ring [simp]: "length (ring b s n) = n"
  by (simp add: ring_def)

lemma ring_0 [simp]: "ring b s 0 = []"
  by (simp add: ring_def)

lemma nth_ring: "i < n \<Longrightarrow> ring b s n ! i = b ! ((s + i) mod length b)"
  by (simp add: ring_def)

lemma ring_append: "ring b s (m + n) = ring b s m @ ring b (s + m) n"
  by (rule nth_equalityI) (auto simp: nth_append nth_ring add.assoc)

lemma ring_cong_mod: "s mod length b = t mod length b \<Longrightarrow> ring b s n = ring b t n"
  by (rule nth_equalityI) (auto simp: nth_ring, metis mod_add_left_eq)

lemma ring_wrap:
  fixes N :: nat
  shows "off < N \<Longrightarrow> j < N \<Longrightarrow> (off + j) mod N = (if off + j < N then off + j else off + j - N)"
  by (simp add: mod_if)

lemma mod_window_inj:
  fixes N :: nat
  assumes "(x + a) mod N = (x + b) mod N" and "a < b" and "b < a + N"
  shows False
proof -
  from assms(1,2) have "N dvd (x + b) - (x + a)" by (intro mod_eq_dvd_iff_nat [THEN iffD1]) auto
  then have "N dvd b - a" by simp
  with assms(2,3) show False by (auto dest: dvd_imp_le)
qed

text \<open>The two \<open>memcpy\<close> calls of a put fill the window and leave the bytes before it alone.\<close>

lemma ring_write:
  assumes "off < length b" and "n \<le> length b" and "n \<le> length src"
    and "l = min n (length b - off)"
  obtains b' where "do { b1 \<leftarrow> memcpy b off src 0 l; memcpy b1 0 src l (n - l) } = Some b'"
    and "length b' = length b" and "ring b' off n = take n src"
    and "\<And>s m. (s + m) mod length b = off \<Longrightarrow> m + n \<le> length b \<Longrightarrow> ring b' s m = ring b s m"
proof -
  have l: "off + l \<le> length b" "l \<le> length src" "n - l \<le> length b" "l + (n - l) \<le> length src"
    using assms by (auto simp: min_def)
  obtain b1 where b1: "memcpy b off src 0 l = Some b1"
    using memcpy_ex [of off l b 0 src] l by auto
  have len1: "length b1 = length b" using b1 by (rule memcpy_length)
  obtain b' where b': "memcpy b1 0 src l (n - l) = Some b'"
    using memcpy_ex [of 0 "n - l" b1 l src] l len1 by auto
  have len: "length b' = length b" using memcpy_length [OF b'] len1 by simp
  have nth: "b' ! i = (if i < n - l then src ! (l + i)
      else if off \<le> i \<and> i < off + l then src ! (i - off) else b ! i)" if "i < length b" for i
    using that memcpy_nth [OF b', of i] memcpy_nth [OF b1, of i] len1 by auto
  have old: "b' ! i = b ! i"
    if i: "i < length b" and other: "\<And>j. j < n \<Longrightarrow> (off + j) mod length b \<noteq> i" for i
  proof -
    have "\<not> i < n - l"
    proof
      assume "i < n - l"
      with assms(1,4) have "off + (l + i) = length b + i" "l + i < n" by (auto simp: min_def split: if_splits)
      with other [of "l + i"] i show False by simp
    qed
    moreover have "\<not> (off \<le> i \<and> i < off + l)"
    proof
      assume w: "off \<le> i \<and> i < off + l"
      with assms(4) have "i - off < n" by linarith
      with w i other [of "i - off"] show False by simp
    qed
    ultimately show ?thesis using nth [OF i] by auto
  qed
  show thesis
  proof
    show "do { b1 \<leftarrow> memcpy b off src 0 l; memcpy b1 0 src l (n - l) } = Some b'"
      using b1 b' by simp
    show "ring b' off n = take n src"
    proof (rule nth_equalityI)
      fix j assume "j < length (ring b' off n)"
      then show "ring b' off n ! j = take n src ! j"
        using assms nth [of "(off + j) mod length b"]
        by (auto simp: nth_ring len ring_wrap min_def split: if_splits)
    qed (use assms in simp)
    fix s m assume s: "(s + m) mod length b = off" and m: "m + n \<le> length b"
    show "ring b' s m = ring b s m"
    proof (rule nth_equalityI)
      fix i assume i: "i < length (ring b' s m)"
      have "(off + j) mod length b \<noteq> (s + i) mod length b" if "j < n" for j
      proof
        assume "(off + j) mod length b = (s + i) mod length b"
        then have "(s + i) mod length b = (s + (m + j)) mod length b"
          unfolding s [symmetric] by (metis add.assoc mod_add_left_eq)
        then show False using i m that by (auto intro: mod_window_inj [of s i "length b" "m + j"])
      qed
      moreover have "(s + i) mod length b < length b" using assms(1) by (intro mod_less_divisor) linarith
      ultimately have "b' ! ((s + i) mod length b) = b ! ((s + i) mod length b)" by (intro old) auto
      with i show "ring b' s m ! i = ring b s m ! i" by (simp add: nth_ring len)
    qed simp
  qed (rule len)
qed

text \<open>The two \<open>memcpy\<close> calls of a get deliver the window.\<close>

lemma ring_read:
  assumes "off < length b" and "n \<le> length b" and "n \<le> length dst"
    and "l = min n (length b - off)"
  shows "do { d \<leftarrow> memcpy dst 0 b off l; memcpy d l b 0 (n - l) } =
    Some (ring b off n @ drop n dst)"
proof -
  have l: "off + l \<le> length b" "l \<le> length dst" "n - l \<le> length b" "l + (n - l) \<le> length dst"
    using assms by (auto simp: min_def)
  obtain d1 where d1: "memcpy dst 0 b off l = Some d1"
    using memcpy_ex [of 0 l dst off b] l by auto
  have len1: "length d1 = length dst" using d1 by (rule memcpy_length)
  obtain d where d: "memcpy d1 l b 0 (n - l) = Some d"
    using memcpy_ex [of l "n - l" d1 0 b] l len1 by auto
  have len: "length d = length dst" using memcpy_length [OF d] len1 by simp
  have "d = ring b off n @ drop n dst"
  proof (rule nth_equalityI)
    fix i assume i: "i < length d"
    have "d ! i = (if l \<le> i \<and> i < n then b ! (i - l) else if i < l then b ! (off + i) else dst ! i)"
      using i memcpy_nth [OF d, of i] memcpy_nth [OF d1, of i] len len1 assms by auto
    then show "d ! i = (ring b off n @ drop n dst) ! i"
      using i len assms
      by (auto simp: nth_append nth_ring ring_wrap min_def add.commute split: if_splits)
  qed (use len assms in simp)
  with d d1 show ?thesis by simp
qed

section \<open>Invariant and abstract contents\<close>

definition kfifo_ok :: "kfifo \<Rightarrow> bool" where
  "kfifo_ok f \<longleftrightarrow> is_power_of_2 (fsize f) \<and> length (buffer f) = unat (fsize f)
     \<and> kin f - kout f \<le> fsize f"

definition contents :: "kfifo \<Rightarrow> byte list" where
  "contents f = ring (buffer f) (unat (kout f)) (unat (kin f - kout f))"

abbreviation capacity :: "kfifo \<Rightarrow> nat" where
  "capacity f \<equiv> unat (fsize f)"

lemma length_contents [simp]: "length (contents f) = unat (kin f - kout f)"
  by (simp add: contents_def)

lemma kfifo_okD:
  assumes "kfifo_ok f"
  shows "length (buffer f) = capacity f" and "unat (kin f - kout f) \<le> capacity f"
    and "0 < capacity f" and "capacity f dvd 2 ^ 32"
    and "unat (x AND (fsize f - 1)) = unat x mod capacity f"
proof -
  from assms obtain k where k: "k < 32" "capacity f = 2 ^ k"
    by (auto simp: kfifo_ok_def is_power_of_2_iff)
  show "length (buffer f) = capacity f" "unat (kin f - kout f) \<le> capacity f"
    using assms by (simp_all add: kfifo_ok_def word_le_nat_alt)
  show "0 < capacity f" using k by simp
  show "capacity f dvd 2 ^ 32" unfolding k(2) using k(1) by (intro le_imp_power_dvd) simp
  have "(of_nat (2 ^ k) :: u32) = 2 ^ k" by simp
  then have "of_nat (capacity f) = (2 ^ k :: u32)" by (simp only: k(2))
  then have "fsize f - 1 = mask k" by (simp add: mask_eq_exp_minus_1)
  then have "x AND (fsize f - 1) = take_bit k x" by (simp only: take_bit_eq_mask)
  then have "unat (x AND (fsize f - 1)) = take_bit k (unat x)"
    by (simp only: unsigned_take_bit_eq)
  with k(2) show "unat (x AND (fsize f - 1)) = unat x mod capacity f"
    by (simp only: take_bit_eq_mod)
qed

lemma unat_add_mod:
  assumes "N dvd (2::nat) ^ 32"
  shows "unat (x + y :: u32) mod N = (unat x + unat y) mod N"
  using assms by (simp add: unat_word_ariths mod_mod_cancel)

lemma kin_slot:
  assumes "kfifo_ok f"
  shows "unat (kin f) mod capacity f = (unat (kout f) + unat (kin f - kout f)) mod capacity f"
  using unat_add_mod [OF kfifo_okD(4) [OF assms], of "kout f" "kin f - kout f"] by simp

lemma room_eq:
  assumes "kfifo_ok f"
  shows "unat (fsize f - kin f + kout f) = capacity f - unat (kin f - kout f)"
proof -
  have "fsize f - kin f + kout f = fsize f - (kin f - kout f)" by simp
  moreover have "kin f - kout f \<le> fsize f" using assms by (simp add: kfifo_ok_def)
  ultimately show ?thesis by (metis unat_sub)
qed

lemma unat_min: "unat (min a b :: u32) = min (unat a) (unat b)"
  by (simp add: min_def word_le_nat_alt)

text \<open>The word arithmetic both operations share: the offset of an index and the two lengths.\<close>

lemma window_arith:
  fixes x m :: u32
  assumes "kfifo_ok f" and "unat m \<le> capacity f"
  defines "off \<equiv> x AND (fsize f - 1)"
  defines "l \<equiv> min m (fsize f - off)"
  shows "unat off = unat x mod capacity f" and "unat off < capacity f"
    and "unat l = min (unat m) (capacity f - unat off)" and "unat (m - l) = unat m - unat l"
proof -
  show off: "unat off = unat x mod capacity f"
    using kfifo_okD(5) [OF assms(1)] by (simp only: off_def)
  then show lt: "unat off < capacity f" using kfifo_okD(3) [OF assms(1)] by simp
  then have "off \<le> fsize f" by (simp add: word_le_nat_alt)
  then have "unat (fsize f - off) = capacity f - unat off" by (rule unat_sub)
  then show "unat l = min (unat m) (capacity f - unat off)" by (simp add: l_def unat_min)
  have "l \<le> m" by (simp add: l_def)
  then show "unat (m - l) = unat m - unat l" by (rule unat_sub)
qed

lemma unat_add_small: "unat (a :: u32) + unat b \<le> unat (c :: u32) \<Longrightarrow> unat (a + b) = unat a + unat b"
  using unsigned_less [of c, where ?'a = nat] by (simp add: unat_word_ariths)

lemma kfifo_put_nolock_spec:
  assumes ok: "kfifo_ok f" and src: "unat len \<le> length src"
  defines "n \<equiv> min (unat len) (capacity f - length (contents f))"
  shows "\<exists>f'. kfifo_put_nolock f src len = Some (f', of_nat n) \<and> kfifo_ok f'
    \<and> contents f' = contents f @ take n src \<and> fsize f' = fsize f \<and> lck f' = lck f"
proof -
  let ?c = "unat (kin f - kout f)"
  define m where "m = min len (fsize f - kin f + kout f)"
  define off where "off = kin f AND (fsize f - 1)"
  define l where "l = min m (fsize f - off)"
  have m: "unat m = n" by (simp add: m_def unat_min room_eq [OF ok] n_def)
  note N = kfifo_okD [OF ok]
  have n: "?c + n \<le> capacity f" "n \<le> length src" using N(2) src by (auto simp: n_def)
  note arith = window_arith [OF ok, of m "kin f", folded off_def, folded l_def]
  obtain b where b: "do { b1 \<leftarrow> memcpy (buffer f) (unat off) src 0 (unat l);
        memcpy b1 0 src (unat l) (n - unat l) } = Some b"
    and len: "length b = length (buffer f)" and new: "ring b (unat off) n = take n src"
    and old: "ring b (unat (kout f)) ?c = ring (buffer f) (unat (kout f)) ?c"
    using ring_write [of "unat off" "buffer f" n src "unat l"] arith n m N kin_slot [OF ok]
    by (metis (no_types, lifting) add_leD2)
  let ?f = "f\<lparr>buffer := b, kin := kin f + m\<rparr>"
  have "kfifo_put_nolock f src len = Some (?f, m)"
    using b arith(4) n m by (simp add: kfifo_put_nolock_def Let_def flip: off_def m_def l_def)
      (auto split: bind_splits)
  moreover have cnt: "unat (kin ?f - kout ?f) = ?c + n"
    using unat_add_small [of "kin f - kout f" m "fsize f"] n m by (simp add: algebra_simps)
  moreover have "contents ?f = contents f @ take n src"
    using cnt old new arith(1) N(1) n m kin_slot [OF ok] len
      ring_cong_mod [of "unat (kout f) + ?c" b "unat off" n]
    by (simp add: contents_def ring_append)
  moreover have "kfifo_ok ?f" using ok cnt n len by (simp add: kfifo_ok_def word_le_nat_alt)
  moreover have "m = of_nat n" by (simp flip: m)
  ultimately show ?thesis by auto
qed

lemma kfifo_get_nolock_spec:
  assumes ok: "kfifo_ok f" and dst: "unat len \<le> length dst"
  defines "n \<equiv> min (unat len) (length (contents f))"
  shows "\<exists>f'. kfifo_get_nolock f dst len = Some (f', take n (contents f) @ drop n dst, of_nat n)
    \<and> kfifo_ok f' \<and> contents f' = drop n (contents f) \<and> fsize f' = fsize f \<and> lck f' = lck f"
proof -
  let ?c = "unat (kin f - kout f)"
  define m where "m = min len (kin f - kout f)"
  define off where "off = kout f AND (fsize f - 1)"
  define l where "l = min m (fsize f - off)"
  have m: "unat m = n" by (simp add: m_def unat_min n_def)
  note N = kfifo_okD [OF ok]
  have n: "n \<le> ?c" "n \<le> length dst" using dst by (auto simp: n_def)
  note arith = window_arith [OF ok, of m "kout f", folded off_def, folded l_def]
  have rd: "do { d \<leftarrow> memcpy dst 0 (buffer f) (unat off) (unat l);
        memcpy d (unat l) (buffer f) 0 (n - unat l) } =
      Some (ring (buffer f) (unat off) n @ drop n dst)"
    using ring_read [of "unat off" "buffer f" n dst "unat l"] arith n m N by simp
  have split: "contents f = ring (buffer f) (unat (kout f)) n @ ring (buffer f) (unat (kout f) + n) (?c - n)"
    using ring_append [of "buffer f" "unat (kout f)" n "?c - n"] n by (simp add: contents_def)
  have win: "ring (buffer f) (unat off) n = take n (contents f)"
    using split ring_cong_mod [of "unat off" "buffer f" "unat (kout f)" n] arith(1) m n N by simp
  let ?f = "f\<lparr>kout := kout f + m\<rparr>"
  have "kfifo_get_nolock f dst len = Some (?f, take n (contents f) @ drop n dst, m)"
    using rd arith(4) n m N(2) win
    by (simp add: kfifo_get_nolock_def Let_def flip: off_def m_def l_def) (auto split: bind_splits)
  moreover have cnt: "unat (kin ?f - kout ?f) = ?c - n"
    using unat_sub [of m "kin f - kout f"] n m by (simp add: m_def algebra_simps)
  moreover have "contents ?f = drop n (contents f)"
    using cnt split unat_add_mod [OF N(4), of "kout f" m] m N(1)
      ring_cong_mod [of "unat (kout f + m)" "buffer f" "unat (kout f) + n"]
    by (simp add: contents_def [of ?f])
  moreover have "kfifo_ok ?f" using ok cnt N(2) by (simp add: kfifo_ok_def word_le_nat_alt)
  moreover have "m = of_nat n" by (simp flip: m)
  ultimately show ?thesis by auto
qed

section \<open>The interface of a byte queue\<close>

text \<open>
  What a client of a bounded byte queue relies on: \<open>put\<close> appends as many bytes as fit,
  \<open>get\<close> removes from the front, both report the number of bytes moved.
\<close>

locale byte_fifo =
  fixes put :: "'q \<Rightarrow> byte list \<Rightarrow> u32 \<Rightarrow> ('q \<times> u32) option"
    and get :: "'q \<Rightarrow> byte list \<Rightarrow> u32 \<Rightarrow> ('q \<times> byte list \<times> u32) option"
    and invar :: "'q \<Rightarrow> bool" and items :: "'q \<Rightarrow> byte list" and cap :: "'q \<Rightarrow> nat"
  assumes put_law: "invar q \<Longrightarrow> unat len \<le> length src \<Longrightarrow>
      \<exists>q' n. put q src len = Some (q', of_nat n) \<and> n = min (unat len) (cap q - length (items q))
        \<and> invar q' \<and> cap q' = cap q \<and> items q' = items q @ take n src"
    and get_law: "invar q \<Longrightarrow> unat len \<le> length dst \<Longrightarrow>
      \<exists>q' n. get q dst len = Some (q', take n (items q) @ drop n dst, of_nat n)
        \<and> n = min (unat len) (length (items q)) \<and> invar q' \<and> cap q' = cap q
        \<and> items q' = drop n (items q)"

text \<open>A client: a sequence of puts and gets, with the bytes accepted and the bytes delivered.\<close>

datatype fifo_op = Put "byte list" | Get nat

fun fifo_op_ok :: "fifo_op \<Rightarrow> bool" where
  "fifo_op_ok (Put bs) \<longleftrightarrow> length bs < 2 ^ 32"
| "fifo_op_ok (Get n) \<longleftrightarrow> n < 2 ^ 32"

fun fifo_run ::
  "('q \<Rightarrow> byte list \<Rightarrow> u32 \<Rightarrow> ('q \<times> u32) option) \<Rightarrow>
   ('q \<Rightarrow> byte list \<Rightarrow> u32 \<Rightarrow> ('q \<times> byte list \<times> u32) option) \<Rightarrow>
   'q \<Rightarrow> fifo_op list \<Rightarrow> ('q \<times> byte list \<times> byte list) option" where
  "fifo_run put get q [] = Some (q, [], [])"
| "fifo_run put get q (Put bs # ops) = do {
     (q, n) \<leftarrow> put q bs (of_nat (length bs));
     (q, acc, del) \<leftarrow> fifo_run put get q ops;
     Some (q, take (unat n) bs @ acc, del)
   }"
| "fifo_run put get q (Get n # ops) = do {
     (q, dst, n) \<leftarrow> get q (replicate n 0) (of_nat n);
     (q, acc, del) \<leftarrow> fifo_run put get q ops;
     Some (q, acc, take (unat n) dst @ del)
   }"

lemma unat_of_nat_u32: "n < 2 ^ 32 \<Longrightarrow> unat (of_nat n :: u32) = n"
  by (simp add: unsigned_of_nat take_bit_nat_eq_self)

context byte_fifo
begin

lemma run_order:
  assumes "invar q" and "list_all fifo_op_ok ops"
  shows "\<exists>q' acc del. fifo_run put get q ops = Some (q', acc, del) \<and> invar q' \<and> cap q' = cap q
    \<and> items q @ acc = del @ items q'"
  using assms
proof (induction ops arbitrary: q)
  case (Cons op ops)
  show ?case
  proof (cases op)
    case (Put bs)
    with Cons.prems have small: "length bs < 2 ^ 32" by simp
    obtain q1 n where p: "put q bs (of_nat (length bs)) = Some (q1, of_nat n)"
      and n: "n \<le> length bs" and q1: "invar q1" "cap q1 = cap q" "items q1 = items q @ take n bs"
      using put_law [OF Cons.prems(1), of "of_nat (length bs)" bs] unat_of_nat_u32 [OF small] by auto
    with small have un: "unat (of_nat n :: u32) = n" by (intro unat_of_nat_u32) simp
    obtain q' acc del where "fifo_run put get q1 ops = Some (q', acc, del)" "invar q'"
      "cap q' = cap q" "items q1 @ acc = del @ items q'"
      using Cons.IH [OF q1(1)] Cons.prems q1(2) by auto
    with p q1 un Put show ?thesis by auto
  next
    case (Get k)
    with Cons.prems have small: "k < 2 ^ 32" by simp
    obtain q1 n where p: "get q (replicate k 0) (of_nat k) =
        Some (q1, take n (items q) @ drop n (replicate k 0), of_nat n)"
      and n: "n \<le> k" "n \<le> length (items q)" and q1: "invar q1" "cap q1 = cap q"
        "items q1 = drop n (items q)"
      using get_law [OF Cons.prems(1), of "of_nat k" "replicate k 0"] unat_of_nat_u32 [OF small] by auto
    with small have un: "unat (of_nat n :: u32) = n" by (intro unat_of_nat_u32) simp
    obtain q' acc del where r: "fifo_run put get q1 ops = Some (q', acc, del)" "invar q'"
      "cap q' = cap q" "items q1 @ acc = del @ items q'"
      using Cons.IH [OF q1(1)] Cons.prems q1(2) by auto
    have "items q @ acc = take n (items q) @ del @ items q'"
      using r(4) q1(3) by (metis append.assoc append_take_drop_id)
    with p r un n Get show ?thesis by auto
  qed
qed simp

end

definition kfifo_invar :: "kfifo \<Rightarrow> bool" where
  "kfifo_invar f \<longleftrightarrow> kfifo_ok f \<and> \<not> lck f"

lemma kfifo_ok_lck [simp]: "kfifo_ok (f\<lparr>lck := b\<rparr>) = kfifo_ok f" "contents (f\<lparr>lck := b\<rparr>) = contents f"
  by (simp_all add: kfifo_ok_def contents_def)

lemma kfifo_put_law:
  assumes "kfifo_invar f" and "unat len \<le> length src"
  shows "\<exists>f' n. kfifo_put f src len = Some (f', of_nat n)
    \<and> n = min (unat len) (capacity f - length (contents f))
    \<and> kfifo_invar f' \<and> capacity f' = capacity f \<and> contents f' = contents f @ take n src"
  using assms kfifo_put_nolock_spec [of "f\<lparr>lck := True\<rparr>" len src]
  by (force simp: kfifo_invar_def kfifo_put_def spin_lock_def spin_unlock_def)

lemma kfifo_get_law:
  assumes "kfifo_invar f" and "unat len \<le> length dst"
  shows "\<exists>f' n. kfifo_get f dst len = Some (f', take n (contents f) @ drop n dst, of_nat n)
    \<and> n = min (unat len) (length (contents f)) \<and> kfifo_invar f' \<and> capacity f' = capacity f
    \<and> contents f' = drop n (contents f)"
proof -
  let ?n = "min (unat len) (length (contents f))"
  obtain g where g: "kfifo_get_nolock (f\<lparr>lck := True\<rparr>) dst len =
      Some (g, take ?n (contents f) @ drop ?n dst, of_nat ?n)"
    and ok: "kfifo_ok g" "contents g = drop ?n (contents f)" "fsize g = fsize f"
    using assms kfifo_get_nolock_spec [of "f\<lparr>lck := True\<rparr>" len dst] by (auto simp: kfifo_invar_def)
  let ?h = "if kin g = kout g then g\<lparr>kin := 0, kout := 0\<rparr> else g"
  have "kfifo_ok ?h" "contents ?h = contents g" "fsize ?h = fsize g"
    using ok(1) by (simp_all add: kfifo_ok_def contents_def)
  with g ok assms show ?thesis
    by (auto simp: kfifo_invar_def kfifo_get_def spin_lock_def spin_unlock_def Let_def)
qed

interpretation kf: byte_fifo kfifo_put kfifo_get kfifo_invar contents capacity
  by unfold_locales (rule kfifo_put_law kfifo_get_law; assumption)+

section \<open>Allocation\<close>

lemma roundup_bounds:
  assumes "0 < unat n" and "unat n < 2 ^ 31"
  shows "unat (roundup_pow_of_two n) = 2 ^ Suc (fls n)" and "fls n < 31"
proof -
  from assms(1) have n0: "n \<noteq> 0" by auto
  have "2 ^ fls n < (2::nat) ^ 31" using fls_bounds [OF n0] assms(2) by linarith
  then show lt: "fls n < 31" by (rule power_less_imp_less_exp [rotated]) simp
  have "\<not> n \<ge> 2 ^ 31" using assms(2) by (simp add: word_le_nat_alt)
  then have "roundup_pow_of_two n = of_nat (2 ^ Suc (fls n))"
    using n0 by (simp add: roundup_pow_of_two_def push_bit_eq_mult)
  moreover have "(2::nat) ^ Suc (fls n) < 2 ^ 32" using lt by (intro power_strict_increasing) auto
  ultimately show "unat (roundup_pow_of_two n) = 2 ^ Suc (fls n)"
    by (simp only: unat_of_nat_u32)
qed

lemma kfifo_alloc_size:
  assumes "0 < unat sz" and "unat sz \<le> 2 ^ 31"
  obtains sz' where "is_power_of_2 sz'" and "unat sz \<le> unat sz'" and "unat sz' < 2 * unat sz"
    and "(if \<not> is_power_of_2 sz then do { BUG_ON (sz > 0x80000000); Some (roundup_pow_of_two sz) }
          else Some sz) = Some sz'"
proof (cases "is_power_of_2 sz")
  case True
  with assms that [of sz] show thesis by simp
next
  case False
  have "unat sz \<noteq> 2 ^ 31"
    using False by (auto simp: is_power_of_2_iff dest!: spec [of _ 31])
  with assms have lt: "unat sz < 2 ^ 31" by simp
  note r = roundup_bounds [OF assms(1) lt]
  have "is_power_of_2 (roundup_pow_of_two sz)"
    unfolding is_power_of_2_iff r(1) using r(2) by (intro exI [of _ "Suc (fls sz)"]) simp
  moreover have nz: "sz \<noteq> 0" using assms(1) by auto
  moreover have "fls sz < 32" using r(2) by simp
  with False have "unat sz \<noteq> 2 ^ fls sz" unfolding is_power_of_2_iff by blast
  then have "unat sz \<le> unat (roundup_pow_of_two sz)" "unat (roundup_pow_of_two sz) < 2 * unat sz"
    using fls_bounds [OF nz] r(1) by auto
  moreover have "\<not> sz > 0x80000000" using assms(2) by (simp add: word_less_nat_alt)
  ultimately show thesis
    using False that [of "roundup_pow_of_two sz"] by (simp add: BUG_ON_def)
qed

section \<open>Properties\<close>

text \<open>
  On a well-formed, unlocked fifo, \<open>kfifo_put\<close> returns: it accepts the first
  \<open>min len (free space)\<close> bytes, appends exactly those to the contents and reports how many;
  \<open>kfifo_get\<close> removes the first \<open>min len (stored)\<close> bytes and delivers them in order at the start of
  the caller's buffer, leaving the rest of that buffer alone; \<open>kfifo_len\<close> reports the number of stored
  bytes, and \<open>kfifo_reset\<close> empties the fifo.  All this also when the 32-bit indices have wrapped.
\<close>

theorem kfifo_ops_correct:
  assumes "kfifo_ok f" and "\<not> lck f" and "unat len \<le> length src" and "unat len' \<le> length dst"
  shows "(let n = min (unat len) (unat (fsize f) - length (contents f)) in
      \<exists>f'. kfifo_put f src len = Some (f', of_nat n) \<and> kfifo_ok f' \<and> \<not> lck f' \<and> fsize f' = fsize f
        \<and> contents f' = contents f @ take n src)
    \<and> (let n = min (unat len') (length (contents f)) in
      \<exists>f'. kfifo_get f dst len' = Some (f', take n (contents f) @ drop n dst, of_nat n)
        \<and> kfifo_ok f' \<and> \<not> lck f' \<and> fsize f' = fsize f \<and> contents f' = drop n (contents f))
    \<and> kfifo_len f = Some (f, of_nat (length (contents f)))
    \<and> (\<exists>f'. kfifo_reset f = Some f' \<and> kfifo_ok f' \<and> contents f' = [] \<and> fsize f' = fsize f)"
proof (intro conjI)
  have inv: "kfifo_invar f" using assms by (simp add: kfifo_invar_def)
  show "let n = min (unat len) (unat (fsize f) - length (contents f)) in
      \<exists>f'. kfifo_put f src len = Some (f', of_nat n) \<and> kfifo_ok f' \<and> \<not> lck f' \<and> fsize f' = fsize f
        \<and> contents f' = contents f @ take n src"
    using kf.put_law [OF inv assms(3)] by (auto simp: kfifo_invar_def Let_def word_unat_eq_iff [of "fsize _"])
  show "let n = min (unat len') (length (contents f)) in
      \<exists>f'. kfifo_get f dst len' = Some (f', take n (contents f) @ drop n dst, of_nat n)
        \<and> kfifo_ok f' \<and> \<not> lck f' \<and> fsize f' = fsize f \<and> contents f' = drop n (contents f)"
    using kf.get_law [OF inv assms(4)] by (auto simp: kfifo_invar_def Let_def word_unat_eq_iff [of "fsize _"])
  show "kfifo_len f = Some (f, of_nat (length (contents f)))"
    using assms(2) by (simp add: kfifo_len_def spin_lock_def spin_unlock_def kfifo_len_nolock_def)
  show "\<exists>f'. kfifo_reset f = Some f' \<and> kfifo_ok f' \<and> contents f' = [] \<and> fsize f' = fsize f"
    using assms by (simp add: kfifo_reset_def spin_lock_def spin_unlock_def kfifo_reset_nolock_def
        kfifo_ok_def contents_def)
qed

text \<open>A fifo of four bytes whose write index is about to wrap at \<open>2 ^ 32\<close>.\<close>

definition wrapping_fifo :: kfifo where
  "wrapping_fifo = \<lparr>buffer = [1, 2, 3, 4], fsize = 4, kin = - 1, kout = - 3, lck = False\<rparr>"

lemma wrapping_fifo: "kfifo_ok wrapping_fifo" "\<not> lck wrapping_fifo"
  "contents wrapping_fifo = [2, 3]" "fsize wrapping_fifo = 4"
  by (simp_all add: wrapping_fifo_def kfifo_ok_def is_power_of_2_def contents_def ring_def
      upt_rec)

theorem kfifo_ops_correct_witness:
  "(\<exists>f'. kfifo_put wrapping_fifo [9, 8, 7] 3 = Some (f', of_nat 2) \<and> contents f' = [2, 3, 9, 8])
   \<and> (\<exists>f'. kfifo_get wrapping_fifo [0, 0, 0] 3 = Some (f', [2, 3, 0], of_nat 2) \<and> contents f' = [])"
proof -
  note prem = kfifo_ops_correct [OF wrapping_fifo(1,2), of 3 "[9, 8, 7]" 3 "[0, 0, 0]"]
  show ?thesis using prem by (auto simp: Let_def wrapping_fifo(3,4) simp del: length_contents)
qed

text \<open>
  (C8) First in, first out: whatever sequence of puts and gets a client performs on a well-formed
  fifo, every call returns, and the bytes delivered followed by the bytes still stored are the
  bytes initially stored followed by the bytes accepted, in order; nothing is lost, duplicated
  or reordered.
\<close>

theorem kfifo_fifo_order:
  assumes "kfifo_ok f" and "\<not> lck f" and "list_all fifo_op_ok ops"
  shows "\<exists>f' accepted delivered. fifo_run kfifo_put kfifo_get f ops = Some (f', accepted, delivered)
    \<and> kfifo_ok f' \<and> \<not> lck f' \<and> delivered @ contents f' = contents f @ accepted"
  using kf.run_order [of f ops] assms by (fastforce simp: kfifo_invar_def)

theorem kfifo_fifo_order_witness:
  "\<exists>f' accepted delivered.
     fifo_run kfifo_put kfifo_get wrapping_fifo [Put [9, 8, 7], Get 3, Put [5], Get 9] =
       Some (f', accepted, delivered)
     \<and> delivered @ contents f' = [2, 3] @ accepted"
proof -
  have "list_all fifo_op_ok [Put [9, 8, 7], Get 3, Put [5], Get 9]" by simp
  from kfifo_fifo_order [OF wrapping_fifo(1,2) this] show ?thesis by (auto simp: wrapping_fifo(3))
qed

text \<open>
  \<open>kfifo_alloc\<close> of a size between \<open>1\<close> and \<open>2 ^ 31\<close>: when both allocations succeed it returns an
  empty, well-formed fifo whose capacity is the least power of two that is at least the size;
  when one fails it returns \<open>NULL\<close>; a larger size aborts, and so does size \<open>0\<close>.
\<close>

theorem kfifo_alloc_correct:
  "(0 < unat sz \<and> unat sz \<le> 2 ^ 31 \<longrightarrow>
      (\<exists>f. kfifo_alloc True junk True sz = Some (Some f) \<and> kfifo_ok f \<and> \<not> lck f \<and> contents f = []
        \<and> unat sz \<le> unat (fsize f) \<and> unat (fsize f) < 2 * unat sz)
      \<and> (\<not> (buf_ok \<and> struct_ok) \<longrightarrow> kfifo_alloc buf_ok junk struct_ok sz = Some None))
   \<and> (2 ^ 31 < unat sz \<or> sz = 0 \<longrightarrow> kfifo_alloc True junk struct_ok sz = None)"
proof (intro conjI impI; (elim conjE)?)
  assume "0 < unat sz" and "unat sz \<le> 2 ^ 31"
  then obtain sz' where sz': "is_power_of_2 sz'" "unat sz \<le> unat sz'" "unat sz' < 2 * unat sz"
    and eq: "(if \<not> is_power_of_2 sz then do { BUG_ON (sz > 0x80000000); Some (roundup_pow_of_two sz) }
          else Some sz) = Some sz'"
    by (rule kfifo_alloc_size)
  then have alloc: "kfifo_alloc b junk s sz =
      (if b then kfifo_init s (map junk [0..<unat sz']) sz' else Some None)" for b s
    by (simp add: kfifo_alloc_def)
  show "\<exists>f. kfifo_alloc True junk True sz = Some (Some f) \<and> kfifo_ok f \<and> \<not> lck f \<and> contents f = []
        \<and> unat sz \<le> unat (fsize f) \<and> unat (fsize f) < 2 * unat sz"
    using sz' by (simp add: alloc kfifo_init_def BUG_ON_def kfifo_ok_def contents_def)
  show "kfifo_alloc buf_ok junk struct_ok sz = Some None" if "\<not> (buf_ok \<and> struct_ok)"
    using sz' that by (auto simp: alloc kfifo_init_def BUG_ON_def)
next
  assume "2 ^ 31 < unat sz \<or> sz = 0"
  then show "kfifo_alloc True junk struct_ok sz = None"
  proof
    assume big: "2 ^ 31 < unat sz"
    have "\<not> is_power_of_2 sz"
    proof
      assume "is_power_of_2 sz"
      then obtain k where k: "k < 32" "unat sz = 2 ^ k" by (auto simp: is_power_of_2_iff)
      then have "(2::nat) ^ k \<le> 2 ^ 31" by (intro power_increasing) auto
      with big k show False by simp
    qed
    moreover have "sz > 0x80000000" using big by (simp add: word_less_nat_alt)
    ultimately show ?thesis by (simp add: kfifo_alloc_def BUG_ON_def)
  next
    assume "sz = 0"
    then show ?thesis
      by (simp add: kfifo_alloc_def kfifo_init_def BUG_ON_def is_power_of_2_def roundup_pow_of_two_def)
  qed
qed

theorem kfifo_alloc_correct_witness:
  "(\<exists>f. kfifo_alloc True (\<lambda>_. 0) True 1000 = Some (Some f) \<and> kfifo_ok f \<and> contents f = []
     \<and> 1000 \<le> unat (fsize f) \<and> unat (fsize f) < 2000)
   \<and> kfifo_alloc True (\<lambda>_. 0) False 1000 = Some None
   \<and> kfifo_alloc True (\<lambda>_. 0) True 0 = None"
  using kfifo_alloc_correct [of 1000 "\<lambda>_. 0" True False] kfifo_alloc_correct [of 0 "\<lambda>_. 0" True True] by auto

end
