(* ===== verification/Midware.thy ===== *)
theory Midware
  imports Kfifo
begin

text \<open>
  \<open>mycache/src/midware/midware.c\<close>: the two global byte queues between the network thread and the workers.  A global
  pointer is \<open>NULL\<close>, points to a live fifo, or dangles after \<open>kfifo_free\<close>, which releases the fifo and leaves the
  global as it was; a call through anything but a live pointer faults.  The two \<open>put\<close> functions pass \<open>buferror\<close>, a name that
  is declared nowhere, in place of their parameter \<open>buffer\<close>; they are read as passing \<open>buffer\<close>.
\<close>

section \<open>Definitions\<close>

datatype fifo_ptr = Null | Dangling | Live kfifo

record midware =
  request_fifo :: fifo_ptr
  response_fifo :: fifo_ptr

fun deref :: "fifo_ptr \<Rightarrow> kfifo option" where
  "deref (Live f) = Some f"
| "deref _ = None"

definition fifo_of_alloc :: "kfifo option \<Rightarrow> fifo_ptr" where
  "fifo_of_alloc r = (case r of None \<Rightarrow> Null | Some f \<Rightarrow> Live f)"

definition kfifo_free :: "fifo_ptr \<Rightarrow> fifo_ptr option" where
  "kfifo_free p = do { f \<leftarrow> deref p; Some Dangling }"

definition request_fifo_init :: "bool \<Rightarrow> (nat \<Rightarrow> byte) \<Rightarrow> bool \<Rightarrow> midware \<Rightarrow> u32 \<Rightarrow> (midware \<times> int) option" where
  "request_fifo_init buf_ok junk struct_ok m sz = do {
     r \<leftarrow> kfifo_alloc buf_ok junk struct_ok sz;
     Some (m\<lparr>request_fifo := fifo_of_alloc r\<rparr>, if r \<noteq> None then 0 else - 1)
   }"

definition request_fifo_free :: "midware \<Rightarrow> midware option" where
  "request_fifo_free m = do { p \<leftarrow> kfifo_free (request_fifo m); Some (m\<lparr>request_fifo := p\<rparr>) }"

definition request_fifo_put :: "midware \<Rightarrow> byte list \<Rightarrow> u32 \<Rightarrow> (midware \<times> u32) option" where
  "request_fifo_put m src len = do {
     f \<leftarrow> deref (request_fifo m);
     (f, n) \<leftarrow> kfifo_put f src len;
     Some (m\<lparr>request_fifo := Live f\<rparr>, n)
   }"

definition request_fifo_get :: "midware \<Rightarrow> byte list \<Rightarrow> u32 \<Rightarrow> (midware \<times> byte list \<times> u32) option" where
  "request_fifo_get m dst len = do {
     f \<leftarrow> deref (request_fifo m);
     (f, d, n) \<leftarrow> kfifo_get f dst len;
     Some (m\<lparr>request_fifo := Live f\<rparr>, d, n)
   }"

definition request_fifo_reset :: "midware \<Rightarrow> midware option" where
  "request_fifo_reset m = do {
     f \<leftarrow> deref (request_fifo m);
     f \<leftarrow> kfifo_reset f;
     Some (m\<lparr>request_fifo := Live f\<rparr>)
   }"

definition request_fifo_len :: "midware \<Rightarrow> (midware \<times> u32) option" where
  "request_fifo_len m = do {
     f \<leftarrow> deref (request_fifo m);
     (f, n) \<leftarrow> kfifo_len f;
     Some (m\<lparr>request_fifo := Live f\<rparr>, n)
   }"

definition response_fifo_init :: "bool \<Rightarrow> (nat \<Rightarrow> byte) \<Rightarrow> bool \<Rightarrow> midware \<Rightarrow> u32 \<Rightarrow> (midware \<times> int) option" where
  "response_fifo_init buf_ok junk struct_ok m sz = do {
     r \<leftarrow> kfifo_alloc buf_ok junk struct_ok sz;
     Some (m\<lparr>response_fifo := fifo_of_alloc r\<rparr>, if r \<noteq> None then 0 else - 1)
   }"

definition response_fifo_free :: "midware \<Rightarrow> midware option" where
  "response_fifo_free m = do { p \<leftarrow> kfifo_free (response_fifo m); Some (m\<lparr>response_fifo := p\<rparr>) }"

definition response_fifo_put :: "midware \<Rightarrow> byte list \<Rightarrow> u32 \<Rightarrow> (midware \<times> u32) option" where
  "response_fifo_put m src len = do {
     f \<leftarrow> deref (response_fifo m);
     (f, n) \<leftarrow> kfifo_put f src len;
     Some (m\<lparr>response_fifo := Live f\<rparr>, n)
   }"

definition response_fifo_get :: "midware \<Rightarrow> byte list \<Rightarrow> u32 \<Rightarrow> (midware \<times> byte list \<times> u32) option" where
  "response_fifo_get m dst len = do {
     f \<leftarrow> deref (response_fifo m);
     (f, d, n) \<leftarrow> kfifo_get f dst len;
     Some (m\<lparr>response_fifo := Live f\<rparr>, d, n)
   }"

definition response_fifo_reset :: "midware \<Rightarrow> midware option" where
  "response_fifo_reset m = do {
     f \<leftarrow> deref (response_fifo m);
     f \<leftarrow> kfifo_reset f;
     Some (m\<lparr>response_fifo := Live f\<rparr>)
   }"

definition response_fifo_len :: "midware \<Rightarrow> (midware \<times> u32) option" where
  "response_fifo_len m = do {
     f \<leftarrow> deref (response_fifo m);
     (f, n) \<leftarrow> kfifo_len f;
     Some (m\<lparr>response_fifo := Live f\<rparr>, n)
   }"

section \<open>Both queues keep the byte-queue contract\<close>

definition ptr_ok :: "fifo_ptr \<Rightarrow> bool" where
  "ptr_ok p \<longleftrightarrow> (case p of Live f \<Rightarrow> kfifo_invar f | _ \<Rightarrow> False)"

definition ptr_items :: "fifo_ptr \<Rightarrow> byte list" where
  "ptr_items p = (case p of Live f \<Rightarrow> contents f | _ \<Rightarrow> [])"

definition ptr_cap :: "fifo_ptr \<Rightarrow> nat" where
  "ptr_cap p = (case p of Live f \<Rightarrow> capacity f | _ \<Rightarrow> 0)"

lemma ptr_okE: "ptr_ok p \<Longrightarrow> (\<And>f. p = Live f \<Longrightarrow> kfifo_invar f \<Longrightarrow> thesis) \<Longrightarrow> thesis"
  by (cases p) (auto simp: ptr_ok_def)

lemma ptr_simps [simp]: "ptr_ok (Live f) = kfifo_invar f" "ptr_items (Live f) = contents f" "ptr_cap (Live f) = capacity f"
  by (simp_all add: ptr_ok_def ptr_items_def ptr_cap_def)

interpretation rq: byte_fifo request_fifo_put request_fifo_get "\<lambda>m. ptr_ok (request_fifo m)"
  "\<lambda>m. ptr_items (request_fifo m)" "\<lambda>m. ptr_cap (request_fifo m)"
proof
  fix m :: midware and len :: u32 and src :: "byte list"
  assume "ptr_ok (request_fifo m)" and len: "unat len \<le> length src"
  then obtain f where f: "request_fifo m = Live f" "kfifo_invar f" by (blast elim: ptr_okE)
  from kf.put_law [OF f(2) len] show "\<exists>q' n. request_fifo_put m src len = Some (q', of_nat n) \<and>
      n = min (unat len) (ptr_cap (request_fifo m) - length (ptr_items (request_fifo m))) \<and> ptr_ok (request_fifo q') \<and>
      ptr_cap (request_fifo q') = ptr_cap (request_fifo m) \<and>
      ptr_items (request_fifo q') = ptr_items (request_fifo m) @ take n src"
    using f by (fastforce simp: request_fifo_put_def)
next
  fix m :: midware and len :: u32 and dst :: "byte list"
  assume "ptr_ok (request_fifo m)" and len: "unat len \<le> length dst"
  then obtain f where f: "request_fifo m = Live f" "kfifo_invar f" by (blast elim: ptr_okE)
  from kf.get_law [OF f(2) len] show "\<exists>q' n. request_fifo_get m dst len =
      Some (q', take n (ptr_items (request_fifo m)) @ drop n dst, of_nat n) \<and>
      n = min (unat len) (length (ptr_items (request_fifo m))) \<and> ptr_ok (request_fifo q') \<and>
      ptr_cap (request_fifo q') = ptr_cap (request_fifo m) \<and>
      ptr_items (request_fifo q') = drop n (ptr_items (request_fifo m))"
    using f by (fastforce simp: request_fifo_get_def)
qed

interpretation rs: byte_fifo response_fifo_put response_fifo_get "\<lambda>m. ptr_ok (response_fifo m)"
  "\<lambda>m. ptr_items (response_fifo m)" "\<lambda>m. ptr_cap (response_fifo m)"
proof
  fix m :: midware and len :: u32 and src :: "byte list"
  assume "ptr_ok (response_fifo m)" and len: "unat len \<le> length src"
  then obtain f where f: "response_fifo m = Live f" "kfifo_invar f" by (blast elim: ptr_okE)
  from kf.put_law [OF f(2) len] show "\<exists>q' n. response_fifo_put m src len = Some (q', of_nat n) \<and>
      n = min (unat len) (ptr_cap (response_fifo m) - length (ptr_items (response_fifo m))) \<and> ptr_ok (response_fifo q') \<and>
      ptr_cap (response_fifo q') = ptr_cap (response_fifo m) \<and>
      ptr_items (response_fifo q') = ptr_items (response_fifo m) @ take n src"
    using f by (fastforce simp: response_fifo_put_def)
next
  fix m :: midware and len :: u32 and dst :: "byte list"
  assume "ptr_ok (response_fifo m)" and len: "unat len \<le> length dst"
  then obtain f where f: "response_fifo m = Live f" "kfifo_invar f" by (blast elim: ptr_okE)
  from kf.get_law [OF f(2) len] show "\<exists>q' n. response_fifo_get m dst len =
      Some (q', take n (ptr_items (response_fifo m)) @ drop n dst, of_nat n) \<and>
      n = min (unat len) (length (ptr_items (response_fifo m))) \<and> ptr_ok (response_fifo q') \<and>
      ptr_cap (response_fifo q') = ptr_cap (response_fifo m) \<and>
      ptr_items (response_fifo q') = drop n (ptr_items (response_fifo m))"
    using f by (fastforce simp: response_fifo_get_def)
qed

text \<open>A call on one queue leaves the other alone.\<close>

lemma request_frame:
  "request_fifo_put m src len = Some (m', n) \<Longrightarrow> response_fifo m' = response_fifo m"
  "request_fifo_get m dst len = Some (m', d, n) \<Longrightarrow> response_fifo m' = response_fifo m"
  by (auto simp: request_fifo_put_def request_fifo_get_def split: bind_splits)

lemma response_frame:
  "response_fifo_put m src len = Some (m', n) \<Longrightarrow> request_fifo m' = request_fifo m"
  "response_fifo_get m dst len = Some (m', d, n) \<Longrightarrow> request_fifo m' = request_fifo m"
  by (auto simp: response_fifo_put_def response_fifo_get_def split: bind_splits)

section \<open>Clients of both queues\<close>

text \<open>
  A schedule of calls by the network thread and the workers: \<open>Inl\<close> is a call on the request queue, \<open>Inr\<close> one on the
  response queue.  The result has the bytes accepted and delivered per queue.
\<close>

type_synonym traffic = "byte list \<times> byte list"

fun mw_run :: "midware \<Rightarrow> (fifo_op + fifo_op) list \<Rightarrow> (midware \<times> traffic \<times> traffic) option" where
  "mw_run m [] = Some (m, ([], []), ([], []))"
| "mw_run m (Inl op # ops) = do {
     (m, a, d) \<leftarrow> fifo_run request_fifo_put request_fifo_get m [op];
     (m, (a1, d1), r) \<leftarrow> mw_run m ops;
     Some (m, (a @ a1, d @ d1), r)
   }"
| "mw_run m (Inr op # ops) = do {
     (m, a, d) \<leftarrow> fifo_run response_fifo_put response_fifo_get m [op];
     (m, r, (a1, d1)) \<leftarrow> mw_run m ops;
     Some (m, r, (a @ a1, d @ d1))
   }"

definition mw_op_ok :: "fifo_op + fifo_op \<Rightarrow> bool" where
  "mw_op_ok op = (case op of Inl x \<Rightarrow> fifo_op_ok x | Inr x \<Rightarrow> fifo_op_ok x)"

definition mw_ok :: "midware \<Rightarrow> bool" where
  "mw_ok m \<longleftrightarrow> ptr_ok (request_fifo m) \<and> ptr_ok (response_fifo m)"

lemma step_frames:
  "fifo_run request_fifo_put request_fifo_get m [op] = Some (m', a, d) \<Longrightarrow> response_fifo m' = response_fifo m"
  "fifo_run response_fifo_put response_fifo_get m [op] = Some (m', a, d) \<Longrightarrow> request_fifo m' = request_fifo m"
  by (cases op; auto split: bind_splits dest: request_frame response_frame)+

lemma kfifo_alloc_result:
  assumes "0 < unat sz" and "unat sz \<le> 2 ^ 31"
  obtains r where "kfifo_alloc buf_ok junk struct_ok sz = Some r" and "r \<noteq> None \<longleftrightarrow> buf_ok \<and> struct_ok"
    and "\<And>f. r = Some f \<Longrightarrow> kfifo_invar f \<and> contents f = []"
proof -
  obtain sz' where sz': "is_power_of_2 sz'" "(if \<not> is_power_of_2 sz then do { BUG_ON (sz > 0x80000000); Some (roundup_pow_of_two sz) }
      else Some sz) = Some sz'"
    using kfifo_alloc_size [OF assms] by metis
  let ?f = "\<lparr>buffer = map junk [0..<unat sz'], fsize = sz', kin = 0, kout = 0, lck = False\<rparr>"
  have "kfifo_alloc buf_ok junk struct_ok sz = Some (if buf_ok \<and> struct_ok then Some ?f else None)"
    unfolding kfifo_alloc_def sz'(2) using sz'(1) by (simp add: kfifo_init_def BUG_ON_def)
  moreover have "kfifo_invar ?f" "contents ?f = []" using sz'(1) by (simp_all add: kfifo_invar_def kfifo_ok_def contents_def)
  ultimately show thesis by (intro that) (auto split: if_splits)
qed

section \<open>Properties\<close>



text \<open>
  Initialisation and release: \<open>request_fifo_init\<close> answers \<open>0\<close> exactly when both allocations succeeded and then the
  queue is empty and usable; when one fails it answers \<open>-1\<close> and every later call on the queue faults; after
  \<open>request_fifo_free\<close> the global still holds the stale pointer, so every call faults too, a second release included.
\<close>

theorem midware_lifecycle:
  assumes "0 < unat sz" and "unat sz \<le> 2 ^ 31"
  shows "\<exists>m'. request_fifo_init buf_ok junk struct_ok m sz = Some (m', if buf_ok \<and> struct_ok then 0 else - 1)
    \<and> response_fifo m' = response_fifo m
    \<and> (if buf_ok \<and> struct_ok
       then ptr_ok (request_fifo m') \<and> ptr_items (request_fifo m') = []
         \<and> (\<exists>m''. request_fifo_free m' = Some m'' \<and> request_fifo_put m'' src len = None \<and> request_fifo_get m'' dst len = None
              \<and> request_fifo_reset m'' = None \<and> request_fifo_len m'' = None \<and> request_fifo_free m'' = None)
       else request_fifo_put m' src len = None \<and> request_fifo_get m' dst len = None \<and> request_fifo_reset m' = None
         \<and> request_fifo_len m' = None \<and> request_fifo_free m' = None)"
proof -
  obtain r where r: "kfifo_alloc buf_ok junk struct_ok sz = Some r" "r \<noteq> None \<longleftrightarrow> buf_ok \<and> struct_ok"
      "\<And>f. r = Some f \<Longrightarrow> kfifo_invar f \<and> contents f = []"
    using kfifo_alloc_result [OF assms, of buf_ok junk struct_ok] by metis
  then show ?thesis
    by (cases r) (auto simp: request_fifo_init_def fifo_of_alloc_def request_fifo_free_def kfifo_free_def request_fifo_put_def
        request_fifo_get_def request_fifo_reset_def request_fifo_len_def)
qed

theorem midware_lifecycle_witness:
  "request_fifo_free \<lparr>request_fifo = Dangling, response_fifo = Null\<rparr> = None
   \<and> (\<exists>m'. request_fifo_init True (\<lambda>_. 0) False \<lparr>request_fifo = Null, response_fifo = Null\<rparr> 64 = Some (m', - 1)
       \<and> request_fifo_put m' [1] 1 = None)"
  using midware_lifecycle [of 64 True "\<lambda>_. 0" False "\<lparr>request_fifo = Null, response_fifo = Null\<rparr>" "[1]" 1 "[]"]
  by (auto simp: request_fifo_free_def kfifo_free_def)

end
