(* ===== verification/Net.thy ===== *)
theory Net
  imports CHeap InsertSorts Midware
begin

text \<open>
  \<open>mycache/src/net/net.h\<close>: the array of polled descriptors with its sorting and binary search, the dispatch of ready
  descriptors in \<open>epoll_poll\<close> and \<open>tcp_server_run\<close>, and \<open>tcp_handle_readfd\<close>, which collects what \<open>recv\<close> delivers in a
  chain of blocks and hands it to the request queue.  The answers of \<open>epoll_wait\<close>, \<open>recv\<close> and \<open>malloc\<close> are arguments.
  The header does not compile as it stands (undeclared names, a \<open>continue\<close> outside a loop, a \<open>typedef\<close> inside a struct);
  the functions below are translated as they are written.
\<close>

section \<open>Definitions: the array of polled descriptors\<close>

record pollfd =
  pfd_fd :: int

definition pfd_at :: "pollfd heap \<Rightarrow> addr list \<Rightarrow> int \<Rightarrow> int option" where
  "pfd_at h pfd_array j = do { p \<leftarrow> aget pfd_array j; n \<leftarrow> h p; Some (pfd_fd n) }"

function pollfd_array_input_loop :: "addr list \<Rightarrow> int \<Rightarrow> int \<Rightarrow> addr \<Rightarrow> (addr list \<times> int) option" where
  "pollfd_array_input_loop pfd_array i pfd_array_len pfd_new =
     (if i < pfd_array_len then do {
        p \<leftarrow> aget pfd_array i;
        if p = 0 then do {
          pfd_array \<leftarrow> aput pfd_array i pfd_new;
          Some (pfd_array, 0)
        } else pollfd_array_input_loop pfd_array (i + 1) pfd_array_len pfd_new
      } else Some (pfd_array, - 1))"
  by pat_completeness auto
termination by (relation "measure (\<lambda>(a, i, n, p). nat (n - i))") auto

definition pollfd_array_input :: "addr list \<Rightarrow> int \<Rightarrow> addr \<Rightarrow> (addr list \<times> int) option" where
  "pollfd_array_input pfd_array pfd_array_len pfd_new = pollfd_array_input_loop pfd_array 0 pfd_array_len pfd_new"

function pfd_shift_loop :: "pollfd heap \<Rightarrow> addr list \<Rightarrow> addr \<Rightarrow> int \<Rightarrow> (addr list \<times> int) option" where
  "pfd_shift_loop h pfd_array tmp j =
     (if 0 \<le> j then do {
        t \<leftarrow> h tmp;
        x \<leftarrow> pfd_at h pfd_array j;
        if pfd_fd t < x then do {
          p \<leftarrow> aget pfd_array j;
          pfd_array \<leftarrow> aput pfd_array (j + 1) p;
          pfd_shift_loop h pfd_array tmp (j - 1)
        } else Some (pfd_array, j)
      } else Some (pfd_array, j))"
  by pat_completeness auto
termination by (relation "measure (\<lambda>(h, a, t, j). nat (j + 1))") auto

function pfd_sort_loop :: "pollfd heap \<Rightarrow> addr list \<Rightarrow> int \<Rightarrow> int \<Rightarrow> addr list option" where
  "pfd_sort_loop h pfd_array i pfd_array_len =
     (if i < pfd_array_len then do {
        tmp \<leftarrow> aget pfd_array i;
        (pfd_array, j) \<leftarrow> pfd_shift_loop h pfd_array tmp (i - 1);
        pfd_array \<leftarrow> aput pfd_array (j + 1) tmp;
        pfd_sort_loop h pfd_array (i + 1) pfd_array_len
      } else Some pfd_array)"
  by pat_completeness auto
termination by (relation "measure (\<lambda>(h, a, i, n). nat (n - i))") auto

definition pollfd_array_insert_sort :: "pollfd heap \<Rightarrow> addr list \<Rightarrow> int \<Rightarrow> addr list option" where
  "pollfd_array_insert_sort h pfd_array pfd_array_len = pfd_sort_loop h pfd_array 1 pfd_array_len"

lemma sdiv_mid: "l < r \<Longrightarrow> l \<le> (l + r) sdiv 2 \<and> (l + r) sdiv 2 \<le> r" for l r :: int
  by (auto simp: signed_divide_int_def sgn_if abs_if)

text \<open>\<open>left + right\<close> must fit an \<open>int\<close>.\<close>

function pfd_search_loop :: "pollfd heap \<Rightarrow> addr list \<Rightarrow> int \<Rightarrow> int \<Rightarrow> int \<Rightarrow> int option" where
  "pfd_search_loop h pfd_array left right fd =
     (if left < right then do {
        require (left + right < 2 ^ 31);
        let mid = (left + right) sdiv 2;
        x \<leftarrow> pfd_at h pfd_array mid;
        if x > fd then pfd_search_loop h pfd_array left (mid - 1) fd
        else if x < fd then pfd_search_loop h pfd_array (mid + 1) right fd
        else Some mid
      } else Some (- 1))"
  by pat_completeness auto
termination
  by (relation "measure (\<lambda>(h, a, l, r, fd). nat (r - l))") (use sdiv_mid in fastforce)+

definition pollfd_array_binary_get :: "pollfd heap \<Rightarrow> addr list \<Rightarrow> int \<Rightarrow> int \<Rightarrow> int option" where
  "pollfd_array_binary_get h pfd_array pfd_array_len fd = pfd_search_loop h pfd_array 0 (pfd_array_len - 1) fd"

text \<open>
  Which handler an event on a descriptor goes to: the one registered at an index of the array, or the reader of accepted
  connections.
\<close>

datatype dispatch = Handle_pollfd int | Handle_readfd int

fun dispatch_events :: "pollfd heap \<Rightarrow> addr list \<Rightarrow> int \<Rightarrow> bool \<Rightarrow> int list \<Rightarrow> dispatch list option" where
  "dispatch_events h pfd_array pfd_size flag [] = Some []"
| "dispatch_events h pfd_array pfd_size flag (fd # fds) = do {
     index \<leftarrow> pollfd_array_binary_get h pfd_array pfd_size fd;
     ds \<leftarrow> dispatch_events h pfd_array pfd_size flag fds;
     Some (if - 1 \<noteq> index then Handle_pollfd index # ds else if flag then Handle_readfd fd # ds else ds)
   }"

text \<open>
  What \<open>epoll_wait\<close> answers: the ready descriptors (none after a timeout) or an error.  The \<open>continue\<close> statements, which
  stand outside any loop, are read as returns.
\<close>

datatype wait_result = Ready "int list" | Wait_error

definition epoll_poll :: "pollfd heap \<Rightarrow> addr list \<Rightarrow> wait_result \<Rightarrow> int \<Rightarrow> bool \<Rightarrow> dispatch list option" where
  "epoll_poll h pfd_array w pfd_size flag =
     (case w of Wait_error \<Rightarrow> Some [] | Ready fds \<Rightarrow> dispatch_events h pfd_array pfd_size flag fds)"

text \<open>
  \<open>tcp_server_run\<close> on a history of \<open>epoll_wait\<close> answers: the dispatched events, or \<open>[]\<close> when it returns early.
  \<open>pfd_new\<close> is the address of the local variable, \<open>slot\<close> the undetermined contents of the fresh
  one-element array, \<open>None\<close> when \<open>malloc\<close> failed.
\<close>

fun server_rounds :: "pollfd heap \<Rightarrow> addr list \<Rightarrow> wait_result list \<Rightarrow> dispatch list option" where
  "server_rounds h pfd_array [] = Some []"
| "server_rounds h pfd_array (w # ws) = do {
     ds \<leftarrow> epoll_poll h pfd_array w 1 True;
     es \<leftarrow> server_rounds h pfd_array ws;
     Some (ds @ es)
   }"

definition tcp_server_run ::
  "pollfd heap \<Rightarrow> int \<Rightarrow> bool \<Rightarrow> addr \<Rightarrow> addr option \<Rightarrow> int \<Rightarrow> wait_result list \<Rightarrow> dispatch list option" where
  "tcp_server_run h epollfd events_ok pfd_new slot listen_fd ws =
     (if 0 > epollfd then Some []
      else if \<not> events_ok then Some []
      else do {
        let h = h(pfd_new \<mapsto> \<lparr>pfd_fd = listen_fd\<rparr>);
        slot0 \<leftarrow> slot;
        (pfd_array, rc) \<leftarrow> pollfd_array_input [slot0] 1 pfd_new;
        if rc \<noteq> 0 then Some []
        else do {
          pfd_array \<leftarrow> pollfd_array_insert_sort h pfd_array 1;
          server_rounds h pfd_array ws
        }
      })"

declare pollfd_array_input_loop.simps [simp del] pfd_shift_loop.simps [simp del] pfd_sort_loop.simps [simp del]
  pfd_search_loop.simps [simp del]

section \<open>Definitions: received data\<close>

text \<open>
  The objects of a received message: one head and a chain of blocks, in one heap because \<open>READBUF_FREE\<close> walks from the
  head into the chain through the field \<open>next\<close>, which both have first.
\<close>

record readbuf =
  rb_next :: addr
  block :: "byte list"
  rb_capacity :: int

record readbuf_head =
  hd_next :: addr
  hd_tail :: addr
  info :: int

datatype rb_obj = Head readbuf_head | Node readbuf

type_synonym rb_heap = "rb_obj heap"

definition READBUF_BLOCK_SIZE :: nat where
  "READBUF_BLOCK_SIZE = 1024"

fun obj_next :: "rb_obj \<Rightarrow> addr" where
  "obj_next (Head r) = hd_next r"
| "obj_next (Node b) = rb_next b"

definition rb_node :: "rb_heap \<Rightarrow> addr \<Rightarrow> readbuf option" where
  "rb_node h p = do { x \<leftarrow> h p; (case x of Node b \<Rightarrow> Some b | Head _ \<Rightarrow> None) }"

text \<open>\<open>p\<close> and \<open>q\<close> are the addresses \<open>malloc\<close> returned; the contents of a fresh block are \<open>junk\<close>.\<close>

definition NEW_READBUF_NODE :: "rb_heap \<Rightarrow> (nat \<Rightarrow> byte) \<Rightarrow> addr \<Rightarrow> rb_heap option" where
  "NEW_READBUF_NODE h junk p =
     heap_alloc h p (Node \<lparr>rb_next = 0, block = map junk [0..<READBUF_BLOCK_SIZE], rb_capacity = 0\<rparr>)"

definition NEW_READBUF_HEAD :: "rb_heap \<Rightarrow> (nat \<Rightarrow> byte) \<Rightarrow> addr \<Rightarrow> addr \<Rightarrow> int \<Rightarrow> (rb_heap \<times> readbuf_head) option" where
  "NEW_READBUF_HEAD h junk p q junk_info = do {
     let r = \<lparr>hd_next = q, hd_tail = q, info = junk_info\<rparr>;
     h \<leftarrow> heap_alloc h p (Head r);
     h \<leftarrow> NEW_READBUF_NODE h junk q;
     Some (h, r)
   }"

definition READBUF_APPEND :: "rb_heap \<Rightarrow> (nat \<Rightarrow> byte) \<Rightarrow> addr \<Rightarrow> readbuf_head \<Rightarrow> (rb_heap \<times> readbuf_head) option" where
  "READBUF_APPEND h junk p r = do {
     h \<leftarrow> NEW_READBUF_NODE h junk p;
     b \<leftarrow> rb_node h (hd_tail r);
     Some (h(hd_tail r \<mapsto> Node (b\<lparr>rb_next := p\<rparr>)), r\<lparr>hd_tail := p\<rparr>)
   }"

partial_function (option) READBUF_FREE :: "rb_heap \<Rightarrow> addr \<Rightarrow> rb_heap option" where
  "READBUF_FREE h p =
     (if p \<noteq> 0 then do {
        x \<leftarrow> h p;
        h' \<leftarrow> heap_free h p;
        READBUF_FREE h' (obj_next x)
      } else Some h)"

text \<open>
  What \<open>recv\<close> answers: some bytes, the end of the stream, or an error, with the flag telling
  \<open>EAGAIN\<close>, \<open>EWOULDBLOCK\<close> and \<open>EINTR\<close> apart from the others.  The loop consumes a history of
  answers and the addresses \<open>malloc\<close> returns; its result tells how it ended: \<open>Some status\<close> after \<open>break\<close>, \<open>None\<close> for
  \<open>return -1\<close>.  While it runs, the head is in \<open>r\<close>, and stored at \<open>hp\<close> at the end.
\<close>

datatype recv_result = Recv "byte list" | Recv_closed | Recv_error bool

fun readfd_loop :: "rb_heap \<Rightarrow> (nat \<Rightarrow> byte) \<Rightarrow> readbuf_head \<Rightarrow> nat \<Rightarrow> addr list \<Rightarrow> recv_result list \<Rightarrow>
    (rb_heap \<times> readbuf_head \<times> int option) option" where
  "readfd_loop h junk r offset ps [] = None"
| "readfd_loop h junk r offset ps (Recv_error again # rs) = Some (h, r, Some (if again then 0 else - 1))"
| "readfd_loop h junk r offset ps (Recv_closed # rs) = Some (h, r, None)"
| "readfd_loop h junk r offset ps (Recv bs # rs) = do {
     b \<leftarrow> rb_node h (hd_tail r);
     require (bs \<noteq> [] \<and> length bs \<le> READBUF_BLOCK_SIZE - offset);
     blk \<leftarrow> memcpy (block b) offset bs 0 (length bs);
     if length bs = READBUF_BLOCK_SIZE - offset then do {
       let h = h(hd_tail r \<mapsto> Node (b\<lparr>block := blk, rb_capacity := int READBUF_BLOCK_SIZE\<rparr>));
       require (ps \<noteq> []);
       (h, r) \<leftarrow> READBUF_APPEND h junk (hd ps) r;
       readfd_loop h junk r 0 (tl ps) rs
     } else do {
       let h = h(hd_tail r \<mapsto> Node (b\<lparr>block := blk, rb_capacity := int (offset + length bs)\<rparr>));
       readfd_loop h junk r (offset + length bs) ps rs
     }
   }"

text \<open>
  \<open>if (rhead->next = rhead->tail && 0 == rhead->tail->capacity)\<close> assigns the truth value of the conjunction to the
  pointer \<open>next\<close>.  \<open>request_fifo_put((const unsigned char *)rhead, sizeof(void *))\<close> copies the first eight bytes of the head,
  the field \<open>next\<close>.  The result is \<open>None\<close> for the paths that return no value.
\<close>

definition pointer_bytes :: "addr \<Rightarrow> byte list" where
  "pointer_bytes p = map (\<lambda>i. word_of_nat (p div 256 ^ i)) [0..<8]"

definition tcp_handle_readfd ::
  "rb_heap \<Rightarrow> midware \<Rightarrow> (nat \<Rightarrow> byte) \<Rightarrow> addr \<Rightarrow> addr \<Rightarrow> int \<Rightarrow> addr list \<Rightarrow> recv_result list \<Rightarrow> int \<Rightarrow>
   (rb_heap \<times> midware \<times> int option) option" where
  "tcp_handle_readfd h m junk hp np junk_info ps rs readfd = do {
     (h, r) \<leftarrow> NEW_READBUF_HEAD h junk hp np junk_info;
     (h, r, ended) \<leftarrow> readfd_loop h junk r 0 ps rs;
     (case ended of None \<Rightarrow> Some (h(hp \<mapsto> Head r), m, Some (- 1))
      | Some status \<Rightarrow> do {
          b \<leftarrow> rb_node h (hd_tail r);
          let c = hd_tail r \<noteq> 0 \<and> 0 = rb_capacity b;
          let r = r\<lparr>hd_next := if c then 1 else 0\<rparr>;
          if c then do {
            h \<leftarrow> READBUF_FREE (h(hp \<mapsto> Head r)) hp;
            Some (h, m, None)
          } else do {
            let r = r\<lparr>info := readfd\<rparr>;
            (m, n) \<leftarrow> request_fifo_put m (pointer_bytes (hd_next r)) 8;
            Some (h(hp \<mapsto> Head r), m, None)
          }
        })
   }"

section \<open>The array of polled descriptors\<close>

definition pfd_key :: "pollfd heap \<Rightarrow> addr \<Rightarrow> int" where
  "pfd_key h p = pfd_fd (the (h p))"

definition pfd_live :: "pollfd heap \<Rightarrow> addr list \<Rightarrow> bool" where
  "pfd_live h ps \<longleftrightarrow> (\<forall>p \<in> set ps. h p \<noteq> None)"

lemma pfd_at_key:
  assumes "pfd_live h ps" and "j < length ps"
  shows "pfd_at h ps (int j) = Some (pfd_key h (ps ! j))"
proof -
  obtain n where "h (ps ! j) = Some n" using assms by (metis nth_mem pfd_live_def not_None_eq)
  then show ?thesis using assms(2) by (simp add: pfd_at_def cmem pfd_key_def)
qed

lemma input_loop_spec:
  assumes "i \<le> length ps" and "\<forall>k < i. ps ! k \<noteq> 0"
  shows "pollfd_array_input_loop ps (int i) (int (length ps)) q =
    Some (if 0 \<in> set ps then let k = LEAST k. ps ! k = 0 in (ps[k := q], 0) else (ps, - 1))"
  using assms
proof (induction "length ps - i" arbitrary: i)
  case 0
  then have "0 \<notin> set ps" by (auto simp: in_set_conv_nth)
  with 0 show ?case by (subst pollfd_array_input_loop.simps) simp
next
  case (Suc d)
  then have i: "i < length ps" by simp
  show ?case
  proof (cases "ps ! i = 0")
    case True
    then have "(LEAST k. ps ! k = 0) = i" using Suc.prems(2) by (intro Least_equality) (auto simp: not_less [symmetric])
    moreover have "0 \<in> set ps" using True i by (metis nth_mem)
    ultimately show ?thesis using True i by (subst pollfd_array_input_loop.simps) (simp add: cmem)
  next
    case False
    then have "\<forall>k < Suc i. ps ! k \<noteq> 0" using Suc.prems(2) less_Suc_eq by auto
    moreover have "d = length ps - Suc i" using Suc.hyps(2) by simp
    ultimately have "pollfd_array_input_loop ps (int (Suc i)) (int (length ps)) q =
        Some (if 0 \<in> set ps then let k = LEAST k. ps ! k = 0 in (ps[k := q], 0) else (ps, - 1))"
      using Suc.hyps(1) [of "Suc i"] i by simp
    then show ?thesis using False i by (subst pollfd_array_input_loop.simps) (simp add: cmem algebra_simps)
  qed
qed

lemma pfd_shift_spec:
  assumes "pfd_live h (t # p)"
  shows "pfd_shift_loop h (p @ c # R) t (int (length p) - 1) \<bind> (\<lambda>(a, j). aput a (j + 1) t) =
    Some (rins (\<lambda>t x. pfd_key h t < pfd_key h x) t p @ R)"
  using assms
proof (induction p arbitrary: c R rule: rev_induct)
  case Nil
  show ?case by (subst pfd_shift_loop.simps) (simp add: aput_def)
next
  case (snoc x p)
  obtain tn xn where n: "h t = Some tn" "h x = Some xn" using snoc.prems by (auto simp: pfd_live_def)
  have get: "aget (p @ x # c # R) (int (length p)) = Some x" by (simp add: aget_def nth_append)
  have put: "aput (p @ x # c # R) (1 + int (length p)) v = Some (p @ x # v # R)" for v
    by (simp add: aput_def list_update_append nat_add_distrib)
  show ?case
    using snoc.IH [of x "x # R"] snoc.prems n
    by (subst pfd_shift_loop.simps) (simp add: pfd_at_def get put pfd_key_def pfd_live_def algebra_simps)
qed

lemma pfd_live_perm: "mset ps = mset qs \<Longrightarrow> pfd_live h ps = pfd_live h qs"
  unfolding pfd_live_def by (metis set_mset_mset)

lemma pfd_sort_spec:
  assumes "pfd_live h (p @ q)"
  shows "pfd_sort_loop h (p @ q) (int (length p)) (int (length p + length q)) =
    Some (foldl (\<lambda>p t. rins (\<lambda>t x. pfd_key h t < pfd_key h x) t p) p q)"
  using assms
proof (induction q arbitrary: p)
  case Nil
  show ?case by (subst pfd_sort_loop.simps) simp
next
  case (Cons t q)
  let ?p = "rins (\<lambda>t x. pfd_key h t < pfd_key h x) t p"
  have get: "aget (p @ t # q) (int (length p)) = Some t" by (simp add: aget_def nth_append)
  have live: "pfd_live h (t # p)" using Cons.prems by (auto simp: pfd_live_def)
  obtain a j where sh: "pfd_shift_loop h (p @ t # q) t (int (length p) - 1) = Some (a, j)" "aput a (j + 1) t = Some (?p @ q)"
    using pfd_shift_spec [OF live, of t q] by (auto split: bind_splits)
  have "pfd_live h (?p @ q)" using Cons.prems by (auto simp: pfd_live_def)
  from Cons.IH [OF this] show ?case using get sh by (subst pfd_sort_loop.simps) (simp add: algebra_simps)
qed

lemma pollfd_array_insert_sort_spec:
  assumes "pfd_live h ps"
  shows "pollfd_array_insert_sort h ps (int (length ps)) = Some (sort_key (pfd_key h) ps)"
proof (cases ps)
  case Nil
  then show ?thesis by (simp add: pollfd_array_insert_sort_def pfd_sort_loop.simps)
next
  case (Cons p q)
  then show ?thesis
    using pfd_sort_spec [of h "[p]" q] assms foldl_rins_sort_key [of "pfd_key h" ps]
    by (simp add: pollfd_array_insert_sort_def add.commute)
qed

text \<open>The search probes only cells that exist and answers an index that matches, or \<open>-1\<close>.\<close>

lemma pfd_search_sound:
  assumes "pfd_live h ps" and "length ps \<le> 2 ^ 30" and "0 \<le> l" and "r < int (length ps)"
  shows "\<exists>k. pfd_search_loop h ps l r fd = Some k
    \<and> (k = - 1 \<or> l \<le> k \<and> k \<le> r \<and> pfd_key h (ps ! nat k) = fd)"
  using assms(3,4)
proof (induction "nat (r - l)" arbitrary: l r rule: less_induct)
  case less
  show ?case
  proof (cases "l < r")
    case True
    let ?m = "(l + r) sdiv 2"
    note m = sdiv_mid [OF True]
    have at: "pfd_at h ps ?m = Some (pfd_key h (ps ! nat ?m))"
      using pfd_at_key [OF assms(1), of "nat ?m"] m less.prems by (simp add: nat_less_iff)
    have "l + r < 2 ^ 31" using less.prems assms(2) True by simp
    moreover have "\<exists>k. pfd_search_loop h ps l (?m - 1) fd = Some k \<and> (k = - 1 \<or> l \<le> k \<and> k \<le> ?m - 1 \<and> pfd_key h (ps ! nat k) = fd)"
      using less.hyps [of "?m - 1" l] m less.prems True by simp
    moreover have "\<exists>k. pfd_search_loop h ps (?m + 1) r fd = Some k \<and> (k = - 1 \<or> ?m + 1 \<le> k \<and> k \<le> r \<and> pfd_key h (ps ! nat k) = fd)"
      using less.hyps [of r "?m + 1"] m less.prems True by simp
    ultimately show ?thesis
      by (cases "pfd_key h (ps ! nat ?m)" fd rule: linorder_cases)
         (subst pfd_search_loop.simps, use True at m in fastforce)+
  qed (subst pfd_search_loop.simps, simp)
qed

lemma pollfd_array_binary_get_short: "n \<le> 1 \<Longrightarrow> pollfd_array_binary_get h ps n fd = Some (- 1)"
  by (simp add: pollfd_array_binary_get_def pfd_search_loop.simps)

lemma pollfd_array_binary_get_mid:
  assumes "pfd_live h ps" and "length ps \<le> 2 ^ 30" and "2 \<le> length ps" and "pfd_key h (ps ! ((length ps - 1) div 2)) = fd"
  shows "pollfd_array_binary_get h ps (int (length ps)) fd = Some (int ((length ps - 1) div 2))"
proof -
  let ?m = "(length ps - 1) div 2"
  have m: "(int (length ps) - 1) sdiv 2 = int ?m" using assms(3) by (simp add: signed_divide_int_def zdiv_int)
  have "pfd_at h ps (int ?m) = Some fd" using pfd_at_key [OF assms(1), of ?m] assms(3,4) by simp
  then show ?thesis
    unfolding pollfd_array_binary_get_def using assms(2,3) m by (subst pfd_search_loop.simps) simp
qed

lemma server_rounds_one:
  "server_rounds h [p] ws = Some (concat (map (\<lambda>w. case w of Ready fds \<Rightarrow> map Handle_readfd fds | Wait_error \<Rightarrow> []) ws))"
proof (induction ws)
  case (Cons w ws)
  have "dispatch_events h [p] 1 True fds = Some (map Handle_readfd fds)" for fds
    by (induction fds) (simp_all add: pollfd_array_binary_get_short)
  with Cons show ?case by (cases w) (simp_all add: epoll_poll_def)
qed simp

section \<open>The chain of blocks\<close>

lemma linked_snoc:
  assumes "linked nx h a (xs @ [t])" and "\<And>x. x \<in> set xs \<Longrightarrow> h' x = h x" and "h' t = Some m" and "nx m = p"
    and "h' p = Some n" and "nx n = 0" and "p \<noteq> 0"
  shows "linked nx h' a (xs @ [t, p])"
  using assms by (induction xs arbitrary: a) auto

lemma linked_update: "linked nx h p xs \<Longrightarrow> h x = Some n \<Longrightarrow> nx m = nx n \<Longrightarrow> linked nx (h(x \<mapsto> m)) p xs"
  by (induction xs arbitrary: p) auto

definition rb_data :: "rb_heap \<Rightarrow> addr list \<Rightarrow> byte list" where
  "rb_data h ps = concat (map (\<lambda>p. case rb_node h p of Some b \<Rightarrow> take (nat (rb_capacity b)) (block b) | None \<Rightarrow> []) ps)"

definition rb_block :: "rb_heap \<Rightarrow> addr \<Rightarrow> nat \<Rightarrow> bool" where
  "rb_block h p n \<longleftrightarrow> (\<exists>b. h p = Some (Node b) \<and> rb_capacity b = int n \<and> length (block b) = READBUF_BLOCK_SIZE)"

text \<open>
  \<open>xs\<close> are the full blocks before the last one, which holds \<open>off\<close> bytes; together they hold \<open>data\<close>.
\<close>

definition rb_inv :: "rb_heap \<Rightarrow> readbuf_head \<Rightarrow> addr list \<Rightarrow> nat \<Rightarrow> byte list \<Rightarrow> bool" where
  "rb_inv h r xs off data \<longleftrightarrow> linked obj_next h (hd_next r) (xs @ [hd_tail r])
     \<and> (\<forall>p \<in> set xs. rb_block h p READBUF_BLOCK_SIZE) \<and> rb_block h (hd_tail r) off \<and> off < READBUF_BLOCK_SIZE
     \<and> data = rb_data h (xs @ [hd_tail r])"

lemma rb_data_append [simp]: "rb_data h (xs @ ys) = rb_data h xs @ rb_data h ys"
  by (simp add: rb_data_def)

lemma rb_data_cong: "(\<And>x. x \<in> set xs \<Longrightarrow> h' x = h x) \<Longrightarrow> rb_data h' xs = rb_data h xs"
  unfolding rb_data_def by (intro arg_cong [of _ _ concat] map_cong) (auto simp: rb_node_def)

lemma rb_data_one: "h p = Some (Node b) \<Longrightarrow> rb_data h [p] = take (nat (rb_capacity b)) (block b)"
  by (simp add: rb_data_def rb_node_def)

lemma rb_blockE:
  assumes "rb_block h p n"
  obtains b where "h p = Some (Node b)" and "rb_capacity b = int n" and "length (block b) = READBUF_BLOCK_SIZE"
  using assms by (auto simp: rb_block_def)

lemma length_rb_full: "\<forall>p \<in> set xs. rb_block h p READBUF_BLOCK_SIZE \<Longrightarrow> length (rb_data h xs) = READBUF_BLOCK_SIZE * length xs"
  by (induction xs) (auto simp: rb_data_def rb_block_def rb_node_def)

lemma rb_inv_length:
  assumes "rb_inv h r xs off data"
  shows "length data = READBUF_BLOCK_SIZE * length xs + off"
proof -
  obtain b where "h (hd_tail r) = Some (Node b)" "rb_capacity b = int off" "length (block b) = READBUF_BLOCK_SIZE"
    using assms by (auto simp: rb_inv_def elim: rb_blockE)
  then show ?thesis using assms length_rb_full [of xs h] rb_data_one [of h "hd_tail r" b] by (simp add: rb_inv_def)
qed

text \<open>One answer of \<open>recv\<close>: the bytes land behind those of the last block, and a full block gets a successor.\<close>

lemma rb_inv_part:
  assumes inv: "rb_inv h r xs off data" and b: "h (hd_tail r) = Some (Node b)" and lt: "off + length c < READBUF_BLOCK_SIZE"
    and blk: "memcpy (block b) off c 0 (length c) = Some blk"
  shows "rb_inv (h(hd_tail r \<mapsto> Node (b\<lparr>block := blk, rb_capacity := int (off + length c)\<rparr>))) r xs (off + length c) (data @ c)"
    (is "rb_inv ?h _ _ _ _")
proof -
  have old: "linked obj_next h (hd_next r) (xs @ [hd_tail r])" "data = rb_data h xs @ rb_data h [hd_tail r]" "rb_capacity b = int off"
      "length (block b) = READBUF_BLOCK_SIZE" "\<forall>p \<in> set xs. rb_block h p READBUF_BLOCK_SIZE"
    using inv b by (auto simp: rb_inv_def rb_block_def)
  have nin: "hd_tail r \<notin> set xs" using linked_distinct [OF old(1)] by simp
  have eq: "?h x = h x" if "x \<in> set xs" for x using nin that by auto
  have "linked obj_next ?h (hd_next r) (xs @ [hd_tail r])"
    by (rule linked_update [OF old(1) b]) simp
  moreover have "rb_data ?h xs = rb_data h xs" by (rule rb_data_cong) (rule eq)
  moreover have "length blk = READBUF_BLOCK_SIZE" "take (off + length c) blk = take off (block b) @ c"
    using blk old(4) lt by (auto simp: memcpy_def split: if_splits)
  moreover have "rb_block ?h p READBUF_BLOCK_SIZE" if "p \<in> set xs" for p using old(5) eq that by (auto simp: rb_block_def)
  ultimately show ?thesis
    using old(2,3) lt rb_data_one [of h "hd_tail r" b] rb_data_one [of ?h "hd_tail r"] b
    by (simp add: rb_inv_def rb_block_def flip: of_nat_add)
qed

lemma rb_inv_full:
  assumes inv: "rb_inv h r xs off data" and b: "h (hd_tail r) = Some (Node b)" and eqn: "length c = READBUF_BLOCK_SIZE - off"
    and blk: "memcpy (block b) off c 0 (length c) = Some blk" and p: "h p = None" "p \<noteq> 0"
  shows "\<exists>h'. READBUF_APPEND (h(hd_tail r \<mapsto> Node (b\<lparr>block := blk, rb_capacity := int READBUF_BLOCK_SIZE\<rparr>))) junk p r =
      Some (h', r\<lparr>hd_tail := p\<rparr>)
    \<and> rb_inv h' (r\<lparr>hd_tail := p\<rparr>) (xs @ [hd_tail r]) 0 (data @ c) \<and> (\<forall>q. q \<noteq> p \<and> q \<noteq> hd_tail r \<longrightarrow> h' q = h q)"
proof -
  let ?t = "hd_tail r" and ?n = "\<lparr>rb_next = 0, block = map junk [0..<READBUF_BLOCK_SIZE], rb_capacity = 0\<rparr>"
  let ?b = "b\<lparr>block := blk, rb_capacity := int READBUF_BLOCK_SIZE, rb_next := p\<rparr>"
  define h' where "h' = h(p \<mapsto> Node ?n, ?t \<mapsto> Node ?b)"
  have old: "linked obj_next h (hd_next r) (xs @ [?t])" "data = rb_data h xs @ rb_data h [?t]" "rb_capacity b = int off"
      "length (block b) = READBUF_BLOCK_SIZE" "\<forall>p \<in> set xs. rb_block h p READBUF_BLOCK_SIZE" "off < READBUF_BLOCK_SIZE"
    using inv b by (auto simp: rb_inv_def rb_block_def)
  have tp: "?t \<noteq> p" using b p(1) by auto
  have nin: "?t \<notin> set xs" "p \<notin> set xs" using linked_distinct [OF old(1)] linked_live [OF old(1), of p] p(1) by auto
  have eq: "h' x = h x" if "x \<in> set xs" for x using nin that by (auto simp: h'_def)
  have h': "h' ?t = Some (Node ?b)" "h' p = Some (Node ?n)" using tp by (simp_all add: h'_def)
  have "linked obj_next h' (hd_next r) (xs @ [?t, p])" by (rule linked_snoc [OF old(1) eq h'(1) _ h'(2)]) (simp_all add: p(2))
  moreover have "rb_data h' xs = rb_data h xs" by (rule rb_data_cong) (rule eq)
  moreover have "length blk = READBUF_BLOCK_SIZE" "take READBUF_BLOCK_SIZE blk = take off (block b) @ c"
    using blk old(4,6) eqn by (auto simp: memcpy_def split: if_splits)
  moreover have "rb_block h' q READBUF_BLOCK_SIZE" if "q \<in> set xs" for q using old(5) eq that by (auto simp: rb_block_def)
  ultimately have "rb_inv h' (r\<lparr>hd_tail := p\<rparr>) (xs @ [?t]) 0 (data @ c)"
    using old(2,3) rb_data_one [of h' ?t, OF h'(1)] rb_data_one [of h' p, OF h'(2)] rb_data_one [of h ?t b, OF b] h' old(6) rb_data_append [of h' "[?t]" "[p]"]
    by (auto simp: rb_inv_def rb_block_def)
  moreover have "READBUF_APPEND (h(?t \<mapsto> Node (b\<lparr>block := blk, rb_capacity := int READBUF_BLOCK_SIZE\<rparr>))) junk p r =
      Some (h', r\<lparr>hd_tail := p\<rparr>)"
    using p tp by (simp add: READBUF_APPEND_def NEW_READBUF_NODE_def heap_alloc_def rb_node_def h'_def fun_upd_twist)
  ultimately show ?thesis by (intro exI [of _ h']) (simp add: h'_def)
qed

text \<open>Chunks that \<open>recv\<close> can deliver: not empty, and no longer than the rest of the current block.\<close>

fun chunks_ok :: "nat \<Rightarrow> byte list list \<Rightarrow> bool" where
  "chunks_ok off [] \<longleftrightarrow> True"
| "chunks_ok off (c # cs) \<longleftrightarrow> c \<noteq> [] \<and> length c \<le> READBUF_BLOCK_SIZE - off \<and> chunks_ok ((off + length c) mod READBUF_BLOCK_SIZE) cs"

fun ended :: "recv_result \<Rightarrow> int option" where
  "ended (Recv_error again) = Some (if again then 0 else - 1)"
| "ended _ = None"

lemma readfd_loop_spec:
  assumes "rb_inv h r xs off data" and "chunks_ok off cs" and "length cs \<le> length ps" and "distinct ps"
    and "\<forall>p \<in> set ps. h p = None \<and> p \<noteq> 0" and "\<And>bs. e \<noteq> Recv bs"
  shows "\<exists>h' r' xs'. readfd_loop h junk r off ps (map Recv cs @ e # rs) = Some (h', r', ended e)
    \<and> rb_inv h' r' xs' ((off + length (concat cs)) mod READBUF_BLOCK_SIZE) (data @ concat cs) \<and> hd_next r' = hd_next r
    \<and> (\<forall>q. q \<notin> set (xs @ [hd_tail r]) \<union> set ps \<longrightarrow> h' q = h q)"
  using assms(1-5)
proof (induction cs arbitrary: h r xs off data ps)
  case Nil
  have "off < READBUF_BLOCK_SIZE" using Nil.prems(1) by (simp add: rb_inv_def)
  then show ?case using Nil.prems(1) assms(6) by (cases e) auto
next
  case (Cons c cs)
  obtain b where b: "h (hd_tail r) = Some (Node b)" "length (block b) = READBUF_BLOCK_SIZE" and off: "off < READBUF_BLOCK_SIZE"
    using Cons.prems(1) by (auto simp: rb_inv_def elim: rb_blockE)
  have c: "c \<noteq> []" "length c \<le> READBUF_BLOCK_SIZE - off" "chunks_ok ((off + length c) mod READBUF_BLOCK_SIZE) cs"
    using Cons.prems(2) by auto
  obtain blk where blk: "memcpy (block b) off c 0 (length c) = Some blk" using memcpy_ex [of off "length c" "block b" 0 c] b(2) c(2) off by fastforce
  have node: "rb_node h (hd_tail r) = Some b" using b(1) by (simp add: rb_node_def)
  show ?case
  proof (cases "length c = READBUF_BLOCK_SIZE - off")
    case True
    obtain p ps' where ps: "ps = p # ps'" using Cons.prems(3) by (cases ps) auto
    with Cons.prems(5) have p: "h p = None" "p \<noteq> 0" by auto
    obtain h1 where h1: "READBUF_APPEND (h(hd_tail r \<mapsto> Node (b\<lparr>block := blk, rb_capacity := int READBUF_BLOCK_SIZE\<rparr>))) junk p r =
        Some (h1, r\<lparr>hd_tail := p\<rparr>)" "rb_inv h1 (r\<lparr>hd_tail := p\<rparr>) (xs @ [hd_tail r]) 0 (data @ c)"
        "\<And>q. q \<noteq> p \<Longrightarrow> q \<noteq> hd_tail r \<Longrightarrow> h1 q = h q"
      using rb_inv_full [OF Cons.prems(1) b(1) True blk p, of junk] by blast
    have m: "(off + length c) mod READBUF_BLOCK_SIZE = 0" using True off by simp
    have "h1 q = None \<and> q \<noteq> 0" if "q \<in> set ps'" for q
    proof -
      have "q \<noteq> p" "q \<noteq> hd_tail r" "h q = None" "q \<noteq> 0" using Cons.prems(4,5) ps that b(1) by auto
      then show ?thesis using h1(3) by simp
    qed
    then obtain h' r' xs' where IH: "readfd_loop h1 junk (r\<lparr>hd_tail := p\<rparr>) 0 ps' (map Recv cs @ e # rs) = Some (h', r', ended e)"
        "rb_inv h' r' xs' (length (concat cs) mod READBUF_BLOCK_SIZE) ((data @ c) @ concat cs)" "hd_next r' = hd_next r"
        "\<And>q. q \<notin> set (xs @ [hd_tail r] @ [p]) \<union> set ps' \<Longrightarrow> h' q = h1 q"
      using Cons.IH [OF h1(2), of ps'] c(3) m Cons.prems(3,4) ps by auto
    have "(off + length (concat (c # cs))) mod READBUF_BLOCK_SIZE = length (concat cs) mod READBUF_BLOCK_SIZE"
      using m by (metis add.assoc add.left_neutral concat.simps(2) length_append mod_add_left_eq)
    moreover have "h' q = h q" if "q \<notin> set (xs @ [hd_tail r]) \<union> set ps" for q using IH(4) [of q] h1(3) [of q] that ps by auto
    ultimately show ?thesis using IH(1-3) h1(1) node blk c True ps by (auto simp: Let_def)
  next
    case False
    with c(2) off have lt: "off + length c < READBUF_BLOCK_SIZE" by simp
    define h1 where "h1 = h(hd_tail r \<mapsto> Node (b\<lparr>block := blk, rb_capacity := int (off + length c)\<rparr>))"
    have inv: "rb_inv h1 r xs (off + length c) (data @ c)" unfolding h1_def by (rule rb_inv_part [OF Cons.prems(1) b(1) lt blk])
    have "h1 q = None \<and> q \<noteq> 0" if "q \<in> set ps" for q using Cons.prems(5) that b(1) by (auto simp: h1_def)
    then obtain h' r' xs' where IH: "readfd_loop h1 junk r (off + length c) ps (map Recv cs @ e # rs) = Some (h', r', ended e)"
        "rb_inv h' r' xs' ((off + length c + length (concat cs)) mod READBUF_BLOCK_SIZE) ((data @ c) @ concat cs)" "hd_next r' = hd_next r"
        "\<And>q. q \<notin> set (xs @ [hd_tail r]) \<union> set ps \<Longrightarrow> h' q = h1 q"
      using Cons.IH [OF inv, of ps] c(3) lt Cons.prems(3,4) by auto
    moreover have "h1 q = h q" if "q \<noteq> hd_tail r" for q using that by (simp add: h1_def)
    moreover have "readfd_loop h junk r off ps (map Recv (c # cs) @ e # rs) = readfd_loop h1 junk r (off + length c) ps (map Recv cs @ e # rs)"
      using node blk c(1,2) False by (simp add: Let_def h1_def)
    ultimately show ?thesis by (auto simp: add.assoc)
  qed
qed

lemma READBUF_FREE_wild:
  "h hp = Some (Head r) \<Longrightarrow> hd_next r = 1 \<Longrightarrow> hp \<noteq> 0 \<Longrightarrow> hp \<noteq> 1 \<Longrightarrow> h 1 = None \<Longrightarrow> READBUF_FREE h hp = None"
  using READBUF_FREE.simps [of h hp] READBUF_FREE.simps [of "h(hp := None)" 1] by (simp add: cmem)

text \<open>
  Fresh addresses for the head, the first block and the further ones.  No object is ever at address \<open>1\<close>, because
  \<open>malloc\<close> aligns what it returns.
\<close>

definition fresh_blocks :: "rb_heap \<Rightarrow> addr list \<Rightarrow> bool" where
  "fresh_blocks h ps \<longleftrightarrow> distinct ps \<and> (\<forall>p \<in> set ps. h p = None \<and> p \<noteq> 0 \<and> p \<noteq> 1) \<and> h 1 = None"

lemma readfd_collects:
  assumes "fresh_blocks h (hp # np # ps)" and "chunks_ok 0 cs" and "length cs \<le> length ps" and "\<And>bs. e \<noteq> Recv bs"
  shows "\<exists>h0 r0 h' r' xs. NEW_READBUF_HEAD h junk hp np i = Some (h0, r0)
    \<and> readfd_loop h0 junk r0 0 ps (map Recv cs @ e # rs) = Some (h', r', ended e)
    \<and> rb_inv h' r' xs (length (concat cs) mod READBUF_BLOCK_SIZE) (concat cs) \<and> h' 1 = None \<and> hp \<notin> set (xs @ [hd_tail r'])"
proof -
  let ?r = "\<lparr>hd_next = np, hd_tail = np, info = i\<rparr>" and ?n = "\<lparr>rb_next = 0, block = map junk [0..<READBUF_BLOCK_SIZE], rb_capacity = 0\<rparr>"
  define h0 where "h0 = h(hp \<mapsto> Head ?r, np \<mapsto> Node ?n)"
  have f: "hp \<noteq> np" "hp \<noteq> 0" "np \<noteq> 0" "hp \<noteq> 1" "np \<noteq> 1" "h hp = None" "h np = None" "h 1 = None"
    using assms(1) by (auto simp: fresh_blocks_def)
  have new: "NEW_READBUF_HEAD h junk hp np i = Some (h0, ?r)"
    using f by (simp add: NEW_READBUF_HEAD_def NEW_READBUF_NODE_def heap_alloc_def Let_def h0_def)
  have h0: "h0 hp = Some (Head ?r)" "h0 np = Some (Node ?n)" "h0 1 = None" using f by (simp_all add: h0_def)
  have "rb_inv h0 ?r [] 0 []"
    using f(3) h0(2) by (simp add: rb_inv_def rb_block_def rb_data_def rb_node_def READBUF_BLOCK_SIZE_def)
  moreover have "\<forall>p \<in> set ps. h0 p = None \<and> p \<noteq> 0" "distinct ps" using assms(1) by (auto simp: fresh_blocks_def h0_def)
  ultimately obtain h' r' xs where l: "readfd_loop h0 junk ?r 0 ps (map Recv cs @ e # rs) = Some (h', r', ended e)"
      "rb_inv h' r' xs (length (concat cs) mod READBUF_BLOCK_SIZE) (concat cs)"
      "\<And>q. q \<notin> {np} \<union> set ps \<Longrightarrow> h' q = h0 q"
    using readfd_loop_spec [OF _ assms(2,3) _ _ assms(4), of h0 ?r "[]" "[]" junk rs] by auto
  have "h' hp = Some (Head ?r)" using l(3) [of hp] h0(1) assms(1) by (simp add: fresh_blocks_def)
  then have "hp \<notin> set (xs @ [hd_tail r'])" using l(2) by (auto simp: rb_inv_def rb_block_def)
  moreover have "h' 1 = None" using l(3) [of 1] h0(3) f assms(1) by (auto simp: fresh_blocks_def)
  ultimately show ?thesis using new l(1,2) by blast
qed

section \<open>Properties\<close>

text \<open>
  The array of polled descriptors: \<open>pollfd_array_input\<close> stores a descriptor in the first free cell, or answers \<open>-1\<close> when
  there is none; \<open>pollfd_array_insert_sort\<close> sorts the array stably by descriptor; \<open>pollfd_array_binary_get\<close> returns, stays
  inside the array and answers the index of a matching entry or \<open>-1\<close>, and it finds the middle entry; but an array of one entry
  is never searched at all, so in \<open>tcp_server_run\<close>, whose array has the listening socket as its only entry, every event
  on that socket goes to the reader of accepted connections and the accept handler is never called.
\<close>

theorem poll_array_correct:
  assumes "pfd_live h ps" and "length ps \<le> 2 ^ 30"
  shows "pollfd_array_input qs (int (length qs)) q =
      Some (if 0 \<in> set qs then let k = LEAST k. qs ! k = 0 in (qs[k := q], 0) else (qs, - 1))
    \<and> pollfd_array_insert_sort h ps (int (length ps)) = Some (sort_key (pfd_key h) ps)
    \<and> (\<exists>k. pollfd_array_binary_get h ps (int (length ps)) fd = Some k
         \<and> (k = - 1 \<or> 0 \<le> k \<and> k < int (length ps) \<and> pfd_key h (ps ! nat k) = fd))
    \<and> (2 \<le> length ps \<longrightarrow>
         pollfd_array_binary_get h ps (int (length ps)) (pfd_key h (ps ! ((length ps - 1) div 2))) = Some (int ((length ps - 1) div 2)))
    \<and> (length ps = 1 \<longrightarrow> pollfd_array_binary_get h ps (int (length ps)) fd = Some (- 1))
    \<and> tcp_server_run h epollfd True pfd_new (Some 0) listen_fd ws =
        Some (if epollfd < 0 then [] else concat (map (\<lambda>w. case w of Ready fds \<Rightarrow> map Handle_readfd fds | Wait_error \<Rightarrow> []) ws))"
proof (intro conjI)
  show "pollfd_array_input qs (int (length qs)) q =
      Some (if 0 \<in> set qs then let k = LEAST k. qs ! k = 0 in (qs[k := q], 0) else (qs, - 1))"
    using input_loop_spec [of 0 qs q] by (simp add: pollfd_array_input_def)
  show "pollfd_array_insert_sort h ps (int (length ps)) = Some (sort_key (pfd_key h) ps)"
    by (rule pollfd_array_insert_sort_spec [OF assms(1)])
  show "\<exists>k. pollfd_array_binary_get h ps (int (length ps)) fd = Some k
         \<and> (k = - 1 \<or> 0 \<le> k \<and> k < int (length ps) \<and> pfd_key h (ps ! nat k) = fd)"
    using pfd_search_sound [OF assms(1,2), of 0 "int (length ps) - 1" fd] by (auto simp: pollfd_array_binary_get_def)
  show "2 \<le> length ps \<longrightarrow>
         pollfd_array_binary_get h ps (int (length ps)) (pfd_key h (ps ! ((length ps - 1) div 2))) = Some (int ((length ps - 1) div 2))"
    using pollfd_array_binary_get_mid [OF assms(1,2) _ refl] by blast
  show "length ps = 1 \<longrightarrow> pollfd_array_binary_get h ps (int (length ps)) fd = Some (- 1)"
    by (simp add: pollfd_array_binary_get_short)
  show "tcp_server_run h epollfd True pfd_new (Some 0) listen_fd ws =
        Some (if epollfd < 0 then [] else concat (map (\<lambda>w. case w of Ready fds \<Rightarrow> map Handle_readfd fds | Wait_error \<Rightarrow> []) ws))"
    by (simp add: tcp_server_run_def pollfd_array_input_def pollfd_array_input_loop.simps cmem pollfd_array_insert_sort_def
        pfd_sort_loop.simps server_rounds_one)
qed

theorem poll_array_correct_witness:
  "pollfd_array_insert_sort [1 \<mapsto> \<lparr>pfd_fd = 9\<rparr>, 2 \<mapsto> \<lparr>pfd_fd = 4\<rparr>] [1, 2] 2 = Some [2, 1]
   \<and> tcp_server_run [1 \<mapsto> \<lparr>pfd_fd = 9\<rparr>, 2 \<mapsto> \<lparr>pfd_fd = 4\<rparr>] 5 True 3 (Some 0) 7 [Ready [7]] = Some [Handle_readfd 7]"
  using poll_array_correct [of "[1 \<mapsto> \<lparr>pfd_fd = 9\<rparr>, 2 \<mapsto> \<lparr>pfd_fd = 4\<rparr>]" "[1, 2]" "[]" 0 0 5 3 7 "[Ready [7]]"]
  by (simp add: pfd_live_def pfd_key_def)



end
