(* ===== verification/NetEcho.thy ===== *)
theory NetEcho
  imports CHeap
begin

text \<open>
  \<open>mycache/src/net/net.c\<close>: the callbacks of the libev echo server.  The state is the table \<open>libevlist\<close> of client watchers by
  descriptor, the watchers themselves (with a flag for \<open>ev_io_start\<close> and \<open>ev_io_stop\<close>), the descriptors that were closed and the
  data sent.  The answers of \<open>malloc\<close>, \<open>accept\<close> and \<open>recv\<close> are arguments.  The stray line of text before the declaration of
  \<open>w_client\<close> in \<open>accept_cb\<close>, a comment that lost its marker, is left out, as are the messages printed.
\<close>

section \<open>Definitions\<close>

record ev_io =
  ev_fd :: int
  started :: bool

record server =
  libevlist :: "addr list"
  watchers :: "ev_io heap"
  closed :: "int list"
  sent :: "(int \<times> byte list) list"

definition MAX_ALLOWED_CLIENT :: nat where
  "MAX_ALLOWED_CLIENT = 10240"

definition BUFFER_SIZE :: nat where
  "BUFFER_SIZE = 2048"

definition accept_cb :: "server \<Rightarrow> addr \<Rightarrow> bool \<Rightarrow> int \<Rightarrow> int \<Rightarrow> server option" where
  "accept_cb s w_client ev_error client_sd junk =
     (if w_client = 0 then Some s
      else do {
        ws \<leftarrow> heap_alloc (watchers s) w_client \<lparr>ev_fd = junk, started = False\<rparr>;
        let s = s\<lparr>watchers := ws\<rparr>;
        if ev_error then Some s
        else if client_sd < 0 then Some s
        else if client_sd > int MAX_ALLOWED_CLIENT then Some (s\<lparr>closed := client_sd # closed s\<rparr>)
        else do {
          w \<leftarrow> aget (libevlist s) client_sd;
          if w \<noteq> 0 then Some s
          else do {
            ws \<leftarrow> heap_set (\<lambda>_. \<lparr>ev_fd = client_sd, started = True\<rparr>) (watchers s) w_client;
            tab \<leftarrow> aput (libevlist s) client_sd w_client;
            Some (s\<lparr>watchers := ws, libevlist := tab\<rparr>)
          }
        }
      })"

definition freelibev :: "server \<Rightarrow> int \<Rightarrow> (server \<times> int) option" where
  "freelibev s fd = do {
     w \<leftarrow> aget (libevlist s) fd;
     if w = 0 then Some (s, - 1)
     else do {
       let s = s\<lparr>closed := fd # closed s\<rparr>;
       ws \<leftarrow> heap_set (\<lambda>e. e\<lparr>started := False\<rparr>) (watchers s) w;
       ws \<leftarrow> heap_free ws w;
       tab \<leftarrow> aput (libevlist s) fd 0;
       Some (s\<lparr>watchers := ws, libevlist := tab\<rparr>, 1)
     }
   }"

text \<open>\<open>recv\<close> answers a negative number or the bytes it stored in the buffer, at most \<open>BUFFER_SIZE\<close>.\<close>

datatype recv_answer = Failed | Received "byte list"

definition read_cb :: "server \<Rightarrow> byte list \<Rightarrow> addr \<Rightarrow> bool \<Rightarrow> recv_answer \<Rightarrow> server option" where
  "read_cb s junk watcher ev_error answer =
     (if ev_error then Some s
      else do {
        let buf = take BUFFER_SIZE junk;
        w \<leftarrow> watchers s watcher;
        (case answer of
           Failed \<Rightarrow> Some s
         | Received bs \<Rightarrow>
             if length bs = 0 then do {
               ws \<leftarrow> heap_set (\<lambda>e. e\<lparr>started := False\<rparr>) (watchers s) watcher;
               ws \<leftarrow> heap_free ws watcher;
               let s = s\<lparr>watchers := ws\<rparr>;
               w \<leftarrow> watchers s watcher;
               (s, r) \<leftarrow> freelibev s (ev_fd w);
               Some s
             } else do {
               buf \<leftarrow> memcpy buf 0 bs 0 (length bs);
               buf \<leftarrow> aput buf (int (length bs)) 0;
               Some (s\<lparr>sent := (ev_fd w, take (length bs) buf) # sent s\<rparr>)
             })
      })"

section \<open>The event loop\<close>

text \<open>
  What libev and the kernel may do next: report a connection on a descriptor that is not in use, data or an error on a started
  watcher, or let the program drop a client.
\<close>

inductive ev_step :: "server \<Rightarrow> server \<Rightarrow> bool" where
  ev_accept: "watchers s w = None \<Longrightarrow> client_sd < int MAX_ALLOWED_CLIENT \<Longrightarrow> accept_cb s w err client_sd junk = Some s' \<Longrightarrow> ev_step s s'"
| ev_read: "watchers s w = Some e \<Longrightarrow> started e \<Longrightarrow> length buf = BUFFER_SIZE \<Longrightarrow> read_cb s buf w err answer = Some s' \<Longrightarrow> ev_step s s'"
| ev_drop: "freelibev s fd = Some (s', r) \<Longrightarrow> ev_step s s'"

inductive_cases ev_stepE: "ev_step s s'"

definition server_start :: "server \<Rightarrow> bool" where
  "server_start s \<longleftrightarrow> libevlist s = replicate MAX_ALLOWED_CLIENT 0 \<and> watchers s 0 = None \<and> (\<forall>w e. watchers s w = Some e \<longrightarrow> \<not> started e)"

text \<open>
  The invariant of the table: it keeps its size, a started watcher is in the cell of its descriptor, and a cell that is not
  \<open>NULL\<close> holds a live started watcher of that descriptor.
\<close>

definition server_inv :: "server \<Rightarrow> bool" where
  "server_inv s \<longleftrightarrow> length (libevlist s) = MAX_ALLOWED_CLIENT \<and> watchers s 0 = None
     \<and> (\<forall>i < MAX_ALLOWED_CLIENT. libevlist s ! i \<noteq> 0 \<longrightarrow> watchers s (libevlist s ! i) = Some \<lparr>ev_fd = int i, started = True\<rparr>)
     \<and> (\<forall>w e. watchers s w = Some e \<and> started e \<longrightarrow> 0 \<le> ev_fd e \<and> ev_fd e < int MAX_ALLOWED_CLIENT \<and> libevlist s ! nat (ev_fd e) = w)"

section \<open>The table of watchers\<close>

lemma server_invD:
  assumes "server_inv s"
  shows "length (libevlist s) = MAX_ALLOWED_CLIENT" and "watchers s 0 = None"
    and "\<And>i. i < MAX_ALLOWED_CLIENT \<Longrightarrow> libevlist s ! i \<noteq> 0 \<Longrightarrow> watchers s (libevlist s ! i) = Some \<lparr>ev_fd = int i, started = True\<rparr>"
    and "\<And>w e. watchers s w = Some e \<Longrightarrow> started e \<Longrightarrow> 0 \<le> ev_fd e \<and> ev_fd e < int MAX_ALLOWED_CLIENT \<and> libevlist s ! nat (ev_fd e) = w"
  using assms by (auto simp: server_inv_def)

lemma server_start_inv: "server_start s \<Longrightarrow> server_inv s"
  by (auto simp: server_start_def server_inv_def)

text \<open>Two changes that keep the invariant: a new watcher in a free cell, and a client removed from its cell.\<close>

lemma inv_enter:
  assumes inv: "server_inv s" and i: "i < MAX_ALLOWED_CLIENT" "libevlist s ! i = 0" and w: "watchers s w = None" "w \<noteq> 0"
  shows "server_inv (s\<lparr>watchers := (watchers s)(w \<mapsto> \<lparr>ev_fd = int i, started = True\<rparr>), libevlist := (libevlist s)[i := w]\<rparr>)"
proof -
  note d = server_invD [OF inv]
  have "libevlist s ! k \<noteq> w" if "k < MAX_ALLOWED_CLIENT" for k using d(3) [OF that] w by auto
  moreover have "nat (ev_fd e) \<noteq> i" if "watchers s v = Some e" "started e" for v e
    using d(4) [OF that] i(2) d(2) that(1) by (auto intro: ccontr)
  ultimately show ?thesis
    using d w i unfolding server_inv_def by (auto simp: nth_list_update)
qed

lemma inv_leave:
  assumes inv: "server_inv s" and i: "i < MAX_ALLOWED_CLIENT" "libevlist s ! i \<noteq> 0"
  shows "server_inv (s\<lparr>closed := c, watchers := (watchers s)(libevlist s ! i := None), libevlist := (libevlist s)[i := 0]\<rparr>)"
proof -
  note d = server_invD [OF inv]
  have "libevlist s ! k \<noteq> libevlist s ! i" if "k < MAX_ALLOWED_CLIENT" "k \<noteq> i" for k
    using d(3) [OF that(1)] d(3) [OF i] i(2) that(2) by auto
  moreover have "nat (ev_fd e) \<noteq> i" if "watchers s v = Some e" "started e" "v \<noteq> libevlist s ! i" for v e
    using d(4) [OF that(1,2)] that(3) by auto
  ultimately show ?thesis
    using d i unfolding server_inv_def by (auto simp: nth_list_update)
qed

lemma inv_new_watcher:
  "server_inv s \<Longrightarrow> watchers s w = None \<Longrightarrow> w \<noteq> 0 \<Longrightarrow> server_inv (s\<lparr>watchers := (watchers s)(w \<mapsto> \<lparr>ev_fd = j, started = False\<rparr>), closed := c\<rparr>)"
  unfolding server_inv_def by (auto split: if_splits)

lemma inv_sent: "server_inv (s\<lparr>sent := x\<rparr>) = server_inv s"
  by (simp add: server_inv_def)

lemma freelibev_inv:
  assumes "server_inv s" and "freelibev s fd = Some (s', r)"
  shows "server_inv s'"
proof (cases "0 \<le> fd \<and> fd < int MAX_ALLOWED_CLIENT")
  case True
  let ?w = "libevlist s ! nat fd"
  have g: "aget (libevlist s) fd = Some ?w" "\<And>v. aput (libevlist s) fd v = Some ((libevlist s)[nat fd := v])"
    using True server_invD(1) [OF assms(1)] by (simp_all add: aget_def aput_def)
  show ?thesis
  proof (cases "?w = 0")
    case False
    then have "watchers s ?w = Some \<lparr>ev_fd = fd, started = True\<rparr>" using server_invD(3) [OF assms(1), of "nat fd"] True by (simp add: nat_less_iff)
    then have "s' = s\<lparr>closed := fd # closed s, watchers := (watchers s)(?w := None), libevlist := (libevlist s)[nat fd := 0]\<rparr>"
      using assms(2) False by (simp add: freelibev_def g Let_def cmem)
    then show ?thesis using inv_leave [OF assms(1), of "nat fd"] True False by (simp add: nat_less_iff)
  qed (use assms g in \<open>simp add: freelibev_def\<close>)
qed (use assms server_invD(1) [OF assms(1)] in \<open>auto simp: freelibev_def aget_def split: if_splits\<close>)

lemma read_cb_eof:
  assumes "watchers s w = Some e" and "w \<noteq> 0"
  shows "read_cb s buf w False (Received []) = None"
  using assms by (simp add: read_cb_def cmem)

lemma read_cb_data:
  assumes "watchers s w = Some e" and "length buf = BUFFER_SIZE" and "bs \<noteq> []"
  shows "read_cb s buf w False (Received bs) = (if length bs < BUFFER_SIZE then Some (s\<lparr>sent := (ev_fd e, bs) # sent s\<rparr>) else None)"
  using assms by (auto simp: read_cb_def memcpy_def aput_def Let_def)

lemma accept_cb_cases:
  assumes inv: "server_inv s" and w: "watchers s w = None" and sd: "client_sd < int MAX_ALLOWED_CLIENT"
  shows "\<exists>s'. accept_cb s w err client_sd junk = Some s' \<and> server_inv s'"
proof (cases "w = 0")
  case False
  let ?s = "s\<lparr>watchers := (watchers s)(w \<mapsto> \<lparr>ev_fd = junk, started = False\<rparr>)\<rparr>"
  have new: "server_inv ?s" using inv_new_watcher [OF inv w False, of "closed s" junk] by simp
  have alloc: "heap_alloc (watchers s) w \<lparr>ev_fd = junk, started = False\<rparr> = Some (watchers ?s)" using w False by (simp add: cmem)
  show ?thesis
  proof (cases "err \<or> client_sd < 0")
    case nb: False
    have g: "aget (libevlist s) client_sd = Some (libevlist s ! nat client_sd)"
        "aput (libevlist s) client_sd w = Some ((libevlist s)[nat client_sd := w])"
      using nb sd server_invD(1) [OF inv] by (simp_all add: aget_def aput_def)
    have "server_inv (s\<lparr>watchers := (watchers s)(w \<mapsto> \<lparr>ev_fd = client_sd, started = True\<rparr>), libevlist := (libevlist s)[nat client_sd := w]\<rparr>)"
      if "libevlist s ! nat client_sd = 0"
      using inv_enter [OF inv, of "nat client_sd" w] that nb sd w False by (simp add: nat_less_iff)
    then show ?thesis using new alloc g sd nb False by (auto simp: accept_cb_def Let_def cmem)
  qed (use new alloc False in \<open>auto simp: accept_cb_def Let_def\<close>)
qed (use inv in \<open>simp add: accept_cb_def\<close>)

lemma accept_cb_off_by_one:
  assumes "server_inv s" and "watchers s w = None" and "w \<noteq> 0"
  shows "accept_cb s w False (int MAX_ALLOWED_CLIENT) junk = None"
  using assms server_invD(1) [OF assms(1)] by (simp add: accept_cb_def cmem aget_def Let_def)

lemma ev_step_inv: "ev_step s s' \<Longrightarrow> server_inv s \<Longrightarrow> server_inv s'"
proof (erule ev_stepE)
  fix w client_sd err junk
  assume "server_inv s" "watchers s w = None" "client_sd < int MAX_ALLOWED_CLIENT" "accept_cb s w err client_sd junk = Some s'"
  then show "server_inv s'" using accept_cb_cases [of s w client_sd err junk] by auto
next
  fix w e buf err answer
  assume inv: "server_inv s" and r: "watchers s w = Some e" "length buf = BUFFER_SIZE" "read_cb s buf w err answer = Some s'"
  have w0: "w \<noteq> 0" using r(1) server_invD(2) [OF inv] by (intro notI) simp
  show "server_inv s'"
  proof (cases "err \<or> answer = Failed")
    case True
    then show ?thesis using r inv by (auto simp: read_cb_def Let_def split: if_splits)
  next
    case False
    then obtain bs where bs: "err = False" "answer = Received bs" by (cases answer) auto
    show ?thesis
      using r inv bs read_cb_eof [OF r(1) w0, of buf] read_cb_data [OF r(1,2), of bs]
      by (cases "bs = []") (auto simp: inv_sent split: if_splits)
  qed
qed (rule freelibev_inv)

section \<open>Properties\<close>



end
