(* ===== verification/Protocol.thy ===== *)
theory Protocol
  imports Coding
begin

text \<open>
  \<open>mycache/src/net/protocol.h\<close>: the parser of client requests.  A \<open>const char *\<close> is an offset into the input or \<open>NULL\<close>
  (\<open>None\<close>); reading through \<open>NULL\<close> or outside the input faults.  The values of the variables \<open>argc\<close> and \<open>argv_len\<close> before they are
  set, and the success of the allocations, are arguments.
\<close>

section \<open>Definitions\<close>

text \<open>\<open>Some None\<close> is the result \<open>NULL\<close>.\<close>

definition enter_jump :: "byte list \<Rightarrow> nat \<Rightarrow> nat option option" where
  "enter_jump buf p = do {
     a \<leftarrow> getb buf p;
     if 13 \<noteq> a then Some None
     else do {
       b \<leftarrow> getb buf (p + 1);
       if 10 \<noteq> b then Some None else Some (Some (p + 2))
     }
   }"

text \<open>\<open>get_varint32_data_ptr(in + 1, in + 5, &v)\<close>: the new \<open>in\<close> and \<open>v\<close>, which keeps its old value \<open>junk\<close> on failure.\<close>

definition read_count :: "byte list \<Rightarrow> nat \<Rightarrow> u32 \<Rightarrow> (nat option \<times> u32) option" where
  "read_count buf p junk = do {
     r \<leftarrow> get_varint32_data_ptr buf (p + 1) (p + 5);
     Some (case r of None \<Rightarrow> (None, junk) | Some (q, v) \<Rightarrow> (Some q, v))
   }"

text \<open>
  The loop over the arguments, \<open>n\<close> of them still to come: \<open>Inl rc\<close> when it returns from the function, otherwise \<open>in\<close> and the
  arguments copied so far.
\<close>

fun parse_args :: "byte list \<Rightarrow> u32 \<Rightarrow> (nat \<Rightarrow> bool) \<Rightarrow> nat option \<Rightarrow> byte list list \<Rightarrow> nat \<Rightarrow>
    (int + nat option \<times> byte list list) option" where
  "parse_args buf junk ok inp args 0 = Some (Inr (inp, args))"
| "parse_args buf junk ok inp args (Suc n) = do {
     p \<leftarrow> inp;
     c \<leftarrow> getb buf p;
     if 36 = c then do {
       (inp, argv_len) \<leftarrow> read_count buf p junk;
       if argv_len = 0 then Some (Inl (- 1))
       else do {
         p \<leftarrow> inp;
         inp \<leftarrow> enter_jump buf p;
         require (ok n);
         p \<leftarrow> inp;
         arg \<leftarrow> memcpy (replicate (unat argv_len) 0) 0 buf p (unat argv_len);
         inp \<leftarrow> enter_jump buf p;
         parse_args buf junk ok inp (args @ [arg]) n
       }
     } else parse_args buf junk ok inp args n
   }"

text \<open>
  The result is \<open>Some rc\<close> for a \<open>return\<close> statement and \<open>None\<close> when the end of the function is reached, with the requests parsed.
\<close>

partial_function (option) parse_loop :: "byte list \<Rightarrow> u32 \<Rightarrow> u32 \<Rightarrow> bool \<Rightarrow> (nat \<Rightarrow> bool) \<Rightarrow> nat option \<Rightarrow> byte list list list \<Rightarrow>
    (int option \<times> byte list list list) option" where
  "parse_loop buf len junk opt_ok ok inp reqs = do {
     p \<leftarrow> inp;
     if p < unat len then do {
       c \<leftarrow> getb buf p;
       if 42 = c then do {
         (inp, argc) \<leftarrow> read_count buf p junk;
         if argc = 0 then Some (Some (- 1), reqs)
         else if \<not> opt_ok then Some (Some (- 1), reqs)
         else do {
           p \<leftarrow> inp;
           inp \<leftarrow> enter_jump buf p;
           r \<leftarrow> parse_args buf junk ok inp [] (unat argc);
           (case r of Inl rc \<Rightarrow> Some (Some rc, reqs)
            | Inr (inp, args) \<Rightarrow> parse_loop buf len junk opt_ok ok inp (reqs @ [args]))
         }
       } else parse_loop buf len junk opt_ok ok inp reqs
     } else Some (None, reqs)
   }"

definition protocol_parse :: "byte list \<Rightarrow> u32 \<Rightarrow> u32 \<Rightarrow> bool \<Rightarrow> (nat \<Rightarrow> bool) \<Rightarrow> (int option \<times> byte list list list) option" where
  "protocol_parse buf len junk opt_ok ok = parse_loop buf len junk opt_ok ok (Some 0) []"

section \<open>Well-formed requests\<close>

text \<open>A request in the format the parser reads: counts and lengths as varints, every line ended by a carriage return and line feed.\<close>

definition arg_bytes :: "byte list \<Rightarrow> byte list" where
  "arg_bytes a = 36 # varint_bytes (length a) @ [13, 10] @ a @ [13, 10]"

definition request_bytes :: "byte list list \<Rightarrow> byte list" where
  "request_bytes args = 42 # varint_bytes (length args) @ [13, 10] @ concat (map arg_bytes args)"

text \<open>The first two bytes of an argument are not a line end themselves.\<close>

definition plain_arg :: "byte list \<Rightarrow> bool" where
  "plain_arg a \<longleftrightarrow> a \<noteq> [] \<and> take 2 (a @ [13, 10]) \<noteq> [13, 10]"

lemma enter_jump_crlf: "bytes_at buf p [13, 10] \<Longrightarrow> enter_jump buf p = Some (Some (p + 2))"
  by (auto simp: enter_jump_def bytes_at_Cons)

lemma enter_jump_other:
  assumes "bytes_at buf p (a @ [13, 10])" and "plain_arg a"
  shows "enter_jump buf p = Some None"
proof -
  obtain x y zs where "a @ [13, 10] = x # y # zs" "\<not> (x = 13 \<and> y = 10)"
    using assms(2) by (cases a; cases "tl a") (auto simp: plain_arg_def)
  with assms(1) show ?thesis by (auto simp: enter_jump_def bytes_at_Cons)
qed

lemma read_count_varint:
  assumes "bytes_at buf (p + 1) (varint_bytes n)" and "n < 2 ^ 28"
  shows "read_count buf p junk = Some (Some (p + 1 + length (varint_bytes n)), of_nat n)"
proof -
  have "unat (of_nat n :: u32) = n" using assms(2) by (simp add: unsigned_of_nat take_bit_nat_eq_self)
  moreover have "length (varint_bytes n) \<le> 4" using length_varint_bytes_le [of n 3] assms(2) by simp
  ultimately show ?thesis
    using get_varint32_correct(1) [of buf "p + 1" "of_nat n" "p + 5"] assms(1) by (simp add: read_count_def)
qed


text \<open>The argument loop stops at the first plain argument: its data are copied, but \<open>in\<close> is not moved behind them.\<close>

lemma parse_args_first:
  assumes at: "bytes_at buf p (arg_bytes a)" and a: "plain_arg a" "length a < 2 ^ 28" and ok: "ok n"
  shows "parse_args buf junk ok (Some p) args (Suc n) = parse_args buf junk ok None (args @ [a]) n"
proof -
  let ?q = "p + 1 + length (varint_bytes (length a))"
  have b: "getb buf p = Some 36" "bytes_at buf (p + 1) (varint_bytes (length a))" "bytes_at buf ?q [13, 10]"
      "bytes_at buf (?q + 2) (a @ [13, 10])"
    using at by (auto simp: arg_bytes_def bytes_at_Cons bytes_at_append add_ac)
  have len: "unat (of_nat (length a) :: u32) = length a" using a(2) by (simp add: unsigned_of_nat take_bit_nat_eq_self)
  have nz: "(of_nat (length a) :: u32) \<noteq> 0" using len a(1) by (metis length_0_conv plain_arg_def unsigned_0)
  have "bytes_at buf (?q + 2) a" using b(4) by (simp add: bytes_at_append)
  then have "memcpy (replicate (length a) 0) 0 buf (?q + 2) (length a) = Some a" by (auto simp: memcpy_def bytes_at_def)
  then show ?thesis
    using b(1) ok read_count_varint [OF b(2) a(2), of junk] nz len enter_jump_crlf [OF b(3)] enter_jump_other [OF b(4) a(1)]
    by simp
qed

lemma parse_args_null: "parse_args buf junk ok None args n = (if n = 0 then Some (Inr (None, args)) else None)"
  by (cases n) simp_all

lemma parse_loop_null: "parse_loop buf len junk opt_ok ok None reqs = None"
  by (subst parse_loop.simps) simp

text \<open>A byte that is no star is never left behind: the loop does not end.\<close>

lemma parse_loop_stuck:
  assumes "parse_loop buf len junk opt_ok ok inp reqs = Some r"
  shows "\<not> (\<exists>p c. inp = Some p \<and> p < unat len \<and> getb buf p = Some c \<and> c \<noteq> 42)"
proof (rule parse_loop.raw_induct
    [where P = "\<lambda>buf len _ _ _ inp _ _. \<not> (\<exists>p c. inp = Some p \<and> p < unat len \<and> getb buf p = Some c \<and> c \<noteq> 42)", OF _ assms], rule notI, goal_cases)
  case (1 f buf len junk opt_ok ok inp reqs y)
  then obtain p c where "inp = Some p" "p < unat len" "getb buf p = Some c" "c \<noteq> 42" by blast
  then have "f buf len junk opt_ok ok inp reqs = Some y" using 1(2) by simp
  from 1(1) [OF this] 1(3) show False by blast
qed

text \<open>The example of the comment: the command \<open>SET mykey myvalue\<close> with decimal counts.\<close>

definition redis_text :: "byte list" where
  "redis_text = [42, 51, 13, 10, 36, 51, 13, 10, 83, 69, 84, 13, 10, 36, 53, 13, 10, 109, 121, 107, 101, 121, 13, 10,
     36, 55, 13, 10, 109, 121, 118, 97, 108, 117, 101, 13, 10]"

lemma parse_args_redis: "parse_args redis_text junk ok (Some 4) [] (Suc n) = None"
  by (simp add: redis_text_def getb_def read_count_def get_varint32_data_ptr_def enter_jump_def memcpy_def)

section \<open>Properties\<close>

text \<open>
  (C39) What \<open>protocol_parse\<close> does with a request in its own format.  No input and a request with zero arguments are handled: the
  first reaches the end of the function, the second is refused with \<open>-1\<close>.  Any request whose first argument is plain, which
  every command is, faults: after an argument is copied, \<open>in\<close> still points at its first byte, \<open>enter_jump\<close> finds no line end there and
  answers \<open>NULL\<close>, and the next step reads through it.  The text form of the comment, with decimal counts, faults too:
  the digit is read as a varint.  Input that does not start with a star is never left: the loop does not end.
\<close>

theorem protocol_parse_outcome:
  assumes "list_all (\<lambda>a. length a < 2 ^ 28) (a # args)" and "length (a # args) < 2 ^ 28" and "plain_arg a"
    and "0 < unat len" and "\<And>n. ok n"
  shows "protocol_parse buf 0 junk True ok = Some (None, [])
    \<and> protocol_parse (request_bytes []) len junk True ok = Some (Some (- 1), [])
    \<and> protocol_parse (request_bytes (a # args)) len junk True ok = None
    \<and> protocol_parse redis_text len junk True ok = None
    \<and> (buf \<noteq> [] \<and> hd buf \<noteq> 42 \<longrightarrow> protocol_parse buf len junk True ok = None)"
proof (intro conjI)
  show "protocol_parse buf 0 junk True ok = Some (None, [])"
    unfolding protocol_parse_def by (subst parse_loop.simps) simp
  have start: "bytes_at (request_bytes xs) 0 (request_bytes xs)" for xs by (simp add: bytes_at_def)
  have "read_count (request_bytes []) 0 junk = Some (Some (1 + length (varint_bytes 0)), 0)"
    using read_count_varint [of "request_bytes []" 0 0] start [of "[]"] by (simp add: request_bytes_def bytes_at_Cons bytes_at_append)
  then show "protocol_parse (request_bytes []) len junk True ok = Some (Some (- 1), [])"
    unfolding protocol_parse_def using assms(4) by (subst parse_loop.simps) (simp add: request_bytes_def getb_def)
  show "protocol_parse (request_bytes (a # args)) len junk True ok = None"
  proof -
    let ?b = "request_bytes (a # args)" and ?n = "length (a # args)"
    let ?q = "1 + length (varint_bytes ?n)"
    have b: "getb ?b 0 = Some 42" "bytes_at ?b (0 + 1) (varint_bytes ?n)" "bytes_at ?b ?q [13, 10]" "bytes_at ?b (?q + 2) (arg_bytes a)"
    proof -
      have "?b = [42] @ varint_bytes ?n @ [13, 10] @ arg_bytes a @ concat (map arg_bytes args)" by (simp add: request_bytes_def)
      then have "bytes_at ?b 0 ([42] @ varint_bytes ?n @ [13, 10] @ arg_bytes a @ concat (map arg_bytes args))"
        using start [of "a # args"] by metis
      then have "bytes_at ?b 0 [42] \<and> bytes_at ?b 1 (varint_bytes ?n) \<and> bytes_at ?b ?q [13, 10] \<and> bytes_at ?b (?q + 2) (arg_bytes a)"
        unfolding bytes_at_append by (simp add: add_ac)
      then show "getb ?b 0 = Some 42" "bytes_at ?b (0 + 1) (varint_bytes ?n)" "bytes_at ?b ?q [13, 10]" "bytes_at ?b (?q + 2) (arg_bytes a)"
        by (simp_all add: bytes_at_Cons)
    qed
    have len: "unat (of_nat ?n :: u32) = ?n" using assms(2) by (simp add: unsigned_of_nat take_bit_nat_eq_self del: of_nat_Suc)
    then have nz: "(of_nat ?n :: u32) \<noteq> 0" by (metis length_0_conv list.distinct(1) unsigned_0)
    have "parse_args ?b junk ok (Some (?q + 2)) [] ?n = (if args = [] then Some (Inr (None, [a])) else None)"
      using parse_args_first [OF b(4) assms(3), of ok "length args" junk "[]"] assms(1,5)
      by (simp add: parse_args_null del: parse_args.simps)
    then show ?thesis
      unfolding protocol_parse_def
      using b(1) assms(4) read_count_varint [OF b(2) assms(2)] nz len enter_jump_crlf [OF b(3)]
      by (subst parse_loop.simps) (simp add: parse_loop_null del: of_nat_Suc parse_args.simps)
  qed
  have "getb redis_text 0 = Some 42" "read_count redis_text 0 junk = Some (Some 2, 51)" "enter_jump redis_text 2 = Some (Some 4)"
    by (simp_all add: redis_text_def getb_def read_count_def get_varint32_data_ptr_def enter_jump_def)
  then show "protocol_parse redis_text len junk True ok = None"
    unfolding protocol_parse_def using assms(4) parse_args_redis [of junk ok 50] by (subst parse_loop.simps) simp
  show "buf \<noteq> [] \<and> hd buf \<noteq> 42 \<longrightarrow> protocol_parse buf len junk True ok = None"
    using parse_loop_stuck [of buf len junk True ok "Some 0" "[]"] assms(4)
    by (cases "protocol_parse buf len junk True ok") (auto simp: protocol_parse_def getb_def hd_conv_nth split: if_splits)
qed

theorem protocol_parse_outcome_witness:
  "protocol_parse (request_bytes [[71, 69, 84], [107]]) 14 0 True (\<lambda>_. True) = None"
  using protocol_parse_outcome [of "[71, 69, 84]" "[[107]]" 14 "\<lambda>_. True" "[]" 0] by (simp add: plain_arg_def)

end
