(* ===== verification/RbModel.thy ===== *)
theory RbModel
  imports CPrelude
begin

text \<open>
  \<open>mycache/src/struct/rbtree.h\<close> and \<open>rbtree.c\<close>: intrusive red-black trees.  An address is a 64-bit word, \<open>NULL\<close> is \<open>0\<close>; a node packs
  the address of its parent and its colour into one word.  A tree is a heap of nodes together with the root pointer; reading or
  writing a node that is not in the heap faults.

  The two halves of every routine are the same code with left and right exchanged.  A side \<open>d\<close> selects the half: \<open>kid d\<close> is the child
  on that side and \<open>kid (op d)\<close> the other one, and \<open>rotate d\<close> is \<open>__rb_rotate_left\<close> for \<open>Lt\<close> and \<open>__rb_rotate_right\<close> for \<open>Rt\<close>.
\<close>

section \<open>Definitions: nodes\<close>

record rb_node =
  rb_parent_color :: u64
  rb_right :: u64
  rb_left :: u64

type_synonym rb_mem = "u64 \<Rightarrow> rb_node option"

datatype side = Lt | Rt

fun op :: "side \<Rightarrow> side" where
  "op Lt = Rt"
| "op Rt = Lt"

fun kid :: "side \<Rightarrow> rb_node \<Rightarrow> u64" where
  "kid Lt n = rb_left n"
| "kid Rt n = rb_right n"

fun kid_update :: "side \<Rightarrow> u64 \<Rightarrow> rb_node \<Rightarrow> rb_node" where
  "kid_update Lt p n = n\<lparr>rb_left := p\<rparr>"
| "kid_update Rt p n = n\<lparr>rb_right := p\<rparr>"

definition rb_parent :: "rb_node \<Rightarrow> u64" where
  "rb_parent r = rb_parent_color r AND NOT 3"

definition rb_color :: "rb_node \<Rightarrow> u64" where
  "rb_color r = rb_parent_color r AND 1"

definition rb_is_red :: "rb_node \<Rightarrow> bool" where
  "rb_is_red r \<longleftrightarrow> rb_color r = 0"

definition rb_is_black :: "rb_node \<Rightarrow> bool" where
  "rb_is_black r \<longleftrightarrow> rb_color r \<noteq> 0"

definition rb_upd :: "(rb_node \<Rightarrow> rb_node) \<Rightarrow> rb_mem \<Rightarrow> u64 \<Rightarrow> rb_mem option" where
  "rb_upd f h a = do { n \<leftarrow> h a; Some (h(a \<mapsto> f n)) }"

definition rb_set_red :: "rb_mem \<Rightarrow> u64 \<Rightarrow> rb_mem option" where
  "rb_set_red h a = rb_upd (\<lambda>r. r\<lparr>rb_parent_color := rb_parent_color r AND NOT 1\<rparr>) h a"

definition rb_set_black :: "rb_mem \<Rightarrow> u64 \<Rightarrow> rb_mem option" where
  "rb_set_black h a = rb_upd (\<lambda>r. r\<lparr>rb_parent_color := rb_parent_color r OR 1\<rparr>) h a"

definition rb_set_parent :: "rb_mem \<Rightarrow> u64 \<Rightarrow> u64 \<Rightarrow> rb_mem option" where
  "rb_set_parent h a p = rb_upd (\<lambda>r. r\<lparr>rb_parent_color := (rb_parent_color r AND 3) OR p\<rparr>) h a"

definition rb_set_color :: "rb_mem \<Rightarrow> u64 \<Rightarrow> u64 \<Rightarrow> rb_mem option" where
  "rb_set_color h a color = rb_upd (\<lambda>r. r\<lparr>rb_parent_color := (rb_parent_color r AND NOT 1) OR color\<rparr>) h a"

definition set_kid :: "side \<Rightarrow> rb_mem \<Rightarrow> u64 \<Rightarrow> u64 \<Rightarrow> rb_mem option" where
  "set_kid d h a p = rb_upd (kid_update d p) h a"

text \<open>\<open>!node || rb_is_black(node)\<close> and \<open>node && rb_is_red(node)\<close>.\<close>

definition null_or_black :: "rb_mem \<Rightarrow> u64 \<Rightarrow> bool option" where
  "null_or_black h a = (if a = 0 then Some True else do { n \<leftarrow> h a; Some (rb_is_black n) })"

definition live_red :: "rb_mem \<Rightarrow> u64 \<Rightarrow> bool option" where
  "live_red h a = (if a = 0 then Some False else do { n \<leftarrow> h a; Some (rb_is_red n) })"

text \<open>\<open>*rb_link = node\<close> writes the root pointer or a child of \<open>parent\<close>: the link is \<open>None\<close> for the root.\<close>

definition rb_link_node :: "rb_mem \<Rightarrow> u64 \<Rightarrow> u64 \<Rightarrow> u64 \<Rightarrow> (u64 \<times> side) option \<Rightarrow> (rb_mem \<times> u64) option" where
  "rb_link_node h root node parent rb_link = do {
     h \<leftarrow> rb_upd (\<lambda>_. \<lparr>rb_parent_color = parent, rb_right = 0, rb_left = 0\<rparr>) h node;
     (case rb_link of None \<Rightarrow> Some (h, node)
      | Some (p, d) \<Rightarrow> do { h \<leftarrow> set_kid d h p node; Some (h, root) })
   }"

section \<open>Definitions: rotation and rebalancing\<close>

text \<open>
  \<open>if (parent) { if (node == parent->rb_left) parent->rb_left = new; else parent->rb_right = new; } else root->rb_node = new;\<close>, with the
  side that is tested first.
\<close>

definition relink :: "side \<Rightarrow> rb_mem \<Rightarrow> u64 \<Rightarrow> u64 \<Rightarrow> u64 \<Rightarrow> u64 \<Rightarrow> (rb_mem \<times> u64) option" where
  "relink d h root parent node new =
     (if parent \<noteq> 0 then do {
        pn \<leftarrow> h parent;
        h \<leftarrow> (if node = kid d pn then set_kid d h parent new else set_kid (op d) h parent new);
        Some (h, root)
      } else Some (h, new))"

definition rotate :: "side \<Rightarrow> rb_mem \<Rightarrow> u64 \<Rightarrow> u64 \<Rightarrow> (rb_mem \<times> u64) option" where
  "rotate d h root node = do {
     n \<leftarrow> h node;
     let right = kid (op d) n;
     let parent = rb_parent n;
     rn \<leftarrow> h right;
     h \<leftarrow> set_kid (op d) h node (kid d rn);
     h \<leftarrow> (if kid d rn \<noteq> 0 then rb_set_parent h (kid d rn) node else Some h);
     h \<leftarrow> set_kid d h right node;
     h \<leftarrow> rb_set_parent h right parent;
     (h, root) \<leftarrow> relink d h root parent node right;
     h \<leftarrow> rb_set_parent h node right;
     Some (h, root)
   }"

definition rb_rotate_left :: "rb_mem \<Rightarrow> u64 \<Rightarrow> u64 \<Rightarrow> (rb_mem \<times> u64) option" where
  "rb_rotate_left = rotate Lt"

definition rb_rotate_right :: "rb_mem \<Rightarrow> u64 \<Rightarrow> u64 \<Rightarrow> (rb_mem \<times> u64) option" where
  "rb_rotate_right = rotate Rt"

text \<open>
  One half of the body of the loop in \<open>rb_insert_color\<close>: \<open>parent\<close> is the child of \<open>gparent\<close> on side \<open>d\<close>.  The result has the node the
  loop goes on with.
\<close>

definition insert_half :: "side \<Rightarrow> rb_mem \<Rightarrow> u64 \<Rightarrow> u64 \<Rightarrow> u64 \<Rightarrow> u64 \<Rightarrow> (rb_mem \<times> u64 \<times> u64) option" where
  "insert_half d h root node parent gparent = do {
     g \<leftarrow> h gparent;
     let uncle = kid (op d) g;
     red \<leftarrow> live_red h uncle;
     if red then do {
       h \<leftarrow> rb_set_black h uncle;
       h \<leftarrow> rb_set_black h parent;
       h \<leftarrow> rb_set_red h gparent;
       Some (h, root, gparent)
     } else do {
       pn \<leftarrow> h parent;
       (h, root, parent, node) \<leftarrow>
         (if kid (op d) pn = node then do {
            (h, root) \<leftarrow> rotate d h root parent;
            Some (h, root, node, parent)
          } else Some (h, root, parent, node));
       h \<leftarrow> rb_set_black h parent;
       h \<leftarrow> rb_set_red h gparent;
       (h, root) \<leftarrow> rotate (op d) h root gparent;
       Some (h, root, node)
     }
   }"

partial_function (option) insert_loop :: "rb_mem \<Rightarrow> u64 \<Rightarrow> u64 \<Rightarrow> (rb_mem \<times> u64) option" where
  "insert_loop h root node = do {
     n \<leftarrow> h node;
     let parent = rb_parent n;
     red \<leftarrow> live_red h parent;
     if red then do {
       pn \<leftarrow> h parent;
       let gparent = rb_parent pn;
       g \<leftarrow> h gparent;
       (h, root, node) \<leftarrow>
         (if parent = rb_left g then insert_half Lt h root node parent gparent
          else insert_half Rt h root node parent gparent);
       insert_loop h root node
     } else Some (h, root)
   }"

definition rb_insert_color :: "rb_mem \<Rightarrow> u64 \<Rightarrow> u64 \<Rightarrow> (rb_mem \<times> u64) option" where
  "rb_insert_color h root node = do {
     (h, root) \<leftarrow> insert_loop h root node;
     h \<leftarrow> rb_set_black h root;
     Some (h, root)
   }"

text \<open>
  One half of the body of the loop in \<open>__rb_erase_color\<close>: \<open>node\<close> is the child of \<open>parent\<close> on side \<open>d\<close>.  First a red
  sibling is rotated away, then the children of the sibling decide.  The flag is true for the branch that ends in \<open>break\<close>.
\<close>

definition erase_sibling :: "side \<Rightarrow> rb_mem \<Rightarrow> u64 \<Rightarrow> u64 \<Rightarrow> (rb_mem \<times> u64 \<times> u64) option" where
  "erase_sibling d h root parent = do {
     pn \<leftarrow> h parent;
     let other = kid (op d) pn;
     on \<leftarrow> h other;
     if rb_is_red on then do {
       h \<leftarrow> rb_set_black h other;
       h \<leftarrow> rb_set_red h parent;
       (h, root) \<leftarrow> rotate d h root parent;
       pn \<leftarrow> h parent;
       Some (h, root, kid (op d) pn)
     } else Some (h, root, other)
   }"

definition erase_nephews :: "side \<Rightarrow> rb_mem \<Rightarrow> u64 \<Rightarrow> u64 \<Rightarrow> u64 \<Rightarrow> (rb_mem \<times> u64 \<times> u64 \<times> u64 \<times> bool) option" where
  "erase_nephews d h root parent other = do {
     on \<leftarrow> h other;
     near_black \<leftarrow> null_or_black h (kid d on);
     far_black \<leftarrow> null_or_black h (kid (op d) on);
     if near_black \<and> far_black then do {
       h \<leftarrow> rb_set_red h other;
       pn \<leftarrow> h parent;
       Some (h, root, parent, rb_parent pn, False)
     } else do {
       (h, root, other) \<leftarrow>
         (if far_black then do {
            h \<leftarrow> rb_set_black h (kid d on);
            h \<leftarrow> rb_set_red h other;
            (h, root) \<leftarrow> rotate (op d) h root other;
            pn \<leftarrow> h parent;
            Some (h, root, kid (op d) pn)
          } else Some (h, root, other));
       pn \<leftarrow> h parent;
       h \<leftarrow> rb_set_color h other (rb_color pn);
       h \<leftarrow> rb_set_black h parent;
       on \<leftarrow> h other;
       h \<leftarrow> rb_set_black h (kid (op d) on);
       (h, root) \<leftarrow> rotate d h root parent;
       Some (h, root, root, parent, True)
     }
   }"

definition erase_half :: "side \<Rightarrow> rb_mem \<Rightarrow> u64 \<Rightarrow> u64 \<Rightarrow> (rb_mem \<times> u64 \<times> u64 \<times> u64 \<times> bool) option" where
  "erase_half d h root parent = do {
     (h, root, other) \<leftarrow> erase_sibling d h root parent;
     erase_nephews d h root parent other
   }"

partial_function (option) erase_loop :: "rb_mem \<Rightarrow> u64 \<Rightarrow> u64 \<Rightarrow> u64 \<Rightarrow> (rb_mem \<times> u64 \<times> u64) option" where
  "erase_loop h root node parent = do {
     black \<leftarrow> null_or_black h node;
     if black \<and> node \<noteq> root then do {
       pn \<leftarrow> h parent;
       (h, root, node, parent, stop) \<leftarrow>
         (if rb_left pn = node then erase_half Lt h root parent else erase_half Rt h root parent);
       if stop then Some (h, root, node) else erase_loop h root node parent
     } else Some (h, root, node)
   }"

definition rb_erase_color :: "rb_mem \<Rightarrow> u64 \<Rightarrow> u64 \<Rightarrow> u64 \<Rightarrow> (rb_mem \<times> u64) option" where
  "rb_erase_color h root node parent = do {
     (h, root, node) \<leftarrow> erase_loop h root node parent;
     h \<leftarrow> (if node \<noteq> 0 then rb_set_black h node else Some h);
     Some (h, root)
   }"

section \<open>Definitions: deletion, traversal and replacement\<close>

text \<open>\<open>while (n->rb_left) n = n->rb_left;\<close> and its mirror image.\<close>

partial_function (option) descend :: "side \<Rightarrow> rb_mem \<Rightarrow> u64 \<Rightarrow> u64 option" where
  "descend d h node = do {
     n \<leftarrow> h node;
     if kid d n \<noteq> 0 then descend d h (kid d n) else Some node
   }"

text \<open>\<open>while ((parent = rb_parent(node)) && node == parent->rb_right) node = parent; return parent;\<close> and its mirror image.\<close>

partial_function (option) climb :: "side \<Rightarrow> rb_mem \<Rightarrow> u64 \<Rightarrow> u64 option" where
  "climb d h node = do {
     n \<leftarrow> h node;
     let parent = rb_parent n;
     if parent \<noteq> 0 then do {
       pn \<leftarrow> h parent;
       if node = kid d pn then climb d h parent else Some parent
     } else Some parent
   }"

definition erase_finish :: "rb_mem \<Rightarrow> u64 \<Rightarrow> u64 \<Rightarrow> u64 \<Rightarrow> u64 \<Rightarrow> (rb_mem \<times> u64) option" where
  "erase_finish h root color child parent =
     (if color = 1 then rb_erase_color h root child parent else Some (h, root))"

definition erase_splice :: "rb_mem \<Rightarrow> u64 \<Rightarrow> u64 \<Rightarrow> u64 \<Rightarrow> (rb_mem \<times> u64) option" where
  "erase_splice h root node child = do {
     n \<leftarrow> h node;
     let parent = rb_parent n;
     let color = rb_color n;
     h \<leftarrow> (if child \<noteq> 0 then rb_set_parent h child parent else Some h);
     (h, root) \<leftarrow> relink Lt h root parent node child;
     erase_finish h root color child parent
   }"

text \<open>A node with two children: its successor is unlinked from the right subtree and takes its place.\<close>

definition erase_successor :: "rb_mem \<Rightarrow> u64 \<Rightarrow> u64 \<Rightarrow> (rb_mem \<times> u64) option" where
  "erase_successor h root old = do {
     n \<leftarrow> h old;
     node \<leftarrow> descend Lt h (rb_right n);
     (h, root) \<leftarrow> relink Lt h root (rb_parent n) old node;
     nn \<leftarrow> h node;
     let child = rb_right nn;
     let parent = rb_parent nn;
     let color = rb_color nn;
     (h, parent) \<leftarrow>
       (if parent = old then Some (h, node)
        else do {
          h \<leftarrow> (if child \<noteq> 0 then rb_set_parent h child parent else Some h);
          h \<leftarrow> set_kid Lt h parent child;
          on \<leftarrow> h old;
          h \<leftarrow> set_kid Rt h node (rb_right on);
          h \<leftarrow> rb_set_parent h (rb_right on) node;
          Some (h, parent)
        });
     on \<leftarrow> h old;
     h \<leftarrow> rb_upd (\<lambda>r. r\<lparr>rb_parent_color := rb_parent_color on\<rparr>) h node;
     h \<leftarrow> set_kid Lt h node (rb_left on);
     h \<leftarrow> rb_set_parent h (rb_left on) node;
     erase_finish h root color child parent
   }"

definition rb_erase :: "rb_mem \<Rightarrow> u64 \<Rightarrow> u64 \<Rightarrow> (rb_mem \<times> u64) option" where
  "rb_erase h root node = do {
     n \<leftarrow> h node;
     if rb_left n = 0 then erase_splice h root node (rb_right n)
     else if rb_right n = 0 then erase_splice h root node (rb_left n)
     else erase_successor h root node
   }"

definition rb_first :: "rb_mem \<Rightarrow> u64 \<Rightarrow> u64 option" where
  "rb_first h root = (if root = 0 then Some 0 else descend Lt h root)"

definition rb_last :: "rb_mem \<Rightarrow> u64 \<Rightarrow> u64 option" where
  "rb_last h root = (if root = 0 then Some 0 else descend Rt h root)"

definition rb_next :: "rb_mem \<Rightarrow> u64 \<Rightarrow> u64 option" where
  "rb_next h node = do {
     n \<leftarrow> h node;
     if rb_parent n = node then Some 0
     else if rb_right n \<noteq> 0 then descend Lt h (rb_right n)
     else climb Rt h node
   }"

definition rb_prev :: "rb_mem \<Rightarrow> u64 \<Rightarrow> u64 option" where
  "rb_prev h node = do {
     n \<leftarrow> h node;
     if rb_parent n = node then Some 0
     else if rb_left n \<noteq> 0 then descend Rt h (rb_left n)
     else climb Lt h node
   }"

definition rb_replace_node :: "rb_mem \<Rightarrow> u64 \<Rightarrow> u64 \<Rightarrow> u64 \<Rightarrow> (rb_mem \<times> u64) option" where
  "rb_replace_node h root victim new = do {
     v \<leftarrow> h victim;
     (h, root) \<leftarrow> relink Lt h root (rb_parent v) victim new;
     v \<leftarrow> h victim;
     h \<leftarrow> (if rb_left v \<noteq> 0 then rb_set_parent h (rb_left v) new else Some h);
     h \<leftarrow> (if rb_right v \<noteq> 0 then rb_set_parent h (rb_right v) new else Some h);
     v \<leftarrow> h victim;
     h \<leftarrow> rb_upd (\<lambda>_. v) h new;
     Some (h, root)
   }"

declare insert_loop.simps [code] erase_loop.simps [code] descend.simps [code] climb.simps [code]

end
