(* ===== verification/RbHeap.thy ===== *)
theory RbHeap
  imports RbModel
begin

text \<open>
  The shape of a red-black tree in the heap.  A node is seen as its parent, its colour (true for black) and its two children; a tree of
  addresses is laid out in the heap when the node at each address agrees with it.  A context is a tree with a hole, given from
  the hole upwards, as the rebalancing loops walk.
\<close>

section \<open>Nodes as the algorithms see them\<close>

datatype anode = An (apar: u64) (ablack: bool) (aleft: u64) (aright: u64)

definition aview :: "rb_node \<Rightarrow> anode" where
  "aview n = An (rb_parent n) (rb_is_black n) (rb_left n) (rb_right n)"

definition view :: "rb_mem \<Rightarrow> u64 \<Rightarrow> anode option" where
  "view h a = map_option aview (h a)"

fun akid :: "side \<Rightarrow> anode \<Rightarrow> u64" where
  "akid Lt (An p c l r) = l"
| "akid Rt (An p c l r) = r"

text \<open>The node with child \<open>x\<close> on side \<open>d\<close> and \<open>y\<close> on the other.\<close>

definition mk :: "side \<Rightarrow> u64 \<Rightarrow> bool \<Rightarrow> u64 \<Rightarrow> u64 \<Rightarrow> anode" where
  "mk d p c x y = (case d of Lt \<Rightarrow> An p c x y | Rt \<Rightarrow> An p c y x)"

lemma op_op [simp]: "op (op d) = d"
  by (cases d) simp_all

lemma op_neq [simp]: "op d \<noteq> d" "d \<noteq> op d"
  by (cases d; simp)+

lemma mk_op [simp]: "mk (op d) p c x y = mk d p c y x"
  by (cases d) (simp_all add: mk_def)

lemma mk_sel [simp]: "apar (mk d p c x y) = p" "ablack (mk d p c x y) = c" "akid d (mk d p c x y) = x" "akid (op d) (mk d p c x y) = y"
  by (cases d; simp add: mk_def)+

lemma mk_inject [simp]: "mk d p c x y = mk d p' c' x' y' \<longleftrightarrow> p = p' \<and> c = c' \<and> x = x' \<and> y = y'"
  by (cases d) (auto simp: mk_def)

definition aligned :: "u64 \<Rightarrow> bool" where
  "aligned a \<longleftrightarrow> a AND 3 = 0"

lemma aligned_0 [simp]: "aligned 0"
  by (simp add: aligned_def)

lemma view_eq_Some: "view h a = Some v \<Longrightarrow> \<exists>n. h a = Some n \<and> aview n = v"
  by (auto simp: view_def)

lemma aview_kid: "akid d (aview n) = kid d n"
  by (cases d) (simp_all add: aview_def)

lemma bits_low: "bit (3 :: u64) n \<longleftrightarrow> n < 2" "bit (1 :: u64) n \<longleftrightarrow> n = 0" "bit (3 :: int) n \<longleftrightarrow> n < 2"
  by (auto simp: bit_numeral_rec bit_1_iff split: nat.splits)

lemma aligned_bit: "aligned a \<Longrightarrow> n < 2 \<Longrightarrow> \<not> bit a n"
  unfolding aligned_def by (metis bit_and_iff bit_0_eq bits_low(1) bot_apply bot_bool_def)

lemma rb_is_black_bit: "rb_is_black n \<longleftrightarrow> bit (rb_parent_color n) 0"
  by (simp add: rb_is_black_def rb_color_def and_one_eq bit_0 mod2_eq_if)

lemma aview_upd:
  "aview (n\<lparr>rb_parent_color := rb_parent_color n AND NOT 1\<rparr>) = An (rb_parent n) False (rb_left n) (rb_right n)"
  "aview (n\<lparr>rb_parent_color := rb_parent_color n OR 1\<rparr>) = An (rb_parent n) True (rb_left n) (rb_right n)"
  "aligned p \<Longrightarrow> aview (n\<lparr>rb_parent_color := (rb_parent_color n AND 3) OR p\<rparr>) = An p (rb_is_black n) (rb_left n) (rb_right n)"
  "aview (n\<lparr>rb_parent_color := (rb_parent_color n AND NOT 1) OR rb_color m\<rparr>) = An (rb_parent n) (rb_is_black m) (rb_left n) (rb_right n)"
  "aview (kid_update d p n) = mk d (rb_parent n) (rb_is_black n) p (kid (op d) n)"
proof -
  show "aview (n\<lparr>rb_parent_color := rb_parent_color n AND NOT 1\<rparr>) = An (rb_parent n) False (rb_left n) (rb_right n)"
    by (auto simp: aview_def rb_parent_def rb_is_black_bit bit_simps bits_low intro!: bit_word_eqI)
  show "aview (n\<lparr>rb_parent_color := rb_parent_color n OR 1\<rparr>) = An (rb_parent n) True (rb_left n) (rb_right n)"
    by (auto simp: aview_def rb_parent_def rb_is_black_bit bit_simps bits_low intro!: bit_word_eqI)
  show "aview (n\<lparr>rb_parent_color := (rb_parent_color n AND 3) OR p\<rparr>) = An p (rb_is_black n) (rb_left n) (rb_right n)" if "aligned p"
    using aligned_bit [OF that]
    by (auto simp: aview_def rb_parent_def rb_is_black_bit bit_simps bits_low intro!: bit_word_eqI)
  show "aview (n\<lparr>rb_parent_color := (rb_parent_color n AND NOT 1) OR rb_color m\<rparr>) = An (rb_parent n) (rb_is_black m) (rb_left n) (rb_right n)"
    by (auto simp: aview_def rb_parent_def rb_is_black_bit rb_color_def bit_simps bits_low intro!: bit_word_eqI)
  show "aview (kid_update d p n) = mk d (rb_parent n) (rb_is_black n) p (kid (op d) n)"
    by (cases d) (simp_all add: aview_def mk_def rb_parent_def rb_is_black_def rb_color_def)
qed

lemma view_set:
  assumes "view h a = Some (mk d p c x y)"
  shows "\<exists>h'. rb_set_red h a = Some h' \<and> view h' = (view h)(a \<mapsto> mk d p False x y)"
    and "\<exists>h'. rb_set_black h a = Some h' \<and> view h' = (view h)(a \<mapsto> mk d p True x y)"
    and "aligned q \<Longrightarrow> \<exists>h'. rb_set_parent h a q = Some h' \<and> view h' = (view h)(a \<mapsto> mk d q c x y)"
    and "\<exists>h'. rb_set_color h a (rb_color m) = Some h' \<and> view h' = (view h)(a \<mapsto> mk d p (rb_is_black m) x y)"
    and "\<exists>h'. set_kid d h a q = Some h' \<and> view h' = (view h)(a \<mapsto> mk d p c q y)"
proof -
  obtain n where n: "h a = Some n" "aview n = mk d p c x y" using view_eq_Some [OF assms] by blast
  then have f: "mk d (rb_parent n) (rb_is_black n) (kid d n) (kid (op d) n) = mk d p c x y"
    by (cases d) (simp_all add: aview_def mk_def)
  have An: "An p' c' (rb_left n) (rb_right n) = mk d p' c' x y" for p' c' using f by (cases d) (auto simp: mk_def)
  have upd: "\<exists>h'. rb_upd g h a = Some h' \<and> view h' = (view h)(a \<mapsto> aview (g n))" for g
    using n(1) by (intro exI [of _ "h(a \<mapsto> g n)"]) (simp add: rb_upd_def view_def fun_eq_iff)
  show "\<exists>h'. rb_set_red h a = Some h' \<and> view h' = (view h)(a \<mapsto> mk d p False x y)"
    using upd [of "\<lambda>r. r\<lparr>rb_parent_color := rb_parent_color r AND NOT 1\<rparr>"] f unfolding rb_set_red_def aview_upd An by simp
  show "\<exists>h'. rb_set_black h a = Some h' \<and> view h' = (view h)(a \<mapsto> mk d p True x y)"
    using upd [of "\<lambda>r. r\<lparr>rb_parent_color := rb_parent_color r OR 1\<rparr>"] f unfolding rb_set_black_def aview_upd An by simp
  show "\<exists>h'. rb_set_parent h a q = Some h' \<and> view h' = (view h)(a \<mapsto> mk d q c x y)" if "aligned q"
    using upd [of "\<lambda>r. r\<lparr>rb_parent_color := (rb_parent_color r AND 3) OR q\<rparr>"] f unfolding rb_set_parent_def aview_upd(3) [OF that] An by simp
  show "\<exists>h'. rb_set_color h a (rb_color m) = Some h' \<and> view h' = (view h)(a \<mapsto> mk d p (rb_is_black m) x y)"
    using upd [of "\<lambda>r. r\<lparr>rb_parent_color := (rb_parent_color r AND NOT 1) OR rb_color m\<rparr>"] f unfolding rb_set_color_def aview_upd An by simp
  show "\<exists>h'. set_kid d h a q = Some h' \<and> view h' = (view h)(a \<mapsto> mk d p c q y)"
    using upd [of "kid_update d q"] f unfolding set_kid_def aview_upd by simp
qed

lemma view_get:
  assumes "view h a = Some (mk d p c x y)"
  obtains n where "h a = Some n" and "rb_parent n = p" and "rb_is_black n = c" and "rb_is_red n = (\<not> c)"
    and "kid d n = x" and "kid (op d) n = y"
proof -
  obtain n where n: "h a = Some n" "aview n = mk d p c x y" using view_eq_Some [OF assms] by blast
  then show thesis
    by (intro that [of n]) (cases d; auto simp: aview_def mk_def rb_is_black_def rb_is_red_def)+
qed

section \<open>Trees of addresses\<close>

datatype rbt = L | N rbt bool u64 rbt

definition nd :: "side \<Rightarrow> bool \<Rightarrow> u64 \<Rightarrow> rbt \<Rightarrow> rbt \<Rightarrow> rbt" where
  "nd d c a x y = (case d of Lt \<Rightarrow> N x c a y | Rt \<Rightarrow> N y c a x)"

fun rt :: "rbt \<Rightarrow> u64" where
  "rt L = 0"
| "rt (N l c a r) = a"

fun ino :: "rbt \<Rightarrow> u64 list" where
  "ino L = []"
| "ino (N l c a r) = ino l @ a # ino r"

fun lay :: "(u64 \<Rightarrow> anode option) \<Rightarrow> u64 \<Rightarrow> rbt \<Rightarrow> bool" where
  "lay v p L \<longleftrightarrow> True"
| "lay v p (N l c a r) \<longleftrightarrow> v a = Some (An p c (rt l) (rt r)) \<and> lay v a l \<and> lay v a r"

datatype ctx = Top | C side bool u64 rbt ctx

fun cpar :: "ctx \<Rightarrow> u64" where
  "cpar Top = 0"
| "cpar (C d c a s k) = a"

fun plug :: "ctx \<Rightarrow> rbt \<Rightarrow> rbt" where
  "plug Top t = t"
| "plug (C d c a s k) t = plug k (nd d c a t s)"

fun clay :: "(u64 \<Rightarrow> anode option) \<Rightarrow> ctx \<Rightarrow> u64 \<Rightarrow> bool" where
  "clay v Top q \<longleftrightarrow> True"
| "clay v (C d c a s k) q \<longleftrightarrow> v a = Some (mk d (cpar k) c q (rt s)) \<and> lay v a s \<and> clay v k a"

fun cl :: "ctx \<Rightarrow> u64 list" where
  "cl Top = []"
| "cl (C Lt c a s k) = cl k"
| "cl (C Rt c a s k) = cl k @ ino s @ [a]"

fun cr :: "ctx \<Rightarrow> u64 list" where
  "cr Top = []"
| "cr (C Lt c a s k) = a # ino s @ cr k"
| "cr (C Rt c a s k) = cr k"

lemma nd_op [simp]: "nd (op d) c a x y = nd d c a y x"
  by (cases d) (simp_all add: nd_def)

lemma rt_nd [simp]: "rt (nd d c a x y) = a"
  by (cases d) (simp_all add: nd_def)

lemma nd_neq_L [simp]: "nd d c a x y \<noteq> L" "L \<noteq> nd d c a x y"
  by (cases d; simp add: nd_def)+

lemma nd_inject [simp]: "nd d c a x y = nd d c' a' x' y' \<longleftrightarrow> c = c' \<and> a = a' \<and> x = x' \<and> y = y'"
  by (cases d) (auto simp: nd_def)

lemma nd_cases: "t \<noteq> L \<Longrightarrow> (\<And>c a x y. t = nd d c a x y \<Longrightarrow> thesis) \<Longrightarrow> thesis"
  by (cases t; cases d) (auto simp: nd_def)

lemma lay_nd [simp]: "lay v p (nd d c a x y) \<longleftrightarrow> v a = Some (mk d p c (rt x) (rt y)) \<and> lay v a x \<and> lay v a y"
  by (cases d) (auto simp: nd_def mk_def)

lemma set_ino_nd [simp]: "set (ino (nd d c a x y)) = insert a (set (ino x) \<union> set (ino y))"
  by (cases d) (auto simp: nd_def)

lemma distinct_ino_nd [simp]: "distinct (ino (nd d c a x y)) \<longleftrightarrow>
    distinct (ino x) \<and> distinct (ino y) \<and> a \<notin> set (ino x) \<and> a \<notin> set (ino y) \<and> set (ino x) \<inter> set (ino y) = {}"
  by (cases d) (auto simp: nd_def)

lemma rt_in: "t \<noteq> L \<Longrightarrow> rt t \<in> set (ino t)"
  by (cases t) auto

lemma lay_plug: "lay v 0 (plug k t) \<longleftrightarrow> lay v (cpar k) t \<and> clay v k (rt t)"
  by (induction k arbitrary: t) auto

lemma ino_plug: "ino (plug k t) = cl k @ ino t @ cr k"
proof (induction k arbitrary: t)
  case (C d c a s k)
  then show ?case by (cases d) (simp_all add: nd_def)
qed simp

definition cset :: "ctx \<Rightarrow> u64 set" where
  "cset k = set (cl k) \<union> set (cr k)"

lemma cset_simps [simp]: "cset Top = {}" "cset (C d c a s k) = insert a (set (ino s) \<union> cset k)"
  by (simp_all add: cset_def) (cases d; auto)

lemma lay_cong: "(\<And>q. q \<in> set (ino t) \<Longrightarrow> v' q = v q) \<Longrightarrow> lay v' p t = lay v p t"
  by (induction t arbitrary: p) auto

lemma clay_cong: "(\<And>q. q \<in> cset k \<Longrightarrow> v' q = v q) \<Longrightarrow> clay v' k a = clay v k a"
proof (induction k arbitrary: a)
  case (C d c b s k)
  then have "lay v' b s = lay v b s" by (intro lay_cong) simp
  with C show ?case by simp
qed simp

lemma rt_plug: "rt (plug k t) = (if k = Top then rt t else rt (plug k L))"
proof (induction k arbitrary: t)
  case (C d c a s k)
  show ?case using C [of "nd d c a t s"] C [of "nd d c a L s"] by (cases "k = Top") auto
qed simp

section \<open>A heap holds a tree\<close>

definition rb_rep :: "rb_mem \<Rightarrow> u64 \<Rightarrow> rbt \<Rightarrow> bool" where
  "rb_rep h root t \<longleftrightarrow> root = rt t \<and> lay (view h) 0 t \<and> distinct (ino t) \<and> (\<forall>a \<in> set (ino t). a \<noteq> 0 \<and> aligned a)"

text \<open>\<open>h'\<close> differs from \<open>h\<close> at most at the addresses of \<open>A\<close>.\<close>

definition frame :: "rb_mem \<Rightarrow> rb_mem \<Rightarrow> u64 set \<Rightarrow> bool" where
  "frame h h' A \<longleftrightarrow> (\<forall>q. q \<notin> A \<longrightarrow> view h' q = view h q)"

lemma frame_refl [simp]: "frame h h A"
  by (simp add: frame_def)

lemma frame_trans: "frame h h1 A \<Longrightarrow> frame h1 h2 A \<Longrightarrow> frame h h2 A"
  by (simp add: frame_def)

lemma rep_plugD:
  assumes "rb_rep h root (plug k t)"
  shows "lay (view h) (cpar k) t" and "clay (view h) k (rt t)" and "distinct (ino t)" and "set (ino t) \<inter> cset k = {}"
    and "\<And>a. a \<in> set (ino t) \<union> cset k \<Longrightarrow> a \<noteq> 0 \<and> aligned a" and "root = rt (plug k t)"
    and "distinct (cl k @ cr k)"
  using assms by (auto simp: rb_rep_def lay_plug ino_plug cset_def)

lemma rep_plugI:
  assumes "rb_rep h root (plug k t)" and "lay (view h') (cpar k) t'" and "clay (view h') k (rt t')" and "ino t' = ino t"
    and "root' = rt (plug k t')"
  shows "rb_rep h' root' (plug k t')"
  using assms by (auto simp: rb_rep_def lay_plug ino_plug)

lemma set_ino_plug: "set (ino (plug k t)) = set (ino t) \<union> cset k"
  by (auto simp: ino_plug cset_def)

text \<open>Changing the parent of a subtree's root, and the child a context points to.\<close>

lemma lay_reparent:
  assumes "lay v p t" and "distinct (ino t)" and "\<And>q. q \<in> set (ino t) \<Longrightarrow> q \<noteq> rt t \<Longrightarrow> v' q = v q"
    and "\<And>l c a r. t = N l c a r \<Longrightarrow> v' a = Some (An p' c (rt l) (rt r))"
  shows "lay v' p' t"
proof (cases t)
  case (N l c a r)
  have "lay v' a l = lay v a l" "lay v' a r = lay v a r" using N assms(2,3) by (auto intro!: lay_cong)
  with N assms(1,4) show ?thesis by simp
qed simp

lemma clay_relink:
  assumes "clay v k q" and "distinct (cl k @ cr k)" and "\<And>x. x \<in> cset k \<Longrightarrow> x \<noteq> cpar k \<Longrightarrow> v' x = v x"
    and "\<And>d c a s k'. k = C d c a s k' \<Longrightarrow> v' a = Some (mk d (cpar k') c q' (rt s))"
  shows "clay v' k q'"
proof (cases k)
  case (C d c a s k')
  have "a \<notin> set (ino s) \<union> cset k'" using C assms(2) by (cases d) (auto simp: cset_def)
  then have "lay v' a s = lay v a s" "clay v' k' a = clay v k' a" using C assms(3) by (auto intro!: lay_cong clay_cong)
  with C assms(1,4) show ?thesis by simp
qed simp

text \<open>\<open>relink\<close> makes the context point to a new child, and the root pointer when the context is empty.\<close>

lemma relink_spec:
  assumes "clay (view h) k node" and "node \<noteq> 0" and "distinct (cl k @ cr k)" and "node \<notin> cset k" and "0 \<notin> cset k"
  shows "\<exists>h'. relink d h root (cpar k) node new = Some (h', if k = Top then new else root)
    \<and> (\<forall>x. x \<noteq> cpar k \<longrightarrow> view h' x = view h x) \<and> (k = Top \<longrightarrow> h' = h)
    \<and> (\<forall>e c a s k'. k = C e c a s k' \<longrightarrow> view h' a = Some (mk e (cpar k') c new (rt s)))"
proof (cases k)
  case Top
  then show ?thesis by (simp add: relink_def)
next
  case (C e c a s k')
  have v: "view h a = Some (mk e (cpar k') c node (rt s))" using assms(1) C by simp
  obtain n where n: "h a = Some n" "kid e n = node" "kid (op e) n = rt s" using view_get [OF v] by metis
  have ns: "rt s \<noteq> node" using assms(2,4) C by (cases s) auto
  have a0: "a \<noteq> 0" using assms(5) C by auto
  obtain h' where h': "set_kid e h a new = Some h'" "view h' = (view h)(a \<mapsto> mk e (cpar k') c new (rt s))"
    using view_set(5) [OF v] by blast
  have "relink d h root (cpar k) node new = Some (h', root)"
  proof (cases "e = d")
    case True
    then show ?thesis using C a0 n h'(1) by (simp add: relink_def)
  next
    case False
    then have "e = op d" by (cases e; cases d) auto
    then show ?thesis using C a0 n h'(1) ns by (simp add: relink_def)
  qed
  then show ?thesis using C h'(2) by auto
qed

lemma setpar_spec:
  assumes "lay (view h) p t" and "aligned q"
  shows "\<exists>h'. (if rt t \<noteq> 0 then rb_set_parent h (rt t) q else Some h) = Some h'
    \<and> (\<forall>x. x \<noteq> rt t \<longrightarrow> view h' x = view h x) \<and> (rt t = 0 \<longrightarrow> h' = h)
    \<and> (rt t \<noteq> 0 \<longrightarrow> (\<forall>l c a r. t = N l c a r \<longrightarrow> view h' a = Some (An q c (rt l) (rt r))))"
proof (cases t)
  case (N l c a r)
  have "view h a = Some (mk Lt p c (rt l) (rt r))" using assms(1) N by (simp add: mk_def)
  from view_set(3) [OF this assms(2)] show ?thesis using N by (auto simp: mk_def)
qed simp

section \<open>Rotation and recolouring\<close>

lemma ino_rotate: "ino (nd d c a x (nd d c' b y z)) = ino (nd d c' b (nd d c a x y) z)"
  by (cases d) (simp_all add: nd_def)

lemma rotate_spec:
  assumes "rb_rep h root (plug k (nd d c a x (nd d c' b y z)))"
  shows "\<exists>h' root'. rotate d h root a = Some (h', root') \<and> rb_rep h' root' (plug k (nd d c' b (nd d c a x y) z))
    \<and> frame h h' (set (ino (plug k (nd d c a x (nd d c' b y z)))))"
proof -
  let ?T = "nd d c a x (nd d c' b y z)" and ?T' = "nd d c' b (nd d c a x y) z"
  note D = rep_plugD [OF assms]
  have va: "view h a = Some (mk d (cpar k) c (rt x) b)" and vb: "view h b = Some (mk d a c' (rt y) (rt z))"
    and lx: "lay (view h) a x" and ly: "lay (view h) b y" and lz: "lay (view h) b z"
    using D(1) by simp_all
  have nz: "a \<noteq> 0" "b \<noteq> 0" "aligned a" "aligned b" "0 \<notin> cset k" "aligned (cpar k)" "cpar k \<noteq> 0 \<or> k = Top"
  proof -
    show "a \<noteq> 0" "b \<noteq> 0" "aligned a" "aligned b" "0 \<notin> cset k" using D(5) [of a] D(5) [of b] D(5) [of 0] by auto
    show "aligned (cpar k)" "cpar k \<noteq> 0 \<or> k = Top" using D(5) [of "cpar k"] by (cases k; simp)+
  qed
  have ds: "a \<noteq> b" "a \<notin> set (ino x)" "a \<notin> set (ino y)" "a \<notin> set (ino z)" "b \<notin> set (ino x)" "b \<notin> set (ino y)" "b \<notin> set (ino z)"
      "set (ino x) \<inter> set (ino y) = {}" "set (ino y) \<inter> set (ino z) = {}" "distinct (ino y)"
    using D(3) by auto
  have ck: "cpar k \<notin> set (ino ?T)" "a \<notin> cset k" "b \<notin> cset k" "set (ino y) \<inter> cset k = {}"
  proof -
    show "cpar k \<notin> set (ino ?T)" using D(4) nz(7) D(5) [of 0] by (cases k) auto
    show "a \<notin> cset k" "b \<notin> cset k" "set (ino y) \<inter> cset k = {}" using D(4) by auto
  qed
  have ry: "rt y \<notin> {a, b}" "rt y \<noteq> 0 \<Longrightarrow> rt y \<in> set (ino y)" using nz(1,2) ds by (cases y; auto)+
  obtain n where n: "h a = Some n" "rb_parent n = cpar k" "kid (op d) n = b" using view_get [OF va] by metis
  obtain m where m: "h b = Some m" "kid d m = rt y" using view_get [OF vb] by metis
  have "view h a = Some (mk (op d) (cpar k) c b (rt x))" using va by simp
  from view_set(5) [OF this, of "rt y"] obtain h1 where
    h1: "set_kid (op d) h a (rt y) = Some h1" "view h1 = (view h)(a \<mapsto> mk d (cpar k) c (rt x) (rt y))" by auto
  have "lay (view h1) b y" using ly ds(3) by (subst lay_cong [of y _ "view h"]) (auto simp: h1(2))
  from setpar_spec [OF this nz(3)] obtain h2 where
    h2: "(if rt y \<noteq> 0 then rb_set_parent h1 (rt y) a else Some h1) = Some h2" "\<And>q. q \<noteq> rt y \<Longrightarrow> view h2 q = view h1 q"
      "rt y = 0 \<Longrightarrow> h2 = h1" "\<And>l e q r. rt y \<noteq> 0 \<Longrightarrow> y = N l e q r \<Longrightarrow> view h2 q = Some (An a e (rt l) (rt r))" by blast
  have "view h2 b = Some (mk d a c' (rt y) (rt z))" using h2(2) [of b] h1(2) vb ry(1) ds(1) by auto
  from view_set(5) [OF this, of a] obtain h3 where h3: "set_kid d h2 b a = Some h3" "view h3 = (view h2)(b \<mapsto> mk d a c' a (rt z))" by auto
  have "view h3 b = Some (mk d a c' a (rt z))" using h3(2) by simp
  from view_set(3) [OF this nz(6)] obtain h4 where
    h4: "rb_set_parent h3 b (cpar k) = Some h4" "view h4 = (view h3)(b \<mapsto> mk d (cpar k) c' a (rt z))" by auto
  have v4: "view h4 q = view h q" if "q \<notin> {a, b}" "q \<noteq> rt y \<or> rt y = 0" for q
    using that h2(2) [of q] h2(3) by (auto simp: h4(2) h3(2) h1(2))
  have "clay (view h4) k a"
    using D(2) clay_cong [of k "view h4" "view h" a] v4 ck(2-4) ry by (simp, metis disjoint_iff)
  from relink_spec [OF this nz(1) D(7) ck(2) nz(5), of d root b] obtain h5 where
    h5: "relink d h4 root (cpar k) a b = Some (h5, if k = Top then b else root)" "\<And>q. q \<noteq> cpar k \<Longrightarrow> view h5 q = view h4 q"
      "k = Top \<Longrightarrow> h5 = h4" "\<And>e c q s k'. k = C e c q s k' \<Longrightarrow> view h5 q = Some (mk e (cpar k') c b (rt s))" by blast
  have "a \<noteq> cpar k" "b \<noteq> cpar k" using ck(1) by auto
  then have "view h5 a = Some (mk d (cpar k) c (rt x) (rt y))"
    using h5(2) [of a] h2(2) [of a] ds(1) ry(1) by (auto simp: h4(2) h3(2) h1(2))
  from view_set(3) [OF this nz(4)] obtain h6 where
    h6: "rb_set_parent h5 a b = Some h6" "view h6 = (view h5)(a \<mapsto> mk d b c (rt x) (rt y))" by auto
  let ?r = "if k = Top then b else root"
  have run: "rotate d h root a = Some (h6, ?r)"
    using n m h1(1) h2(1) h3(1) h4(1) h5(1) h6(1) by (cases "rt y = 0") (simp_all add: rotate_def Let_def split del: if_split)
  have v6: "view h6 q = view h q" if "q \<notin> {a, b}" "q \<noteq> rt y \<or> rt y = 0" "q \<noteq> cpar k \<or> k = Top" for q
    using that h5(2) [of q] h5(3) v4 [of q] by (auto simp: h6(2))
  have cy: "cpar k \<notin> set (ino y)" using ck(1) by auto
  have vb6: "view h6 b = Some (mk d (cpar k) c' a (rt z))" using h5(2) [of b] \<open>b \<noteq> cpar k\<close> ds(1) by (simp add: h6(2) h4(2))
  have out: "view h6 q = view h q" if "q \<notin> {a, b}" "q \<noteq> cpar k \<or> k = Top" "q \<notin> set (ino y)" for q using v6 that ry(2) by blast
  have sub: "q \<notin> {a, b}" "q \<noteq> cpar k \<or> k = Top" "q \<notin> set (ino y)" if "q \<in> set (ino x) \<union> set (ino z)" for q
    using that ds ck(1) by auto
  have "lay (view h6) a x" using lx by (subst lay_cong [of x _ "view h"]) (auto intro!: out sub)
  moreover have "lay (view h6) b z" using lz by (subst lay_cong [of z _ "view h"]) (auto intro!: out sub)
  moreover have "lay (view h6) a y"
  proof (rule lay_reparent [OF ly ds(10)])
    fix q assume "q \<in> set (ino y)" "q \<noteq> rt y"
    then show "view h6 q = view h q" using v6 [of q] ds(3,6) cy by auto
  next
    fix l e q r assume y: "y = N l e q r"
    then have "q \<noteq> cpar k" "q \<noteq> a" "q \<noteq> b" "q \<noteq> 0" using cy ds(3,6) D(5) [of q] by auto
    then show "view h6 q = Some (An a e (rt l) (rt r))" using h5(2) [of q] h2(4) [OF _ y] y by (simp add: h6(2) h4(2) h3(2))
  qed
  ultimately have "lay (view h6) (cpar k) ?T'" using vb6 h6(2) by simp
  moreover have "clay (view h6) k b"
  proof (rule clay_relink [OF D(2) D(7)])
    fix q assume "q \<in> cset k" "q \<noteq> cpar k"
    then show "view h6 q = view h q" using out [of q] ck(2-4) by auto
  next
    fix e c q s k' assume "k = C e c q s k'"
    then show "view h6 q = Some (mk e (cpar k') c b (rt s))" using h5(4) ck(2) by (auto simp: h6(2))
  qed
  ultimately have "rb_rep h6 ?r (plug k ?T')"
    using D(6) by (intro rep_plugI [OF assms]) (auto simp: ino_rotate rt_plug [of k "nd _ _ _ _ _"])
  moreover have "frame h h6 (set (ino (plug k ?T)))"
    unfolding frame_def
  proof (intro allI impI)
    fix q assume q: "q \<notin> set (ino (plug k ?T))"
    moreover have "q \<noteq> cpar k \<or> k = Top" using q by (cases k) (auto simp: set_ino_plug)
    ultimately show "view h6 q = view h q" using out [of q] by (auto simp: set_ino_plug)
  qed
  ultimately show ?thesis using run by blast
qed

lemma recolor_rep:
  assumes "rb_rep h root (plug k (nd d c a x y))" and "view h' = (view h)(a \<mapsto> mk d (cpar k) c' (rt x) (rt y))"
  shows "rb_rep h' root (plug k (nd d c' a x y))" and "frame h h' (set (ino (plug k (nd d c a x y))))"
proof -
  note D = rep_plugD [OF assms(1)]
  have "lay (view h') a x = lay (view h) a x" "lay (view h') a y = lay (view h) a y" "clay (view h') k a = clay (view h) k a"
    using D(3,4) by (auto intro!: lay_cong clay_cong simp: assms(2))
  moreover have "ino (nd d c' a x y) = ino (nd d c a x y)" by (cases d) (simp_all add: nd_def)
  ultimately show "rb_rep h' root (plug k (nd d c' a x y))"
    using D(1,2,6) by (intro rep_plugI [OF assms(1)]) (auto simp: assms(2) rt_plug [of k "nd _ _ _ _ _"])
  show "frame h h' (set (ino (plug k (nd d c a x y))))" by (auto simp: frame_def set_ino_plug assms(2))
qed

lemma set_black_spec:
  assumes "rb_rep h root (plug k (nd d c a x y))"
  shows "\<exists>h'. rb_set_black h a = Some h' \<and> rb_rep h' root (plug k (nd d True a x y)) \<and> frame h h' (set (ino (plug k (nd d c a x y))))"
  using view_set(2) [of h a d] rep_plugD(1) [OF assms] recolor_rep [OF assms] by fastforce

lemma set_red_spec:
  assumes "rb_rep h root (plug k (nd d c a x y))"
  shows "\<exists>h'. rb_set_red h a = Some h' \<and> rb_rep h' root (plug k (nd d False a x y)) \<and> frame h h' (set (ino (plug k (nd d c a x y))))"
  using view_set(1) [of h a d] rep_plugD(1) [OF assms] recolor_rep [OF assms] by fastforce

lemma set_color_spec:
  assumes "rb_rep h root (plug k (nd d c a x y))"
  shows "\<exists>h'. rb_set_color h a (rb_color m) = Some h' \<and> rb_rep h' root (plug k (nd d (rb_is_black m) a x y))
    \<and> frame h h' (set (ino (plug k (nd d c a x y))))"
proof -
  obtain h' where "rb_set_color h a (rb_color m) = Some h'" "view h' = (view h)(a \<mapsto> mk d (cpar k) (rb_is_black m) (rt x) (rt y))"
    using view_set(4) [of h a d] rep_plugD(1) [OF assms] by fastforce
  then show ?thesis using recolor_rep [OF assms] by blast
qed

text \<open>What a node of the tree holds.\<close>

lemma rep_node:
  assumes "rb_rep h root (plug k (nd d c a x y))"
  obtains n where "h a = Some n" and "rb_parent n = cpar k" and "rb_is_black n = c" and "rb_is_red n = (\<not> c)"
    and "kid d n = rt x" and "kid (op d) n = rt y" and "a \<noteq> 0"
proof -
  have "view h a = Some (mk d (cpar k) c (rt x) (rt y))" "a \<noteq> 0" using rep_plugD(1) [OF assms] rep_plugD(5) [OF assms, of a] by auto
  with view_get [OF this(1)] that show thesis by metis
qed

fun is_red :: "rbt \<Rightarrow> bool" where
  "is_red L \<longleftrightarrow> False"
| "is_red (N l c a r) \<longleftrightarrow> \<not> c"

lemma is_red_nd [simp]: "is_red (nd d c a x y) \<longleftrightarrow> \<not> c"
  by (cases d) (simp_all add: nd_def)

lemma rt_eq_0: "rb_rep h root (plug k t) \<Longrightarrow> rt t = 0 \<longleftrightarrow> t = L"
  using rep_plugD(5) [of h root k t 0] by (cases t) auto

lemma colour_of:
  assumes "rb_rep h root (plug k t)"
  shows "live_red h (rt t) = Some (is_red t)" and "null_or_black h (rt t) = Some (\<not> is_red t)"
proof -
  have "live_red h (rt t) = Some (is_red t) \<and> null_or_black h (rt t) = Some (\<not> is_red t)"
  proof (cases "t = L")
    case True
    then show ?thesis by (simp add: live_red_def null_or_black_def)
  next
    case False
    then obtain c a x y where t: "t = nd Lt c a x y" by (rule nd_cases)
    obtain n where "h a = Some n" "rb_is_black n = c" "rb_is_red n = (\<not> c)" "a \<noteq> 0" using rep_node [of h root k Lt c a x y] assms t by metis
    then show ?thesis by (simp add: t live_red_def null_or_black_def)
  qed
  then show "live_red h (rt t) = Some (is_red t)" "null_or_black h (rt t) = Some (\<not> is_red t)" by blast+
qed

text \<open>The other children of a node in a context are not the one in the hole.\<close>

lemma rep_sibling:
  assumes "rb_rep h root (plug (C d c a s k) t)" and "t \<noteq> L \<or> s \<noteq> L"
  shows "rt s \<noteq> rt t"
proof -
  note D = rep_plugD [of h root k "nd d c a t s"]
  have "set (ino t) \<inter> set (ino s) = {}" "0 \<notin> set (ino t) \<union> set (ino s)" using D(3) D(5) [of 0] assms(1) by auto
  then show ?thesis using assms(2) rt_in [of t] rt_in [of s] by (cases t; cases s) auto
qed

end
