(* ===== verification/RbInsert.thy ===== *)
theory RbInsert
  imports RbHeap
begin

text \<open>
  Insertion into a red-black tree: the loop of \<open>rb_insert_color\<close> refines a function on trees with a hole, which keeps the order of the
  nodes and restores the red-black invariants.
\<close>

section \<open>The loop on trees\<close>

fun kidt :: "side \<Rightarrow> rbt \<Rightarrow> rbt" where
  "kidt d L = L"
| "kidt Lt (N l c a r) = l"
| "kidt Rt (N l c a r) = r"

fun paint :: "bool \<Rightarrow> rbt \<Rightarrow> rbt" where
  "paint c L = L"
| "paint c (N l c' a r) = N l c a r"

lemma kidt_nd [simp]: "kidt d (nd d c a x y) = x" "kidt (op d) (nd d c a x y) = y"
  by (cases d; simp add: nd_def)+

lemma paint_nd [simp]: "paint c (nd d c' a x y) = nd d c a x y"
  by (cases d) (simp_all add: nd_def)

lemma rt_paint [simp]: "rt (paint c t) = rt t"
  by (cases t) simp_all

lemma ino_paint [simp]: "ino (paint c t) = ino t"
  by (cases t) simp_all

fun ins_loop :: "ctx \<Rightarrow> rbt \<Rightarrow> rbt" where
  "ins_loop (C d False p s (C e c g u k)) t =
     (if is_red u then ins_loop k (nd e False g (nd d True p t s) (paint True u))
      else if d = e then plug k (nd e True p t (nd e False g s u))
      else plug k (nd e True (rt t) (nd e False p s (kidt e t)) (nd e False g (kidt (op e) t) u)))"
| "ins_loop k t = plug k t"

text \<open>The root of the tree around the hole is black.\<close>

fun black_top :: "ctx \<Rightarrow> bool" where
  "black_top Top \<longleftrightarrow> True"
| "black_top (C d c a s Top) \<longleftrightarrow> c"
| "black_top (C d c a s k) \<longleftrightarrow> black_top k"

lemma black_top_up: "black_top (C d c a s k) \<Longrightarrow> black_top k"
  by (cases k) auto

text \<open>The loop ends at a node whose parent is black or that has none.\<close>

lemma insert_loop_stop:
  assumes "rb_rep h root (plug k t)" and "t \<noteq> L" and "k = Top \<or> (\<exists>d a s k'. k = C d True a s k')"
  shows "insert_loop h root (rt t) = Some (h, root)"
proof -
  obtain c a x y where t: "t = nd Lt c a x y" using assms(2) by (rule nd_cases)
  obtain n where n: "h a = Some n" "rb_parent n = cpar k" using rep_node [of h root k Lt c a x y] assms(1) t by metis
  have "live_red h (cpar k) = Some False"
  proof (cases "k = Top")
    case True
    then show ?thesis by (simp add: live_red_def)
  next
    case False
    then obtain d b s k' where "k = C d True b s k'" using assms(3) by auto
    then show ?thesis using colour_of(1) [of h root k' "nd d True b t s"] assms(1) by simp
  qed
  with n t show ?thesis by (subst insert_loop.simps) simp
qed

text \<open>One turn of the loop.\<close>

lemma insert_half_red:
  assumes "rb_rep h root (plug k (nd e c g (nd d False p t s) u))" and "is_red u"
  shows "\<exists>h'. insert_half e h root node p g = Some (h', root, g)
    \<and> rb_rep h' root (plug k (nd e False g (nd d True p t s) (paint True u)))
    \<and> frame h h' (set (ino (plug k (nd e c g (nd d False p t s) u))))"
proof -
  let ?A = "set (ino (plug k (nd e c g (nd d False p t s) u)))"
  obtain b x y where u: "u = nd Lt False b x y" using nd_cases [of u Lt thesis] assms(2) by (cases u) (auto simp: nd_def)
  have r0: "rb_rep h root (plug (C (op e) c g (nd d False p t s) k) u)" using assms(1) by simp
  obtain n where n: "h g = Some n" "kid (op e) n = b" using rep_node [OF assms(1)] u by (metis rt_nd)
  obtain h1 where h1: "rb_set_black h b = Some h1" "rb_rep h1 root (plug (C (op e) c g (nd d False p t s) k) (nd Lt True b x y))" "frame h h1 ?A"
    using set_black_spec [of h root "C (op e) c g (nd d False p t s) k" Lt False b x y] r0 u by (auto simp: set_ino_plug insert_commute Un_ac)
  have "rb_rep h1 root (plug (C e c g (nd Lt True b x y) k) (nd d False p t s))" using h1(2) by simp
  from set_black_spec [OF this] obtain h2 where h2: "rb_set_black h1 p = Some h2"
      "rb_rep h2 root (plug (C e c g (nd Lt True b x y) k) (nd d True p t s))" "frame h1 h2 ?A" using u by (auto simp: set_ino_plug)
  have "rb_rep h2 root (plug k (nd e c g (nd d True p t s) (nd Lt True b x y)))" using h2(2) by simp
  from set_red_spec [OF this] obtain h3 where h3: "rb_set_red h2 g = Some h3"
      "rb_rep h3 root (plug k (nd e False g (nd d True p t s) (nd Lt True b x y)))" "frame h2 h3 ?A" using u by (auto simp: set_ino_plug)
  have "live_red h b = Some True" using colour_of(1) [OF r0] assms(2) u by simp
  then have "insert_half e h root node p g = Some (h3, root, g)" using n h1(1) h2(1) h3(1) by (simp add: insert_half_def Let_def)
  then show ?thesis using h3(2) frame_trans [OF frame_trans [OF h1(3) h2(3)] h3(3)] u by auto
qed

text \<open>Recolouring and the final rotation at the grandparent.\<close>

lemma insert_half_finish:
  assumes "rb_rep h root (plug k (nd e c g (nd e c' p x y) u))"
  shows "\<exists>h1 h2 h3 root'. rb_set_black h p = Some h1 \<and> rb_set_red h1 g = Some h2 \<and> rotate (op e) h2 root g = Some (h3, root')
    \<and> rb_rep h3 root' (plug k (nd e True p x (nd e False g y u)))
    \<and> frame h h3 (set (ino (plug k (nd e c g (nd e c' p x y) u))))"
proof -
  let ?A = "set (ino (plug k (nd e c g (nd e c' p x y) u)))"
  have "rb_rep h root (plug (C e c g u k) (nd e c' p x y))" using assms by simp
  from set_black_spec [OF this] obtain h1 where h1: "rb_set_black h p = Some h1"
      "rb_rep h1 root (plug (C e c g u k) (nd e True p x y))" "frame h h1 ?A" by (auto simp: set_ino_plug)
  have "rb_rep h1 root (plug k (nd e c g (nd e True p x y) u))" using h1(2) by simp
  from set_red_spec [OF this] obtain h2 where h2: "rb_set_red h1 g = Some h2"
      "rb_rep h2 root (plug k (nd e False g (nd e True p x y) u))" "frame h1 h2 ?A" by (auto simp: set_ino_plug)
  have "rb_rep h2 root (plug k (nd (op e) False g u (nd (op e) True p y x)))" using h2(2) by simp
  from rotate_spec [OF this] obtain h3 root' where h3: "rotate (op e) h2 root g = Some (h3, root')"
      "rb_rep h3 root' (plug k (nd (op e) True p (nd (op e) False g u y) x))" "frame h2 h3 ?A" by (auto simp: set_ino_plug insert_commute Un_ac)
  then show ?thesis using h1(1) h2(1) frame_trans [OF frame_trans [OF h1(3) h2(3)] h3(3)] by auto
qed

lemma insert_half_outer:
  assumes rep: "rb_rep h root (plug k (nd e c g (nd e False p t s) u))" and "\<not> is_red u" and "t \<noteq> L"
  shows "\<exists>h' root'. insert_half e h root (rt t) p g = Some (h', root', rt t)
    \<and> rb_rep h' root' (plug k (nd e True p t (nd e False g s u)))
    \<and> frame h h' (set (ino (plug k (nd e c g (nd e False p t s) u))))"
proof -
  obtain n where n: "h g = Some n" "kid (op e) n = rt u" using rep_node [OF rep] by metis
  have rp: "rb_rep h root (plug (C e c g u k) (nd e False p t s))" using rep by simp
  obtain m where m: "h p = Some m" "kid (op e) m = rt s" using rep_node [OF rp] by metis
  have "rt s \<noteq> rt t" using rep_sibling [of h root e False p s "C e c g u k" t] rep assms(3) by simp
  moreover have "live_red h (rt u) = Some False" using colour_of(1) [of h root "C (op e) c g (nd e False p t s) k" u] rep assms(2) by simp
  ultimately show ?thesis using n m insert_half_finish [OF rep] by (fastforce simp: insert_half_def)
qed

lemma insert_half_inner:
  assumes rep: "rb_rep h root (plug k (nd e c g (nd e False p s t) u))" and "\<not> is_red u" and "t \<noteq> L"
  shows "\<exists>h' root'. insert_half e h root (rt t) p g = Some (h', root', p)
    \<and> rb_rep h' root' (plug k (nd e True (rt t) (nd e False p s (kidt e t)) (nd e False g (kidt (op e) t) u)))
    \<and> frame h h' (set (ino (plug k (nd e c g (nd e False p s t) u))))"
proof -
  let ?A = "set (ino (plug k (nd e c g (nd e False p s t) u)))"
  obtain ct x t1 t2 where t: "t = nd e ct x t1 t2" using assms(3) by (rule nd_cases)
  obtain n where n: "h g = Some n" "kid (op e) n = rt u" using rep_node [OF rep] by metis
  have rp: "rb_rep h root (plug (C e c g u k) (nd e False p s (nd e ct x t1 t2)))" using rep t by simp
  obtain m where m: "h p = Some m" "kid (op e) m = x" using rep_node [OF rp] by (metis rt_nd)
  have red: "live_red h (rt u) = Some False" using colour_of(1) [of h root "C (op e) c g (nd e False p s t) k" u] rep assms(2) by simp
  obtain h1 r1 where h1: "rotate e h root p = Some (h1, r1)"
      "rb_rep h1 r1 (plug (C e c g u k) (nd e ct x (nd e False p s t1) t2))" "frame h h1 ?A"
    using rotate_spec [OF rp] t by (auto simp: set_ino_plug)
  then have "rb_rep h1 r1 (plug k (nd e c g (nd e ct x (nd e False p s t1) t2) u))" by simp
  from insert_half_finish [OF this] obtain h2 h3 h4 r4 where h4: "rb_set_black h1 x = Some h2" "rb_set_red h2 g = Some h3"
      "rotate (op e) h3 r1 g = Some (h4, r4)" "rb_rep h4 r4 (plug k (nd e True x (nd e False p s t1) (nd e False g t2 u)))" "frame h1 h4 ?A"
    using t by (auto simp: set_ino_plug insert_commute Un_ac)
  have "insert_half e h root (rt t) p g = Some (h4, r4, p)" using n m red h1(1) h4(1-3) t by (simp add: insert_half_def Let_def)
  then show ?thesis using h4(4) frame_trans [OF h1(3) h4(5)] t by auto
qed

lemma insert_loop_half:
  assumes rep: "rb_rep h root (plug k (nd e c g (nd d False p t s) u))" and "t \<noteq> L"
  shows "insert_loop h root (rt t) = insert_half e h root (rt t) p g \<bind> (\<lambda>(h, root, node). insert_loop h root node)"
proof -
  obtain ct a x y where t: "t = nd Lt ct a x y" using assms(2) by (rule nd_cases)
  have r1: "rb_rep h root (plug (C d False p s (C e c g u k)) (nd Lt ct a x y))" using rep t by simp
  obtain n where n: "h a = Some n" "rb_parent n = p" using rep_node [OF r1] by (metis cpar.simps(2))
  have r2: "rb_rep h root (plug (C e c g u k) (nd d False p t s))" using rep by simp
  obtain m where m: "h p = Some m" "rb_parent m = g" using rep_node [OF r2] by (metis cpar.simps(2))
  obtain q where q: "h g = Some q" "kid e q = p" "kid (op e) q = rt u" using rep_node [OF rep] by (metis rt_nd)
  have "rt u \<noteq> p" using rep_sibling [OF r2] by simp
  then have "p = rb_left q \<longleftrightarrow> e = Lt" using q by (cases e) auto
  moreover have "live_red h p = Some True" using colour_of(1) [OF r2] by simp
  ultimately show ?thesis using n m q(1) t by (subst insert_loop.simps) (cases e; simp)
qed

lemma is_red_neq_L: "is_red t \<Longrightarrow> t \<noteq> L"
  by auto

lemma insert_stop_spec:
  assumes "rb_rep h root (plug k t)" and "is_red t" and "k = Top \<or> (\<exists>d a s k'. k = C d True a s k')" and "ins_loop k t = plug k t"
  shows "\<exists>h' root'. insert_loop h root (rt t) = Some (h', root') \<and> rb_rep h' root' (ins_loop k t) \<and> frame h h' (set (ino (plug k t)))"
  using insert_loop_stop [OF assms(1) is_red_neq_L [OF assms(2)] assms(3)] assms(1,4) by simp

lemma insert_loop_spec:
  assumes "rb_rep h root (plug k t)" and "is_red t" and "black_top k"
  shows "\<exists>h' root'. insert_loop h root (rt t) = Some (h', root') \<and> rb_rep h' root' (ins_loop k t) \<and> frame h h' (set (ino (plug k t)))"
  using assms
proof (induction k t arbitrary: h root rule: ins_loop.induct)
  case (1 d p s e c g u k t)
  have t: "t \<noteq> L" using "1.prems"(2) by auto
  have rep: "rb_rep h root (plug k (nd e c g (nd d False p t s) u))" using "1.prems"(1) by simp
  note half = insert_loop_half [OF rep t]
  let ?A = "set (ino (plug k (nd e c g (nd d False p t s) u)))"
  show ?case
  proof (cases "is_red u")
    case True
    let ?g = "nd e False g (nd d True p t s) (paint True u)"
    obtain h1 where h1: "insert_half e h root (rt t) p g = Some (h1, root, g)" "rb_rep h1 root (plug k ?g)" "frame h h1 ?A"
      using insert_half_red [OF rep True] by blast
    have "black_top k" using "1.prems"(3) black_top_up by blast
    from "1.IH" [OF True h1(2) _ this] obtain h' root' where IH: "insert_loop h1 root g = Some (h', root')"
        "rb_rep h' root' (ins_loop k ?g)" "frame h1 h' (set (ino (plug k ?g)))" by auto
    have "frame h1 h' ?A" using IH(3) by (simp add: set_ino_plug)
    then show ?thesis using IH(1,2) h1(1) half True frame_trans [OF h1(3)] by auto
  next
    case False
    show ?thesis
    proof (cases "d = e")
      case True
      with insert_half_outer [of h root k e c g p t s u] rep False t obtain h1 r1 where
        h1: "insert_half e h root (rt t) p g = Some (h1, r1, rt t)" "rb_rep h1 r1 (plug k (nd e True p t (nd e False g s u)))" "frame h h1 ?A"
        by blast
      have "insert_loop h1 r1 (rt t) = Some (h1, r1)" using insert_loop_stop [of h1 r1 "C e True p (nd e False g s u) k" t] h1(2) t by simp
      with h1 half False True show ?thesis by auto
    next
      case ne: False
      then have d: "d = op e" by (cases d; cases e) auto
      let ?P = "nd e False p s (kidt e t)" and ?G = "nd e False g (kidt (op e) t) u"
      obtain h1 r1 where
        h1: "insert_half e h root (rt t) p g = Some (h1, r1, p)" "rb_rep h1 r1 (plug k (nd e True (rt t) ?P ?G))" "frame h h1 ?A"
        using insert_half_inner [of h root k e c g p s t u] rep False t d by auto
      have "insert_loop h1 r1 (rt ?P) = Some (h1, r1)" using insert_loop_stop [of h1 r1 "C e True (rt t) ?G k" ?P] h1(2) by simp
      with h1 half False ne show ?thesis by auto
    qed
  qed
next
  case "2_1"
  then show ?case by (intro insert_stop_spec) auto
next
  case "2_2"
  then show ?case by (intro insert_stop_spec) auto
next
  case "2_3"
  then show ?case by (intro insert_stop_spec) auto
qed

section \<open>The red-black invariants\<close>

fun bh :: "rbt \<Rightarrow> nat" where
  "bh L = 0"
| "bh (N l c a r) = bh l + (if c then 1 else 0)"

fun invh :: "rbt \<Rightarrow> bool" where
  "invh L \<longleftrightarrow> True"
| "invh (N l c a r) \<longleftrightarrow> bh l = bh r \<and> invh l \<and> invh r"

fun invc :: "rbt \<Rightarrow> bool" where
  "invc L \<longleftrightarrow> True"
| "invc (N l c a r) \<longleftrightarrow> invc l \<and> invc r \<and> (\<not> c \<longrightarrow> \<not> is_red l \<and> \<not> is_red r)"

definition rbt_inv :: "rbt \<Rightarrow> bool" where
  "rbt_inv t \<longleftrightarrow> invc t \<and> invh t \<and> \<not> is_red t"

fun cblack :: "ctx \<Rightarrow> bool" where
  "cblack Top \<longleftrightarrow> True"
| "cblack (C d c a s k) \<longleftrightarrow> c"

fun cinvh :: "ctx \<Rightarrow> nat \<Rightarrow> bool" where
  "cinvh Top n \<longleftrightarrow> True"
| "cinvh (C d c a s k) n \<longleftrightarrow> n = bh s \<and> invh s \<and> cinvh k (n + (if c then 1 else 0))"

fun cinvc :: "ctx \<Rightarrow> bool" where
  "cinvc Top \<longleftrightarrow> True"
| "cinvc (C d c a s k) \<longleftrightarrow> invc s \<and> (\<not> c \<longrightarrow> \<not> is_red s \<and> cblack k) \<and> cinvc k"

lemma bh_nd: "bh x = bh y \<Longrightarrow> bh (nd d c a x y) = bh x + (if c then 1 else 0)"
  by (cases d) (simp_all add: nd_def)

lemma invh_nd [simp]: "invh (nd d c a x y) \<longleftrightarrow> bh x = bh y \<and> invh x \<and> invh y"
  by (cases d) (auto simp: nd_def)

lemma invc_nd [simp]: "invc (nd d c a x y) \<longleftrightarrow> invc x \<and> invc y \<and> (\<not> c \<longrightarrow> \<not> is_red x \<and> \<not> is_red y)"
  by (cases d) (auto simp: nd_def)

lemma invh_plug: "invh (plug k t) \<longleftrightarrow> invh t \<and> cinvh k (bh t)"
proof (induction k arbitrary: t)
  case (C d c a s k)
  show ?case using C [of "nd d c a t s"] bh_nd [of t s d c a] by auto
qed simp

lemma invc_plug: "invc (plug k t) \<longleftrightarrow> invc t \<and> cinvc k \<and> (is_red t \<longrightarrow> cblack k)"
proof (induction k arbitrary: t)
  case (C d c a s k)
  show ?case using C [of "nd d c a t s"] by auto
qed simp

lemma is_red_plug: "is_red (plug k t) \<longleftrightarrow> (if k = Top then is_red t else \<not> black_top k)"
proof (induction k arbitrary: t)
  case (C d c a s k)
  show ?case using C [of "nd d c a t s"] by (cases k) simp_all
qed simp

lemma paint_inv: "invc t \<Longrightarrow> invc (paint True t)" "invh (paint c t) = invh t" "is_red t \<Longrightarrow> bh (paint True t) = Suc (bh t)"
  "\<not> is_red (paint True t)"
  by (cases t; simp)+

lemma ino_ins_loop: "is_red t \<Longrightarrow> ino (ins_loop k t) = cl k @ ino t @ cr k"
proof (induction k t rule: ins_loop.induct)
  case (1 d p s e c g u k t)
  obtain ct a x y where t: "t = nd e ct a x y" using is_red_neq_L [OF "1.prems"] by (rule nd_cases)
  show ?case using 1 t by (cases d; cases e) (auto simp: ino_plug nd_def)
qed (simp_all add: ino_plug nd_def split: side.splits)

lemma ins_loop_inv:
  assumes "invc t" and "invh t" and "is_red t" and "cinvc k" and "cinvh k (bh t)" and "black_top k"
  shows "invc (ins_loop k t) \<and> invh (ins_loop k t)"
  using assms
proof (induction k t rule: ins_loop.induct)
  case (1 d p s e c g u k t)
  have c: "c" and s: "invc s" "invh s" "\<not> is_red s" "bh s = bh t" and u: "invc u" "invh u" "bh u = bh t"
    and k: "cinvc k" "cinvh k (Suc (bh t))" using "1.prems" by auto
  obtain a x y where t: "t = nd e False a x y" using nd_cases [of t e] "1.prems"(3) by (metis is_red_neq_L is_red_nd)
  show ?case
  proof (cases "is_red u")
    case True
    let ?g = "nd e False g (nd d True p t s) (paint True u)"
    have "invc ?g" "invh ?g" "bh ?g = Suc (bh t)" using 1(2,3) s u True by (simp_all add: bh_nd paint_inv)
    then show ?thesis using "1.IH" [OF True] k True black_top_up [OF black_top_up [OF "1.prems"(6)]] by simp
  next
    case False
    then show ?thesis using "1.prems" c s u k t by (auto simp: invh_plug invc_plug bh_nd)
  qed
qed (auto simp: invh_plug invc_plug bh_nd)

section \<open>Linking and inserting\<close>

text \<open>The argument \<open>rb_link\<close> for the hole of a context.\<close>

fun clink :: "ctx \<Rightarrow> (u64 \<times> side) option" where
  "clink Top = None"
| "clink (C d c a s k) = Some (a, d)"

lemma rb_link_node_spec:
  assumes rep: "rb_rep h root (plug k L)" and a: "h a \<noteq> None" "a \<noteq> 0" "aligned a" "a \<notin> set (ino (plug k L))"
  shows "\<exists>h' root'. rb_link_node h root a (cpar k) (clink k) = Some (h', root')
    \<and> rb_rep h' root' (plug k (nd Lt False a L L)) \<and> frame h h' (insert a (set (ino (plug k L))))"
proof -
  note D = rep_plugD [OF rep]
  have ca: "aligned (cpar k)" "a \<notin> cset k" "a \<noteq> cpar k" "cpar k \<in> cset k \<or> k = Top"
    using D(5) [of "cpar k"] a(2,4) by (cases k; auto simp: set_ino_plug)+
  let ?n = "\<lparr>rb_parent_color = cpar k, rb_right = 0, rb_left = 0\<rparr>"
  have "rb_parent ?n = cpar k" "\<not> rb_is_black ?n"
    using aligned_bit [OF ca(1)] by (auto simp: rb_parent_def rb_is_black_bit bit_simps bits_low intro!: bit_word_eqI)
  then have an: "aview ?n = mk Lt (cpar k) False 0 0" by (simp add: aview_def mk_def)
  define h1 where "h1 = h(a \<mapsto> ?n)"
  have h1: "rb_upd (\<lambda>_. ?n) h a = Some h1" "view h1 = (view h)(a \<mapsto> mk Lt (cpar k) False 0 0)"
    using a(1) an by (auto simp: rb_upd_def view_def fun_eq_iff h1_def)
  have "clay (view h1) k 0 = clay (view h) k 0" by (rule clay_cong) (use ca(2) in \<open>auto simp: h1(2)\<close>)
  with D(2) have cl1: "clay (view h1) k 0" by simp
  have "\<exists>h2. (case clink k of None \<Rightarrow> Some (h1, a) | Some (p, d) \<Rightarrow> do { h \<leftarrow> set_kid d h1 p a; Some (h, root) }) = Some (h2, if k = Top then a else root)
      \<and> (\<forall>x. x \<noteq> cpar k \<longrightarrow> view h2 x = view h1 x) \<and> (k = Top \<longrightarrow> h2 = h1)
      \<and> (\<forall>e c b s k'. k = C e c b s k' \<longrightarrow> view h2 b = Some (mk e (cpar k') c a (rt s)))"
  proof (cases k)
    case (C e c b s k')
    have "view h1 b = Some (mk e (cpar k') c 0 (rt s))" using cl1 C by simp
    from view_set(5) [OF this, of a] show ?thesis using C by auto
  qed simp
  then obtain h2 where h2: "(case clink k of None \<Rightarrow> Some (h1, a) | Some (p, d) \<Rightarrow> do { h \<leftarrow> set_kid d h1 p a; Some (h, root) }) = Some (h2, if k = Top then a else root)"
      "\<And>x. x \<noteq> cpar k \<Longrightarrow> view h2 x = view h1 x" "k = Top \<Longrightarrow> h2 = h1"
      "\<And>e c b s k'. k = C e c b s k' \<Longrightarrow> view h2 b = Some (mk e (cpar k') c a (rt s))" by blast
  have "view h2 a = Some (mk Lt (cpar k) False 0 0)" using h2(2) [OF ca(3)] h1(2) by simp
  moreover have "clay (view h2) k a" by (rule clay_relink [OF cl1 D(7)]) (use h2(2,4) in auto)
  moreover have "distinct (ino (plug k (nd Lt False a L L)))" using D(7) ca(2) by (auto simp: ino_plug nd_def cset_def)
  ultimately have "rb_rep h2 (if k = Top then a else root) (plug k (nd Lt False a L L))"
    using D(5,6) a(2,3) by (auto simp: rb_rep_def lay_plug set_ino_plug rt_plug [of k "nd _ _ _ _ _"])
  moreover have "frame h h2 (insert a (set (ino (plug k L))))"
    unfolding frame_def set_ino_plug using h2(2,3) h1(2) ca(4) by (metis UnI2 fun_upd_other insert_iff)
  ultimately show ?thesis using h1(1) h2(1) by (auto simp: rb_link_node_def)
qed

lemma rb_insert_color_spec:
  assumes rep: "rb_rep h root (plug k (nd Lt False a L L))" and inv: "rbt_inv (plug k L)"
  shows "\<exists>h' root' t. rb_insert_color h root a = Some (h', root') \<and> rb_rep h' root' t \<and> rbt_inv t
    \<and> ino t = cl k @ a # cr k \<and> frame h h' (insert a (set (ino (plug k L))))"
proof -
  let ?t = "nd Lt False a L L" and ?i = "ins_loop k (nd Lt False a L L)"
  have k: "black_top k" "cinvc k" "cinvh k 0" using inv by (auto simp: rbt_inv_def invc_plug invh_plug is_red_plug split: if_splits)
  obtain h1 r1 where h1: "insert_loop h root a = Some (h1, r1)" "rb_rep h1 r1 ?i" "frame h h1 (insert a (set (ino (plug k L))))"
    using insert_loop_spec [OF rep _ k(1)] by (auto simp: set_ino_plug)
  have i: "invc ?i" "invh ?i" "ino ?i = cl k @ a # cr k" using ins_loop_inv [of ?t k] ino_ins_loop [of ?t k] k by (simp_all add: nd_def)
  then obtain c b x y where t: "?i = nd Lt c b x y" by (cases ?i) (auto simp: nd_def)
  have "rb_rep h1 r1 (plug Top (nd Lt c b x y))" using h1(2) t by simp
  from set_black_spec [OF this] obtain h2 where h2: "rb_set_black h1 b = Some h2" "rb_rep h2 r1 (nd Lt True b x y)"
      "frame h1 h2 (set (ino ?i))" using t by auto
  have r1: "r1 = b" using h1(2) t by (simp add: rb_rep_def)
  have "rbt_inv (nd Lt True b x y)" "ino (nd Lt True b x y) = ino ?i"
    using i paint_inv(1) [of ?i] paint_inv(2) [of True ?i] t by (auto simp: rbt_inv_def nd_def)
  moreover have "frame h1 h2 (insert a (set (ino (plug k L))))" using h2(3) i(3) by (auto simp: frame_def ino_plug)
  ultimately show ?thesis
    using h1(1) h2(1,2) r1 i(3) frame_trans [OF h1(3)] by (fastforce simp: rb_insert_color_def)
qed

text \<open>A path from the root has at most twice as many nodes as the black height, and a tree of black height \<open>n\<close> at least \<open>2 ^ n - 1\<close> nodes.\<close>

fun height :: "rbt \<Rightarrow> nat" where
  "height L = 0"
| "height (N l c a r) = Suc (max (height l) (height r))"

lemma height_bh: "invc t \<Longrightarrow> invh t \<Longrightarrow> height t \<le> 2 * bh t + (if is_red t then 1 else 0)"
  by (induction t) (auto split: if_splits)

lemma bh_size: "invh t \<Longrightarrow> 2 ^ bh t \<le> length (ino t) + 1"
proof (induction t)
  case (N l c a r)
  then have "2 ^ bh l \<le> length (ino l) + 1" "(2::nat) ^ bh l \<le> length (ino r) + 1" by auto
  then show ?case by simp
qed simp

lemma rbt_height:
  assumes "rbt_inv t"
  shows "2 ^ (height t div 2) \<le> length (ino t) + 1"
proof -
  have "height t div 2 \<le> bh t" using height_bh [of t] assms by (simp add: rbt_inv_def)
  then have "(2::nat) ^ (height t div 2) \<le> 2 ^ bh t" by (intro power_increasing) auto
  also have "\<dots> \<le> length (ino t) + 1" using bh_size [of t] assms by (simp add: rbt_inv_def)
  finally show ?thesis .
qed

section \<open>Properties\<close>

text \<open>
  (C3) Insertion: when the heap holds a red-black tree, \<open>rb_link_node\<close> at any free position of it followed by \<open>rb_insert_color\<close> returns,
  and the heap then holds a red-black tree (black root, no red node with a red child, as many black nodes on every path) whose nodes
  in order are the old ones with the new node at that position.  No path is longer than \<open>2 log (n + 1)\<close>, and no node outside the
  tree is touched.
\<close>

theorem rb_insert_correct:
  assumes "rb_rep h root (plug k L)" and "rbt_inv (plug k L)"
    and "h a \<noteq> None" and "a \<noteq> 0" and "aligned a" and "a \<notin> set (ino (plug k L))"
  shows "\<exists>h1 r1 h2 r2 t. rb_link_node h root a (cpar k) (clink k) = Some (h1, r1) \<and> rb_insert_color h1 r1 a = Some (h2, r2)
    \<and> rb_rep h2 r2 t \<and> rbt_inv t \<and> ino t = cl k @ a # cr k \<and> 2 ^ (height t div 2) \<le> length (ino t) + 1
    \<and> frame h h2 (insert a (set (ino (plug k L))))"
proof -
  obtain h1 r1 where h1: "rb_link_node h root a (cpar k) (clink k) = Some (h1, r1)" "rb_rep h1 r1 (plug k (nd Lt False a L L))"
      "frame h h1 (insert a (set (ino (plug k L))))"
    using rb_link_node_spec [OF assms(1,3-6)] by blast
  with rb_insert_color_spec [OF h1(2) assms(2)] show ?thesis using rbt_height frame_trans [OF h1(3)] by blast
qed

theorem rb_insert_correct_witness:
  "\<exists>h1 r1 h2 r2 t. rb_link_node [16 \<mapsto> \<lparr>rb_parent_color = 1, rb_right = 0, rb_left = 0\<rparr>, 8 \<mapsto> \<lparr>rb_parent_color = 0, rb_right = 0, rb_left = 0\<rparr>]
      16 8 16 (Some (16, Lt)) = Some (h1, r1)
    \<and> rb_insert_color h1 r1 8 = Some (h2, r2) \<and> rb_rep h2 r2 t \<and> rbt_inv t \<and> ino t = [8, 16]"
proof -
  let ?h = "[16 \<mapsto> \<lparr>rb_parent_color = 1, rb_right = 0, rb_left = 0\<rparr>, 8 \<mapsto> \<lparr>rb_parent_color = 0, rb_right = 0, rb_left = 0\<rparr>] :: rb_mem"
  let ?k = "C Lt True 16 L Top"
  have "rb_rep ?h 16 (plug ?k L)"
    by (simp add: rb_rep_def view_def aview_def mk_def nd_def rb_parent_def rb_is_black_def rb_color_def aligned_def)
  moreover have "rbt_inv (plug ?k L)" by (simp add: rbt_inv_def)
  moreover have "aligned 8" by (simp add: aligned_def)
  ultimately show ?thesis using rb_insert_correct [of ?h 16 ?k 8] by auto
qed

end
