(* ===== verification/RbErase.thy ===== *)
theory RbErase
  imports RbInsert
begin

text \<open>
  Traversal, replacement and deletion in a red-black tree.  The loop of \<open>__rb_erase_color\<close> refines a function on trees with a hole whose
  subtree lacks one black node.
\<close>

section \<open>Traversal\<close>

definition ext :: "side \<Rightarrow> rbt \<Rightarrow> u64" where
  "ext d t = (case d of Lt \<Rightarrow> hd (ino t) | Rt \<Rightarrow> last (ino t))"

text \<open>The nearest node outside the hole: behind it for \<open>Rt\<close>, before it for \<open>Lt\<close>, or \<open>NULL\<close>.\<close>

definition beyond :: "side \<Rightarrow> ctx \<Rightarrow> u64" where
  "beyond d k = (case d of Rt \<Rightarrow> if cr k = [] then 0 else hd (cr k) | Lt \<Rightarrow> if cl k = [] then 0 else last (cl k))"

lemma ext_nd: "ext d (nd d c a x y) = (if x = L then a else ext d x)"
  by (cases d; cases x) (auto simp: ext_def nd_def hd_append)

lemma rb_descend_spec:
  assumes "rb_rep h root (plug k t)" and "t \<noteq> L"
  shows "descend d h (rt t) = Some (ext d t)"
  using assms
proof (induction "size t" arbitrary: k t rule: less_induct)
  case less
  obtain c a x y where t: "t = nd d c a x y" using less.prems(2) by (rule nd_cases)
  obtain n where n: "h a = Some n" "kid d n = rt x" using rep_node [of h root k d c a x y] less.prems(1) t by metis
  have rx: "rb_rep h root (plug (C d c a y k) x)" using less.prems(1) t by simp
  show ?case
  proof (cases "x = L")
    case True
    then show ?thesis using n t by (subst descend.simps) (simp add: ext_nd)
  next
    case False
    have "size x < size t" using t by (cases d) (simp_all add: nd_def)
    from less.hyps [OF this rx False] show ?thesis
      using n t False rt_eq_0 [OF rx] by (subst descend.simps) (simp add: ext_nd)
  qed
qed

lemma climb_spec:
  assumes "rb_rep h root (plug k t)" and "t \<noteq> L"
  shows "climb d h (rt t) = Some (beyond d k)"
  using assms
proof (induction k arbitrary: t)
  case Top
  obtain c a x y where t: "t = nd Lt c a x y" using Top(2) by (rule nd_cases)
  obtain n where n: "h a = Some n" "rb_parent n = 0" using rep_node [of h root Top Lt c a x y] Top(1) t by (metis cpar.simps(1))
  then show ?case using t by (subst climb.simps) (cases d; simp add: beyond_def)
next
  case (C e c p s k)
  obtain ct a x y where t: "t = nd Lt ct a x y" using C.prems(2) by (rule nd_cases)
  obtain n where n: "h a = Some n" "rb_parent n = p"
    using rep_node [of h root "C e c p s k" Lt ct a x y] C.prems(1) t by (metis cpar.simps(2))
  have rp: "rb_rep h root (plug k (nd e c p t s))" using C.prems(1) by simp
  obtain m where m: "h p = Some m" "kid e m = rt t" "kid (op e) m = rt s" "p \<noteq> 0" using rep_node [OF rp] by metis
  show ?case
  proof (cases "e = d")
    case True
    have "beyond d (C e c p s k) = beyond d k" using True by (cases d) (simp_all add: beyond_def)
    then show ?thesis using True n m t C.IH [OF rp] by (subst climb.simps) simp
  next
    case False
    then have e: "d = op e" by (cases d; cases e) auto
    have "beyond d (C e c p s k) = p" using e by (cases e) (simp_all add: beyond_def)
    moreover have "rt s \<noteq> rt t" using rep_sibling [OF C.prems(1)] C.prems(2) by simp
    ultimately show ?thesis using e n m t by (subst climb.simps) simp
  qed
qed

lemma rb_first_spec: "rb_rep h root t \<Longrightarrow> rb_first h root = Some (if ino t = [] then 0 else hd (ino t))"
  using rb_descend_spec [of h root Top t Lt] by (cases t) (auto simp: rb_first_def rb_rep_def ext_def)

lemma rb_last_spec: "rb_rep h root t \<Longrightarrow> rb_last h root = Some (if ino t = [] then 0 else last (ino t))"
  using rb_descend_spec [of h root Top t Rt] by (cases t) (auto simp: rb_last_def rb_rep_def ext_def)

lemma rep_parent_neq:
  assumes "rb_rep h root (plug k t)" and "t \<noteq> L"
  shows "cpar k \<noteq> rt t"
proof (cases k)
  case Top
  then show ?thesis using rt_eq_0 [OF assms(1)] assms(2) by simp
next
  case (C d c a s k')
  then show ?thesis using rep_plugD(3) [of h root k' "nd d c a t s"] assms rt_in [OF assms(2)] by auto
qed

lemma rb_next_spec:
  assumes "rb_rep h root (plug k (N l c a r))"
  shows "rb_next h a = Some (if ino r @ cr k = [] then 0 else hd (ino r @ cr k))"
proof -
  have rep: "rb_rep h root (plug k (nd Lt c a l r))" using assms by (simp add: nd_def)
  obtain n where n: "h a = Some n" "rb_parent n = cpar k" "rb_right n = rt r" using rep_node [OF rep] by (metis kid.simps(2) op.simps(1))
  have "cpar k \<noteq> a" using rep_parent_neq [OF rep] by simp
  moreover have rr: "rb_rep h root (plug (C Rt c a l k) r)" using rep by (simp add: nd_def)
  moreover have "r \<noteq> L \<Longrightarrow> ino r \<noteq> []" by (cases r) auto
  ultimately show ?thesis
    using n rb_descend_spec [OF rr, of Lt] climb_spec [OF rep, of Rt] rt_eq_0 [OF rr]
    by (cases "r = L") (auto simp: rb_next_def ext_def beyond_def)
qed

lemma rb_prev_spec:
  assumes "rb_rep h root (plug k (N l c a r))"
  shows "rb_prev h a = Some (if cl k @ ino l = [] then 0 else last (cl k @ ino l))"
proof -
  have rep: "rb_rep h root (plug k (nd Lt c a l r))" using assms by (simp add: nd_def)
  obtain n where n: "h a = Some n" "rb_parent n = cpar k" "rb_left n = rt l" using rep_node [OF rep] by (metis kid.simps(1))
  have "cpar k \<noteq> a" using rep_parent_neq [OF rep] by simp
  moreover have rl: "rb_rep h root (plug (C Lt c a r k) l)" using rep by simp
  moreover have "l \<noteq> L \<Longrightarrow> ino l \<noteq> []" by (cases l) auto
  ultimately show ?thesis
    using n rb_descend_spec [OF rl, of Rt] climb_spec [OF rep, of Lt] rt_eq_0 [OF rl]
    by (cases "l = L") (auto simp: rb_prev_def ext_def beyond_def)
qed

text \<open>Every address of a tree is the root of a subtree in some context.\<close>

lemma focus:
  assumes "a \<in> set (ino t)"
  shows "\<exists>k l c r. t = plug k (N l c a r)"
proof -
  have "\<exists>k' l c r. plug k t = plug k' (N l c a r)" for k
    using assms
  proof (induction t arbitrary: k)
    case (N l c b r)
    show ?case using N(1) [of "C Lt c b r k"] N(2) [of "C Rt c b l k"] N.prems by (auto simp: nd_def)
  qed simp
  from this [of Top] show ?thesis by simp
qed

lemma split_focus:
  assumes "distinct (ino t)" and "ino t = xs @ a # ys"
  shows "\<exists>k l c r. t = plug k (N l c a r) \<and> xs = cl k @ ino l \<and> ys = ino r @ cr k"
proof -
  obtain k l c r where t: "t = plug k (N l c a r)" using focus [of a t] assms(2) by auto
  have "xs @ a # ys = (cl k @ ino l) @ a # (ino r @ cr k)" using assms(2) t by (simp add: ino_plug)
  moreover have "distinct (xs @ a # ys)" using assms by simp
  ultimately have "xs = cl k @ ino l" "ys = ino r @ cr k" by (metis append_Cons_eq_iff distinct.simps(2) distinct_append not_distinct_conv_prefix)+
  with t show ?thesis by blast
qed

lemma rep_next:
  assumes "rb_rep h root t" and "ino t = xs @ a # ys"
  shows "rb_next h a = Some (if ys = [] then 0 else hd ys)" and "rb_prev h a = Some (if xs = [] then 0 else last xs)"
proof -
  have "distinct (ino t)" using assms(1) by (simp add: rb_rep_def)
  then obtain k l c r where "t = plug k (N l c a r)" "xs = cl k @ ino l" "ys = ino r @ cr k" using split_focus assms(2) by blast
  then show "rb_next h a = Some (if ys = [] then 0 else hd ys)" "rb_prev h a = Some (if xs = [] then 0 else last xs)"
    using rb_next_spec [of h root k l c a r] rb_prev_spec [of h root k l c a r] assms(1) by simp_all
qed

section \<open>Replacing a node\<close>

lemma lay_frame: "lay v p t \<Longrightarrow> (\<And>q. q \<in> set (ino t) \<Longrightarrow> v' q = v q) \<Longrightarrow> lay v' p t"
  using lay_cong [of t v' v p] by simp

lemma rt_in_ino: "rt t \<noteq> 0 \<Longrightarrow> rt t \<in> set (ino t)"
  by (cases t) auto

lemma rb_replace_node_spec:
  assumes rep: "rb_rep h root (plug k (N l c a r))" and b: "h b \<noteq> None" "b \<noteq> 0" "aligned b" "b \<notin> set (ino (plug k (N l c a r)))"
  shows "\<exists>h' root'. rb_replace_node h root a b = Some (h', root') \<and> rb_rep h' root' (plug k (N l c b r))
    \<and> frame h h' (insert b (set (ino (plug k (N l c a r)))))"
proof -
  note D = rep_plugD [OF rep]
  have va: "view h a = Some (mk Lt (cpar k) c (rt l) (rt r))" and ll: "lay (view h) a l" and lr: "lay (view h) a r" and ck: "clay (view h) k a"
    using D(1,2) by (simp_all add: mk_def)
  obtain v where v: "h a = Some v" "rb_parent v = cpar k" using view_get [OF va] by metis
  have nz: "a \<noteq> 0" "0 \<notin> cset k" "a \<notin> cset k" "cpar k \<in> cset k \<or> k = Top" "b \<notin> cset k" "b \<noteq> a" "b \<notin> set (ino l)" "b \<notin> set (ino r)"
    using D(5) [of a] D(5) [of 0] D(4) b(4) by (auto simp: set_ino_plug) (cases k; simp)
  have ds: "a \<notin> set (ino l)" "a \<notin> set (ino r)" "set (ino l) \<inter> set (ino r) = {}" "set (ino l) \<inter> cset k = {}" "set (ino r) \<inter> cset k = {}"
      "distinct (ino l)" "distinct (ino r)" "0 \<notin> set (ino l) \<union> set (ino r)" using D(3,4) D(5) [of 0] by auto
  have k0: "cpar k \<noteq> a" "cpar k \<noteq> b" "cpar k \<notin> set (ino l) \<union> set (ino r)"
    using nz b(2) ds by (cases "k = Top"; auto)+
  obtain h1 where h1: "relink Lt h root (cpar k) a b = Some (h1, if k = Top then b else root)" "\<And>x. x \<noteq> cpar k \<Longrightarrow> view h1 x = view h x"
      "k = Top \<Longrightarrow> h1 = h" "\<And>e c q s k'. k = C e c q s k' \<Longrightarrow> view h1 q = Some (mk e (cpar k') c b (rt s))"
    using relink_spec [OF ck nz(1) D(7) nz(3,2), of Lt root b] by blast
  have same1: "lay (view h1) a l" "lay (view h1) a r"
    by (rule lay_frame [OF ll], rule h1(2), use k0(3) in auto) (rule lay_frame [OF lr], rule h1(2), use k0(3) in auto)
  obtain h2 where h2: "(if rt l \<noteq> 0 then rb_set_parent h1 (rt l) b else Some h1) = Some h2" "\<And>x. x \<noteq> rt l \<Longrightarrow> view h2 x = view h1 x"
      "rt l = 0 \<Longrightarrow> h2 = h1" "\<And>l' c' q r'. rt l \<noteq> 0 \<Longrightarrow> l = N l' c' q r' \<Longrightarrow> view h2 q = Some (An b c' (rt l') (rt r'))"
    using setpar_spec [OF same1(1) b(3)] by blast
  have "lay (view h2) a r"
  proof (rule lay_frame [OF same1(2)])
    fix q assume "q \<in> set (ino r)"
    then show "view h2 q = view h1 q" using h2(2,3) rt_in_ino [of l] ds(3) by (metis disjoint_iff)
  qed
  from setpar_spec [OF this b(3)] obtain h3 where
    h3: "(if rt r \<noteq> 0 then rb_set_parent h2 (rt r) b else Some h2) = Some h3" "\<And>x. x \<noteq> rt r \<Longrightarrow> view h3 x = view h2 x"
      "rt r = 0 \<Longrightarrow> h3 = h2" "\<And>l' c' q r'. rt r \<noteq> 0 \<Longrightarrow> r = N l' c' q r' \<Longrightarrow> view h3 q = Some (An b c' (rt l') (rt r'))" by blast
  have out: "view h3 x = view h1 x" if "x \<notin> set (ino l) \<union> set (ino r)" for x
    using h2(2) [of x] h2(3) h3(2) [of x] h3(3) rt_in_ino [of l] rt_in_ino [of r] that by (metis UnI1 UnI2)
  have va1: "view h1 a = Some (mk Lt (cpar k) c (rt l) (rt r))" using h1(2) [of a] k0(1) va by simp
  have va3: "view h3 a = Some (mk Lt (cpar k) c (rt l) (rt r))" using out [of a] va1 ds(1,2) by simp
  obtain v1 where v1: "h1 a = Some v1" "rb_left v1 = rt l" "rb_right v1 = rt r" using view_get [OF va1] by (metis kid.simps op.simps(1))
  have va2: "view h2 a = Some (mk Lt (cpar k) c (rt l) (rt r))" using h2(2) [of a] h2(3) rt_in_ino [of l] ds(1) va1 by metis
  obtain v2 where v2: "h2 a = Some v2" using view_eq_Some [OF va2] by blast
  obtain v3 where v3: "h3 a = Some v3" "aview v3 = mk Lt (cpar k) c (rt l) (rt r)" using view_eq_Some [OF va3] by blast
  obtain nb where nb: "h3 b = Some nb"
  proof -
    have "view h3 b = view h b" using out [of b] h1(2) [of b] nz k0 by simp
    then show thesis using b(1) that by (auto simp: view_def)
  qed
  define h4 where "h4 = h3(b \<mapsto> v3)"
  have h4: "view h4 = (view h3)(b \<mapsto> mk Lt (cpar k) c (rt l) (rt r))" using v3(2) by (auto simp: view_def h4_def fun_eq_iff)
  have run: "rb_replace_node h root a b = Some (h4, if k = Top then b else root)"
    using v h1(1) v1 h2(1) h3(1) v3(1) nb
    by (cases "rt l = 0"; cases "rt r = 0") (simp_all add: rb_replace_node_def rb_upd_def h4_def split del: if_split)
  have lb: "lay (view h4) b t" if t: "lay (view h) a t" "distinct (ino t)" "set (ino t) \<inter> cset k = {}" "b \<notin> set (ino t)" "0 \<notin> set (ino t)"
      and keep: "\<And>x. x \<in> set (ino t) \<Longrightarrow> x \<noteq> rt t \<Longrightarrow> view h3 x = view h1 x"
      and upd: "\<And>l' c' q r'. t = N l' c' q r' \<Longrightarrow> view h3 q = Some (An b c' (rt l') (rt r'))" for t
  proof (rule lay_reparent [OF t(1,2)])
    fix q assume q: "q \<in> set (ino t)" "q \<noteq> rt t"
    then have "q \<noteq> cpar k" using t(3,5) nz(4) by (cases "k = Top") auto
    then show "view h4 q = view h q" using keep [OF q] h1(2) [of q] q(1) t(4) by (auto simp: h4)
  next
    fix l' c' q r' assume "t = N l' c' q r'"
    then show "view h4 q = Some (An b c' (rt l') (rt r'))" using upd t(4) by (auto simp: h4)
  qed
  have "lay (view h4) b l"
  proof (rule lb [OF ll ds(6,4) nz(7)])
    show "0 \<notin> set (ino l)" using ds(8) by simp
    show "view h3 x = view h1 x" if "x \<in> set (ino l)" "x \<noteq> rt l" for x
      using h2(2) [OF that(2)] h3(2) [of x] h3(3) rt_in_ino [of r] that(1) ds(3) by (metis disjoint_iff)
    show "view h3 q = Some (An b c' (rt l') (rt r'))" if l: "l = N l' c' q r'" for l' c' q r'
    proof -
      have "q \<noteq> 0" "q \<notin> set (ino r)" using l ds(3,8) by auto
      then show ?thesis using h2(4) [OF _ l] l h3(2) [of q] h3(3) rt_in_ino [of r] by (metis rt.simps(2))
    qed
  qed
  moreover have "lay (view h4) b r"
  proof (rule lb [OF lr ds(7,5) nz(8)])
    show "0 \<notin> set (ino r)" using ds(8) by simp
    show "view h3 x = view h1 x" if "x \<in> set (ino r)" "x \<noteq> rt r" for x
      using h3(2) [OF that(2)] h2(2) [of x] h2(3) rt_in_ino [of l] that(1) ds(3) by (metis disjoint_iff)
    show "view h3 q = Some (An b c' (rt l') (rt r'))" if r: "r = N l' c' q r'" for l' c' q r'
      using h3(4) [OF _ r] r ds(8) by auto
  qed
  moreover have "clay (view h4) k b"
  proof (rule clay_relink [OF ck D(7)])
    have in_k: "view h4 x = view h1 x" if "x \<in> cset k" for x using that out [of x] nz(5) ds(4,5) by (auto simp: h4)
    then show "view h4 x = view h x" if "x \<in> cset k" "x \<noteq> cpar k" for x using that h1(2) by simp
    show "view h4 q = Some (mk e (cpar k') c' b (rt s))" if k: "k = C e c' q s k'" for e c' q s k'
      using h1(4) [OF k] in_k [of q] k by simp
  qed
  moreover have "view h4 b = Some (An (cpar k) c (rt l) (rt r))" by (simp add: h4 mk_def)
  ultimately have "rb_rep h4 (if k = Top then b else root) (plug k (N l c b r))"
    using D b nz ds by (auto simp: rb_rep_def lay_plug ino_plug rt_plug [of k "N _ _ _ _"] cset_def)
  moreover have "frame h h4 (insert b (set (ino (plug k (N l c a r)))))"
    unfolding frame_def
  proof (intro allI impI)
    fix q assume "q \<notin> insert b (set (ino (plug k (N l c a r))))"
    then have q: "q \<noteq> b" "q \<notin> set (ino l) \<union> set (ino r)" "q \<notin> cset k" by (auto simp: set_ino_plug)
    then have "view h4 q = view h1 q" using out by (simp add: h4)
    then show "view h4 q = view h q" using h1(2) [of q] h1(3) q(3) nz(4) by metis
  qed
  ultimately show ?thesis using run by blast
qed

section \<open>Deletion: the loop on trees\<close>

text \<open>
  The subtree \<open>t\<close> in the hole on side \<open>d\<close> of \<open>p\<close> lacks one black node; \<open>s\<close> is its black sibling, and \<open>cont\<close> goes on with a larger
  subtree.
\<close>

definition fix_nephews :: "side \<Rightarrow> bool \<Rightarrow> u64 \<Rightarrow> rbt \<Rightarrow> rbt \<Rightarrow> ctx \<Rightarrow> (rbt \<Rightarrow> rbt) \<Rightarrow> rbt" where
  "fix_nephews d c p t s k cont =
     (let n = kidt d s; f = kidt (op d) s in
      if \<not> is_red n \<and> \<not> is_red f then cont (nd d c p t (nd d False (rt s) n f))
      else if \<not> is_red f
      then paint True (plug k (nd d c (rt n) (nd d True p t (kidt d n)) (nd d True (rt s) (kidt (op d) n) f)))
      else paint True (plug k (nd d c (rt s) (nd d True p t n) (paint True f))))"

fun er_loop :: "ctx \<Rightarrow> rbt \<Rightarrow> rbt" where
  "er_loop Top t = paint True t"
| "er_loop (C d c p s k) t =
     (if is_red t then plug (C d c p s k) (paint True t)
      else if is_red s
      then fix_nephews d False p t (kidt d s) (C d True (rt s) (kidt (op d) s) k)
             (\<lambda>u. plug (C d True (rt s) (kidt (op d) s) k) (paint True u))
      else fix_nephews d c p t s k (er_loop k))"

lemma erase_sibling_red:
  assumes rep: "rb_rep h root (plug k (nd d c p t s))" and red: "is_red s"
  shows "\<exists>h' root'. erase_sibling d h root p = Some (h', root', rt (kidt d s))
    \<and> rb_rep h' root' (plug (C d True (rt s) (kidt (op d) s) k) (nd d False p t (kidt d s)))
    \<and> frame h h' (set (ino (plug k (nd d c p t s))))"
proof -
  let ?A = "set (ino (plug k (nd d c p t s)))"
  obtain b n f where s: "s = nd d False b n f" using nd_cases [of s d] red by (metis is_red_neq_L is_red_nd)
  obtain pn where pn: "h p = Some pn" "kid (op d) pn = b" using rep_node [OF rep] s by (metis rt_nd)
  have rs: "rb_rep h root (plug (C (op d) c p t k) (nd d False b n f))" using rep s by simp
  obtain on where on: "h b = Some on" "rb_is_red on" using rep_node [OF rs] by metis
  from set_black_spec [OF rs] obtain h1 where h1: "rb_set_black h b = Some h1"
      "rb_rep h1 root (plug (C (op d) c p t k) (nd d True b n f))" "frame h h1 ?A" using s by (auto simp: set_ino_plug insert_commute Un_ac)
  have "rb_rep h1 root (plug k (nd d c p t (nd d True b n f)))" using h1(2) by simp
  from set_red_spec [OF this] obtain h2 where h2: "rb_set_red h1 p = Some h2"
      "rb_rep h2 root (plug k (nd d False p t (nd d True b n f)))" "frame h1 h2 ?A" using s by (auto simp: set_ino_plug)
  from rotate_spec [OF h2(2)] obtain h3 r3 where h3: "rotate d h2 root p = Some (h3, r3)"
      "rb_rep h3 r3 (plug k (nd d True b (nd d False p t n) f))" "frame h2 h3 ?A" using s by (auto simp: set_ino_plug)
  have r3: "rb_rep h3 r3 (plug (C d True b f k) (nd d False p t n))" using h3(2) by simp
  obtain qn where "h3 p = Some qn" "kid (op d) qn = rt n" using rep_node [OF r3] by metis
  then have "erase_sibling d h root p = Some (h3, r3, rt n)"
    using pn on h1(1) h2(1) h3(1) by (simp add: erase_sibling_def Let_def)
  then show ?thesis using r3 s frame_trans [OF frame_trans [OF h1(3) h2(3)] h3(3)] by auto
qed

lemma erase_sibling_black:
  assumes rep: "rb_rep h root (plug k (nd d c p t s))" and "\<not> is_red s" and "s \<noteq> L"
  shows "erase_sibling d h root p = Some (h, root, rt s)"
proof -
  obtain b n f where s: "s = nd d True b n f" using nd_cases [of s d] assms(2,3) by (metis is_red_nd)
  obtain pn where pn: "h p = Some pn" "kid (op d) pn = b" using rep_node [OF rep] s by (metis rt_nd)
  have rs: "rb_rep h root (plug (C (op d) c p t k) (nd d True b n f))" using rep s by simp
  obtain on where "h b = Some on" "\<not> rb_is_red on" using rep_node [OF rs] by metis
  with pn s show ?thesis by (simp add: erase_sibling_def)
qed

text \<open>The last part of the loop body: the sibling takes the parent's colour and place.\<close>

lemma erase_nephews_finish:
  assumes rep: "rb_rep h root (plug k (nd d c p t (nd d c' b n f)))" and "is_red f"
  shows "\<exists>pn h1 h2 on h3 h4 root'. h p = Some pn \<and> rb_set_color h b (rb_color pn) = Some h1 \<and> rb_set_black h1 p = Some h2
    \<and> h2 b = Some on \<and> rb_set_black h2 (kid (op d) on) = Some h3 \<and> rotate d h3 root p = Some (h4, root')
    \<and> rb_rep h4 root' (plug k (nd d c b (nd d True p t n) (paint True f)))
    \<and> frame h h4 (set (ino (plug k (nd d c p t (nd d c' b n f)))))"
proof -
  let ?A = "set (ino (plug k (nd d c p t (nd d c' b n f))))"
  obtain e x y where f: "f = nd d False e x y" using nd_cases [of f d] assms(2) by (metis is_red_neq_L is_red_nd)
  obtain pn where pn: "h p = Some pn" "rb_is_black pn = c" using rep_node [OF rep] by metis
  have rs: "rb_rep h root (plug (C (op d) c p t k) (nd d c' b n f))" using rep by simp
  from set_color_spec [OF rs, of pn] obtain h1 where h1: "rb_set_color h b (rb_color pn) = Some h1"
      "rb_rep h1 root (plug (C (op d) c p t k) (nd d c b n f))" "frame h h1 ?A" using pn(2) by (auto simp: set_ino_plug insert_commute Un_ac)
  have "rb_rep h1 root (plug k (nd d c p t (nd d c b n f)))" using h1(2) by simp
  from set_black_spec [OF this] obtain h2 where h2: "rb_set_black h1 p = Some h2"
      "rb_rep h2 root (plug k (nd d True p t (nd d c b n f)))" "frame h1 h2 ?A" by (auto simp: set_ino_plug)
  have rs2: "rb_rep h2 root (plug (C (op d) True p t k) (nd d c b n f))" using h2(2) by simp
  obtain on where on: "h2 b = Some on" "kid (op d) on = e" using rep_node [OF rs2] f by (metis rt_nd)
  have "rb_rep h2 root (plug (C (op d) c b n (C (op d) True p t k)) (nd d False e x y))" using rs2 f by simp
  from set_black_spec [OF this] obtain h3 where h3: "rb_set_black h2 e = Some h3"
      "rb_rep h3 root (plug (C (op d) c b n (C (op d) True p t k)) (nd d True e x y))" "frame h2 h3 ?A"
    using f by (auto simp: set_ino_plug insert_commute Un_ac)
  have "rb_rep h3 root (plug k (nd d True p t (nd d c b n (nd d True e x y))))" using h3(2) by simp
  from rotate_spec [OF this] obtain h4 r4 where h4: "rotate d h3 root p = Some (h4, r4)"
      "rb_rep h4 r4 (plug k (nd d c b (nd d True p t n) (nd d True e x y)))" "frame h3 h4 ?A" using f by (auto simp: set_ino_plug)
  have "frame h h4 ?A" using frame_trans [OF frame_trans [OF frame_trans [OF h1(3) h2(3)] h3(3)] h4(3)] .
  then show ?thesis using pn(1) h1(1) h2(1) on h3(1) h4(1,2) f by auto
qed

lemma erase_nephews_black:
  assumes rep: "rb_rep h root (plug k (nd d c p t s))" and s: "s \<noteq> L" and nf: "\<not> is_red (kidt d s)" "\<not> is_red (kidt (op d) s)"
  shows "\<exists>h'. erase_nephews d h root p (rt s) = Some (h', root, p, cpar k, False)
    \<and> rb_rep h' root (plug k (nd d c p t (nd d False (rt s) (kidt d s) (kidt (op d) s))))
    \<and> frame h h' (set (ino (plug k (nd d c p t s))))"
proof -
  let ?A = "set (ino (plug k (nd d c p t s)))"
  obtain c' b n f where s: "s = nd d c' b n f" using s by (rule nd_cases)
  have rs: "rb_rep h root (plug (C (op d) c p t k) (nd d c' b n f))" using rep s by simp
  obtain on where on: "h b = Some on" "kid d on = rt n" "kid (op d) on = rt f" using rep_node [OF rs] by metis
  have "null_or_black h (rt n) = Some True" "null_or_black h (rt f) = Some True"
    using colour_of(2) [of h root "C d c' b f (C (op d) c p t k)" n] colour_of(2) [of h root "C (op d) c' b n (C (op d) c p t k)" f] rs nf s by simp_all
  moreover obtain h1 where h1: "rb_set_red h b = Some h1" "rb_rep h1 root (plug (C (op d) c p t k) (nd d False b n f))" "frame h h1 ?A"
    using set_red_spec [OF rs] s by (auto simp: set_ino_plug insert_commute Un_ac)
  moreover have r1: "rb_rep h1 root (plug k (nd d c p t (nd d False b n f)))" using h1(2) by simp
  moreover obtain pn where "h1 p = Some pn" "rb_parent pn = cpar k" using rep_node [OF r1] by metis
  ultimately show ?thesis using on s by (auto simp: erase_nephews_def)
qed

lemma erase_nephews_red:
  assumes rep: "rb_rep h root (plug k (nd d c p t s))" and s: "s \<noteq> L" and nf: "is_red (kidt d s) \<or> is_red (kidt (op d) s)"
  shows "\<exists>h' root'. erase_nephews d h root p (rt s) = Some (h', root', root', p, True)
    \<and> rb_rep h' root' (plug k (if \<not> is_red (kidt (op d) s)
        then nd d c (rt (kidt d s)) (nd d True p t (kidt d (kidt d s))) (nd d True (rt s) (kidt (op d) (kidt d s)) (kidt (op d) s))
        else nd d c (rt s) (nd d True p t (kidt d s)) (paint True (kidt (op d) s))))
    \<and> frame h h' (set (ino (plug k (nd d c p t s))))"
proof -
  let ?A = "set (ino (plug k (nd d c p t s)))"
  obtain c' b n f where s: "s = nd d c' b n f" using s by (rule nd_cases)
  have rs: "rb_rep h root (plug (C (op d) c p t k) (nd d c' b n f))" using rep s by simp
  obtain on where on: "h b = Some on" "kid d on = rt n" "kid (op d) on = rt f" using rep_node [OF rs] by metis
  have col: "null_or_black h (rt n) = Some (\<not> is_red n)" "null_or_black h (rt f) = Some (\<not> is_red f)"
    using colour_of(2) [of h root "C d c' b f (C (op d) c p t k)" n] colour_of(2) [of h root "C (op d) c' b n (C (op d) c p t k)" f] rs by simp_all
  show ?thesis
  proof (cases "is_red f")
    case True
    obtain pn h1 h2 on2 h3 h4 r4 where st: "h p = Some pn" "rb_set_color h b (rb_color pn) = Some h1" "rb_set_black h1 p = Some h2"
        "h2 b = Some on2" "rb_set_black h2 (kid (op d) on2) = Some h3" "rotate d h3 root p = Some (h4, r4)"
        "rb_rep h4 r4 (plug k (nd d c b (nd d True p t n) (paint True f)))" "frame h h4 ?A"
      using erase_nephews_finish [of h root k d c p t c' b n f] rep s True by metis
    have "erase_nephews d h root p b = Some (h4, r4, r4, p, True)"
      using on col True st(1-6) by (simp add: erase_nephews_def)
    then show ?thesis using st(7,8) s True by auto
  next
    case False
    then have "is_red n" using nf s by simp
    then obtain m n1 n2 where n: "n = nd d False m n1 n2" using nd_cases [of n d] by (metis is_red_neq_L is_red_nd)
    have "rb_rep h root (plug (C d c' b f (C (op d) c p t k)) (nd d False m n1 n2))" using rs n by simp
    from set_black_spec [OF this] obtain h1 where h1: "rb_set_black h m = Some h1"
        "rb_rep h1 root (plug (C d c' b f (C (op d) c p t k)) (nd d True m n1 n2))" "frame h h1 ?A"
      using s n by (auto simp: set_ino_plug insert_commute Un_ac)
    have "rb_rep h1 root (plug (C (op d) c p t k) (nd d c' b (nd d True m n1 n2) f))" using h1(2) by simp
    from set_red_spec [OF this] obtain h2 where h2: "rb_set_red h1 b = Some h2"
        "rb_rep h2 root (plug (C (op d) c p t k) (nd d False b (nd d True m n1 n2) f))" "frame h1 h2 ?A"
      using s n by (auto simp: set_ino_plug insert_commute Un_ac)
    have "rb_rep h2 root (plug (C (op d) c p t k) (nd (op d) False b f (nd (op d) True m n2 n1)))" using h2(2) by simp
    from rotate_spec [OF this] obtain h3 r3 where h3: "rotate (op d) h2 root b = Some (h3, r3)"
        "rb_rep h3 r3 (plug (C (op d) c p t k) (nd (op d) True m (nd (op d) False b f n2) n1))" "frame h2 h3 ?A"
      using s n by (auto simp: set_ino_plug insert_commute Un_ac)
    have r3: "rb_rep h3 r3 (plug k (nd d c p t (nd d True m n1 (nd d False b n2 f))))" using h3(2) by simp
    obtain qn where qn: "h3 p = Some qn" "kid (op d) qn = m" using rep_node [OF r3] by (metis rt_nd)
    from erase_nephews_finish [OF r3] obtain pn h4 h5 on2 h6 h7 r7 where st: "h3 p = Some pn" "rb_set_color h3 m (rb_color pn) = Some h4"
        "rb_set_black h4 p = Some h5" "h5 m = Some on2" "rb_set_black h5 (kid (op d) on2) = Some h6" "rotate d h6 r3 p = Some (h7, r7)"
        "rb_rep h7 r7 (plug k (nd d c m (nd d True p t n1) (nd d True b n2 f)))" "frame h3 h7 ?A"
      using s n by (auto simp: set_ino_plug insert_commute Un_ac)
    have "erase_nephews d h root p b = Some (h7, r7, r7, p, True)"
      using on col False \<open>is_red n\<close> n h1(1) h2(1) h3(1) qn st(1-6) by (simp add: erase_nephews_def)
    moreover have "frame h h7 ?A" using frame_trans [OF frame_trans [OF frame_trans [OF h1(3) h2(3)] h3(3)] st(8)] .
    ultimately show ?thesis using st(7) s n False by auto
  qed
qed

definition blacken :: "rb_mem \<Rightarrow> u64 \<Rightarrow> u64 \<Rightarrow> (rb_mem \<times> u64) option" where
  "blacken h root node = do { h \<leftarrow> (if node \<noteq> 0 then rb_set_black h node else Some h); Some (h, root) }"

lemma blacken_spec:
  assumes "rb_rep h root (plug k t)"
  shows "\<exists>h'. blacken h root (rt t) = Some (h', root) \<and> rb_rep h' root (plug k (paint True t)) \<and> frame h h' (set (ino (plug k t)))"
proof (cases "t = L")
  case False
  then obtain c a x y where t: "t = nd Lt c a x y" by (rule nd_cases)
  have "rb_rep h root (plug k (nd Lt c a x y))" using assms t by simp
  from set_black_spec [OF this] show ?thesis using rt_eq_0 [OF assms] False t by (auto simp: blacken_def)
qed (use assms in \<open>simp add: blacken_def\<close>)

lemma rb_erase_color_unfold:
  "rb_erase_color h root node parent = do {
     black \<leftarrow> null_or_black h node;
     if black \<and> node \<noteq> root then do {
       pn \<leftarrow> h parent;
       (h, root, node, parent, stop) \<leftarrow> (if rb_left pn = node then erase_half Lt h root parent else erase_half Rt h root parent);
       if stop then blacken h root node else rb_erase_color h root node parent
     } else blacken h root node
   }"
proof (cases "null_or_black h node = Some True \<and> node \<noteq> root \<and> h parent \<noteq> None")
  case True
  then obtain pn where pn: "h parent = Some pn" by blast
  define half where "half = (if rb_left pn = node then erase_half Lt h root parent else erase_half Rt h root parent)"
  have "erase_loop h root node parent = half \<bind> (\<lambda>(h, root, node, parent, stop). if stop then Some (h, root, node) else erase_loop h root node parent)"
    using True pn by (subst erase_loop.simps) (simp add: half_def)
  then show ?thesis using True pn by (cases half) (auto simp: rb_erase_color_def blacken_def simp flip: half_def)
next
  case False
  then show ?thesis unfolding rb_erase_color_def blacken_def
    by (subst erase_loop.simps) (cases "null_or_black h node"; cases "h parent"; auto)
qed

section \<open>Deletion: the loop refines its tree function\<close>

text \<open>The subtree in the hole has one black node less than its context asks for; its root may clash with a red parent.\<close>

definition er_ok :: "ctx \<Rightarrow> rbt \<Rightarrow> bool" where
  "er_ok k t \<longleftrightarrow> cinvc k \<and> cinvh k (Suc (bh t)) \<and> invc (paint True t) \<and> invh t"

lemma bh_neq_L: "Suc n = bh t \<Longrightarrow> t \<noteq> L"
  by auto

lemma er_ok_sibling:
  assumes "er_ok (C d c p s k) t"
  shows "s \<noteq> L" and "is_red s \<Longrightarrow> c \<and> kidt d s \<noteq> L \<and> \<not> is_red (kidt d s) \<and> \<not> is_red (kidt (op d) s)
      \<and> bh (kidt d s) = Suc (bh t) \<and> bh (kidt (op d) s) = Suc (bh t)"
proof -
  have h: "Suc (bh t) = bh s" "invh s" "invc s" using assms by (auto simp: er_ok_def)
  from h(1) show s: "s \<noteq> L" by (rule bh_neq_L)
  assume red: "is_red s"
  obtain b n f where sn: "s = nd d False b n f" using s red by (metis nd_cases is_red_nd)
  then have "bh n = bh s" "bh f = bh s" using h(2) bh_nd [of n f d False b] by auto
  then show "c \<and> kidt d s \<noteq> L \<and> \<not> is_red (kidt d s) \<and> \<not> is_red (kidt (op d) s)
      \<and> bh (kidt d s) = Suc (bh t) \<and> bh (kidt (op d) s) = Suc (bh t)"
    using h sn assms red bh_neq_L [of "bh t" n] by (auto simp: er_ok_def)
qed

text \<open>Passing the deficit on to the parent.\<close>

lemma er_ok_up:
  assumes "er_ok (C d c p s k) t" and "\<not> is_red t" and "\<not> is_red s" and "\<not> is_red (kidt d s)" and "\<not> is_red (kidt (op d) s)"
  shows "er_ok k (nd d c p t (nd d False (rt s) (kidt d s) (kidt (op d) s)))"
proof -
  have h: "Suc (bh t) = bh s" "invh s" "invc s" "invh t" "invc (paint True t)" "cinvc k" "cinvh k (Suc (bh t) + (if c then 1 else 0))"
    using assms(1) by (auto simp: er_ok_def)
  obtain b n f where s: "s = nd d True b n f" using er_ok_sibling(1) [OF assms(1)] assms(3) by (metis nd_cases is_red_nd)
  have nf: "bh n = bh t" "bh f = bh t" using h(1,2) bh_nd [of n f d True b] s by auto
  then have "bh (nd d False b n f) = bh t" by (simp add: bh_nd)
  moreover have "invc t" using h(5) assms(2) by (cases t) auto
  ultimately show ?thesis
    using h nf s assms(2-5) bh_nd [of t "nd d False b n f" d c p] by (auto simp: er_ok_def)
qed

lemma root_in_ctx: "k \<noteq> Top \<Longrightarrow> rt (plug k t) \<in> cset k"
proof (induction k arbitrary: t)
  case (C d c a s k)
  then show ?case by (cases "k = Top") auto
qed simp

lemma rep_root_neq:
  assumes "rb_rep h root (plug (C d c p s k) t)"
  shows "rt t \<noteq> root"
proof -
  have "root \<in> cset (C d c p s k)" "root \<noteq> 0"
    using root_in_ctx [of "C d c p s k" t] rep_plugD(5,6) [OF assms] by (auto simp del: plug.simps cset_simps)
  then show ?thesis using rt_in_ino [of t] rep_plugD(4) [OF assms] by (metis disjoint_iff)
qed

lemma erase_color_exit:
  assumes rep: "rb_rep h root (plug k t)" and "is_red t \<or> k = Top"
  shows "\<exists>h'. rb_erase_color h root (rt t) q = Some (h', root) \<and> rb_rep h' root (plug k (paint True t)) \<and> frame h h' (set (ino (plug k t)))"
proof -
  have "root = rt t" if "k = Top" using that rep by (simp add: rb_rep_def)
  then have "rb_erase_color h root (rt t) q = blacken h root (rt t)"
    using colour_of(2) [OF rep] assms(2) by (subst rb_erase_color_unfold) auto
  then show ?thesis using blacken_spec [OF rep] by simp
qed

lemma erase_color_half:
  assumes rep: "rb_rep h root (plug (C d c p s k) t)" and "\<not> is_red t" and "s \<noteq> L"
  shows "rb_erase_color h root (rt t) p = erase_half d h root p \<bind>
    (\<lambda>(h, root, node, parent, stop). if stop then blacken h root node else rb_erase_color h root node parent)"
proof -
  have rp: "rb_rep h root (plug k (nd d c p t s))" using rep by simp
  obtain pn where pn: "h p = Some pn" "kid d pn = rt t" "kid (op d) pn = rt s" using rep_node [OF rp] by metis
  have "rt s \<noteq> rt t" using rep_sibling [OF rep] assms(3) by simp
  then have "rb_left pn = rt t \<longleftrightarrow> d = Lt" using pn by (cases d) auto
  then show ?thesis
    using pn(1) colour_of(2) [OF rep] assms(2) rep_root_neq [OF rep] by (subst rb_erase_color_unfold) (cases d; simp)
qed

text \<open>The children of a black sibling: either the loop goes on one level up, or it stops with a restored tree.\<close>

lemma erase_nephews_cases:
  assumes rep: "rb_rep h root (plug k (nd d c p t s))" and s: "s \<noteq> L"
    and cont: "\<And>h1. \<lbrakk>\<not> is_red (kidt d s); \<not> is_red (kidt (op d) s);
        rb_rep h1 root (plug k (nd d c p t (nd d False (rt s) (kidt d s) (kidt (op d) s)))); frame h h1 (set (ino (plug k (nd d c p t s))))\<rbrakk> \<Longrightarrow>
      \<exists>h' root'. rb_erase_color h1 root p (cpar k) = Some (h', root')
        \<and> rb_rep h' root' (g (nd d c p t (nd d False (rt s) (kidt d s) (kidt (op d) s)))) \<and> frame h1 h' (set (ino (plug k (nd d c p t s))))"
  shows "\<exists>h' root'. (erase_nephews d h root p (rt s) \<bind>
        (\<lambda>(h, root, node, parent, stop). if stop then blacken h root node else rb_erase_color h root node parent)) = Some (h', root')
      \<and> rb_rep h' root' (fix_nephews d c p t s k g) \<and> frame h h' (set (ino (plug k (nd d c p t s))))"
proof (cases "\<not> is_red (kidt d s) \<and> \<not> is_red (kidt (op d) s)")
  case True
  obtain h1 where h1: "erase_nephews d h root p (rt s) = Some (h1, root, p, cpar k, False)"
      "rb_rep h1 root (plug k (nd d c p t (nd d False (rt s) (kidt d s) (kidt (op d) s))))" "frame h h1 (set (ino (plug k (nd d c p t s))))"
    using erase_nephews_black [OF rep s] True by blast
  from cont [OF _ _ h1(2,3)] True show ?thesis using h1(1) frame_trans [OF h1(3)] by (fastforce simp: fix_nephews_def Let_def)
next
  case False
  let ?T = "if \<not> is_red (kidt (op d) s)
        then nd d c (rt (kidt d s)) (nd d True p t (kidt d (kidt d s))) (nd d True (rt s) (kidt (op d) (kidt d s)) (kidt (op d) s))
        else nd d c (rt s) (nd d True p t (kidt d s)) (paint True (kidt (op d) s))"
  obtain h1 r1 where h1: "erase_nephews d h root p (rt s) = Some (h1, r1, r1, p, True)" "rb_rep h1 r1 (plug k ?T)"
      "frame h h1 (set (ino (plug k (nd d c p t s))))"
    using erase_nephews_red [OF rep s] False by blast
  have "rb_rep h1 r1 (plug Top (plug k ?T))" using h1(2) by simp
  from blacken_spec [OF this] obtain h2 where h2: "blacken h1 r1 (rt (plug k ?T)) = Some (h2, r1)" "rb_rep h2 r1 (paint True (plug k ?T))"
      "frame h1 h2 (set (ino (plug k ?T)))" by auto
  have "r1 = rt (plug k ?T)" using h1(2) by (simp add: rb_rep_def)
  moreover have "fix_nephews d c p t s k g = paint True (plug k ?T)" using False by (auto simp: fix_nephews_def Let_def)
  moreover have "set (ino ?T) \<subseteq> set (ino (nd d c p t s))"
  proof -
    obtain cs b n f where sn: "s = nd d cs b n f" using s by (rule nd_cases)
    show ?thesis
    proof (cases "is_red f")
      case True
      then show ?thesis using sn by auto
    next
      case nf: False
      then have "n \<noteq> L" using False sn is_red_neq_L [of n] by simp
      then obtain cn m n1 n2 where "n = nd d cn m n1 n2" by (rule nd_cases)
      then show ?thesis using sn nf by auto
    qed
  qed
  then have "frame h1 h2 (set (ino (plug k (nd d c p t s))))" using h2(3) by (auto simp: frame_def set_ino_plug)
  ultimately show ?thesis using h1(1) h2(1,2) frame_trans [OF h1(3)] by auto
qed

lemma rb_erase_color_spec:
  assumes "rb_rep h root (plug k t)" and "er_ok k t"
  shows "\<exists>h' root'. rb_erase_color h root (rt t) (cpar k) = Some (h', root') \<and> rb_rep h' root' (er_loop k t)
    \<and> frame h h' (set (ino (plug k t)))"
  using assms
proof (induction k arbitrary: h root t)
  case Top
  then show ?case using erase_color_exit [of h root Top t 0] by auto
next
  case (C d c p s k)
  note sib = er_ok_sibling [OF C.prems(2)]
  show ?case
  proof (cases "is_red t")
    case True
    then show ?thesis using erase_color_exit [of h root "C d c p s k" t p] C.prems(1) by auto
  next
    case nt: False
    note half = erase_color_half [OF C.prems(1) nt sib(1)]
    have rep: "rb_rep h root (plug k (nd d c p t s))" using C.prems(1) by simp
    show ?thesis
    proof (cases "is_red s")
      case False
      have "\<exists>h' root'. (erase_nephews d h root p (rt s) \<bind>
          (\<lambda>(h, root, node, parent, stop). if stop then blacken h root node else rb_erase_color h root node parent)) = Some (h', root')
        \<and> rb_rep h' root' (fix_nephews d c p t s k (er_loop k)) \<and> frame h h' (set (ino (plug k (nd d c p t s))))"
      proof (rule erase_nephews_cases [OF rep sib(1)])
        fix h1 assume nf: "\<not> is_red (kidt d s)" "\<not> is_red (kidt (op d) s)"
          and r1: "rb_rep h1 root (plug k (nd d c p t (nd d False (rt s) (kidt d s) (kidt (op d) s))))"
        obtain c' b n f where s: "s = nd d c' b n f" using sib(1) by (rule nd_cases)
        from C.IH [OF r1 er_ok_up [OF C.prems(2) nt False nf]] show
          "\<exists>h' root'. rb_erase_color h1 root p (cpar k) = Some (h', root')
            \<and> rb_rep h' root' (er_loop k (nd d c p t (nd d False (rt s) (kidt d s) (kidt (op d) s))))
            \<and> frame h1 h' (set (ino (plug k (nd d c p t s))))"
          using s by (simp add: set_ino_plug)
      qed
      then show ?thesis using half nt False erase_sibling_black [OF rep False sib(1)] by (simp add: erase_half_def)
    next
      case True
      let ?k = "C d True (rt s) (kidt (op d) s) k" and ?n = "kidt d s"
      obtain h1 r1 where h1: "erase_sibling d h root p = Some (h1, r1, rt ?n)" "rb_rep h1 r1 (plug ?k (nd d False p t ?n))"
          "frame h h1 (set (ino (plug k (nd d c p t s))))"
        using erase_sibling_red [OF rep True] by blast
      have "\<exists>h' root'. (erase_nephews d h1 r1 p (rt ?n) \<bind>
          (\<lambda>(h, root, node, parent, stop). if stop then blacken h root node else rb_erase_color h root node parent)) = Some (h', root')
        \<and> rb_rep h' root' (fix_nephews d False p t ?n ?k (\<lambda>u. plug ?k (paint True u))) \<and> frame h1 h' (set (ino (plug ?k (nd d False p t ?n))))"
      proof (rule erase_nephews_cases [OF h1(2)])
        show n: "?n \<noteq> L" using sib(2) [OF True] by blast
        fix h2 let ?u = "nd d False p t (nd d False (rt ?n) (kidt d ?n) (kidt (op d) ?n))"
        assume r2: "rb_rep h2 r1 (plug ?k ?u)"
        obtain c' b x y where "?n = nd d c' b x y" using n by (rule nd_cases)
        then show "\<exists>h' root'. rb_erase_color h2 r1 p (cpar ?k) = Some (h', root') \<and> rb_rep h' root' (plug ?k (paint True ?u))
            \<and> frame h2 h' (set (ino (plug ?k (nd d False p t ?n))))"
          using erase_color_exit [OF r2, of "cpar ?k"] by (auto simp: set_ino_plug)
      qed
      moreover have "set (ino (plug ?k (nd d False p t ?n))) = set (ino (plug k (nd d c p t s)))"
      proof -
        obtain c' b x y where "s = nd d c' b x y" using sib(1) by (rule nd_cases)
        then show ?thesis by (auto simp: set_ino_plug)
      qed
      ultimately show ?thesis
        using half nt True h1(1) frame_trans [OF h1(3)] unfolding plug.simps(2) [of d c p s k t]
        by (auto simp: erase_half_def simp del: plug.simps)
    qed
  qed
qed

section \<open>Deletion: the tree function restores the invariants\<close>

lemma paint_rbt_inv: "invc t \<Longrightarrow> invh t \<Longrightarrow> rbt_inv (paint True t)"
  by (simp add: rbt_inv_def paint_inv)

lemma fix_nephews_inv:
  assumes t: "\<not> is_red t" "invc t" "invh t" and s: "s \<noteq> L" "\<not> is_red s" "invc s" "invh s" "bh s = Suc (bh t)"
    and k: "cinvc k" "\<not> c \<Longrightarrow> cblack k" "cinvh k (Suc (bh t) + (if c then 1 else 0))"
    and cont: "\<And>u. \<lbrakk>u = nd d c p t (nd d False (rt s) (kidt d s) (kidt (op d) s)); \<not> is_red (kidt d s); \<not> is_red (kidt (op d) s)\<rbrakk> \<Longrightarrow>
      rbt_inv (g u) \<and> ino (g u) = cl k @ ino u @ cr k"
  shows "rbt_inv (fix_nephews d c p t s k g) \<and> ino (fix_nephews d c p t s k g) = cl k @ ino (nd d c p t s) @ cr k"
proof -
  obtain b n f where sn: "s = nd d True b n f" using s(1,2) by (metis nd_cases is_red_nd)
  have nf: "bh n = bh t" "bh f = bh t" "invc n" "invc f" "invh n" "invh f" using s sn bh_nd [of n f d True b] by auto
  have in_s: "ino (nd d c p t s) = ino (nd d c p t (nd d False b n f))" using sn by (cases d) (simp_all add: nd_def)
  consider "\<not> is_red n" "\<not> is_red f" | "is_red n" "\<not> is_red f" | "is_red f" by blast
  then show ?thesis
  proof cases
    case 1
    then show ?thesis using cont [of "nd d c p t (nd d False b n f)"] sn in_s by (simp add: fix_nephews_def)
  next
    case 2
    then obtain m n1 n2 where n: "n = nd d False m n1 n2" by (metis nd_cases is_red_neq_L is_red_nd)
    let ?T = "nd d c m (nd d True p t n1) (nd d True b n2 f)"
    have n12: "bh n1 = bh t" "bh n2 = bh t" using n nf bh_nd [of n1 n2 d False m] by auto
    then have "bh (nd d True p t n1) = Suc (bh t)" "bh (nd d True b n2 f) = Suc (bh t)" using nf by (simp_all add: bh_nd)
    then have "invc (plug k ?T)" "invh (plug k ?T)" using t nf n n12 k bh_nd [of "nd d True p t n1" "nd d True b n2 f" d c m]
      by (auto simp: invc_plug invh_plug)
    moreover have "ino ?T = ino (nd d c p t s)" using sn n by (cases d) (simp_all add: nd_def)
    moreover have "fix_nephews d c p t s k g = paint True (plug k ?T)" using 2 sn n by (simp add: fix_nephews_def)
    ultimately show ?thesis using paint_rbt_inv by (simp add: ino_plug)
  next
    case 3
    let ?T = "nd d c b (nd d True p t n) (paint True f)"
    have "bh (nd d True p t n) = Suc (bh t)" "bh (paint True f) = Suc (bh t)" using nf 3 by (simp_all add: bh_nd paint_inv)
    then have "invc (plug k ?T)" "invh (plug k ?T)" using t nf k bh_nd [of "nd d True p t n" "paint True f" d c b] paint_inv(1) [of f]
      by (auto simp: invc_plug invh_plug paint_inv)
    moreover have "ino ?T = ino (nd d c p t s)" using sn by (cases d) (simp_all add: nd_def)
    moreover have "fix_nephews d c p t s k g = paint True (plug k ?T)" using 3 sn by (simp add: fix_nephews_def)
    ultimately show ?thesis using paint_rbt_inv by (simp add: ino_plug)
  qed
qed

lemma er_loop_inv:
  assumes "er_ok k t" and "black_top k"
  shows "rbt_inv (er_loop k t) \<and> ino (er_loop k t) = cl k @ ino t @ cr k"
  using assms
proof (induction k arbitrary: t)
  case Top
  then show ?case by (auto simp: er_ok_def rbt_inv_def paint_inv)
next
  case (C d c p s k)
  note sib = er_ok_sibling [OF C.prems(1)] and up = black_top_up [OF C.prems(2)]
  have E: "Suc (bh t) = bh s" "invh s" "invc s" "invh t" "invc (paint True t)" "cinvc k" "cinvh k (Suc (bh t) + (if c then 1 else 0))"
      "\<not> c \<longrightarrow> \<not> is_red s \<and> cblack k" using C.prems(1) by (auto simp: er_ok_def)
  have in_C: "cl k @ ino (nd d c' p t s) @ cr k = cl (C d c p s k) @ ino t @ cr (C d c p s k)" for c' by (cases d) (simp_all add: nd_def)
  show ?case
  proof (cases "is_red t")
    case True
    have "invc (plug (C d c p s k) (paint True t))" "invh (plug (C d c p s k) (paint True t))"
      unfolding invc_plug invh_plug using E True by (auto simp: paint_inv)
    moreover have "\<not> is_red (plug (C d c p s k) (paint True t))" unfolding is_red_plug using C.prems(2) by simp
    ultimately show ?thesis using True by (simp add: rbt_inv_def ino_plug [of "C d c p s k", simplified])
  next
    case nt: False
    then have t: "invc t" using E(5) by (cases t) auto
    show ?thesis
    proof (cases "is_red s")
      case False
      have "rbt_inv (fix_nephews d c p t s k (er_loop k)) \<and> ino (fix_nephews d c p t s k (er_loop k)) = cl k @ ino (nd d c p t s) @ cr k"
        by (rule fix_nephews_inv [OF nt t E(4) sib(1) False E(3,2)]) (use E C.IH er_ok_up [OF C.prems(1) nt False] up in auto)
      then show ?thesis using nt False in_C by simp
    next
      case True
      let ?k = "C d True (rt s) (kidt (op d) s) k" and ?n = "kidt d s"
      note S = sib(2) [OF True]
      obtain b n f where s: "s = nd d False b n f" using sib(1) True by (metis nd_cases is_red_nd)
      have "rbt_inv (fix_nephews d False p t ?n ?k (\<lambda>u. plug ?k (paint True u)))
          \<and> ino (fix_nephews d False p t ?n ?k (\<lambda>u. plug ?k (paint True u))) = cl ?k @ ino (nd d False p t ?n) @ cr ?k"
      proof (rule fix_nephews_inv [OF nt t E(4)])
        fix u assume u: "u = nd d False p t (nd d False (rt ?n) (kidt d ?n) (kidt (op d) ?n))" "\<not> is_red (kidt d ?n)" "\<not> is_red (kidt (op d) ?n)"
        show "rbt_inv (plug ?k (paint True u)) \<and> ino (plug ?k (paint True u)) = cl ?k @ ino u @ cr ?k"
        proof -
          obtain m x y where n: "?n = nd d True m x y" using S by (metis nd_cases is_red_nd)
          let ?u = "nd d True p t (nd d False m x y)"
          have xy: "bh x = bh t" "bh y = bh t" "invc x" "invc y" "invh x" "invh y"
            using S s n E(2,3) bh_nd [of x y d True m] by auto
          then have "bh (nd d False m x y) = bh t" by (simp add: bh_nd)
          then have "invc ?u" "invh ?u" "bh ?u = Suc (bh t)" "paint True u = ?u"
            using xy t E(4) u n bh_nd [of t "nd d False m x y" d True p] by auto
          then have "invc (plug ?k (paint True u))" "invh (plug ?k (paint True u))"
            unfolding invc_plug invh_plug using S s E by auto
          moreover have "\<not> is_red (plug ?k (paint True u))" unfolding is_red_plug using up by (cases k) auto
          ultimately show ?thesis by (simp add: rbt_inv_def ino_plug [of ?k, simplified])
        qed
      qed (use S s E in auto)
      moreover have "cl ?k @ ino (nd d False p t ?n) @ cr ?k = cl k @ ino (nd d c p t s) @ cr k"
        using s by (cases d) (simp_all add: nd_def)
      ultimately show ?thesis using nt True in_C by simp
    qed
  qed
qed

section \<open>Deletion: unlinking the node\<close>

text \<open>Subtrees seen from an arbitrary parent.\<close>

fun cp :: "u64 \<Rightarrow> ctx \<Rightarrow> u64" where
  "cp p Top = p"
| "cp p (C d c a s k) = a"

fun cly :: "(u64 \<Rightarrow> anode option) \<Rightarrow> u64 \<Rightarrow> ctx \<Rightarrow> u64 \<Rightarrow> bool" where
  "cly v p Top q \<longleftrightarrow> True"
| "cly v p (C d c a s k) q \<longleftrightarrow> v a = Some (mk d (cp p k) c q (rt s)) \<and> lay v a s \<and> cly v p k a"

lemma lay_plug_at: "lay v p (plug k t) \<longleftrightarrow> lay v (cp p k) t \<and> cly v p k (rt t)"
  by (induction k arbitrary: t) auto

lemma cly_cong: "(\<And>q. q \<in> cset k \<Longrightarrow> v' q = v q) \<Longrightarrow> cly v' p k a = cly v p k a"
proof (induction k arbitrary: a)
  case (C d c b s k)
  then have "lay v' b s = lay v b s" by (intro lay_cong) simp
  with C show ?case by simp
qed simp

fun comp :: "ctx \<Rightarrow> ctx \<Rightarrow> ctx" where
  "comp Top k' = k'"
| "comp (C d c a s k) k' = C d c a s (comp k k')"

lemma plug_comp: "plug (comp k k') t = plug k' (plug k t)"
  by (induction k arbitrary: t) auto

lemma cl_cr_comp: "cl (comp k k') = cl k' @ cl k" "cr (comp k k') = cr k @ cr k'"
proof (induction k)
  case (C d c a s k)
  { case 1 then show ?case using C by (cases d) auto }
  { case 2 then show ?case using C by (cases d) auto }
qed simp_all

lemma comp_inv:
  "cinvc (comp k (C d c a s k')) = cinvc (comp k (C d c b s k'))" "cinvh (comp k (C d c a s k')) n = cinvh (comp k (C d c b s k')) n"
  "black_top (comp k (C d c a s k')) = black_top (comp k (C d c b s k'))"
proof -
  show "cinvc (comp k (C d c a s k')) = cinvc (comp k (C d c b s k'))"
  proof (induction k)
    case (C d1 c1 a1 s1 k1)
    moreover have "cblack (comp k1 (C d c a s k')) = cblack (comp k1 (C d c b s k'))" by (cases k1) auto
    ultimately show ?case by simp
  qed simp
  show "cinvh (comp k (C d c a s k')) n = cinvh (comp k (C d c b s k')) n" by (induction k arbitrary: n) auto
  have "black_top (C d c a s k') = black_top (C d c b s k')" by (cases k') auto
  moreover have "black_top (C e c' x y (C d c a s k')) = black_top (C d c a s k')" for e c' x y a by simp
  ultimately show "black_top (comp k (C d c a s k')) = black_top (comp k (C d c b s k'))"
  proof (induction k)
    case (C d1 c1 a1 s1 k1)
    then show ?case by (cases k1) auto
  qed simp
qed

lemma leftmost:
  assumes "r \<noteq> L"
  shows "\<exists>k c m x. r = plug k (N L c m x) \<and> cl k = [] \<and> ext Lt r = m"
proof -
  have "\<exists>k' c m x. plug k r = plug k' (N L c m x) \<and> cl k' = cl k \<and> ext Lt r = m" for k
    using assms
  proof (induction r arbitrary: k)
    case (N l c a r)
    show ?case
    proof (cases "l = L")
      case True
      then show ?thesis by (intro exI [of _ k]) (auto simp: ext_def)
    next
      case False
      then have "ino l \<noteq> []" by (cases l) auto
      then show ?thesis using N(1) [OF False, of "C Lt c a r k"] by (auto simp: nd_def ext_def)
    qed
  qed simp
  from this [of Top] show ?thesis by auto
qed

lemma rb_color_1: "rb_color n = 1 \<longleftrightarrow> rb_is_black n"
  by (simp add: rb_is_black_bit rb_color_def and_one_eq bit_0 mod2_eq_if)

text \<open>What is left after a node of colour \<open>c\<close> with at most the child \<open>t\<close> went from the hole of \<open>k\<close>.\<close>

definition rem_ok :: "ctx \<Rightarrow> bool \<Rightarrow> rbt \<Rightarrow> bool" where
  "rem_ok k c t \<longleftrightarrow> cinvc k \<and> cinvh k (if c then 1 else 0) \<and> bh t = 0 \<and> invc t \<and> invh t \<and> black_top k
     \<and> (\<not> c \<longrightarrow> \<not> is_red t)"

lemma rem_okI:
  assumes "rbt_inv (plug k (nd d c a t L))"
  shows "rem_ok k c t"
  using assms bh_nd [of t L d c a] unfolding rbt_inv_def invc_plug invh_plug is_red_plug
  by (cases "k = Top") (auto simp: rem_ok_def)

lemma erase_finish_spec:
  assumes rep: "rb_rep h root (plug k t)" and ok: "rem_ok k c t"
  shows "\<exists>h' root' u. erase_finish h root (if c then 1 else 0) (rt t) (cpar k) = Some (h', root')
    \<and> rb_rep h' root' u \<and> rbt_inv u \<and> ino u = cl k @ ino t @ cr k \<and> frame h h' (set (ino (plug k t)))"
proof (cases c)
  case True
  have "er_ok k t" using ok True by (auto simp: er_ok_def rem_ok_def paint_inv)
  then show ?thesis
    using rb_erase_color_spec [OF rep] er_loop_inv [of k t] ok True by (fastforce simp: erase_finish_def rem_ok_def)
next
  case False
  have "invc (plug k t)" "invh (plug k t)" "\<not> is_red (plug k t)"
    unfolding invc_plug invh_plug is_red_plug using ok False by (auto simp: rem_ok_def)
  then show ?thesis using rep False by (auto simp: erase_finish_def rbt_inv_def ino_plug)
qed

lemma rep_ctx_facts:
  assumes "rb_rep h root (plug k t)"
  shows "aligned (cpar k)" and "0 \<notin> cset k" and "0 \<notin> set (ino t)" and "cpar k \<in> cset k \<or> k = Top" and "cpar k \<notin> set (ino t)"
proof -
  show "0 \<notin> cset k" "0 \<notin> set (ino t)" using rep_plugD(5) [OF assms, of 0] by auto
  show "cpar k \<in> cset k \<or> k = Top" by (cases k) auto
  then show "aligned (cpar k)" "cpar k \<notin> set (ino t)"
    using rep_plugD(4) [OF assms] rep_plugD(5) [OF assms, of "cpar k"] \<open>0 \<notin> set (ino t)\<close> by auto
qed

lemma color_word: "rb_is_black n = c \<Longrightarrow> rb_color n = (if c then 1 else 0)"
  by (auto simp: rb_is_black_bit rb_color_def and_one_eq bit_0 mod2_eq_if)

lemma erase_splice_spec:
  assumes rep: "rb_rep h root (plug k (nd d c a t L))" and inv: "rbt_inv (plug k (nd d c a t L))"
  shows "\<exists>h' root' u. erase_splice h root a (rt t) = Some (h', root') \<and> rb_rep h' root' u \<and> rbt_inv u
    \<and> ino u = cl k @ ino t @ cr k \<and> frame h h' (set (ino (plug k (nd d c a t L))))"
proof -
  note D = rep_plugD [OF rep] and F = rep_ctx_facts [OF rep]
  obtain n where n: "h a = Some n" "rb_parent n = cpar k" "rb_is_black n = c" "a \<noteq> 0" using rep_node [OF rep] by metis
  have lt: "lay (view h) a t" and at: "a \<notin> set (ino t)" "distinct (ino t)" "a \<notin> cset k" "set (ino t) \<inter> cset k = {}" using D(1,3,4) by auto
  obtain h1 where h1: "(if rt t \<noteq> 0 then rb_set_parent h (rt t) (cpar k) else Some h) = Some h1" "\<And>x. x \<noteq> rt t \<Longrightarrow> view h1 x = view h x"
      "rt t = 0 \<Longrightarrow> h1 = h" "\<And>l c' q r. rt t \<noteq> 0 \<Longrightarrow> t = N l c' q r \<Longrightarrow> view h1 q = Some (An (cpar k) c' (rt l) (rt r))"
    using setpar_spec [OF lt F(1)] by blast
  have o1: "view h1 x = view h x" if "x \<notin> set (ino t)" for x using that h1(2,3) rt_in_ino [of t] by metis
  have "clay (view h1) k a = clay (view h) k a" by (rule clay_cong) (use o1 at(4) in auto)
  then have "clay (view h1) k a" using D(2) by simp
  from relink_spec [OF this n(4) D(7) at(3) F(2), of Lt root "rt t"] obtain h2 where
    h2: "relink Lt h1 root (cpar k) a (rt t) = Some (h2, if k = Top then rt t else root)" "\<And>x. x \<noteq> cpar k \<Longrightarrow> view h2 x = view h1 x"
      "k = Top \<Longrightarrow> h2 = h1" "\<And>e c q s k'. k = C e c q s k' \<Longrightarrow> view h2 q = Some (mk e (cpar k') c (rt t) (rt s))" by blast
  have in_t: "view h2 x = view h1 x" if "x \<in> set (ino t)" for x using that h2(2) [of x] F(5) by auto
  have lay2: "lay (view h2) (cpar k) t"
  proof (rule lay_reparent [OF lt at(2)])
    show "view h2 q = view h q" if "q \<in> set (ino t)" "q \<noteq> rt t" for q using that in_t h1(2) by simp
    show "view h2 q = Some (An (cpar k) c' (rt l) (rt r))" if t: "t = N l c' q r" for l c' q r
      using h1(4) [OF _ t] in_t [of q] t F(3) by auto
  qed
  moreover have clay2: "clay (view h2) k (rt t)"
  proof (rule clay_relink [OF D(2) D(7)])
    show "view h2 x = view h x" if "x \<in> cset k" "x \<noteq> cpar k" for x using that h2(2) [of x] o1 [of x] at(4) by auto
  qed (use h2(4) in blast)
  moreover have "root = rt (plug k t) \<or> k = Top" using D(6) rt_plug [of k t] rt_plug [of k "nd d c a t L"] by (cases "k = Top") auto
  ultimately have r2: "rb_rep h2 (if k = Top then rt t else root) (plug k t)"
    using D(5,7) at by (auto simp: rb_rep_def lay_plug ino_plug cset_def)
  have fr: "frame h h2 (set (ino (plug k (nd d c a t L))))"
    unfolding frame_def set_ino_plug
  proof (intro allI impI)
    fix q assume "q \<notin> set (ino (nd d c a t L)) \<union> cset k"
    then show "view h2 q = view h q" using h2(2,3) o1 F(4) by (metis Un_iff insertCI set_ino_nd)
  qed
  have "frame h2 h' (set (ino (plug k t))) \<Longrightarrow> frame h2 h' (set (ino (plug k (nd d c a t L))))" for h'
    by (auto simp: frame_def set_ino_plug)
  then show ?thesis
    using erase_finish_spec [OF r2 rem_okI [OF inv]] n h1(1) h2(1) color_word [OF n(3)] frame_trans [OF fr]
    by (fastforce simp: erase_splice_def Let_def)
qed

section \<open>Deletion: a node with two children\<close>

text \<open>The successor \<open>m\<close> takes over the colour, the parent and the left child of the deleted node \<open>a\<close>.\<close>

lemma take_place:
  assumes on: "view h a = Some (mk Lt q c (rt l) x)" "h a = Some on" and vm: "view h m = Some (mk Lt pm cm y (rt r'))"
    and ll: "lay (view h) a l" "l \<noteq> L" "distinct (ino l)" "0 \<notin> set (ino l)" and lr: "lay (view h) m r'" and m: "aligned m" "m \<notin> set (ino l)" "m \<notin> set (ino r')"
    and ds: "set (ino l) \<inter> set (ino r') = {}"
  shows "\<exists>h1 h2 h3. rb_upd (\<lambda>r. r\<lparr>rb_parent_color := rb_parent_color on\<rparr>) h m = Some h1 \<and> set_kid Lt h1 m (rb_left on) = Some h2
    \<and> rb_set_parent h2 (rb_left on) m = Some h3 \<and> lay (view h3) q (N l c m r')
    \<and> (\<forall>z. z \<noteq> m \<and> z \<notin> set (ino l) \<longrightarrow> view h3 z = view h z)"
proof -
  have o: "rb_parent on = q" "rb_is_black on = c" "rb_left on = rt l" using view_get [OF on(1)] on(2) by (metis kid.simps(1) option.inject)+
  obtain mn where mn: "h m = Some mn" "rb_right mn = rt r'" using view_get [OF vm] by (metis kid.simps(2) op.simps(1))
  define h1 where "h1 = h(m \<mapsto> mn\<lparr>rb_parent_color := rb_parent_color on\<rparr>)"
  have h1: "rb_upd (\<lambda>r. r\<lparr>rb_parent_color := rb_parent_color on\<rparr>) h m = Some h1"
      "view h1 = (view h)(m \<mapsto> mk Lt q c (rb_left mn) (rt r'))"
    using mn o by (auto simp: rb_upd_def h1_def view_def aview_def mk_def rb_parent_def rb_is_black_def rb_color_def fun_eq_iff)
  have "view h1 m = Some (mk Lt q c (rb_left mn) (rt r'))" by (simp add: h1(2))
  from view_set(5) [OF this, of "rt l"] obtain h2 where h2: "set_kid Lt h1 m (rt l) = Some h2" "view h2 = (view h1)(m \<mapsto> mk Lt q c (rt l) (rt r'))" by auto
  have v2: "view h2 = (view h)(m \<mapsto> mk Lt q c (rt l) (rt r'))" by (simp add: h2(2) h1(2))
  have "lay (view h2) a l" by (rule lay_frame [OF ll(1)]) (use m(2) in \<open>auto simp: v2\<close>)
  from setpar_spec [OF this m(1)] obtain h3 where h3: "(if rt l \<noteq> 0 then rb_set_parent h2 (rt l) m else Some h2) = Some h3"
      "\<And>z. z \<noteq> rt l \<Longrightarrow> view h3 z = view h2 z" "\<And>l' c' b r. rt l \<noteq> 0 \<Longrightarrow> l = N l' c' b r \<Longrightarrow> view h3 b = Some (An m c' (rt l') (rt r))" by blast
  have rl: "rt l \<noteq> 0" "rt l \<in> set (ino l)" using ll(2,4) rt_in [of l] by auto
  have out: "view h3 z = view h z" if "z \<noteq> m" "z \<notin> set (ino l)" for z using that h3(2) [of z] rl by (auto simp: v2)
  have "lay (view h3) m l"
  proof (rule lay_reparent [OF ll(1,3)])
    show "view h3 z = view h z" if "z \<in> set (ino l)" "z \<noteq> rt l" for z using that h3(2) [of z] m(2) by (auto simp: v2)
  qed (use h3(3) rl in blast)
  moreover have "lay (view h3) m r'" by (rule lay_frame [OF lr]) (rule out, use m(3) ds in auto)
  moreover have "view h3 m = Some (An q c (rt l) (rt r'))" using h3(2) [of m] m(2) rl(2) by (auto simp: v2 mk_def)
  ultimately show ?thesis using h1(1) h2(1) h3(1) out o(3) rl(1) by auto
qed

text \<open>Unlinking the leftmost node of the right subtree, when it is not the root of that subtree.\<close>

lemma unlink_leftmost:
  assumes la: "view h a = Some (mk Lt q c x (rt r))" and lr: "lay (view h) a r" and r: "r = plug kr (N L cm m mr)" "kr \<noteq> Top" "cl kr = []"
    and d: "distinct (ino r)" "0 \<notin> set (ino r)" "a \<notin> set (ino r)" "\<And>z. z \<in> set (ino r) \<Longrightarrow> aligned z" "aligned a"
  shows "\<exists>h1 h2 on h3 h4. (if rt mr \<noteq> 0 then rb_set_parent h (rt mr) (cpar kr) else Some h) = Some h1
    \<and> set_kid Lt h1 (cpar kr) (rt mr) = Some h2 \<and> h2 a = Some on \<and> set_kid Rt h2 m (rb_right on) = Some h3
    \<and> rb_set_parent h3 (rb_right on) m = Some h4
    \<and> lay (view h4) m (plug kr mr) \<and> rt (plug kr mr) = rt r
    \<and> (\<exists>pm cm' y. view h4 m = Some (mk Lt pm cm' y (rt r))) \<and> (\<forall>z. z \<notin> set (ino r) \<longrightarrow> view h4 z = view h z)"
proof -
  obtain c1 p s kr' where kr: "kr = C Lt c1 p s kr'" using r(2,3) by (cases kr) (auto, metis (full_types) cl.simps(3) side.exhaust append_is_Nil_conv list.distinct(1))
  have "lay (view h) a (plug kr (N L cm m mr))" using lr r(1) by simp
  then have lm: "lay (view h) p (N L cm m mr)" and ck: "cly (view h) a kr m" unfolding lay_plug_at using kr by simp_all
  have vm: "view h m = Some (mk Lt p cm 0 (rt mr))" and lmr: "lay (view h) m mr" using lm by (simp_all add: mk_def)
  have ino_r: "set (ino r) = insert m (set (ino mr) \<union> cset kr)" using r(1) by (auto simp: set_ino_plug)
  have ds: "distinct (ino mr)" "m \<notin> set (ino mr)" "m \<notin> cset kr" "set (ino mr) \<inter> cset kr = {}" "p \<in> cset kr" "p \<notin> set (ino s) \<union> cset kr'"
    using d(1) r(1) kr by (auto simp: ino_plug cset_def)
  have "aligned p" using d(4) [of p] ino_r ds(5) by simp
  from setpar_spec [OF lmr this] obtain h1 where h1: "(if rt mr \<noteq> 0 then rb_set_parent h (rt mr) p else Some h) = Some h1" "\<And>z. z \<noteq> rt mr \<Longrightarrow> view h1 z = view h z"
      "rt mr = 0 \<Longrightarrow> h1 = h" "\<And>l c b r. rt mr \<noteq> 0 \<Longrightarrow> mr = N l c b r \<Longrightarrow> view h1 b = Some (An p c (rt l) (rt r))"
    by blast
  have o1: "view h1 z = view h z" if "z \<notin> set (ino mr)" for z using that h1(2,3) rt_in_ino [of mr] by metis
  have vp: "view h1 p = Some (mk Lt (cp a kr') c1 m (rt s))" using ck kr o1 [of p] ds(4,5) by auto
  from view_set(5) [OF this, of "rt mr"] obtain h2 where h2: "set_kid Lt h1 p (rt mr) = Some h2"
      "view h2 = (view h1)(p \<mapsto> mk Lt (cp a kr') c1 (rt mr) (rt s))" by auto
  have va2: "view h2 a = Some (mk Lt q c x (rt r))" using la o1 [of a] d(3) ino_r ds(5) by (auto simp: h2(2))
  obtain on where on: "h2 a = Some on" "rb_right on = rt r" using view_get [OF va2] by (metis kid.simps(2) op.simps(1))
  have "view h2 m = Some (mk Rt p cm (rt mr) 0)" using vm o1 [of m] ds(2,3,5) mk_op [of Lt p cm "rt mr" 0] by (auto simp: h2(2))
  from view_set(5) [OF this, of "rt r"] obtain h3 where h3: "set_kid Rt h2 m (rt r) = Some h3" "view h3 = (view h2)(m \<mapsto> mk Rt p cm (rt r) 0)" by auto
  let ?r = "plug kr mr"
  have rr: "rt ?r = rt r" using rt_plug [of kr mr] rt_plug [of kr "N L cm m mr"] r(1,2) by simp
  have "lay (view h3) p mr"
  proof (rule lay_reparent [OF lmr ds(1)])
    show "view h3 z = view h z" if "z \<in> set (ino mr)" "z \<noteq> rt mr" for z using that h1(2) ds(2,4,5) by (auto simp: h3(2) h2(2))
    show "view h3 b = Some (An p c (rt l) (rt r))" if mr: "mr = N l c b r" for l c b r
    proof -
      have "b \<noteq> 0" "b \<noteq> m" "b \<noteq> p" using mr d(2) ino_r ds by auto
      then show ?thesis using h1(4) [OF _ mr] mr by (simp add: h3(2) h2(2))
    qed
  qed
  moreover have "cly (view h3) a kr (rt mr)"
  proof -
    have "view h3 z = view h z" if "z \<in> set (ino s) \<union> cset kr'" for z
      using that o1 [of z] ds(3,4,6) kr by (auto simp: h3(2) h2(2))
    then have "lay (view h3) p s = lay (view h) p s" "cly (view h3) a kr' p = cly (view h) a kr' p" by (auto intro!: lay_cong cly_cong)
    then show ?thesis using ck kr ds(3,5) by (auto simp: h3(2) h2(2))
  qed
  ultimately have l3: "lay (view h3) a ?r" unfolding lay_plug_at using kr by simp
  have sr: "set (ino ?r) = set (ino r) - {m}" using ino_r ds by (auto simp: set_ino_plug)
  have dr: "distinct (ino ?r)" using d(1) r(1) by (auto simp: ino_plug)
  have "aligned m" using d(4) ino_r by simp
  from setpar_spec [OF l3 this] obtain h4 where h4: "(if rt r \<noteq> 0 then rb_set_parent h3 (rt r) m else Some h3) = Some h4"
      "\<And>z. z \<noteq> rt r \<Longrightarrow> view h4 z = view h3 z" "\<And>l c b s. rt r \<noteq> 0 \<Longrightarrow> ?r = N l c b s \<Longrightarrow> view h4 b = Some (An m c (rt l) (rt s))"
    unfolding rr by blast
  have r0: "rt r \<in> set (ino ?r)" using root_in_ctx [OF r(2), of mr] rr by (simp add: set_ino_plug)
  then have r0: "rt r \<noteq> 0" "rt r \<in> set (ino ?r)" using d(2) sr by (metis DiffD1, simp)
  have "lay (view h4) m ?r"
  proof (rule lay_reparent [OF l3 dr])
    show "view h4 z = view h3 z" if "z \<in> set (ino ?r)" "z \<noteq> rt ?r" for z using that h4(2) rr by simp
  qed (use h4(3) r0 in blast)
  moreover have vm4: "view h4 m = Some (mk Lt p cm 0 (rt r))" using h4(2) [of m] r0(2) sr mk_op [of Lt p cm "rt r" 0] by (auto simp: h3(2))
  moreover have "view h4 z = view h z" if "z \<notin> set (ino r)" for z
  proof -
    have "z \<noteq> m" "z \<notin> set (ino mr)" "z \<noteq> p" using that ino_r ds(5) by auto
    moreover have "z \<noteq> rt r" using that r0(2) sr by (metis DiffD1)
    ultimately show ?thesis using h4(2) [of z] o1 [of z] by (simp add: h3(2) h2(2))
  qed
  ultimately show ?thesis
  proof (intro exI conjI)
    show "(if rt mr \<noteq> 0 then rb_set_parent h (rt mr) (cpar kr) else Some h) = Some h1" "set_kid Lt h1 (cpar kr) (rt mr) = Some h2"
      unfolding kr cpar.simps using h1(1) h2(1) by blast+
    show "h2 a = Some on" "set_kid Rt h2 m (rb_right on) = Some h3" "rb_set_parent h3 (rb_right on) m = Some h4"
      using on h3(1) h4(1) r0(1) by simp_all
  qed (use rr vm4 in auto)
qed

text \<open>The statements between the search for the successor and the takeover, in both cases.\<close>

lemma unlink_successor:
  assumes va: "view h a = Some (mk Lt q c (rt l) (rt r))" and lr: "lay (view h) a r" and r: "r = plug kr (N L cm m mr)" "cl kr = []"
    and d: "distinct (ino r)" "0 \<notin> set (ino r)" "a \<notin> set (ino r)" "\<And>z. z \<in> set (ino r) \<Longrightarrow> aligned z" "aligned a"
    and nn: "h m = Some nn"
  shows "\<exists>h'. (if rb_parent nn = a then Some (h, m)
        else do {
          h \<leftarrow> (if rb_right nn \<noteq> 0 then rb_set_parent h (rb_right nn) (rb_parent nn) else Some h);
          h \<leftarrow> set_kid Lt h (rb_parent nn) (rb_right nn);
          on \<leftarrow> h a;
          h \<leftarrow> set_kid Rt h m (rb_right on);
          h \<leftarrow> rb_set_parent h (rb_right on) m;
          Some (h, rb_parent nn)
        }) = Some (h', if kr = Top then m else cpar kr)
    \<and> rb_right nn = rt mr \<and> rb_is_black nn = cm \<and> lay (view h') m (plug kr mr)
    \<and> (\<exists>pm cm' y. view h' m = Some (mk Lt pm cm' y (rt (plug kr mr)))) \<and> (\<forall>z. z \<notin> set (ino r) \<longrightarrow> view h' z = view h z)"
proof -
  have "lay (view h) a (plug kr (N L cm m mr))" using lr r(1) by simp
  then have vm: "view h m = Some (mk Lt (cp a kr) cm 0 (rt mr))" and lmr: "lay (view h) m mr" unfolding lay_plug_at by (simp_all add: mk_def)
  have n: "rb_parent nn = cp a kr" "rb_is_black nn = cm" "rb_right nn = rt mr"
    using view_get [OF vm] nn by (metis kid.simps(2) op.simps(1) option.inject)+
  show ?thesis
  proof (cases "kr = Top")
    case True
    then show ?thesis using n vm lmr by auto
  next
    case False
    then have p: "cp a kr = cpar kr" "cpar kr \<noteq> a" using d(3) r(1) by (cases kr; auto simp: set_ino_plug)+
    from unlink_leftmost [OF va lr r(1) False r(2) d] obtain h1 h2 on h3 h4 where
      st: "(if rt mr \<noteq> 0 then rb_set_parent h (rt mr) (cpar kr) else Some h) = Some h1" "set_kid Lt h1 (cpar kr) (rt mr) = Some h2"
        "h2 a = Some on" "set_kid Rt h2 m (rb_right on) = Some h3" "rb_set_parent h3 (rb_right on) m = Some h4"
        "lay (view h4) m (plug kr mr)" "rt (plug kr mr) = rt r" "\<exists>pm cm' y. view h4 m = Some (mk Lt pm cm' y (rt r))"
        "\<forall>z. z \<notin> set (ino r) \<longrightarrow> view h4 z = view h z" by blast
    then show ?thesis using n p False by (cases "rt mr = 0") auto
  qed
qed

lemma erase_successor_spec:
  assumes rep: "rb_rep h root (plug k (N l c a r))" and inv: "rbt_inv (plug k (N l c a r))" and lr: "l \<noteq> L" "r \<noteq> L"
  shows "\<exists>h' root' u. erase_successor h root a = Some (h', root') \<and> rb_rep h' root' u \<and> rbt_inv u
    \<and> ino u = cl k @ ino l @ ino r @ cr k \<and> frame h h' (set (ino (plug k (N l c a r))))"
proof -
  note D = rep_plugD [OF rep] and F = rep_ctx_facts [OF rep]
  have va: "view h a = Some (mk Lt (cpar k) c (rt l) (rt r))" and ll: "lay (view h) a l" and lr': "lay (view h) a r"
    using D(1) by (simp_all add: mk_def)
  obtain n where n: "h a = Some n" "rb_parent n = cpar k" "rb_right n = rt r" using view_get [OF va] by (metis kid.simps(2) op.simps(1))
  have ds: "a \<notin> set (ino l)" "a \<notin> set (ino r)" "set (ino l) \<inter> set (ino r) = {}" "distinct (ino l)" "distinct (ino r)" "a \<notin> cset k"
      "set (ino l) \<inter> cset k = {}" "set (ino r) \<inter> cset k = {}" "a \<noteq> 0" "aligned a"
    using D(3,4) D(5) [of a] by auto
  obtain kr cm m mr where r: "r = plug kr (N L cm m mr)" "cl kr = []" and m: "ext Lt r = m" using leftmost [OF lr(2)] by blast
  have "rb_rep h root (plug (C Rt c a l k) r)" using rep by (simp add: nd_def)
  from rb_descend_spec [OF this lr(2)] m have desc: "descend Lt h (rt r) = Some m" by simp
  have mr: "m \<in> set (ino r)" using r(1) by (simp add: set_ino_plug)
  obtain h1 where h1: "relink Lt h root (cpar k) a m = Some (h1, if k = Top then m else root)" "\<And>x. x \<noteq> cpar k \<Longrightarrow> view h1 x = view h x"
      "k = Top \<Longrightarrow> h1 = h" "\<And>e c q s k'. k = C e c q s k' \<Longrightarrow> view h1 q = Some (mk e (cpar k') c m (rt s))"
    using relink_spec [of h k a Lt root m] D(2,7) ds(6,9) F(2) by auto
  have o1: "view h1 x = view h x" if "x = a \<or> x \<in> set (ino l) \<or> x \<in> set (ino r)" for x using that h1(2) [of x] F(5) by auto
  have va1: "view h1 a = Some (mk Lt (cpar k) c (rt l) (rt r))" using va o1 by simp
  have lr1: "lay (view h1) a r" by (rule lay_frame [OF lr']) (use o1 in auto)
  have al: "aligned z" if "z \<in> set (ino r)" for z using D(5) [of z] that by auto
  have "view h1 m \<noteq> None"
    using lr1 r(1) unfolding r(1) lay_plug_at by simp
  then obtain nn where nn: "h1 m = Some nn" by (auto simp: view_def)
  have zr: "0 \<notin> set (ino r)" "0 \<notin> set (ino l)" using F(3) by auto
  obtain h2 where h2: "(if rb_parent nn = a then Some (h1, m)
        else do {
          h \<leftarrow> (if rb_right nn \<noteq> 0 then rb_set_parent h1 (rb_right nn) (rb_parent nn) else Some h1);
          h \<leftarrow> set_kid Lt h (rb_parent nn) (rb_right nn);
          on \<leftarrow> h a;
          h \<leftarrow> set_kid Rt h m (rb_right on);
          h \<leftarrow> rb_set_parent h (rb_right on) m;
          Some (h, rb_parent nn)
        }) = Some (h2, if kr = Top then m else cpar kr)" "rb_right nn = rt mr" "rb_is_black nn = cm" "lay (view h2) m (plug kr mr)"
      "\<exists>pm cm' y. view h2 m = Some (mk Lt pm cm' y (rt (plug kr mr)))" "\<And>z. z \<notin> set (ino r) \<Longrightarrow> view h2 z = view h1 z"
    using unlink_successor [OF va1 lr1 r ds(5) zr(1) ds(2) al ds(10) nn] by blast
  have va2: "view h2 a = Some (mk Lt (cpar k) c (rt l) (rt r))" using va1 h2(6) ds(2) by simp
  obtain on where on: "h2 a = Some on" using view_eq_Some [OF va2] by blast
  obtain pm cm' y where vm2: "view h2 m = Some (mk Lt pm cm' y (rt (plug kr mr)))" using h2(5) by blast
  have ll2: "lay (view h2) a l"
  proof (rule lay_frame [OF ll])
    show "view h2 q = view h q" if "q \<in> set (ino l)" for q using that h2(6) [of q] o1 [of q] ds(3) by auto
  qed
  have mi: "m \<notin> set (ino l)" "m \<notin> set (ino (plug kr mr))" "set (ino l) \<inter> set (ino (plug kr mr)) = {}" "aligned m"
    using mr ds(3,5) al r(1) by (auto simp: ino_plug)
  from take_place [OF va2 on vm2 ll2 lr(1) ds(4) zr(2) h2(4) mi(4,1,2,3)] obtain h3 h4 h5 where
    h5: "rb_upd (\<lambda>r. r\<lparr>rb_parent_color := rb_parent_color on\<rparr>) h2 m = Some h3" "set_kid Lt h3 m (rb_left on) = Some h4"
      "rb_set_parent h4 (rb_left on) m = Some h5" "lay (view h5) (cpar k) (N l c m (plug kr mr))"
      "\<forall>z. z \<noteq> m \<and> z \<notin> set (ino l) \<longrightarrow> view h5 z = view h2 z" by blast
  let ?K = "comp kr (C Rt c m l k)" and ?r = "if k = Top then m else root"
  have o5: "view h5 z = view h1 z" if "z \<notin> set (ino l) \<union> set (ino r)" for z using that h5(5) h2(6) [of z] mr by (metis UnCI)
  have "clay (view h5) k m"
  proof (rule clay_relink [OF D(2,7)])
    show "view h5 x = view h x" if "x \<in> cset k" "x \<noteq> cpar k" for x using that o5 [of x] h1(2) ds(7,8) by auto
    show "view h5 q = Some (mk e (cpar k') c' m (rt s))" if k: "k = C e c' q s k'" for e c' q s k'
      using o5 [of q] h1(4) [OF k] ds(7,8) k by auto
  qed
  moreover have eq: "ino (N l c m (plug kr mr)) = ino l @ ino r" using r by (simp add: ino_plug)
  moreover have rr: "root = rt (plug k (N l c m (plug kr mr))) \<or> k = Top"
    using D(6) rt_plug [of k "N l c a r"] rt_plug [of k "N l c m (plug kr mr)"] by (cases "k = Top") auto
  moreover have "distinct (cl k @ (ino l @ ino r) @ cr k)" "\<And>z. z \<in> set (cl k @ (ino l @ ino r) @ cr k) \<Longrightarrow> z \<noteq> 0 \<and> aligned z"
    using rep unfolding rb_rep_def ino_plug by auto
  ultimately have "rb_rep h5 ?r (plug k (N l c m (plug kr mr)))"
    unfolding rb_rep_def lay_plug ino_plug eq using h5(4) by auto
  then have r5: "rb_rep h5 ?r (plug ?K mr)" by (simp add: plug_comp nd_def)
  have "rbt_inv (plug (comp kr (C Rt c a l k)) (nd Rt cm m mr L))" using inv r(1) by (simp add: plug_comp nd_def)
  from rem_okI [OF this] have ok: "rem_ok ?K cm mr"
    unfolding rem_ok_def comp_inv(1) [of kr Rt c m l k a] comp_inv(2) [of kr Rt c m l k _ a] comp_inv(3) [of kr Rt c m l k a] .
  have cK: "cpar ?K = (if kr = Top then m else cpar kr)" by (cases kr) auto
  have fr: "frame h h5 (set (ino (plug k (N l c a r))))"
    unfolding frame_def
  proof (intro allI impI)
    fix q assume "q \<notin> set (ino (plug k (N l c a r)))"
    then have "q \<notin> set (ino l) \<union> set (ino r)" "q \<notin> cset k" by (auto simp: set_ino_plug)
    then show "view h5 q = view h q" using o5 [of q] h1(2,3) F(4) by metis
  qed
  from erase_finish_spec [OF r5 ok] obtain h' root' u where u: "erase_finish h5 ?r (if cm then 1 else 0) (rt mr) (cpar ?K) = Some (h', root')"
      "rb_rep h' root' u" "rbt_inv u" "ino u = cl ?K @ ino mr @ cr ?K" "frame h5 h' (set (ino (plug ?K mr)))" by blast
  have "erase_successor h root a = Some (h', root')"
    unfolding erase_successor_def Let_def
    using n desc h1(1) nn h2(1) on h5(1-3) u(1) h2(2) color_word [OF h2(3)] cK by (simp split del: if_split)
  moreover have "ino u = cl k @ ino l @ ino r @ cr k" using u(4) r by (simp add: cl_cr_comp ino_plug)
  moreover have "frame h5 h' (set (ino (plug k (N l c a r))))" using u(5) r(1) by (auto simp: frame_def plug_comp set_ino_plug nd_def)
  ultimately show ?thesis using u(2,3) frame_trans [OF fr] by blast
qed

lemma rb_erase_spec:
  assumes rep: "rb_rep h root (plug k (N l c a r))" and inv: "rbt_inv (plug k (N l c a r))"
  shows "\<exists>h' root' u. rb_erase h root a = Some (h', root') \<and> rb_rep h' root' u \<and> rbt_inv u
    \<and> ino u = cl k @ ino l @ ino r @ cr k \<and> frame h h' (set (ino (plug k (N l c a r))))"
proof -
  have rl: "rb_rep h root (plug k (nd Lt c a l r))" using rep by (simp add: nd_def)
  obtain n where n: "h a = Some n" "rb_left n = rt l" "rb_right n = rt r" using rep_node [OF rl] by (metis kid.simps op.simps(1))
  have z: "rt l = 0 \<longleftrightarrow> l = L" "rt r = 0 \<longleftrightarrow> r = L"
    using rt_eq_0 [of h root "C Lt c a r k" l] rt_eq_0 [of h root "C Rt c a l k" r] rep by (simp_all add: nd_def)
  consider "l = L" | "l \<noteq> L" "r = L" | "l \<noteq> L" "r \<noteq> L" by blast
  then show ?thesis
  proof cases
    case 1
    then show ?thesis using erase_splice_spec [of h root k Rt c a r] rep inv n z by (simp add: rb_erase_def nd_def)
  next
    case 2
    then show ?thesis using erase_splice_spec [of h root k Lt c a l] rep inv n z by (simp add: rb_erase_def nd_def)
  next
    case 3
    then show ?thesis using erase_successor_spec [OF rep inv] n z by (simp add: rb_erase_def)
  qed
qed

section \<open>Properties\<close>

text \<open>
  (C7) Deletion: when the heap holds a red-black tree, \<open>rb_erase\<close> of any of its nodes returns, and the heap then holds a red-black tree
  with the same nodes in the same order except the deleted one; no node outside the tree is touched.
\<close>

theorem rb_erase_correct:
  assumes "rb_rep h root t" and "rbt_inv t" and "ino t = xs @ a # ys"
  shows "\<exists>h' root' u. rb_erase h root a = Some (h', root') \<and> rb_rep h' root' u \<and> rbt_inv u \<and> ino u = xs @ ys
    \<and> frame h h' (set (ino t))"
proof -
  obtain k l c r where t: "t = plug k (N l c a r)" "xs = cl k @ ino l" "ys = ino r @ cr k"
    using split_focus [of t xs a ys] assms(1,3) unfolding rb_rep_def by blast
  then show ?thesis using rb_erase_spec [of h root k l c a r] assms(1,2) by simp
qed

text \<open>A root with two red children, in the heap.\<close>

definition three_nodes :: rb_mem where
  "three_nodes = [16 \<mapsto> \<lparr>rb_parent_color = 1, rb_right = 24, rb_left = 8\<rparr>, 8 \<mapsto> \<lparr>rb_parent_color = 16, rb_right = 0, rb_left = 0\<rparr>,
     24 \<mapsto> \<lparr>rb_parent_color = 16, rb_right = 0, rb_left = 0\<rparr>]"

definition three_tree :: rbt where
  "three_tree = N (N L False 8 L) True 16 (N L False 24 L)"

lemma three_nodes: "rb_rep three_nodes 16 three_tree" "rbt_inv three_tree" "ino three_tree = [8, 16, 24]"
  by (simp_all add: three_nodes_def three_tree_def rb_rep_def view_def aview_def rb_parent_def rb_is_black_def rb_color_def
      aligned_def rbt_inv_def)

theorem rb_erase_correct_witness:
  "\<exists>h' root' u. rb_erase three_nodes 16 16 = Some (h', root') \<and> rb_rep h' root' u \<and> rbt_inv u \<and> ino u = [8, 24]"
  using rb_erase_correct [OF three_nodes(1,2), of "[8]" 16 "[24]"] three_nodes(3) by auto

text \<open>
  (C22) Traversal and replacement: on a heap that holds a tree, \<open>rb_first\<close> and \<open>rb_last\<close> return its ends in order (\<open>NULL\<close> for the empty
  tree), \<open>rb_next\<close> and \<open>rb_prev\<close> the neighbours of a node (\<open>NULL\<close> at the ends), and \<open>rb_replace_node\<close> puts a new node in the
  place of an old one, with its colour, so a red-black tree stays one.
\<close>

theorem rb_traversal_correct:
  assumes "rb_rep h root t" and "ino t = xs @ a # ys" and "h b \<noteq> None" and "b \<noteq> 0" and "aligned b" and "b \<notin> set (ino t)"
  shows "rb_first h root = Some (hd (ino t)) \<and> rb_last h root = Some (last (ino t))
    \<and> rb_next h a = Some (if ys = [] then 0 else hd ys) \<and> rb_prev h a = Some (if xs = [] then 0 else last xs)
    \<and> (\<exists>h' root' u. rb_replace_node h root a b = Some (h', root') \<and> rb_rep h' root' u \<and> ino u = xs @ b # ys
         \<and> (rbt_inv t \<longrightarrow> rbt_inv u) \<and> frame h h' (insert b (set (ino t))))
    \<and> rb_first h 0 = Some 0 \<and> rb_last h 0 = Some 0"
proof -
  obtain k l c r where t: "t = plug k (N l c a r)" "xs = cl k @ ino l" "ys = ino r @ cr k"
    using split_focus [of t xs a ys] assms(1,2) unfolding rb_rep_def by blast
  have "rbt_inv (plug k (N l c b r)) = rbt_inv t" by (simp add: rbt_inv_def t(1) invc_plug invh_plug is_red_plug)
  moreover have "ino (plug k (N l c b r)) = xs @ b # ys" using t by (simp add: ino_plug)
  moreover have "\<exists>h' root'. rb_replace_node h root a b = Some (h', root') \<and> rb_rep h' root' (plug k (N l c b r)) \<and> frame h h' (insert b (set (ino t)))"
    using rb_replace_node_spec [of h root k l c a r b] assms(1,3-6) t(1) by blast
  ultimately have "\<exists>h' root' u. rb_replace_node h root a b = Some (h', root') \<and> rb_rep h' root' u \<and> ino u = xs @ b # ys
      \<and> (rbt_inv t \<longrightarrow> rbt_inv u) \<and> frame h h' (insert b (set (ino t)))" by blast
  then show ?thesis
    using rb_first_spec [OF assms(1)] rb_last_spec [OF assms(1)] rep_next [OF assms(1,2)] assms(2)
    by (simp add: rb_first_def [of h 0] rb_last_def [of h 0])
qed

theorem rb_traversal_correct_witness:
  "rb_next (three_nodes(32 \<mapsto> \<lparr>rb_parent_color = 0, rb_right = 0, rb_left = 0\<rparr>)) 8 = Some 16"
proof -
  let ?h = "three_nodes(32 \<mapsto> \<lparr>rb_parent_color = 0, rb_right = 0, rb_left = 0\<rparr>)"
  have "rb_rep ?h 16 three_tree"
    by (simp add: three_nodes_def three_tree_def rb_rep_def view_def aview_def rb_parent_def rb_is_black_def rb_color_def aligned_def)
  then show ?thesis using rb_traversal_correct [of ?h 16 three_tree "[]" 8 "[16, 24]" 32] three_nodes(3) by (simp add: aligned_def)
qed

end
