(* ===== verification/MemPool.thy ===== *)
theory MemPool
  imports RbErase Bitmap
begin

text \<open>
  \<open>mycache/src/mem/minipwr_mem_pool.c\<close> and \<open>.h\<close>: a pool of 4096-byte bodies.  Each body belongs to a \<open>minipwr_mem_node_t\<close> with one bit per
  eight bytes; the nodes form a red-black tree ordered by the address of their bodies (\<open>rbtree.c\<close>), and a bump pointer and the last freed
  address guide the allocation.

  Memory is a 64-bit address space.  A node is its two parts at the same address, the link (offset 0) in \<open>links\<close> and the rest in \<open>mnodes\<close>;
  \<open>blocks\<close> has the live blocks of the C allocator with their sizes, and \<open>bytes\<close> the memory itself.  The results of \<open>malloc\<close> and
  \<open>posix_memalign\<close> are taken in turn from \<open>mallocs\<close>, where \<open>0\<close> (or nothing left) is a failure.  Freeing ends the life of
  the node at that address.  Shifts wrap around; a product that overflows \<open>int\<close> faults.
\<close>

section \<open>Definitions: the C allocator\<close>

definition DIV_ROUND_UP_FOR_8BYTES :: "int \<Rightarrow> int" where
  "DIV_ROUND_UP_FOR_8BYTES n = drop_bit 3 (n + 7)"

definition MEM_BITMAP_SIZE :: nat where
  "MEM_BITMAP_SIZE = 8"

definition MEM_NODE_BODY_SIZE :: int where
  "MEM_NODE_BODY_SIZE = push_bit 2 1024"

text \<open>\<open>sizeof\<close> of the two structs below on a 64-bit machine.\<close>

definition MEM_NODE_SIZE :: int where
  "MEM_NODE_SIZE = 96"

definition MEM_POOL_SIZE :: int where
  "MEM_POOL_SIZE = 80"

definition ptr_add :: "u64 \<Rightarrow> int \<Rightarrow> u64" where
  "ptr_add p n = p + word_of_int n"

definition ptr_diff :: "u64 \<Rightarrow> u64 \<Rightarrow> int" where
  "ptr_diff p q = sint (p - q)"

record mem_node =
  bitmap_t :: "u64 list"
  preal :: u64

record mem_pool_t =
  current_series_node :: u64
  latest_free_node :: u64
  current_series_ptr :: u64
  latest_free_ptr :: u64
  pool_total_size :: u64
  pool_left_series_size :: u64
  pool_node_nb :: u64
  rbroot :: u64
  expand_node :: u64

text \<open>The global \<open>mem_pool\<close>: null, the address of a live pool, or the address of a pool that was freed.\<close>

datatype pool_ptr = NoPool | Pool u64 mem_pool_t | FreedPool

record mem_state =
  mallocs :: "u64 list"
  bytes :: "u64 \<Rightarrow> byte"
  blocks :: "u64 \<Rightarrow> int option"
  links :: rb_mem
  mnodes :: "u64 \<Rightarrow> mem_node option"
  mem_pool :: pool_ptr

definition minipwr_stdalloc :: "mem_state \<Rightarrow> int \<Rightarrow> mem_state \<times> u64" where
  "minipwr_stdalloc s sz = (case mallocs s of [] \<Rightarrow> (s, 0)
     | p # ps \<Rightarrow> (if p = 0 then s\<lparr>mallocs := ps\<rparr> else s\<lparr>mallocs := ps, blocks := (blocks s)(p \<mapsto> sz)\<rparr>, p))"

definition memset0 :: "mem_state \<Rightarrow> u64 \<Rightarrow> int \<Rightarrow> mem_state" where
  "memset0 s p n = s\<lparr>bytes := (\<lambda>a. if uint (a - p) < n then 0 else bytes s a)\<rparr>"

definition minipwr_stdcalloc :: "mem_state \<Rightarrow> int \<Rightarrow> mem_state \<times> u64" where
  "minipwr_stdcalloc s sz =
     (let (s, p) = minipwr_stdalloc s sz in (if p \<noteq> 0 then memset0 s p sz else s, p))"

definition minipwr_stdfree :: "mem_state \<Rightarrow> u64 \<Rightarrow> mem_state option" where
  "minipwr_stdfree s p = (if p = 0 then Some s else do {
     require (blocks s p \<noteq> None);
     Some (s\<lparr>blocks := (blocks s)(p := None), links := (links s)(p := None), mnodes := (mnodes s)(p := None)\<rparr>)
   })"

text \<open>\<open>posix_memalign\<close> takes the next result too; on an error the pointer is set to \<open>NULL\<close>.\<close>

definition minipwr_memalign :: "mem_state \<Rightarrow> int \<Rightarrow> int \<Rightarrow> mem_state \<times> u64" where
  "minipwr_memalign s alignment sz = minipwr_stdalloc s sz"

section \<open>Definitions: nodes and their tree\<close>

text \<open>A new struct has whatever the memory had: eight bytes, least significant first, make a word.\<close>

definition raw_long :: "mem_state \<Rightarrow> u64 \<Rightarrow> u64" where
  "raw_long s p = horner_sum (\<lambda>i. ucast (bytes s (p + of_nat i))) 256 [0..<8]"

definition raw_node :: "mem_state \<Rightarrow> u64 \<Rightarrow> mem_state" where
  "raw_node s p = s\<lparr>
     links := (links s)(p \<mapsto> \<lparr>rb_parent_color = raw_long s p, rb_right = raw_long s (p + 8), rb_left = raw_long s (p + 16)\<rparr>),
     mnodes := (mnodes s)(p \<mapsto> \<lparr>bitmap_t = map (\<lambda>i. raw_long s (p + 24 + 8 * of_nat i)) [0..<MEM_BITMAP_SIZE], preal = raw_long s (p + 88)\<rparr>)\<rparr>"

definition mnode_upd :: "(mem_node \<Rightarrow> mem_node) \<Rightarrow> mem_state \<Rightarrow> u64 \<Rightarrow> mem_state option" where
  "mnode_upd f s a = do { n \<leftarrow> mnodes s a; Some (s\<lparr>mnodes := (mnodes s)(a \<mapsto> f n)\<rparr>) }"

definition set_bits :: "mem_state \<Rightarrow> u64 \<Rightarrow> u64 list \<Rightarrow> mem_state option" where
  "set_bits s a bm = mnode_upd (\<lambda>n. n\<lparr>bitmap_t := bm\<rparr>) s a"

definition minipwr_init_mem_node :: "mem_state \<Rightarrow> (mem_state \<times> u64) option" where
  "minipwr_init_mem_node s = do {
     let (s, p) = minipwr_stdalloc s MEM_NODE_SIZE;
     if p = 0 then Some (s, 0) else do {
       let s = raw_node s p;
       let (s, body) = minipwr_memalign s 16 MEM_NODE_BODY_SIZE;
       s \<leftarrow> mnode_upd (\<lambda>n. n\<lparr>preal := body\<rparr>) s p;
       if body = 0 then Some (s, 0) else do {
         n \<leftarrow> mnodes s p;
         bm \<leftarrow> bm_zero True (bitmap_t n) (MEM_BITMAP_SIZE * 64);
         s \<leftarrow> set_bits s p bm;
         Some (s, p)
       }
     }
   }"

partial_function (option) search_loop :: "mem_state \<Rightarrow> u64 \<Rightarrow> u64 \<Rightarrow> u64 option" where
  "search_loop s node pindex =
     (if node \<noteq> 0 then do {
        data \<leftarrow> mnodes s node;
        n \<leftarrow> links s node;
        if pindex < preal data then search_loop s (rb_left n) pindex
        else if ptr_add (preal data) MEM_NODE_BODY_SIZE < pindex then search_loop s (rb_right n) pindex
        else Some node
      } else Some 0)"

definition minipwr_mem_node_search :: "mem_state \<Rightarrow> u64 \<Rightarrow> u64 \<Rightarrow> u64 option" where
  "minipwr_mem_node_search s root pindex = search_loop s root pindex"

text \<open>The walk of \<open>minipwr_mem_node_insert\<close>: the parent and the link to write, or \<open>None\<close> for its \<open>return 0\<close>.\<close>

partial_function (option) insert_walk ::
    "mem_state \<Rightarrow> u64 \<Rightarrow> u64 \<Rightarrow> u64 \<Rightarrow> (u64 \<times> side) option \<Rightarrow> (u64 \<times> (u64 \<times> side) option) option option" where
  "insert_walk s data new parent rb_link =
     (if new \<noteq> 0 then do {
        this \<leftarrow> mnodes s new;
        n \<leftarrow> links s new;
        d \<leftarrow> mnodes s data;
        if preal d < preal this then insert_walk s data (rb_left n) new (Some (new, Lt))
        else if ptr_add (preal this) MEM_NODE_BODY_SIZE < preal d then insert_walk s data (rb_right n) new (Some (new, Rt))
        else Some None
      } else Some (Some (parent, rb_link)))"

text \<open>The state, the new value of \<open>root->rb_node\<close> and the result.\<close>

definition minipwr_mem_node_insert :: "mem_state \<Rightarrow> u64 \<Rightarrow> u64 \<Rightarrow> (mem_state \<times> u64 \<times> int) option" where
  "minipwr_mem_node_insert s root data = do {
     place \<leftarrow> insert_walk s data root 0 None;
     (case place of None \<Rightarrow> Some (s, root, 0)
      | Some (parent, rb_link) \<Rightarrow> do {
          (h, root) \<leftarrow> rb_link_node (links s) root data parent rb_link;
          (h, root) \<leftarrow> rb_insert_color h root data;
          Some (s\<lparr>links := h\<rparr>, root, 1)
        })
   }"

definition minipwr_mem_node_del :: "mem_state \<Rightarrow> u64 \<Rightarrow> u64 \<Rightarrow> (mem_state \<times> u64) option" where
  "minipwr_mem_node_del s root pindex = do {
     data \<leftarrow> minipwr_mem_node_search s root pindex;
     if data \<noteq> 0 then do {
       (h, root) \<leftarrow> rb_erase (links s) root data;
       s \<leftarrow> minipwr_stdfree (s\<lparr>links := h\<rparr>) data;
       Some (s, root)
     } else Some (s, root)
   }"

text \<open>The keys that are printed.\<close>

partial_function (option) foreach_loop :: "mem_state \<Rightarrow> u64 \<Rightarrow> u64 list \<Rightarrow> u64 list option" where
  "foreach_loop s node out =
     (if node \<noteq> 0 then do {
        n \<leftarrow> mnodes s node;
        next_node \<leftarrow> rb_next (links s) node;
        foreach_loop s next_node (out @ [preal n])
      } else Some out)"

definition minipwr_mem_node_foreach :: "mem_state \<Rightarrow> u64 \<Rightarrow> u64 list option" where
  "minipwr_mem_node_foreach s root = do {
     node \<leftarrow> rb_first (links s) root;
     foreach_loop s node []
   }"

section \<open>Definitions: the pool\<close>

fun the_pool :: "pool_ptr \<Rightarrow> mem_pool_t option" where
  "the_pool (Pool a q) = Some q"
| "the_pool _ = None"

fun pool_upd :: "(mem_pool_t \<Rightarrow> mem_pool_t) \<Rightarrow> pool_ptr \<Rightarrow> pool_ptr" where
  "pool_upd f (Pool a q) = Pool a (f q)"
| "pool_upd f p = p"

definition set_pool :: "(mem_pool_t \<Rightarrow> mem_pool_t) \<Rightarrow> mem_state \<Rightarrow> mem_state option" where
  "set_pool f s = do { q \<leftarrow> the_pool (mem_pool s); Some (s\<lparr>mem_pool := pool_upd f (mem_pool s)\<rparr>) }"

definition raw_pool :: "mem_state \<Rightarrow> u64 \<Rightarrow> mem_pool_t" where
  "raw_pool s p = \<lparr>current_series_node = raw_long s p, latest_free_node = raw_long s (p + 8), current_series_ptr = raw_long s (p + 16),
     latest_free_ptr = raw_long s (p + 24), pool_total_size = raw_long s (p + 32), pool_left_series_size = raw_long s (p + 40),
     pool_node_nb = raw_long s (p + 48), rbroot = raw_long s (p + 56), expand_node = raw_long s (p + 64)\<rparr>"

function create_loop :: "mem_state \<Rightarrow> int \<Rightarrow> int \<Rightarrow> (mem_state \<times> int) option" where
  "create_loop s i num =
     (if i < num then do {
        (s, pnode) \<leftarrow> minipwr_init_mem_node s;
        if pnode = 0 then Some (s, - 1) else do {
          q \<leftarrow> the_pool (mem_pool s);
          (s, root, inserted) \<leftarrow> minipwr_mem_node_insert s (rbroot q) pnode;
          s \<leftarrow> set_pool (\<lambda>q. q\<lparr>rbroot := root\<rparr>) s;
          n \<leftarrow> mnodes s pnode;
          s \<leftarrow> (if i = 0 then set_pool (\<lambda>q. q\<lparr>current_series_node := pnode, latest_free_node := pnode,
                   current_series_ptr := preal n, latest_free_ptr := preal n\<rparr>) s
                else Some s);
          create_loop s (i + 1) num
        }
      } else Some (s, 0))"
  by pat_completeness auto
termination by (relation "measure (\<lambda>(s, i, num). nat (num - i))") auto

declare create_loop.simps [simp del]

text \<open>\<open>spin_err\<close> is the result of \<open>pthread_spin_init\<close>; the lock is never taken.\<close>

definition minipwr_create_pool :: "mem_state \<Rightarrow> int \<Rightarrow> int \<Rightarrow> (mem_state \<times> int) option" where
  "minipwr_create_pool s num spin_err =
     (if num \<le> 0 then Some (s, - 1)
      else do {
        let (s, p) = minipwr_stdalloc s MEM_POOL_SIZE;
        require (p \<noteq> 0);
        require (num * MEM_NODE_BODY_SIZE < 2 ^ 31);
        let total = word_of_int (num * MEM_NODE_BODY_SIZE);
        let s = s\<lparr>mem_pool := Pool p ((raw_pool s p)\<lparr>pool_total_size := total, pool_left_series_size := total,
                   pool_node_nb := word_of_int num, expand_node := 0, rbroot := 0\<rparr>)\<rparr>;
        (s, res) \<leftarrow> create_loop s 0 num;
        Some (s, if res \<noteq> 0 then - 1 else if spin_err \<noteq> 0 then - 1 else 0)
      })"

partial_function (option) destroy_loop :: "mem_state \<Rightarrow> u64 \<Rightarrow> mem_state option" where
  "destroy_loop s node =
     (if node \<noteq> 0 then do {
        data \<leftarrow> mnodes s node;
        s \<leftarrow> minipwr_stdfree s (preal data);
        next_node \<leftarrow> rb_next (links s) node;
        q \<leftarrow> the_pool (mem_pool s);
        (h, root) \<leftarrow> rb_erase (links s) (rbroot q) node;
        s \<leftarrow> set_pool (\<lambda>q. q\<lparr>rbroot := root\<rparr>) (s\<lparr>links := h\<rparr>);
        destroy_loop s next_node
      } else Some s)"

definition minipwr_destroy_pool :: "mem_state \<Rightarrow> mem_state option" where
  "minipwr_destroy_pool s = do {
     q \<leftarrow> the_pool (mem_pool s);
     node \<leftarrow> rb_first (links s) (rbroot q);
     s \<leftarrow> destroy_loop s node;
     (case mem_pool s of Pool a q \<Rightarrow> do {
        s \<leftarrow> minipwr_stdfree s a;
        Some (s\<lparr>mem_pool := FreedPool\<rparr>)
      } | _ \<Rightarrow> None)
   }"

text \<open>The four attempts of \<open>minipwr_palloc\<close>, last first: a new node, the next node, the bump pointer, the last freed address.\<close>

definition palloc_expand :: "mem_state \<Rightarrow> int \<Rightarrow> int \<Rightarrow> (mem_state \<times> u64) option" where
  "palloc_expand s howmany sz = do {
     (s, new_pnode) \<leftarrow> minipwr_init_mem_node s;
     if new_pnode = 0 then Some (s, 0) else do {
       n \<leftarrow> mnodes s new_pnode;
       bm \<leftarrow> bm_setbit_region (bitmap_t n) 0 howmany;
       s \<leftarrow> set_bits s new_pnode bm;
       q \<leftarrow> the_pool (mem_pool s);
       (s, root, inserted) \<leftarrow> minipwr_mem_node_insert s (rbroot q) new_pnode;
       s \<leftarrow> set_pool (\<lambda>q. q\<lparr>rbroot := root,
              current_series_node := new_pnode,
              current_series_ptr := ptr_add (preal n) sz,
              pool_left_series_size := pool_left_series_size q + (word_of_int MEM_NODE_SIZE - word_of_int sz),
              pool_total_size := pool_total_size q + word_of_int MEM_NODE_SIZE,
              pool_node_nb := pool_node_nb q + 1\<rparr>) s;
       Some (s, preal n)
     }
   }"

definition palloc_next :: "mem_state \<Rightarrow> u64 \<Rightarrow> int \<Rightarrow> int \<Rightarrow> (mem_state \<times> u64) option" where
  "palloc_next s mem_node howmany sz = do {
     next_rb_node \<leftarrow> rb_next (links s) mem_node;
     if next_rb_node \<noteq> 0 then do {
       n \<leftarrow> mnodes s next_rb_node;
       bm \<leftarrow> bm_setbit_region (bitmap_t n) 0 howmany;
       s \<leftarrow> set_bits s next_rb_node bm;
       s \<leftarrow> set_pool (\<lambda>q. q\<lparr>current_series_node := next_rb_node,
              current_series_ptr := ptr_add (preal n) sz,
              pool_left_series_size := pool_left_series_size q - word_of_int sz\<rparr>) s;
       Some (s, preal n)
     } else palloc_expand s howmany sz
   }"

definition palloc_series :: "mem_state \<Rightarrow> int \<Rightarrow> int \<Rightarrow> (mem_state \<times> u64) option" where
  "palloc_series s howmany sz = do {
     q \<leftarrow> the_pool (mem_pool s);
     let mem_node = current_series_node q;
     n \<leftarrow> mnodes s mem_node;
     let pos = c_int (ptr_diff (current_series_ptr q) (preal n));
     if pos + sz < MEM_NODE_BODY_SIZE then do {
       bm \<leftarrow> bm_setbit_region (bitmap_t n) (DIV_ROUND_UP_FOR_8BYTES pos) howmany;
       s \<leftarrow> set_bits s mem_node bm;
       s \<leftarrow> set_pool (\<lambda>q'. q'\<lparr>current_series_ptr := ptr_add (current_series_ptr q') sz,
              pool_left_series_size := pool_left_series_size q' - word_of_int sz,
              latest_free_ptr := (if latest_free_ptr q = current_series_ptr q then ptr_add (latest_free_ptr q') sz
                                  else latest_free_ptr q')\<rparr>) s;
       Some (s, current_series_ptr q)
     } else palloc_next s mem_node howmany sz
   }"

definition palloc_latest :: "mem_state \<Rightarrow> int \<Rightarrow> int \<Rightarrow> (mem_state \<times> u64) option" where
  "palloc_latest s howmany sz = do {
     q \<leftarrow> the_pool (mem_pool s);
     n \<leftarrow> mnodes s (latest_free_node q);
     let pos = c_int (DIV_ROUND_UP_FOR_8BYTES (ptr_diff (latest_free_ptr q) (preal n)));
     used \<leftarrow> bm_isset_region (bitmap_t n) pos howmany;
     if used = 0 then do {
       bm \<leftarrow> bm_setbit_region (bitmap_t n) pos howmany;
       s \<leftarrow> set_bits s (latest_free_node q) bm;
       s \<leftarrow> (if latest_free_ptr q = current_series_ptr q
             then set_pool (\<lambda>q. q\<lparr>current_series_ptr := ptr_add (current_series_ptr q) sz,
                    pool_left_series_size := pool_left_series_size q - word_of_int sz\<rparr>) s
             else Some s);
       Some (s, latest_free_ptr q)
     } else palloc_series s howmany sz
   }"

definition minipwr_palloc :: "mem_state \<Rightarrow> int \<Rightarrow> (mem_state \<times> u64) option" where
  "minipwr_palloc s howmany =
     (let sz = c_int (push_bit 3 howmany) in
      if mem_pool s = NoPool then Some (s, 0)
      else if MEM_NODE_BODY_SIZE < sz then Some (minipwr_stdalloc s sz)
      else if 0 \<ge> sz then Some (s, 0)
      else palloc_latest s howmany sz)"

definition minipwr_pcalloc :: "mem_state \<Rightarrow> int \<Rightarrow> (mem_state \<times> u64) option" where
  "minipwr_pcalloc s sz = do {
     (s, p) \<leftarrow> minipwr_palloc s sz;
     Some (if p \<noteq> 0 then memset0 s p sz else s, 0)
   }"

definition minipwr_pfree :: "mem_state \<Rightarrow> u64 \<Rightarrow> int \<Rightarrow> mem_state option" where
  "minipwr_pfree s p howmany =
     (let sz = c_int (push_bit 3 howmany) in
      if p = 0 then Some s
      else do {
        q \<leftarrow> the_pool (mem_pool s);
        mem_node \<leftarrow> minipwr_mem_node_search s (rbroot q) p;
        if mem_node = 0 then minipwr_stdfree s p
        else do {
          n \<leftarrow> mnodes s mem_node;
          let pos = c_int (DIV_ROUND_UP_FOR_8BYTES (ptr_diff p (preal n)));
          bm \<leftarrow> bm_clrbit_region (bitmap_t n) pos howmany;
          s \<leftarrow> set_bits s mem_node bm;
          s \<leftarrow> set_pool (\<lambda>q. q\<lparr>latest_free_node := mem_node, latest_free_ptr := p\<rparr>) s;
          if current_series_ptr q = ptr_add p sz
          then set_pool (\<lambda>q. q\<lparr>current_series_ptr := p, pool_left_series_size := pool_left_series_size q + word_of_int sz\<rparr>) s
          else Some s
        }
      })"

definition mini_palloc :: "mem_state \<Rightarrow> int \<Rightarrow> (mem_state \<times> u64) option" where
  "mini_palloc s sz = minipwr_palloc s (DIV_ROUND_UP_FOR_8BYTES sz)"

definition mini_pcalloc :: "mem_state \<Rightarrow> int \<Rightarrow> (mem_state \<times> u64) option" where
  "mini_pcalloc s sz = minipwr_pcalloc s (DIV_ROUND_UP_FOR_8BYTES sz)"

definition mini_pfree :: "mem_state \<Rightarrow> u64 \<Rightarrow> int \<Rightarrow> mem_state option" where
  "mini_pfree s p sizeof_p = minipwr_pfree s p (DIV_ROUND_UP_FOR_8BYTES sizeof_p)"

declare search_loop.simps [code] insert_walk.simps [code] foreach_loop.simps [code] destroy_loop.simps [code]

end
