(* ===== verification/MemTree.thy ===== *)
theory MemTree
  imports MemPool
begin

text \<open>
  The tree of the memory pool: the nodes of a pool are a red-black tree in the order of their bodies, and the search, the insertion, the
  deletion and the traversals of \<open>minipwr_mem_pool.c\<close> are the operations of such a tree.
\<close>

section \<open>The tree of bodies\<close>

definition key :: "mem_state \<Rightarrow> u64 \<Rightarrow> int" where
  "key s a = (case mnodes s a of Some n \<Rightarrow> uint (preal n) | None \<Rightarrow> 0)"

definition node_ok :: "mem_state \<Rightarrow> u64 \<Rightarrow> bool" where
  "node_ok s a \<longleftrightarrow> (\<exists>n. mnodes s a = Some n \<and> length (bitmap_t n) = 8 \<and> preal n \<noteq> 0 \<and> uint (preal n) + 4096 < 2 ^ 64)"

text \<open>The nodes of the tree are in the order of their bodies, which do not touch each other.\<close>

definition mem_tree :: "mem_state \<Rightarrow> u64 \<Rightarrow> rbt \<Rightarrow> bool" where
  "mem_tree s root t \<longleftrightarrow> rb_rep (links s) root t \<and> rbt_inv t \<and> (\<forall>a \<in> set (ino t). node_ok s a)
     \<and> sorted_wrt (\<lambda>a b. key s a + 4096 < key s b) (ino t)"

definition covers :: "mem_state \<Rightarrow> u64 \<Rightarrow> u64 \<Rightarrow> bool" where
  "covers s p a \<longleftrightarrow> key s a \<le> uint p \<and> uint p \<le> key s a + 4096"

lemma body_size [simp]: "MEM_NODE_BODY_SIZE = 4096"
  by (simp add: MEM_NODE_BODY_SIZE_def)

lemma uint_ptr_add: "0 \<le> n \<Longrightarrow> uint p + n < 2 ^ 64 \<Longrightarrow> uint (ptr_add p n) = uint p + n"
proof -
  assume n: "0 \<le> n" "uint p + n < 2 ^ 64"
  then have "n < 2 ^ 64" using uint_ge_0 [of p] by linarith
  then have "n mod 2 ^ 64 = n" "(uint p + n) mod 2 ^ 64 = uint p + n" using n by simp_all
  then show ?thesis by (simp add: ptr_add_def uint_word_ariths uint_word_of_int)
qed

lemma node_okE:
  assumes "node_ok s a"
  obtains n where "mnodes s a = Some n" and "length (bitmap_t n) = 8" and "preal n \<noteq> 0" and "key s a = uint (preal n)"
    and "key s a + 4096 < 2 ^ 64" and "uint (ptr_add (preal n) 4096) = key s a + 4096"
  using assms unfolding node_ok_def key_def by (auto simp: uint_ptr_add)

lemma find_append: "find P (xs @ ys) = (case find P xs of None \<Rightarrow> find P ys | Some x \<Rightarrow> Some x)"
  by (induction xs) auto

lemma lay_get:
  assumes "lay (view h) p (N l c a r)"
  shows "\<exists>n. h a = Some n \<and> rb_left n = rt l \<and> rb_right n = rt r"
  using assms by (auto simp: view_def aview_def)

lemma search_loop_lay:
  assumes "lay (view (links s)) p t" and "\<forall>a \<in> set (ino t). node_ok s a \<and> a \<noteq> 0"
    and "sorted_wrt (\<lambda>a b. key s a + 4096 < key s b) (ino t)"
  shows "search_loop s (rt t) x = Some (case find (covers s x) (ino t) of Some a \<Rightarrow> a | None \<Rightarrow> 0)"
  using assms
proof (induction t arbitrary: p)
  case L
  show ?case by (subst search_loop.simps) simp
next
  case (N l c a r)
  obtain m where m: "links s a = Some m" "rb_left m = rt l" "rb_right m = rt r" using lay_get [OF N.prems(1)] by blast
  have "node_ok s a" "a \<noteq> 0" using N.prems(2) by auto
  from this(1) obtain n where n: "mnodes s a = Some n" "key s a = uint (preal n)" "uint (ptr_add (preal n) 4096) = key s a + 4096"
    by (rule node_okE)
  note IH = N.IH(1) [of a] N.IH(2) [of a]
  have left: "key s b + 4096 < key s a" if "b \<in> set (ino l)" for b using N.prems(3) that by (auto simp: sorted_wrt_append)
  have right: "key s a + 4096 < key s b" if "b \<in> set (ino r)" for b using N.prems(3) that by (auto simp: sorted_wrt_append)
  have none: "find (covers s x) xs = None" if "\<And>b. b \<in> set xs \<Longrightarrow> \<not> covers s x b" for xs
    using that by (auto simp: find_None_iff)
  have step: "search_loop s a x = (if uint x < key s a then search_loop s (rt l) x
      else if key s a + 4096 < uint x then search_loop s (rt r) x else Some a)"
    using m n \<open>a \<noteq> 0\<close> by (subst search_loop.simps) (simp add: word_less_def)
  show ?case
  proof (cases "uint x < key s a")
    case True
    then have "find (covers s x) (a # ino r) = None" by (intro none) (auto simp: covers_def dest: right)
    then show ?thesis using True step IH(1) N.prems by (auto simp: find_append sorted_wrt_append split: option.splits)
  next
    case False
    then have l0: "find (covers s x) (ino l) = None" by (intro none) (auto simp: covers_def dest: left)
    show ?thesis
    proof (cases "key s a + 4096 < uint x")
      case True
      then have "\<not> covers s x a" by (simp add: covers_def)
      then show ?thesis using True l0 False step IH(2) N.prems by (simp add: find_append sorted_wrt_append)
    next
      case 2: False
      then have "covers s x a" using False by (simp add: covers_def)
      then show ?thesis using l0 2 False step by (simp add: find_append)
    qed
  qed
qed

lemma mem_search_spec:
  assumes "mem_tree s root t"
  shows "minipwr_mem_node_search s root x = Some (case find (covers s x) (ino t) of Some a \<Rightarrow> a | None \<Rightarrow> 0)"
  using search_loop_lay [of s 0 t x] assms by (auto simp: mem_tree_def rb_rep_def minipwr_mem_node_search_def)

text \<open>The walk of the insertion ends at the free position between the bodies below and above the new one.\<close>

lemma insert_walk_lay:
  assumes "lay (view (links s)) p t" and "\<forall>a \<in> set (ino t). node_ok s a \<and> a \<noteq> 0"
    and "sorted_wrt (\<lambda>a b. key s a + 4096 < key s b) (ino t)" and "mnodes s d = Some dn" and "x = uint (preal dn)"
  shows "\<exists>k'. insert_walk s d (rt t) (cpar k) (clink k)
        = Some (if \<exists>a \<in> set (ino t). covers s (preal dn) a then None else Some (cpar k', clink k'))
    \<and> plug k' L = plug k t \<and> ((\<forall>a \<in> set (ino t). \<not> covers s (preal dn) a)
        \<longrightarrow> cl k' = cl k @ filter (\<lambda>a. key s a < x) (ino t) \<and> cr k' = filter (\<lambda>a. \<not> key s a < x) (ino t) @ cr k)"
  using assms(1-3)
proof (induction t arbitrary: p k)
  case L
  show ?case by (intro exI [of _ k], subst insert_walk.simps) simp
next
  case (N l c a r)
  obtain m where m: "links s a = Some m" "rb_left m = rt l" "rb_right m = rt r" using lay_get [OF N.prems(1)] by blast
  have "node_ok s a" "a \<noteq> 0" using N.prems(2) by auto
  from this(1) obtain n where n: "mnodes s a = Some n" "key s a = uint (preal n)" "uint (ptr_add (preal n) 4096) = key s a + 4096"
    by (rule node_okE)
  have left: "key s b + 4096 < key s a" if "b \<in> set (ino l)" for b using N.prems(3) that by (auto simp: sorted_wrt_append)
  have right: "key s a + 4096 < key s b" if "b \<in> set (ino r)" for b using N.prems(3) that by (auto simp: sorted_wrt_append)
  have step: "insert_walk s d a (cpar k) (clink k) = (if x < key s a then insert_walk s d (rt l) a (Some (a, Lt))
      else if key s a + 4096 < x then insert_walk s d (rt r) a (Some (a, Rt)) else Some None)"
    using m n \<open>a \<noteq> 0\<close> assms(4,5) by (subst insert_walk.simps) (simp add: word_less_def)
  let ?c = "covers s (preal dn)"
  show ?case
  proof (cases "x < key s a")
    case True
    have far: "\<not> ?c b" if "b \<in> insert a (set (ino r))" for b using that True right [of b] assms(5) by (auto simp: covers_def)
    have ge: "filter (\<lambda>b. \<not> key s b < x) (a # ino r) = a # ino r" "filter (\<lambda>b. key s b < x) (a # ino r) = []"
      using True right by (fastforce simp: filter_id_conv filter_empty_conv)+
    have ex: "(\<exists>b \<in> set (ino (N l c a r)). ?c b) \<longleftrightarrow> (\<exists>b \<in> set (ino l). ?c b)"
      "(\<forall>b \<in> set (ino (N l c a r)). \<not> ?c b) \<longleftrightarrow> (\<forall>b \<in> set (ino l). \<not> ?c b)" using far by auto
    obtain k' where k': "insert_walk s d (rt l) a (Some (a, Lt)) = Some (if \<exists>b \<in> set (ino l). ?c b then None else Some (cpar k', clink k'))"
      "plug k' L = plug k (N l c a r)" "(\<forall>b \<in> set (ino l). \<not> ?c b) \<longrightarrow> cl k' = cl k @ filter (\<lambda>a. key s a < x) (ino l)
        \<and> cr k' = filter (\<lambda>a. \<not> key s a < x) (ino l) @ a # ino r @ cr k"
      using N.IH(1) [of a "C Lt c a r k"] N.prems by (auto simp: sorted_wrt_append nd_def)
    show ?thesis unfolding ex using k' True step ge by (intro exI [of _ k']) simp
  next
    case False
    have far: "\<not> ?c b" if "b \<in> set (ino l)" for b using that False left [of b] assms(5) by (auto simp: covers_def)
    show ?thesis
    proof (cases "key s a + 4096 < x")
      case True
      have ex: "(\<exists>b \<in> set (ino (N l c a r)). ?c b) \<longleftrightarrow> (\<exists>b \<in> set (ino r). ?c b)"
        "(\<forall>b \<in> set (ino (N l c a r)). \<not> ?c b) \<longleftrightarrow> (\<forall>b \<in> set (ino r). \<not> ?c b)" using far True assms(5) by (auto simp: covers_def)
      obtain k' where k': "insert_walk s d (rt r) a (Some (a, Rt)) = Some (if \<exists>b \<in> set (ino r). ?c b then None else Some (cpar k', clink k'))"
        "plug k' L = plug k (N l c a r)" "(\<forall>b \<in> set (ino r). \<not> ?c b) \<longrightarrow> cl k' = cl k @ ino l @ a # filter (\<lambda>a. key s a < x) (ino r)
          \<and> cr k' = filter (\<lambda>a. \<not> key s a < x) (ino r) @ cr k"
        using N.IH(2) [of a "C Rt c a l k"] N.prems by (auto simp: sorted_wrt_append nd_def)
      have ge: "filter (\<lambda>b. \<not> key s b < x) (ino l @ [a]) = []" "filter (\<lambda>b. key s b < x) (ino l @ [a]) = ino l @ [a]"
        using True left by (fastforce simp: filter_id_conv filter_empty_conv)+
      show ?thesis unfolding ex using k' True False step ge by (intro exI [of _ k']) simp
    next
      case 2: False
      then have "?c a" using False assms(5) by (auto simp: covers_def)
      moreover obtain k' where "plug k' L = plug k (N l c a r)"
        using N.IH(2) [of a "C Rt c a l k"] N.prems by (auto simp: sorted_wrt_append nd_def)
      ultimately show ?thesis using 2 False step by auto
    qed
  qed
qed

lemma frame_node:
  assumes "frame h h' A" and "q \<notin> A"
  shows "h' q = None \<longleftrightarrow> h q = None"
  using assms by (auto simp: frame_def view_def)

lemma mem_insert_spec:
  assumes "mem_tree s root t" and "node_ok s d" and "d \<noteq> 0" and "aligned d" and "links s d \<noteq> None" and "d \<notin> set (ino t)"
    and apart: "\<forall>a \<in> set (ino t). key s a + 4096 < key s d \<or> key s d + 4096 < key s a"
  shows "\<exists>h root' u. minipwr_mem_node_insert s root d = Some (s\<lparr>links := h\<rparr>, root', 1) \<and> mem_tree (s\<lparr>links := h\<rparr>) root' u
    \<and> ino u = filter (\<lambda>a. key s a < key s d) (ino t) @ d # filter (\<lambda>a. \<not> key s a < key s d) (ino t)
    \<and> frame (links s) h (insert d (set (ino t)))"
proof -
  have rep: "rb_rep (links s) root t" "rbt_inv t" using assms(1) by (simp_all add: mem_tree_def)
  obtain dn where dn: "mnodes s d = Some dn" "key s d = uint (preal dn)" using assms(2) by (rule node_okE)
  have nc: "\<forall>a \<in> set (ino t). \<not> covers s (preal dn) a" using apart dn(2) by (auto simp: covers_def)
  obtain k where k: "insert_walk s d (rt t) 0 None = Some (Some (cpar k, clink k))" "plug k L = t"
    "cl k = filter (\<lambda>a. key s a < key s d) (ino t)" "cr k = filter (\<lambda>a. \<not> key s a < key s d) (ino t)"
    using insert_walk_lay [of s 0 t d dn "key s d" Top] assms(1) dn nc by (auto simp: mem_tree_def rb_rep_def)
  obtain h1 r1 where h1: "rb_link_node (links s) root d (cpar k) (clink k) = Some (h1, r1)"
    "rb_rep h1 r1 (plug k (nd Lt False d L L))" "frame (links s) h1 (insert d (set (ino t)))"
    using rb_link_node_spec [of "links s" root k d] rep assms(3-6) k(2) by auto
  obtain h2 r2 u where h2: "rb_insert_color h1 r1 d = Some (h2, r2)" "rb_rep h2 r2 u" "rbt_inv u"
    "ino u = cl k @ d # cr k" "frame h1 h2 (insert d (set (ino t)))"
    using rb_insert_color_spec [OF h1(2)] rep(2) k(2) by auto
  let ?s = "s\<lparr>links := h2\<rparr>"
  have sorted: "sorted_wrt (\<lambda>a b. key s a + 4096 < key s b) (ino t)" using assms(1) by (simp add: mem_tree_def)
  have below: "key s a + 4096 < key s d" if "a \<in> set (cl k)" for a using that apart k(3) by force
  have above: "key s d + 4096 < key s a" if "a \<in> set (cr k)" for a using that apart k(4) by force
  have "sorted_wrt (\<lambda>a b. key s a + 4096 < key s b) (ino u)"
    using sorted_wrt_filter [OF sorted] below above unfolding h2(4) sorted_wrt_append k(3,4) by fastforce
  moreover have "node_ok s a" if "a \<in> set (ino u)" for a
    using that assms(1,2) h2(4) k(3,4) by (auto simp: mem_tree_def)
  ultimately have "mem_tree ?s r2 u" using h2(2,3) by (simp add: mem_tree_def key_def node_ok_def)
  moreover have "minipwr_mem_node_insert s root d = Some (?s, r2, 1)"
    using k(1) h1(1) h2(1) rep(1) by (simp add: minipwr_mem_node_insert_def rb_rep_def)
  ultimately show ?thesis using h2(4) k(3,4) frame_trans [OF h1(3) h2(5)] by auto
qed

lemma insert_refused:
  assumes "mem_tree s root t" and "mnodes s d = Some dn" and "\<exists>a \<in> set (ino t). covers s (preal dn) a"
  shows "minipwr_mem_node_insert s root d = Some (s, root, 0)"
  using insert_walk_lay [of s 0 t d dn "uint (preal dn)" Top] assms
  by (auto simp: mem_tree_def rb_rep_def minipwr_mem_node_insert_def)

section \<open>Deletion and traversal\<close>

lemma rb_rep_cong: "rb_rep h root t \<Longrightarrow> (\<And>q. q \<in> set (ino t) \<Longrightarrow> view h' q = view h q) \<Longrightarrow> rb_rep h' root t"
  using lay_frame [of "view h" 0 t "view h'"] by (auto simp: rb_rep_def)

lemma mem_tree_cong:
  assumes "mem_tree s root t" and "\<And>a. a \<in> set (ino t) \<Longrightarrow> view (links s') a = view (links s) a \<and> mnodes s' a = mnodes s a"
  shows "mem_tree s' root t"
proof -
  have t: "rb_rep (links s) root t" "rbt_inv t" "\<forall>a \<in> set (ino t). node_ok s a" "sorted_wrt (\<lambda>a b. key s a + 4096 < key s b) (ino t)"
    using assms(1) by (simp_all add: mem_tree_def)
  have k: "key s' a = key s a" if "a \<in> set (ino t)" for a using assms(2) [OF that] by (simp add: key_def)
  have "sorted_wrt (\<lambda>a b. key s' a + 4096 < key s' b) (ino t)"
    using sorted_wrt_mono_rel [OF _ t(4), of "\<lambda>a b. key s' a + 4096 < key s' b"] k by simp
  moreover have "rb_rep (links s') root t" using rb_rep_cong [OF t(1)] assms(2) by blast
  moreover have "\<forall>a \<in> set (ino t). node_ok s' a" using t(3) assms(2) by (simp add: node_ok_def)
  ultimately show ?thesis using t(2) by (simp add: mem_tree_def)
qed

lemma covers_unique:
  assumes "mem_tree s root t" and "ino t = xs @ a # ys" and "covers s p a"
  shows "find (covers s p) (ino t) = Some a"
proof -
  have "find (covers s p) xs = None"
    using assms by (fastforce simp: find_None_iff mem_tree_def sorted_wrt_append covers_def)
  then show ?thesis using assms(2,3) by (simp add: find_append)
qed

lemma erase_spec:
  assumes "mem_tree s root t" and "ino t = xs @ a # ys"
  shows "\<exists>h root' u. rb_erase (links s) root a = Some (h, root') \<and> mem_tree (s\<lparr>links := h\<rparr>) root' u \<and> ino u = xs @ ys
    \<and> frame (links s) h (set (ino t))"
proof -
  have rep: "rb_rep (links s) root t" "rbt_inv t" using assms(1) by (simp_all add: mem_tree_def)
  obtain k l c r where k: "t = plug k (N l c a r)" "xs = cl k @ ino l" "ys = ino r @ cr k"
    using split_focus [of t xs a ys] assms(2) rep(1) unfolding rb_rep_def by blast
  obtain h root' u where h: "rb_erase (links s) root a = Some (h, root')" "rb_rep h root' u" "rbt_inv u" "ino u = xs @ ys"
    "frame (links s) h (set (ino t))"
    using rb_erase_spec [of "links s" root k l c a r] rep k by auto
  have "mem_tree (s\<lparr>links := h\<rparr>) root' u"
    using assms h(2-4) by (auto simp: mem_tree_def key_def node_ok_def sorted_wrt_append)
  then show ?thesis using h by blast
qed

lemma del_spec:
  assumes tree: "mem_tree s root t" "ino t = xs @ a # ys" and "covers s p a" and "blocks s a \<noteq> None"
  shows "\<exists>s' root' u. minipwr_mem_node_del s root p = Some (s', root') \<and> mem_tree s' root' u \<and> ino u = xs @ ys
    \<and> blocks s' = (blocks s)(a := None) \<and> mem_pool s' = mem_pool s"
proof -
  have a: "a \<noteq> 0" "a \<notin> set (xs @ ys)" using tree by (auto simp: mem_tree_def rb_rep_def)
  obtain h root' u where h: "rb_erase (links s) root a = Some (h, root')" "mem_tree (s\<lparr>links := h\<rparr>) root' u" "ino u = xs @ ys"
    using erase_spec [OF tree] by blast
  let ?s = "s\<lparr>links := h(a := None), blocks := (blocks s)(a := None), mnodes := (mnodes s)(a := None)\<rparr>"
  have "mem_tree ?s root' u" using a h(3) by (intro mem_tree_cong [OF h(2)]) (auto simp: view_def)
  moreover have "minipwr_mem_node_del s root p = Some (?s, root')"
    using mem_search_spec [OF tree(1), of p] covers_unique [OF tree assms(3)] a(1) h(1) assms(4)
    by (auto simp: minipwr_mem_node_del_def minipwr_stdfree_def)
  ultimately show ?thesis using h(3) by auto
qed

lemma tree_next: "mem_tree s root t \<Longrightarrow> ino t = xs @ a # ys \<Longrightarrow> rb_next (links s) a = Some (if ys = [] then 0 else hd ys)"
  unfolding mem_tree_def using rep_next(1) [of "links s" root t xs a ys] by blast

lemma tree_nodes: "mem_tree s root t \<Longrightarrow> a \<in> set (ino t) \<Longrightarrow> a \<noteq> 0 \<and> aligned a \<and> node_ok s a \<and> links s a \<noteq> None"
proof -
  assume t: "mem_tree s root t" "a \<in> set (ino t)"
  then have rep: "rb_rep (links s) root t" by (simp add: mem_tree_def)
  obtain k l c r where "t = plug k (N l c a r)" using focus [OF t(2)] by blast
  then have "view (links s) a \<noteq> None" using rep_plugD(1) [of "links s" root k "N l c a r"] rep by auto
  then show ?thesis using t by (auto simp: mem_tree_def rb_rep_def view_def)
qed

lemma key_preal: "mnodes s a = Some n \<Longrightarrow> key s a = uint (preal n)"
  by (simp add: key_def)

text \<open>The bodies of a list of nodes.\<close>

definition bodies :: "mem_state \<Rightarrow> u64 list \<Rightarrow> u64 list" where
  "bodies s xs = map (\<lambda>a. preal (the (mnodes s a))) xs"

lemma foreach_spec:
  assumes "mem_tree s root t"
  shows "minipwr_mem_node_foreach s root = Some (bodies s (ino t))"
proof -
  have "foreach_loop s (if ys = [] then 0 else hd ys) out = Some (out @ bodies s ys)" if "ino t = xs @ ys" for xs ys out
    using that
  proof (induction ys arbitrary: xs out)
    case Nil
    show ?case by (subst foreach_loop.simps) (simp add: bodies_def)
  next
    case (Cons a ys)
    have "a \<noteq> 0" "node_ok s a" using tree_nodes [OF assms, of a] Cons.prems by auto
    then obtain n where "mnodes s a = Some n" by (auto simp: node_ok_def)
    then show ?case using \<open>a \<noteq> 0\<close> tree_next [OF assms Cons.prems] Cons.IH [of "xs @ [a]" "out @ [preal n]"] Cons.prems
      by (subst foreach_loop.simps) (simp add: bodies_def)
  qed
  from this [of "[]" "ino t" "[]"] show ?thesis
    using rb_first_spec [of "links s" root t] assms by (simp add: minipwr_mem_node_foreach_def mem_tree_def)
qed

section \<open>A new node\<close>

definition new_node :: "mem_state \<Rightarrow> u64 \<Rightarrow> u64 \<Rightarrow> u64 list \<Rightarrow> mem_state" where
  "new_node s a b ms = s\<lparr>mallocs := ms, blocks := (blocks s)(a \<mapsto> 96, b \<mapsto> 4096), links := links (raw_node s a),
     mnodes := (mnodes s)(a \<mapsto> \<lparr>bitmap_t = replicate 8 0, preal = b\<rparr>)\<rparr>"

lemma init_spec:
  assumes "mallocs s = a # b # ms" and "a \<noteq> 0" and "b \<noteq> 0"
  shows "minipwr_init_mem_node s = Some (new_node s a b ms, a)"
proof -
  have "bm_zero True bm 512 = Some (replicate 8 0)" if "length bm = 8" for bm
    using that by (simp add: bm_zero_def memset_longs_def BITS_TO_LONGS_def)
  then show ?thesis using assms
    by (simp add: minipwr_init_mem_node_def minipwr_stdalloc_def minipwr_memalign_def raw_node_def mnode_upd_def set_bits_def new_node_def
        MEM_BITMAP_SIZE_def MEM_NODE_SIZE_def raw_long_def fun_upd_twist)
qed

lemma init_fails:
  assumes "mallocs s = [] \<or> hd (mallocs s) = 0 \<or> tl (mallocs s) = [] \<or> hd (tl (mallocs s)) = 0"
  shows "\<exists>s'. minipwr_init_mem_node s = Some (s', 0) \<and> mem_pool s' = mem_pool s"
proof (cases "mallocs s")
  case (Cons p ps)
  then show ?thesis using assms
    by (cases ps) (auto simp: minipwr_init_mem_node_def minipwr_stdalloc_def minipwr_memalign_def raw_node_def mnode_upd_def)
qed (simp add: minipwr_init_mem_node_def minipwr_stdalloc_def)

text \<open>What the C allocator promises of a new struct and body, seen from the nodes that are there.\<close>

definition fresh_node :: "mem_state \<Rightarrow> u64 list \<Rightarrow> u64 \<Rightarrow> u64 \<Rightarrow> bool" where
  "fresh_node s xs a b \<longleftrightarrow> a \<noteq> 0 \<and> aligned a \<and> a \<notin> set xs \<and> b \<noteq> 0 \<and> uint b + 4096 < 2 ^ 64
     \<and> (\<forall>x \<in> set xs. key s x + 4096 < uint b \<or> uint b + 4096 < key s x)"

lemma new_node_tree:
  assumes "mem_tree s root t" and "fresh_node s (ino t) a b"
  shows "mem_tree (new_node s a b ms) root t" and "node_ok (new_node s a b ms) a" and "links (new_node s a b ms) a \<noteq> None"
    and "key (new_node s a b ms) a = uint b" and "x \<in> set (ino t) \<Longrightarrow> key (new_node s a b ms) x = key s x"
proof -
  show "mem_tree (new_node s a b ms) root t"
    using assms(2) by (intro mem_tree_cong [OF assms(1)]) (auto simp: new_node_def raw_node_def fresh_node_def view_def)
  show "node_ok (new_node s a b ms) a" "links (new_node s a b ms) a \<noteq> None" "key (new_node s a b ms) a = uint b"
    using assms(2) by (auto simp: node_ok_def new_node_def fresh_node_def raw_node_def key_def)
  show "key (new_node s a b ms) x = key s x" if "x \<in> set (ino t)"
    using that assms(2) by (auto simp: new_node_def fresh_node_def key_def)
qed

section \<open>Creating a pool\<close>

text \<open>The nodes that \<open>create_loop\<close> makes of a list of structs and bodies.\<close>

definition apart :: "(u64 \<times> u64) list \<Rightarrow> bool" where
  "apart nbs \<longleftrightarrow> distinct (map fst nbs) \<and> (\<forall>(a, b) \<in> set nbs. a \<noteq> 0 \<and> aligned a \<and> b \<noteq> 0 \<and> uint b + 4096 < 2 ^ 64)
     \<and> sorted_wrt (\<lambda>(a, b) (a', b'). uint b + 4096 < uint b' \<or> uint b' + 4096 < uint b) nbs"

definition results :: "(u64 \<times> u64) list \<Rightarrow> u64 list" where
  "results nbs = concat (map (\<lambda>(a, b). [a, b]) nbs)"

text \<open>A pool whose nodes are exactly \<open>nbs\<close>, all free.\<close>

definition clear_pool :: "mem_state \<Rightarrow> (u64 \<times> u64) list \<Rightarrow> bool" where
  "clear_pool s nbs \<longleftrightarrow> (\<exists>p q t. mem_pool s = Pool p q \<and> mem_tree s (rbroot q) t \<and> mset (ino t) = mset (map fst nbs)
     \<and> (\<forall>(a, b) \<in> set nbs. mnodes s a = Some \<lparr>bitmap_t = replicate 8 0, preal = b\<rparr>)
     \<and> (nbs \<noteq> [] \<longrightarrow> current_series_node q = fst (hd nbs) \<and> latest_free_node q = fst (hd nbs)
          \<and> current_series_ptr q = snd (hd nbs) \<and> latest_free_ptr q = snd (hd nbs)))"

text \<open>The live blocks with those of the nodes \<open>nbs\<close>: structs of 96 and bodies of 4096 bytes.\<close>

fun with_blocks :: "(u64 \<Rightarrow> int option) \<Rightarrow> (u64 \<times> u64) list \<Rightarrow> u64 \<Rightarrow> int option" where
  "with_blocks m [] = m"
| "with_blocks m ((a, b) # nbs) = with_blocks (m(a \<mapsto> 96, b \<mapsto> 4096)) nbs"

definition same_sizes :: "mem_state \<Rightarrow> mem_state \<Rightarrow> bool" where
  "same_sizes s s' \<longleftrightarrow> (\<forall>p q. mem_pool s = Pool p q \<longrightarrow> (\<exists>q'. mem_pool s' = Pool p q' \<and> pool_total_size q' = pool_total_size q
     \<and> pool_left_series_size q' = pool_left_series_size q \<and> pool_node_nb q' = pool_node_nb q))"

lemma same_sizes_trans: "same_sizes s s1 \<Longrightarrow> same_sizes s1 s2 \<Longrightarrow> same_sizes s s2"
  unfolding same_sizes_def by metis

lemma create_step:
  assumes pool: "clear_pool s nbs" and "apart (nbs @ [(a, b)])" and "mallocs s = a # b # ms" and "int (length nbs) < num"
  shows "\<exists>s'. create_loop s (int (length nbs)) num = create_loop s' (int (length nbs) + 1) num \<and> clear_pool s' (nbs @ [(a, b)])
    \<and> mallocs s' = ms \<and> blocks s' = (blocks s)(a \<mapsto> 96, b \<mapsto> 4096)
    \<and> same_sizes s s'"
proof -
  obtain p q t where t: "mem_pool s = Pool p q" "mem_tree s (rbroot q) t" "mset (ino t) = mset (map fst nbs)"
    "\<forall>(a, b) \<in> set nbs. mnodes s a = Some \<lparr>bitmap_t = replicate 8 0, preal = b\<rparr>"
    "nbs \<noteq> [] \<longrightarrow> current_series_node q = fst (hd nbs) \<and> latest_free_node q = fst (hd nbs)
          \<and> current_series_ptr q = snd (hd nbs) \<and> latest_free_ptr q = snd (hd nbs)"
    using pool unfolding clear_pool_def by blast
  have set_t: "set (ino t) = fst ` set nbs" using t(3) by (metis set_mset_mset set_map)
  have ab: "a \<noteq> 0" "aligned a" "b \<noteq> 0" "uint b + 4096 < 2 ^ 64" "a \<notin> fst ` set nbs"
    "\<forall>(x, y) \<in> set nbs. uint y + 4096 < uint b \<or> uint b + 4096 < uint y"
    using assms(2) by (auto simp: apart_def sorted_wrt_append)
  have tn: "mnodes s x = Some \<lparr>bitmap_t = replicate 8 0, preal = y\<rparr>" if "(x, y) \<in> set nbs" for x y using t(4) that by auto
  have ne: "x \<noteq> a" if "(x, y) \<in> set nbs" for x y using ab(5) that by (metis fst_conv image_eqI)
  have kn: "key s x = uint y" if "(x, y) \<in> set nbs" for x y using t(4) that by (auto simp: key_def)
  have fresh: "fresh_node s (ino t) a b" unfolding fresh_node_def set_t using ab kn by auto
  let ?s = "new_node s a b ms"
  note new = new_node_tree [OF t(2) fresh, where ms = ms]
  have far: "\<forall>x \<in> set (ino t). key ?s x + 4096 < key ?s a \<or> key ?s a + 4096 < key ?s x"
    using fresh new(4,5) by (simp add: fresh_node_def)
  obtain h r u where ins: "minipwr_mem_node_insert ?s (rbroot q) a = Some (?s\<lparr>links := h\<rparr>, r, 1)" "mem_tree (?s\<lparr>links := h\<rparr>) r u"
    "ino u = filter (\<lambda>x. key ?s x < key ?s a) (ino t) @ a # filter (\<lambda>x. \<not> key ?s x < key ?s a) (ino t)"
    using mem_insert_spec [OF new(1,2) ab(1,2) new(3)] ab(5) far set_t by blast
  have "mset (ino u) = add_mset a (mset (ino t))"
    using ins(3) multiset_partition [of "mset (ino t)" "\<lambda>x. key ?s x < key ?s a"] by simp
  then have mu: "mset (ino u) = mset (map fst (nbs @ [(a, b)]))" using t(3) by simp
  let ?q = "if nbs = [] then q\<lparr>rbroot := r, current_series_node := a, latest_free_node := a, current_series_ptr := b, latest_free_ptr := b\<rparr>
    else q\<lparr>rbroot := r\<rparr>"
  let ?s' = "?s\<lparr>links := h, mem_pool := Pool p ?q\<rparr>"
  have step: "create_loop s (int (length nbs)) num = create_loop ?s' (int (length nbs) + 1) num"
    using assms(4) init_spec [OF assms(3) ab(1,3)] ab(1) t(1) ins(1)
    by (subst create_loop.simps) (simp add: set_pool_def new_node_def)
  have "mem_tree ?s' r u" by (intro mem_tree_cong [OF ins(2)]) simp
  moreover have "\<forall>(x, y) \<in> set (nbs @ [(a, b)]). mnodes ?s' x = Some \<lparr>bitmap_t = replicate 8 0, preal = y\<rparr>"
    using t(4) ne by (auto simp: new_node_def dest: tn ne)
  ultimately have "clear_pool ?s' (nbs @ [(a, b)])" unfolding clear_pool_def using mu t(5)
    by (intro exI [of _ p] exI [of _ ?q] exI [of _ u]) (cases "nbs = []"; simp)
  then show ?thesis using step t(1) by (intro exI [of _ ?s']) (simp add: new_node_def same_sizes_def)
qed

lemma create_loop_spec:
  assumes "clear_pool s made" and "apart (made @ nbs)" and "mallocs s = results nbs @ ms" and "int (length made + length nbs) \<le> num"
  shows "\<exists>s'. create_loop s (int (length made)) num = create_loop s' (int (length made + length nbs)) num \<and> clear_pool s' (made @ nbs)
    \<and> mallocs s' = ms
    \<and> blocks s' = with_blocks (blocks s) nbs
    \<and> same_sizes s s'"
  using assms
proof (induction nbs arbitrary: s "made")
  case Nil
  then show ?case by (auto simp: results_def same_sizes_def)
next
  case (Cons ab nbs)
  obtain a b where ab: "ab = (a, b)" by (cases ab)
  have ap: "apart (made @ [(a, b)])" using Cons.prems(2) ab by (auto simp: apart_def sorted_wrt_append)
  have ms: "mallocs s = a # b # results nbs @ ms" using Cons.prems(3) ab by (simp add: results_def)
  obtain s1 where s1: "create_loop s (int (length made)) num = create_loop s1 (int (length (made @ [(a, b)]))) num"
    "clear_pool s1 (made @ [(a, b)])" "mallocs s1 = results nbs @ ms" "blocks s1 = (blocks s)(a \<mapsto> 96, b \<mapsto> 4096)"
    "same_sizes s s1"
    using create_step [OF Cons.prems(1) ap ms, of num] Cons.prems(4) by (auto simp: add.commute)
  have ap2: "apart ((made @ [(a, b)]) @ nbs)" and len: "int (length (made @ [(a, b)]) + length nbs) \<le> num"
    using Cons.prems(2,4) ab by simp_all
  obtain s2 where s2: "create_loop s1 (int (length (made @ [(a, b)]))) num = create_loop s2 (int (length (made @ [(a, b)]) + length nbs)) num"
    "clear_pool s2 ((made @ [(a, b)]) @ nbs)" "mallocs s2 = ms" "blocks s2 = with_blocks (blocks s1) nbs"
    "same_sizes s1 s2"
    using Cons.IH [OF s1(2) ap2 s1(3) len] by blast
  show ?case using s1 s2 ab same_sizes_trans [OF s1(5) s2(5)] by (intro exI [of _ s2]) simp
qed

lemma create_pool_start:
  assumes "0 < num" and "num < 2 ^ 19" and "mallocs s = p # ms" and "p \<noteq> 0"
  shows "\<exists>s1 q1. minipwr_create_pool s num e
      = do { (s', res) \<leftarrow> create_loop s1 0 num; Some (s', if res \<noteq> 0 then - 1 else if e \<noteq> 0 then - 1 else 0) }
    \<and> clear_pool s1 [] \<and> mallocs s1 = ms \<and> blocks s1 = (blocks s)(p \<mapsto> 80) \<and> mem_pool s1 = Pool p q1
    \<and> pool_total_size q1 = word_of_int (num * 4096) \<and> pool_left_series_size q1 = word_of_int (num * 4096) \<and> pool_node_nb q1 = word_of_int num"
proof -
  let ?s0 = "s\<lparr>mallocs := ms, blocks := (blocks s)(p \<mapsto> 80)\<rparr>"
  let ?q1 = "(raw_pool ?s0 p)\<lparr>pool_total_size := word_of_int (num * 4096), pool_left_series_size := word_of_int (num * 4096),
    pool_node_nb := word_of_int num, expand_node := 0, rbroot := 0\<rparr>"
  let ?s1 = "?s0\<lparr>mem_pool := Pool p ?q1\<rparr>"
  have "minipwr_create_pool s num e
      = do { (s', res) \<leftarrow> create_loop ?s1 0 num; Some (s', if res \<noteq> 0 then - 1 else if e \<noteq> 0 then - 1 else 0) }"
    using assms by (simp add: minipwr_create_pool_def minipwr_stdalloc_def MEM_POOL_SIZE_def Let_def)
  moreover have "clear_pool ?s1 []"
    by (auto simp: clear_pool_def mem_tree_def rb_rep_def rbt_inv_def intro!: exI [of _ L])
  ultimately show ?thesis by (intro exI [of _ ?s1] exI [of _ ?q1]) simp
qed


definition no_memory :: mem_state where
  "no_memory = \<lparr>mallocs = [], bytes = (\<lambda>_. 0), blocks = Map.empty, links = Map.empty, mnodes = Map.empty, mem_pool = NoPool\<rparr>"

lemma two_nodes_apart: "apart [(96, 65536), (192, 131072)]"
  by (simp add: apart_def aligned_def)


section \<open>Destroying a pool\<close>

text \<open>The blocks of a pool are live: the pool, its structs and its bodies, by their sizes.\<close>

definition pool_blocks :: "mem_state \<Rightarrow> u64 \<Rightarrow> u64 list \<Rightarrow> bool" where
  "pool_blocks s p xs \<longleftrightarrow> p \<noteq> 0 \<and> blocks s p = Some 80 \<and> (\<forall>a \<in> set xs. blocks s a = Some 96)
     \<and> (\<forall>b \<in> set (bodies s xs). blocks s b = Some 4096)"

definition drop_blocks :: "u64 set \<Rightarrow> (u64 \<Rightarrow> int option) \<Rightarrow> u64 \<Rightarrow> int option" where
  "drop_blocks A m = (\<lambda>x. if x \<in> A then None else m x)"

lemma destroy_loop_spec:
  assumes "mem_pool s = Pool p q" and "mem_tree s (rbroot q) t" and "pool_blocks s p (ino t)"
  shows "\<exists>s' q'. destroy_loop s (if ino t = [] then 0 else hd (ino t)) = Some s' \<and> mem_pool s' = Pool p q'
    \<and> blocks s' = drop_blocks (set (bodies s (ino t))) (blocks s)"
  using assms
proof (induction "ino t" arbitrary: s q t)
  case Nil
  then show ?case by (subst destroy_loop.simps) (simp add: bodies_def drop_blocks_def)
next
  case (Cons a xs)
  note t = Cons.prems(2) and ino_t = Cons.hyps(2) [symmetric]
  have "a \<noteq> 0" "node_ok s a" using tree_nodes [OF t, of a] ino_t by auto
  from this(2) obtain n where n: "mnodes s a = Some n" "preal n \<noteq> 0" by (auto simp: node_ok_def)
  let ?b = "preal n"
  have bl: "blocks s ?b = Some 4096" "\<forall>x \<in> set (ino t). blocks s x = Some 96" "blocks s p = Some 80"
    using Cons.prems(3) ino_t n by (auto simp: pool_blocks_def bodies_def)
  then have bnot: "?b \<notin> set (ino t)" by auto
  let ?s1 = "s\<lparr>blocks := (blocks s)(?b := None), links := (links s)(?b := None), mnodes := (mnodes s)(?b := None)\<rparr>"
  have t1: "mem_tree ?s1 (rbroot q) t" using bnot by (intro mem_tree_cong [OF t]) (auto simp: view_def)
  obtain h r u where h: "rb_erase (links ?s1) (rbroot q) a = Some (h, r)" "mem_tree (?s1\<lparr>links := h\<rparr>) r u" "ino u = xs"
    using erase_spec [OF t1, of "[]" a xs] ino_t by auto
  let ?s2 = "?s1\<lparr>links := h, mem_pool := Pool p (q\<lparr>rbroot := r\<rparr>)\<rparr>"
  have t2: "mem_tree ?s2 (rbroot (q\<lparr>rbroot := r\<rparr>)) u" using mem_tree_cong [OF h(2), of ?s2] by simp
  have bod: "bodies ?s2 xs = bodies s xs" using bnot ino_t by (auto simp: bodies_def)
  have far: "key s a + 4096 < key s x" if "x \<in> set xs" for x using t ino_t that by (auto simp: mem_tree_def)
  have "?b \<noteq> y" if y: "y \<in> set (bodies s xs)" for y
  proof -
    obtain x where x: "x \<in> set xs" "y = preal (the (mnodes s x))" using y by (auto simp: bodies_def)
    then have "node_ok s x" using tree_nodes [OF t, of x] ino_t by simp
    then have "key s x = uint y" using x by (auto simp: node_ok_def key_def)
    then show ?thesis using far [OF x(1)] n(1) by (auto simp: key_def)
  qed
  then have "?b \<notin> set (bodies s xs)" by blast
  moreover have "\<forall>y \<in> set (bodies s xs). blocks s y = Some 4096" using Cons.prems(3) ino_t by (simp add: pool_blocks_def bodies_def)
  ultimately have "pool_blocks ?s2 p (ino u)"
    using Cons.prems(3) ino_t bl bnot unfolding pool_blocks_def h(3) bod by auto
  then obtain s' q' where s': "destroy_loop ?s2 (if ino u = [] then 0 else hd (ino u)) = Some s'" "mem_pool s' = Pool p q'"
    "blocks s' = drop_blocks (set (bodies ?s2 (ino u))) (blocks ?s2)"
    using Cons.hyps(1) [of u ?s2 "q\<lparr>rbroot := r\<rparr>"] h(3) t2 by auto
  have "destroy_loop s a = destroy_loop ?s2 (if xs = [] then 0 else hd xs)"
    using \<open>a \<noteq> 0\<close> n bl(1) tree_next [OF t1, of "[]" a xs] ino_t Cons.prems(1) h(1)
    by (subst destroy_loop.simps) (simp add: minipwr_stdfree_def set_pool_def)
  then show ?case using s' h(3) bod ino_t n by (auto simp: bodies_def drop_blocks_def fun_eq_iff)
qed

text \<open>
  \<open>minipwr_destroy_pool\<close> returns, frees the body of every node and then the pool struct, and nothing else: the node structs
  themselves stay allocated.  After that the global pointer is a dangling one.
\<close>

theorem destroy_pool_correct:
  assumes "mem_pool s = Pool p q" and "mem_tree s (rbroot q) t" and "pool_blocks s p (ino t)"
  shows "\<exists>s'. minipwr_destroy_pool s = Some s' \<and> blocks s' = drop_blocks (insert p (set (bodies s (ino t)))) (blocks s)
    \<and> (\<forall>a \<in> set (ino t). blocks s' a = Some 96) \<and> mem_pool s' = FreedPool"
proof -
  obtain s1 q1 where s1: "destroy_loop s (if ino t = [] then 0 else hd (ino t)) = Some s1" "mem_pool s1 = Pool p q1"
    "blocks s1 = drop_blocks (set (bodies s (ino t))) (blocks s)"
    using destroy_loop_spec [OF assms] by blast
  have p: "p \<noteq> 0" "blocks s1 p = Some 80" using assms(3) s1(3) by (auto simp: pool_blocks_def drop_blocks_def)
  have "a \<notin> insert p (set (bodies s (ino t)))" if "a \<in> set (ino t)" for a using assms(3) that by (auto simp: pool_blocks_def)
  then have keep: "drop_blocks (insert p (set (bodies s (ino t)))) (blocks s) a = Some 96" if "a \<in> set (ino t)" for a
    using assms(3) that by (simp add: drop_blocks_def pool_blocks_def)
  let ?s' = "s1\<lparr>blocks := (blocks s1)(p := None), links := (links s1)(p := None), mnodes := (mnodes s1)(p := None), mem_pool := FreedPool\<rparr>"
  have "minipwr_destroy_pool s = Some ?s'"
    using assms(1,2) s1(1,2) p rb_first_spec [of "links s" "rbroot q" t]
    by (simp add: minipwr_destroy_pool_def mem_tree_def minipwr_stdfree_def)
  moreover have "blocks ?s' = drop_blocks (insert p (set (bodies s (ino t)))) (blocks s)"
    using s1(3) by (auto simp: drop_blocks_def)
  ultimately show ?thesis using keep by (intro exI [of _ ?s']) simp
qed

text \<open>
  (C15) The tree of bodies: \<open>minipwr_mem_node_search\<close> returns the node whose body has the address, where the address one past the end
  counts too, and \<open>NULL\<close> when there is none; \<open>minipwr_mem_node_insert\<close> puts a node whose body touches no other one in its place and returns
  1, and returns 0 and changes nothing when the new body starts inside another or right behind it; \<open>minipwr_mem_node_del\<close> removes the node of an
  address and frees its struct (not its body); \<open>minipwr_mem_node_foreach\<close> prints the bodies in ascending order.
\<close>

theorem mem_node_tree_correct:
  assumes tree: "mem_tree s root t"
  shows "minipwr_mem_node_search s root x = Some (case find (covers s x) (ino t) of Some a \<Rightarrow> a | None \<Rightarrow> 0)
    \<and> (node_ok s d \<and> d \<noteq> 0 \<and> aligned d \<and> links s d \<noteq> None \<and> d \<notin> set (ino t)
         \<and> (\<forall>a \<in> set (ino t). key s a + 4096 < key s d \<or> key s d + 4096 < key s a)
       \<longrightarrow> (\<exists>s' root' u. minipwr_mem_node_insert s root d = Some (s', root', 1) \<and> mem_tree s' root' u
         \<and> ino u = filter (\<lambda>a. key s a < key s d) (ino t) @ d # filter (\<lambda>a. \<not> key s a < key s d) (ino t)))
    \<and> (node_ok s d \<and> (\<exists>a \<in> set (ino t). key s a \<le> key s d \<and> key s d \<le> key s a + 4096)
       \<longrightarrow> minipwr_mem_node_insert s root d = Some (s, root, 0))
    \<and> (ino t = xs @ a # ys \<and> covers s x a \<and> blocks s a \<noteq> None
       \<longrightarrow> (\<exists>s' root' u. minipwr_mem_node_del s root x = Some (s', root') \<and> mem_tree s' root' u \<and> ino u = xs @ ys
         \<and> blocks s' = (blocks s)(a := None)))
    \<and> minipwr_mem_node_foreach s root = Some (bodies s (ino t)) \<and> sorted_wrt (<) (bodies s (ino t))"
proof (intro conjI impI, goal_cases)
  case 1
  show ?case by (rule mem_search_spec [OF tree])
next
  case 2
  then show ?case using mem_insert_spec [OF tree, of d] by blast
next
  case 3
  then obtain dn where "mnodes s d = Some dn" "key s d = uint (preal dn)" by (auto simp: node_ok_def key_def)
  then show ?case using insert_refused [OF tree, of d dn] 3 by (auto simp: covers_def)
next
  case 4
  then show ?case using del_spec [OF tree, of xs a ys x] by blast
next
  case 5
  show ?case by (rule foreach_spec [OF tree])
next
  case 6
  have k: "uint (preal (the (mnodes s b))) = key s b" if "b \<in> set (ino t)" for b
    using tree_nodes [OF tree that] by (auto simp: node_ok_def key_def)
  have "sorted_wrt (\<lambda>a b. key s a + 4096 < key s b) (ino t)" using tree by (simp add: mem_tree_def)
  then have "sorted_wrt (\<lambda>a b. preal (the (mnodes s a)) < preal (the (mnodes s b))) (ino t)"
    by (rule sorted_wrt_mono_rel [rotated]) (simp add: word_less_def k)
  then show ?case by (simp add: bodies_def sorted_wrt_map)
qed

text \<open>A pool of two nodes, at 96 and 192, with bodies at 65536 and 131072.\<close>

definition two_pool :: mem_pool_t where
  "two_pool = \<lparr>current_series_node = 96, latest_free_node = 96, current_series_ptr = 65536, latest_free_ptr = 65536,
     pool_total_size = 8192, pool_left_series_size = 8192, pool_node_nb = 2, rbroot = 96, expand_node = 0\<rparr>"

definition two_state :: mem_state where
  "two_state = no_memory\<lparr>blocks := [8 \<mapsto> 80, 96 \<mapsto> 96, 65536 \<mapsto> 4096, 192 \<mapsto> 96, 131072 \<mapsto> 4096],
     links := [96 \<mapsto> \<lparr>rb_parent_color = 1, rb_right = 192, rb_left = 0\<rparr>, 192 \<mapsto> \<lparr>rb_parent_color = 96, rb_right = 0, rb_left = 0\<rparr>],
     mnodes := [96 \<mapsto> \<lparr>bitmap_t = replicate 8 0, preal = 65536\<rparr>, 192 \<mapsto> \<lparr>bitmap_t = replicate 8 0, preal = 131072\<rparr>],
     mem_pool := Pool 8 two_pool\<rparr>"

lemma two_state_tree: "mem_tree two_state 96 (N L True 96 (N L False 192 L))"
  by (simp add: mem_tree_def rb_rep_def two_state_def view_def aview_def rb_parent_def rb_is_black_def rb_color_def aligned_def
      rbt_inv_def node_ok_def key_def)

lemma two_state_pool: "mem_pool two_state = Pool 8 two_pool" "rbroot two_pool = 96" "pool_blocks two_state 8 [96, 192]"
  by (simp_all add: two_state_def two_pool_def pool_blocks_def bodies_def)

theorem destroy_pool_correct_witness:
  "\<exists>s'. minipwr_destroy_pool two_state = Some s' \<and> blocks s' 65536 = None \<and> blocks s' 131072 = None \<and> blocks s' 8 = None
     \<and> blocks s' 96 = Some 96 \<and> blocks s' 192 = Some 96"
  using destroy_pool_correct [of two_state 8 two_pool "N L True 96 (N L False 192 L)"] two_state_tree two_state_pool
  by (auto simp: drop_blocks_def bodies_def two_state_def)

theorem mem_node_tree_correct_witness:
  "minipwr_mem_node_search two_state 96 131080 = Some 192 \<and> minipwr_mem_node_foreach two_state 96 = Some [65536, 131072]"
  using mem_node_tree_correct [OF two_state_tree, of 131080]
  by (auto simp: covers_def key_def two_state_def bodies_def)

end
