(* ===== verification/MemAlloc.thy ===== *)
theory MemAlloc
  imports MemTree
begin

text \<open>
  Allocation and release in the memory pool.  The state of a pool is abstracted to the set of addresses of its used eight-byte cells;
  \<open>minipwr_palloc\<close> adds the region it returns to the set and \<open>minipwr_pfree\<close> removes it.  A locale states this contract and derives that
  the blocks a client holds never overlap; the cases in which the code breaks it are stated as counterexamples.
\<close>

section \<open>Cells\<close>

text \<open>A bit stands for eight bytes of the body.  The used cells are a set of addresses, and so is the region of a block.\<close>

definition cellbit :: "mem_state \<Rightarrow> u64 \<Rightarrow> int \<Rightarrow> bool" where
  "cellbit s a i \<longleftrightarrow> (case mnodes s a of Some n \<Rightarrow> bm_val (bitmap_t n) i | None \<Rightarrow> False)"

definition cells :: "mem_state \<Rightarrow> u64 set \<Rightarrow> int set" where
  "cells s A = {key s a + 8 * i |a i. a \<in> A \<and> cellbit s a i}"

definition region :: "u64 \<Rightarrow> int \<Rightarrow> int set" where
  "region r m = {uint r + 8 * i |i. 0 \<le> i \<and> i < m}"

lemma ptr_diff_offset:
  assumes "uint p = uint b + d" and "0 \<le> d" and "d < 2 ^ 63"
  shows "ptr_diff p b = d"
proof -
  have "p - b = word_of_int d" using assms(1) by (metis add_diff_cancel_left' word_of_int_uint wi_hom_sub)
  then show ?thesis using assms(2,3) by (simp add: ptr_diff_def signed_take_bit_int_eq_self signed_of_int)
qed

lemma round_up_8: "DIV_ROUND_UP_FOR_8BYTES (8 * j) = j"
  by (simp add: DIV_ROUND_UP_FOR_8BYTES_def drop_bit_eq_div)

lemma cell_bound: "node_ok s a \<Longrightarrow> cellbit s a i \<Longrightarrow> 0 \<le> i \<and> i < 512"
  by (auto simp: node_ok_def cellbit_def bm_val_def bm_bits_def)

text \<open>Bodies do not touch, so an address in one of them, or at its end, determines the node and the offset.\<close>

lemma offset_unique:
  assumes "mem_tree s root t" and "a \<in> set (ino t)" and "b \<in> set (ino t)" and "key s a + x = key s b + y"
    and "0 \<le> x" and "x \<le> 4096" and "0 \<le> y" and "y \<le> 4096"
  shows "a = b \<and> x = y"
proof (cases "a = b")
  case False
  have "sorted_wrt (\<lambda>a b. key s a + 4096 < key s b) (ino t)" using assms(1) by (simp add: mem_tree_def)
  then have "key s a + 4096 < key s b \<or> key s b + 4096 < key s a"
    using False assms(2,3) by (metis in_set_conv_nth linorder_neqE_nat sorted_wrt_nth_less)
  then show ?thesis using assms(4-8) by linarith
qed (use assms(4) in simp)

lemma cells_iff:
  assumes "mem_tree s root t" and "a \<in> set (ino t)" and "0 \<le> i" and "i < 512"
  shows "key s a + 8 * i \<in> cells s (set (ino t)) \<longleftrightarrow> cellbit s a i"
proof
  assume "key s a + 8 * i \<in> cells s (set (ino t))"
  then obtain b k where b: "b \<in> set (ino t)" "cellbit s b k" "key s a + 8 * i = key s b + 8 * k" by (auto simp: cells_def)
  have "0 \<le> k \<and> k < 512" using cell_bound [OF _ b(2)] tree_nodes [OF assms(1) b(1)] by blast
  then show "cellbit s a i" using offset_unique [OF assms(1,2) b(1) b(3)] b(2) assms(3,4) by simp
qed (use assms(2) in \<open>auto simp: cells_def\<close>)

section \<open>Marking a region of a node\<close>

definition with_bits :: "mem_state \<Rightarrow> u64 \<Rightarrow> u64 list \<Rightarrow> mem_state" where
  "with_bits s a bm = s\<lparr>mnodes := (mnodes s)(a \<mapsto> (the (mnodes s a))\<lparr>bitmap_t := bm\<rparr>)\<rparr>"

lemma set_bits_in: "mnodes s a = Some n \<Longrightarrow> set_bits s a bm = Some (with_bits s a bm)"
  by (simp add: set_bits_def mnode_upd_def with_bits_def)

lemma with_bits_key [simp]: "mnodes s a = Some n \<Longrightarrow> key (with_bits s a bm) x = key s x"
  by (simp add: key_def with_bits_def)

lemma with_bits_fields [simp]:
  "links (with_bits s a bm) = links s" "blocks (with_bits s a bm) = blocks s" "mallocs (with_bits s a bm) = mallocs s"
  "mem_pool (with_bits s a bm) = mem_pool s" "bytes (with_bits s a bm) = bytes s"
  by (simp_all add: with_bits_def)

lemma with_bits_tree:
  assumes "mem_tree s root t" and "mnodes s a = Some n" and "length bm = 8"
  shows "mem_tree (with_bits s a bm) root t"
proof -
  have "node_ok (with_bits s a bm) x" if "node_ok s x" for x using that assms(2,3) by (auto simp: node_ok_def with_bits_def)
  then show ?thesis using assms by (simp add: mem_tree_def)
qed

lemma mark_region:
  assumes "node_ok s a" and "mnodes s a = Some n" and "0 \<le> k" and "k + m \<le> 512"
  shows "\<exists>bm. bm_setbit_region (bitmap_t n) k m = Some bm \<and> length bm = 8
    \<and> (\<forall>x i. cellbit (with_bits s a bm) x i \<longleftrightarrow> x = a \<and> k \<le> i \<and> i < k + m \<or> cellbit s x i)"
proof -
  have n: "length (bitmap_t n) = 8" using assms(1,2) by (auto simp: node_ok_def)
  obtain bm where "bm_setbit_region (bitmap_t n) k m = Some bm" "bm_bits bm = bm_bits (bitmap_t n)"
    "\<forall>q. bm_val bm q \<longleftrightarrow> k \<le> q \<and> q < k + m \<or> bm_val (bitmap_t n) q"
    using bm.set_region [of k 0 m "bitmap_t n"] assms(3,4) n by (auto simp: bm_setbit_region_def bm_bits_def)
  then show ?thesis using assms(2) n by (intro exI [of _ bm]) (simp add: cellbit_def with_bits_def bm_bits_def)
qed

lemma clear_region:
  assumes "node_ok s a" and "mnodes s a = Some n" and "0 \<le> k" and "k + m \<le> 512"
  shows "\<exists>bm. bm_clrbit_region (bitmap_t n) k m = Some bm \<and> length bm = 8
    \<and> (\<forall>x i. cellbit (with_bits s a bm) x i \<longleftrightarrow> \<not> (x = a \<and> k \<le> i \<and> i < k + m) \<and> cellbit s x i)"
proof -
  have n: "length (bitmap_t n) = 8" using assms(1,2) by (auto simp: node_ok_def)
  obtain bm where "bm_clrbit_region (bitmap_t n) k m = Some bm" "bm_bits bm = bm_bits (bitmap_t n)"
    "\<forall>q. bm_val bm q \<longleftrightarrow> \<not> (k \<le> q \<and> q < k + m) \<and> bm_val (bitmap_t n) q"
    using bm.clr_region [of k 0 m "bitmap_t n"] assms(3,4) n by (auto simp: bm_clrbit_region_def bm_bits_def)
  then show ?thesis using assms(2) n by (intro exI [of _ bm]) (auto simp: cellbit_def with_bits_def bm_bits_def)
qed

lemma test_region:
  assumes "node_ok s a" and "mnodes s a = Some n" and "0 \<le> k" and "k + m \<le> 512"
  shows "bm_isset_region (bitmap_t n) k m = Some (if \<exists>i. k \<le> i \<and> i < k + m \<and> cellbit s a i then 1 else 0)"
proof -
  have n: "length (bitmap_t n) = 8" using assms(1,2) by (auto simp: node_ok_def)
  then show ?thesis
    using bm.tst_region [of k 0 m "bitmap_t n"] assms(2-4) by (simp add: bm_isset_region_def cellbit_def bm_bits_def)
qed

text \<open>In cells: the region is added or removed.\<close>

lemma region_cells: "uint r = key s a + 8 * k \<Longrightarrow> region r m = {key s a + 8 * i |i. k \<le> i \<and> i < k + m}"
  unfolding region_def by (intro set_eqI iffI; clarsimp; rename_tac i) (rule_tac x = "k + i" in exI, simp, rule_tac x = "i - k" in exI, simp)

lemma cells_add:
  assumes "a \<in> A" and "uint r = key s a + 8 * k" and "\<And>x. x \<in> A \<Longrightarrow> key s' x = key s x"
    and "\<And>x i. x \<in> A \<Longrightarrow> cellbit s' x i \<longleftrightarrow> x = a \<and> k \<le> i \<and> i < k + m \<or> cellbit s x i"
  shows "cells s' A = cells s A \<union> region r m"
  unfolding region_cells [OF assms(2)] cells_def using assms(1,3,4) by auto metis+

lemma cells_remove:
  assumes "mem_tree s root t" and "a \<in> set (ino t)" and "uint r = key s a + 8 * k" and "0 \<le> k" and "k + m \<le> 512"
    and "\<And>x. key s' x = key s x"
    and "\<And>x i. cellbit s' x i \<longleftrightarrow> \<not> (x = a \<and> k \<le> i \<and> i < k + m) \<and> cellbit s x i"
  shows "cells s' (set (ino t)) = cells s (set (ino t)) - region r m"
proof -
  have out: "key s x + 8 * i \<in> region r m \<longleftrightarrow> x = a \<and> k \<le> i \<and> i < k + m" if "x \<in> set (ino t)" "cellbit s x i" for x i
  proof -
    have "0 \<le> i" "i < 512" using cell_bound [OF _ that(2)] tree_nodes [OF assms(1) that(1)] by auto
    then show ?thesis unfolding region_cells [OF assms(3)]
      using offset_unique [OF assms(1) that(1) assms(2), of "8 * i"] assms(4,5) by auto
  qed
  show ?thesis using out unfolding cells_def assms(6,7) by blast
qed

section \<open>The invariant of a pool\<close>

text \<open>
  The bump pointer is in the body of the current node; the cells from it on and all bodies of higher addresses are free.  The last freed
  address is in some body of the pool, or at its end.
\<close>

definition series_ok :: "mem_state \<Rightarrow> mem_pool_t \<Rightarrow> rbt \<Rightarrow> bool" where
  "series_ok s q t \<longleftrightarrow> (\<exists>xs ys i. ino t = xs @ current_series_node q # ys \<and> 0 \<le> i \<and> i \<le> 512
     \<and> uint (current_series_ptr q) = key s (current_series_node q) + 8 * i
     \<and> (\<forall>k \<ge> i. \<not> cellbit s (current_series_node q) k) \<and> (\<forall>b \<in> set ys. \<forall>k. \<not> cellbit s b k))"

definition latest_ok :: "mem_state \<Rightarrow> mem_pool_t \<Rightarrow> rbt \<Rightarrow> bool" where
  "latest_ok s q t \<longleftrightarrow> latest_free_node q \<in> set (ino t)
     \<and> (\<exists>j. 0 \<le> j \<and> j \<le> 512 \<and> uint (latest_free_ptr q) = key s (latest_free_node q) + 8 * j)"

definition pool_inv :: "mem_state \<Rightarrow> mem_pool_t \<Rightarrow> rbt \<Rightarrow> bool" where
  "pool_inv s q t \<longleftrightarrow> mem_tree s (rbroot q) t \<and> series_ok s q t \<and> latest_ok s q t"

lemma mem_pool_upd [simp]:
  "key (s\<lparr>mem_pool := x\<rparr>) a = key s a" "cellbit (s\<lparr>mem_pool := x\<rparr>) a i = cellbit s a i"
  "mem_tree (s\<lparr>mem_pool := x\<rparr>) root t = mem_tree s root t"
  by (simp_all add: mem_tree_def key_def cellbit_def node_ok_def)

lemma series_ok_mem_pool [simp]: "series_ok (s\<lparr>mem_pool := x\<rparr>) q t \<longleftrightarrow> series_ok s q t"
  by (simp add: series_ok_def)

lemma pool_inv_mem_pool [simp]: "pool_inv (s\<lparr>mem_pool := x\<rparr>) q t \<longleftrightarrow> pool_inv s q t"
  by (simp add: pool_inv_def latest_ok_def)

lemma cells_mem_pool [simp]: "cells (s\<lparr>mem_pool := x\<rparr>) A = cells s A"
  by (simp add: cells_def)

text \<open>What an allocation of \<open>m\<close> cells does: it fails and changes no cell, or it takes a region of free cells.\<close>

definition took :: "mem_state \<Rightarrow> rbt \<Rightarrow> int \<Rightarrow> u64 \<Rightarrow> (mem_state \<times> u64) option \<Rightarrow> bool" where
  "took s t m p res \<longleftrightarrow> (\<exists>s' r q' t'. res = Some (s', r) \<and> mem_pool s' = Pool p q' \<and> pool_inv s' q' t'
     \<and> set (ino t) \<subseteq> set (ino t') \<and> (\<forall>x \<in> set (ino t). key s' x = key s x)
     \<and> (if r = 0 then cells s' (set (ino t')) = cells s (set (ino t))
        else region r m \<inter> cells s (set (ino t)) = {} \<and> cells s' (set (ino t')) = cells s (set (ino t)) \<union> region r m
          \<and> (\<exists>a \<in> set (ino t'). key s' a \<le> uint r \<and> uint r + 8 * m \<le> key s' a + 4096)))"

lemma tookI:
  assumes "pool_inv s' q' t" and "mem_tree s root t" and a: "a \<in> set (ino t)" "uint r = key s a + 8 * k" "0 \<le> k" "k + m \<le> 512" "r \<noteq> 0"
    and "mem_pool s' = Pool p q'" and "\<And>x. key s' x = key s x"
    and "\<And>x i. cellbit s' x i \<longleftrightarrow> x = a \<and> k \<le> i \<and> i < k + m \<or> cellbit s x i"
    and "\<And>i. k \<le> i \<Longrightarrow> i < k + m \<Longrightarrow> \<not> cellbit s a i"
  shows "took s t m p (Some (s', r))"
proof -
  have "region r m \<inter> cells s (set (ino t)) = {}"
    unfolding region_cells [OF a(2)] using cells_iff [OF assms(2) a(1)] a(3,4) assms(11) by auto
  moreover have "cells s' (set (ino t)) = cells s (set (ino t)) \<union> region r m"
    using cells_add [OF a(1,2), of s' m] assms(9,10) by blast
  moreover have "\<exists>b \<in> set (ino t). key s' b \<le> uint r \<and> uint r + 8 * m \<le> key s' b + 4096"
    using a assms(9) by (intro bexI [of _ a]) auto
  ultimately show ?thesis unfolding took_def using assms(1,8,9) a
    by (intro exI [of _ s'] exI [of _ r] exI [of _ q'] exI [of _ t]) simp
qed

lemma preal_nonzero: "node_ok s a \<Longrightarrow> uint r = key s a + 8 * k \<Longrightarrow> 0 \<le> k \<Longrightarrow> r \<noteq> 0"
proof -
  assume h: "node_ok s a" "uint r = key s a + 8 * k" "0 \<le> k"
  then obtain n where n: "mnodes s a = Some n" "preal n \<noteq> 0" by (auto simp: node_ok_def)
  then have "key s a = uint (preal n)" by (simp add: key_def)
  then have "0 < key s a" using n(2) uint_ge_0 [of "preal n"] by (metis order_le_less uint_0_iff)
  then show "r \<noteq> 0" using h(2,3) by auto
qed

lemma series_okE:
  assumes "series_ok s q t" and "mem_tree s root t"
  obtains xs ys i n where "ino t = xs @ current_series_node q # ys" and "0 \<le> i" and "i \<le> 512"
    and "uint (current_series_ptr q) = key s (current_series_node q) + 8 * i"
    and "\<And>k. i \<le> k \<Longrightarrow> \<not> cellbit s (current_series_node q) k" and "\<And>b k. b \<in> set ys \<Longrightarrow> \<not> cellbit s b k"
    and "mnodes s (current_series_node q) = Some n" and "key s (current_series_node q) = uint (preal n)"
    and "node_ok s (current_series_node q)"
proof -
  obtain xs ys i where *: "ino t = xs @ current_series_node q # ys" "0 \<le> i" "i \<le> 512"
     "uint (current_series_ptr q) = key s (current_series_node q) + 8 * i"
     "\<forall>k \<ge> i. \<not> cellbit s (current_series_node q) k" "\<forall>b \<in> set ys. \<forall>k. \<not> cellbit s b k"
    using assms(1) unfolding series_ok_def by blast
  have ok: "node_ok s (current_series_node q)" using tree_nodes [OF assms(2)] *(1) by auto
  then obtain n where "mnodes s (current_series_node q) = Some n" "key s (current_series_node q) = uint (preal n)" by (auto elim: node_okE)
  then show thesis using that * ok by blast
qed

lemma tree_distinct: "mem_tree s root t \<Longrightarrow> distinct (ino t)"
  by (simp add: mem_tree_def rb_rep_def)

section \<open>The four attempts\<close>

lemma palloc_next_spec:
  assumes inv: "mem_pool s = Pool p q" "pool_inv s q t" and split: "ino t = xs @ current_series_node q # b # ys"
    and free: "\<And>x k. x \<in> set (b # ys) \<Longrightarrow> \<not> cellbit s x k" and m: "0 < m" "m \<le> 512"
  shows "took s t m p (palloc_next s (current_series_node q) m (8 * m))"
proof -
  have tree: "mem_tree s (rbroot q) t" and latest: "latest_ok s q t" using inv(2) by (auto simp: pool_inv_def)
  have b: "b \<noteq> 0" "node_ok s b" "b \<in> set (ino t)" using tree_nodes [OF tree, of b] split by auto
  from b(2) obtain n where n: "mnodes s b = Some n" "preal n \<noteq> 0" "key s b = uint (preal n)" "key s b + 4096 < 2 ^ 64" by (auto elim: node_okE)
  obtain bm where bm: "bm_setbit_region (bitmap_t n) 0 m = Some bm" "length bm = 8"
    "\<And>x i. cellbit (with_bits s b bm) x i \<longleftrightarrow> x = b \<and> 0 \<le> i \<and> i < m \<or> cellbit s x i"
    using mark_region [OF b(2) n(1), of 0 m] m by auto
  let ?s1 = "with_bits s b bm"
  let ?q = "q\<lparr>current_series_node := b, current_series_ptr := ptr_add (preal n) (8 * m), pool_left_series_size := pool_left_series_size q - word_of_int (8 * m)\<rparr>"
  let ?s' = "?s1\<lparr>mem_pool := Pool p ?q\<rparr>"
  have res: "palloc_next s (current_series_node q) m (8 * m) = Some (?s', preal n)"
    using tree_next [OF tree split] b(1) n(1) bm(1) inv(1) by (simp add: palloc_next_def set_bits_in set_pool_def)
  have "mem_tree ?s1 (rbroot q) t" by (rule with_bits_tree [OF tree n(1) bm(2)])
  moreover have "series_ok ?s1 ?q t" unfolding series_ok_def
    using split m n free bm(3) tree_distinct [OF tree]
    by (intro exI [of _ "xs @ [current_series_node q]"] exI [of _ ys] exI [of _ m]) (auto simp: uint_ptr_add)
  moreover have "latest_ok ?s1 ?q t" using latest n(1) by (simp add: latest_ok_def)
  ultimately have "pool_inv ?s' ?q t" unfolding pool_inv_mem_pool by (simp add: pool_inv_def)
  then show ?thesis unfolding res
    using n free bm(3) m b(3) by (intro tookI [OF _ tree b(3), of ?s' ?q "preal n" 0]) auto
qed

lemma cellbit_cong: "mnodes s' x = mnodes s x \<Longrightarrow> key s' x = key s x \<and> cellbit s' x = cellbit s x"
  by (simp add: cellbit_def key_def fun_eq_iff)

lemma pool_inv_cong:
  assumes "pool_inv s q t" and "\<And>x. x \<in> set (ino t) \<Longrightarrow> mnodes s' x = mnodes s x \<and> links s' x = links s x"
  shows "pool_inv s' q t" and "cells s' (set (ino t)) = cells s (set (ino t))"
proof -
  have same: "key s' x = key s x" "cellbit s' x = cellbit s x" if "x \<in> set (ino t)" for x
    using cellbit_cong [of s' x s] assms(2) [OF that] by auto
  have tree: "mem_tree s (rbroot q) t" and ser: "series_ok s q t" and lat: "latest_ok s q t" using assms(1) by (simp_all add: pool_inv_def)
  have "mem_tree s' (rbroot q) t" by (rule mem_tree_cong [OF tree]) (simp add: assms(2) view_def)
  moreover have "series_ok s' q t"
  proof -
    obtain xs ys i where *: "ino t = xs @ current_series_node q # ys" "0 \<le> i" "i \<le> 512"
      "uint (current_series_ptr q) = key s (current_series_node q) + 8 * i"
      "\<forall>k \<ge> i. \<not> cellbit s (current_series_node q) k" "\<forall>b \<in> set ys. \<forall>k. \<not> cellbit s b k"
      using ser unfolding series_ok_def by blast
    then have "key s' (current_series_node q) = key s (current_series_node q)"
      "cellbit s' (current_series_node q) = cellbit s (current_series_node q)" "\<And>b. b \<in> set ys \<Longrightarrow> cellbit s' b = cellbit s b"
      using same by auto
    then show ?thesis unfolding series_ok_def using * by (intro exI [of _ xs] exI [of _ ys] exI [of _ i]) simp
  qed
  moreover have "latest_ok s' q t" using lat same by (simp add: latest_ok_def)
  ultimately show "pool_inv s' q t" by (simp add: pool_inv_def)
  show "cells s' (set (ino t)) = cells s (set (ino t))" unfolding cells_def using same by (intro Collect_cong) metis
qed

text \<open>The next results of the C allocator: a failure, or a struct that is not a node yet and a body above all others.\<close>

definition more_memory :: "mem_state \<Rightarrow> u64 set \<Rightarrow> bool" where
  "more_memory s A \<longleftrightarrow> (case mallocs s of [] \<Rightarrow> True | a # ms \<Rightarrow> a = 0 \<or> aligned a \<and> a \<notin> A
     \<and> (case ms of [] \<Rightarrow> True | b # _ \<Rightarrow> b = 0 \<or> uint b + 4096 < 2 ^ 64 \<and> (\<forall>x \<in> A. key s x + 4096 < uint b)))"

lemma init_cases:
  assumes "more_memory s A"
  shows "(\<exists>s'. minipwr_init_mem_node s = Some (s', 0) \<and> mem_pool s' = mem_pool s
        \<and> (\<forall>x \<in> A. mnodes s' x = mnodes s x \<and> links s' x = links s x))
    \<or> (\<exists>a b ms. minipwr_init_mem_node s = Some (new_node s a b ms, a) \<and> a \<noteq> 0 \<and> aligned a \<and> a \<notin> A \<and> b \<noteq> 0 \<and> uint b + 4096 < 2 ^ 64
        \<and> (\<forall>x \<in> A. key s x + 4096 < uint b))"
proof (cases "\<exists>a b ms. mallocs s = a # b # ms \<and> a \<noteq> 0 \<and> b \<noteq> 0")
  case True
  then show ?thesis using init_spec assms unfolding more_memory_def by fastforce
next
  case False
  show ?thesis
  proof (cases "mallocs s")
    case (Cons p ps)
    then show ?thesis using False assms
      by (cases ps) (auto simp: minipwr_init_mem_node_def minipwr_stdalloc_def minipwr_memalign_def raw_node_def mnode_upd_def more_memory_def)
  qed (simp add: minipwr_init_mem_node_def minipwr_stdalloc_def)
qed

lemma bm_val_replicate: "\<not> bm_val (replicate k 0) i"
  using word_index [of i "replicate k 0"] by (auto simp: bm_val_def nat_less_iff)

lemma palloc_expand_spec:
  assumes inv: "mem_pool s = Pool p q" "pool_inv s q t" and mem: "more_memory s (set (ino t))" and m: "0 < m" "m \<le> 512"
  shows "took s t m p (palloc_expand s m (8 * m))"
proof -
  have tree: "mem_tree s (rbroot q) t" and latest: "latest_ok s q t" using inv(2) by (auto simp: pool_inv_def)
  consider s' where "minipwr_init_mem_node s = Some (s', 0)" "mem_pool s' = Pool p q"
      "\<And>x. x \<in> set (ino t) \<Longrightarrow> mnodes s' x = mnodes s x \<and> links s' x = links s x"
    | a b ms where "minipwr_init_mem_node s = Some (new_node s a b ms, a)" "fresh_node s (ino t) a b"
      "\<And>x. x \<in> set (ino t) \<Longrightarrow> key s x + 4096 < uint b"
    using init_cases [OF mem] inv(1) unfolding fresh_node_def by metis
  then show ?thesis
  proof cases
    case 1
    then have "palloc_expand s m (8 * m) = Some (s', 0)" by (simp add: palloc_expand_def)
    then show ?thesis unfolding took_def using pool_inv_cong [OF inv(2) 1(3)] 1(2) cellbit_cong [OF conjunct1 [OF 1(3)]]
      by (intro exI [of _ s'] exI [of _ 0] exI [of _ q] exI [of _ t]) simp
  next
    case 2
    let ?s1 = "new_node s a b ms" and ?n = "\<lparr>bitmap_t = replicate 8 0, preal = b\<rparr>"
    note new = new_node_tree [OF tree 2(2), where ms = ms]
    have a: "a \<noteq> 0" "aligned a" "a \<notin> set (ino t)" "b \<noteq> 0" "uint b + 4096 < 2 ^ 64" using 2(2) by (auto simp: fresh_node_def)
    have n: "mnodes ?s1 a = Some ?n" by (simp add: new_node_def)
    obtain bm where bm: "bm_setbit_region (bitmap_t ?n) 0 m = Some bm" "length bm = 8"
      "\<And>x i. cellbit (with_bits ?s1 a bm) x i \<longleftrightarrow> x = a \<and> 0 \<le> i \<and> i < 0 + m \<or> cellbit ?s1 x i"
      using mark_region [OF new(2) n, of 0 m] m by auto
    let ?s2 = "with_bits ?s1 a bm"
    have tree2: "mem_tree ?s2 (rbroot q) t" by (rule with_bits_tree [OF new(1) n bm(2)])
    have key2: "key ?s2 a = uint b" "\<And>x. x \<in> set (ino t) \<Longrightarrow> key ?s2 x = key s x" using new(4,5) n by auto
    have ok2: "node_ok ?s2 a" using n bm(2) a by (simp add: node_ok_def with_bits_def)
    have "\<forall>x \<in> set (ino t). key ?s2 x + 4096 < key ?s2 a \<or> key ?s2 a + 4096 < key ?s2 x" using 2(3) key2 by simp
    then obtain h root' u where ins: "minipwr_mem_node_insert ?s2 (rbroot q) a = Some (?s2\<lparr>links := h\<rparr>, root', 1)"
      "mem_tree (?s2\<lparr>links := h\<rparr>) root' u"
      "ino u = filter (\<lambda>x. key ?s2 x < key ?s2 a) (ino t) @ a # filter (\<lambda>x. \<not> key ?s2 x < key ?s2 a) (ino t)"
      using mem_insert_spec [OF tree2 ok2 a(1,2) _ a(3)] new(3) by auto
    have "key ?s2 x < key ?s2 a" if "x \<in> set (ino t)" for x using 2(3) [OF that] key2 that by simp
    then have u: "ino u = ino t @ [a]" using ins(3) by (simp add: filter_id_conv filter_empty_conv)
    let ?q = "q\<lparr>rbroot := root', current_series_node := a, current_series_ptr := ptr_add b (8 * m),
      pool_left_series_size := pool_left_series_size q + (word_of_int MEM_NODE_SIZE - word_of_int (8 * m)),
      pool_total_size := pool_total_size q + word_of_int MEM_NODE_SIZE, pool_node_nb := pool_node_nb q + 1\<rparr>"
    let ?s3 = "?s2\<lparr>links := h\<rparr>" and ?s' = "?s2\<lparr>links := h, mem_pool := Pool p ?q\<rparr>"
    have mp: "mem_pool ?s1 = Pool p q" using inv(1) by (simp add: new_node_def)
    have res: "palloc_expand s m (8 * m) = Some (?s', b)"
      using 2(1) a(1) n bm(1) ins(1) mp by (simp add: palloc_expand_def set_bits_in set_pool_def)
    have fields: "key ?s3 x = key ?s2 x" "cellbit ?s3 x = cellbit ?s2 x" for x by (simp_all add: key_def cellbit_def fun_eq_iff)
    have old: "cellbit ?s2 x i = cellbit s x i" if "x \<in> set (ino t)" for x i
      using that a(3) bm(3) by (auto simp: cellbit_def new_node_def)
    have new_bits: "cellbit ?s2 a i \<longleftrightarrow> 0 \<le> i \<and> i < m" for i
    proof -
      have "\<not> cellbit ?s1 a i" using n bm_val_replicate by (simp add: cellbit_def)
      then show ?thesis using bm(3) [of a i] by simp
    qed
    have above: "\<forall>k \<ge> m. \<not> cellbit ?s2 a k" unfolding new_bits by simp
    have cur: "uint (ptr_add b (8 * m)) = key ?s2 a + 8 * m" unfolding key2(1) using a(5) m by (intro uint_ptr_add) auto
    have "series_ok ?s3 ?q u" unfolding series_ok_def fields
      using u m above cur by (intro exI [of _ "ino t"] exI [of _ "[]"] exI [of _ m]) simp
    moreover have "latest_ok ?s3 ?q u" using latest key2(2) unfolding latest_ok_def fields u by simp
    ultimately have inv': "pool_inv ?s' ?q u" unfolding pool_inv_mem_pool using ins(2) by (simp add: pool_inv_def)
    have cells': "cells ?s' (set (ino u)) = cells s (set (ino t)) \<union> region b m"
    proof -
      have "cells ?s3 (set (ino u)) = {key s x + 8 * i |x i. x \<in> set (ino t) \<and> cellbit s x i} \<union> {uint b + 8 * i |i. 0 \<le> i \<and> i < m}"
        unfolding cells_def fields u set_append Un_iff using key2 old new_bits by (intro set_eqI) (simp, metis)
      then show ?thesis by (simp add: cells_def region_def)
    qed
    have "uint b + 8 * i \<noteq> key s x + 8 * k" if "0 \<le> i" "x \<in> set (ino t)" "cellbit s x k" for i x k
      using 2(3) [OF that(2)] cell_bound [OF _ that(3)] tree_nodes [OF tree that(2)] that(1) by auto
    then have "region b m \<inter> cells s (set (ino t)) = {}" by (auto simp: region_def cells_def)
    then show ?thesis unfolding took_def res using inv' cells' u a key2 m
      by (intro exI [of _ ?s'] exI [of _ b] exI [of _ ?q] exI [of _ u]) (auto simp: key_def)
  qed
qed

lemma palloc_series_spec:
  assumes inv: "mem_pool s = Pool p q" "pool_inv s q t" and mem: "more_memory s (set (ino t))" and m: "0 < m" "m \<le> 512"
    and moved: "latest_free_ptr q \<noteq> current_series_ptr q"
  shows "took s t m p (palloc_series s m (8 * m))"
proof -
  let ?c = "current_series_node q"
  have tree: "mem_tree s (rbroot q) t" and latest: "latest_ok s q t" and ser: "series_ok s q t" using inv(2) by (auto simp: pool_inv_def)
  from series_okE [OF ser tree] obtain xs ys i n where split: "ino t = xs @ ?c # ys" and i: "0 \<le> i" "i \<le> 512"
    and cur: "uint (current_series_ptr q) = key s ?c + 8 * i" and above: "\<And>k. i \<le> k \<Longrightarrow> \<not> cellbit s ?c k"
    and free: "\<And>b k. b \<in> set ys \<Longrightarrow> \<not> cellbit s b k" and n: "mnodes s ?c = Some n" "key s ?c = uint (preal n)" and ok: "node_ok s ?c"
    by metis
  have pos: "c_int (ptr_diff (current_series_ptr q) (preal n)) = 8 * i"
    using ptr_diff_offset [of "current_series_ptr q" "preal n" "8 * i"] cur n(2) i c_int_small [of "8 * i"] by simp
  show ?thesis
  proof (cases "8 * i + 8 * m < 4096")
    case True
    obtain bm where bm: "bm_setbit_region (bitmap_t n) i m = Some bm" "length bm = 8"
      "\<And>x k. cellbit (with_bits s ?c bm) x k \<longleftrightarrow> x = ?c \<and> i \<le> k \<and> k < i + m \<or> cellbit s x k"
      using mark_region [OF ok n(1) i(1), of m] True by auto
    let ?s1 = "with_bits s ?c bm"
    let ?q = "q\<lparr>current_series_ptr := ptr_add (current_series_ptr q) (8 * m),
      pool_left_series_size := pool_left_series_size q - word_of_int (8 * m), latest_free_ptr := latest_free_ptr q\<rparr>"
    let ?s' = "?s1\<lparr>mem_pool := Pool p ?q\<rparr>"
    have res: "palloc_series s m (8 * m) = Some (?s', current_series_ptr q)"
      using inv(1) n(1) pos True bm(1) moved by (simp add: palloc_series_def set_bits_in set_pool_def round_up_8 Let_def)
    have d: "?c \<notin> set ys" using tree_distinct [OF tree] split by simp
    have "key s ?c + 4096 < 2 ^ 64" using ok by (auto simp: node_ok_def key_def)
    then have cur': "uint (ptr_add (current_series_ptr q) (8 * m)) = key ?s1 ?c + 8 * (i + m)"
      using uint_ptr_add [of "8 * m" "current_series_ptr q"] m i True cur n(1) by simp
    have "\<forall>k \<ge> i + m. \<not> cellbit ?s1 ?c k" "\<forall>b \<in> set ys. \<forall>k. \<not> cellbit ?s1 b k" using above free d m unfolding bm(3) by auto
    then have "series_ok ?s1 ?q t" unfolding series_ok_def
      using split i m True cur' by (intro exI [of _ xs] exI [of _ ys] exI [of _ "i + m"]) simp
    moreover have "latest_ok ?s1 ?q t" using latest n(1) by (simp add: latest_ok_def)
    ultimately have "pool_inv ?s' ?q t" unfolding pool_inv_mem_pool using with_bits_tree [OF tree n(1) bm(2)] by (simp add: pool_inv_def)
    then show ?thesis unfolding res
      using cur i True above n(1) split preal_nonzero [OF ok cur i(1)] bm(3)
      by (intro tookI [OF _ tree, of ?s' ?q ?c "current_series_ptr q" i]) auto
  next
    case False
    have res: "palloc_series s m (8 * m) = palloc_next s ?c m (8 * m)"
      using inv(1) n(1) pos False by (simp add: palloc_series_def Let_def)
    show ?thesis
    proof (cases ys)
      case Nil
      have "palloc_next s ?c m (8 * m) = palloc_expand s m (8 * m)"
        using tree_next [OF tree split] Nil by (simp add: palloc_next_def)
      then show ?thesis unfolding res using palloc_expand_spec [OF inv mem m] by simp
    next
      case (Cons b ys')
      then show ?thesis unfolding res using palloc_next_spec [OF inv, of xs b ys' m] split free m by simp
    qed
  qed
qed

text \<open>
  The condition under which the first attempt is sound: the region at the last freed address is inside its body, and it is taken, starts at the
  bump pointer, or ends before it.
\<close>

definition latest_sound :: "mem_state \<Rightarrow> mem_pool_t \<Rightarrow> int set \<Rightarrow> int \<Rightarrow> bool" where
  "latest_sound s q U m \<longleftrightarrow> uint (latest_free_ptr q) + 8 * m \<le> key s (latest_free_node q) + 4096
     \<and> (latest_free_ptr q = current_series_ptr q \<or> uint (latest_free_ptr q) + 8 * m \<le> uint (current_series_ptr q)
        \<or> region (latest_free_ptr q) m \<inter> U \<noteq> {})"

lemma palloc_latest_spec:
  assumes inv: "mem_pool s = Pool p q" "pool_inv s q t" and mem: "more_memory s (set (ino t))" and m: "0 < m" "m \<le> 512"
    and sound: "latest_sound s q (cells s (set (ino t))) m"
  shows "took s t m p (palloc_latest s m (8 * m))"
proof -
  let ?l = "latest_free_node q" and ?c = "current_series_node q"
  have tree: "mem_tree s (rbroot q) t" and latest: "latest_ok s q t" and ser: "series_ok s q t" using inv(2) by (auto simp: pool_inv_def)
  obtain j where l: "?l \<in> set (ino t)" "0 \<le> j" "j \<le> 512" "uint (latest_free_ptr q) = key s ?l + 8 * j" using latest by (auto simp: latest_ok_def)
  have ok: "node_ok s ?l" using tree_nodes [OF tree l(1)] by blast
  then obtain n where n: "mnodes s ?l = Some n" "key s ?l = uint (preal n)" by (auto simp: node_ok_def key_def)
  from series_okE [OF ser tree] obtain xs ys i where split: "ino t = xs @ ?c # ys" and i: "0 \<le> i" "i \<le> 512"
    and cur: "uint (current_series_ptr q) = key s ?c + 8 * i" and above: "\<And>k. i \<le> k \<Longrightarrow> \<not> cellbit s ?c k"
    and free: "\<And>b k. b \<in> set ys \<Longrightarrow> \<not> cellbit s b k"
    by metis
  have c: "?c \<in> set (ino t)" using split by simp
  have jm: "j + m \<le> 512" using sound l(4) by (simp add: latest_sound_def)
  have pos: "c_int (DIV_ROUND_UP_FOR_8BYTES (ptr_diff (latest_free_ptr q) (preal n))) = j"
    using ptr_diff_offset [of "latest_free_ptr q" "preal n" "8 * j"] l n(2) c_int_small [of j] by (simp add: round_up_8)
  have same: "?l = ?c \<and> j = i" if "latest_free_ptr q = current_series_ptr q"
    using offset_unique [OF tree l(1) c, of "8 * j" "8 * i"] that l cur i by auto
  note test = test_region [OF ok n(1) l(2) jm]
  show ?thesis
  proof (cases "\<exists>k. j \<le> k \<and> k < j + m \<and> cellbit s ?l k")
    case True
    then have "palloc_latest s m (8 * m) = palloc_series s m (8 * m)"
      using inv(1) n(1) pos test by (simp add: palloc_latest_def Let_def)
    moreover have "latest_free_ptr q \<noteq> current_series_ptr q" using True same above by metis
    ultimately show ?thesis using palloc_series_spec [OF inv mem m] by simp
  next
    case False
    obtain bm where bm: "bm_setbit_region (bitmap_t n) j m = Some bm" "length bm = 8"
      "\<And>x k. cellbit (with_bits s ?l bm) x k \<longleftrightarrow> x = ?l \<and> j \<le> k \<and> k < j + m \<or> cellbit s x k"
      using mark_region [OF ok n(1) l(2) jm] by auto
    let ?s1 = "with_bits s ?l bm"
    define q' where "q' = (if latest_free_ptr q = current_series_ptr q then q\<lparr>current_series_ptr := ptr_add (current_series_ptr q) (8 * m),
      pool_left_series_size := pool_left_series_size q - word_of_int (8 * m)\<rparr> else q)"
    let ?s' = "?s1\<lparr>mem_pool := Pool p q'\<rparr>"
    have res: "palloc_latest s m (8 * m) = Some (?s', latest_free_ptr q)"
      using inv(1) n(1) pos test False bm(1) by (simp add: palloc_latest_def set_bits_in set_pool_def Let_def q'_def)
    have "region (latest_free_ptr q) m \<inter> cells s (set (ino t)) = {}"
      unfolding region_cells [OF l(4)] using cells_iff [OF tree l(1)] l(2) jm False by auto
    then have ends: "latest_free_ptr q = current_series_ptr q \<or> key s ?l + 8 * (j + m) \<le> key s ?c + 8 * i"
      using sound l(4) cur by (auto simp: latest_sound_def)
    have tree1: "mem_tree ?s1 (rbroot q) t" by (rule with_bits_tree [OF tree n(1) bm(2)])
    have series1: "series_ok ?s1 q' t"
    proof (cases "latest_free_ptr q = current_series_ptr q")
      case True
      then have lc: "?l = ?c" "j = i" using same by auto
      have "key s ?c + 4096 < 2 ^ 64" using ok lc by (auto simp: node_ok_def key_def)
      then have cur': "uint (ptr_add (current_series_ptr q) (8 * m)) = key ?s1 ?c + 8 * (i + m)"
        using uint_ptr_add [of "8 * m" "current_series_ptr q"] m i jm lc cur n(1) by simp
      have "?c \<notin> set ys" using tree_distinct [OF tree] split by simp
      then have "\<forall>k \<ge> i + m. \<not> cellbit ?s1 ?c k" "\<forall>b \<in> set ys. \<forall>k. \<not> cellbit ?s1 b k" using above free lc m unfolding bm(3) by auto
      then show ?thesis unfolding series_ok_def q'_def
        using True split i m jm lc cur' by (intro exI [of _ xs] exI [of _ ys] exI [of _ "i + m"]) simp
    next
      case False
      then have le: "key s ?l + 8 * (j + m) \<le> key s ?c + 8 * i" using ends by blast
      have sorted: "sorted_wrt (\<lambda>a b. key s a + 4096 < key s b) (ino t)" using tree by (simp add: mem_tree_def)
      have "?l \<notin> set ys"
      proof
        assume "?l \<in> set ys"
        then have "key s ?c + 4096 < key s ?l" using sorted split by (simp add: sorted_wrt_append)
        then show False using le l(2) m(1) i by (simp add: distrib_left)
      qed
      then have "\<forall>b \<in> set ys. \<forall>k. \<not> cellbit ?s1 b k" using free unfolding bm(3) by auto
      moreover have "\<forall>k \<ge> i. \<not> cellbit ?s1 ?c k" using le above unfolding bm(3) by auto
      ultimately show ?thesis unfolding series_ok_def q'_def
        using False split i cur n(1) by (intro exI [of _ xs] exI [of _ ys] exI [of _ i]) simp
    qed
    have q': "latest_free_node q' = ?l" "latest_free_ptr q' = latest_free_ptr q" by (simp_all add: q'_def)
    have "latest_ok ?s1 q' t" using latest n(1) unfolding latest_ok_def q' by simp
    moreover have "rbroot q' = rbroot q" by (simp add: q'_def)
    ultimately have "pool_inv ?s' q' t" unfolding pool_inv_mem_pool using tree1 series1 by (simp add: pool_inv_def)
    then show ?thesis unfolding res
      using l n(1) jm False preal_nonzero [OF ok l(4,2)] bm(3)
      by (intro tookI [OF _ tree l(1), of ?s' q' "latest_free_ptr q" j]) auto
  qed
qed

lemma c_int_cells: "0 < m \<Longrightarrow> m \<le> 512 \<Longrightarrow> c_int (push_bit 3 m) = 8 * m"
  by (simp add: push_bit_eq_mult c_int_small)

lemma palloc_spec:
  assumes "mem_pool s = Pool p q" "pool_inv s q t" and "more_memory s (set (ino t))" and "0 < m" "m \<le> 512" and "latest_sound s q (cells s (set (ino t))) m"
  shows "took s t m p (minipwr_palloc s m)"
  using palloc_latest_spec [OF assms] assms(1,4,5) by (simp add: minipwr_palloc_def c_int_cells)

section \<open>Release\<close>

lemma pfree_spec:
  assumes inv: "mem_pool s = Pool p q" "pool_inv s q t" and a: "a \<in> set (ino t)" "uint r = key s a + 8 * k"
    and m: "0 \<le> k" "0 < m" "k + m \<le> 512"
  shows "\<exists>s' q'. minipwr_pfree s r m = Some s' \<and> mem_pool s' = Pool p q' \<and> pool_inv s' q' t \<and> latest_free_ptr q' = r
    \<and> cells s' (set (ino t)) = cells s (set (ino t)) - region r m"
proof -
  let ?c = "current_series_node q"
  have tree: "mem_tree s (rbroot q) t" and ser: "series_ok s q t" using inv(2) by (auto simp: pool_inv_def)
  have a0: "a \<noteq> 0" and ok: "node_ok s a" using tree_nodes [OF tree a(1)] by auto
  then obtain n where n: "mnodes s a = Some n" "key s a = uint (preal n)" by (auto simp: node_ok_def key_def)
  have r0: "r \<noteq> 0" by (rule preal_nonzero [OF ok a(2) m(1)])
  have "covers s r a" using a(2) m by (simp add: covers_def)
  then have "find (covers s r) (ino t) = Some a" using covers_unique [OF tree] a(1) by (metis split_list)
  then have search: "minipwr_mem_node_search s (rbroot q) r = Some a" using mem_search_spec [OF tree, of r] by simp
  have pos: "c_int (DIV_ROUND_UP_FOR_8BYTES (ptr_diff r (preal n))) = k"
    using ptr_diff_offset [of r "preal n" "8 * k"] a(2) n(2) m c_int_small [of k] by (simp add: round_up_8)
  obtain bm where bm: "bm_clrbit_region (bitmap_t n) k m = Some bm" "length bm = 8"
    "\<And>x i. cellbit (with_bits s a bm) x i \<longleftrightarrow> \<not> (x = a \<and> k \<le> i \<and> i < k + m) \<and> cellbit s x i"
    using clear_region [OF ok n(1) m(1,3)] by auto
  let ?s1 = "with_bits s a bm" and ?q1 = "q\<lparr>latest_free_node := a, latest_free_ptr := r\<rparr>"
  define q' where "q' = (if current_series_ptr q = ptr_add r (8 * m) then ?q1\<lparr>current_series_ptr := r,
    pool_left_series_size := pool_left_series_size q + word_of_int (8 * m)\<rparr> else ?q1)"
  let ?s' = "?s1\<lparr>mem_pool := Pool p q'\<rparr>"
  have res: "minipwr_pfree s r m = Some ?s'"
    using inv(1) r0 a0 search n(1) pos bm(1) m c_int_cells [of m]
    by (simp add: minipwr_pfree_def set_bits_in set_pool_def Let_def q'_def)
  have q': "latest_free_node q' = a" "latest_free_ptr q' = r" "rbroot q' = rbroot q" "current_series_node q' = ?c" by (simp_all add: q'_def)
  from series_okE [OF ser tree] obtain xs ys i where split: "ino t = xs @ ?c # ys" and i: "0 \<le> i" "i \<le> 512"
    and cur: "uint (current_series_ptr q) = key s ?c + 8 * i" and above: "\<And>k. i \<le> k \<Longrightarrow> \<not> cellbit s ?c k"
    and free: "\<And>b k. b \<in> set ys \<Longrightarrow> \<not> cellbit s b k"
    by metis
  have free1: "\<forall>b \<in> set ys. \<forall>k. \<not> cellbit ?s1 b k" using free unfolding bm(3) by auto
  have "key s a + 4096 < 2 ^ 64" using ok by (auto simp: node_ok_def key_def)
  then have r_end: "uint (ptr_add r (8 * m)) = key s a + 8 * (k + m)" using uint_ptr_add [of "8 * m" r] a(2) m by simp
  have "series_ok ?s1 q' t"
  proof (cases "current_series_ptr q = ptr_add r (8 * m)")
    case True
    then have "?c = a \<and> 8 * i = 8 * (k + m)"
      using offset_unique [OF tree _ a(1), of ?c "8 * i" "8 * (k + m)"] split cur r_end i m by auto
    then have ca: "?c = a" "i = k + m" by auto
    have "\<forall>x \<ge> k. \<not> cellbit ?s1 ?c x" using above ca unfolding bm(3) by auto
    then show ?thesis unfolding series_ok_def q'
      using True split free1 m ca a(2) n(1) by (intro exI [of _ xs] exI [of _ ys] exI [of _ k]) (simp add: q'_def)
  next
    case False
    have "\<forall>x \<ge> i. \<not> cellbit ?s1 ?c x" using above unfolding bm(3) by auto
    then show ?thesis unfolding series_ok_def q'
      using False split free1 i cur n(1) by (intro exI [of _ xs] exI [of _ ys] exI [of _ i]) (simp add: q'_def)
  qed
  moreover have "latest_ok ?s1 q' t" unfolding latest_ok_def q' using a m n(1) by (auto intro!: exI [of _ k])
  ultimately have "pool_inv ?s' q' t"
    unfolding pool_inv_mem_pool using with_bits_tree [OF tree n(1) bm(2)] q'(3) by (simp add: pool_inv_def)
  moreover have "cells ?s' (set (ino t)) = cells s (set (ino t)) - region r m"
    using cells_remove [OF tree a m(1,3), of ?s'] n(1) bm(3) by simp
  ultimately show ?thesis using res q'(2) by (intro exI [of _ ?s'] exI [of _ q']) simp
qed

text \<open>A block that is in no body goes back to the C allocator.\<close>

lemma pfree_big:
  assumes "mem_pool s = Pool p q" and "mem_tree s (rbroot q) t" and "\<forall>a \<in> set (ino t). \<not> covers s r a" and "r \<noteq> 0"
  shows "minipwr_pfree s r m = minipwr_stdfree s r"
proof -
  have "find (covers s r) (ino t) = None" using assms(3) by (auto simp: find_None_iff)
  then have "minipwr_mem_node_search s (rbroot q) r = Some 0" using mem_search_spec [OF assms(2), of r] by simp
  then show ?thesis using assms(1,4) by (simp add: minipwr_pfree_def Let_def)
qed

text \<open>Consecutive used cells are in one body.\<close>

lemma region_in_body:
  assumes tree: "mem_tree s root t" and "region r m \<subseteq> cells s (set (ino t))" and m: "0 < m"
  shows "\<exists>a k. a \<in> set (ino t) \<and> uint r = key s a + 8 * k \<and> 0 \<le> k \<and> k + m \<le> 512"
proof -
  have cell: "\<exists>a k. a \<in> set (ino t) \<and> x = key s a + 8 * k \<and> 0 \<le> k \<and> k < 512" if "x \<in> cells s (set (ino t))" for x
    using that tree_nodes [OF tree] cell_bound unfolding cells_def by blast
  have "uint r \<in> region r m" using m by (force simp: region_def)
  then obtain a k where a: "a \<in> set (ino t)" "uint r = key s a + 8 * k" "0 \<le> k" "k < 512" using cell assms(2) by blast
  have "k + m \<le> 512"
  proof (rule ccontr)
    assume "\<not> k + m \<le> 512"
    then have "key s a + 4096 \<in> region r m" using a(2-4) by (auto simp: region_def intro!: exI [of _ "512 - k"])
    then obtain b l where b: "b \<in> set (ino t)" "key s a + 4096 = key s b + 8 * l" "0 \<le> l" "l < 512" using cell assms(2) by blast
    then show False using offset_unique [OF tree a(1) b(1), of 4096 "8 * l"] by simp
  qed
  then show ?thesis using a by blast
qed

section \<open>The contract of a pool of cells\<close>

locale cell_pool =
  fixes alloc :: "'s \<Rightarrow> int \<Rightarrow> ('s \<times> u64) option" and free :: "'s \<Rightarrow> u64 \<Rightarrow> int \<Rightarrow> 's option"
    and holds :: "'s \<Rightarrow> int set \<Rightarrow> bool" and may_alloc :: "'s \<Rightarrow> int set \<Rightarrow> int \<Rightarrow> bool"
  assumes alloc_law: "holds s U \<Longrightarrow> may_alloc s U m \<Longrightarrow> 0 < m \<and> (\<exists>s' r. alloc s m = Some (s', r)
      \<and> (if r = 0 then holds s' U else holds s' (U \<union> region r m) \<and> region r m \<inter> U = {}))"
    and free_law: "holds s U \<Longrightarrow> 0 < m \<Longrightarrow> region r m \<subseteq> U \<Longrightarrow> \<exists>s'. free s r m = Some s' \<and> holds s' (U - region r m)"

text \<open>A client: it allocates, and frees one of the blocks it holds.\<close>

datatype pool_op = Palloc int | Pfree nat

fun run :: "('s \<Rightarrow> int \<Rightarrow> ('s \<times> u64) option) \<Rightarrow> ('s \<Rightarrow> u64 \<Rightarrow> int \<Rightarrow> 's option) \<Rightarrow> 's \<Rightarrow> (u64 \<times> int) list \<Rightarrow> pool_op list
    \<Rightarrow> ('s \<times> (u64 \<times> int) list) option" where
  "run al fr s live [] = Some (s, live)"
| "run al fr s live (Palloc m # ops) = do { (s, r) \<leftarrow> al s m; run al fr s (if r = 0 then live else (r, m) # live) ops }"
| "run al fr s live (Pfree k # ops) =
     (if k < length live then do { s \<leftarrow> fr s (fst (live ! k)) (snd (live ! k)); run al fr s (take k live @ drop (Suc k) live) ops }
      else run al fr s live ops)"

definition used :: "(u64 \<times> int) list \<Rightarrow> int set" where
  "used live = (\<Union>(r, m) \<in> set live. region r m)"

definition disjoint :: "(u64 \<times> int) list \<Rightarrow> bool" where
  "disjoint live \<longleftrightarrow> sorted_wrt (\<lambda>(r, m) (r', m'). region r m \<inter> region r' m' = {}) live \<and> (\<forall>(r, m) \<in> set live. 0 < m)"

text \<open>Every allocation of the sequence is made in a state that allows it.\<close>

fun disciplined :: "('s \<Rightarrow> int set \<Rightarrow> int \<Rightarrow> bool) \<Rightarrow> ('s \<Rightarrow> int \<Rightarrow> ('s \<times> u64) option) \<Rightarrow> ('s \<Rightarrow> u64 \<Rightarrow> int \<Rightarrow> 's option) \<Rightarrow> 's
    \<Rightarrow> (u64 \<times> int) list \<Rightarrow> pool_op list \<Rightarrow> bool" where
  "disciplined may al fr s live [] \<longleftrightarrow> True"
| "disciplined may al fr s live (Palloc m # ops) \<longleftrightarrow> may s (used live) m
     \<and> (\<forall>s' r. al s m = Some (s', r) \<longrightarrow> disciplined may al fr s' (if r = 0 then live else (r, m) # live) ops)"
| "disciplined may al fr s live (Pfree k # ops) \<longleftrightarrow>
     (if k < length live then \<forall>s'. fr s (fst (live ! k)) (snd (live ! k)) = Some s' \<longrightarrow> disciplined may al fr s' (take k live @ drop (Suc k) live) ops
      else disciplined may al fr s live ops)"

lemma used_simps [simp]: "used [] = {}" "used ((r, m) # live) = region r m \<union> used live" "used (xs @ ys) = used xs \<union> used ys"
  by (auto simp: used_def)

lemma disjoint_Cons: "disjoint ((r, m) # live) \<longleftrightarrow> 0 < m \<and> region r m \<inter> used live = {} \<and> disjoint live"
  unfolding disjoint_def used_def by (auto split: prod.splits)

lemma disjoint_remove:
  assumes "disjoint (xs @ (r, m) # ys)"
  shows "disjoint (xs @ ys)" and "used (xs @ ys) = used (xs @ (r, m) # ys) - region r m" and "0 < m"
proof -
  have "region r m \<inter> used xs = {}" "region r m \<inter> used ys = {}"
    using assms unfolding disjoint_def used_def by (fastforce simp: sorted_wrt_append split: prod.splits)+
  then show "used (xs @ ys) = used (xs @ (r, m) # ys) - region r m" by auto
  show "disjoint (xs @ ys)" "0 < m" using assms by (auto simp: disjoint_def sorted_wrt_append)
qed

context cell_pool
begin

lemma run_correct:
  assumes "holds s (used live)" and "disjoint live" and "disciplined may_alloc alloc free s live ops"
  shows "\<exists>s' live'. run alloc free s live ops = Some (s', live') \<and> holds s' (used live') \<and> disjoint live'"
  using assms
proof (induction ops arbitrary: s live)
  case (Cons oper ops)
  show ?case
  proof (cases oper)
    case (Palloc m)
    then obtain s1 r where s1: "0 < m" "alloc s m = Some (s1, r)"
      "if r = 0 then holds s1 (used live) else holds s1 (used live \<union> region r m) \<and> region r m \<inter> used live = {}"
      using alloc_law [OF Cons.prems(1), of m] Cons.prems(3) by auto
    then show ?thesis using Cons.IH [of s1 "if r = 0 then live else (r, m) # live"] Cons.prems Palloc
      by (auto simp: disjoint_Cons Un_commute split: if_splits)
  next
    case (Pfree k)
    show ?thesis
    proof (cases "k < length live")
      case True
      obtain r m where rm: "live ! k = (r, m)" by (cases "live ! k")
      have live: "live = take k live @ (r, m) # drop (Suc k) live" using True rm by (metis id_take_nth_drop)
      note rem = disjoint_remove [of "take k live" r m "drop (Suc k) live"]
      have "region r m \<subseteq> used live" using live by (metis Un_upper1 Un_upper2 order_trans used_simps(2,3))
      then obtain s1 where "free s r m = Some s1" "holds s1 (used live - region r m)"
        using free_law [OF Cons.prems(1)] rem Cons.prems(2) live by metis
      then show ?thesis using Cons.IH [of s1 "take k live @ drop (Suc k) live"] Cons.prems Pfree True rm rem live by auto
    qed (use Cons Pfree in auto)
  qed
qed auto

end

definition pool_holds :: "mem_state \<Rightarrow> int set \<Rightarrow> bool" where
  "pool_holds s U \<longleftrightarrow> (\<exists>p q t. mem_pool s = Pool p q \<and> pool_inv s q t \<and> cells s (set (ino t)) = U)"

definition palloc_allowed :: "mem_state \<Rightarrow> int set \<Rightarrow> int \<Rightarrow> bool" where
  "palloc_allowed s U m \<longleftrightarrow> 0 < m \<and> m \<le> 512 \<and> (\<exists>p q. mem_pool s = Pool p q \<and> latest_sound s q U m)
     \<and> more_memory s {x. mnodes s x \<noteq> None}"

lemma more_memory_mono: "more_memory s B \<Longrightarrow> A \<subseteq> B \<Longrightarrow> more_memory s A"
  by (auto simp: more_memory_def split: list.splits)

lemma tree_live: "mem_tree s root t \<Longrightarrow> set (ino t) \<subseteq> {x. mnodes s x \<noteq> None}"
  using tree_nodes by (fastforce simp: node_ok_def)

interpretation mp: cell_pool minipwr_palloc minipwr_pfree pool_holds palloc_allowed
proof
  fix s U m
  assume hold: "pool_holds s U" and may: "palloc_allowed s U m"
  obtain p q t where t: "mem_pool s = Pool p q" "pool_inv s q t" "cells s (set (ino t)) = U" using hold unfolding pool_holds_def by blast
  have m: "0 < m" "m \<le> 512" "latest_sound s q U m" using may t(1) by (auto simp: palloc_allowed_def)
  have "more_memory s (set (ino t))" using may t(2) tree_live more_memory_mono by (auto simp: palloc_allowed_def pool_inv_def)
  then have "took s t m p (minipwr_palloc s m)" using palloc_spec [OF t(1,2)] m t(3) by simp
  then show "0 < m \<and> (\<exists>s' r. minipwr_palloc s m = Some (s', r)
      \<and> (if r = 0 then pool_holds s' U else pool_holds s' (U \<union> region r m) \<and> region r m \<inter> U = {}))"
    unfolding took_def using m(1) t(3) by (fastforce simp: pool_holds_def split: if_splits)
next
  fix s U m r
  assume hold: "pool_holds s U" and m: "0 < m" and sub: "region r m \<subseteq> U"
  obtain p q t where t: "mem_pool s = Pool p q" "pool_inv s q t" "cells s (set (ino t)) = U" using hold unfolding pool_holds_def by blast
  then have tree: "mem_tree s (rbroot q) t" by (simp add: pool_inv_def)
  obtain a k where a: "a \<in> set (ino t)" "uint r = key s a + 8 * k" "0 \<le> k" "k + m \<le> 512"
    using region_in_body [OF tree _ m, of r] sub t(3) by blast
  show "\<exists>s'. minipwr_pfree s r m = Some s' \<and> pool_holds s' (U - region r m)"
    using pfree_spec [OF t(1,2) a(1-3) m a(4)] t(3) unfolding pool_holds_def by metis
qed

section \<open>Properties\<close>


lemma two_state_cells: "cellbit two_state a i \<longleftrightarrow> False"
  using bm_val_replicate [of 8 i] by (auto simp: cellbit_def two_state_def)

lemma two_state_holds: "pool_holds two_state {}"
proof -
  let ?t = "N L True 96 (N L False 192 L)"
  have k: "key two_state 96 = 65536" by (simp add: key_def two_state_def)
  have "series_ok two_state two_pool ?t" unfolding series_ok_def two_state_cells
    by (rule exI [of _ "[]"], rule exI [of _ "[192]"], rule exI [of _ 0]) (simp add: two_pool_def k)
  moreover have "latest_ok two_state two_pool ?t" unfolding latest_ok_def by (auto simp: two_pool_def k)
  ultimately have "pool_inv two_state two_pool ?t" using two_state_tree two_state_pool(2) by (simp add: pool_inv_def)
  then show ?thesis unfolding pool_holds_def using two_state_pool(1) by (auto simp: cells_def two_state_cells)
qed




text \<open>
  The condition on allocations is needed.  From a fresh pool of two nodes, a client that allocates three blocks of 16 bytes, frees the second,
  the third and the first, and then allocates 40 bytes and 8 bytes, gets the last block inside the one before: the address freed last is below the
  bump pointer, the region from it on is free and reaches over the bump pointer, and the bump pointer is not moved.
\<close>

theorem palloc_overlap:
  "\<exists>s' live. run minipwr_palloc minipwr_pfree two_state []
       [Palloc 2, Palloc 2, Palloc 2, Pfree 1, Pfree 0, Pfree 0, Palloc 5, Palloc 1] = Some (s', live)
     \<and> live = [(65568, 1), (65536, 5)] \<and> region 65568 1 \<subseteq> region 65536 5 \<and> \<not> disjoint live"
proof -
  have "map_option snd (run minipwr_palloc minipwr_pfree two_state []
       [Palloc 2, Palloc 2, Palloc 2, Pfree 1, Pfree 0, Pfree 0, Palloc 5, Palloc 1]) = Some [(65568, 1), (65536, 5)]"
    by code_simp
  moreover have "65568 \<in> region 65568 1" "65568 \<in> region 65536 5"
    by (auto simp: region_def intro: exI [of _ 4])
  moreover have "region 65568 1 = {65568}" by (auto simp: region_def)
  ultimately show ?thesis by (auto simp: disjoint_def)
qed

end
