(* ===== verification/CBuffer.thy ===== *)
theory CBuffer
  imports Coding
begin

text \<open>
  \<open>template_http/src/struct/bufferoperation.cpp\<close> and \<open>.h\<close>: a cursor over a \<open>char\<close> buffer that reads and writes integers in network byte order and
  strings with a length in front.  The memory is one byte array; a pointer into it is an index, \<open>NULL\<close> is \<open>None\<close>, and an access
  outside the array faults.  The byte order of the host is a parameter.  An \<open>int\<close> addition that overflows faults.
\<close>

section \<open>Definitions: memory and byte order\<close>

definition bread :: "byte list \<Rightarrow> int \<Rightarrow> int \<Rightarrow> byte list option" where
  "bread mem p n = (if 0 \<le> p \<and> 0 \<le> n \<and> p + n \<le> int (length mem) then Some (take (nat n) (drop (nat p) mem)) else None)"

definition bwrite :: "byte list \<Rightarrow> int \<Rightarrow> byte list \<Rightarrow> byte list option" where
  "bwrite mem p bs = (if 0 \<le> p \<and> p + int (length bs) \<le> int (length mem)
     then Some (take (nat p) mem @ bs @ drop (nat p + length bs) mem) else None)"

text \<open>The bytes of \<open>htonl(v)\<close> in memory are those of \<open>v\<close>, highest first; \<open>ntohl\<close> is the inverse.\<close>

definition be32 :: "u32 \<Rightarrow> byte list" where
  "be32 v = rev (le_bytes 4 v)"

definition htonl :: "bool \<Rightarrow> u32 \<Rightarrow> u32" where
  "htonl host_le v = of_host_bytes host_le (be32 v)"

definition ntohl :: "bool \<Rightarrow> u32 \<Rightarrow> u32" where
  "ntohl host_le v = of_le_bytes (rev (host_bytes host_le 4 v))"

definition LBER_HTONL :: "bool \<Rightarrow> u64 \<Rightarrow> u64" where
  "LBER_HTONL host_le ll = push_bit 32 (ucast (htonl host_le (ucast (ll AND 0x00000000FFFFFFFF))))
     OR ucast (htonl host_le (ucast (drop_bit 32 (ll AND 0xFFFFFFFF00000000))))"

definition LBER_NTOHL :: "bool \<Rightarrow> u64 \<Rightarrow> u64" where
  "LBER_NTOHL host_le ll = push_bit 32 (ucast (ntohl host_le (ucast (ll AND 0x00000000FFFFFFFF))))
     OR ucast (ntohl host_le (ucast (drop_bit 32 (ll AND 0xFFFFFFFF00000000))))"

section \<open>Definitions: the buffer\<close>

record cbuf =
  m_szBuffer :: "int option"
  m_iBufferLen :: int
  m_iOffset :: int

abbreviation Err_Buffer_Param :: int where "Err_Buffer_Param \<equiv> - 1"
abbreviation Err_Buffer_Overflow :: int where "Err_Buffer_Overflow \<equiv> - 2"
abbreviation Err_Buffer_NoEnough :: int where "Err_Buffer_NoEnough \<equiv> - 3"
abbreviation Err_Buffer_NoData :: int where "Err_Buffer_NoData \<equiv> - 4"

definition CBufferManage :: cbuf where
  "CBufferManage = \<lparr>m_szBuffer = None, m_iBufferLen = 0, m_iOffset = 0\<rparr>"

definition AttachBuffer :: "cbuf \<Rightarrow> int option \<Rightarrow> int \<Rightarrow> cbuf \<times> int" where
  "AttachBuffer c szBuffer iBufferLen =
     (if szBuffer = None \<or> iBufferLen \<le> 0 then (c, Err_Buffer_Param)
      else (c\<lparr>m_szBuffer := szBuffer, m_iBufferLen := iBufferLen, m_iOffset := 0\<rparr>, 0))"

definition DetachBuffer :: "cbuf \<Rightarrow> cbuf \<times> int" where
  "DetachBuffer c = (c\<lparr>m_szBuffer := None, m_iBufferLen := 0, m_iOffset := 0\<rparr>, 0)"

definition GetBuffer :: "cbuf \<Rightarrow> int option" where "GetBuffer c = m_szBuffer c"
definition GetBufferLen :: "cbuf \<Rightarrow> int" where "GetBufferLen c = m_iBufferLen c"
definition GetBufferOffset :: "cbuf \<Rightarrow> int" where "GetBufferOffset c = m_iOffset c"

definition SetOffset :: "cbuf \<Rightarrow> int \<Rightarrow> cbuf \<times> int" where
  "SetOffset c iOffset = (if iOffset > m_iBufferLen c then (c, Err_Buffer_Param) else (c\<lparr>m_iOffset := iOffset\<rparr>, 0))"

text \<open>\<open>m_szBuffer + m_iOffset\<close>, and the \<open>int\<close> stored there in network order.\<close>

definition cursor :: "cbuf \<Rightarrow> int option" where
  "cursor c = do { b \<leftarrow> m_szBuffer c; Some (b + m_iOffset c) }"

definition read_int :: "bool \<Rightarrow> byte list \<Rightarrow> cbuf \<Rightarrow> int option" where
  "read_int h mem c = do { p \<leftarrow> cursor c; bs \<leftarrow> bread mem p 4; Some (sint (ntohl h (of_host_bytes h bs))) }"

definition write_int :: "bool \<Rightarrow> byte list \<Rightarrow> cbuf \<Rightarrow> int \<Rightarrow> byte list option" where
  "write_int h mem c v = do { p \<leftarrow> cursor c; bwrite mem p (host_bytes h 4 (htonl h (word_of_int v))) }"

text \<open>Each operation returns the object, what it stores through its reference parameters, and its result.\<close>

definition GetInt :: "bool \<Rightarrow> byte list \<Rightarrow> cbuf \<Rightarrow> int \<Rightarrow> (cbuf \<times> int \<times> int) option" where
  "GetInt h mem c iValue = do {
     e \<leftarrow> iadd (m_iOffset c) 4;
     if e > m_iBufferLen c then Some (c, iValue, Err_Buffer_Overflow)
     else do {
       v \<leftarrow> read_int h mem c;
       Some (c\<lparr>m_iOffset := e\<rparr>, v, 0)
     }
   }"

definition GetLong64 :: "bool \<Rightarrow> byte list \<Rightarrow> cbuf \<Rightarrow> u64 \<Rightarrow> (cbuf \<times> u64 \<times> int) option" where
  "GetLong64 h mem c llValue = do {
     e \<leftarrow> iadd (m_iOffset c) 8;
     if e > m_iBufferLen c then Some (c, llValue, Err_Buffer_Overflow)
     else do {
       p \<leftarrow> cursor c;
       bs \<leftarrow> bread mem p 8;
       Some (c\<lparr>m_iOffset := e\<rparr>, LBER_NTOHL h (of_host_bytes h bs), 0)
     }
   }"

definition GetChar :: "byte list \<Rightarrow> cbuf \<Rightarrow> byte \<Rightarrow> (cbuf \<times> byte \<times> int) option" where
  "GetChar mem c cValue = do {
     e \<leftarrow> iadd (m_iOffset c) 1;
     if e > m_iBufferLen c then Some (c, cValue, Err_Buffer_Overflow)
     else do {
       p \<leftarrow> cursor c;
       b \<leftarrow> aget mem p;
       Some (c\<lparr>m_iOffset := e\<rparr>, b, 0)
     }
   }"

text \<open>\<open>GetString(string&)\<close>: the offset stays behind the length when the string does not fit.\<close>

definition GetString :: "bool \<Rightarrow> byte list \<Rightarrow> cbuf \<Rightarrow> byte list \<Rightarrow> (cbuf \<times> byte list \<times> int) option" where
  "GetString h mem c strValue = do {
     e \<leftarrow> iadd (m_iOffset c) 4;
     if e > m_iBufferLen c then Some (c, strValue, Err_Buffer_Overflow)
     else do {
       iLength \<leftarrow> read_int h mem c;
       let c = c\<lparr>m_iOffset := e\<rparr>;
       f \<leftarrow> iadd e iLength;
       if f > m_iBufferLen c \<or> iLength < 0 then Some (c, strValue, Err_Buffer_Overflow)
       else do {
         p \<leftarrow> cursor c;
         s \<leftarrow> bread mem p iLength;
         Some (c\<lparr>m_iOffset := f\<rparr>, s, 0)
       }
     }
   }"

text \<open>\<open>GetString(char *, int&)\<close>, with the destination as an array of its own.\<close>

definition GetString_buf :: "bool \<Rightarrow> byte list \<Rightarrow> cbuf \<Rightarrow> byte list option \<Rightarrow> int \<Rightarrow> (cbuf \<times> byte list option \<times> int \<times> int) option" where
  "GetString_buf h mem c szBuffer iLength =
     (if szBuffer = None \<or> iLength \<le> 0 then Some (c, szBuffer, iLength, Err_Buffer_Param)
      else do {
        dst \<leftarrow> szBuffer;
        e \<leftarrow> iadd (m_iOffset c) 4;
        if e > m_iBufferLen c then Some (c, szBuffer, iLength, Err_Buffer_Overflow)
        else do {
          iStringLen \<leftarrow> read_int h mem c;
          if iStringLen \<ge> iLength then do {
            n \<leftarrow> iadd iStringLen 1;
            Some (c, szBuffer, n, Err_Buffer_NoEnough)
          } else do {
            f \<leftarrow> iadd (m_iOffset c) iStringLen;
            if f > m_iBufferLen c \<or> iStringLen < 0 then Some (c, szBuffer, 0, Err_Buffer_Overflow)
            else do {
              let c = c\<lparr>m_iOffset := e\<rparr>;
              p \<leftarrow> cursor c;
              s \<leftarrow> bread mem p iStringLen;
              dst \<leftarrow> bwrite dst 0 s;
              dst \<leftarrow> aput dst iStringLen 0;
              g \<leftarrow> iadd e iStringLen;
              Some (c\<lparr>m_iOffset := g\<rparr>, Some dst, iLength, 0)
            }
          }
        }
      })"

text \<open>\<open>GetString(char **, int&)\<close>: \<open>have\<close> says that the pointer parameter is not null; the stored pointer is an index into the array.\<close>

definition GetString_ptr :: "bool \<Rightarrow> byte list \<Rightarrow> cbuf \<Rightarrow> bool \<Rightarrow> int option \<Rightarrow> int \<Rightarrow> (cbuf \<times> int option \<times> int \<times> int) option" where
  "GetString_ptr h mem c have_ptr pBuffer iLength =
     (if \<not> have_ptr then Some (c, pBuffer, iLength, Err_Buffer_Param)
      else do {
        e \<leftarrow> iadd (m_iOffset c) 4;
        if e > m_iBufferLen c then Some (c, pBuffer, iLength, Err_Buffer_Overflow)
        else do {
          iLength \<leftarrow> read_int h mem c;
          f \<leftarrow> iadd (m_iOffset c) iLength;
          g \<leftarrow> iadd f 4;
          if g > m_iBufferLen c \<or> iLength < 0 then Some (c, pBuffer, 0, Err_Buffer_Overflow)
          else do {
            let c = c\<lparr>m_iOffset := e\<rparr>;
            p \<leftarrow> cursor c;
            Some (c\<lparr>m_iOffset := g\<rparr>, Some p, iLength, 0)
          }
        }
      })"

definition GetCharBuffer :: "byte list \<Rightarrow> cbuf \<Rightarrow> byte list option \<Rightarrow> int \<Rightarrow> (cbuf \<times> byte list option \<times> int \<times> int) option" where
  "GetCharBuffer mem c szBuffer iLength =
     (if szBuffer = None \<or> iLength \<le> 0 then Some (c, szBuffer, iLength, Err_Buffer_Param)
      else do {
        dst \<leftarrow> szBuffer;
        e \<leftarrow> iadd (m_iOffset c) iLength;
        if e > m_iBufferLen c then do {
          n \<leftarrow> iadd (m_iBufferLen c) (- m_iOffset c);
          Some (c, szBuffer, n, Err_Buffer_NoData)
        } else do {
          p \<leftarrow> cursor c;
          s \<leftarrow> bread mem p iLength;
          dst \<leftarrow> bwrite dst 0 s;
          Some (c\<lparr>m_iOffset := e\<rparr>, Some dst, iLength, 0)
        }
      })"

definition GetCharBuffer_ptr :: "cbuf \<Rightarrow> bool \<Rightarrow> int option \<Rightarrow> int \<Rightarrow> (cbuf \<times> int option \<times> int \<times> int) option" where
  "GetCharBuffer_ptr c have_ptr ppBuffer iBufferLen =
     (if \<not> have_ptr then Some (c, ppBuffer, iBufferLen, Err_Buffer_Param)
      else do {
        e \<leftarrow> iadd (m_iOffset c) iBufferLen;
        if e > m_iBufferLen c then do {
          n \<leftarrow> iadd (m_iBufferLen c) (- m_iOffset c);
          Some (c, ppBuffer, n, Err_Buffer_NoData)
        } else do {
          p \<leftarrow> cursor c;
          Some (c\<lparr>m_iOffset := e\<rparr>, Some p, iBufferLen, 0)
        }
      })"

definition PutInt :: "bool \<Rightarrow> byte list \<Rightarrow> cbuf \<Rightarrow> int \<Rightarrow> (byte list \<times> cbuf \<times> int) option" where
  "PutInt h mem c iValue = do {
     e \<leftarrow> iadd (m_iOffset c) 4;
     if e > m_iBufferLen c then Some (mem, c, Err_Buffer_NoEnough)
     else do {
       mem \<leftarrow> write_int h mem c iValue;
       Some (mem, c\<lparr>m_iOffset := e\<rparr>, 0)
     }
   }"

definition PutLong64 :: "bool \<Rightarrow> byte list \<Rightarrow> cbuf \<Rightarrow> u64 \<Rightarrow> (byte list \<times> cbuf \<times> int) option" where
  "PutLong64 h mem c llValue = do {
     e \<leftarrow> iadd (m_iOffset c) 8;
     if e > m_iBufferLen c then Some (mem, c, Err_Buffer_NoEnough)
     else do {
       p \<leftarrow> cursor c;
       mem \<leftarrow> bwrite mem p (host_bytes h 8 (LBER_HTONL h llValue));
       Some (mem, c\<lparr>m_iOffset := e\<rparr>, 0)
     }
   }"

definition PutChar :: "byte list \<Rightarrow> cbuf \<Rightarrow> byte \<Rightarrow> (byte list \<times> cbuf \<times> int) option" where
  "PutChar mem c cChar = do {
     e \<leftarrow> iadd (m_iOffset c) 1;
     if e > m_iBufferLen c then Some (mem, c, Err_Buffer_NoEnough)
     else do {
       p \<leftarrow> cursor c;
       mem \<leftarrow> bwrite mem p [cChar];
       Some (mem, c\<lparr>m_iOffset := e\<rparr>, 0)
     }
   }"

text \<open>The body that \<open>PutString\<close> with a \<open>string\<close> and with a \<open>char *\<close> share: the length, and the bytes unless there are none.\<close>

definition put_counted :: "bool \<Rightarrow> byte list \<Rightarrow> cbuf \<Rightarrow> byte list \<Rightarrow> int \<Rightarrow> (byte list \<times> cbuf) option" where
  "put_counted h mem c s iLength = do {
     mem \<leftarrow> write_int h mem c iLength;
     e \<leftarrow> iadd (m_iOffset c) 4;
     let c = c\<lparr>m_iOffset := e\<rparr>;
     if iLength > 0 then do {
       bs \<leftarrow> bread s 0 iLength;
       p \<leftarrow> cursor c;
       mem \<leftarrow> bwrite mem p bs;
       f \<leftarrow> iadd e iLength;
       Some (mem, c\<lparr>m_iOffset := f\<rparr>)
     } else Some (mem, c)
   }"

definition PutString :: "bool \<Rightarrow> byte list \<Rightarrow> cbuf \<Rightarrow> byte list \<Rightarrow> (byte list \<times> cbuf \<times> int) option" where
  "PutString h mem c strValue = do {
     e \<leftarrow> iadd (m_iOffset c) (c_int (int (length strValue)));
     e \<leftarrow> iadd e 4;
     if e > m_iBufferLen c then Some (mem, c, Err_Buffer_NoEnough)
     else do {
       (mem, c) \<leftarrow> put_counted h mem c strValue (int (length strValue));
       Some (mem, c, 0)
     }
   }"

definition PutString_buf :: "bool \<Rightarrow> byte list \<Rightarrow> cbuf \<Rightarrow> byte list option \<Rightarrow> int \<Rightarrow> (byte list \<times> cbuf \<times> int \<times> int) option" where
  "PutString_buf h mem c szBuffer iLength =
     (if szBuffer = None \<or> iLength < 0 then Some (mem, c, iLength, Err_Buffer_Param)
      else do {
        src \<leftarrow> szBuffer;
        e \<leftarrow> iadd (m_iOffset c) 4;
        e \<leftarrow> iadd e iLength;
        if e > m_iBufferLen c then Some (mem, c, c_int (m_iOffset c + 4 + iLength), Err_Buffer_NoEnough)
        else do {
          (mem, c) \<leftarrow> put_counted h mem c src iLength;
          Some (mem, c, iLength, 0)
        }
      })"

definition PutCharBuffer :: "byte list \<Rightarrow> cbuf \<Rightarrow> byte list option \<Rightarrow> int \<Rightarrow> (byte list \<times> cbuf \<times> int \<times> int) option" where
  "PutCharBuffer mem c szBuffer iLength =
     (if szBuffer = None \<or> iLength < 0 then Some (mem, c, iLength, Err_Buffer_Param)
      else do {
        src \<leftarrow> szBuffer;
        e \<leftarrow> iadd (m_iOffset c) iLength;
        if e > m_iBufferLen c then Some (mem, c, e, Err_Buffer_NoEnough)
        else do {
          bs \<leftarrow> bread src 0 iLength;
          p \<leftarrow> cursor c;
          mem \<leftarrow> bwrite mem p bs;
          Some (mem, c\<lparr>m_iOffset := e\<rparr>, iLength, 0)
        }
      })"

section \<open>Bytes\<close>

lemma bit_of_le_bytes:
  "bit (of_le_bytes bs :: 'a::len word) k \<longleftrightarrow> k < LENGTH('a) \<and> k < 8 * length bs \<and> bit (bs ! (k div 8)) (k mod 8)"
proof (induction bs arbitrary: k)
  case (Cons b bs)
  show ?case
  proof (cases "k < 8")
    case True
    then show ?thesis by (auto simp: bit_or_iff bit_push_bit_iff bit_ucast_iff)
  next
    case False
    then have "k div 8 = Suc ((k - 8) div 8)" "k mod 8 = (k - 8) mod 8" by (simp_all add: le_div_geq le_mod_geq)
    moreover have "\<not> bit b k" using False bit_imp_le_length [of b k] by auto
    ultimately show ?thesis using False Cons.IH [of "k - 8"] by (auto simp: bit_or_iff bit_push_bit_iff bit_ucast_iff)
  qed
qed simp

lemma le_bytes_of_le_bytes: "8 * length bs \<le> LENGTH('a) \<Longrightarrow> le_bytes (length bs) (of_le_bytes bs :: 'a::len word) = bs"
proof (rule nth_equalityI)
  fix i assume len: "8 * length bs \<le> LENGTH('a)" and "i < length (le_bytes (length bs) (of_le_bytes bs :: 'a word))"
  then have i: "i < length bs" by simp
  have "bit (ucast (drop_bit (8 * i) (of_le_bytes bs :: 'a word)) :: byte) n \<longleftrightarrow> bit (bs ! i) n" if "n < 8" for n
  proof -
    have "8 * i + n < 8 * length bs" using i that by linarith
    then show ?thesis using that len by (simp add: bit_ucast_iff bit_drop_bit_eq bit_of_le_bytes)
  qed
  then show "le_bytes (length bs) (of_le_bytes bs :: 'a word) ! i = bs ! i"
    using i by (intro bit_word_eqI) (simp add: le_bytes_def)
qed simp

lemma host_bytes_of_host_bytes: "8 * length bs \<le> LENGTH('a) \<Longrightarrow> host_bytes h (length bs) (of_host_bytes h bs :: 'a::len word) = bs"
  using le_bytes_of_le_bytes [of bs, where 'a = 'a] le_bytes_of_le_bytes [of "rev bs", where 'a = 'a]
  by (auto simp: host_bytes_def of_host_bytes_def)

lemma length_be32 [simp]: "length (be32 v) = 4"
  by (simp add: be32_def)

lemma length_host_bytes [simp]: "length (host_bytes h n v) = n"
  by (simp add: host_bytes_def)

lemma htonl_bytes: "host_bytes h 4 (htonl h v) = be32 v"
  using host_bytes_of_host_bytes [of "be32 v" h, where 'a = 32] by (simp add: htonl_def)

lemma ntohl_bytes: "ntohl h (of_host_bytes h (be32 v)) = v"
  using host_bytes_of_host_bytes [of "be32 v" h, where 'a = 32] of_le_bytes_le_bytes [of 4 v]
  by (simp add: ntohl_def be32_def take_bit_word_eq_self)

lemma ntohl_htonl: "ntohl h (htonl h v) = v"
  using ntohl_bytes by (simp add: htonl_def)

text \<open>The halves of a 64-bit value.\<close>

lemma halves:
  fixes a b :: u32
  shows "ucast ((push_bit 32 (ucast a) OR ucast b :: u64) AND 0x00000000FFFFFFFF) = b"
    and "ucast (drop_bit 32 ((push_bit 32 (ucast a) OR ucast b :: u64) AND 0xFFFFFFFF00000000)) = a"
proof -
  have m: "(0x00000000FFFFFFFF :: u64) = mask 32" "(0xFFFFFFFF00000000 :: u64) = push_bit 32 (mask 32)"
    by (simp_all add: mask_eq_exp_minus_1 push_bit_eq_mult)
  show "ucast ((push_bit 32 (ucast a) OR ucast b :: u64) AND 0x00000000FFFFFFFF) = b"
    unfolding m by (rule bit_word_eqI) (auto simp: bit_simps)
  show "ucast (drop_bit 32 ((push_bit 32 (ucast a) OR ucast b :: u64) AND 0xFFFFFFFF00000000)) = a"
    unfolding m by (rule bit_word_eqI) (auto simp: bit_simps dest: bit_imp_le_length)
qed

lemma join_halves:
  fixes x :: u64
  shows "push_bit 32 (ucast (ucast (drop_bit 32 (x AND 0xFFFFFFFF00000000)) :: u32)) OR ucast (ucast (x AND 0x00000000FFFFFFFF) :: u32) = x"
proof -
  have m: "(0x00000000FFFFFFFF :: u64) = mask 32" "(0xFFFFFFFF00000000 :: u64) = push_bit 32 (mask 32)"
    by (simp_all add: mask_eq_exp_minus_1 push_bit_eq_mult)
  show ?thesis unfolding m by (rule bit_word_eqI) (auto simp: bit_simps)
qed

lemma LBER_inverse: "LBER_NTOHL h (LBER_HTONL h ll) = ll"
  unfolding LBER_NTOHL_def LBER_HTONL_def halves ntohl_htonl by (rule join_halves)

text \<open>The bytes of a \<open>long long\<close> on the wire.\<close>

definition wire64 :: "bool \<Rightarrow> u64 \<Rightarrow> byte list" where
  "wire64 h v = host_bytes h 8 (LBER_HTONL h v)"

lemma wire64_read: "LBER_NTOHL h (of_host_bytes h (wire64 h v)) = v"
proof -
  have "of_host_bytes h (host_bytes h 8 w) = w" for w :: u64
    using of_le_bytes_le_bytes [of 8 w] by (simp add: of_host_bytes_def host_bytes_def take_bit_word_eq_self)
  then show ?thesis by (simp add: wire64_def LBER_inverse)
qed

section \<open>Reading and writing in the array\<close>

lemma bread_at: "bytes_at mem (nat p) bs \<Longrightarrow> 0 \<le> p \<Longrightarrow> bread mem p (int (length bs)) = Some bs"
  by (auto simp: bread_def bytes_at_def)

lemma bwrite_put: "0 \<le> p \<Longrightarrow> p + int (length bs) \<le> int (length mem) \<Longrightarrow> bwrite mem p bs = Some (put_bytes mem (nat p) bs)"
  by (simp add: bwrite_def put_bytes_eq nat_le_iff)

lemma put_bytes_append: "put_bytes mem p (xs @ ys) = put_bytes (put_bytes mem p xs) (p + length xs) ys"
  by (induction xs arbitrary: mem p) auto

lemma put_bytes_update_commute: "i < q \<Longrightarrow> put_bytes (mem[i := b]) q ys = (put_bytes mem q ys)[i := b]"
  by (induction ys arbitrary: mem q) (auto simp: list_update_swap)

lemma put_bytes_commute: "p + length xs \<le> q \<Longrightarrow> put_bytes (put_bytes mem q ys) p xs = put_bytes (put_bytes mem p xs) q ys"
proof (induction xs arbitrary: mem p)
  case (Cons x xs)
  then have "put_bytes ((put_bytes mem q ys)[p := x]) (Suc p) xs = put_bytes (put_bytes (mem[p := x]) q ys) (Suc p) xs"
    using put_bytes_update_commute [of p q mem x ys] by simp
  also have "\<dots> = put_bytes (put_bytes (mem[p := x]) (Suc p) xs) q ys" using Cons.IH [of "Suc p" "mem[p := x]"] Cons.prems by simp
  finally show ?case by simp
qed simp

definition cb_ok :: "byte list \<Rightarrow> cbuf \<Rightarrow> int \<Rightarrow> bool" where
  "cb_ok mem c b \<longleftrightarrow> m_szBuffer c = Some b \<and> 0 \<le> b \<and> b + m_iBufferLen c \<le> int (length mem) \<and> 0 \<le> m_iOffset c
     \<and> m_iOffset c \<le> m_iBufferLen c \<and> m_iBufferLen c < 2 ^ 31"

lemma cb_ok_cursor: "cb_ok mem c b \<Longrightarrow> cursor c = Some (b + m_iOffset c)"
  by (simp add: cb_ok_def cursor_def)

lemma read_int_at:
  assumes "cursor c = Some p" and "0 \<le> p" and "bytes_at mem (nat p) (be32 v)"
  shows "read_int h mem c = Some (sint v)"
  using bread_at [OF assms(3,2)] assms(1) by (simp add: read_int_def ntohl_bytes)

lemma write_int_at:
  assumes "cursor c = Some p" and "0 \<le> p" and "p + 4 \<le> int (length mem)"
  shows "write_int h mem c v = Some (put_bytes mem (nat p) (be32 (word_of_int v)))"
  using assms by (simp add: write_int_def htonl_bytes bwrite_put)

text \<open>A counted string: its length, highest byte first, and its bytes.\<close>

definition counted :: "byte list \<Rightarrow> byte list" where
  "counted s = be32 (word_of_int (int (length s))) @ s"

lemma length_counted [simp]: "length (counted s) = 4 + length s"
  by (simp add: counted_def)

lemma put_counted_spec:
  assumes ok: "cb_ok mem c b" and room: "m_iOffset c + 4 + int (length s) \<le> m_iBufferLen c"
  shows "put_counted h mem c (s @ rest) (int (length s))
    = Some (put_bytes mem (nat (b + m_iOffset c)) (counted s), c\<lparr>m_iOffset := m_iOffset c + 4 + int (length s)\<rparr>)"
proof -
  let ?p = "b + m_iOffset c"
  have p: "0 \<le> ?p" "?p + 4 + int (length s) \<le> int (length mem)" using ok room by (auto simp: cb_ok_def)
  have w: "write_int h mem c (int (length s)) = Some (put_bytes mem (nat ?p) (be32 (word_of_int (int (length s)))))"
    using write_int_at [OF cb_ok_cursor [OF ok] p(1)] p(2) by simp
  have off: "iadd (m_iOffset c) 4 = Some (m_iOffset c + 4)" "iadd (m_iOffset c + 4) (int (length s)) = Some (m_iOffset c + 4 + int (length s))"
    using ok room by (auto simp: cb_ok_def)
  have cur: "cursor (c\<lparr>m_iOffset := m_iOffset c + 4\<rparr>) = Some (?p + 4)" using ok by (simp add: cursor_def cb_ok_def)
  have br: "bread (s @ rest) 0 (int (length s)) = Some s" by (simp add: bread_def)
  have bw: "bwrite (put_bytes mem (nat ?p) (be32 v)) (?p + 4) s = Some (put_bytes mem (nat ?p) (be32 v @ s))" for v
    using bwrite_put [of "?p + 4" s "put_bytes mem (nat ?p) (be32 v)"] p by (simp add: put_bytes_append nat_add_distrib)
  show ?thesis
  proof (cases "s = []")
    case True
    then show ?thesis using w off by (simp add: put_counted_def counted_def)
  next
    case False
    then show ?thesis using w off cur br bw by (simp add: put_counted_def counted_def)
  qed
qed

lemma sint_u32: "- (2 ^ 31) \<le> x \<Longrightarrow> x < 2 ^ 31 \<Longrightarrow> sint (word_of_int x :: u32) = x"
  by (simp add: signed_of_int signed_take_bit_int_eq_self)

lemma counted_read:
  assumes "bytes_at mem (nat p) (counted s)" and "0 \<le> p" and "cursor c = Some p" and "int (length s) < 2 ^ 31"
  shows "read_int h mem c = Some (int (length s))" and "bread mem (p + 4) (int (length s)) = Some s"
proof -
  have at: "bytes_at mem (nat p) (be32 (word_of_int (int (length s))))" "bytes_at mem (nat (p + 4)) s"
    using assms(1,2) by (simp_all add: counted_def bytes_at_append nat_add_distrib)
  have "sint (word_of_int (int (length s)) :: u32) = int (length s)"
    using assms(4) by (intro sint_u32) auto
  then show "read_int h mem c = Some (int (length s))" using read_int_at [OF assms(3,2) at(1)] by simp
  show "bread mem (p + 4) (int (length s)) = Some s" using bread_at [OF at(2)] assms(2) by simp
qed

lemma GetString_ptr_at:
  assumes ok: "cb_ok mem c b" and at: "bytes_at mem (nat (b + m_iOffset c)) (counted s)"
    and room: "m_iOffset c + 4 + int (length s) \<le> m_iBufferLen c"
  shows "GetString_ptr h mem c True p0 n0 = Some (c\<lparr>m_iOffset := m_iOffset c + 4 + int (length s)\<rparr>,
    Some (b + m_iOffset c + 4), int (length s), 0)"
proof -
  have len: "int (length s) < 2 ^ 31" using ok room by (auto simp: cb_ok_def)
  have r: "read_int h mem c = Some (int (length s))"
    using counted_read(1) [OF at _ cb_ok_cursor [OF ok] len] ok by (simp add: cb_ok_def)
  have cur: "cursor (c\<lparr>m_iOffset := m_iOffset c + 4\<rparr>) = Some (b + m_iOffset c + 4)" using ok by (simp add: cursor_def cb_ok_def)
  show ?thesis using ok room r cur by (simp add: GetString_ptr_def cb_ok_def add_ac)
qed

section \<open>Sequences of items\<close>

datatype item = Int_item int | Long_item u64 | Char_item byte | Str_item "byte list"

fun put_item :: "bool \<Rightarrow> byte list \<Rightarrow> cbuf \<Rightarrow> item \<Rightarrow> (byte list \<times> cbuf \<times> int) option" where
  "put_item h mem c (Int_item v) = PutInt h mem c v"
| "put_item h mem c (Long_item v) = PutLong64 h mem c v"
| "put_item h mem c (Char_item v) = PutChar mem c v"
| "put_item h mem c (Str_item v) = PutString h mem c v"

text \<open>Reads an item of the kind of the given one.\<close>

fun get_item :: "bool \<Rightarrow> byte list \<Rightarrow> cbuf \<Rightarrow> item \<Rightarrow> (cbuf \<times> item \<times> int) option" where
  "get_item h mem c (Int_item v) = do { (c, x, r) \<leftarrow> GetInt h mem c 0; Some (c, Int_item x, r) }"
| "get_item h mem c (Long_item v) = do { (c, x, r) \<leftarrow> GetLong64 h mem c 0; Some (c, Long_item x, r) }"
| "get_item h mem c (Char_item v) = do { (c, x, r) \<leftarrow> GetChar mem c 0; Some (c, Char_item x, r) }"
| "get_item h mem c (Str_item v) = do { (c, x, r) \<leftarrow> GetString h mem c []; Some (c, Str_item x, r) }"

fun put_items :: "bool \<Rightarrow> byte list \<Rightarrow> cbuf \<Rightarrow> item list \<Rightarrow> (byte list \<times> cbuf \<times> int list) option" where
  "put_items h mem c [] = Some (mem, c, [])"
| "put_items h mem c (it # its) = do {
     (mem, c, r) \<leftarrow> put_item h mem c it;
     (mem, c, rs) \<leftarrow> put_items h mem c its;
     Some (mem, c, r # rs) }"

fun get_items :: "bool \<Rightarrow> byte list \<Rightarrow> cbuf \<Rightarrow> item list \<Rightarrow> (cbuf \<times> (item \<times> int) list) option" where
  "get_items h mem c [] = Some (c, [])"
| "get_items h mem c (it # its) = do {
     (c, v, r) \<leftarrow> get_item h mem c it;
     (c, vs) \<leftarrow> get_items h mem c its;
     Some (c, (v, r) # vs) }"

fun wire :: "bool \<Rightarrow> item \<Rightarrow> byte list" where
  "wire h (Int_item v) = be32 (word_of_int v)"
| "wire h (Long_item v) = wire64 h v"
| "wire h (Char_item v) = [v]"
| "wire h (Str_item v) = counted v"

fun item_ok :: "item \<Rightarrow> bool" where
  "item_ok (Int_item v) \<longleftrightarrow> - (2 ^ 31) \<le> v \<and> v < 2 ^ 31"
| "item_ok (Long_item v) \<longleftrightarrow> True"
| "item_ok (Char_item v) \<longleftrightarrow> True"
| "item_ok (Str_item v) \<longleftrightarrow> int (length v) < 2 ^ 31"

definition advance :: "cbuf \<Rightarrow> nat \<Rightarrow> cbuf" where
  "advance c n = c\<lparr>m_iOffset := m_iOffset c + int n\<rparr>"

lemma advance_ok: "cb_ok mem c b \<Longrightarrow> m_iOffset c + int n \<le> m_iBufferLen c \<Longrightarrow> length mem' = length mem \<Longrightarrow> cb_ok mem' (advance c n) b"
  by (simp add: cb_ok_def advance_def)

lemma length_wire64 [simp]: "length (wire64 h v) = 8"
  by (simp add: wire64_def)

lemma put_item_spec:
  assumes ok: "cb_ok mem c b" and "item_ok it" and room: "m_iOffset c + int (length (wire h it)) \<le> m_iBufferLen c"
  shows "put_item h mem c it = Some (put_bytes mem (nat (b + m_iOffset c)) (wire h it), advance c (length (wire h it)), 0)"
proof -
  let ?p = "b + m_iOffset c"
  have p: "0 \<le> ?p" "?p + int (length (wire h it)) \<le> int (length mem)" "m_iBufferLen c < 2 ^ 31" "0 \<le> m_iOffset c"
    using ok room by (auto simp: cb_ok_def)
  note cur = cb_ok_cursor [OF ok]
  show ?thesis
  proof (cases it)
    case (Int_item v)
    then show ?thesis using room p write_int_at [OF cur p(1)] by (simp add: PutInt_def advance_def)
  next
    case (Long_item v)
    then show ?thesis using room p cur bwrite_put [OF p(1)] by (simp add: PutLong64_def advance_def wire64_def)
  next
    case (Char_item v)
    then show ?thesis using room p cur bwrite_put [OF p(1), of "[v]"] by (simp add: PutChar_def advance_def)
  next
    case (Str_item v)
    then have "c_int (int (length v)) = int (length v)" using room p by (intro c_int_small) auto
    moreover have "put_counted h mem c (v @ []) (int (length v)) = Some (put_bytes mem (nat ?p) (counted v), c\<lparr>m_iOffset := m_iOffset c + 4 + int (length v)\<rparr>)"
      using Str_item room by (intro put_counted_spec [OF ok]) simp
    ultimately show ?thesis using Str_item room p by (simp add: PutString_def advance_def add_ac)
  qed
qed

lemma get_item_spec:
  assumes ok: "cb_ok mem c b" and it: "item_ok it" and room: "m_iOffset c + int (length (wire h it)) \<le> m_iBufferLen c"
    and at: "bytes_at mem (nat (b + m_iOffset c)) (wire h it)"
  shows "get_item h mem c it = Some (advance c (length (wire h it)), it, 0)"
proof -
  let ?p = "b + m_iOffset c"
  have p: "0 \<le> ?p" "m_iBufferLen c < 2 ^ 31" "0 \<le> m_iOffset c" using ok by (auto simp: cb_ok_def)
  note cur = cb_ok_cursor [OF ok]
  show ?thesis
  proof (cases it)
    case (Int_item v)
    have "sint (word_of_int v :: u32) = v" using it Int_item by (intro sint_u32) auto
    then show ?thesis using room p read_int_at [OF cur p(1)] at Int_item by (simp add: GetInt_def advance_def)
  next
    case (Long_item v)
    then show ?thesis using room p cur bread_at [OF at p(1)] by (simp add: GetLong64_def advance_def wire64_read)
  next
    case (Char_item v)
    then have "aget mem ?p = Some v" using at p by (auto simp: bytes_at_Cons getb_def aget_def split: if_splits)
    then show ?thesis using room p cur Char_item by (simp add: GetChar_def advance_def)
  next
    case (Str_item v)
    then have at': "bytes_at mem (nat ?p) (counted v)" and len: "int (length v) < 2 ^ 31" using at it by simp_all
    have cur': "cursor (c\<lparr>m_iOffset := m_iOffset c + 4\<rparr>) = Some (?p + 4)" using ok by (simp add: cursor_def cb_ok_def)
    show ?thesis using Str_item room p counted_read [OF at' p(1) cur len] cur' by (simp add: GetString_def advance_def add_ac)
  qed
qed

lemma put_items_spec:
  assumes "cb_ok mem c b" and "\<forall>it \<in> set its. item_ok it" and "m_iOffset c + int (length (concat (map (wire h) its))) \<le> m_iBufferLen c"
  shows "put_items h mem c its = Some (put_bytes mem (nat (b + m_iOffset c)) (concat (map (wire h) its)),
    advance c (length (concat (map (wire h) its))), replicate (length its) 0)"
  using assms
proof (induction its arbitrary: mem c)
  case (Cons it its)
  let ?m = "put_bytes mem (nat (b + m_iOffset c)) (wire h it)" and ?c = "advance c (length (wire h it))"
  have first: "put_item h mem c it = Some (?m, ?c, 0)" using Cons.prems by (intro put_item_spec) auto
  have ok: "cb_ok ?m ?c b" using Cons.prems by (intro advance_ok) auto
  have "nat (b + m_iOffset ?c) = nat (b + m_iOffset c) + length (wire h it)"
    using Cons.prems(1) by (simp add: advance_def cb_ok_def nat_add_distrib add.assoc)
  then show ?case using first Cons.IH [OF ok] Cons.prems by (simp add: advance_def put_bytes_append add_ac)
qed (simp add: advance_def)

lemma get_items_spec:
  assumes "cb_ok mem c b" and "\<forall>it \<in> set its. item_ok it" and "m_iOffset c + int (length (concat (map (wire h) its))) \<le> m_iBufferLen c"
    and "bytes_at mem (nat (b + m_iOffset c)) (concat (map (wire h) its))"
  shows "get_items h mem c its = Some (advance c (length (concat (map (wire h) its))), map (\<lambda>it. (it, 0)) its)"
  using assms
proof (induction its arbitrary: c)
  case (Cons it its)
  let ?c = "advance c (length (wire h it))"
  have at: "bytes_at mem (nat (b + m_iOffset c)) (wire h it)"
    "bytes_at mem (nat (b + m_iOffset c) + length (wire h it)) (concat (map (wire h) its))"
    using Cons.prems(4) by (simp_all add: bytes_at_append)
  have first: "get_item h mem c it = Some (?c, it, 0)" using Cons.prems at by (intro get_item_spec) auto
  have ok: "cb_ok mem ?c b" using Cons.prems by (intro advance_ok) auto
  have "nat (b + m_iOffset ?c) = nat (b + m_iOffset c) + length (wire h it)"
    using Cons.prems(1) by (simp add: advance_def cb_ok_def nat_add_distrib add.assoc)
  then show ?case using first Cons.IH [OF ok] Cons.prems at(2) by (simp add: advance_def add_ac)
qed (simp add: advance_def)

section \<open>Properties\<close>

text \<open>
  Round trip: items written one after the other to an attached buffer with room for them are all accepted, take exactly their encoded
  lengths and leave the rest of the memory alone; after \<open>SetOffset(0)\<close>, reading items of the same kinds gives them back.  This holds on hosts
  of either byte order.
\<close>

theorem cbuffer_roundtrip:
  assumes "0 \<le> b" and "b + len \<le> int (length mem)" and "0 < len" and "len < 2 ^ 31" and "\<forall>it \<in> set its. item_ok it"
    and "int (length (concat (map (wire h) its))) \<le> len"
  shows "\<exists>c mem' c'. AttachBuffer CBufferManage (Some b) len = (c, 0) \<and> put_items h mem c its = Some (mem', c', replicate (length its) 0)
    \<and> GetBufferOffset c' = int (length (concat (map (wire h) its))) \<and> length mem' = length mem
    \<and> (\<forall>i. i < nat b \<or> nat b + length (concat (map (wire h) its)) \<le> i \<longrightarrow> mem' ! i = mem ! i)
    \<and> get_items h mem' (fst (SetOffset c' 0)) its = Some (c', map (\<lambda>it. (it, 0)) its)"
proof -
  let ?c = "\<lparr>m_szBuffer = Some b, m_iBufferLen = len, m_iOffset = 0\<rparr>" and ?bs = "concat (map (wire h) its)"
  let ?m = "put_bytes mem (nat b) ?bs" and ?c' = "advance ?c (length ?bs)"
  have ok: "cb_ok mem ?c b" "cb_ok ?m ?c b" using assms(1-4) by (simp_all add: cb_ok_def)
  have att: "AttachBuffer CBufferManage (Some b) len = (?c, 0)" using assms(3) by (simp add: AttachBuffer_def CBufferManage_def)
  have put: "put_items h mem ?c its = Some (?m, ?c', replicate (length its) 0)" using put_items_spec [OF ok(1) assms(5)] assms(6) by simp
  have "nat b + length ?bs \<le> length mem" using assms(1,2,6) by linarith
  then have "bytes_at ?m (nat b) ?bs" by (rule bytes_at_put_bytes)
  then have "get_items h ?m ?c its = Some (?c', map (\<lambda>it. (it, 0)) its)" using get_items_spec [OF ok(2) assms(5)] assms(6) by simp
  moreover have "fst (SetOffset ?c' 0) = ?c" using assms(3) by (simp add: SetOffset_def advance_def)
  moreover have "GetBufferOffset ?c' = int (length ?bs)" by (simp add: GetBufferOffset_def advance_def)
  ultimately show ?thesis using att put
    by (intro exI [of _ ?c] exI [of _ ?m] exI [of _ ?c']) (auto simp: put_bytes_before put_bytes_after)
qed

theorem cbuffer_roundtrip_witness:
  "\<exists>c mem' c'. AttachBuffer CBufferManage (Some 1) 20 = (c, 0)
     \<and> put_items True (replicate 30 0) c [Int_item (- 5), Str_item [104, 105], Char_item 7] = Some (mem', c', [0, 0, 0])
     \<and> get_items True mem' (fst (SetOffset c' 0)) [Int_item (- 5), Str_item [104, 105], Char_item 7]
       = Some (c', [(Int_item (- 5), 0), (Str_item [104, 105], 0), (Char_item 7, 0)])"
  using cbuffer_roundtrip [of 1 20 "replicate 30 0" "[Int_item (- 5), Str_item [104, 105], Char_item 7]" True]
  by (auto simp: numeral_eq_Suc)

lemma read_in_range:
  assumes "cb_ok mem c b" and "m_iOffset c + n \<le> m_iBufferLen c" and "0 \<le> n"
  shows "\<exists>bs. bread mem (b + m_iOffset c) n = Some bs"
  using assms by (auto simp: cb_ok_def bread_def)

text \<open>\<open>GetString(char**, int&)\<close> on any stored length that does not overflow: an error and the cursor where it was, or a range inside the buffer.\<close>

lemma GetString_ptr_bounds:
  assumes ok: "cb_ok mem c b" and room: "m_iBufferLen c + 4 < 2 ^ 31" and small: "\<And>n. read_int h mem c = Some n \<Longrightarrow> m_iOffset c + 4 + n < 2 ^ 31"
  shows "(\<exists>p n. GetString_ptr h mem c True p0 n0 = Some (c, p, n, Err_Buffer_Overflow))
    \<or> (\<exists>n. GetString_ptr h mem c True p0 n0 = Some (c\<lparr>m_iOffset := m_iOffset c + 4 + n\<rparr>, Some (b + m_iOffset c + 4), n, 0)
        \<and> 0 \<le> n \<and> m_iOffset c + 4 + n \<le> m_iBufferLen c)"
proof (cases "m_iOffset c + 4 \<le> m_iBufferLen c")
  case True
  have o: "0 \<le> m_iOffset c" "m_szBuffer c = Some b" "m_iBufferLen c < 2 ^ 31" using ok by (auto simp: cb_ok_def)
  obtain n where n: "read_int h mem c = Some n"
    using read_in_range [OF ok True] cb_ok_cursor [OF ok] by (auto simp: read_int_def)
  then have "- (2 ^ 31) \<le> n" using sint_ge [where 'a = 32] by (auto simp: read_int_def split: bind_splits)
  then have f: "iadd (m_iOffset c) n = Some (m_iOffset c + n)" "iadd (m_iOffset c + n) 4 = Some (m_iOffset c + n + 4)"
    using small [OF n] o by simp_all
  have "cursor (c\<lparr>m_iOffset := m_iOffset c + 4\<rparr>) = Some (b + m_iOffset c + 4)" using o by (simp add: cursor_def)
  then show ?thesis using True n f o
    by (cases "m_iOffset c + n + 4 > m_iBufferLen c \<or> n < 0") (auto simp: GetString_ptr_def add_ac)
qed (use ok room in \<open>auto simp: GetString_ptr_def cb_ok_def\<close>)

text \<open>
  (C32) Bounds of reading: with the cursor inside an attached buffer, \<open>GetInt\<close>, \<open>GetLong64\<close> and \<open>GetChar\<close> return 0 or the overflow error and leave the
  cursor inside the buffer.  So do \<open>GetString(string&)\<close> and \<open>GetString(char**, int&)\<close> for every stored length that does not
  overflow an \<open>int\<close> when it is added to the cursor, and the bytes they hand out are inside the buffer.
\<close>

theorem cbuffer_read_bounds:
  assumes ok: "cb_ok mem c b" and room: "m_iBufferLen c + 8 < 2 ^ 31" and small: "\<And>n. read_int h mem c = Some n \<Longrightarrow> m_iOffset c + 4 + n < 2 ^ 31"
  shows "(\<exists>c' v r. GetInt h mem c x = Some (c', v, r) \<and> r \<in> {0, Err_Buffer_Overflow} \<and> cb_ok mem c' b)
    \<and> (\<exists>c' v r. GetLong64 h mem c y = Some (c', v, r) \<and> r \<in> {0, Err_Buffer_Overflow} \<and> cb_ok mem c' b)
    \<and> (\<exists>c' v r. GetChar mem c z = Some (c', v, r) \<and> r \<in> {0, Err_Buffer_Overflow} \<and> cb_ok mem c' b)
    \<and> (\<exists>c' s r. GetString h mem c s0 = Some (c', s, r) \<and> r \<in> {0, Err_Buffer_Overflow} \<and> cb_ok mem c' b)
    \<and> (\<exists>c' p n r. GetString_ptr h mem c True p0 n0 = Some (c', p, n, r) \<and> r \<in> {0, Err_Buffer_Overflow} \<and> cb_ok mem c' b
        \<and> (r = 0 \<longrightarrow> (\<exists>q. p = Some q \<and> b + 4 \<le> q \<and> 0 \<le> n \<and> q + n = b + m_iOffset c' \<and> m_iOffset c' \<le> m_iBufferLen c)))"
proof -
  have o: "0 \<le> m_iOffset c" "m_iOffset c \<le> m_iBufferLen c" "m_iBufferLen c < 2 ^ 31" "m_szBuffer c = Some b" "0 \<le> b"
    "b + m_iBufferLen c \<le> int (length mem)"
    using ok by (auto simp: cb_ok_def)
  note cur = cb_ok_cursor [OF ok]
  have ri: "\<exists>n. read_int h mem c = Some n" if "m_iOffset c + 4 \<le> m_iBufferLen c"
    using read_in_range [OF ok that] cur by (auto simp: read_int_def)
  have ge: "- (2 ^ 31) \<le> n" if "read_int h mem c = Some n" for n
    using that sint_ge [where 'a = 32] by (auto simp: read_int_def split: bind_splits)
  have cb: "cb_ok mem (c\<lparr>m_iOffset := k\<rparr>) b" if "0 \<le> k" "k \<le> m_iBufferLen c" for k using that ok by (simp add: cb_ok_def)
  have cur4: "cursor (c\<lparr>m_iOffset := m_iOffset c + 4\<rparr>) = Some (b + m_iOffset c + 4)" using o by (simp add: cursor_def)
  show ?thesis
  proof (intro conjI, goal_cases)
    case 1
    show ?case using ri o room ok cb by (cases "m_iOffset c + 4 \<le> m_iBufferLen c") (auto simp: GetInt_def)
  next
    case 2
    show ?case using read_in_range [OF ok, of 8] cur o room ok cb
      by (cases "m_iOffset c + 8 \<le> m_iBufferLen c") (auto simp: GetLong64_def)
  next
    case 3
    show ?case using cur o room ok cb by (cases "m_iOffset c + 1 \<le> m_iBufferLen c") (auto simp: GetChar_def aget_def)
  next
    case 4
    show ?case
    proof (cases "m_iOffset c + 4 \<le> m_iBufferLen c")
      case True
      then obtain n where n: "read_int h mem c = Some n" using ri by blast
      have f: "iadd (m_iOffset c + 4) n = Some (m_iOffset c + 4 + n)" using small [OF n] ge [OF n] o by simp
      show ?thesis
      proof (cases "m_iOffset c + 4 + n > m_iBufferLen c \<or> n < 0")
        case False
        have "\<exists>s. bread mem (b + m_iOffset c + 4) n = Some s" using False o by (simp add: bread_def)
        then show ?thesis using True n f False cur4 cb o room by (auto simp: GetString_def)
      qed (use True n f cb o room in \<open>auto simp: GetString_def\<close>)
    qed (use o room ok in \<open>auto simp: GetString_def\<close>)
  next
    case 5
    show ?case using GetString_ptr_bounds [OF ok, of h p0 n0] small room ok by (auto simp: cb_ok_def)
  qed
qed

theorem cbuffer_read_bounds_witness:
  "\<exists>c' p n r. GetString_ptr True [0, 0, 0, 9, 104] \<lparr>m_szBuffer = Some 0, m_iBufferLen = 5, m_iOffset = 0\<rparr> True None 0 = Some (c', p, n, r)
     \<and> r \<in> {0, Err_Buffer_Overflow}"
proof -
  let ?c = "\<lparr>m_szBuffer = Some 0, m_iBufferLen = 5, m_iOffset = 0\<rparr>"
  have "read_int True [0, 0, 0, 9, 104] ?c = Some 9" by code_simp
  then show ?thesis using cbuffer_read_bounds [of "[0, 0, 0, 9, 104]" ?c 0 True 0 0 0 "[]" None 0] by (auto simp: cb_ok_def)
qed

text \<open>
  \<open>GetString(char*, int&)\<close> forgets the four bytes of the length when it compares the string with the end of the buffer: with eight bytes attached and a
  stored length of 5 it succeeds, copies the byte behind the buffer, and leaves the cursor behind the end.
\<close>

lemma GetString_buf_overread:
  "GetString_buf True [0, 0, 0, 5, 97, 98, 99, 100, 101] \<lparr>m_szBuffer = Some 0, m_iBufferLen = 8, m_iOffset = 0\<rparr> (Some (replicate 6 0)) 6
    = Some (\<lparr>m_szBuffer = Some 0, m_iBufferLen = 8, m_iOffset = 9\<rparr>, Some [97, 98, 99, 100, 101, 0], 6, 0)"
  by code_simp

end
