(* ===== verification/CText.thy ===== *)
theory CText
  imports CPrelude
begin

text \<open>
  Text in byte lists: decimal and hexadecimal digits as \<open>printf\<close> writes them, the character classes of the C locale, C strings, and the searching
  and slicing operations of \<open>std::string\<close>.
\<close>

section \<open>Decimal numbers\<close>

text \<open>\<open>%d\<close>, \<open>%u\<close> and their 64-bit forms.\<close>

function dec_digits :: "nat \<Rightarrow> byte list" where
  "dec_digits n = (if n < 10 then [of_nat (48 + n)] else dec_digits (n div 10) @ [of_nat (48 + n mod 10)])"
  by pat_completeness auto
termination by (relation "measure id") auto

declare dec_digits.simps [simp del]

definition print_signed :: "int \<Rightarrow> byte list" where
  "print_signed v = (if v < 0 then 45 # dec_digits (nat (- v)) else dec_digits (nat v))"

text \<open>A \<open>char[]\<close> as a \<open>std::string\<close> ends at its first zero byte.\<close>

definition c_string :: "byte list \<Rightarrow> byte list" where
  "c_string bs = takeWhile (\<lambda>b. b \<noteq> 0) bs"

fun dec_value :: "byte list \<Rightarrow> nat" where
  "dec_value bs = foldl (\<lambda>n d. 10 * n + (unat d - 48)) 0 bs"

lemma unat_digit: "n < 10 \<Longrightarrow> unat (of_nat (48 + n) :: byte) = 48 + n"
  by (simp add: unat_of_nat take_bit_nat_eq_self del: of_nat_add)

lemma dec_value_digits: "dec_value (dec_digits n) = n"
proof (induction n rule: dec_digits.induct)
  case (1 n)
  show ?case
  proof (cases "n < 10")
    case True
    then show ?thesis using unat_digit [of n] by (simp add: dec_digits.simps)
  next
    case False
    then show ?thesis using 1 unat_digit [of "n mod 10"] by (subst dec_digits.simps) simp
  qed
qed

lemma digits_nonzero: "b \<in> set (dec_digits n) \<Longrightarrow> b \<noteq> 0 \<and> b \<noteq> 45"
proof (induction n rule: dec_digits.induct)
  case (1 n)
  have d: "of_nat (48 + k) \<noteq> (0 :: byte) \<and> of_nat (48 + k) \<noteq> (45 :: byte)" if "k < 10" for k
    using unat_digit [OF that] by (auto simp del: of_nat_add)
  show ?case
  proof (cases "n < 10")
    case True
    then show ?thesis using 1 d [of n] by (simp add: dec_digits.simps [of n])
  next
    case False
    then show ?thesis using 1 d [of "n mod 10"] by (auto simp: dec_digits.simps [of n])
  qed
qed

lemma c_string_digits: "c_string (dec_digits n) = dec_digits n"
  using digits_nonzero [of _ n] by (simp add: c_string_def takeWhile_eq_all_conv)

lemma c_string_signed: "c_string (print_signed v) = print_signed v"
  using digits_nonzero by (auto simp: c_string_def print_signed_def takeWhile_eq_all_conv)

definition int_value :: "byte list \<Rightarrow> int" where
  "int_value bs = (case bs of [] \<Rightarrow> 0 | b # ds \<Rightarrow> if b = 45 then - int (dec_value ds) else int (dec_value bs))"

lemma int_value_signed: "int_value (print_signed v) = v"
proof (cases "v < 0")
  case True
  then show ?thesis using dec_value_digits [of "nat (- v)"] by (simp add: print_signed_def int_value_def)
next
  case False
  obtain d ds where "dec_digits (nat v) = d # ds"
    by (cases "dec_digits (nat v)") (auto simp: dec_digits.simps [of "nat v"] split: if_splits)
  then show ?thesis using False digits_nonzero [of d "nat v"] dec_value_digits [of "nat v"] by (simp add: print_signed_def int_value_def)
qed

section \<open>Characters and strings\<close>

definition isdigit :: "byte \<Rightarrow> bool" where
  "isdigit c \<longleftrightarrow> 48 \<le> c \<and> c \<le> 57"

definition isalnum :: "byte \<Rightarrow> bool" where
  "isalnum c \<longleftrightarrow> isdigit c \<or> 65 \<le> c \<and> c \<le> 90 \<or> 97 \<le> c \<and> c \<le> 122"

definition isspace :: "byte \<Rightarrow> bool" where
  "isspace c \<longleftrightarrow> c = 32 \<or> 9 \<le> c \<and> c \<le> 13"

definition tolower :: "byte \<Rightarrow> byte" where
  "tolower c = (if 65 \<le> c \<and> c \<le> 90 then c + 32 else c)"

text \<open>\<open>%02X\<close> of a byte.\<close>

definition hex_digit :: "byte \<Rightarrow> byte" where
  "hex_digit n = (if n \<le> 9 then n + 48 else n + 55)"

definition print_02X :: "byte \<Rightarrow> byte list" where
  "print_02X c = [hex_digit (c div 16), hex_digit (c mod 16)]"

text \<open>\<open>string::find\<close> with \<open>npos\<close> as \<^const>\<open>None\<close>, and \<open>string::substr\<close>, which throws when it starts behind the end.\<close>

fun find_sub :: "byte list \<Rightarrow> byte list \<Rightarrow> nat option" where
  "find_sub pat s = (if take (length pat) s = pat then Some 0 else (case s of [] \<Rightarrow> None | _ # t \<Rightarrow> map_option Suc (find_sub pat t)))"

declare find_sub.simps [simp del]

definition find_from :: "byte list \<Rightarrow> byte list \<Rightarrow> nat \<Rightarrow> nat option" where
  "find_from s pat pos = (if length s < pos then None else map_option ((+) pos) (find_sub pat (drop pos s)))"

definition str_substr :: "byte list \<Rightarrow> nat \<Rightarrow> nat \<Rightarrow> byte list option" where
  "str_substr s pos n = (if pos \<le> length s then Some (take n (drop pos s)) else None)"

abbreviation str_rest :: "byte list \<Rightarrow> nat \<Rightarrow> byte list option" where
  "str_rest s pos \<equiv> str_substr s pos (length s)"

end
