(* ===== verification/BinMsg.thy ===== *)
theory BinMsg
  imports CBuffer CText
begin

text \<open>
  \<open>template_http/src/struct/cbinmsg.cpp\<close> and \<open>.h\<close>: messages of rows of named fields.  A \<open>std::string\<close> is a byte list and a \<open>std::vector\<close> a list.
  \<open>Encode\<close> writes through a pointer into a byte array and \<open>Decode\<close> reads from one, with the operations of \<open>bufferoperation.cpp\<close>.  The overloads
  of \<open>AddField\<close>, \<open>SetField\<close> and \<open>GetField\<close> have names of their own; \<open>snprintf\<close> of an integer is its decimal digits.
\<close>

section \<open>Definitions: fields\<close>

abbreviation Err_BinMsg_FieldDecode :: int where "Err_BinMsg_FieldDecode \<equiv> - 1"
abbreviation Err_BinMsg_RowDecode :: int where "Err_BinMsg_RowDecode \<equiv> - 2"
abbreviation Err_BinMsg_Param :: int where "Err_BinMsg_Param \<equiv> - 7"
abbreviation Err_BinMsg_NoEnough :: int where "Err_BinMsg_NoEnough \<equiv> - 8"

record msg_field =
  m_strName :: "byte list"
  m_strValue :: "byte list"

text \<open>The results are the memory, the return value and the new \<open>iBufferLen\<close>; \<open>c_str()\<close> ends with a zero byte.\<close>

definition Field_Encode :: "bool \<Rightarrow> msg_field \<Rightarrow> byte list \<Rightarrow> int option \<Rightarrow> int \<Rightarrow> (byte list \<times> int \<times> int) option" where
  "Field_Encode h f mem szBuffer iBufferLen =
     (if szBuffer = None \<or> iBufferLen < 0 then Some (mem, Err_BinMsg_Param, iBufferLen)
      else do {
        let (c, iRet) = AttachBuffer CBufferManage szBuffer iBufferLen;
        if iRet \<noteq> 0 then Some (mem, Err_BinMsg_Param, iBufferLen)
        else do {
          (mem, c, iTemp, iRet) \<leftarrow> PutString_buf h mem c (Some (m_strName f @ [0])) (c_int (int (length (m_strName f))));
          (mem, c, iTemp, iRet) \<leftarrow>
            (if iRet \<noteq> 0 then Some (mem, c, iTemp, iRet)
             else PutString_buf h mem c (Some (m_strValue f @ [0])) (c_int (int (length (m_strValue f)))));
          if iRet \<noteq> 0 then Some (mem, Err_BinMsg_NoEnough, 0)
          else Some (mem, 0, c_int (int (length (m_strValue f)) + 4 + int (length (m_strName f)) + 4))
        }
      })"

text \<open>The fields that are read so far stay in the object when a later one is malformed.\<close>

definition Field_Decode :: "bool \<Rightarrow> msg_field \<Rightarrow> byte list \<Rightarrow> int option \<Rightarrow> int \<Rightarrow> (msg_field \<times> int) option" where
  "Field_Decode h f mem szBuffer iBufferLen =
     (if szBuffer = None \<or> iBufferLen \<le> 0 then Some (f, Err_BinMsg_Param)
      else do {
        let (c, iRet) = AttachBuffer CBufferManage szBuffer iBufferLen;
        if iRet \<noteq> 0 then Some (f, Err_BinMsg_Param)
        else do {
          (c, szBufferRow, iFieldLength, iRet) \<leftarrow> GetString_ptr h mem c True None 0;
          if iRet \<noteq> 0 then Some (f, Err_BinMsg_FieldDecode)
          else do {
            p \<leftarrow> szBufferRow;
            s \<leftarrow> bread mem p iFieldLength;
            let f = f\<lparr>m_strName := s\<rparr>;
            (c, szBufferRow, iFieldLength, iRet) \<leftarrow> GetString_ptr h mem c True szBufferRow iFieldLength;
            if iRet \<noteq> 0 then Some (f, Err_BinMsg_FieldDecode)
            else do {
              p \<leftarrow> szBufferRow;
              s \<leftarrow> bread mem p iFieldLength;
              Some (f\<lparr>m_strValue := s\<rparr>, 0)
            }
          }
        }
      })"

definition Field_GetSize :: "msg_field \<Rightarrow> int" where
  "Field_GetSize f = c_int (int (length (m_strName f)) + 4 + int (length (m_strValue f)) + 4)"

section \<open>Definitions: rows\<close>

record msg_row =
  m_vecField :: "msg_field list"
  m_iFieldNum :: int
  m_iReadField :: int

definition CBinMsgField :: msg_field where
  "CBinMsgField = \<lparr>m_strName = [], m_strValue = []\<rparr>"

definition CBinMsgRow :: msg_row where
  "CBinMsgRow = \<lparr>m_vecField = [], m_iFieldNum = 0, m_iReadField = 0\<rparr>"

definition AddField :: "msg_row \<Rightarrow> msg_field \<Rightarrow> msg_row option" where
  "AddField r f = do { n \<leftarrow> iadd (m_iFieldNum r) 1; Some (r\<lparr>m_vecField := m_vecField r @ [f], m_iFieldNum := n\<rparr>) }"

definition AddField_string :: "msg_row \<Rightarrow> byte list \<Rightarrow> byte list \<Rightarrow> msg_row option" where
  "AddField_string r strName strValue = AddField r (CBinMsgField\<lparr>m_strName := strName, m_strValue := strValue\<rparr>)"

definition AddField_int64 :: "msg_row \<Rightarrow> byte list \<Rightarrow> 64 word \<Rightarrow> msg_row option" where
  "AddField_int64 r strName llValue = AddField r (CBinMsgField\<lparr>m_strName := strName, m_strValue := c_string (print_signed (sint llValue))\<rparr>)"

definition AddField_uint64 :: "msg_row \<Rightarrow> byte list \<Rightarrow> 64 word \<Rightarrow> msg_row option" where
  "AddField_uint64 r strName ullValue = AddField r (CBinMsgField\<lparr>m_strName := strName, m_strValue := c_string (dec_digits (unat ullValue))\<rparr>)"

definition AddField_int32 :: "msg_row \<Rightarrow> byte list \<Rightarrow> 32 word \<Rightarrow> msg_row option" where
  "AddField_int32 r strName iValue = AddField r (CBinMsgField\<lparr>m_strName := strName, m_strValue := c_string (print_signed (sint iValue))\<rparr>)"

definition AddField_char :: "msg_row \<Rightarrow> byte list \<Rightarrow> byte \<Rightarrow> msg_row option" where
  "AddField_char r strName cValue = AddField r (CBinMsgField\<lparr>m_strName := strName, m_strValue := c_string [cValue, 0]\<rparr>)"

definition AddField_uint32 :: "msg_row \<Rightarrow> byte list \<Rightarrow> 32 word \<Rightarrow> msg_row option" where
  "AddField_uint32 r strName ulValue = AddField r (CBinMsgField\<lparr>m_strName := strName, m_strValue := c_string (dec_digits (unat ulValue))\<rparr>)"

text \<open>The index of the first field with the name, or the number of fields.\<close>

fun find_name :: "msg_field list \<Rightarrow> byte list \<Rightarrow> nat" where
  "find_name [] strName = 0"
| "find_name (f # fs) strName = (if m_strName f = strName then 0 else Suc (find_name fs strName))"

definition SetField :: "msg_row \<Rightarrow> byte list \<Rightarrow> byte list \<Rightarrow> msg_row" where
  "SetField r strName strValue =
     (let i = find_name (m_vecField r) strName in
      if i \<noteq> length (m_vecField r)
      then r\<lparr>m_vecField := (m_vecField r)[i := (m_vecField r ! i)\<lparr>m_strValue := strValue\<rparr>]\<rparr> else r)"

definition SetField_char :: "msg_row \<Rightarrow> byte list \<Rightarrow> byte \<Rightarrow> msg_row" where
  "SetField_char r strName cValue = SetField r strName (c_string [cValue, 0])"

definition SetField_int32 :: "msg_row \<Rightarrow> byte list \<Rightarrow> 32 word \<Rightarrow> msg_row" where
  "SetField_int32 r strName iValue = SetField r strName (c_string (print_signed (sint iValue)))"

definition SetField_int64 :: "msg_row \<Rightarrow> byte list \<Rightarrow> 64 word \<Rightarrow> msg_row" where
  "SetField_int64 r strName llValue = SetField r strName (c_string (print_signed (sint llValue)))"

definition SetField_uint64 :: "msg_row \<Rightarrow> byte list \<Rightarrow> 64 word \<Rightarrow> msg_row" where
  "SetField_uint64 r strName ullValue = SetField r strName (c_string (dec_digits (unat ullValue)))"

definition SetField_uint32 :: "msg_row \<Rightarrow> byte list \<Rightarrow> 32 word \<Rightarrow> msg_row" where
  "SetField_uint32 r strName ulValue = SetField r strName (c_string (dec_digits (unat ulValue)))"

definition FindField :: "msg_row \<Rightarrow> byte list \<Rightarrow> int" where
  "FindField r strName = (if find_name (m_vecField r) strName < length (m_vecField r) then 1 else 0)"

definition GetField_at :: "msg_row \<Rightarrow> int \<Rightarrow> msg_field option" where
  "GetField_at r iIndex = (if iIndex < 0 \<or> iIndex \<ge> int (length (m_vecField r)) then None else Some (m_vecField r ! nat iIndex))"

definition GetNextField :: "msg_row \<Rightarrow> (msg_row \<times> msg_field option) option" where
  "GetNextField r = (case GetField_at r (m_iReadField r) of None \<Rightarrow> Some (r, None)
     | Some f \<Rightarrow> do { n \<leftarrow> iadd (m_iReadField r) 1; Some (r\<lparr>m_iReadField := n\<rparr>, Some f) })"

definition GetField :: "msg_row \<Rightarrow> byte list \<Rightarrow> byte list" where
  "GetField r strName =
     (let i = find_name (m_vecField r) strName in
      if i = length (m_vecField r) then [] else m_strValue (m_vecField r ! i))"

definition GetFieldNum :: "msg_row \<Rightarrow> int" where
  "GetFieldNum r = m_iFieldNum r"

text \<open>\<open>*(int*)(p) = htonl(n)\<close> at an index of the array.\<close>

definition store_int :: "bool \<Rightarrow> byte list \<Rightarrow> int \<Rightarrow> int \<Rightarrow> byte list option" where
  "store_int h mem p n = bwrite mem p (host_bytes h 4 (htonl h (word_of_int n)))"

function Row_Encode_loop :: "bool \<Rightarrow> msg_row \<Rightarrow> byte list \<Rightarrow> int \<Rightarrow> int \<Rightarrow> int \<Rightarrow> int \<Rightarrow> (byte list \<times> int \<times> int) option" where
  "Row_Encode_loop h r mem szBuffer iBufferLen i iRowLen =
     (if i < GetFieldNum r then do {
        let iTemp = c_int (iBufferLen - iRowLen - 4);
        if iTemp \<le> 0 then Some (mem, Err_BinMsg_NoEnough, 0)
        else do {
          f \<leftarrow> aget (m_vecField r) i;
          (mem, iRet, iTemp) \<leftarrow> Field_Encode h f mem (Some (szBuffer + 4 + iRowLen)) iTemp;
          if iRet \<noteq> 0 then Some (mem, Err_BinMsg_NoEnough, 0)
          else do {
            mem \<leftarrow> store_int h mem (szBuffer + iRowLen) iTemp;
            Row_Encode_loop h r mem szBuffer iBufferLen (i + 1) (c_int (iRowLen + iTemp + 4))
          }
        }
      } else Some (mem, 0, iRowLen))"
  by pat_completeness auto
termination by (relation "measure (\<lambda>(h, r, mem, b, n, i, l). nat (GetFieldNum r - i))") auto

declare Row_Encode_loop.simps [simp del]

definition Row_Encode :: "bool \<Rightarrow> msg_row \<Rightarrow> byte list \<Rightarrow> int option \<Rightarrow> int \<Rightarrow> (byte list \<times> int \<times> int) option" where
  "Row_Encode h r mem szBuffer iBufferLen =
     (if szBuffer = None \<or> iBufferLen < 0 then Some (mem, Err_BinMsg_Param, iBufferLen)
      else do { b \<leftarrow> szBuffer; Row_Encode_loop h r mem b iBufferLen 0 0 })"

partial_function (option) Row_Decode_loop :: "bool \<Rightarrow> byte list \<Rightarrow> cbuf \<Rightarrow> int option \<Rightarrow> int \<Rightarrow> msg_row \<Rightarrow> bool \<Rightarrow> (msg_row \<times> int) option" where
  "Row_Decode_loop h mem c szBufferRow iRowLength r flag = do {
     (c, szBufferRow, iRowLength, iRet) \<leftarrow> GetString_ptr h mem c True szBufferRow iRowLength;
     if iRet = 0 then do {
       (f, iRet) \<leftarrow> Field_Decode h CBinMsgField mem szBufferRow iRowLength;
       if iRet \<noteq> 0 then Some (r, Err_BinMsg_FieldDecode)
       else do {
         r \<leftarrow> AddField r f;
         Row_Decode_loop h mem c szBufferRow iRowLength r True
       }
     } else Some (r, if flag then 0 else Err_BinMsg_FieldDecode)
   }"

definition Row_Decode :: "bool \<Rightarrow> msg_row \<Rightarrow> byte list \<Rightarrow> int option \<Rightarrow> int \<Rightarrow> (msg_row \<times> int) option" where
  "Row_Decode h r mem szBuffer iBufferLen =
     (if szBuffer = None \<or> iBufferLen \<le> 0 then Some (r, Err_BinMsg_Param)
      else do {
        let (c, iRet) = AttachBuffer CBufferManage szBuffer iBufferLen;
        if iRet \<noteq> 0 then Some (r, Err_BinMsg_Param)
        else Row_Decode_loop h mem c None 0 r False
      })"

function Row_GetSize_loop :: "msg_row \<Rightarrow> int \<Rightarrow> int \<Rightarrow> int option" where
  "Row_GetSize_loop r i iRowSize =
     (if i < GetFieldNum r then do {
        f \<leftarrow> aget (m_vecField r) i;
        Row_GetSize_loop r (i + 1) (c_int (iRowSize + Field_GetSize f + 4))
      } else Some iRowSize)"
  by pat_completeness auto
termination by (relation "measure (\<lambda>(r, i, n). nat (GetFieldNum r - i))") auto

declare Row_GetSize_loop.simps [simp del]

definition Row_GetSize :: "msg_row \<Rightarrow> int option" where
  "Row_GetSize r = Row_GetSize_loop r 0 0"

section \<open>Definitions: records\<close>

record msg_record =
  m_vecRow :: "msg_row list"
  m_iRowNum :: int
  m_iReadRow :: int

definition CBinMsgRecord :: msg_record where
  "CBinMsgRecord = \<lparr>m_vecRow = [], m_iRowNum = 0, m_iReadRow = 0\<rparr>"

definition GetRow :: "msg_record \<Rightarrow> int \<Rightarrow> msg_row option" where
  "GetRow m iIndex = (if iIndex < 0 \<or> iIndex \<ge> int (length (m_vecRow m)) then None else Some (m_vecRow m ! nat iIndex))"

definition GetNextRow :: "msg_record \<Rightarrow> (msg_record \<times> msg_row option) option" where
  "GetNextRow m = (case GetRow m (m_iReadRow m) of None \<Rightarrow> Some (m, None)
     | Some r \<Rightarrow> do { n \<leftarrow> iadd (m_iReadRow m) 1; Some (m\<lparr>m_iReadRow := n\<rparr>, Some r) })"

definition GetRowNum :: "msg_record \<Rightarrow> int" where
  "GetRowNum m = m_iRowNum m"

definition AddRow :: "msg_record \<Rightarrow> msg_row \<Rightarrow> msg_record option" where
  "AddRow m r = do { n \<leftarrow> iadd (m_iRowNum m) 1; Some (m\<lparr>m_vecRow := m_vecRow m @ [r], m_iRowNum := n\<rparr>) }"

partial_function (option) Record_Decode_loop ::
    "bool \<Rightarrow> byte list \<Rightarrow> cbuf \<Rightarrow> int option \<Rightarrow> int \<Rightarrow> msg_record \<Rightarrow> bool \<Rightarrow> (msg_record \<times> int) option" where
  "Record_Decode_loop h mem c szBufferRow iRowLength m flag = do {
     (c, szBufferRow, iRowLength, iRet) \<leftarrow> GetString_ptr h mem c True szBufferRow iRowLength;
     if iRet = 0 then do {
       (r, iRet) \<leftarrow> Row_Decode h CBinMsgRow mem szBufferRow iRowLength;
       if iRet \<noteq> 0 then Some (m, Err_BinMsg_RowDecode)
       else do {
         m \<leftarrow> AddRow m r;
         Record_Decode_loop h mem c szBufferRow iRowLength m True
       }
     } else Some (m, if flag then 0 else Err_BinMsg_RowDecode)
   }"

definition Record_Decode :: "bool \<Rightarrow> msg_record \<Rightarrow> byte list \<Rightarrow> int option \<Rightarrow> int \<Rightarrow> (msg_record \<times> int) option" where
  "Record_Decode h m mem szBuffer iBufferLen =
     (if szBuffer = None \<or> iBufferLen < 4 then Some (m, Err_BinMsg_Param)
      else do {
        b \<leftarrow> szBuffer;
        let (c, iRet) = AttachBuffer CBufferManage (Some (b + 4)) (c_int (iBufferLen - 4));
        if iRet \<noteq> 0 then Some (m, Err_BinMsg_Param)
        else Record_Decode_loop h mem c None 0 m False
      })"

function Record_Encode_loop :: "bool \<Rightarrow> msg_record \<Rightarrow> byte list \<Rightarrow> int \<Rightarrow> int \<Rightarrow> int \<Rightarrow> int \<Rightarrow> (byte list \<times> int \<times> int) option" where
  "Record_Encode_loop h m mem szBuffer iBufferLen i iRecLen =
     (if i < GetRowNum m then do {
        let iTemp = c_int (iBufferLen - iRecLen - 4);
        if iTemp \<le> 0 then Some (mem, Err_BinMsg_NoEnough, 0)
        else do {
          r \<leftarrow> aget (m_vecRow m) i;
          (mem, iRet, iTemp) \<leftarrow> Row_Encode h r mem (Some (szBuffer + 4 + iRecLen)) iTemp;
          if iRet \<noteq> 0 then Some (mem, Err_BinMsg_NoEnough, 0)
          else do {
            mem \<leftarrow> store_int h mem (szBuffer + iRecLen) iTemp;
            Record_Encode_loop h m mem szBuffer iBufferLen (i + 1) (c_int (iRecLen + iTemp + 4))
          }
        }
      } else Some (mem, 0, iRecLen))"
  by pat_completeness auto
termination by (relation "measure (\<lambda>(h, m, mem, b, n, i, l). nat (GetRowNum m - i))") auto

declare Record_Encode_loop.simps [simp del]

text \<open>The total length is stored last, whatever room there is.\<close>

definition Record_Encode :: "bool \<Rightarrow> msg_record \<Rightarrow> byte list \<Rightarrow> int option \<Rightarrow> int \<Rightarrow> (byte list \<times> int \<times> int) option" where
  "Record_Encode h m mem szBuffer iBufferLen =
     (if szBuffer = None \<or> iBufferLen < 0 then Some (mem, Err_BinMsg_Param, iBufferLen)
      else do {
        b \<leftarrow> szBuffer;
        (mem, iRet, iRecLen) \<leftarrow> Record_Encode_loop h m mem b iBufferLen 0 4;
        if iRet \<noteq> 0 then Some (mem, iRet, iRecLen)
        else do {
          mem \<leftarrow> store_int h mem b iRecLen;
          Some (mem, 0, iRecLen)
        }
      })"

function Record_GetSize_loop :: "msg_record \<Rightarrow> int \<Rightarrow> int \<Rightarrow> int option" where
  "Record_GetSize_loop m i iRecSize =
     (if i < GetRowNum m then do {
        r \<leftarrow> aget (m_vecRow m) i;
        n \<leftarrow> Row_GetSize r;
        Record_GetSize_loop m (i + 1) (c_int (iRecSize + n + 4))
      } else Some iRecSize)"
  by pat_completeness auto
termination by (relation "measure (\<lambda>(m, i, n). nat (GetRowNum m - i))") auto

declare Record_GetSize_loop.simps [simp del]

definition Record_GetSize :: "msg_record \<Rightarrow> int option" where
  "Record_GetSize m = Record_GetSize_loop m 0 4"

declare Row_Decode_loop.simps [code] Record_Decode_loop.simps [code]

section \<open>The format\<close>

definition enc_field :: "msg_field \<Rightarrow> byte list" where
  "enc_field f = counted (m_strName f) @ counted (m_strValue f)"

definition enc_row :: "msg_row \<Rightarrow> byte list" where
  "enc_row r = concat (map (counted \<circ> enc_field) (m_vecField r))"

definition enc_record :: "msg_record \<Rightarrow> byte list" where
  "enc_record m = (let body = concat (map (counted \<circ> enc_row) (m_vecRow m)) in be32 (word_of_int (4 + int (length body))) @ body)"

text \<open>\<open>mem'\<close> has the length of \<open>mem\<close> and differs from it at most in the \<open>n\<close> bytes from \<open>b\<close>.\<close>

definition keeps :: "byte list \<Rightarrow> byte list \<Rightarrow> int \<Rightarrow> int \<Rightarrow> bool" where
  "keeps mem mem' b n \<longleftrightarrow> length mem' = length mem \<and> (\<forall>i. int i < b \<or> b + n \<le> int i \<longrightarrow> mem' ! i = mem ! i)"

lemma keeps_refl [simp]: "keeps mem mem b n"
  by (simp add: keeps_def)

lemma keeps_trans: "keeps m1 m2 b n \<Longrightarrow> keeps m2 m3 b n \<Longrightarrow> keeps m1 m3 b n"
  by (simp add: keeps_def)

lemma keeps_mono: "keeps m m' b n \<Longrightarrow> b' \<le> b \<Longrightarrow> b + n \<le> b' + n' \<Longrightarrow> keeps m m' b' n'"
  by (auto simp: keeps_def)

lemma keeps_put: "b \<le> p \<Longrightarrow> 0 \<le> p \<Longrightarrow> p + int (length bs) \<le> b + n \<Longrightarrow> keeps mem (put_bytes mem (nat p) bs) b n"
  by (auto simp: keeps_def put_bytes_before put_bytes_after)

section \<open>A codec for elements, and lists of elements\<close>

locale codec =
  fixes enc :: "'e \<Rightarrow> byte list \<Rightarrow> int option \<Rightarrow> int \<Rightarrow> (byte list \<times> int \<times> int) option"
    and dec :: "byte list \<Rightarrow> int option \<Rightarrow> int \<Rightarrow> ('e \<times> int) option" and img :: "'e \<Rightarrow> byte list" and good :: "'e \<Rightarrow> bool"
  assumes nonempty: "good e \<Longrightarrow> img e \<noteq> []"
    and enc_law: "good e \<Longrightarrow> 0 \<le> b \<Longrightarrow> b + n \<le> int (length mem) \<Longrightarrow> n < 2 ^ 31 \<Longrightarrow> int (length (img e)) \<le> n \<Longrightarrow>
      enc e mem (Some b) n = Some (put_bytes mem (nat b) (img e), 0, int (length (img e)))"
    and enc_fail: "good e \<Longrightarrow> 0 \<le> b \<Longrightarrow> b + n \<le> int (length mem) \<Longrightarrow> 0 < n \<Longrightarrow> n < int (length (img e)) \<Longrightarrow> int (length (img e)) < 2 ^ 31 \<Longrightarrow>
      \<exists>mem'. enc e mem (Some b) n = Some (mem', Err_BinMsg_NoEnough, 0) \<and> keeps mem mem' b n"
    and dec_law: "good e \<Longrightarrow> 0 \<le> b \<Longrightarrow> bytes_at mem (nat b) (img e) \<Longrightarrow> int (length (img e)) < 2 ^ 31 - 4 \<Longrightarrow>
      dec mem (Some b) (int (length (img e))) = Some (e, 0)"

text \<open>The loop of \<open>Encode\<close> over the elements that are left.\<close>

fun enc_list :: "('e \<Rightarrow> byte list \<Rightarrow> int option \<Rightarrow> int \<Rightarrow> (byte list \<times> int \<times> int) option) \<Rightarrow> bool \<Rightarrow> 'e list \<Rightarrow> byte list \<Rightarrow> int \<Rightarrow> int \<Rightarrow> int
    \<Rightarrow> (byte list \<times> int \<times> int) option" where
  "enc_list enc h [] mem b n l = Some (mem, 0, l)"
| "enc_list enc h (e # es) mem b n l =
     (if c_int (n - l - 4) \<le> 0 then Some (mem, Err_BinMsg_NoEnough, 0)
      else do {
        (mem, iRet, t) \<leftarrow> enc e mem (Some (b + 4 + l)) (c_int (n - l - 4));
        if iRet \<noteq> 0 then Some (mem, Err_BinMsg_NoEnough, 0)
        else do {
          mem \<leftarrow> store_int h mem (b + l) t;
          enc_list enc h es mem b n (c_int (l + t + 4))
        }
      })"

context codec
begin

lemma enc_list_step:
  assumes "good e" and "0 \<le> b" and "0 \<le> l" and "b + n \<le> int (length mem)" and "n < 2 ^ 31" and "l + int (length (counted (img e))) \<le> n"
  shows "enc_list enc h (e # es) mem b n l
    = enc_list enc h es (put_bytes mem (nat (b + l)) (counted (img e))) b n (l + int (length (counted (img e))))"
proof -
  have "0 < int (length (img e))" using nonempty [OF assms(1)] by simp
  then have "0 < n - l - 4" using assms(6) by (simp only: length_counted of_nat_add of_nat_numeral)
  then have t: "c_int (n - l - 4) = n - l - 4" "\<not> n - l - 4 \<le> 0" using assms(3,5) by (auto intro!: c_int_small)
  have l': "c_int (l + int (length (img e)) + 4) = l + int (length (counted (img e)))" using assms by (simp add: c_int_small)
  let ?m1 = "put_bytes mem (nat (b + 4 + l)) (img e)" and ?len = "be32 (word_of_int (int (length (img e))))"
  have e: "enc e mem (Some (b + 4 + l)) (n - l - 4) = Some (?m1, 0, int (length (img e)))" using assms by (intro enc_law) auto
  have "nat (b + 4 + l) = nat (b + l) + length ?len" using assms by simp
  then have "put_bytes ?m1 (nat (b + l)) ?len = put_bytes mem (nat (b + l)) (counted (img e))"
    by (simp add: counted_def put_bytes_append put_bytes_commute)
  then have s: "store_int h ?m1 (b + l) (int (length (img e))) = Some (put_bytes mem (nat (b + l)) (counted (img e)))"
    using assms by (simp add: store_int_def htonl_bytes bwrite_put)
  show ?thesis using t l' e s by simp
qed

lemma enc_list_ok:
  assumes "\<forall>e \<in> set es. good e" and "0 \<le> b" and "0 \<le> l" and "b + n \<le> int (length mem)" and "n < 2 ^ 31"
    and "l + int (length (concat (map (counted \<circ> img) es))) \<le> n"
  shows "enc_list enc h es mem b n l = Some (put_bytes mem (nat (b + l)) (concat (map (counted \<circ> img) es)), 0,
    l + int (length (concat (map (counted \<circ> img) es))))"
  using assms
proof (induction es arbitrary: mem l)
  case (Cons e es)
  let ?m = "put_bytes mem (nat (b + l)) (counted (img e))" and ?l = "l + int (length (counted (img e)))"
  have "enc_list enc h (e # es) mem b n l = enc_list enc h es ?m b n ?l" using Cons.prems by (intro enc_list_step) auto
  moreover have "nat (b + ?l) = nat (b + l) + length (counted (img e))" using Cons.prems(2,3) by (simp add: nat_add_distrib add.assoc)
  ultimately show ?case using Cons.IH [of ?l ?m] Cons.prems by (simp add: put_bytes_append add_ac del: length_counted)
qed simp

lemma enc_list_fail:
  assumes "\<forall>e \<in> set es. good e" and "0 \<le> b" and "0 \<le> l" and "l \<le> n" and "b + n \<le> int (length mem)"
    and "n < l + int (length (concat (map (counted \<circ> img) es)))" and "l + int (length (concat (map (counted \<circ> img) es))) < 2 ^ 31"
  shows "\<exists>mem'. enc_list enc h es mem b n l = Some (mem', Err_BinMsg_NoEnough, 0) \<and> keeps mem mem' b n"
  using assms
proof (induction es arbitrary: mem l)
  case (Cons e es)
  have n: "n < 2 ^ 31" using Cons.prems by linarith
  then have t: "c_int (n - l - 4) = n - l - 4" using Cons.prems by (intro c_int_small) auto
  consider "n - l - 4 \<le> 0" | "0 < n - l - 4" "n - l - 4 < int (length (img e))" | "l + int (length (counted (img e))) \<le> n"
    by (simp, linarith)
  then show ?case
  proof cases
    case 1
    then show ?thesis using t by simp
  next
    case 2
    have "\<exists>m'. enc e mem (Some (b + 4 + l)) (n - l - 4) = Some (m', Err_BinMsg_NoEnough, 0) \<and> keeps mem m' (b + 4 + l) (n - l - 4)"
      using Cons.prems 2 by (intro enc_fail) auto
    then obtain m' where "enc e mem (Some (b + 4 + l)) (n - l - 4) = Some (m', Err_BinMsg_NoEnough, 0)" "keeps mem m' (b + 4 + l) (n - l - 4)"
      by blast
    then show ?thesis using t 2 Cons.prems(3) keeps_mono [of mem m' "b + 4 + l" "n - l - 4" b n] by simp
  next
    case 3
    let ?m = "put_bytes mem (nat (b + l)) (counted (img e))" and ?l = "l + int (length (counted (img e)))"
    have step: "enc_list enc h (e # es) mem b n l = enc_list enc h es ?m b n ?l" using Cons.prems n 3 by (intro enc_list_step) auto
    have k: "keeps mem ?m b n" using Cons.prems 3 by (intro keeps_put) auto
    show ?thesis unfolding step using Cons.IH [of ?l ?m] Cons.prems 3 keeps_trans [OF k] by (auto simp: add_ac)
  qed
qed simp

end

section \<open>Fields\<close>

lemma length_enc_field: "length (enc_field f) = 8 + length (m_strName f) + length (m_strValue f)"
  by (simp add: enc_field_def)

lemma PutString_buf_spec:
  assumes "cb_ok mem c b" and "m_iOffset c + 4 + int (length s) \<le> m_iBufferLen c"
  shows "PutString_buf h mem c (Some (s @ [0])) (int (length s))
    = Some (put_bytes mem (nat (b + m_iOffset c)) (counted s), c\<lparr>m_iOffset := m_iOffset c + 4 + int (length s)\<rparr>, int (length s), 0)"
  using put_counted_spec [OF assms, of h "[0]"] assms by (simp add: PutString_buf_def cb_ok_def)

lemma PutString_buf_full:
  assumes "cb_ok mem c b" and "m_iBufferLen c < m_iOffset c + 4 + int (length s)" and "m_iOffset c + 4 + int (length s) < 2 ^ 31"
  shows "\<exists>n. PutString_buf h mem c (Some (s @ [0])) (int (length s)) = Some (mem, c, n, Err_Buffer_NoEnough)"
  using assms by (simp add: PutString_buf_def cb_ok_def)

lemma attached:
  assumes "0 \<le> b" and "b + n \<le> int (length mem)" and "0 < n" and "n < 2 ^ 31"
  shows "\<exists>c. AttachBuffer CBufferManage (Some b) n = (c, 0) \<and> cb_ok mem c b \<and> m_iOffset c = 0 \<and> m_iBufferLen c = n"
  using assms by (simp add: AttachBuffer_def CBufferManage_def cb_ok_def)

lemma Field_Encode_ok:
  assumes "0 \<le> b" and "b + n \<le> int (length mem)" and "n < 2 ^ 31" and "int (length (enc_field f)) \<le> n"
  shows "Field_Encode h f mem (Some b) n = Some (put_bytes mem (nat b) (enc_field f), 0, int (length (enc_field f)))"
proof -
  let ?N = "m_strName f" and ?V = "m_strValue f"
  have len: "int (length ?N) + int (length ?V) + 8 \<le> n" using assms(4) by (simp add: length_enc_field)
  obtain c where c: "AttachBuffer CBufferManage (Some b) n = (c, 0)" "cb_ok mem c b" "m_iOffset c = 0" "m_iBufferLen c = n"
    using attached [OF assms(1,2) _ assms(3)] len by force
  let ?m = "put_bytes mem (nat b) (counted ?N)" and ?c = "c\<lparr>m_iOffset := 4 + int (length ?N)\<rparr>"
  have ok: "cb_ok ?m ?c b" using c len by (simp add: cb_ok_def)
  have p1: "PutString_buf h mem c (Some (?N @ [0])) (int (length ?N)) = Some (?m, ?c, int (length ?N), 0)"
    using PutString_buf_spec [OF c(2), of ?N h] c(3,4) len by simp
  have p2: "\<exists>c'. PutString_buf h ?m ?c (Some (?V @ [0])) (int (length ?V)) = Some (put_bytes ?m (nat (b + (4 + int (length ?N)))) (counted ?V), c', int (length ?V), 0)"
    using PutString_buf_spec [OF ok, of ?V h] c(4) len by simp
  have ci: "c_int (int (length ?N)) = int (length ?N)" "c_int (int (length ?V)) = int (length ?V)"
    "c_int (int (length ?V) + 4 + int (length ?N) + 4) = int (length (enc_field f))"
    using len assms(3) by (auto simp: length_enc_field intro!: trans [OF c_int_small])
  have "nat (b + (4 + int (length ?N))) = nat b + length (counted ?N)" using assms(1) by (simp add: nat_add_distrib)
  then have "put_bytes ?m (nat (b + (4 + int (length ?N)))) (counted ?V) = put_bytes mem (nat b) (enc_field f)"
    by (simp add: enc_field_def put_bytes_append)
  then show ?thesis using c(1) p1 p2 ci len by (auto simp: Field_Encode_def)
qed

lemma Field_Encode_fail:
  assumes "0 \<le> b" and "b + n \<le> int (length mem)" and "0 < n" and "n < int (length (enc_field f))" and "int (length (enc_field f)) < 2 ^ 31"
  shows "\<exists>mem'. Field_Encode h f mem (Some b) n = Some (mem', Err_BinMsg_NoEnough, 0) \<and> keeps mem mem' b n"
proof -
  let ?N = "m_strName f" and ?V = "m_strValue f"
  have len: "n < int (length ?N) + int (length ?V) + 8" "int (length ?N) + int (length ?V) + 8 < 2 ^ 31"
    using assms(4,5) by (simp_all add: length_enc_field)
  obtain c where c: "AttachBuffer CBufferManage (Some b) n = (c, 0)" "cb_ok mem c b" "m_iOffset c = 0" "m_iBufferLen c = n"
    using attached [OF assms(1-3)] len by force
  have ci: "c_int (int (length ?N)) = int (length ?N)" "c_int (int (length ?V)) = int (length ?V)"
    using len by (auto intro!: c_int_small)
  show ?thesis
  proof (cases "4 + int (length ?N) \<le> n")
    case True
    let ?m = "put_bytes mem (nat b) (counted ?N)" and ?c = "c\<lparr>m_iOffset := 4 + int (length ?N)\<rparr>"
    have ok: "cb_ok ?m ?c b" using c True by (simp add: cb_ok_def)
    have p1: "PutString_buf h mem c (Some (?N @ [0])) (int (length ?N)) = Some (?m, ?c, int (length ?N), 0)"
      using PutString_buf_spec [OF c(2), of ?N h] c(3,4) True by simp
    have p2: "\<exists>k. PutString_buf h ?m ?c (Some (?V @ [0])) (int (length ?V)) = Some (?m, ?c, k, Err_Buffer_NoEnough)"
      using PutString_buf_full [OF ok, of ?V h] c(4) len by simp
    have "keeps mem ?m b n" using True assms(1) by (intro keeps_put) auto
    then show ?thesis using c(1) p1 p2 ci assms(3) by (auto simp: Field_Encode_def)
  next
    case False
    have "\<exists>k. PutString_buf h mem c (Some (?N @ [0])) (int (length ?N)) = Some (mem, c, k, Err_Buffer_NoEnough)"
      using PutString_buf_full [OF c(2), of ?N h] c(3,4) False len by simp
    then show ?thesis using c(1) ci assms(3) by (auto simp: Field_Encode_def)
  qed
qed

lemma Field_Decode_ok:
  assumes "0 \<le> b" and "bytes_at mem (nat b) (enc_field f)" and "int (length (enc_field f)) < 2 ^ 31"
  shows "Field_Decode h CBinMsgField mem (Some b) (int (length (enc_field f))) = Some (f, 0)"
proof -
  let ?N = "m_strName f" and ?V = "m_strValue f" and ?n = "int (length (enc_field f))"
  have at: "bytes_at mem (nat b) (counted ?N)" "bytes_at mem (nat (b + 4 + int (length ?N))) (counted ?V)"
    using assms(1,2) by (simp_all add: enc_field_def bytes_at_append nat_add_distrib add.assoc)
  have "nat b + length (enc_field f) \<le> length mem" using assms(2) by (simp add: bytes_at_def)
  then have "b + ?n \<le> int (length mem)" using assms(1) by linarith
  then obtain c where c: "AttachBuffer CBufferManage (Some b) ?n = (c, 0)" "cb_ok mem c b" "m_iOffset c = 0" "m_iBufferLen c = ?n"
    using attached [OF assms(1) _ _ assms(3)] by (force simp: length_enc_field)
  let ?c = "c\<lparr>m_iOffset := 4 + int (length ?N)\<rparr>"
  have ok: "cb_ok mem ?c b" using c by (simp add: cb_ok_def length_enc_field)
  have g1: "GetString_ptr h mem c True None 0 = Some (?c, Some (b + 4), int (length ?N), 0)"
    using GetString_ptr_at [OF c(2), of ?N h None 0] at(1) c(3,4) by (simp add: length_enc_field)
  have g2: "\<exists>c'. GetString_ptr h mem ?c True (Some (b + 4)) (int (length ?N)) = Some (c', Some (b + 4 + int (length ?N) + 4), int (length ?V), 0)"
    using GetString_ptr_at [OF ok, of ?V h] at(2) c(4) by (simp add: length_enc_field add_ac)
  have "bytes_at mem (nat (b + 4)) ?N" "bytes_at mem (nat (b + 4 + int (length ?N) + 4)) ?V"
    using at assms(1) by (simp_all add: counted_def bytes_at_append nat_add_distrib add_ac)
  then have r: "bread mem (b + 4) (int (length ?N)) = Some ?N" "bread mem (b + 4 + int (length ?N) + 4) (int (length ?V)) = Some ?V"
    using bread_at assms(1) by force+
  show ?thesis using c(1) g1 g2 r by (auto simp: Field_Decode_def CBinMsgField_def length_enc_field)
qed

interpretation fc: codec "Field_Encode h" "Field_Decode h CBinMsgField" enc_field "\<lambda>_. True" for h
proof
  show "enc_field e \<noteq> []" for e using length_enc_field [of e] by auto
qed (use Field_Encode_ok Field_Encode_fail Field_Decode_ok in auto)

section \<open>Decoding a sequence of counted elements\<close>

text \<open>The loop of \<open>Decode\<close>: counted elements are taken off the buffer and added to the object until none is left.\<close>

locale decode_loop =
  fixes h :: bool and dec :: "byte list \<Rightarrow> int option \<Rightarrow> int \<Rightarrow> ('e \<times> int) option" and add :: "'x \<Rightarrow> 'e \<Rightarrow> 'x option" and err :: int
    and loop :: "byte list \<Rightarrow> cbuf \<Rightarrow> int option \<Rightarrow> int \<Rightarrow> 'x \<Rightarrow> bool \<Rightarrow> ('x \<times> int) option"
  assumes loop_eq: "loop mem c p n x flag = do {
      (c, p, n, iRet) \<leftarrow> GetString_ptr h mem c True p n;
      if iRet = 0 then do {
        (e, iRet) \<leftarrow> dec mem p n;
        if iRet \<noteq> 0 then Some (x, err) else do { x \<leftarrow> add x e; loop mem c p n x True }
      } else Some (x, if flag then 0 else err) }"

locale list_codec = codec enc dec img good + decode_loop h dec add err loop
  for enc :: "'e \<Rightarrow> byte list \<Rightarrow> int option \<Rightarrow> int \<Rightarrow> (byte list \<times> int \<times> int) option"
    and dec :: "byte list \<Rightarrow> int option \<Rightarrow> int \<Rightarrow> ('e \<times> int) option" and img :: "'e \<Rightarrow> byte list" and good :: "'e \<Rightarrow> bool"
    and h :: bool and add :: "'x \<Rightarrow> 'e \<Rightarrow> 'x option" and err :: int
    and loop :: "byte list \<Rightarrow> cbuf \<Rightarrow> int option \<Rightarrow> int \<Rightarrow> 'x \<Rightarrow> bool \<Rightarrow> ('x \<times> int) option"

lemma GetString_ptr_end:
  assumes "m_iOffset c = m_iBufferLen c" and "0 \<le> m_iBufferLen c" and "m_iBufferLen c < 2 ^ 31 - 4"
  shows "GetString_ptr h mem c True p n = Some (c, p, n, Err_Buffer_Overflow)"
  using assms by (simp add: GetString_ptr_def)

context list_codec
begin

lemma loop_decodes:
  assumes "cb_ok mem c b" and "\<forall>e \<in> set es. good e" and "bytes_at mem (nat (b + m_iOffset c)) (concat (map (counted \<circ> img) es))"
    and "m_iOffset c + int (length (concat (map (counted \<circ> img) es))) = m_iBufferLen c" and "m_iBufferLen c < 2 ^ 31 - 4"
    and "adds add x es = Some x'"
  shows "loop mem c p n x flag = Some (x', if flag \<or> es \<noteq> [] then 0 else err)"
  using assms
proof (induction es arbitrary: c p n x flag)
  case Nil
  then show ?case using GetString_ptr_end [of c h mem p n] by (subst loop_eq) (simp add: cb_ok_def)
next
  case (Cons e es)
  let ?o = "m_iOffset c + 4 + int (length (img e))" and ?p = "b + m_iOffset c + 4"
  let ?c = "c\<lparr>m_iOffset := ?o\<rparr>"
  have at: "bytes_at mem (nat (b + m_iOffset c)) (counted (img e))"
    "bytes_at mem (nat (b + m_iOffset c) + length (counted (img e))) (concat (map (counted \<circ> img) es))"
    using Cons.prems(3) by (simp_all add: bytes_at_append comp_def)
  have nn: "0 \<le> b" "0 \<le> m_iOffset c" using Cons.prems(1) by (auto simp: cb_ok_def)
  have fits: "?o \<le> m_iBufferLen c" using Cons.prems(4) by simp
  have g: "GetString_ptr h mem c True p n = Some (?c, Some ?p, int (length (img e)), 0)"
    using GetString_ptr_at [OF Cons.prems(1) at(1) fits] .
  have "bytes_at mem (nat ?p) (img e)" using at(1) nn by (simp add: counted_def bytes_at_append nat_add_distrib)
  then have d: "dec mem (Some ?p) (int (length (img e))) = Some (e, 0)" using Cons.prems fits nn by (intro dec_law) auto
  obtain x1 where x1: "add x e = Some x1" "adds add x1 es = Some x'" using Cons.prems(6) by (auto split: bind_splits)
  have ok: "cb_ok mem ?c b" using Cons.prems(1) fits by (simp add: cb_ok_def)
  have "nat (b + m_iOffset ?c) = nat (b + m_iOffset c) + length (counted (img e))" using nn by simp
  then have "loop mem ?c (Some ?p) (int (length (img e))) x1 True = Some (x', 0)"
    using Cons.IH [OF ok _ _ _ _ x1(2)] Cons.prems at(2) by (simp add: add_ac comp_def)
  then show ?case using g d x1(1) by (subst loop_eq) simp
qed

end

section \<open>Rows\<close>

definition good_row :: "msg_row \<Rightarrow> bool" where
  "good_row r \<longleftrightarrow> m_vecField r \<noteq> [] \<and> m_iFieldNum r = int (length (m_vecField r)) \<and> m_iReadField r = 0"

lemma aget_drop: "0 \<le> i \<Longrightarrow> drop (nat i) xs = y # ys \<Longrightarrow> aget xs i = Some y \<and> i < int (length xs) \<and> drop (nat (i + 1)) xs = ys"
proof -
  assume "0 \<le> i" "drop (nat i) xs = y # ys"
  moreover from this have "nat i < length xs" by (metis drop_all list.discI not_le)
  ultimately show ?thesis by (auto simp: aget_def nat_add_distrib Cons_nth_drop_Suc [symmetric])
qed

lemma Row_Encode_loop_list:
  "m_iFieldNum r = int (length (m_vecField r)) \<Longrightarrow> 0 \<le> i \<Longrightarrow> drop (nat i) (m_vecField r) = fs \<Longrightarrow>
   Row_Encode_loop h r mem b n i l = enc_list (Field_Encode h) h fs mem b n l"
proof (induction fs arbitrary: i mem l)
  case Nil
  then have "\<not> i < GetFieldNum r" by (simp add: GetFieldNum_def)
  then show ?case by (subst Row_Encode_loop.simps) simp
next
  case (Cons f fs)
  have a: "aget (m_vecField r) i = Some f" "i < int (length (m_vecField r))" "drop (nat (i + 1)) (m_vecField r) = fs"
    using aget_drop [OF Cons.prems(2,3)] by auto
  have "Row_Encode_loop h r m b n (i + 1) k = enc_list (Field_Encode h) h fs m b n k" for m k
    using Cons.IH [of "i + 1"] Cons.prems a(3) by simp
  then show ?case using a(1,2) Cons.prems(1) by (subst Row_Encode_loop.simps) (simp add: GetFieldNum_def cong: if_cong)
qed

lemma Row_Encode_list:
  "good_row r \<Longrightarrow> 0 \<le> n \<Longrightarrow> Row_Encode h r mem (Some b) n = enc_list (Field_Encode h) h (m_vecField r) mem b n 0"
  using Row_Encode_loop_list [of r 0] by (simp add: Row_Encode_def good_row_def)

interpretation fl: list_codec "Field_Encode h" "Field_Decode h CBinMsgField" enc_field "\<lambda>_. True" h AddField "Err_BinMsg_FieldDecode"
  "Row_Decode_loop h" for h
  by unfold_locales (subst Row_Decode_loop.simps, simp)

lemma adds_AddField:
  assumes "m_iFieldNum r = int (length (m_vecField r))" and "int (length (m_vecField r) + length fs) < 2 ^ 31"
  shows "adds AddField r fs = Some (r\<lparr>m_vecField := m_vecField r @ fs, m_iFieldNum := int (length (m_vecField r @ fs))\<rparr>)"
  using assms by (induction fs arbitrary: r) (simp_all add: AddField_def)

lemma length_concat_counted: "4 * length es \<le> length (concat (map (counted \<circ> img) es))"
  by (induction es) auto

lemma enc_row_nonempty: "good_row r \<Longrightarrow> enc_row r \<noteq> []"
proof -
  assume "good_row r"
  then have "0 < 4 * length (m_vecField r)" by (simp add: good_row_def)
  also have "\<dots> \<le> length (enc_row r)" unfolding enc_row_def by (rule length_concat_counted)
  finally show ?thesis by simp
qed

lemma Row_Decode_ok:
  assumes "good_row r" and "0 \<le> b" and "bytes_at mem (nat b) (enc_row r)" and "int (length (enc_row r)) < 2 ^ 31 - 4"
  shows "Row_Decode h CBinMsgRow mem (Some b) (int (length (enc_row r))) = Some (r, 0)"
proof -
  let ?n = "int (length (enc_row r))"
  have ne: "0 < ?n" using enc_row_nonempty [OF assms(1)] by simp
  have "nat b + length (enc_row r) \<le> length mem" using assms(3) by (simp add: bytes_at_def)
  then have "b + ?n \<le> int (length mem)" using assms(2) by linarith
  then obtain c where c: "AttachBuffer CBufferManage (Some b) ?n = (c, 0)" "cb_ok mem c b" "m_iOffset c = 0" "m_iBufferLen c = ?n"
    using attached [OF assms(2) _ ne] assms(4) by force
  have "4 * length (m_vecField r) \<le> length (enc_row r)" unfolding enc_row_def by (rule length_concat_counted)
  then have "adds AddField CBinMsgRow (m_vecField r) = Some r"
    using adds_AddField [of CBinMsgRow "m_vecField r"] assms(1,4) by (cases r) (simp add: CBinMsgRow_def good_row_def)
  then have "Row_Decode_loop h mem c None 0 CBinMsgRow False = Some (r, 0)"
    using fl.loop_decodes [OF c(2), of "m_vecField r" CBinMsgRow r h None 0 False] c(3,4) assms by (simp add: enc_row_def good_row_def)
  then show ?thesis using c(1) ne by (simp add: Row_Decode_def)
qed

interpretation rc: codec "Row_Encode h" "Row_Decode h CBinMsgRow" enc_row good_row for h
proof
  fix r :: msg_row and mem :: "byte list" and b n :: int
  assume g: "good_row r"
  show "enc_row r \<noteq> []" using g by (rule enc_row_nonempty)
  show "0 \<le> b \<Longrightarrow> b + n \<le> int (length mem) \<Longrightarrow> n < 2 ^ 31 \<Longrightarrow> int (length (enc_row r)) \<le> n \<Longrightarrow>
    Row_Encode h r mem (Some b) n = Some (put_bytes mem (nat b) (enc_row r), 0, int (length (enc_row r)))"
    using fc.enc_list_ok [of "m_vecField r" b 0 n mem h] g by (simp add: Row_Encode_list enc_row_def)
  show "0 \<le> b \<Longrightarrow> b + n \<le> int (length mem) \<Longrightarrow> 0 < n \<Longrightarrow> n < int (length (enc_row r)) \<Longrightarrow> int (length (enc_row r)) < 2 ^ 31 \<Longrightarrow>
    \<exists>mem'. Row_Encode h r mem (Some b) n = Some (mem', Err_BinMsg_NoEnough, 0) \<and> keeps mem mem' b n"
    using fc.enc_list_fail [of "m_vecField r" b 0 n mem h] g by (simp add: Row_Encode_list enc_row_def)
  show "0 \<le> b \<Longrightarrow> bytes_at mem (nat b) (enc_row r) \<Longrightarrow> int (length (enc_row r)) < 2 ^ 31 - 4 \<Longrightarrow>
    Row_Decode h CBinMsgRow mem (Some b) (int (length (enc_row r))) = Some (r, 0)"
    using Row_Decode_ok g by blast
qed

section \<open>Records\<close>

definition good_record :: "msg_record \<Rightarrow> bool" where
  "good_record m \<longleftrightarrow> m_vecRow m \<noteq> [] \<and> m_iRowNum m = int (length (m_vecRow m)) \<and> m_iReadRow m = 0 \<and> (\<forall>r \<in> set (m_vecRow m). good_row r)"

lemma Record_Encode_loop_list:
  "m_iRowNum m = int (length (m_vecRow m)) \<Longrightarrow> 0 \<le> i \<Longrightarrow> drop (nat i) (m_vecRow m) = rs \<Longrightarrow>
   Record_Encode_loop h m mem b n i l = enc_list (Row_Encode h) h rs mem b n l"
proof (induction rs arbitrary: i mem l)
  case Nil
  then have "\<not> i < GetRowNum m" by (simp add: GetRowNum_def)
  then show ?case by (subst Record_Encode_loop.simps) simp
next
  case (Cons r rs)
  have a: "aget (m_vecRow m) i = Some r" "i < int (length (m_vecRow m))" "drop (nat (i + 1)) (m_vecRow m) = rs"
    using aget_drop [OF Cons.prems(2,3)] by auto
  have "Record_Encode_loop h m mem b n (i + 1) k = enc_list (Row_Encode h) h rs mem b n k" for mem k
    using Cons.IH [of "i + 1"] Cons.prems a(3) by simp
  then show ?case using a(1,2) Cons.prems(1) by (subst Record_Encode_loop.simps) (simp add: GetRowNum_def cong: if_cong)
qed

interpretation rl: list_codec "Row_Encode h" "Row_Decode h CBinMsgRow" enc_row good_row h AddRow "Err_BinMsg_RowDecode" "Record_Decode_loop h" for h
  by unfold_locales (subst Record_Decode_loop.simps, simp)

lemma adds_AddRow:
  assumes "m_iRowNum m = int (length (m_vecRow m))" and "int (length (m_vecRow m) + length rs) < 2 ^ 31"
  shows "adds AddRow m rs = Some (m\<lparr>m_vecRow := m_vecRow m @ rs, m_iRowNum := int (length (m_vecRow m @ rs))\<rparr>)"
  using assms by (induction rs arbitrary: m) (simp_all add: AddRow_def)

abbreviation rows_image :: "msg_record \<Rightarrow> byte list" where
  "rows_image m \<equiv> concat (map (counted \<circ> enc_row) (m_vecRow m))"

lemma length_enc_record: "length (enc_record m) = 4 + length (rows_image m)"
  by (simp add: enc_record_def Let_def)

lemma Record_Encode_ok:
  assumes "good_record m" and "0 \<le> b" and "b + n \<le> int (length mem)" and "n < 2 ^ 31" and "int (length (enc_record m)) \<le> n"
  shows "Record_Encode h m mem (Some b) n = Some (put_bytes mem (nat b) (enc_record m), 0, int (length (enc_record m)))"
proof -
  let ?n = "4 + int (length (rows_image m))"
  have n: "?n \<le> n" using assms(5) by (simp add: length_enc_record)
  have "enc_list (Row_Encode h) h (m_vecRow m) mem b n 4 = Some (put_bytes mem (nat (b + 4)) (rows_image m), 0, ?n)"
    using assms n by (intro rc.enc_list_ok) (auto simp: good_record_def)
  then have loop: "Record_Encode_loop h m mem b n 0 4 = Some (put_bytes mem (nat (b + 4)) (rows_image m), 0, ?n)"
    using Record_Encode_loop_list [of m 0] assms(1) by (simp add: good_record_def)
  have "nat (b + 4) = nat b + 4" using assms(2) by (simp add: nat_add_distrib)
  then have "put_bytes (put_bytes mem (nat (b + 4)) (rows_image m)) (nat b) (be32 (word_of_int ?n)) = put_bytes mem (nat b) (enc_record m)"
    using put_bytes_commute [of "nat b" "be32 (word_of_int ?n)" "nat b + 4" mem "rows_image m"]
    by (simp add: enc_record_def Let_def put_bytes_append)
  then have "store_int h (put_bytes mem (nat (b + 4)) (rows_image m)) b ?n = Some (put_bytes mem (nat b) (enc_record m))"
    using assms(2,3) n by (simp add: store_int_def htonl_bytes bwrite_put)
  then show ?thesis using loop assms(4) n by (simp add: Record_Encode_def length_enc_record)
qed

lemma Record_Encode_fail:
  assumes "good_record m" and "0 \<le> b" and "0 \<le> n" and "b + n \<le> int (length mem)" and "n < int (length (enc_record m))"
    and "int (length (enc_record m)) < 2 ^ 31"
  shows "\<exists>mem'. Record_Encode h m mem (Some b) n = Some (mem', Err_BinMsg_NoEnough, 0) \<and> keeps mem mem' b n"
proof -
  have "\<exists>mem'. enc_list (Row_Encode h) h (m_vecRow m) mem b n 4 = Some (mem', Err_BinMsg_NoEnough, 0) \<and> keeps mem mem' b n"
  proof (cases "4 \<le> n")
    case True
    then show ?thesis using assms by (intro rc.enc_list_fail) (auto simp: good_record_def length_enc_record)
  next
    case False
    then have "c_int (n - 4 - 4) = n - 4 - 4" using assms(3) by (intro c_int_small) auto
    then show ?thesis using False assms(1) by (cases "m_vecRow m") (simp_all add: good_record_def)
  qed
  then show ?thesis using Record_Encode_loop_list [of m 0] assms(1,3) by (auto simp: Record_Encode_def good_record_def)
qed

lemma Record_Decode_ok:
  assumes "good_record m" and "0 \<le> b" and "bytes_at mem (nat b) (enc_record m)" and "int (length (enc_record m)) < 2 ^ 31"
  shows "Record_Decode h CBinMsgRecord mem (Some b) (int (length (enc_record m))) = Some (m, 0)"
proof -
  let ?n = "int (length (rows_image m))"
  have four: "4 * length (m_vecRow m) \<le> length (rows_image m)" by (rule length_concat_counted)
  have ne: "0 < ?n" using four assms(1) by (cases "m_vecRow m") (auto simp: good_record_def)
  have at: "bytes_at mem (nat (b + 4)) (rows_image m)"
    using assms(2,3) by (simp add: enc_record_def Let_def bytes_at_append nat_add_distrib)
  have "nat (b + 4) + length (rows_image m) \<le> length mem" using at by (simp add: bytes_at_def)
  then have "b + 4 + ?n \<le> int (length mem)" using assms(2) by linarith
  then obtain c where c: "AttachBuffer CBufferManage (Some (b + 4)) ?n = (c, 0)" "cb_ok mem c (b + 4)" "m_iOffset c = 0" "m_iBufferLen c = ?n"
    using attached [of "b + 4" ?n mem] ne assms(2,4) by (force simp: length_enc_record)
  have "adds AddRow CBinMsgRecord (m_vecRow m) = Some m"
    using adds_AddRow [of CBinMsgRecord "m_vecRow m"] assms(1,4) four by (cases m) (simp add: CBinMsgRecord_def good_record_def length_enc_record)
  then have "Record_Decode_loop h mem c None 0 CBinMsgRecord False = Some (m, 0)"
    using rl.loop_decodes [OF c(2), of "m_vecRow m" CBinMsgRecord m h None 0 False] c(3,4) assms(1,4) at
    by (simp add: length_enc_record good_record_def)
  moreover have "c_int ?n = ?n" using assms(4) by (intro c_int_small) (auto simp: length_enc_record)
  ultimately show ?thesis using c(1) by (simp add: Record_Decode_def length_enc_record)
qed

section \<open>Sizes\<close>

lemma Row_GetSize_loop_list:
  assumes "m_iFieldNum r = int (length (m_vecField r))"
  shows "0 \<le> i \<Longrightarrow> drop (nat i) (m_vecField r) = fs \<Longrightarrow> 0 \<le> n \<Longrightarrow> n + int (length (concat (map (counted \<circ> enc_field) fs))) < 2 ^ 31 \<Longrightarrow>
    Row_GetSize_loop r i n = Some (n + int (length (concat (map (counted \<circ> enc_field) fs))))"
proof (induction fs arbitrary: i n)
  case Nil
  then have "\<not> i < GetFieldNum r" using assms by (simp add: GetFieldNum_def)
  then show ?case by (subst Row_GetSize_loop.simps) simp
next
  case (Cons f fs)
  have a: "aget (m_vecField r) i = Some f" "i < int (length (m_vecField r))" "drop (nat (i + 1)) (m_vecField r) = fs"
    using aget_drop [OF Cons.prems(1,2)] by auto
  have s: "Field_GetSize f = int (length (enc_field f))" using Cons.prems(3,4) by (simp add: Field_GetSize_def length_enc_field c_int_small)
  have "c_int (n + Field_GetSize f + 4) = n + int (length (counted (enc_field f)))" using Cons.prems(3,4) s by (simp add: c_int_small)
  then show ?case using Cons.IH [of "i + 1" "n + int (length (counted (enc_field f)))"] Cons.prems a assms
    by (subst Row_GetSize_loop.simps) (simp add: GetFieldNum_def add_ac comp_def)
qed

lemma Row_GetSize_ok: "good_row r \<Longrightarrow> int (length (enc_row r)) < 2 ^ 31 \<Longrightarrow> Row_GetSize r = Some (int (length (enc_row r)))"
  using Row_GetSize_loop_list [of r 0 "m_vecField r" 0] by (simp add: Row_GetSize_def good_row_def enc_row_def)

lemma Record_GetSize_loop_list:
  assumes "good_record m"
  shows "0 \<le> i \<Longrightarrow> drop (nat i) (m_vecRow m) = rs \<Longrightarrow> 0 \<le> n \<Longrightarrow> n + int (length (concat (map (counted \<circ> enc_row) rs))) < 2 ^ 31 \<Longrightarrow>
    Record_GetSize_loop m i n = Some (n + int (length (concat (map (counted \<circ> enc_row) rs))))"
proof (induction rs arbitrary: i n)
  case Nil
  then have "\<not> i < GetRowNum m" using assms by (simp add: GetRowNum_def good_record_def)
  then show ?case by (subst Record_GetSize_loop.simps) simp
next
  case (Cons r rs)
  have a: "aget (m_vecRow m) i = Some r" "i < int (length (m_vecRow m))" "drop (nat (i + 1)) (m_vecRow m) = rs"
    using aget_drop [OF Cons.prems(1,2)] by auto
  have "r \<in> set (m_vecRow m)" using Cons.prems(2) in_set_dropD [of r "nat i"] by simp
  then have s: "Row_GetSize r = Some (int (length (enc_row r)))"
    using assms Cons.prems(3,4) by (intro Row_GetSize_ok) (auto simp: good_record_def)
  have "c_int (n + int (length (enc_row r)) + 4) = n + int (length (counted (enc_row r)))" using Cons.prems(3,4) by (simp add: c_int_small)
  then show ?case using Cons.IH [of "i + 1" "n + int (length (counted (enc_row r)))"] Cons.prems a s assms
    by (subst Record_GetSize_loop.simps) (simp add: GetRowNum_def good_record_def add_ac comp_def)
qed

lemma Record_GetSize_ok: "good_record m \<Longrightarrow> int (length (enc_record m)) < 2 ^ 31 \<Longrightarrow> Record_GetSize m = Some (int (length (enc_record m)))"
  using Record_GetSize_loop_list [of m 0 "m_vecRow m" 4] by (simp add: Record_GetSize_def length_enc_record)

section \<open>Decoding untrusted bytes\<close>

text \<open>No four bytes of the buffer read as a length that overflows an \<open>int\<close> when the offset and four are added.\<close>

definition small_lengths :: "bool \<Rightarrow> byte list \<Rightarrow> int \<Rightarrow> int \<Rightarrow> bool" where
  "small_lengths h mem b n \<longleftrightarrow> n < 2 ^ 31 - 4
     \<and> (\<forall>q bs. b \<le> q \<and> q + 4 \<le> b + n \<and> bread mem q 4 = Some bs \<longrightarrow> sint (ntohl h (of_host_bytes h bs)) + n + 4 < 2 ^ 31)"

lemma small_lengthsD:
  "small_lengths h mem b n \<Longrightarrow> b \<le> q \<Longrightarrow> q + 4 \<le> b + n \<Longrightarrow> bread mem q 4 = Some bs \<Longrightarrow> sint (ntohl h (of_host_bytes h bs)) + n + 4 < 2 ^ 31"
  unfolding small_lengths_def by blast

lemma small_lengths_sub: "small_lengths h mem b n \<Longrightarrow> b \<le> b' \<Longrightarrow> b' + n' \<le> b + n \<Longrightarrow> n' \<le> n \<Longrightarrow> small_lengths h mem b' n'"
  unfolding small_lengths_def by (smt (verit))

lemma GetString_ptr_safe:
  assumes ok: "cb_ok mem c b" and small: "small_lengths h mem b (m_iBufferLen c)"
  shows "(\<exists>p n. GetString_ptr h mem c True p0 n0 = Some (c, p, n, Err_Buffer_Overflow))
    \<or> (\<exists>n. GetString_ptr h mem c True p0 n0 = Some (c\<lparr>m_iOffset := m_iOffset c + 4 + n\<rparr>, Some (b + m_iOffset c + 4), n, 0)
        \<and> 0 \<le> n \<and> m_iOffset c + 4 + n \<le> m_iBufferLen c)"
proof (cases "m_iOffset c + 4 \<le> m_iBufferLen c")
  case True
  have "m_iOffset c + 4 + n < 2 ^ 31" if ri: "read_int h mem c = Some n" for n
  proof -
    obtain bs where "bread mem (b + m_iOffset c) 4 = Some bs" "n = sint (ntohl h (of_host_bytes h bs))"
      using ri cb_ok_cursor [OF ok] by (auto simp: read_int_def split: bind_splits)
    then have "n + m_iBufferLen c + 4 < 2 ^ 31" using small_lengthsD [OF small, of "b + m_iOffset c" bs] ok True by (simp add: cb_ok_def)
    then show ?thesis using ok by (simp add: cb_ok_def)
  qed
  then show ?thesis using small by (intro GetString_ptr_bounds [OF ok]) (auto simp: small_lengths_def)
qed (use ok small in \<open>auto simp: GetString_ptr_def cb_ok_def small_lengths_def\<close>)

lemma Field_Decode_safe:
  assumes "0 \<le> b" and "b + n \<le> int (length mem)" and "0 \<le> n" and small: "small_lengths h mem b n"
  shows "\<exists>f' r. Field_Decode h f mem (Some b) n = Some (f', r)"
proof (cases "n = 0")
  case False
  then have n: "0 < n" "n < 2 ^ 31" using assms by (auto simp: small_lengths_def)
  obtain c where c: "AttachBuffer CBufferManage (Some b) n = (c, 0)" "cb_ok mem c b" "m_iOffset c = 0" "m_iBufferLen c = n"
    using attached [OF assms(1,2) n] by blast
  have rd: "\<exists>s. bread mem (b + m_iOffset d + 4) k = Some s" if "cb_ok mem d b" "0 \<le> k" "m_iOffset d + 4 + k \<le> m_iBufferLen d" for d k
    using that by (auto simp: cb_ok_def bread_def)
  consider "\<exists>p k. GetString_ptr h mem c True None 0 = Some (c, p, k, Err_Buffer_Overflow)"
    | k where "GetString_ptr h mem c True None 0 = Some (c\<lparr>m_iOffset := 4 + k\<rparr>, Some (b + 4), k, 0)" "0 \<le> k" "4 + k \<le> n"
    using GetString_ptr_safe [OF c(2), of h None 0] small c(3,4) by auto
  then show ?thesis
  proof cases
    case 1
    then show ?thesis using c(1) n by (auto simp: Field_Decode_def)
  next
    case 2
    let ?c = "c\<lparr>m_iOffset := 4 + k\<rparr>"
    have ok: "cb_ok mem ?c b" using c 2 by (simp add: cb_ok_def)
    obtain s where s: "bread mem (b + 4) k = Some s" using rd [OF c(2) 2(2)] c(3,4) 2(3) by auto
    consider "\<exists>p j. GetString_ptr h mem ?c True (Some (b + 4)) k = Some (?c, p, j, Err_Buffer_Overflow)"
      | j where "GetString_ptr h mem ?c True (Some (b + 4)) k = Some (?c\<lparr>m_iOffset := 4 + k + 4 + j\<rparr>, Some (b + (4 + k) + 4), j, 0)"
        "0 \<le> j" "4 + k + 4 + j \<le> n"
      using GetString_ptr_safe [OF ok, of h "Some (b + 4)" k] small c(4) by auto
    then show ?thesis
    proof cases
      case a: 1
      then show ?thesis using c(1) n 2(1) s by (auto simp: Field_Decode_def)
    next
      case a: 2
      have "\<exists>t. bread mem (b + (4 + k) + 4) j = Some t" using rd [OF ok a(2)] a(3) c(4) by simp
      then show ?thesis using c(1) n 2(1) s a(1) by (auto simp: Field_Decode_def)
    qed
  qed
qed (simp add: Field_Decode_def)

text \<open>A decode loop over elements whose decoder returns on every range, into an object that counts what it holds.\<close>

locale safe_loop = decode_loop +
  fixes count :: "'b \<Rightarrow> int"
  assumes add_law: "0 \<le> count x \<Longrightarrow> count x < 2 ^ 31 - 1 \<Longrightarrow> \<exists>x'. add x e = Some x' \<and> count x' = count x + 1"
    and dec_safe: "0 \<le> b \<Longrightarrow> b + n \<le> int (length mem) \<Longrightarrow> 0 \<le> n \<Longrightarrow> small_lengths h mem b n \<Longrightarrow> \<exists>e r. dec mem (Some b) n = Some (e, r)"
begin

lemma loop_returns:
  assumes "cb_ok mem c b" and "small_lengths h mem b (m_iBufferLen c)" and "0 \<le> count x" and "count x + (m_iBufferLen c - m_iOffset c) < 2 ^ 31 - 1"
  shows "\<exists>x' r. loop mem c p n x flag = Some (x', r) \<and> r \<in> {0, err}"
  using assms
proof (induction "nat (m_iBufferLen c - m_iOffset c)" arbitrary: c p n x flag rule: less_induct)
  case less
  consider "\<exists>q k. GetString_ptr h mem c True p n = Some (c, q, k, Err_Buffer_Overflow)"
    | k where "GetString_ptr h mem c True p n = Some (c\<lparr>m_iOffset := m_iOffset c + 4 + k\<rparr>, Some (b + m_iOffset c + 4), k, 0)"
      "0 \<le> k" "m_iOffset c + 4 + k \<le> m_iBufferLen c"
    using GetString_ptr_safe [OF less.prems(1,2), of p n] by blast
  then show ?case
  proof cases
    case 1
    then show ?thesis by (subst loop_eq) auto
  next
    case 2
    let ?c = "c\<lparr>m_iOffset := m_iOffset c + 4 + k\<rparr>" and ?q = "b + m_iOffset c + 4"
    have cb: "0 \<le> b" "0 \<le> m_iOffset c" "b + m_iBufferLen c \<le> int (length mem)" using less.prems(1) by (auto simp: cb_ok_def)
    have "small_lengths h mem ?q k" using cb 2(2,3) by (intro small_lengths_sub [OF less.prems(2)]) auto
    then obtain e r where d: "dec mem (Some ?q) k = Some (e, r)" using dec_safe [of ?q k mem] cb 2(2,3) by force
    show ?thesis
    proof (cases "r = 0")
      case True
      obtain x' where x': "add x e = Some x'" "count x' = count x + 1" using add_law [of x e] less.prems(3,4) 2 cb by force
      have "\<exists>x'' r. loop mem ?c (Some ?q) k x' True = Some (x'', r) \<and> r \<in> {0, err}"
        using less.prems 2 x'(2) by (intro less.hyps) (auto simp: cb_ok_def)
      then show ?thesis using 2(1) d True x'(1) by (subst loop_eq) simp
    qed (use 2(1) d in \<open>subst loop_eq, simp\<close>)
  qed
qed

end

interpretation fs: safe_loop h "Field_Decode h CBinMsgField" AddField "Err_BinMsg_FieldDecode" "Row_Decode_loop h" m_iFieldNum for h
  by unfold_locales (auto simp: AddField_def intro: Field_Decode_safe)

lemma Row_Decode_safe:
  assumes "0 \<le> b" and "b + n \<le> int (length mem)" and "0 \<le> n" and "small_lengths h mem b n"
  shows "\<exists>r' e. Row_Decode h CBinMsgRow mem (Some b) n = Some (r', e)"
proof (cases "n = 0")
  case False
  then have n: "0 < n" "n < 2 ^ 31 - 4" using assms by (auto simp: small_lengths_def)
  obtain c where c: "AttachBuffer CBufferManage (Some b) n = (c, 0)" "cb_ok mem c b" "m_iOffset c = 0" "m_iBufferLen c = n"
    using attached [OF assms(1,2) n(1)] n(2) by force
  have "\<exists>r' e. Row_Decode_loop h mem c None 0 CBinMsgRow False = Some (r', e) \<and> e \<in> {0, Err_BinMsg_FieldDecode}"
    using c(3,4) n assms(4) by (intro fs.loop_returns [OF c(2)]) (auto simp: CBinMsgRow_def)
  then show ?thesis using c(1) n by (auto simp: Row_Decode_def)
qed (simp add: Row_Decode_def)

interpretation rs: safe_loop h "Row_Decode h CBinMsgRow" AddRow "Err_BinMsg_RowDecode" "Record_Decode_loop h" m_iRowNum for h
  by unfold_locales (auto simp: AddRow_def intro: Row_Decode_safe)

section \<open>Fields of a row as a map\<close>

definition row_map :: "msg_row \<Rightarrow> byte list \<rightharpoonup> byte list" where
  "row_map r = map_of (map (\<lambda>f. (m_strName f, m_strValue f)) (m_vecField r))"

lemma find_name_map:
  "map_of (map (\<lambda>f. (m_strName f, m_strValue f)) fs) k
    = (if find_name fs k = length fs then None else Some (m_strValue (fs ! find_name fs k)))"
  by (induction fs) auto

lemma find_name_le: "find_name fs k \<le> length fs"
  by (induction fs) auto

lemma update_name_map:
  "find_name fs k < length fs \<Longrightarrow>
   map_of (map (\<lambda>f. (m_strName f, m_strValue f)) (fs[find_name fs k := (fs ! find_name fs k)\<lparr>m_strValue := v\<rparr>]))
    = (map_of (map (\<lambda>f. (m_strName f, m_strValue f)) fs))(k \<mapsto> v)"
  by (induction fs) auto

section \<open>Properties\<close>

text \<open>
  (C19) Round trip of messages: a record of at least one row, each of at least one field, encodes into any buffer with room for it.  The length
  that \<open>Encode\<close> reports is the one \<open>GetSize\<close> announces, the memory outside that many bytes is as before, and \<open>Decode\<close> of those bytes gives the record back.
\<close>

theorem binmsg_roundtrip:
  assumes "good_record m" and "0 \<le> b" and "b + n \<le> int (length mem)" and "n < 2 ^ 31" and "int (length (enc_record m)) \<le> n"
  shows "\<exists>mem' k. Record_Encode h m mem (Some b) n = Some (mem', 0, k) \<and> Record_GetSize m = Some k \<and> k = int (length (enc_record m))
    \<and> keeps mem mem' b k \<and> Record_Decode h CBinMsgRecord mem' (Some b) k = Some (m, 0)"
proof -
  let ?m = "put_bytes mem (nat b) (enc_record m)" and ?k = "int (length (enc_record m))"
  have "nat b + length (enc_record m) \<le> length mem" using assms(2,3,5) by linarith
  then have "bytes_at ?m (nat b) (enc_record m)" by (rule bytes_at_put_bytes)
  then have "Record_Decode h CBinMsgRecord ?m (Some b) ?k = Some (m, 0)" using assms by (intro Record_Decode_ok) auto
  moreover have "Record_GetSize m = Some ?k" using assms by (intro Record_GetSize_ok) auto
  moreover have "keeps mem ?m b ?k" using assms(2) by (intro keeps_put) auto
  ultimately show ?thesis using Record_Encode_ok [OF assms, of h] by auto
qed

theorem binmsg_roundtrip_witness:
  "\<exists>m mem'. adds AddRow CBinMsgRecord [\<lparr>m_vecField = [\<lparr>m_strName = [97], m_strValue = [49, 50]\<rparr>], m_iFieldNum = 1, m_iReadField = 0\<rparr>] = Some m
     \<and> Record_Encode False m (replicate 40 0) (Some 2) 30 = Some (mem', 0, 23) \<and> Record_Decode False CBinMsgRecord mem' (Some 2) 23 = Some (m, 0)"
proof -
  let ?r = "\<lparr>m_vecField = [\<lparr>m_strName = [97], m_strValue = [49, 50]\<rparr>], m_iFieldNum = 1, m_iReadField = 0\<rparr> :: msg_row"
  let ?m = "\<lparr>m_vecRow = [?r], m_iRowNum = 1, m_iReadRow = 0\<rparr> :: msg_record"
  have "good_record ?m" "length (enc_record ?m) = 23"
    by (simp_all add: good_record_def good_row_def length_enc_record enc_row_def length_enc_field)
  then show ?thesis using binmsg_roundtrip [of ?m 2 30 "replicate 40 0" False] by (simp add: AddRow_def CBinMsgRecord_def) blast
qed

text \<open>
  A buffer that is too small for a record makes \<open>Encode\<close> return the \<open>NoEnough\<close> error with length 0, and nothing outside the buffer is written.
\<close>

theorem binmsg_encode_too_small:
  assumes "good_record m" and "0 \<le> b" and "0 \<le> n" and "b + n \<le> int (length mem)" and "n < int (length (enc_record m))"
    and "int (length (enc_record m)) < 2 ^ 31"
  shows "\<exists>mem'. Record_Encode h m mem (Some b) n = Some (mem', Err_BinMsg_NoEnough, 0) \<and> keeps mem mem' b n"
  using Record_Encode_fail [OF assms] .

theorem binmsg_encode_too_small_witness:
  "\<exists>m mem'. Record_Encode True m (replicate 40 0) (Some 2) 22 = Some (mem', Err_BinMsg_NoEnough, 0) \<and> keeps (replicate 40 0) mem' 2 22"
proof -
  let ?r = "\<lparr>m_vecField = [\<lparr>m_strName = [97], m_strValue = [49, 50]\<rparr>], m_iFieldNum = 1, m_iReadField = 0\<rparr> :: msg_row"
  let ?m = "\<lparr>m_vecRow = [?r], m_iRowNum = 1, m_iReadRow = 0\<rparr> :: msg_record"
  have "good_record ?m" "length (enc_record ?m) = 23"
    by (simp_all add: good_record_def good_row_def length_enc_record enc_row_def length_enc_field)
  then show ?thesis using binmsg_encode_too_small [of ?m 2 22 "replicate 40 0" True] by (intro exI [of _ ?m]) simp
qed

text \<open>
  (C20) Decoding ends: \<open>Decode\<close> of a record returns on every content of the buffer, having read only bytes inside it, with 0 or one of two
  errors, provided that no four bytes of it read as a length that overflows an \<open>int\<close> when the offset is added.
\<close>

theorem binmsg_decode_returns:
  assumes "0 \<le> b" and "b + n \<le> int (length mem)" and "small_lengths h mem b n"
  shows "\<exists>m r. Record_Decode h CBinMsgRecord mem (Some b) n = Some (m, r) \<and> r \<in> {0, Err_BinMsg_Param, Err_BinMsg_RowDecode}"
proof (cases "4 < n")
  case True
  have n: "n < 2 ^ 31 - 4" using assms(3) by (simp add: small_lengths_def)
  then have ci: "c_int (n - 4) = n - 4" using True by (intro c_int_small) auto
  obtain c where c: "AttachBuffer CBufferManage (Some (b + 4)) (n - 4) = (c, 0)" "cb_ok mem c (b + 4)" "m_iOffset c = 0" "m_iBufferLen c = n - 4"
    using attached [of "b + 4" "n - 4" mem] assms(1,2) True n by force
  have "small_lengths h mem (b + 4) (n - 4)" by (rule small_lengths_sub [OF assms(3)]) auto
  then have "\<exists>m r. Record_Decode_loop h mem c None 0 CBinMsgRecord False = Some (m, r) \<and> r \<in> {0, Err_BinMsg_RowDecode}"
    using c(3,4) n by (intro rs.loop_returns [OF c(2)]) (auto simp: CBinMsgRecord_def)
  then show ?thesis using c(1) ci True by (auto simp: Record_Decode_def)
next
  case False
  then have "n < 4 \<or> n = 4" by linarith
  then have "n < 4 \<or> c_int (n - 4) = 0" using c_int_small [of 0] by (elim disjE) simp_all
  then show ?thesis by (auto simp: Record_Decode_def AttachBuffer_def)
qed

theorem binmsg_decode_returns_witness:
  "\<exists>m r. Record_Decode True CBinMsgRecord [1, 2, 3, 4, 5] (Some 0) 5 = Some (m, r) \<and> r \<in> {0, Err_BinMsg_Param, Err_BinMsg_RowDecode}"
proof -
  have "q = 0 \<or> q = 1" if "0 \<le> q" "q + 4 \<le> 5" for q :: int using that by linarith
  moreover have "bread [1, 2, 3, 4, 5] 0 4 = Some [1, 2, 3, 4]" "bread [1, 2, 3, 4, 5] 1 4 = Some [2, 3, 4, 5]" by code_simp+
  moreover have "sint (ntohl True (of_host_bytes True [1, 2, 3, 4])) = 16909060" "sint (ntohl True (of_host_bytes True [2, 3, 4, 5])) = 33752069"
    by code_simp+
  ultimately have "small_lengths True [1, 2, 3, 4, 5] 0 5" unfolding small_lengths_def by fastforce
  then show ?thesis using binmsg_decode_returns [of 0 5 "[1, 2, 3, 4, 5]" True] by simp
qed

text \<open>
  (C38) The fields of a row refine a map from names to values: \<open>FindField\<close> is membership, \<open>GetField\<close> is lookup with the empty string as default,
  \<open>SetField\<close> overwrites a name that is there and changes nothing otherwise, \<open>AddField\<close> adds a field that an earlier one of that name hides.
\<close>

theorem binmsg_row_refines_map:
  "FindField r k = (if k \<in> dom (row_map r) then 1 else 0)
    \<and> GetField r k = (case row_map r k of None \<Rightarrow> [] | Some v \<Rightarrow> v)
    \<and> row_map (SetField r k v) = (if k \<in> dom (row_map r) then (row_map r)(k \<mapsto> v) else row_map r)
    \<and> (case AddField_string r k v of None \<Rightarrow> m_iFieldNum r \<notin> {- (2 ^ 31)..<2 ^ 31 - 1} | Some r' \<Rightarrow> row_map r' = [k \<mapsto> v] ++ row_map r)"
proof -
  let ?i = "find_name (m_vecField r) k" and ?n = "length (m_vecField r)"
  have d: "k \<in> dom (row_map r) \<longleftrightarrow> ?i < ?n" using find_name_le [of "m_vecField r" k] by (auto simp: row_map_def find_name_map dom_def)
  have "FindField r k = (if k \<in> dom (row_map r) then 1 else 0)" using d by (simp add: FindField_def)
  moreover have "GetField r k = (case row_map r k of None \<Rightarrow> [] | Some v \<Rightarrow> v)" by (simp add: GetField_def row_map_def find_name_map Let_def)
  moreover have "row_map (SetField r k v) = (if k \<in> dom (row_map r) then (row_map r)(k \<mapsto> v) else row_map r)"
    using d find_name_le [of "m_vecField r" k] update_name_map [of "m_vecField r" k v] by (auto simp: SetField_def row_map_def Let_def)
  moreover have "case AddField_string r k v of None \<Rightarrow> m_iFieldNum r \<notin> {- (2 ^ 31)..<2 ^ 31 - 1} | Some r' \<Rightarrow> row_map r' = [k \<mapsto> v] ++ row_map r"
    by (auto simp: AddField_string_def AddField_def row_map_def iadd_def split: option.splits bind_splits if_splits)
  ultimately show ?thesis by blast
qed

text \<open>The integer overloads store decimal text that reads back as the number.\<close>

lemma AddField_integers:
  assumes "k \<notin> dom (row_map r)"
  shows "AddField_int64 r k x = Some r' \<Longrightarrow> int_value (GetField r' k) = sint x"
    and "AddField_uint64 r k x = Some r' \<Longrightarrow> dec_value (GetField r' k) = unat x"
    and "AddField_int32 r k y = Some r' \<Longrightarrow> int_value (GetField r' k) = sint y"
    and "AddField_uint32 r k y = Some r' \<Longrightarrow> dec_value (GetField r' k) = unat y"
proof -
  have g: "GetField r' k = v" if "AddField r (CBinMsgField\<lparr>m_strName := k, m_strValue := v\<rparr>) = Some r'" for v
  proof -
    have n: "find_name (m_vecField r) k = length (m_vecField r)"
      using assms by (auto simp: row_map_def find_name_map dom_def split: if_splits)
    have "find_name (fs @ [f]) k = length fs" if "find_name fs k = length fs" "m_strName f = k" for fs f
      using that by (induction fs) (auto split: if_splits)
    then show ?thesis using that n by (auto simp: AddField_def GetField_def Let_def split: bind_splits)
  qed
  show "AddField_int64 r k x = Some r' \<Longrightarrow> int_value (GetField r' k) = sint x"
    "AddField_int32 r k y = Some r' \<Longrightarrow> int_value (GetField r' k) = sint y"
    using g by (simp_all add: AddField_int64_def AddField_int32_def c_string_signed int_value_signed)
  show "AddField_uint64 r k x = Some r' \<Longrightarrow> dec_value (GetField r' k) = unat x"
    "AddField_uint32 r k y = Some r' \<Longrightarrow> dec_value (GetField r' k) = unat y"
    using g dec_value_digits by (simp_all add: AddField_uint64_def AddField_uint32_def c_string_digits del: dec_value.simps)
qed

text \<open>A row without fields encodes to nothing, which \<open>Decode\<close> refuses.\<close>

lemma empty_row_not_decoded:
  "Record_Encode True \<lparr>m_vecRow = [CBinMsgRow], m_iRowNum = 1, m_iReadRow = 0\<rparr> (replicate 12 0) (Some 0) 12
     = Some ([0, 0, 0, 8, 0, 0, 0, 0, 0, 0, 0, 0], 0, 8)"
  "Record_Decode True CBinMsgRecord [0, 0, 0, 8, 0, 0, 0, 0, 0, 0, 0, 0] (Some 0) 8 = Some (CBinMsgRecord, Err_BinMsg_RowDecode)"
  by code_simp+

text \<open>A record without rows is written although the buffer is shorter than its four bytes.\<close>

lemma empty_record_overruns: "Record_Encode True CBinMsgRecord [9, 9, 9, 9] (Some 0) 2 = Some ([0, 0, 0, 4], 0, 4)"
  by code_simp

text \<open>Bytes behind the last whole element are ignored.\<close>

lemma truncated_tail_ignored:
  "Row_Decode True CBinMsgRow [0, 0, 0, 8, 0, 0, 0, 0, 0, 0, 0, 0, 0, 0, 0, 99, 1] (Some 0) 17
    = Some (\<lparr>m_vecField = [\<lparr>m_strName = [], m_strValue = []\<rparr>], m_iFieldNum = 1, m_iReadField = 0\<rparr>, 0)"
  by code_simp

end
