(* ===== verification/SdUtil.thy ===== *)
theory SdUtil
  imports CText
begin

text \<open>
  \<open>template_http/src/common/SDUtility.cpp\<close> (text functions) and \<open>mycommon.cpp\<close>: hexadecimal text, numbers in text, hashes, URL encoding, dotted
  addresses, lists in brackets, and the conversion between strings and maps.  A \<open>std::string\<close> is a byte list and its \<open>c_str()\<close> the list with a zero byte
  behind it; a read outside it faults.  \<open>boost::split\<close> and \<open>boost::trim\<close> are parameters.  A \<open>std::map\<close> is a map, and the list of its pairs
  in the order of the keys where the code iterates over it.
\<close>

section \<open>Definitions: hexadecimal text\<close>

function str2hex_loop :: "byte list \<Rightarrow> int \<Rightarrow> int \<Rightarrow> byte list \<Rightarrow> byte list option" where
  "str2hex_loop buffer i buffer_size ret_str =
     (if i < buffer_size then do {
        c \<leftarrow> aget buffer i;
        str2hex_loop buffer (i + 1) buffer_size (ret_str @ print_02X c)
      } else Some ret_str)"
  by pat_completeness auto
termination by (relation "measure (\<lambda>(b, i, n, r). nat (n - i))") auto

definition str2hex :: "byte list \<Rightarrow> int \<Rightarrow> byte list option" where
  "str2hex buf n = str2hex_loop buf 0 n []"

text \<open>\<open>char\<close> is signed, but the classes it is compared with are ASCII.\<close>

definition hex2int :: "byte \<Rightarrow> int" where
  "hex2int chr =
     (if 48 \<le> chr \<and> chr \<le> 57 then uint chr - 48
      else if 97 \<le> chr \<and> chr \<le> 102 then uint chr - 97 + 10
      else if 65 \<le> chr \<and> chr \<le> 70 then uint chr - 65 + 10
      else 0)"

function hexstr_loop :: "byte list \<Rightarrow> nat \<Rightarrow> nat \<Rightarrow> byte list \<Rightarrow> byte list option" where
  "hexstr_loop hex i buff_len buff =
     (if i < buff_len then do {
        a \<leftarrow> aget hex (2 * int i);
        b \<leftarrow> aget hex (2 * int i + 1);
        hexstr_loop hex (i + 1) buff_len (buff @ [word_of_int (16 * hex2int a + hex2int b)])
      } else Some buff)"
  by pat_completeness auto
termination by (relation "measure (\<lambda>(h, i, n, b). n - i)") auto

text \<open>The new \<open>binary_string\<close>, and the result.\<close>

definition hexstr2byte :: "byte list \<Rightarrow> byte list \<Rightarrow> (byte list \<times> bool) option" where
  "hexstr2byte binary_string hex_string =
     (if length hex_string mod 2 \<noteq> 0 then Some (binary_string, False)
      else do {
        b \<leftarrow> hexstr_loop (hex_string @ [0]) 0 (length hex_string div 2) [];
        Some (b, True)
      })"

section \<open>Definitions: numbers\<close>

definition format_int :: "32 word \<Rightarrow> byte list" where
  "format_int i = c_string (print_signed (sint i))"

definition format_uint32 :: "u32 \<Rightarrow> byte list" where
  "format_uint32 i = c_string (dec_digits (unat i))"

text \<open>The loop of the \<open>atouint\<close> functions, which look at \<open>len + 1\<close> characters.\<close>

function atouint_loop :: "byte list \<Rightarrow> int \<Rightarrow> int \<Rightarrow> 'a::len word \<Rightarrow> 'a word option" where
  "atouint_loop s p len val =
     (if len \<ge> 0 then do {
        c \<leftarrow> aget s p;
        if isdigit c then atouint_loop s (p + 1) (len - 1) (10 * val + word_of_int (uint c - 48)) else Some val
      } else Some val)"
  by pat_completeness auto
termination by (relation "measure (\<lambda>(s, p, n, v). nat (n + 1))") auto

definition atouint8 :: "byte list \<Rightarrow> int \<Rightarrow> byte option" where
  "atouint8 s len = (if len = 0 then Some 0 else atouint_loop s 0 len 0)"

definition atouint32 :: "byte list \<Rightarrow> int \<Rightarrow> u32 option" where
  "atouint32 s len = (if len = 0 then Some 0 else atouint_loop s 0 len 0)"

definition atouint64 :: "byte list \<Rightarrow> int \<Rightarrow> u64 option" where
  "atouint64 s len = (if len = 0 then Some 0 else atouint_loop s 0 len 0)"

definition atouint64_const :: "byte list \<Rightarrow> int \<Rightarrow> u64 option" where
  "atouint64_const s len = atouint_loop s 0 len 0"

definition atouint32_string :: "byte list \<Rightarrow> u32 option" where
  "atouint32_string str = atouint32 (str @ [0]) (c_int (int (length str)))"

definition atouint64_string :: "byte list \<Rightarrow> u64 option" where
  "atouint64_string str = atouint64_const (str @ [0]) (c_int (int (length str)))"

section \<open>Definitions: hashes\<close>

definition hash :: "byte list \<Rightarrow> byte list" where
  "hash ident =
     (let result = foldl (\<lambda>r c. 31 * r + (scast c :: u32)) 1 ident;
          result = (result AND 0x7FFFFFFF) + 0x80000000;
          n = unat (result mod 100)
      in (if n < 10 then [48] else []) @ dec_digits n)"

text \<open>\<open>int\<close> arithmetic that overflows faults.\<close>

definition imul_add :: "int \<Rightarrow> byte \<Rightarrow> int option" where
  "imul_add r c = do { t \<leftarrow> iadd (31 * r) 0; iadd t (sint c) }"

fun hash_int :: "int \<Rightarrow> byte list \<Rightarrow> int option" where
  "hash_int r [] = Some r"
| "hash_int r (c # cs) = do { r \<leftarrow> imul_add r c; hash_int r cs }"

definition hash_gcid :: "byte list \<Rightarrow> int option" where
  "hash_gcid str = (if str = [] then Some 0 else do { r \<leftarrow> hash_int 1 str; if r < 0 then iadd 0 (- r) else Some r })"

definition hash_java :: "byte list \<Rightarrow> int option" where
  "hash_java str = do { h \<leftarrow> hash_int 0 str; if h < 0 then iadd 0 (- h) else Some h }"

definition user_postfix :: "byte list \<Rightarrow> byte list option" where
  "user_postfix user_id =
     (let len = length user_id in
      if len < 2 then Some [48, 48]
      else do {
        a \<leftarrow> aget user_id (int len - 1);
        b \<leftarrow> aget user_id (int len - 2);
        if isdigit a \<and> isdigit b then str_substr user_id (len - 2) 2 else Some (hash user_id)
      })"

text \<open>A failed \<open>assert\<close> aborts.\<close>

definition group_postfix :: "byte list \<Rightarrow> byte list option" where
  "group_postfix group_id = (if length group_id < 2 then None else str_substr group_id (length group_id - 2) 2)"

definition message_postfix :: "byte list \<Rightarrow> byte list" where
  "message_postfix dst_id = hash dst_id"

function strnicmp_loop :: "byte list \<Rightarrow> byte list \<Rightarrow> int \<Rightarrow> nat \<Rightarrow> int option" where
  "strnicmp_loop s1 s2 p len = do {
     c1 \<leftarrow> aget s1 p;
     c2 \<leftarrow> aget s2 p;
     if c1 = 0 \<or> c2 = 0 then Some (uint c1 - uint c2)
     else if c1 = c2 then if len - 1 = 0 then Some (uint c1 - uint c2) else strnicmp_loop s1 s2 (p + 1) (len - 1)
     else do {
       let c1 = tolower c1;
       let c2 = tolower c2;
       if c1 \<noteq> c2 then Some (uint c1 - uint c2)
       else if len - 1 = 0 then Some (uint c1 - uint c2) else strnicmp_loop s1 s2 (p + 1) (len - 1)
     }
   }"
  by pat_completeness auto
termination by (relation "measure (\<lambda>(s, t, p, n). n)") auto

definition strnicmp :: "byte list \<Rightarrow> byte list \<Rightarrow> nat \<Rightarrow> int option" where
  "strnicmp s1 s2 len = (if len \<noteq> 0 then strnicmp_loop s1 s2 0 len else Some 0)"

section \<open>Definitions: URL encoding\<close>

definition toHex :: "byte \<Rightarrow> byte" where
  "toHex x = (if x > 9 then x + 55 else x + 48)"

definition url_char :: "byte \<Rightarrow> byte list" where
  "url_char c = c_string (if isalnum c then [c, 0, 0, 0] else if isspace c then [43, 0, 0, 0]
     else [37, toHex (drop_bit 4 c), toHex (c mod 16), 0])"

fun URLEncode :: "byte list \<Rightarrow> byte list" where
  "URLEncode [] = []"
| "URLEncode (c # cs) = url_char c @ URLEncode cs"

definition x2c_digit :: "byte \<Rightarrow> byte" where
  "x2c_digit c = (if sint c \<ge> 65 then ((c AND 0xdf) - 65) + 10 else c - 48)"

definition x2c :: "byte list \<Rightarrow> int \<Rightarrow> byte option" where
  "x2c url p = do {
     a \<leftarrow> aget url p;
     b \<leftarrow> aget url (p + 1);
     Some (x2c_digit a * 16 + x2c_digit b)
   }"

partial_function (option) unescape_loop :: "byte list \<Rightarrow> int \<Rightarrow> int \<Rightarrow> byte list option" where
  "unescape_loop url x y = do {
     c \<leftarrow> aget url y;
     if c \<noteq> 0 then do {
       url \<leftarrow> aput url x c;
       if c = 37 then do {
         d \<leftarrow> x2c url (y + 1);
         url \<leftarrow> aput url x d;
         unescape_loop url (x + 1) (y + 3)
       } else do {
         d \<leftarrow> aget url y;
         if d = 43 then do {
           url \<leftarrow> aput url x 32;
           unescape_loop url (x + 1) (y + 1)
         } else unescape_loop url (x + 1) (y + 1)
       }
     } else aput url x 0
   }"

declare unescape_loop.simps [code]

definition unescape_url :: "byte list \<Rightarrow> byte list option" where
  "unescape_url url = unescape_loop url 0 0"

definition URLDecode :: "byte list \<Rightarrow> byte list option" where
  "URLDecode url = do { u \<leftarrow> unescape_url (c_string (url @ [0]) @ [0]); Some (c_string u) }"

section \<open>Definitions: dotted addresses and bracketed lists\<close>

text \<open>Positions are \<open>int\<close>, with \<open>npos\<close> as \<open>-1\<close>; a length of \<open>-1\<close> is the largest \<open>size_t\<close>.\<close>

definition find_int :: "byte list \<Rightarrow> byte list \<Rightarrow> int \<Rightarrow> int" where
  "find_int s pat pos = (case find_from s pat (nat pos) of None \<Rightarrow> - 1 | Some i \<Rightarrow> c_int (int i))"

definition substr_int :: "byte list \<Rightarrow> int \<Rightarrow> int \<Rightarrow> byte list option" where
  "substr_int s pos n = str_substr s (nat pos) (if n < 0 then length s else nat n)"

definition ip2long :: "byte list \<Rightarrow> u32 option" where
  "ip2long str_ip = do {
     let position1 = find_int str_ip [46] 0;
     let position2 = find_int str_ip [46] (position1 + 1);
     let position3 = find_int str_ip [46] (position2 + 1);
     ip00 \<leftarrow> substr_int str_ip 0 position1;
     ip11 \<leftarrow> substr_int str_ip (position1 + 1) position2;
     ip22 \<leftarrow> substr_int str_ip (position2 + 1) position3;
     ip33 \<leftarrow> substr_int str_ip (position3 + 1) (- 1);
     ip0 \<leftarrow> atouint32 (ip00 @ [0]) (c_int (int (length ip00)));
     ip1 \<leftarrow> atouint32 (ip11 @ [0]) (c_int (int (length ip00)));
     ip2 \<leftarrow> atouint32 (ip22 @ [0]) (c_int (int (length ip00)));
     ip3 \<leftarrow> atouint32 (ip33 @ [0]) (c_int (int (length ip00)));
     Some (push_bit 24 ip0 + push_bit 16 ip1 + push_bit 8 ip2 + ip3)
   }"

text \<open>\<open>split\<close> stands for \<open>boost::split\<close> with \<open>boost::is_any_of\<close>.\<close>

definition stringsplit :: "(byte list \<Rightarrow> byte list \<Rightarrow> byte list list) \<Rightarrow> byte list \<Rightarrow> byte list \<Rightarrow> byte list list" where
  "stringsplit split str_src token = split str_src token"

definition json_array_append :: "(byte list \<Rightarrow> byte list \<Rightarrow> byte list list) \<Rightarrow> byte list \<Rightarrow> byte list \<Rightarrow> byte list option" where
  "json_array_append split old_array elem =
     (if old_array = [] \<or> old_array = [91, 93] then Some ([91] @ elem @ [93])
      else do {
        let ars = stringsplit split old_array [44, 91, 93, 32];
        let old_array = [91];
        if elem \<in> set ars then Some old_array
        else do {
          s \<leftarrow> str_substr old_array 0 (length old_array - 1);
          Some (s @ [44] @ elem @ [93])
        }
      })"

definition json_array_pop :: "(byte list \<Rightarrow> byte list \<Rightarrow> byte list list) \<Rightarrow> byte list \<Rightarrow> byte list \<Rightarrow> byte list option" where
  "json_array_pop split old_array elem =
     (if old_array = [] then Some old_array
      else do {
        let ars = stringsplit split old_array [44, 91, 93, 32];
        let old_array = foldl (\<lambda>s r. if r \<noteq> elem \<and> r \<noteq> [] then s @ r @ [44] else s) [91] ars;
        if length old_array = 1 then Some (old_array @ [93])
        else do {
          s \<leftarrow> str_substr old_array 0 (length old_array - 1);
          Some (s @ [93])
        }
      })"

section \<open>Definitions: mycommon\<close>

type_synonym smap = "byte list \<rightharpoonup> byte list"

definition printstring2str :: "byte list \<Rightarrow> byte list \<Rightarrow> byte list" where
  "printstring2str str_src str_dst = foldl (\<lambda>d c. d @ print_02X c @ [32]) str_dst str_src"

definition erasestr :: "byte list \<Rightarrow> byte list" where
  "erasestr str = (case find_from str [13] 0 of None \<Rightarrow> str | Some pos \<Rightarrow> take pos str)"

text \<open>The loop over one of the characters to filter: a backslash is put in front of it as long as it is found.\<close>

partial_function (option) filter_loop :: "byte list \<Rightarrow> byte \<Rightarrow> byte list option" where
  "filter_loop str_cmd c = (case find_from str_cmd [c] 0 of None \<Rightarrow> Some str_cmd
     | Some pos \<Rightarrow> filter_loop (take pos str_cmd @ [92] @ drop pos str_cmd) c)"

declare filter_loop.simps [code]

definition pre_process_shell_cmd :: "byte list \<Rightarrow> (byte list \<times> int) option" where
  "pre_process_shell_cmd str_cmd = do {
     s \<leftarrow> filter_loop str_cmd 40;
     s \<leftarrow> filter_loop s 41;
     Some (s, 0)
   }"

definition process_path_erase :: "byte list \<Rightarrow> (byte list \<times> int) option" where
  "process_path_erase str_file_path =
     (if length str_file_path = 0 then Some (str_file_path, - 1)
      else do {
        c \<leftarrow> aget str_file_path (int (length str_file_path) - 1);
        Some (if c = 47 then take (length str_file_path - 1) str_file_path else str_file_path, 0)
      })"

text \<open>\<open>map_src\<close> is the list of the pairs in the order of the keys.\<close>

definition map2string :: "byte list \<Rightarrow> (byte list \<times> byte list) list \<Rightarrow> byte list" where
  "map2string str_rtn map_src =
     (let s = foldl (\<lambda>s (k, v). s @ k @ [61] @ v @ [38]) str_rtn (rev map_src)
      in if s \<noteq> [] then take (length s - 1) s else s)"

text \<open>\<open>insert\<close> keeps a value that is there.\<close>

definition map_insert :: "smap \<Rightarrow> byte list \<Rightarrow> byte list \<Rightarrow> smap" where
  "map_insert m k v = (case m k of None \<Rightarrow> m(k \<mapsto> v) | Some _ \<Rightarrow> m)"

definition map_item :: "(byte list \<Rightarrow> byte list \<Rightarrow> byte list list) \<Rightarrow> (byte list \<Rightarrow> byte list) \<Rightarrow> smap \<Rightarrow> byte list \<Rightarrow> smap" where
  "map_item split trim map_rtn str_item =
     (case split str_item [61] of [key, val] \<Rightarrow> map_insert map_rtn (trim key) (trim val) | _ \<Rightarrow> map_rtn)"

definition string2map :: "(byte list \<Rightarrow> byte list \<Rightarrow> byte list list) \<Rightarrow> (byte list \<Rightarrow> byte list) \<Rightarrow> byte list \<Rightarrow> smap \<Rightarrow> smap" where
  "string2map split trim str_src map_rtn = foldl (map_item split trim) map_rtn (split str_src [38])"

fun urldecode_items :: "(byte list \<Rightarrow> byte list \<Rightarrow> byte list list) \<Rightarrow> (byte list \<Rightarrow> byte list) \<Rightarrow> byte list list \<Rightarrow> smap \<Rightarrow> smap option" where
  "urldecode_items split trim [] map_rtn = Some map_rtn"
| "urldecode_items split trim (str_item # vec) map_rtn =
     (case split str_item [61] of
        [key, val] \<Rightarrow> do {
          v \<leftarrow> URLDecode (trim val);
          urldecode_items split trim vec (map_insert map_rtn (trim key) v)
        }
      | _ \<Rightarrow> urldecode_items split trim vec map_rtn)"

definition string2map_urldecode ::
    "(byte list \<Rightarrow> byte list \<Rightarrow> byte list list) \<Rightarrow> (byte list \<Rightarrow> byte list) \<Rightarrow> byte list \<Rightarrow> smap \<Rightarrow> smap option" where
  "string2map_urldecode split trim str_src map_rtn = urldecode_items split trim (split str_src [38]) map_rtn"

definition get_value :: "byte list \<Rightarrow> smap \<Rightarrow> byte list" where
  "get_value key map_get = (case map_get key of Some v \<Rightarrow> v | None \<Rightarrow> [])"

definition get_vaule :: "byte list \<Rightarrow> smap \<Rightarrow> byte list" where
  "get_vaule key map_get = (case map_get key of Some v \<Rightarrow> v | None \<Rightarrow> [])"

declare str2hex_loop.simps [simp del] hexstr_loop.simps [simp del] atouint_loop.simps [simp del] strnicmp_loop.simps [simp del]

section \<open>Hexadecimal digits\<close>

lemma nibble_cases: "P c" if "\<forall>n \<in> set [0..<16]. P (of_nat n :: byte)" and "c < 16" for c :: byte
proof -
  have "unat c < 16" using that(2) by (simp add: word_less_nat_alt)
  then have "unat c \<in> set [0..<16]" by simp
  then have "P (of_nat (unat c))" using that(1) by blast
  then show ?thesis by simp
qed

lemma nibbles: "c div 16 < (16 :: byte)" "c mod 16 < (16 :: byte)" "16 * uint (c div 16) + uint (c mod 16) = uint c" "drop_bit 4 c = c div 16"
  for c :: byte
proof -
  have "uint c < 256" using uint_bounded [of c] by simp
  then show "c div 16 < (16 :: byte)" by (simp add: word_less_def uint_div)
  show "c mod 16 < (16 :: byte)" by (simp add: word_less_def uint_mod)
  show "16 * uint (c div 16) + uint (c mod 16) = uint c" by (simp add: uint_div uint_mod)
  show "drop_bit 4 c = c div 16" by (simp add: drop_bit_eq_div)
qed

lemma hex_digit_nibble: "n < 16 \<Longrightarrow> hex_digit n \<noteq> 0 \<and> hex2int (hex_digit n) = uint n"
  by (rule nibble_cases [where P = "\<lambda>n. hex_digit n \<noteq> 0 \<and> hex2int (hex_digit n) = uint n"], code_simp)

lemma toHex_nibble: "n < 16 \<Longrightarrow> isalnum (toHex n) \<and> x2c_digit (toHex n) = n"
  by (rule nibble_cases [where P = "\<lambda>n. isalnum (toHex n) \<and> x2c_digit (toHex n) = n"], code_simp)

lemma print_02X_value: "word_of_int (16 * hex2int (hex_digit (c div 16)) + hex2int (hex_digit (c mod 16))) = c"
proof -
  have "16 * hex2int (hex_digit (c div 16)) + hex2int (hex_digit (c mod 16)) = uint c" using hex_digit_nibble nibbles [of c] by simp
  then show ?thesis by (simp only: word_of_int_uint)
qed

lemma toHex_value: "x2c_digit (toHex (drop_bit 4 c)) * 16 + x2c_digit (toHex (c mod 16)) = c"
proof -
  have "x2c_digit (toHex (drop_bit 4 c)) * 16 + x2c_digit (toHex (c mod 16)) = c div 16 * 16 + c mod 16"
    using toHex_nibble nibbles [of c] by simp
  then show ?thesis by (simp only: div_mult_mod_eq)
qed

section \<open>Hexadecimal text\<close>

lemma length_print_02X [simp]: "length (print_02X c) = 2"
  by (simp add: print_02X_def)

lemma length_hex: "length (concat (map print_02X bs)) = 2 * length bs"
  by (induction bs) auto

lemma str2hex_loop_spec: "0 \<le> i \<Longrightarrow> i \<le> int (length bs) \<Longrightarrow> str2hex_loop bs i (int (length bs)) r = Some (r @ concat (map print_02X (drop (nat i) bs)))"
proof (induction "nat (int (length bs) - i)" arbitrary: i r)
  case 0
  then show ?case by (subst str2hex_loop.simps) simp
next
  case (Suc k)
  then have i: "nat i < length bs" "aget bs i = Some (bs ! nat i)" by (auto simp: aget_in)
  have "drop (nat i) bs = bs ! nat i # drop (nat (i + 1)) bs" using i(1) Suc.prems(1) by (simp add: Cons_nth_drop_Suc nat_add_distrib)
  moreover have "i < int (length bs)" using i(1) Suc.prems(1) by linarith
  moreover have "str2hex_loop bs (i + 1) (int (length bs)) r' = Some (r' @ concat (map print_02X (drop (nat (i + 1)) bs)))" for r'
    using Suc.hyps Suc.prems calculation(2) by (intro Suc.hyps(1)) linarith+
  ultimately show ?case using i(2) by (subst str2hex_loop.simps) simp
qed

lemma hexstr_loop_spec:
  "hexstr_loop (concat (map print_02X (xs @ ys)) @ r) (length xs) (length (xs @ ys)) b = Some (b @ ys)"
proof (induction ys arbitrary: xs b)
  case Nil
  then show ?case by (subst hexstr_loop.simps) simp
next
  case (Cons y ys)
  let ?t = "concat (map print_02X (xs @ y # ys)) @ r"
  have nth: "?t ! (2 * length xs) = hex_digit (y div 16)" "?t ! (2 * length xs + 1) = hex_digit (y mod 16)"
    by (simp_all add: nth_append length_hex print_02X_def)
  have "aget ?t (2 * int (length xs)) = Some (hex_digit (y div 16))" "aget ?t (2 * int (length xs) + 1) = Some (hex_digit (y mod 16))"
    using nth aget_nat [of "2 * length xs" ?t] aget_nat [of "2 * length xs + 1" ?t] by (simp_all add: length_hex add.commute)
  then show ?case using Cons.IH [of "xs @ [y]" "b @ [y]"] by (subst hexstr_loop.simps) (simp add: print_02X_value del: of_int_add of_int_mult)
qed

section \<open>URL encoding\<close>

text \<open>What \<open>unescape_url\<close> makes of a string, and when every percent sign has two characters behind it.\<close>

fun pct_ok :: "byte list \<Rightarrow> bool" where
  "pct_ok [] = True"
| "pct_ok (c # cs) = (if c = 37 then (case cs of a # b # ds \<Rightarrow> pct_ok ds | _ \<Rightarrow> False) else pct_ok cs)"

fun pct_decode :: "byte list \<Rightarrow> byte list" where
  "pct_decode [] = []"
| "pct_decode (c # cs) =
     (if c = 37 then (case cs of a # b # ds \<Rightarrow> (x2c_digit a * 16 + x2c_digit b) # pct_decode ds | _ \<Rightarrow> [])
      else (if c = 43 then 32 else c) # pct_decode cs)"

lemma aput_shift: "aput (xs @ mid @ c # r) (int (length xs)) d = Some (xs @ d # tl (mid @ [c]) @ r)"
  by (cases mid) (simp_all add: aput_def)

lemma aget_shift: "aget (xs @ mid @ c # r) (int (length xs) + int (length mid)) = Some c"
  by (simp add: aget_def nat_add_distrib nth_append)

lemma unescape_loop_spec:
  "0 \<notin> set t \<Longrightarrow> \<exists>tl. unescape_loop (xs @ mid @ t @ [0]) (int (length xs)) (int (length xs) + int (length mid))
     = (if pct_ok t then Some (xs @ pct_decode t @ 0 # tl) else None)"
proof (induction t arbitrary: xs mid rule: pct_ok.induct)
  case 1
  then show ?case by (subst unescape_loop.simps) (simp add: aget_shift aput_shift)
next
  case (2 c cs)
  let ?u = "\<lambda>d. xs @ d # tl (mid @ [c]) @ cs @ [0]"
  have c: "c \<noteq> 0" and cs: "0 \<notin> set cs" using 2(3) by auto
  have get: "aget (xs @ mid @ c # cs @ [0]) (int (length xs) + int (length mid)) = Some c" by (rule aget_shift)
  have put: "aput (xs @ mid @ c # cs @ [0]) (int (length xs)) d = Some (?u d)" for d by (rule aput_shift)
  have put2: "aput (?u e) (int (length xs)) d = Some (?u d)" for d e
    using aput_shift [of xs "[]" e "tl (mid @ [c]) @ cs @ [0]" d] by simp
  have len: "length (tl (mid @ [c])) = length mid" by simp
  show ?case
  proof (cases "c = 37")
    case False
    have "aget (?u c) (int (length xs) + int (length mid)) = Some c"
      using aget_shift [of "xs" "butlast (c # tl (mid @ [c]))" "last (c # tl (mid @ [c]))" "cs @ [0]"]
      by (cases mid) (simp_all add: last_append butlast_append)
    moreover have "\<exists>tl'. unescape_loop (?u d) (int (length xs) + 1) (int (length xs) + int (length mid) + 1)
        = (if pct_ok cs then Some (xs @ d # pct_decode cs @ 0 # tl') else None)" for d
      using 2(2) [OF False cs, of "xs @ [d]" "tl (mid @ [c])"] len by (auto simp: add_ac)
    ultimately show ?thesis using get put put2 c False by (subst unescape_loop.simps) (auto simp: add_ac)
  next
    case True
    show ?thesis
    proof (cases "\<exists>a b ds. cs = a # b # ds")
      case True': True
      then obtain a b ds where ds: "cs = a # b # ds" by blast
      have x: "x2c (?u e) (int (length xs) + int (length mid) + 1) = Some (x2c_digit a * 16 + x2c_digit b)" for e
        using aget_shift [of "xs @ [e]" "tl (mid @ [c])" a "b # ds @ [0]"] aget_shift [of "xs @ [e]" "tl (mid @ [c]) @ [a]" b "ds @ [0]"] len
        by (simp add: x2c_def ds add_ac)
      have "\<exists>tl'. unescape_loop (?u d) (int (length xs) + 1) (int (length xs) + int (length mid) + 3)
          = (if pct_ok ds then Some (xs @ d # pct_decode ds @ 0 # tl') else None)" for d
        using 2(1) [OF True ds refl, of "xs @ [d]" "tl (mid @ [c]) @ [a, b]"] cs len by (auto simp: ds add_ac)
      then show ?thesis using get put put2 c True x by (subst unescape_loop.simps) (auto simp: ds add_ac)
    next
      case False
      then consider "cs = []" | a where "cs = [a]" by (metis list.exhaust)
      then show ?thesis
      proof cases
        case 1
        have "x2c (?u e) (int (length xs) + int (length mid) + 1) = None" for e
          using len by (auto simp: x2c_def 1 aget_def split: bind_splits)
        then show ?thesis using get put c True 1 by (subst unescape_loop.simps) simp
      next
        case s: 2
        have e: "aget (?u d) (int (length xs) + int (length mid) + 3) = None" for d using len by (simp add: aget_def s)
        have "unescape_loop (?u d) p (int (length xs) + int (length mid) + 3) = None" for d p
          by (subst unescape_loop.simps) (simp add: e)
        then show ?thesis using get put put2 c True s by (subst unescape_loop.simps) (simp add: split: bind_splits)
      qed
    qed
  qed
qed

lemma c_string_append0: "c_string (s @ [0]) = c_string s"
  by (induction s) (auto simp: c_string_def)

lemma c_string_no0: "0 \<notin> set (c_string s)"
  by (auto simp: c_string_def dest: set_takeWhileD)

lemma c_string_cut: "0 \<notin> set s \<Longrightarrow> c_string (s @ 0 # r) = s"
  by (induction s) (auto simp: c_string_def)

lemma c_string_id: "0 \<notin> set s \<Longrightarrow> c_string s = s"
  by (simp add: c_string_def takeWhile_eq_all_conv) metis

lemma URLDecode_spec: "URLDecode s = (if pct_ok (c_string s) then Some (c_string (pct_decode (c_string s))) else None)"
proof -
  have "\<exists>r. unescape_loop (c_string s @ [0]) 0 0 = (if pct_ok (c_string s) then Some (pct_decode (c_string s) @ 0 # r) else None)"
    using unescape_loop_spec [OF c_string_no0 [of s], of "[]" "[]"] by auto
  then obtain r where "unescape_loop (c_string s @ [0]) 0 0 = (if pct_ok (c_string s) then Some (pct_decode (c_string s) @ 0 # r) else None)" by blast
  moreover have "c_string (t @ 0 # r) = c_string t" for t by (induction t) (auto simp: c_string_def)
  ultimately show ?thesis by (simp add: URLDecode_def unescape_url_def c_string_append0)
qed

lemma url_char_cases:
  "url_char c = (if isalnum c then [c] else if isspace c then [43] else [37, toHex (drop_bit 4 c), toHex (c mod 16)])"
proof -
  have nz: "\<not> isalnum 0" by code_simp
  then have "toHex (drop_bit 4 c) \<noteq> 0" "toHex (c mod 16) \<noteq> 0"
    using toHex_nibble [of "c div 16"] toHex_nibble [of "c mod 16"] nibbles [of c] by auto
  then show ?thesis using nz by (auto simp: url_char_def c_string_def)
qed

lemma isalnum_plain: "isalnum c \<Longrightarrow> c \<noteq> 37 \<and> c \<noteq> 43 \<and> c \<noteq> 0"
  by (auto simp: isalnum_def isdigit_def)

lemma URLEncode_decode: "\<forall>c \<in> set s. isspace c \<longrightarrow> c = 32 \<Longrightarrow> pct_ok (URLEncode s) \<and> pct_decode (URLEncode s) = s"
proof (induction s)
  case (Cons c s)
  then show ?case using isalnum_plain [of c] by (auto simp: url_char_cases toHex_value)
qed simp

lemma URLEncode_chars: "\<forall>c \<in> set (URLEncode s). isalnum c \<or> c = 37 \<or> c = 43"
proof (induction s)
  case (Cons c s)
  have "isalnum (toHex (drop_bit 4 c))" "isalnum (toHex (c mod 16))" using toHex_nibble nibbles [of c] by simp_all
  then show ?case using Cons by (auto simp: url_char_cases)
qed simp

section \<open>Numbers\<close>

lemma isdigit_of_nat: "n < 10 \<Longrightarrow> isdigit (of_nat (48 + n))"
  using unat_digit [of n] by (simp add: isdigit_def word_le_nat_alt del: of_nat_add)

lemma dec_digits_isdigit: "\<forall>d \<in> set (dec_digits n). isdigit d"
proof (induction n rule: dec_digits.induct)
  case (1 n)
  then show ?case using isdigit_of_nat [of n] isdigit_of_nat [of "n mod 10"] by (subst dec_digits.simps) (auto simp del: of_nat_add)
qed

lemma dec_digits_one: "n < 10 \<Longrightarrow> dec_digits n = [of_nat (48 + n)]"
  using dec_digits.simps [of n] by simp

lemma dec_digits_snoc: "10 \<le> n \<Longrightarrow> dec_digits n = dec_digits (n div 10) @ [of_nat (48 + n mod 10)]"
  using dec_digits.simps [of n] by simp

lemma length_dec_digits: "n < 1000 \<Longrightarrow> length (dec_digits n) = (if n < 10 then 1 else if n < 100 then 2 else 3)"
proof -
  assume "n < 1000"
  then have "n div 10 div 10 < 10" by auto
  then show ?thesis
    using dec_digits_one [of n] dec_digits_one [of "n div 10"] dec_digits_one [of "n div 10 div 10"] dec_digits_snoc [of n] dec_digits_snoc [of "n div 10"]
    by (cases "n < 10"; cases "n < 100") auto
qed

lemma foldl_digits:
  "\<forall>d \<in> set ds. isdigit d \<Longrightarrow>
   foldl (\<lambda>n d. 10 * n + word_of_int (uint d - 48)) (of_nat v :: 'a::len word) ds = of_nat (foldl (\<lambda>n d. 10 * n + (unat d - 48)) v ds)"
proof (induction ds arbitrary: v)
  case (Cons d ds)
  have "48 \<le> unat d" using Cons.prems by (simp add: isdigit_def word_le_nat_alt)
  then have "uint d - 48 = int (unat d - 48)" by (simp add: of_nat_diff)
  then have "(word_of_int (uint d - 48) :: 'a word) = of_nat (unat d - 48)" by (simp only: of_int_of_nat_eq)
  then show ?case using Cons.IH [of "10 * v + (unat d - 48)"] Cons.prems by simp
qed simp

lemma atouint_loop_digits:
  assumes "\<forall>d \<in> set ds. isdigit d" and "int (length ds) \<le> len + 1" and "int (length ds) = len + 1 \<or> (\<exists>c r'. r = c # r' \<and> \<not> isdigit c)"
  shows "atouint_loop (pre @ ds @ r) (int (length pre)) len v = Some (foldl (\<lambda>n d. 10 * n + word_of_int (uint d - 48)) v ds)"
  using assms
proof (induction ds arbitrary: pre len v)
  case Nil
  then show ?case by (subst atouint_loop.simps) (auto simp: aget_def)
next
  case (Cons d ds)
  have "aget (pre @ (d # ds) @ r) (int (length pre)) = Some d" by (simp add: aget_def nth_append)
  then show ?case using Cons.IH [of "len - 1" "pre @ [d]" "10 * v + word_of_int (uint d - 48)"] Cons.prems
    by (subst atouint_loop.simps) (simp add: add.commute)
qed

lemma atouint32_digits:
  assumes "\<forall>d \<in> set ds. isdigit d" and "0 < len" and "int (length ds) \<le> len + 1" and "int (length ds) = len + 1 \<or> (\<exists>c r'. r = c # r' \<and> \<not> isdigit c)"
  shows "atouint32 (ds @ r) len = Some (of_nat (dec_value ds))"
proof -
  have "atouint_loop ([] @ ds @ r) (int (length ([] :: byte list))) len (0 :: u32) = Some (foldl (\<lambda>n d. 10 * n + word_of_int (uint d - 48)) 0 ds)"
    by (rule atouint_loop_digits [OF assms(1,3,4)])
  then show ?thesis using foldl_digits [OF assms(1), of 0, where 'a = 32] assms(2) by (simp add: atouint32_def)
qed

text \<open>What is left of an octet when the first one has fewer digits.\<close>

definition cut :: "nat \<Rightarrow> nat \<Rightarrow> nat" where
  "cut a x = (if a < 10 \<and> 100 \<le> x then x div 10 else x)"

lemma atouint32_octet:
  assumes "x < 256" and "a < 256" and "\<not> isdigit c"
  shows "atouint32 (dec_digits x @ c # r) (int (length (dec_digits a))) = Some (of_nat (cut a x))"
proof (cases "a < 10 \<and> 100 \<le> x")
  case True
  let ?last = "of_nat (48 + x mod 10)"
  have "atouint32 (dec_digits (x div 10) @ ?last # c # r) (int (length (dec_digits a))) = Some (of_nat (dec_value (dec_digits (x div 10))))"
    using True assms by (intro atouint32_digits dec_digits_isdigit) (auto simp: length_dec_digits)
  then show ?thesis using True dec_value_digits [of "x div 10"] by (simp add: cut_def dec_digits_snoc del: of_nat_add dec_value.simps)
next
  case False
  have "atouint32 (dec_digits x @ c # r) (int (length (dec_digits a))) = Some (of_nat (dec_value (dec_digits x)))"
    using False assms by (intro atouint32_digits dec_digits_isdigit) (auto simp: length_dec_digits)
  then show ?thesis using False dec_value_digits [of x] by (auto simp add: cut_def simp del: dec_value.simps)
qed

section \<open>Searching\<close>

lemma find_sub_char: "c \<notin> set xs \<Longrightarrow> find_sub [c] (xs @ c # ys) = Some (length xs)"
  by (induction xs) (auto simp: find_sub.simps)

lemma find_sub_none: "find_sub [c] xs = None \<longleftrightarrow> c \<notin> set xs"
  by (induction xs) (auto simp: find_sub.simps)

lemma find_from_char: "c \<notin> set xs \<Longrightarrow> find_from (pre @ xs @ c # ys) [c] (length pre) = Some (length pre + length xs)"
  by (simp add: find_from_def find_sub_char)

lemma find_int_char:
  "c \<notin> set xs \<Longrightarrow> int (length pre + length xs) < 2 ^ 31 \<Longrightarrow> find_int (pre @ xs @ c # ys) [c] (int (length pre)) = int (length pre + length xs)"
  using find_from_char [of c xs pre ys] by (simp add: find_int_def c_int_small)

definition dotted :: "nat \<Rightarrow> nat \<Rightarrow> nat \<Rightarrow> nat \<Rightarrow> byte list" where
  "dotted a b c d = dec_digits a @ 46 # dec_digits b @ 46 # dec_digits c @ 46 # dec_digits d"

lemma take_past: "length xs < n \<Longrightarrow> \<exists>r. take n (xs @ c # ys) = xs @ c # r"
  by (cases "n - length xs") auto

lemma ip2long_dotted:
  assumes "a < 256" "b < 256" "c < 256" "d < 256"
  shows "ip2long (dotted a b c d) = Some (push_bit 24 (of_nat a) + push_bit 16 (of_nat (cut a b)) + push_bit 8 (of_nat (cut a c)) + of_nat (cut a d))"
proof -
  let ?A = "dec_digits a" and ?B = "dec_digits b" and ?C = "dec_digits c" and ?D = "dec_digits d"
  let ?s = "dotted a b c d"
  have nd: "\<not> isdigit 46" "\<not> isdigit 0" by code_simp+
  have no: "46 \<notin> set (dec_digits x)" for x using dec_digits_isdigit [of x] nd(1) by auto
  have len: "length (dec_digits x) \<le> 3" if "x < 256" for x using length_dec_digits [of x] that by simp
  have l: "length ?A \<le> 3" "length ?B \<le> 3" "length ?C \<le> 3" using len assms by auto
  have p1: "find_int ?s [46] 0 = int (length ?A)"
    using find_int_char [OF no [of a], of "[]"] l by (simp add: dotted_def)
  have p2: "find_int ?s [46] (int (length ?A) + 1) = int (length ?A) + 1 + int (length ?B)"
    using find_int_char [OF no [of b], of "?A @ [46]"] l by (simp add: dotted_def add.commute)
  have p3: "find_int ?s [46] (int (length ?A) + 1 + int (length ?B) + 1) = int (length ?A) + 1 + int (length ?B) + 1 + int (length ?C)"
    using find_int_char [OF no [of c], of "?A @ 46 # ?B @ [46]"] l by (simp add: dotted_def add_ac)
  have nat: "nat (int (length ?A) + 1) = length (?A @ [46])" "nat (int (length ?A) + 1 + int (length ?B) + 1) = length (?A @ 46 # ?B @ [46])"
    "nat (int (length ?A) + 1 + int (length ?B) + 1 + int (length ?C) + 1) = length (?A @ 46 # ?B @ 46 # ?C @ [46])"
    by simp_all
  have s0: "substr_int ?s 0 (int (length ?A)) = Some ?A" by (simp add: substr_int_def str_substr_def dotted_def)
  have s1: "\<exists>r. substr_int ?s (int (length ?A) + 1) (int (length ?A) + 1 + int (length ?B)) = Some (?B @ 46 # r)"
    using take_past [of ?B "length ?A + 1 + length ?B" 46 "?C @ 46 # ?D"]
    by (simp add: substr_int_def str_substr_def nat(1) nat_add_distrib) (simp add: dotted_def)
  have s2: "\<exists>r. substr_int ?s (int (length ?A) + 1 + int (length ?B) + 1) (int (length ?A) + 1 + int (length ?B) + 1 + int (length ?C)) = Some (?C @ 46 # r)"
    using take_past [of ?C "length ?A + 1 + length ?B + 1 + length ?C" 46 "?D"]
    by (simp add: substr_int_def str_substr_def nat(2) nat_add_distrib) (simp add: dotted_def)
  have "drop (length X) (X @ ?D) = ?D" for X by simp
  from this [of "?A @ 46 # ?B @ 46 # ?C @ [46]"] have "drop (length (?A @ 46 # ?B @ 46 # ?C @ [46])) ?s = ?D" by (simp only: dotted_def append_assoc append_Cons append_Nil)
  moreover have "length (?A @ 46 # ?B @ 46 # ?C @ [46]) + length ?D = length ?s" by (simp add: dotted_def)
  ultimately have s3: "substr_int ?s (int (length ?A) + 1 + int (length ?B) + 1 + int (length ?C) + 1) (- 1) = Some ?D"
    unfolding substr_int_def str_substr_def nat(3) by (simp del: length_append)
  have ci: "c_int (int (length ?A)) = int (length ?A)" using l by (intro c_int_small) auto
  have o0: "atouint32 (?A @ [0]) (int (length ?A)) = Some (of_nat a)"
    using atouint32_octet [OF assms(1,1) nd(2), of "[]"] by (auto simp: cut_def split: if_splits)
  obtain r1 r2 where r: "substr_int ?s (int (length ?A) + 1) (int (length ?A) + 1 + int (length ?B)) = Some (?B @ 46 # r1)"
    "substr_int ?s (int (length ?A) + 1 + int (length ?B) + 1) (int (length ?A) + 1 + int (length ?B) + 1 + int (length ?C)) = Some (?C @ 46 # r2)"
    using s1 s2 by blast
  show ?thesis unfolding ip2long_def Let_def p1 p2 p3 s0 r s3 bind.bind_lunit ci
    using o0 atouint32_octet [OF assms(2,1) nd(1)] atouint32_octet [OF assms(3,1) nd(1)] atouint32_octet [OF assms(4,1) nd(2), of "[]"] by simp
qed

section \<open>Two digits\<close>

lemma hash_two_digits: "length (hash s) = 2 \<and> (\<forall>c \<in> set (hash s). isdigit c)"
proof -
  define n where "n = unat ((((foldl (\<lambda>r c. 31 * r + (scast c :: u32)) 1 s) AND 0x7FFFFFFF) + 0x80000000) mod 100)"
  have "n < 100" unfolding n_def by (simp add: unat_mod)
  moreover have "hash s = (if n < 10 then [48] else []) @ dec_digits n" by (simp add: hash_def n_def Let_def)
  moreover have "isdigit 48" by code_simp
  ultimately show ?thesis using length_dec_digits [of n] dec_digits_isdigit [of n] by auto
qed

section \<open>Filtering\<close>

lemma filter_loop_result:
  assumes "filter_loop s c = Some r"
  shows "c \<notin> set s \<and> r = s"
proof (rule filter_loop.raw_induct [where P = "\<lambda>s c r. c \<notin> set s \<and> r = s", OF _ assms])
  fix f :: "byte list \<Rightarrow> byte \<Rightarrow> byte list option" and s c r
  assume IH: "\<And>s c r. f s c = Some r \<Longrightarrow> c \<notin> set s \<and> r = s"
    and r: "(case find_from s [c] 0 of None \<Rightarrow> Some s | Some pos \<Rightarrow> f (take pos s @ [92] @ drop pos s) c) = Some r"
  show "c \<notin> set s \<and> r = s"
  proof (cases "find_from s [c] 0")
    case None
    then show ?thesis using r find_sub_none [of c s] by (simp add: find_from_def)
  next
    case (Some pos)
    then have "c \<in> set s" using find_sub_none [of c s] by (simp add: find_from_def)
    moreover have "c \<notin> set (take pos s @ [92] @ drop pos s)" using IH [of "take pos s @ [92] @ drop pos s" c r] r Some by simp
    ultimately show ?thesis using append_take_drop_id [of pos s] by (metis Un_iff set_append)
  qed
qed

lemma filter_loop_spec: "filter_loop s c = (if c \<in> set s then None else Some s)"
proof (cases "c \<in> set s")
  case True
  then show ?thesis using filter_loop_result [of s c] by (cases "filter_loop s c") auto
next
  case False
  then show ?thesis using find_sub_none [of c s] by (subst filter_loop.simps) (simp add: find_from_def)
qed

section \<open>Maps and strings\<close>

fun join :: "byte \<Rightarrow> byte list list \<Rightarrow> byte list" where
  "join c [] = []"
| "join c [p] = p"
| "join c (p # q # ps) = p @ c # join c (q # ps)"

definition item :: "byte list \<times> byte list \<Rightarrow> byte list" where
  "item kv = fst kv @ 61 # snd kv"

text \<open>A key or value without separators and without white space at its ends.\<close>

definition clean :: "byte list \<Rightarrow> bool" where
  "clean s \<longleftrightarrow> 38 \<notin> set s \<and> 61 \<notin> set s \<and> (s = [] \<or> \<not> isspace (hd s) \<and> \<not> isspace (last s))"

lemma join_foldl: "foldl (\<lambda>s (k, v). s @ k @ [61] @ v @ [38]) t (p # ps) = t @ join 38 (map item (p # ps)) @ [38]"
proof (induction ps arbitrary: t p)
  case (Cons q ps)
  then show ?case using Cons.IH [of "t @ item p @ [38]" q] by (cases p) (simp add: item_def)
qed (simp add: item_def split: prod.splits)

lemma map2string_join: "l \<noteq> [] \<Longrightarrow> map2string [] l = join 38 (map item (rev l))"
proof -
  assume "l \<noteq> []"
  then obtain p ps where "rev l = p # ps" by (cases "rev l") auto
  then show ?thesis using join_foldl [of "[]" p ps] by (simp add: map2string_def Let_def del: foldl.simps)
qed

lemma foldl_insert_map: "distinct (map fst l) \<Longrightarrow> \<forall>k \<in> fst ` set l. m k = None \<Longrightarrow> foldl (\<lambda>m (k, v). map_insert m k v) m l = m ++ map_of l"
proof (induction l arbitrary: m)
  case (Cons kv l)
  obtain k v where kv: "kv = (k, v)" by (cases kv)
  have "map_insert m k v = m(k \<mapsto> v)" using Cons.prems(2) kv by (simp add: map_insert_def)
  then have "foldl (\<lambda>m (k, v). map_insert m k v) m (kv # l) = m(k \<mapsto> v) ++ map_of l"
    using Cons.IH [of "m(k \<mapsto> v)"] Cons.prems kv by (force simp del: fun_upd_apply simp add: fun_upd_other)
  also have "\<dots> = m ++ map_of (kv # l)"
  proof
    fix x
    have "map_of l k = None" using Cons.prems(1) kv by (auto simp: map_of_eq_None_iff)
    then show "(m(k \<mapsto> v) ++ map_of l) x = (m ++ map_of (kv # l)) x" by (auto simp: kv map_add_def split: option.splits)
  qed
  finally show ?case .
qed simp

text \<open>What the code relies on: \<open>boost::split\<close> undoes \<open>join\<close>, and \<open>boost::trim\<close> leaves a string without outer white space as it is.\<close>

locale boost_strings =
  fixes split :: "byte list \<Rightarrow> byte list \<Rightarrow> byte list list" and trim :: "byte list \<Rightarrow> byte list"
  assumes split_join: "ps \<noteq> [] \<Longrightarrow> \<forall>p \<in> set ps. c \<notin> set p \<Longrightarrow> split (join c ps) [c] = ps"
    and trim_inner: "s = [] \<or> \<not> isspace (hd s) \<and> \<not> isspace (last s) \<Longrightarrow> trim s = s"
begin

lemma map_item_item: "clean k \<Longrightarrow> clean v \<Longrightarrow> map_item split trim m (item (k, v)) = map_insert m k v"
  using split_join [of "[k, v]" 61] trim_inner [of k] trim_inner [of v] by (simp add: map_item_def item_def clean_def)

lemma foldl_items:
  "\<forall>(k, v) \<in> set l. clean k \<and> clean v \<Longrightarrow> foldl (map_item split trim) m (map item l) = foldl (\<lambda>m (k, v). map_insert m k v) m l"
  by (induction l arbitrary: m) (auto simp: map_item_item)

lemma split_empty: "split [] [c] = [[]]"
  using split_join [of "[[]]" c] by simp

lemma string2map_join:
  assumes "l \<noteq> []" and "\<forall>(k, v) \<in> set l. clean k \<and> clean v"
  shows "string2map split trim (join 38 (map item l)) m = foldl (\<lambda>m (k, v). map_insert m k v) m l"
proof -
  have "\<forall>p \<in> set (map item l). 38 \<notin> set p" using assms(2) by (auto simp: item_def clean_def)
  then show ?thesis using split_join [of "map item l" 38] assms foldl_items [of l m] by (simp add: string2map_def)
qed

lemma map_roundtrip:
  assumes "distinct (map fst l)" and "\<forall>(k, v) \<in> set l. clean k \<and> clean v"
  shows "string2map split trim (map2string [] l) Map.empty = map_of l"
proof (cases "l = []")
  case True
  then show ?thesis by (simp add: string2map_def map2string_def split_empty map_item_def)
next
  case False
  have d: "distinct (map fst (rev l))" using assms(1) by (simp add: rev_map [symmetric])
  have "string2map split trim (map2string [] l) Map.empty = foldl (\<lambda>m (k, v). map_insert m k v) Map.empty (rev l)"
    using string2map_join [of "rev l"] False assms(2) by (simp add: map2string_join)
  also have "\<dots> = map_of (rev l)" using foldl_insert_map [OF d, of Map.empty] by simp
  also have "\<dots> = map_of l" using assms(1) d by (simp add: map_of_inject_set)
  finally show ?thesis .
qed

end

text \<open>Splitting and trimming as the functions of \<open>boost\<close> are documented.\<close>

fun split_any :: "byte list \<Rightarrow> byte list \<Rightarrow> byte list list" where
  "split_any [] cs = [[]]"
| "split_any (x # xs) cs = (if x \<in> set cs then [] # split_any xs cs else (case split_any xs cs of [] \<Rightarrow> [[x]] | p # ps \<Rightarrow> (x # p) # ps))"

definition trim_spaces :: "byte list \<Rightarrow> byte list" where
  "trim_spaces s = rev (dropWhile isspace (rev (dropWhile isspace s)))"

lemma split_any_plain: "c \<notin> set p \<Longrightarrow> split_any p [c] = [p]"
  by (induction p) auto

lemma split_any_cut: "c \<notin> set p \<Longrightarrow> split_any (p @ c # s) [c] = p # split_any s [c]"
  by (induction p) auto

interpretation boost: boost_strings split_any trim_spaces
proof
  show "split_any (join c ps) [c] = ps" if "ps \<noteq> []" "\<forall>p \<in> set ps. c \<notin> set p" for ps :: "byte list list" and c
    using that by (induction c ps rule: join.induct) (auto simp: split_any_plain split_any_cut)
  show "trim_spaces s = s" if "s = [] \<or> \<not> isspace (hd s) \<and> \<not> isspace (last s)" for s
  proof (cases "s = []")
    case False
    then have "dropWhile isspace s = s" "dropWhile isspace (rev s) = rev s"
      using that by (auto simp: dropWhile_eq_self_iff hd_rev)
    then show ?thesis by (simp add: trim_spaces_def)
  qed (simp add: trim_spaces_def)
qed

section \<open>Properties\<close>

text \<open>
  (C23) URL decoding, exactly: \<open>URLDecode\<close> of any string returns its decoded form, cut at the first zero byte, when every percent sign has two
  characters behind it; otherwise it reads behind the end of its copy.
\<close>

theorem url_decode_outcome:
  "URLDecode s = (if pct_ok (c_string s) then Some (c_string (pct_decode (c_string s))) else None)"
  by (rule URLDecode_spec)

text \<open>
  (C33) Round trip of URL encoding: for strings without zero bytes whose white space is all spaces, \<open>URLDecode\<close> undoes \<open>URLEncode\<close>, and
  the encoded string has only letters, digits, percent and plus signs.
\<close>

theorem url_roundtrip:
  assumes "\<forall>c \<in> set s. c \<noteq> 0 \<and> (isspace c \<longrightarrow> c = 32)"
  shows "URLDecode (URLEncode s) = Some s \<and> (\<forall>c \<in> set (URLEncode s). isalnum c \<or> c = 37 \<or> c = 43)"
proof -
  have d: "pct_ok (URLEncode s)" "pct_decode (URLEncode s) = s" using URLEncode_decode [of s] assms by auto
  have "0 \<notin> set (URLEncode s)" using URLEncode_chars [of s] isalnum_plain by force
  moreover have "0 \<notin> set s" using assms by auto
  ultimately show ?thesis using d URLEncode_chars [of s] by (simp add: URLDecode_spec c_string_id)
qed

theorem url_roundtrip_witness: "URLDecode (URLEncode [97, 32, 38, 229]) = Some [97, 32, 38, 229]"
proof -
  have "\<not> isspace 97" "\<not> isspace 38" "\<not> isspace 229" by code_simp+
  then show ?thesis using url_roundtrip [of "[97, 32, 38, 229]"] by simp
qed

text \<open>
  Hexadecimal text: \<open>str2hex\<close> of a whole buffer has two digits per byte and \<open>hexstr2byte\<close> gives the bytes back; text of odd length is refused
  and leaves the result as it was.
\<close>

theorem hex_roundtrip:
  "\<exists>t. str2hex bs (int (length bs)) = Some t \<and> length t = 2 * length bs \<and> hexstr2byte old t = Some (bs, True)
    \<and> (odd (length u) \<longrightarrow> hexstr2byte old u = Some (old, False))"
proof -
  let ?t = "concat (map print_02X bs)"
  have "str2hex bs (int (length bs)) = Some ?t" using str2hex_loop_spec [of 0 bs "[]"] by (simp add: str2hex_def)
  moreover have "hexstr2byte old ?t = Some (bs, True)" using hexstr_loop_spec [of "[]" bs "[0]" "[]"] by (simp add: hexstr2byte_def length_hex)
  ultimately show ?thesis by (auto simp: length_hex hexstr2byte_def odd_iff_mod_2_eq_one)
qed

theorem hex_roundtrip_witness: "\<exists>t. str2hex [171, 5] 2 = Some t \<and> hexstr2byte [] t = Some ([171, 5], True) \<and> hexstr2byte [7] [65] = Some ([7], False)"
  using hex_roundtrip [of "[171, 5]" "[]" "[65]"] hex_roundtrip [of "[]" "[7]" "[65]"] by auto

text \<open>
  (C40) The suffix of a user is always two decimal digits: \<open>user_postfix\<close> returns on every identifier, with two digits, which are its last two characters
  when these are digits.
\<close>

theorem user_postfix_two_digits:
  "\<exists>r. user_postfix s = Some r \<and> length r = 2 \<and> (\<forall>c \<in> set r. isdigit c)
    \<and> (\<forall>p a b. s = p @ [a, b] \<and> isdigit a \<and> isdigit b \<longrightarrow> r = [a, b])"
proof (cases "length s < 2")
  case True
  have "isdigit 48" by code_simp
  then show ?thesis using True by (auto simp: user_postfix_def)
next
  case False
  then have "length (rev s) \<ge> 2" by simp
  then obtain b a t where "rev s = b # a # t" by (cases "rev s"; cases "tl (rev s)") auto
  then obtain p where s: "s = p @ [a, b]" by (metis append.assoc append_Cons append_Nil rev.simps(2) rev_swap)
  have g: "aget s (int (length s) - 1) = Some b" "aget s (int (length s) - 2) = Some a"
    by (simp_all add: s aget_def nat_diff_distrib nth_append nat_add_distrib)
  have "str_substr s (length s - 2) 2 = Some [a, b]" by (simp add: s str_substr_def)
  then show ?thesis using g hash_two_digits [of s] False by (auto simp: user_postfix_def s Let_def)
qed

theorem user_postfix_two_digits_witness: "\<exists>r. user_postfix [117, 49, 50] = Some r \<and> r = [49, 50]"
proof -
  have "isdigit 49" "isdigit 50" by code_simp+
  then show ?thesis using user_postfix_two_digits [of "[117, 49, 50]"] by (metis append_Cons append_Nil)
qed

text \<open>
  What \<open>ip2long\<close> makes of a dotted address: the first octet is right, and the others are right unless the first has one digit, in which case
  an octet of three digits loses its last one: all four are read with the length of the first.
\<close>

theorem ip2long_outcome:
  assumes "a < 256" "b < 256" "c < 256" "d < 256"
  shows "ip2long (dotted a b c d) = Some (push_bit 24 (of_nat a) + push_bit 16 (of_nat (cut a b)) + push_bit 8 (of_nat (cut a c)) + of_nat (cut a d))"
  by (rule ip2long_dotted [OF assms])

theorem ip2long_outcome_witness:
  "ip2long (dotted 10 234 5 6) = Some 0x0AEA0506 \<and> ip2long (dotted 1 234 5 6) = Some 0x01170506"
  using ip2long_outcome [of 10 234 5 6] ip2long_outcome [of 1 234 5 6] by (simp add: cut_def push_bit_eq_mult)

text \<open>
  \<open>pre_process_shell_cmd\<close> returns on a command without parentheses, which it leaves as it is, and never returns on any other: it puts a
  backslash in front of the first parenthesis and finds the same one again.
\<close>

theorem shell_cmd_outcome:
  "pre_process_shell_cmd s = (if 40 \<in> set s \<or> 41 \<in> set s then None else Some (s, 0))"
  by (simp add: pre_process_shell_cmd_def filter_loop_spec)

text \<open>
  Round trip of maps: with \<open>boost::split\<close> and \<open>boost::trim\<close> as documented, \<open>string2map\<close> gives back the map that \<open>map2string\<close> wrote, for keys and values
  without separators and outer white space.
\<close>

theorem string_map_roundtrip:
  assumes split: "\<And>ps c. ps \<noteq> [] \<Longrightarrow> \<forall>p \<in> set ps. c \<notin> set p \<Longrightarrow> split (join c ps) [c] = ps"
    and trim: "\<And>s. s = [] \<or> \<not> isspace (hd s) \<and> \<not> isspace (last s) \<Longrightarrow> trim s = s"
    and "distinct (map fst l)" and "\<forall>(k, v) \<in> set l. clean k \<and> clean v"
  shows "string2map split trim (map2string [] l) Map.empty = map_of l"
proof -
  have "boost_strings split trim" using split trim by unfold_locales
  then show ?thesis using boost_strings.map_roundtrip assms(3,4) by blast
qed

theorem string_map_roundtrip_witness:
  "string2map split_any trim_spaces (map2string [] [([97], [49]), ([98], [])]) Map.empty = [[97] \<mapsto> [49], [98] \<mapsto> []]"
proof -
  have "clean [97]" "clean [49]" "clean [98]" "clean []" by code_simp+
  then show ?thesis using string_map_roundtrip [of split_any trim_spaces "[([97], [49]), ([98], [])]"] boost.split_join boost.trim_inner
    by (auto simp: fun_upd_twist)
qed

text \<open>\<open>json_array_append\<close> throws the list away: it is overwritten with a bracket before the element is added.\<close>

lemma json_array_append_loses:
  "old \<noteq> [] \<Longrightarrow> old \<noteq> [91, 93] \<Longrightarrow> json_array_append split old e = Some (if e \<in> set (split old [44, 91, 93, 32]) then [91] else [44] @ e @ [93])"
  by (simp add: json_array_append_def stringsplit_def str_substr_def)

text \<open>White space other than the space does not survive: a tab comes back as a space.\<close>

lemma url_tab_lost: "URLDecode (URLEncode [9]) = Some [32]"
  by code_simp

end
