(* ===== verification/HttpRequest.thy ===== *)
theory HttpRequest
  imports SdUtil
begin

text \<open>
  \<open>template_http/src/http/HttpRequestPacket.cpp\<close> and \<open>.h\<close>: the parser of HTTP requests.  Its \<open>unescape_url\<close> and \<open>x2c\<close> are those of
  \<open>SDUtility.cpp\<close>.  \<open>boost::split\<close>, \<open>boost::trim\<close>, \<open>iconv\<close>, the peer's address and the configuration are parameters.  A \<open>std::string\<close> has a zero byte behind
  its last character that \<open>operator[]\<close> may read; other reads outside it fault.
\<close>

section \<open>Definitions: text\<close>

record http_packet =
  m_str_GetRequest :: "byte list"
  m_str_cmdpath :: "byte list"
  mapParam :: smap
  mapCookie :: smap
  mapHead :: smap
  m_clientfd :: int
  m_client_tag :: u64
  m_str_clientip :: "byte list"

definition HttpRequestPacket :: http_packet where
  "HttpRequestPacket = \<lparr>m_str_GetRequest = [], m_str_cmdpath = [], mapParam = Map.empty, mapCookie = Map.empty, mapHead = Map.empty,
     m_clientfd = 0, m_client_tag = 0, m_str_clientip = []\<rparr>"

abbreviation crlf :: "byte list" where "crlf \<equiv> [13, 10]"

definition to_upper :: "byte \<Rightarrow> byte" where
  "to_upper c = (if 97 \<le> c \<and> c \<le> 122 then c - 32 else c)"

definition UpperCase :: "byte list \<Rightarrow> byte list" where
  "UpperCase sText = map to_upper sText"

definition Unescape_url :: "byte list \<Rightarrow> byte list option" where
  "Unescape_url url = do { u \<leftarrow> unescape_url (c_string (url @ [0]) @ [0]); Some (c_string u) }"

definition blank :: "byte \<Rightarrow> bool" where
  "blank c \<longleftrightarrow> c = 32 \<or> c = 9"

partial_function (option) trim_left_loop :: "byte list \<Rightarrow> int \<Rightarrow> int option" where
  "trim_left_loop str pos = do {
     c \<leftarrow> aget (str @ [0]) pos;
     if blank c then trim_left_loop str (pos + 1) else Some pos
   }"

definition TrimLeft :: "byte list \<Rightarrow> byte list option" where
  "TrimLeft str = do { pos \<leftarrow> trim_left_loop str 0; str_rest str (nat pos) }"

partial_function (option) trim_right_loop :: "byte list \<Rightarrow> int \<Rightarrow> int option" where
  "trim_right_loop str pos = do {
     c \<leftarrow> aget (str @ [0]) pos;
     if blank c then trim_right_loop str (pos - 1) else Some pos
   }"

definition TrimRight :: "byte list \<Rightarrow> byte list option" where
  "TrimRight str = do { pos \<leftarrow> trim_right_loop str (int (length str) - 1); str_substr str 0 (nat (pos + 1)) }"

definition Trim :: "byte list \<Rightarrow> byte list option" where
  "Trim str = do { str \<leftarrow> TrimLeft str; TrimRight str }"

declare trim_left_loop.simps [code] trim_right_loop.simps [code]

text \<open>
  \<open>iconv inb room\<close> is one call: whether it returns \<open>-1\<close>, how many bytes it takes, the bytes it writes, and whether \<open>errno\<close> is
  \<open>E2BIG\<close>.  The test of the result of \<open>iconv_open\<close> compares a pointer with zero and never holds.
\<close>

type_synonym iconv_fun = "byte list \<Rightarrow> nat \<Rightarrow> bool \<times> nat \<times> byte list \<times> bool"

lemma drop_Cons_shorter: "drop k xs = y # ys \<Longrightarrow> length ys < length xs"
  using length_drop [of k xs] by simp

function convert_loop :: "iconv_fun \<Rightarrow> byte list \<Rightarrow> nat \<Rightarrow> byte list \<Rightarrow> byte list option" where
  "convert_loop iconv inb room out =
     (case iconv inb room of (failed, used, o', big) \<Rightarrow>
        if failed then
          if big then Some (out @ o')
          else (case drop used inb of [] \<Rightarrow> None | _ # rest \<Rightarrow> convert_loop iconv rest (room - length o') (out @ o'))
        else Some (out @ o'))"
  by pat_completeness auto
termination by (relation "measure (\<lambda>(f, inb, room, out). length inb)") (simp_all add: drop_Cons_shorter)

declare convert_loop.simps [simp del]

text \<open>The whole output array, of which the bytes that are not written are zero.\<close>

definition CodeConvert2 :: "iconv_fun \<Rightarrow> byte list \<Rightarrow> nat \<Rightarrow> byte list option" where
  "CodeConvert2 iconv inb outlen = do {
     out \<leftarrow> convert_loop iconv inb outlen [];
     Some (out @ replicate (outlen - length out) 0)
   }"

text \<open>What \<open>snprintf\<close> does not write of the input buffer is \<open>junk\<close>.\<close>

definition UTF8ToGBK :: "iconv_fun \<Rightarrow> (nat \<Rightarrow> byte) \<Rightarrow> byte list \<Rightarrow> byte list option" where
  "UTF8ToGBK iconv junk sStr = do {
     let s = c_string sStr;
     out \<leftarrow> CodeConvert2 iconv (s @ [0] @ map junk [length s + 1..<length sStr + 1]) (3 * length sStr + 1);
     if 0 \<in> set out then Some (c_string out) else None
   }"

section \<open>Definitions: parameters, cookies and headers\<close>

text \<open>\<open>name=value\<close>, entered in a map; anything else is skipped.\<close>

definition enter_pair :: "smap \<Rightarrow> byte list \<Rightarrow> smap option" where
  "enter_pair m sParam = (case find_from sParam [61] 0 of None \<Rightarrow> Some m
     | Some valuePos \<Rightarrow> do {
         sValue \<leftarrow> str_rest sParam (valuePos + 1);
         sValue \<leftarrow> Unescape_url sValue;
         name \<leftarrow> str_substr sParam 0 valuePos;
         Some (m(name \<mapsto> sValue))
       })"

partial_function (option) pairs_loop :: "byte \<Rightarrow> byte list \<Rightarrow> nat \<Rightarrow> smap \<Rightarrow> smap option" where
  "pairs_loop sep s paramStartPos m = (case find_from s [sep] paramStartPos of
       None \<Rightarrow> do {
         sParam \<leftarrow> str_rest s paramStartPos;
         enter_pair m sParam
       }
     | Some paramEndPos \<Rightarrow> do {
         sParam \<leftarrow> str_substr s paramStartPos (paramEndPos - paramStartPos);
         m \<leftarrow> enter_pair m sParam;
         pairs_loop sep s (paramEndPos + 1) m
       })"

definition ParseCookie :: "http_packet \<Rightarrow> byte list \<Rightarrow> http_packet option" where
  "ParseCookie p sCookie =
     (if sCookie = [] then Some p
      else do {
        m \<leftarrow> pairs_loop 59 (filter (\<lambda>c. c \<noteq> 32) sCookie) 0 (mapCookie p);
        Some (p\<lparr>mapCookie := m\<rparr>)
      })"

definition ParseParam :: "iconv_fun \<Rightarrow> (nat \<Rightarrow> byte) \<Rightarrow> http_packet \<Rightarrow> byte list \<Rightarrow> http_packet option" where
  "ParseParam iconv junk p sHttpRequest = do {
     let p = p\<lparr>mapParam := Map.empty\<rparr>;
     (case find_from sHttpRequest [63] 0 of
        None \<Rightarrow> Some (p\<lparr>m_str_cmdpath := sHttpRequest\<rparr>)
      | Some cmdPos \<Rightarrow> do {
          path \<leftarrow> str_substr sHttpRequest 0 cmdPos;
          path \<leftarrow> Unescape_url path;
          path \<leftarrow> UTF8ToGBK iconv junk path;
          m \<leftarrow> pairs_loop 38 sHttpRequest (cmdPos + 1) (mapParam p);
          Some (p\<lparr>m_str_cmdpath := path, mapParam := m\<rparr>)
        })
   }"

text \<open>One line of the head.\<close>

definition head_line :: "smap \<Rightarrow> byte list \<Rightarrow> smap option" where
  "head_line m sLine = (case find_from sLine [58] 0 of None \<Rightarrow> Some m
     | Some diffPos \<Rightarrow> do {
         sDomain \<leftarrow> str_substr sLine 0 diffPos;
         sValue \<leftarrow> str_rest sLine (diffPos + 1);
         sDomain \<leftarrow> Trim sDomain;
         Some (m(UpperCase sDomain \<mapsto> sValue))
       })"

partial_function (option) head_loop :: "byte list \<Rightarrow> nat \<Rightarrow> smap \<Rightarrow> smap option" where
  "head_loop sHttpHead lineBegin m = (case find_from sHttpHead crlf lineBegin of None \<Rightarrow> Some m
     | Some lineEnd \<Rightarrow> do {
         sLine \<leftarrow> str_substr sHttpHead lineBegin (lineEnd - lineBegin);
         m \<leftarrow> head_line m sLine;
         head_loop sHttpHead (lineEnd + 2) m
       })"

declare pairs_loop.simps [code] head_loop.simps [code]

definition ParseHead :: "http_packet \<Rightarrow> byte list \<Rightarrow> http_packet option" where
  "ParseHead p sHttpHead = do { m \<leftarrow> head_loop sHttpHead 0 (mapHead p); Some (p\<lparr>mapHead := m\<rparr>) }"

definition GetLine :: "http_packet \<Rightarrow> byte list \<Rightarrow> byte list" where
  "GetLine p sWhichDomain = (case mapHead p (UpperCase sWhichDomain) of None \<Rightarrow> [] | Some v \<Rightarrow> v)"

section \<open>Definitions: requests\<close>

text \<open>The part that \<open>decode_get\<close> and \<open>decode_post\<close> share, up to \<open>ParseHead\<close>: the packet and \<open>-1\<close> for an early return.\<close>

definition decode_line :: "iconv_fun \<Rightarrow> (nat \<Rightarrow> byte) \<Rightarrow> http_packet \<Rightarrow> byte list \<Rightarrow> (http_packet \<times> int) option" where
  "decode_line iconv junk p sHttpHead = (case find_from sHttpHead crlf 0 of None \<Rightarrow> Some (p, - 1)
     | Some requestPos \<Rightarrow> do {
         sRequestLine \<leftarrow> str_substr sHttpHead 0 requestPos;
         (case find_from sRequestLine [47] 0 of None \<Rightarrow> Some (p, - 1)
          | Some pos1 \<Rightarrow> (case find_from sRequestLine [32] pos1 of None \<Rightarrow> Some (p, - 1)
             | Some pos2 \<Rightarrow> do {
                 url \<leftarrow> str_substr sRequestLine pos1 (pos2 - pos1);
                 p \<leftarrow> ParseParam iconv junk (p\<lparr>m_str_GetRequest := url\<rparr>) url;
                 p \<leftarrow> ParseHead p sHttpHead;
                 Some (p, 0)
               }))
       })"

abbreviation cookie_name :: "byte list" where "cookie_name \<equiv> [67, 79, 79, 75, 73, 69]"

abbreviation length_name :: "byte list" where
  "length_name \<equiv> [67, 79, 78, 84, 69, 78, 84, 45, 76, 69, 78, 71, 84, 72]"

definition decode_get :: "iconv_fun \<Rightarrow> (nat \<Rightarrow> byte) \<Rightarrow> http_packet \<Rightarrow> byte list \<Rightarrow> (http_packet \<times> int) option" where
  "decode_get iconv junk p sHttpHead = do {
     (p, ret) \<leftarrow> decode_line iconv junk p sHttpHead;
     if ret \<noteq> 0 then Some (p, ret)
     else do {
       p \<leftarrow> ParseCookie p (GetLine p cookie_name);
       Some (p, 0)
     }
   }"

text \<open>\<open>size() < intlength\<close> compares as \<open>size_t\<close>: a negative length is huge.\<close>

definition decode_post :: "(byte list \<Rightarrow> byte list \<Rightarrow> byte list list) \<Rightarrow> (byte list \<Rightarrow> byte list) \<Rightarrow> iconv_fun \<Rightarrow> (nat \<Rightarrow> byte) \<Rightarrow>
    http_packet \<Rightarrow> byte list \<Rightarrow> (http_packet \<times> int) option" where
  "decode_post split trim iconv junk p sHttpHead = do {
     (p, ret) \<leftarrow> decode_line iconv junk p sHttpHead;
     if ret \<noteq> 0 then Some (p, ret)
     else (case mapHead p length_name of None \<Rightarrow> Some (p, - 1)
       | Some str_length \<Rightarrow> do {
           n \<leftarrow> atouint32_string (trim str_length);
           let intlength = sint n;
           if intlength < 0 \<or> int (length sHttpHead) < intlength then Some (p, - 1)
           else do {
             str_params \<leftarrow> str_substr sHttpHead (length sHttpHead - nat intlength) (nat intlength);
             Some (p\<lparr>mapParam := string2map split trim str_params (mapParam p)\<rparr>, 0)
           }
         })
   }"

definition Decode :: "(byte list \<Rightarrow> byte list \<Rightarrow> byte list list) \<Rightarrow> (byte list \<Rightarrow> byte list) \<Rightarrow> iconv_fun \<Rightarrow> (nat \<Rightarrow> byte) \<Rightarrow>
    http_packet \<Rightarrow> byte list \<Rightarrow> (http_packet \<times> int) option" where
  "Decode split trim iconv junk p sHttpHead = (case find_from sHttpHead crlf 0 of None \<Rightarrow> Some (p, - 2)
     | Some requestPos \<Rightarrow> do {
         sRequestLine \<leftarrow> str_substr sHttpHead 0 requestPos;
         if find_from sRequestLine [71, 69, 84] 0 \<noteq> None then decode_get iconv junk p sHttpHead
         else if find_from sRequestLine [80, 79, 83, 84] 0 \<noteq> None then decode_post split trim iconv junk p sHttpHead
         else Some (p, - 1)
       })"

definition get_request_url :: "http_packet \<Rightarrow> byte list" where
  "get_request_url p = m_str_GetRequest p"

text \<open>\<open>peer\<close> is the text that \<open>getpeername\<close> and \<open>inet_ntop\<close> give for the descriptor, \<^const>\<open>None\<close> when one of them fails.\<close>

definition generate_client_ip :: "(byte list \<Rightarrow> byte list) \<Rightarrow> byte list option \<Rightarrow> http_packet \<Rightarrow> http_packet" where
  "generate_client_ip trim peer p = (case mapHead p [88, 45, 82, 69, 65, 76, 45, 73, 80] of
       Some v \<Rightarrow> p\<lparr>m_str_clientip := trim v\<rparr>
     | None \<Rightarrow>
         if m_str_clientip p = [] then
           (case peer of None \<Rightarrow> p\<lparr>m_str_clientip := [49, 50, 55, 46, 48, 46, 48, 46, 49]\<rparr> | Some ip \<Rightarrow> p\<lparr>m_str_clientip := ip\<rparr>)
         else p)"

definition get_client_ip :: "http_packet \<Rightarrow> byte list" where
  "get_client_ip p = m_str_clientip p"

text \<open>\<open>hosts i\<close> is the configured \<open>referer_host_i\<close>.\<close>

fun referer_loop :: "(nat \<Rightarrow> byte list) \<Rightarrow> byte list \<Rightarrow> nat \<Rightarrow> nat \<Rightarrow> int" where
  "referer_loop hosts referer i 0 = 1"
| "referer_loop hosts referer i (Suc k) = (if find_from referer (hosts i) 0 \<noteq> None then 0 else referer_loop hosts referer (Suc i) k)"

definition checkReferer :: "int \<Rightarrow> (nat \<Rightarrow> byte list) \<Rightarrow> byte list \<Rightarrow> int" where
  "checkReferer hostNo hosts referer = (if hostNo = 0 then 0 else referer_loop hosts referer 0 (nat hostNo))"

section \<open>Trimming and unescaping\<close>

lemma Trim_inner:
  assumes "s \<noteq> []" and "\<not> blank (hd s)" and "\<not> blank (last s)"
  shows "Trim s = Some s"
proof -
  have "aget (s @ [0]) 0 = Some (hd s)" using assms(1) by (cases s) (simp_all add: aget_def)
  then have "TrimLeft s = Some s" using assms(2) by (simp add: TrimLeft_def trim_left_loop.simps [of s 0] str_substr_def)
  moreover have "aget (s @ [0]) (int (length s) - 1) = Some (last s)"
    using assms(1) by (simp add: aget_def nth_append last_conv_nth nat_diff_distrib Suc_leI)
  then have "TrimRight s = Some s" using assms(1,3)
    by (simp add: TrimRight_def trim_right_loop.simps [of s "int (length s) - 1"] str_substr_def)
  ultimately show ?thesis by (simp add: Trim_def)
qed

text \<open>A name of blanks makes \<open>Trim\<close> read in front of the string.\<close>

lemma trim_left_blanks: "\<forall>c \<in> set s. blank c \<Longrightarrow> k \<le> length s \<Longrightarrow> trim_left_loop s (int k) = Some (int (length s))"
proof (induction "length s - k" arbitrary: k)
  case 0
  then have "aget (s @ [0]) (int k) = Some 0" by (simp add: aget_def nth_append)
  moreover have "\<not> blank 0" by (simp add: blank_def)
  ultimately show ?case using 0 by (subst trim_left_loop.simps) simp
next
  case (Suc n)
  then have "aget (s @ [0]) (int k) = Some (s ! k)" "blank (s ! k)" by (auto simp: aget_def nth_append)
  moreover have "trim_left_loop s (int k + 1) = Some (int (length s))" using Suc.hyps(1) [of "Suc k"] Suc.hyps(2) Suc.prems by (simp add: add.commute)
  ultimately show ?case by (subst trim_left_loop.simps) simp
qed

lemma Trim_blanks: "\<forall>c \<in> set s. blank c \<Longrightarrow> Trim s = None"
  using trim_left_blanks [of s 0] by (simp add: Trim_def TrimLeft_def TrimRight_def str_substr_def trim_right_loop.simps [of "[]"] aget_def)

lemma Unescape_url_URLDecode: "Unescape_url s = URLDecode s"
  by (simp add: Unescape_url_def URLDecode_def)

lemma pct_plain: "37 \<notin> set s \<Longrightarrow> 43 \<notin> set s \<Longrightarrow> pct_ok s \<and> pct_decode s = s"
  by (induction s) auto

lemma Unescape_plain: "37 \<notin> set s \<Longrightarrow> 43 \<notin> set s \<Longrightarrow> 0 \<notin> set s \<Longrightarrow> Unescape_url s = Some s"
  using pct_plain [of s] by (simp add: Unescape_url_URLDecode URLDecode_spec c_string_id)

definition ok_value :: "byte list \<Rightarrow> bool" where
  "ok_value v \<longleftrightarrow> (\<forall>c \<in> set v. c \<noteq> 0 \<and> (isspace c \<longrightarrow> c = 32))"

lemma Unescape_encoded: "ok_value v \<Longrightarrow> Unescape_url (URLEncode v) = Some v"
proof -
  assume v: "ok_value v"
  have "0 \<notin> set (URLEncode v)" using URLEncode_chars [of v] isalnum_plain by force
  moreover have "0 \<notin> set v" using v by (auto simp: ok_value_def)
  moreover have "pct_ok (URLEncode v)" "pct_decode (URLEncode v) = v" using URLEncode_decode [of v] v by (auto simp: ok_value_def)
  ultimately show ?thesis by (simp add: Unescape_url_URLDecode URLDecode_spec c_string_id)
qed

text \<open>What is used of \<open>iconv\<close>: ASCII text that fits is copied.\<close>

definition ascii_iconv :: "iconv_fun \<Rightarrow> bool" where
  "ascii_iconv iconv \<longleftrightarrow> (\<forall>inb room. (\<forall>c \<in> set inb. c < 128) \<and> length inb \<le> room \<longrightarrow> iconv inb room = (False, length inb, inb, False))"

lemma UTF8ToGBK_ascii:
  assumes "ascii_iconv iconv" and "\<forall>c \<in> set s. c < 128 \<and> c \<noteq> 0"
  shows "UTF8ToGBK iconv junk s = Some s"
proof -
  have z: "0 \<notin> set s" using assms(2) by auto
  have "iconv (s @ [0]) (3 * length s + 1) = (False, length (s @ [0]), s @ [0], False)"
    using assms by (intro assms(1) [unfolded ascii_iconv_def, rule_format]) auto
  then have "convert_loop iconv (s @ [0]) (3 * length s + 1) [] = Some (s @ [0])" by (subst convert_loop.simps) simp
  then show ?thesis using c_string_cut [OF z] by (simp add: UTF8ToGBK_def CodeConvert2_def c_string_id [OF z])
qed

section \<open>Pairs and lines\<close>

lemma enter_pair_ok: "61 \<notin> set k \<Longrightarrow> ok_value v \<Longrightarrow> enter_pair m (k @ 61 # URLEncode v) = Some (m(k \<mapsto> v))"
  using find_from_char [of 61 k "[]" "URLEncode v"] by (simp add: enter_pair_def str_substr_def Unescape_encoded)

lemma enter_pair_empty: "enter_pair m [] = Some m"
  by (simp add: enter_pair_def find_from_def find_sub.simps)

lemma find_from_none: "c \<notin> set xs \<Longrightarrow> find_from (pre @ xs) [c] (length pre) = None"
  using find_sub_none [of c xs] by (simp add: find_from_def)

lemma pairs_loop_join:
  "\<forall>p \<in> set ps. sep \<notin> set p \<Longrightarrow> ps \<noteq> [] \<Longrightarrow> pairs_loop sep (pre @ join sep ps) (length pre) m = adds enter_pair m ps"
proof (induction sep ps arbitrary: pre m rule: join.induct)
  case (2 c p)
  then have "find_from (pre @ p) [c] (length pre) = None" using find_from_none by simp
  then show ?case by (subst pairs_loop.simps) (simp add: str_substr_def)
next
  case (3 c p q ps)
  have f: "find_from (pre @ p @ c # join c (q # ps)) [c] (length pre) = Some (length pre + length p)"
    using 3(2) by (intro find_from_char) simp
  have "pairs_loop c ((pre @ p @ [c]) @ join c (q # ps)) (length (pre @ p @ [c])) m' = adds enter_pair m' (q # ps)" for m'
    using 3 by (intro 3(1)) auto
  then have "pairs_loop c (pre @ p @ c # join c (q # ps)) (length pre + length p + 1) = (\<lambda>m'. adds enter_pair m' (q # ps))"
    by (intro ext) (simp del: adds.simps)
  then show ?case using f by (subst pairs_loop.simps) (simp add: str_substr_def)
qed simp

lemma find_sub_crlf: "13 \<notin> set l \<Longrightarrow> find_sub crlf (l @ 13 # 10 # r) = Some (length l)"
  by (induction l) (auto simp: find_sub.simps)

lemma find_sub_no_cr: "13 \<notin> set s \<Longrightarrow> find_sub crlf s = None"
  by (induction s) (auto simp: find_sub.simps)

lemma head_loop_lines:
  "\<forall>l \<in> set ls. 13 \<notin> set l \<Longrightarrow> 13 \<notin> set rest \<Longrightarrow>
   head_loop (pre @ concat (map (\<lambda>l. l @ crlf) ls) @ rest) (length pre) m = adds head_line m ls"
proof (induction ls arbitrary: pre m)
  case Nil
  then show ?case by (subst head_loop.simps) (simp add: find_from_def find_sub_no_cr)
next
  case (Cons l ls)
  let ?r = "concat (map (\<lambda>l. l @ crlf) ls) @ rest"
  have f: "find_from (pre @ l @ 13 # 10 # ?r) crlf (length pre) = Some (length pre + length l)"
    using Cons.prems(1) find_sub_crlf [of l ?r] by (simp add: find_from_def)
  have "head_loop ((pre @ l @ crlf) @ ?r) (length (pre @ l @ crlf)) m' = adds head_line m' ls" for m'
    using Cons.prems by (intro Cons.IH) auto
  then have "head_loop (pre @ l @ 13 # 10 # ?r) (length pre + length l + 2) = (\<lambda>m'. adds head_line m' ls)" by (intro ext) simp
  then show ?case using f by (subst head_loop.simps) (simp add: str_substr_def)
qed

lemma head_line_ok: "58 \<notin> set n \<Longrightarrow> n \<noteq> [] \<Longrightarrow> \<not> blank (hd n) \<Longrightarrow> \<not> blank (last n) \<Longrightarrow> head_line m (n @ 58 # v) = Some (m(UpperCase n \<mapsto> v))"
  using find_from_char [of 58 n "[]" v] by (simp add: head_line_def str_substr_def Trim_inner)

lemma head_line_plain: "58 \<notin> set l \<Longrightarrow> head_line m l = Some m"
  using find_from_none [of 58 l "[]"] by (simp add: head_line_def)

lemma adds_upd:
  "(\<And>m x. x \<in> set xs \<Longrightarrow> f m x = Some (m(key x \<mapsto> val x))) \<Longrightarrow> adds f m xs = Some (m ++ map_of (rev (map (\<lambda>x. (key x, val x)) xs)))"
  by (induction xs arbitrary: m) (auto simp: map_add_def fun_eq_iff split: option.splits)

section \<open>Requests\<close>

definition query :: "(byte list \<times> byte list) list \<Rightarrow> byte list" where
  "query ps = join 38 (map (\<lambda>(k, v). k @ 61 # URLEncode v) ps)"

text \<open>A request: the method and a space, the path, the parameters, the protocol, the header lines, an empty line, the body.\<close>

definition request :: "byte list \<Rightarrow> byte list \<Rightarrow> (byte list \<times> byte list) list \<Rightarrow> (byte list \<times> byte list) list \<Rightarrow> byte list \<Rightarrow> byte list" where
  "request meth path ps hs body = meth @ path @ [63] @ query ps @ [32, 72, 84, 84, 80, 47, 49, 46, 49] @ crlf
     @ concat (map (\<lambda>(n, v). n @ 58 # v @ crlf) hs) @ crlf @ body"

definition ok_path :: "byte list \<Rightarrow> bool" where
  "ok_path path \<longleftrightarrow> path \<noteq> [] \<and> hd path = 47 \<and> (\<forall>c \<in> set path. c < 128 \<and> c \<notin> {0, 13, 32, 37, 43, 58, 63})"

fun ok_pair :: "byte list \<times> byte list \<Rightarrow> bool" where
  "ok_pair (k, v) \<longleftrightarrow> 13 \<notin> set k \<and> 32 \<notin> set k \<and> 38 \<notin> set k \<and> 58 \<notin> set k \<and> 61 \<notin> set k \<and> ok_value v"

fun ok_head :: "byte list \<times> byte list \<Rightarrow> bool" where
  "ok_head (n, v) \<longleftrightarrow> n \<noteq> [] \<and> \<not> blank (hd n) \<and> \<not> blank (last n) \<and> 13 \<notin> set n \<and> 58 \<notin> set n \<and> 13 \<notin> set v"

definition heads_map :: "(byte list \<times> byte list) list \<Rightarrow> smap" where
  "heads_map hs = map_of (rev (map (\<lambda>(n, v). (UpperCase n, v)) hs))"

lemma str_substr_prefix: "str_substr (xs @ ys) 0 (length xs) = Some xs"
  by (simp add: str_substr_def)

lemma set_join: "set (join c ps) \<subseteq> insert c (\<Union> (set ` set ps))"
  by (induction c ps rule: join.induct) auto

lemma URLEncode_avoids: "c \<in> set (URLEncode v) \<Longrightarrow> c \<notin> {13, 32, 38, 58, 61, 63}"
proof -
  assume "c \<in> set (URLEncode v)"
  then have "isalnum c \<or> c = 37 \<or> c = 43" using URLEncode_chars by blast
  moreover have "\<not> isalnum 13" "\<not> isalnum 32" "\<not> isalnum 38" "\<not> isalnum 58" "\<not> isalnum 61" "\<not> isalnum 63" by code_simp+
  ultimately show ?thesis by auto
qed

lemma query_avoids:
  assumes "\<forall>p \<in> set ps. ok_pair p" and "c \<in> {13, 32, 58}"
  shows "c \<notin> set (query ps)"
proof
  assume "c \<in> set (query ps)"
  moreover have "c \<noteq> 38" "c \<noteq> 61" using assms(2) by auto
  ultimately obtain k v where "(k, v) \<in> set ps" "c \<in> set k \<or> c \<in> set (URLEncode v)"
    using set_join [of 38 "map (\<lambda>(k, v). k @ 61 # URLEncode v) ps"] unfolding query_def by auto
  then show False using assms URLEncode_avoids [of c v] by fastforce
qed

lemma adds_append: "adds f m (xs @ ys) = do { m \<leftarrow> adds f m xs; adds f m ys }"
  by (induction xs arbitrary: m) auto

lemma adds_map: "adds f m (map g xs) = adds (\<lambda>m x. f m (g x)) m xs"
  by (induction xs arbitrary: m) auto

lemma ParseParam_ok:
  assumes "ascii_iconv iconv" and "ok_path path" and "\<forall>p \<in> set ps. ok_pair p"
  shows "ParseParam iconv junk p (path @ [63] @ query ps) = Some (p\<lparr>m_str_cmdpath := path, mapParam := map_of (rev ps)\<rparr>)"
proof -
  let ?s = "path @ [63] @ query ps" and ?items = "map (\<lambda>(k, v). k @ 61 # URLEncode v) ps"
  have q: "find_from ?s [63] 0 = Some (length path)"
    using find_from_char [of 63 path "[]" "query ps"] assms(2) by (auto simp: ok_path_def)
  have u: "Unescape_url path = Some path" using assms(2) by (intro Unescape_plain) (auto simp: ok_path_def)
  have g: "UTF8ToGBK iconv junk path = Some path" using assms(1,2) by (intro UTF8ToGBK_ascii) (auto simp: ok_path_def)
  have "pairs_loop 38 ((path @ [63]) @ query ps) (length (path @ [63])) Map.empty = Some (map_of (rev ps))"
  proof (cases "ps = []")
    case True
    have "pairs_loop 38 ((path @ [63]) @ join 38 [[]]) (length (path @ [63])) Map.empty = adds enter_pair Map.empty [[]]"
      by (rule pairs_loop_join) auto
    then show ?thesis using True by (simp add: query_def enter_pair_empty)
  next
    case False
    have "38 \<notin> set i" if "i \<in> set ?items" for i using that assms(3) URLEncode_avoids [of 38] by fastforce
    then have "pairs_loop 38 ((path @ [63]) @ query ps) (length (path @ [63])) Map.empty = adds enter_pair Map.empty ?items"
      unfolding query_def using False by (intro pairs_loop_join) auto
    moreover have "adds (\<lambda>m x. enter_pair m (case x of (k, v) \<Rightarrow> k @ 61 # URLEncode v)) Map.empty ps
        = Some (Map.empty ++ map_of (rev (map (\<lambda>x. (fst x, snd x)) ps)))"
      using assms(3) by (intro adds_upd) (auto intro!: enter_pair_ok split: prod.splits)
    ultimately show ?thesis by (simp add: adds_map)
  qed
  then show ?thesis using q u g by (simp add: ParseParam_def str_substr_def)
qed

lemma request_lines:
  "request meth path ps hs body
     = concat (map (\<lambda>l. l @ crlf) ((meth @ path @ [63] @ query ps @ [32, 72, 84, 84, 80, 47, 49, 46, 49]) # map (\<lambda>(n, v). n @ 58 # v) hs @ [[]])) @ body"
proof -
  have "concat (map (\<lambda>(n, v). n @ 58 # v @ crlf) hs) = concat (map (\<lambda>l. l @ crlf) (map (\<lambda>(n, v). n @ 58 # v) hs))" by (induction hs) auto
  then show ?thesis by (simp add: request_def)
qed

lemma head_loop_request:
  assumes "ok_path path" and "\<forall>p \<in> set ps. ok_pair p" and "\<forall>(n, v) \<in> set hs. 13 \<notin> set n \<and> 13 \<notin> set v" and "13 \<notin> set body"
    and "13 \<notin> set meth" "58 \<notin> set meth"
  shows "head_loop (request meth path ps hs body) 0 m = adds (\<lambda>m (n, v). head_line m (n @ 58 # v)) m hs"
proof -
  let ?l0 = "meth @ path @ [63] @ query ps @ [32, 72, 84, 84, 80, 47, 49, 46, 49]" and ?hs = "map (\<lambda>(n, v). n @ 58 # v) hs"
  have avoid: "13 \<notin> set ?l0" "58 \<notin> set ?l0"
    using assms query_avoids [OF assms(2), of 13] query_avoids [OF assms(2), of 58] by (auto simp: ok_path_def)
  have "\<forall>l \<in> set (?l0 # ?hs @ [[]]). 13 \<notin> set l" using avoid(1) assms(3) by auto
  then have "head_loop ([] @ request meth path ps hs body) (length ([] :: byte list)) m = adds head_line m (?l0 # ?hs @ [[]])"
    unfolding request_lines using assms(4) by (intro head_loop_lines)
  moreover have "head_line m [] = Some m" for m by (rule head_line_plain) simp
  ultimately show ?thesis using avoid(2)
    by (simp add: head_line_plain adds_append adds_map case_prod_unfold)
qed

lemma ParseHead_ok:
  assumes "ok_path path" and "\<forall>p \<in> set ps. ok_pair p" and "\<forall>h \<in> set hs. ok_head h" and "13 \<notin> set body" and "13 \<notin> set meth" "58 \<notin> set meth"
  shows "ParseHead p (request meth path ps hs body) = Some (p\<lparr>mapHead := mapHead p ++ heads_map hs\<rparr>)"
proof -
  have "adds (\<lambda>m (n, v). head_line m (n @ 58 # v)) m hs = Some (m ++ map_of (rev (map (\<lambda>x. (UpperCase (fst x), snd x)) hs)))" for m
    using assms(3) by (intro adds_upd) (auto intro!: head_line_ok split: prod.splits)
  moreover have "\<forall>(n, v) \<in> set hs. 13 \<notin> set n \<and> 13 \<notin> set v" using assms(3) by auto
  ultimately show ?thesis using head_loop_request [OF assms(1,2) _ assms(4-6)]
    by (simp add: ParseHead_def heads_map_def case_prod_unfold)
qed

lemma ParseHead_blank:
  assumes "ok_path path" and "\<forall>p \<in> set ps. ok_pair p" and "\<forall>(n, v) \<in> set hs. 13 \<notin> set n \<and> 13 \<notin> set v" and "13 \<notin> set body"
    and "13 \<notin> set meth" "58 \<notin> set meth" and "(n, v) \<in> set hs" and "\<forall>c \<in> set n. blank c"
  shows "ParseHead p (request meth path ps hs body) = None"
proof -
  obtain xs ys where hs: "hs = xs @ (n, v) # ys" using assms(7) by (meson split_list)
  have "58 \<notin> set n" using assms(8) by (auto simp: blank_def)
  then have "head_line m (n @ 58 # v) = None" for m
    using find_from_char [of 58 n "[]" v] Trim_blanks [OF assms(8)] by (simp add: head_line_def str_substr_def)
  then have "adds (\<lambda>m (n, v). head_line m (n @ 58 # v)) m hs = None" for m by (simp add: hs adds_append split: bind_split)
  then show ?thesis using head_loop_request [OF assms(1-6)] by (simp add: ParseHead_def)
qed

text \<open>The start of a request, up to \<open>ParseHead\<close>.\<close>

lemma decode_line_ok:
  assumes "ascii_iconv iconv" and "ok_path path" and "\<forall>p \<in> set ps. ok_pair p" and "13 \<notin> set meth" "47 \<notin> set meth"
  defines "line \<equiv> meth @ path @ [63] @ query ps @ [32, 72, 84, 84, 80, 47, 49, 46, 49]"
  shows "find_from (request meth path ps hs body) crlf 0 = Some (length line)" and "str_substr (request meth path ps hs body) 0 (length line) = Some line"
    and "decode_line iconv junk p (request meth path ps hs body) = do {
      p \<leftarrow> ParseHead (p\<lparr>m_str_GetRequest := path @ [63] @ query ps, m_str_cmdpath := path, mapParam := map_of (rev ps)\<rparr>) (request meth path ps hs body);
      Some (p, 0) }"
proof -
  let ?u = "path @ [63] @ query ps" and ?v = "[32, 72, 84, 84, 80, 47, 49, 46, 49] :: byte list"
  let ?r = "concat (map (\<lambda>(n, v). n @ 58 # v @ crlf) hs) @ crlf @ body"
  have req: "request meth path ps hs body = line @ 13 # 10 # ?r" by (simp add: request_def line_def)
  have "13 \<notin> set line" using assms(2,4) query_avoids [OF assms(3), of 13] by (auto simp: ok_path_def line_def)
  then show f0: "find_from (request meth path ps hs body) crlf 0 = Some (length line)"
    using find_sub_crlf [of line ?r] by (simp add: req find_from_def)
  show s0: "str_substr (request meth path ps hs body) 0 (length line) = Some line" unfolding req by (rule str_substr_prefix)
  obtain t where t: "path = 47 # t" using assms(2) by (cases path) (auto simp: ok_path_def)
  have f1: "find_from line [47] 0 = Some (length meth)" using find_from_char [OF assms(5), of "[]"] by (simp add: t line_def)
  have "32 \<notin> set ?u" using assms(2) query_avoids [OF assms(3), of 32] by (auto simp: ok_path_def)
  then have f2: "find_from line [32] (length meth) = Some (length meth + length ?u)" using find_from_char [of 32 ?u meth] by (simp add: line_def)
  have s: "str_substr line (length meth) (length ?u) = Some ?u" by (simp add: str_substr_def line_def)
  show "decode_line iconv junk p (request meth path ps hs body) = do {
      p \<leftarrow> ParseHead (p\<lparr>m_str_GetRequest := path @ [63] @ query ps, m_str_cmdpath := path, mapParam := map_of (rev ps)\<rparr>) (request meth path ps hs body);
      Some (p, 0) }"
    unfolding decode_line_def f0 option.case s0 bind.bind_lunit f1 f2 using s ParseParam_ok [OF assms(1-3)] by simp
qed

section \<open>Properties\<close>

lemma find_sub_prefix: "find_sub pat (pat @ s) = Some 0"
  by (simp add: find_sub.simps)


definition copy_iconv :: iconv_fun where
  "copy_iconv inb room = (if length inb \<le> room then (False, length inb, inb, False) else (True, room, take room inb, True))"

lemma copy_iconv_ascii: "ascii_iconv copy_iconv"
  by (simp add: ascii_iconv_def copy_iconv_def)


lemma foldl_insert_keeps: "distinct (map fst l) \<Longrightarrow> foldl (\<lambda>m (k, v). map_insert m k v) m l = map_of l ++ m"
proof (induction l arbitrary: m)
  case (Cons kv l)
  obtain k v where kv: "kv = (k, v)" by (cases kv)
  have "map_of l k = None" using Cons.prems kv by (auto simp: map_of_eq_None_iff)
  then have "map_of l ++ map_insert m k v = map_of (kv # l) ++ m"
    by (auto simp: kv map_insert_def map_add_def fun_eq_iff split: option.splits)
  then show ?case using Cons kv by (simp add: fun_upd_def)
qed simp

abbreviation content_length :: "byte list" where
  "content_length \<equiv> [67, 111, 110, 116, 101, 110, 116, 45, 76, 101, 110, 103, 116, 104]"

lemma atouint32_string_digits: "n < 2 ^ 31 \<Longrightarrow> length (dec_digits n) < 2 ^ 31 \<Longrightarrow> atouint32_string (dec_digits n) = Some (of_nat n)"
proof -
  assume n: "n < 2 ^ 31" "length (dec_digits n) < 2 ^ 31"
  have nd: "\<not> isdigit 0" by code_simp
  have "dec_digits n \<noteq> []" by (subst dec_digits.simps) simp
  then have "atouint32 (dec_digits n @ [0]) (int (length (dec_digits n))) = Some (of_nat (dec_value (dec_digits n)))"
    using nd by (intro atouint32_digits dec_digits_isdigit) auto
  moreover have "c_int (int (length (dec_digits n))) = int (length (dec_digits n))" using n by (intro c_int_small) auto
  ultimately show ?thesis using dec_value_digits [of n] by (simp add: atouint32_string_def del: dec_value.simps)
qed

lemma str_substr_suffix: "str_substr (xs @ ys) (length (xs @ ys) - length ys) (length ys) = Some ys"
  by (simp add: str_substr_def)

lemma length_dec_digits_le: "length (dec_digits n) \<le> Suc n"
proof (induction n rule: dec_digits.induct)
  case (1 n)
  then show ?case by (cases "n < 10") (auto simp: dec_digits_one dec_digits_snoc)
qed

lemma sint_of_nat32: "n < 2 ^ 31 \<Longrightarrow> sint (of_nat n :: u32) = int n"
  by (simp add: signed_of_nat signed_take_bit_int_eq_self)


lemma trim_spaces_law:
  assumes "\<forall>c \<in> set w. isspace c" and "s = [] \<or> \<not> isspace (hd s) \<and> \<not> isspace (last s)"
  shows "trim_spaces (w @ s) = s"
proof -
  have "dropWhile isspace (w @ s) = dropWhile isspace s" using assms(1) by (induction w) auto
  then show ?thesis using boost.trim_inner [OF assms(2)] by (simp add: trim_spaces_def)
qed




end
