(* ===== verification/TcpCodec.thy ===== *)
theory TcpCodec
  imports SdUtil CBuffer
begin

text \<open>
  \<open>template_tcp/src/main/protocol_codec.cpp\<close> and \<open>message_codec.cpp\<close>: the frames of the TCP server (a version, a length and a body) and the messages
  in them (\<open>key=value\<close> pairs), with the byte swaps \<open>hton16\<close> and \<open>hton32\<close> of \<open>common/mycommon.cpp\<close>.  Its \<open>string2map\<close>, \<open>map2string\<close> and
  \<open>get_vaule\<close> are those of \<open>template_http\<close>.  The byte order of the host, \<open>boost::split\<close>, \<open>boost::trim\<close> and MD5 are parameters.
\<close>

section \<open>Definitions: frames\<close>

text \<open>The characters of a literal.\<close>

definition ascii :: "string \<Rightarrow> byte list" where
  "ascii s = map (\<lambda>c. of_nat (of_char c)) s"

definition hton16 :: "bool \<Rightarrow> 16 word \<Rightarrow> 16 word" where
  "hton16 h a = (let c = host_bytes h 2 a in of_host_bytes h [c ! 1, c ! 0])"

definition hton32 :: "bool \<Rightarrow> u32 \<Rightarrow> u32" where
  "hton32 h a = (let c = host_bytes h 4 a in of_host_bytes h [c ! 3, c ! 2, c ! 1, c ! 0])"

record STU_PROTOCOL_HEAD =
  head_version :: "16 word"
  head_length :: "16 word"

text \<open>The struct is packed: two bytes of version, two bytes of length.\<close>

definition head_bytes :: "bool \<Rightarrow> STU_PROTOCOL_HEAD \<Rightarrow> byte list" where
  "head_bytes h st = host_bytes h 2 (head_version st) @ host_bytes h 2 (head_length st)"

definition head_at :: "bool \<Rightarrow> byte list \<Rightarrow> STU_PROTOCOL_HEAD option" where
  "head_at h pdata = do {
     v \<leftarrow> bread pdata 0 2;
     l \<leftarrow> bread pdata 2 2;
     Some \<lparr>head_version = of_host_bytes h v, head_length = of_host_bytes h l\<rparr>
   }"

definition get_head_length :: int where
  "get_head_length = 4"

definition get_body_length :: "bool \<Rightarrow> byte list \<Rightarrow> int \<Rightarrow> int option" where
  "get_body_length h pdata buffer_len =
     (if (4 :: u64) > word_of_int buffer_len then Some (- 1)
      else do {
        pstu_head \<leftarrow> head_at h pdata;
        let len = hton16 h (head_length pstu_head);
        if len \<ge> 5000 then Some (- 1)
        else if len = 0 then Some (- 1)
        else Some (uint len)
      })"

definition get_body :: "bool \<Rightarrow> byte list \<Rightarrow> int \<Rightarrow> byte list \<Rightarrow> (byte list \<times> int) option" where
  "get_body h pdata buffer_len body = do {
     body_length \<leftarrow> get_body_length h pdata buffer_len;
     if body_length = - 1 then Some (body, - 1)
     else if buffer_len \<noteq> body_length + get_head_length then Some (body, - 1)
     else do {
       bs \<leftarrow> bread pdata get_head_length body_length;
       Some (body @ bs, 0)
     }
   }"

definition encode_buffer :: "bool \<Rightarrow> int \<Rightarrow> byte list \<Rightarrow> byte list \<Rightarrow> byte list \<times> int" where
  "encode_buffer h version content str_buffer =
     (let stu_head = \<lparr>head_version = hton16 h (word_of_int version), head_length = hton16 h (of_nat (length content))\<rparr>
      in (str_buffer @ head_bytes h stu_head @ content, 0))"

definition get_body_string :: "bool \<Rightarrow> byte list \<Rightarrow> byte list \<Rightarrow> (byte list \<times> int) option" where
  "get_body_string h str_body str_content =
     (if length str_body \<le> 4 then Some (str_content, - 1)
      else do {
        bs \<leftarrow> bread str_body 0 4;
        let content_length = hton32 h (of_host_bytes h bs);
        if unat (content_length + 4) \<noteq> length str_body then Some (str_content, - 1)
        else do { s \<leftarrow> str_rest str_body 4; Some (s, 0) }
      })"

section \<open>Definitions: messages\<close>

definition CONTENT_PATH_AUTH :: "byte list" where "CONTENT_PATH_AUTH = ascii ''/cli/notify/adapter/auth/post''"
definition CONTENT_PATH_AUTH_ACK :: "byte list" where "CONTENT_PATH_AUTH_ACK = ascii ''/svr/notify/adapter/auth/post''"
definition CONTENT_PATH_GETKEY :: "byte list" where "CONTENT_PATH_GETKEY = ascii ''/cli/notify/adapter/randomkey/get''"
definition CONTENT_PATH_GETKEY_ACK :: "byte list" where "CONTENT_PATH_GETKEY_ACK = ascii ''/svr/notify/adapter/randomkey/get''"
definition CONTENT_PATH_HEARTBEAT :: "byte list" where "CONTENT_PATH_HEARTBEAT = ascii ''/cli/notify/adapter/heartbeat/post''"
definition CONTENT_PATH_HEARTBEAT_ACK :: "byte list" where "CONTENT_PATH_HEARTBEAT_ACK = ascii ''/svr/notify/adapter/heartbeat/post''"

text \<open>The object is its \<open>m_content_map\<close>.\<close>

definition decode_content ::
    "(byte list \<Rightarrow> byte list \<Rightarrow> byte list list) \<Rightarrow> (byte list \<Rightarrow> byte list) \<Rightarrow> byte list \<Rightarrow> smap \<Rightarrow> smap" where
  "decode_content split trim content m_content_map = string2map split trim content m_content_map"

definition get_content_path :: "smap \<Rightarrow> byte list" where
  "get_content_path m_content_map = get_vaule (ascii ''path'') m_content_map"

definition content_auth_verify :: "(byte list \<Rightarrow> byte list) \<Rightarrow> byte list \<Rightarrow> smap \<Rightarrow> int" where
  "content_auth_verify md5 m_verify_key m_content_map =
     (let gameinternalno = get_vaule (ascii ''gameinternalno'') m_content_map;
          sign = get_vaule (ascii ''sign'') m_content_map;
          key = get_vaule (ascii ''key'') m_content_map
      in if sign = [] \<or> key = [] then - 1
         else if md5 (gameinternalno @ key @ m_verify_key) \<noteq> sign then - 1
         else 0)"

text \<open>The pairs stand in the order of their keys, as \<open>std::map\<close> holds them.\<close>

definition encode_auth :: "bool \<Rightarrow> byte list \<Rightarrow> byte list \<Rightarrow> byte list \<Rightarrow> byte list \<times> int" where
  "encode_auth validation content seqid tokenid =
     (map2string content [(ascii ''path'', CONTENT_PATH_AUTH_ACK), (ascii ''result'', if validation then ascii ''1'' else ascii ''102''),
        (ascii ''seqid'', seqid), (ascii ''tokenid'', tokenid)], 0)"

definition encode_getkey_rtn :: "bool \<Rightarrow> byte list \<Rightarrow> byte list \<Rightarrow> byte list \<times> int" where
  "encode_getkey_rtn validation randomkey rtn_content =
     (map2string rtn_content
        (if validation then [(ascii ''key'', randomkey), (ascii ''path'', CONTENT_PATH_GETKEY_ACK), (ascii ''result'', ascii ''1'')]
         else [(ascii ''path'', CONTENT_PATH_GETKEY_ACK), (ascii ''result'', ascii ''3'')]), 0)"

definition encode_heartbeat_rtn :: "byte list \<Rightarrow> byte list \<times> int" where
  "encode_heartbeat_rtn rtn_content = (map2string rtn_content [(ascii ''path'', CONTENT_PATH_HEARTBEAT_ACK)], 0)"

section \<open>Frames\<close>

lemma le_bytes_2: "le_bytes 2 v = [ucast v, ucast (drop_bit 8 v)]"
  by (simp add: le_bytes_def upt_rec numeral_eq_Suc)

lemma hton16_hton16 [simp]: "hton16 h (hton16 h v) = v"
proof -
  have two: "ucast (ucast v :: byte) OR push_bit 8 (ucast (ucast (drop_bit 8 v) :: byte)) = v" for v :: "16 word"
    using of_le_bytes_le_bytes [of 2 v] by (simp add: le_bytes_2 take_bit_word_eq_self)
  have nb: "\<not> bit (b :: byte) (8 + n)" for b n using bit_imp_le_length [of b "8 + n"] by auto
  have sw: "ucast (ucast b OR push_bit 8 (ucast a) :: 16 word) = (b :: byte) \<and> ucast (drop_bit 8 (ucast b OR push_bit 8 (ucast a) :: 16 word)) = (a :: byte)" for a b
    by (auto intro!: bit_word_eqI simp: bit_simps nb)
  show ?thesis using two [of v] sw by (auto simp: hton16_def host_bytes_def of_host_bytes_def le_bytes_2)
qed

lemma of_host_bytes_host_bytes2: "of_host_bytes h (host_bytes h 2 v) = (v :: 16 word)"
  using of_le_bytes_le_bytes [of 2 v] by (auto simp: of_host_bytes_def host_bytes_def take_bit_word_eq_self)

lemma length_head_bytes [simp]: "length (head_bytes h st) = 4"
  by (simp add: head_bytes_def)

lemma head_at_head_bytes: "head_at h (head_bytes h st @ r) = Some st"
  by (simp add: head_at_def head_bytes_def bread_def of_host_bytes_host_bytes2)

text \<open>The header that \<open>encode_buffer\<close> puts in front of a body.\<close>

definition frame_head :: "bool \<Rightarrow> int \<Rightarrow> nat \<Rightarrow> byte list" where
  "frame_head h v n = head_bytes h \<lparr>head_version = hton16 h (word_of_int v), head_length = hton16 h (of_nat n)\<rparr>"

lemma length_frame_head [simp]: "length (frame_head h v n) = 4"
  by (simp add: frame_head_def)

lemma encode_buffer_frame: "encode_buffer h v content s = (s @ frame_head h v (length content) @ content, 0)"
  by (simp add: encode_buffer_def frame_head_def Let_def)

lemma uint_of_nat16: "uint (of_nat n :: 16 word) = int (n mod 65536)"
  by (simp add: unsigned_of_nat take_bit_eq_mod of_nat_mod)

lemma get_body_length_frame:
  assumes "4 \<le> l" and "l < 2 ^ 31"
  shows "get_body_length h (frame_head h v n @ r) l = Some (if 1 \<le> n mod 65536 \<and> n mod 65536 < 5000 then int (n mod 65536) else - 1)"
proof -
  have "\<not> word_of_int l < (4 :: u64)"
    using assms by (simp add: word_less_alt unsigned_of_int take_bit_int_eq_self)
  moreover have "(of_nat n :: 16 word) \<ge> 5000 \<longleftrightarrow> n mod 65536 \<ge> 5000" "(of_nat n :: 16 word) = 0 \<longleftrightarrow> n mod 65536 = 0"
    by (auto simp: word_le_def word_uint_eq_iff uint_of_nat16)
  ultimately show ?thesis
    by (auto simp: get_body_length_def frame_head_def head_at_head_bytes uint_of_nat16)
qed

lemma get_body_length_short: "l < 4 \<Longrightarrow> 0 \<le> l \<Longrightarrow> get_body_length h d l = Some (- 1)"
  by (simp add: get_body_length_def word_less_alt unsigned_of_int take_bit_int_eq_self)

lemma get_body_frame:
  assumes "length content + 4 < 2 ^ 31"
  shows "get_body h (frame_head h v (length content) @ content @ r) (int (length content) + 4) body =
    Some (if 1 \<le> length content \<and> length content < 5000 then (body @ content, 0) else (body, - 1))"
proof -
  let ?n = "length content mod 65536"
  have l: "get_body_length h (frame_head h v (length content) @ content @ r) (int (length content) + 4) = Some (if 1 \<le> ?n \<and> ?n < 5000 then int ?n else - 1)"
    using assms by (intro get_body_length_frame) simp_all
  have b: "bread (frame_head h v (length content) @ content @ r) 4 (int (length content)) = Some content"
    by (simp add: bread_def)
  consider "1 \<le> length content" "length content < 5000" | "length content = 0" | "5000 \<le> length content" "?n = length content" | "5000 \<le> length content" "?n \<noteq> length content"
    by linarith
  then show ?thesis by cases (use l b in \<open>auto simp: get_body_def get_head_length_def\<close>)
qed

section \<open>Properties\<close>

text \<open>
  (C25) Round trip of frames, on hosts of either byte order.  A content of 1 to 4999 bytes comes back from the frame that \<open>encode_buffer\<close> makes of it, whatever the version; the
  frame has four bytes more; and the frame of any other content, also of one whose length does not fit into its 16 bits, is refused.
\<close>

theorem tcp_frame_roundtrip:
  assumes "length content + 4 < 2 ^ 31"
  shows "\<exists>f. encode_buffer h version content [] = (f, 0) \<and> int (length f) = int (length content) + get_head_length
    \<and> get_body h (f @ [0]) (int (length f)) body = Some (if 1 \<le> length content \<and> length content < 5000 then (body @ content, 0) else (body, - 1))"
  using get_body_frame [OF assms, of h version "[0]" body] by (simp add: encode_buffer_frame get_head_length_def add.commute)

theorem tcp_frame_roundtrip_witness:
  "get_body True (fst (encode_buffer True 1 [104, 105] []) @ [0]) 6 [] = Some ([104, 105], 0)"
  using tcp_frame_roundtrip [of "[104, 105]" True 1 "[]"] by (auto simp: get_head_length_def)

text \<open>The answers of the server, read back by a client with the same codec.\<close>

lemma ascii_clean: "clean (ascii ''path'')" "clean (ascii ''result'')" "clean (ascii ''seqid'')" "clean (ascii ''tokenid'')" "clean (ascii ''1'')" "clean (ascii ''102'')"
    "clean CONTENT_PATH_AUTH_ACK"
  by code_simp+

lemma ascii_distinct: "distinct [ascii ''path'', ascii ''result'', ascii ''seqid'', ascii ''tokenid'']"
  by code_simp

lemma auth_answer_decoded:
  assumes "boost_strings split trim" and "clean seqid" and "clean tokenid"
  shows "decode_content split trim (fst (encode_auth validation [] seqid tokenid)) Map.empty =
    map_of [(ascii ''path'', CONTENT_PATH_AUTH_ACK), (ascii ''result'', if validation then ascii ''1'' else ascii ''102''), (ascii ''seqid'', seqid), (ascii ''tokenid'', tokenid)]"
  unfolding decode_content_def encode_auth_def fst_conv
  by (rule boost_strings.map_roundtrip [OF assms(1)]) (use assms(2,3) ascii_clean ascii_distinct in simp_all)

end
