(* ===== verification/TcpServer.thy ===== *)
theory TcpServer
  imports TcpCodec
begin

text \<open>
  \<open>template_tcp/src/main/\<close>: the reactor of the TCP server (\<open>tcpserver.cpp\<close>), its callbacks (\<open>tcpservermanager.cpp\<close>), the client objects
  (\<open>socket_client.h\<close>) and the queues between its threads (\<open>block_queue.h\<close>).  The state is the table of clients by descriptor, the map of identities, the
  queue of commands with the pipe that announces them, the counters, and the queue of messages of the dispatcher.  A client object is owned by its table
  cell.  What the system calls of a handler answer is a parameter; reads and the calls of \<open>send\<close> and \<open>close\<close> are recorded.  An access outside the table or
  a read larger than its buffer faults.
\<close>

section \<open>Definitions: queues\<close>

record 'a block_queue =
  m_list :: "'a list"
  m_seconds :: int
  m_size :: int

definition block_queue :: "'a block_queue" where
  "block_queue = \<lparr>m_list = [], m_seconds = 3, m_size = 0\<rparr>"

definition set_timeout :: "int \<Rightarrow> 'a block_queue \<Rightarrow> 'a block_queue" where
  "set_timeout seconds q = q\<lparr>m_seconds := seconds\<rparr>"

text \<open>Each body runs under \<open>m_list_mutex\<close>.\<close>

definition add_queue :: "'a \<Rightarrow> 'a block_queue \<Rightarrow> 'a block_queue" where
  "add_queue data q = q\<lparr>m_list := m_list q @ [data], m_size := m_size q + 1\<rparr>"

definition dequeue_nodelay :: "'a block_queue \<Rightarrow> 'a block_queue \<times> 'a option \<times> int" where
  "dequeue_nodelay q = (case m_list q of [] \<Rightarrow> (q, None, 0) | x # xs \<Rightarrow> (q\<lparr>m_list := xs, m_size := m_size q - 1\<rparr>, Some x, 1))"

text \<open>\<open>result\<close> is what \<open>pthread_cond_timedwait\<close> answers; 110 is \<open>ETIMEDOUT\<close>.  \<open>during\<close> is what other threads put into the queue meanwhile.\<close>

definition dequeue :: "int \<Rightarrow> 'a list \<Rightarrow> 'a block_queue \<Rightarrow> 'a block_queue \<times> 'a option \<times> int" where
  "dequeue result during q =
     (let q = fold add_queue during q
      in if result = 0 \<or> result = 110 then dequeue_nodelay q else (q, None, - 1))"

definition getsize :: "'a block_queue \<Rightarrow> int" where
  "getsize q = m_size q"

definition dequeue_expand :: "int \<Rightarrow> 'a list \<Rightarrow> 'a block_queue \<Rightarrow> 'a block_queue \<times> 'a option \<times> int" where
  "dequeue_expand result during q =
     (let (q', d, r) = dequeue_nodelay q in if r = 0 then dequeue result during q' else (q', d, r))"

section \<open>Definitions: state\<close>

record socket_client =
  m_fd :: int
  m_unify_tag :: u64
  m_data_recv :: "byte list"
  m_data_send :: "byte list"
  m_is_authed :: bool
  m_socket_identity :: "byte list"
  m_last_update_seconds :: u64
  m_clientip :: "byte list"

record STU_SOCKET_INFO =
  clientfd :: int
  fd_unify_tag :: u64

record STU_EPOLL_RTN = STU_SOCKET_INFO +
  socket_ientity :: "byte list"
  str_data_send :: "byte list"
  cmd_type :: int

abbreviation PIPE_CMD_SEND :: int where "PIPE_CMD_SEND \<equiv> 0"
abbreviation PIPE_CMD_CLOSE :: int where "PIPE_CMD_CLOSE \<equiv> 1"
abbreviation PIPE_CMD_AUTH_OK :: int where "PIPE_CMD_AUTH_OK \<equiv> 2"
abbreviation TCP_CHECK_OK :: int where "TCP_CHECK_OK \<equiv> 1"
abbreviation TCP_CHECK_ERROR :: int where "TCP_CHECK_ERROR \<equiv> 2"

datatype enum_notify_type = enum_sock_data_recv | enum_sock_close

record STU_MSG_INFO =
  msg_fd :: int
  msg_tag :: u64
  msg_tokenid :: "byte list"
  msg_content_path :: "byte list"
  msg_content :: "byte list"

text \<open>\<open>pipe_bytes\<close>, \<open>reads\<close>, \<open>sends\<close> and \<open>closes\<close> belong to the kernel: the bytes in the pipe, what clients' sockets have handed out, and the calls of
  \<open>send\<close> and \<open>close\<close> so far.\<close>

record tcpserver =
  m_array_epoll_data :: "int \<Rightarrow> socket_client option"
  m_map_socket_ientity :: "byte list \<rightharpoonup> STU_SOCKET_INFO"
  m_queue_rtn :: "STU_EPOLL_RTN block_queue"
  m_last_timeout_check_seconds :: u64
  m_check_timeout_interval_seconds :: int
  m_invalid_socket_timeout_seconds :: int
  m_clientcount :: int
  m_client_history_count :: u64
  m_unify_id :: u64
  m_queue_adapter_cmd :: "STU_MSG_INFO block_queue"
  pipe_bytes :: nat
  reads :: "(int \<times> byte list) list"
  sends :: "(int \<times> byte list) list"
  closes :: "int list"

definition m_epoll_maxsize :: nat where
  "m_epoll_maxsize = 200000"

text \<open>The answers of the system calls of one handler.  A read of nothing means that the peer has closed.\<close>

datatype sys_read = RdErr int | RdBytes "byte list"

record sys =
  sys_time :: u64
  sys_read :: "int \<Rightarrow> sys_read"
  sys_send :: "int \<Rightarrow> byte list \<Rightarrow> int"
  sys_write :: "nat \<Rightarrow> int"
  sys_pipe_read :: int

text \<open>What is linked in or configured.\<close>

record deps =
  host_le :: bool
  boost_split :: "byte list \<Rightarrow> byte list \<Rightarrow> byte list list"
  boost_trim :: "byte list \<Rightarrow> byte list"
  get_md5 :: "byte list \<Rightarrow> byte list"
  m_verify_key :: "byte list"

definition tcpserver_init :: "u64 \<Rightarrow> int \<Rightarrow> int \<Rightarrow> tcpserver" where
  "tcpserver_init now interval invalid = \<lparr>m_array_epoll_data = (\<lambda>_. None), m_map_socket_ientity = Map.empty, m_queue_rtn = block_queue,
     m_last_timeout_check_seconds = now, m_check_timeout_interval_seconds = interval, m_invalid_socket_timeout_seconds = invalid,
     m_clientcount = 0, m_client_history_count = 0, m_unify_id = 0, m_queue_adapter_cmd = block_queue, pipe_bytes = 0, reads = [], sends = [], closes = []\<rparr>"

section \<open>Definitions: table cells\<close>

definition cell :: "tcpserver \<Rightarrow> int \<Rightarrow> socket_client option option" where
  "cell s fd = (if 0 \<le> fd \<and> fd < int m_epoll_maxsize then Some (m_array_epoll_data s fd) else None)"

lemma cell_code [code]: "cell s fd = (if 0 \<le> fd \<and> fd < 200000 then Some (m_array_epoll_data s fd) else None)"
  by (simp add: cell_def m_epoll_maxsize_def)

definition set_cell :: "int \<Rightarrow> socket_client option \<Rightarrow> tcpserver \<Rightarrow> tcpserver" where
  "set_cell fd c s = s\<lparr>m_array_epoll_data := (m_array_epoll_data s)(fd := c)\<rparr>"

definition log_read :: "int \<Rightarrow> byte list \<Rightarrow> tcpserver \<Rightarrow> tcpserver" where
  "log_read fd bs s = s\<lparr>reads := reads s @ [(fd, bs)]\<rparr>"

section \<open>Definitions: commands from other threads\<close>

function write_loop :: "sys \<Rightarrow> nat \<Rightarrow> tcpserver \<Rightarrow> tcpserver \<times> int" where
  "write_loop y i s = (if i \<le> 5 then (if sys_write y i = - 1 then write_loop y (i + 1) s else (s\<lparr>pipe_bytes := pipe_bytes s + 1\<rparr>, 0)) else (s, - 1))"
  by pat_completeness auto
termination by (relation "measure (\<lambda>(y, i, s). 6 - i)") auto

declare write_loop.simps [simp del]

definition write_byte_to_pipe :: "sys \<Rightarrow> tcpserver \<Rightarrow> tcpserver \<times> int" where
  "write_byte_to_pipe y s = write_loop y 0 s"

definition add_rtn :: "STU_EPOLL_RTN \<Rightarrow> tcpserver \<Rightarrow> tcpserver" where
  "add_rtn stu s = s\<lparr>m_queue_rtn := add_queue stu (m_queue_rtn s)\<rparr>"

definition close_socket :: "sys \<Rightarrow> int \<Rightarrow> u64 \<Rightarrow> tcpserver \<Rightarrow> tcpserver \<times> int" where
  "close_socket y fd tag s = write_byte_to_pipe y (add_rtn
     \<lparr>clientfd = fd, fd_unify_tag = tag, socket_ientity = [], str_data_send = [], cmd_type = PIPE_CMD_CLOSE\<rparr> s)"

definition socket_auth_ok :: "sys \<Rightarrow> int \<Rightarrow> u64 \<Rightarrow> byte list \<Rightarrow> tcpserver \<Rightarrow> tcpserver \<times> int" where
  "socket_auth_ok y fd tag socket_identity s = (fst (write_byte_to_pipe y (add_rtn
     \<lparr>clientfd = fd, fd_unify_tag = tag, socket_ientity = socket_identity, str_data_send = [], cmd_type = PIPE_CMD_AUTH_OK\<rparr> s)), 0)"

definition send_data :: "sys \<Rightarrow> int \<Rightarrow> u64 \<Rightarrow> byte list \<Rightarrow> tcpserver \<Rightarrow> tcpserver \<times> int" where
  "send_data y fd tag senddata s = write_byte_to_pipe y (add_rtn
     \<lparr>clientfd = fd, fd_unify_tag = tag, socket_ientity = [], str_data_send = senddata, cmd_type = PIPE_CMD_SEND\<rparr> s)"

definition send_data_ientity :: "sys \<Rightarrow> byte list \<Rightarrow> byte list \<Rightarrow> tcpserver \<Rightarrow> tcpserver \<times> int" where
  "send_data_ientity y socket_identity senddata s = write_byte_to_pipe y (add_rtn
     \<lparr>clientfd = 0, fd_unify_tag = 0, socket_ientity = socket_identity, str_data_send = senddata, cmd_type = PIPE_CMD_SEND\<rparr> s)"

definition reply_data :: "sys \<Rightarrow> int \<Rightarrow> u64 \<Rightarrow> byte list \<Rightarrow> tcpserver \<Rightarrow> tcpserver \<times> int" where
  "reply_data y fd tag strdata s = (fst (send_data y fd tag strdata s), 0)"

definition reply_data_identity :: "sys \<Rightarrow> byte list \<Rightarrow> byte list \<Rightarrow> tcpserver \<Rightarrow> tcpserver \<times> int" where
  "reply_data_identity y sock_ientity strdata s = (fst (send_data_ientity y sock_ientity strdata s), 0)"

definition reply_close :: "sys \<Rightarrow> int \<Rightarrow> u64 \<Rightarrow> tcpserver \<Rightarrow> tcpserver \<times> int" where
  "reply_close y fd tag s = (fst (close_socket y fd tag s), 0)"

definition reply_close_identity :: "byte list \<Rightarrow> tcpserver \<Rightarrow> tcpserver \<times> int" where
  "reply_close_identity sock_identity s = (s, 0)"

definition reply_auth_ok :: "sys \<Rightarrow> int \<Rightarrow> u64 \<Rightarrow> byte list \<Rightarrow> tcpserver \<Rightarrow> tcpserver \<times> int" where
  "reply_auth_ok y fd tag sock_identity s = (fst (socket_auth_ok y fd tag sock_identity s), 0)"

section \<open>Definitions: callbacks\<close>

definition data_notify_callback :: "deps \<Rightarrow> sys \<Rightarrow> enum_notify_type \<Rightarrow> socket_client option \<Rightarrow> tcpserver \<Rightarrow> (tcpserver \<times> int) option" where
  "data_notify_callback d y notify_type pclientdata s = (case notify_type of
     enum_sock_data_recv \<Rightarrow> (case pclientdata of None \<Rightarrow> Some (s, TCP_CHECK_ERROR)
       | Some pclient \<Rightarrow> do {
           (content, result) \<leftarrow> get_body (host_le d) (m_data_recv pclient @ [0]) (c_int (int (length (m_data_recv pclient)))) [];
           if result = - 1 then Some (s, TCP_CHECK_ERROR)
           else do {
             let msgcodec = decode_content (boost_split d) (boost_trim d) content Map.empty;
             let contentpath = get_content_path msgcodec;
             if \<not> m_is_authed pclient \<and>
                (if contentpath = CONTENT_PATH_AUTH then content_auth_verify (get_md5 d) (m_verify_key d) msgcodec = - 1
                 else contentpath \<noteq> CONTENT_PATH_GETKEY)
             then Some (s, TCP_CHECK_ERROR)
             else do {
               let s = (if contentpath = CONTENT_PATH_HEARTBEAT
                 then fst (reply_data y (m_fd pclient) (m_unify_tag pclient) (fst (encode_buffer (host_le d) 0 (fst (encode_heartbeat_rtn [])) [])) s)
                 else s);
               let msg = \<lparr>msg_fd = m_fd pclient, msg_tag = m_unify_tag pclient, msg_tokenid = m_socket_identity pclient,
                 msg_content_path = get_content_path msgcodec, msg_content = content\<rparr>;
               Some (s\<lparr>m_queue_adapter_cmd := add_queue msg (m_queue_adapter_cmd s)\<rparr>, TCP_CHECK_OK)
             }
           }
         })
   | enum_sock_close \<Rightarrow> (case pclientdata of None \<Rightarrow> None | Some pclient \<Rightarrow> Some (s, TCP_CHECK_OK)))"

definition socket_client_new :: "u64 \<Rightarrow> int \<Rightarrow> u64 \<Rightarrow> socket_client" where
  "socket_client_new now fd tag = \<lparr>m_fd = fd, m_unify_tag = tag, m_data_recv = [], m_data_send = [], m_is_authed = False,
     m_socket_identity = [], m_last_update_seconds = now, m_clientip = []\<rparr>"

definition new_connect_callback :: "u64 \<Rightarrow> int \<Rightarrow> u64 \<Rightarrow> socket_client" where
  "new_connect_callback now newfd unify_tag = socket_client_new now newfd unify_tag"

definition get_head_length_callback :: "socket_client \<Rightarrow> int" where
  "get_head_length_callback pclientdata = get_head_length"

definition get_body_length_callback :: "deps \<Rightarrow> socket_client \<Rightarrow> int option" where
  "get_body_length_callback d pclient = get_body_length (host_le d) (m_data_recv pclient @ [0]) (c_int (int (length (m_data_recv pclient))))"

section \<open>Definitions: the reactor\<close>

definition get_unify_tag :: "int \<Rightarrow> tcpserver \<Rightarrow> tcpserver \<times> u64" where
  "get_unify_tag client_fd s =
     (let u = m_unify_id s + 1
      in (s\<lparr>m_unify_id := u\<rparr>, push_bit 32 (word_of_int client_fd) + (u AND 0xFFFFFFFF)))"

text \<open>The answers of \<open>fcntl\<close> to \<open>F_GETFL\<close> and \<open>F_SETFL\<close>.\<close>

definition non_blocking :: "int \<Rightarrow> int \<Rightarrow> int" where
  "non_blocking flags st = (if flags = - 1 then - 1 else if st = - 1 then - 1 else 0)"

record accept_sys =
  acc_fd :: int
  acc_getfl :: int
  acc_setfl :: int
  acc_setsockopt :: int
  acc_epoll_add :: int
  acc_peer :: "byte list"
  acc_time :: u64

definition dealwith_new_connection :: "accept_sys \<Rightarrow> tcpserver \<Rightarrow> (tcpserver \<times> int) option" where
  "dealwith_new_connection a s =
     (if acc_fd a = - 1 then Some (s, - 1)
      else if non_blocking (acc_getfl a) (acc_setfl a) = - 1 then Some (s, - 1)
      else if acc_setsockopt a = - 1 then Some (s, - 1)
      else if acc_epoll_add a = - 1 then Some (s, - 1)
      else do {
        let (s, unify_tag) = get_unify_tag (acc_fd a) s;
        let pclientdata = (new_connect_callback (acc_time a) (acc_fd a) unify_tag)\<lparr>m_clientip := acc_peer a\<rparr>;
        _ \<leftarrow> cell s (acc_fd a);
        count \<leftarrow> iadd (m_clientcount s) 1;
        Some ((set_cell (acc_fd a) (Some pclientdata) s)\<lparr>m_clientcount := count, m_client_history_count := m_client_history_count s + 1\<rparr>, 0)
      })"

definition close_internal :: "deps \<Rightarrow> sys \<Rightarrow> int \<Rightarrow> tcpserver \<Rightarrow> (tcpserver \<times> int) option" where
  "close_internal d y fd s = do {
     count \<leftarrow> iadd (m_clientcount s) (- 1);
     pclient \<leftarrow> cell s fd;
     let s = (set_cell fd None s)\<lparr>m_clientcount := count, closes := closes s @ [fd]\<rparr>;
     case pclient of
       Some c \<Rightarrow> do {
         (s, _) \<leftarrow> data_notify_callback d y enum_sock_close (Some c) s;
         Some (if m_socket_identity c \<noteq> [] then s\<lparr>m_map_socket_ientity := (m_map_socket_ientity s)(m_socket_identity c := None)\<rparr> else s, - 1)
       }
     | None \<Rightarrow> Some (s, - 1)
   }"

definition senddata_internal :: "deps \<Rightarrow> sys \<Rightarrow> byte list \<Rightarrow> int \<Rightarrow> tcpserver \<Rightarrow> (tcpserver \<times> int) option" where
  "senddata_internal d y data_send fd s = do {
     let result = sys_send y fd data_send;
     let s = s\<lparr>sends := sends s @ [(fd, data_send)]\<rparr>;
     if result = - 1 then do { (s, _) \<leftarrow> close_internal d y fd s; Some (s, - 1) }
     else if result \<noteq> int (length data_send) then Some (s, - 1)
     else Some (s, 0)
   }"

text \<open>\<open>EAGAIN\<close>, \<open>EWOULDBLOCK\<close> and \<open>EINTR\<close>.\<close>

definition again :: "int \<Rightarrow> bool" where
  "again errno \<longleftrightarrow> errno = 11 \<or> errno = 4"

text \<open>One read per event: when the head was read, also completely, the body waits for the next event.\<close>

definition dealwith_recv :: "deps \<Rightarrow> sys \<Rightarrow> int \<Rightarrow> tcpserver \<Rightarrow> (tcpserver \<times> int) option" where
  "dealwith_recv d y fd s = do {
     pclient \<leftarrow> cell s fd;
     case pclient of None \<Rightarrow> Some (s, - 1)
     | Some pclient \<Rightarrow> do {
         let headlength = get_head_length_callback pclient;
         let size_recved = c_int (int (length (m_data_recv pclient)));
         if headlength = - 1 then Some (s, - 1)
         else if size_recved < headlength then do {
           let size_needto_recv = headlength - size_recved;
           require (size_needto_recv \<le> 40);
           case sys_read y size_needto_recv of
             RdErr errno \<Rightarrow> Some (s, if again errno then 0 else - 1)
           | RdBytes [] \<Rightarrow> Some (s, - 1)
           | RdBytes headdata \<Rightarrow> Some (set_cell fd (Some (pclient\<lparr>m_data_recv := m_data_recv pclient @ headdata\<rparr>)) (log_read fd headdata s), 0)
         } else do {
           body_length \<leftarrow> get_body_length_callback d pclient;
           if body_length = - 1 then Some (s, - 1)
           else do {
             let need = c_int (body_length - (int (length (m_data_recv pclient)) - headlength));
             let body_needto_recved = (if need > 4096 then 4096 else need);
             require (0 \<le> body_needto_recved);
             case sys_read y body_needto_recved of
               RdErr errno \<Rightarrow> Some (s, if again errno then 0 else - 1)
             | RdBytes [] \<Rightarrow> Some (s, - 1)
             | RdBytes charbody \<Rightarrow> do {
                 let pclient = pclient\<lparr>m_data_recv := m_data_recv pclient @ charbody\<rparr>;
                 let s = set_cell fd (Some pclient) (log_read fd charbody s);
                 if int (length charbody) < body_needto_recved then Some (s, 0)
                 else do {
                   (s, result) \<leftarrow> data_notify_callback d y enum_sock_data_recv (Some pclient) s;
                   if result \<noteq> TCP_CHECK_OK then Some (s, - 1)
                   else Some (set_cell fd (Some (pclient\<lparr>m_data_recv := []\<rparr>)) s, 0)
                 }
               }
           }
         }
       }
   }"

text \<open>The descriptor and tag a command is for: its own, or those of its identity, where there is one.\<close>

definition pipe_target :: "STU_EPOLL_RTN \<Rightarrow> tcpserver \<Rightarrow> STU_SOCKET_INFO option" where
  "pipe_target stu s =
     (let own = \<lparr>clientfd = clientfd stu, fd_unify_tag = fd_unify_tag stu\<rparr>
      in if cmd_type stu = PIPE_CMD_AUTH_OK then Some own
         else if socket_ientity stu = [] then Some own
         else m_map_socket_ientity s (socket_ientity stu))"

definition pipe_send :: "deps \<Rightarrow> sys \<Rightarrow> STU_EPOLL_RTN \<Rightarrow> STU_SOCKET_INFO \<Rightarrow> socket_client \<Rightarrow> tcpserver \<Rightarrow> (tcpserver \<times> int) option" where
  "pipe_send d y stu info pclient s = do {
     let s = set_cell (clientfd info) (Some (pclient\<lparr>m_last_update_seconds := sys_time y\<rparr>)) s;
     if socket_ientity stu = [] then do { (s, _) \<leftarrow> senddata_internal d y (str_data_send stu) (clientfd info) s; Some (s, 0) }
     else (case m_map_socket_ientity s (socket_ientity stu) of
         None \<Rightarrow> Some (s, 0)
       | Some second \<Rightarrow> do { (s, _) \<leftarrow> senddata_internal d y (str_data_send stu) (clientfd second) s; Some (s, 0) })
   }"

text \<open>\<open>insert\<close> keeps an entry that is there.\<close>

definition insert_identity :: "byte list \<Rightarrow> STU_SOCKET_INFO \<Rightarrow> tcpserver \<Rightarrow> tcpserver" where
  "insert_identity k stu s = (case m_map_socket_ientity s k of None \<Rightarrow> s\<lparr>m_map_socket_ientity := (m_map_socket_ientity s)(k \<mapsto> stu)\<rparr> | Some _ \<Rightarrow> s)"

definition pipe_auth :: "deps \<Rightarrow> sys \<Rightarrow> STU_EPOLL_RTN \<Rightarrow> tcpserver \<Rightarrow> (tcpserver \<times> int) option" where
  "pipe_auth d y rtn s = do {
     pclient \<leftarrow> cell s (clientfd rtn);
     case pclient of None \<Rightarrow> Some (s, 0)
     | Some pclient \<Rightarrow>
         (if m_fd pclient \<noteq> clientfd rtn \<or> m_unify_tag pclient \<noteq> fd_unify_tag rtn then Some (s, 0)
          else if socket_ientity rtn = [] then Some (s, 0)
          else do {
            let s = set_cell (clientfd rtn) (Some (pclient\<lparr>m_socket_identity := socket_ientity rtn, m_is_authed := True\<rparr>)) s;
            let stu = \<lparr>clientfd = clientfd rtn, fd_unify_tag = fd_unify_tag rtn\<rparr>;
            case m_map_socket_ientity s (socket_ientity rtn) of
              None \<Rightarrow> Some (insert_identity (socket_ientity rtn) stu s, 0)
            | Some second \<Rightarrow>
                (if clientfd rtn = clientfd second then Some (s, 0)
                 else do {
                   (s, _) \<leftarrow> close_internal d y (clientfd second) s;
                   Some (insert_identity (socket_ientity rtn) stu s, 0)
                 })
          })
   }"

definition pipe_dispatch :: "deps \<Rightarrow> sys \<Rightarrow> STU_EPOLL_RTN \<Rightarrow> tcpserver \<Rightarrow> (tcpserver \<times> int) option" where
  "pipe_dispatch d y rtn s = (case pipe_target rtn s of None \<Rightarrow> Some (s, - 1)
     | Some info \<Rightarrow>
         (if clientfd info \<ge> 200000 then Some (s, - 1)
          else do {
            pclient \<leftarrow> cell s (clientfd info);
            case pclient of None \<Rightarrow> Some (s, - 1)
            | Some pclient \<Rightarrow>
                (if m_fd pclient \<noteq> clientfd info \<or> m_unify_tag pclient \<noteq> fd_unify_tag info then Some (s, - 1)
                 else if cmd_type rtn = PIPE_CMD_SEND then pipe_send d y rtn info pclient s
                 else if cmd_type rtn = PIPE_CMD_CLOSE then do { (s, _) \<leftarrow> close_internal d y (clientfd info) s; Some (s, 0) }
                 else if cmd_type rtn = PIPE_CMD_AUTH_OK then pipe_auth d y rtn s
                 else Some (s, - 1))
          }))"

definition dealwith_pipe_cmd :: "deps \<Rightarrow> sys \<Rightarrow> tcpserver \<Rightarrow> (tcpserver \<times> int) option" where
  "dealwith_pipe_cmd d y s =
     (if sys_pipe_read y \<noteq> 1 then Some (s, - 1)
      else do {
        require (0 < pipe_bytes s);
        let s = s\<lparr>pipe_bytes := pipe_bytes s - 1\<rparr>;
        let (q, data, result) = dequeue_nodelay (m_queue_rtn s);
        let s = s\<lparr>m_queue_rtn := q\<rparr>;
        case data of None \<Rightarrow> Some (s, - 1) | Some rtn \<Rightarrow> pipe_dispatch d y rtn s
      })"

definition timeout_cell :: "deps \<Rightarrow> sys \<Rightarrow> u64 \<Rightarrow> tcpserver \<Rightarrow> nat \<Rightarrow> tcpserver option" where
  "timeout_cell d y currentseconds s fd = do {
     pclient \<leftarrow> cell s (int fd);
     case pclient of None \<Rightarrow> Some s
     | Some pclient \<Rightarrow>
         (if m_last_update_seconds pclient < currentseconds
             \<and> currentseconds - m_last_update_seconds pclient > word_of_int (m_invalid_socket_timeout_seconds s)
          then do { (s, _) \<leftarrow> close_internal d y (m_fd pclient) s; Some s }
          else Some s)
   }"

text \<open>The function has no \<open>return\<close>; its callers do not look at the result.\<close>

definition check_timeout :: "deps \<Rightarrow> sys \<Rightarrow> tcpserver \<Rightarrow> tcpserver option" where
  "check_timeout d y s =
     (let currentseconds = sys_time y
      in if currentseconds > m_last_timeout_check_seconds s
            \<and> currentseconds - m_last_timeout_check_seconds s \<ge> word_of_int (m_check_timeout_interval_seconds s)
         then adds (timeout_cell d y currentseconds) (s\<lparr>m_last_timeout_check_seconds := currentseconds\<rparr>) [0..<m_epoll_maxsize]
         else Some s)"

definition get_current_conn :: "tcpserver \<Rightarrow> int" where "get_current_conn s = m_clientcount s"

definition get_conn_history :: "tcpserver \<Rightarrow> u64" where "get_conn_history s = m_client_history_count s"

text \<open>An event of \<open>epoll_wait\<close>, with the answers to the system calls its handler makes.\<close>

datatype event = Ev_listen accept_sys | Ev_pipe sys | Ev_client int sys

definition reactor_event :: "deps \<Rightarrow> tcpserver \<Rightarrow> event \<Rightarrow> tcpserver option" where
  "reactor_event d s e = (case e of
     Ev_listen a \<Rightarrow> map_option fst (dealwith_new_connection a s)
   | Ev_pipe y \<Rightarrow> map_option fst (dealwith_pipe_cmd d y s)
   | Ev_client fd y \<Rightarrow> do {
       (s, recv_result) \<leftarrow> dealwith_recv d y fd s;
       if recv_result = - 1 then map_option fst (close_internal d y fd s) else Some s
     })"

text \<open>One round of the loop: the events of one \<open>epoll_wait\<close>, then the timeouts.\<close>

definition reactor_round :: "deps \<Rightarrow> sys \<Rightarrow> event list \<Rightarrow> tcpserver \<Rightarrow> tcpserver option" where
  "reactor_round d y es s = do { s \<leftarrow> adds (reactor_event d) s es; check_timeout d y s }"

section \<open>Receiving a stream\<close>

definition frame :: "bool \<Rightarrow> int \<times> byte list \<Rightarrow> byte list" where
  "frame h vb = fst (encode_buffer h (fst vb) (snd vb) [])"

lemma frame_eq: "frame h (v, b) = frame_head h v (length b) @ b"
  by (simp add: frame_def encode_buffer_frame)

lemma length_frame [simp]: "length (frame h vb) = length (snd vb) + 4"
  by (simp add: frame_def encode_buffer_frame)

text \<open>The message that the callback hands to the dispatcher for a body.\<close>

definition msg_of :: "deps \<Rightarrow> socket_client \<Rightarrow> byte list \<Rightarrow> STU_MSG_INFO" where
  "msg_of d c content = \<lparr>msg_fd = m_fd c, msg_tag = m_unify_tag c, msg_tokenid = m_socket_identity c,
     msg_content_path = get_content_path (decode_content (boost_split d) (boost_trim d) content Map.empty), msg_content = content\<rparr>"

lemma write_loop_outcome: "write_loop y i s = (s\<lparr>pipe_bytes := pipe_bytes s + 1\<rparr>, 0) \<or> write_loop y i s = (s, - 1)"
  by (induction y i s rule: write_loop.induct) (subst (1 2) write_loop.simps, auto)

text \<open>What putting a command into the queue leaves as it is.\<close>

definition same_but_queue :: "tcpserver \<Rightarrow> tcpserver \<Rightarrow> bool" where
  "same_but_queue s s' \<longleftrightarrow> (\<exists>q n. s' = s\<lparr>m_queue_rtn := q, pipe_bytes := n\<rparr>)"

lemma same_but_queue_refl [simp]: "same_but_queue s s"
  unfolding same_but_queue_def by (rule exI [of _ "m_queue_rtn s"], rule exI [of _ "pipe_bytes s"]) simp

lemma send_data_same: "same_but_queue s (fst (send_data y fd tag data s))"
  using write_loop_outcome [of y 0] unfolding same_but_queue_def send_data_def write_byte_to_pipe_def add_rtn_def
  by (smt (verit) fst_conv tcpserver.select_convs tcpserver.surjective tcpserver.update_convs)

lemma reply_data_same: "same_but_queue s (fst (reply_data y fd tag data s))"
  using send_data_same by (simp add: reply_data_def)

lemma callback_delivers:
  assumes "get_body (host_le d) (m_data_recv c @ [0]) (c_int (int (length (m_data_recv c)))) [] = Some (body, 0)" and "m_is_authed c"
  shows "\<exists>s1. same_but_queue s s1 \<and> data_notify_callback d y enum_sock_data_recv (Some c) s =
    Some (s1\<lparr>m_queue_adapter_cmd := add_queue (msg_of d c body) (m_queue_adapter_cmd s1)\<rparr>, TCP_CHECK_OK)"
proof -
  let ?hb = "get_content_path (decode_content (boost_split d) (boost_trim d) body Map.empty) = CONTENT_PATH_HEARTBEAT"
  let ?s1 = "if ?hb then fst (reply_data y (m_fd c) (m_unify_tag c) (fst (encode_buffer (host_le d) 0 (fst (encode_heartbeat_rtn [])) [])) s) else s"
  have "same_but_queue s ?s1" by (simp add: reply_data_same)
  moreover have "data_notify_callback d y enum_sock_data_recv (Some c) s =
      Some (?s1\<lparr>m_queue_adapter_cmd := add_queue (msg_of d c body) (m_queue_adapter_cmd ?s1)\<rparr>, TCP_CHECK_OK)"
    using assms by (simp add: data_notify_callback_def msg_of_def Let_def)
  ultimately show ?thesis by blast
qed

lemma cell_in: "0 \<le> fd \<Longrightarrow> fd < int m_epoll_maxsize \<Longrightarrow> cell s fd = Some (m_array_epoll_data s fd)"
  by (simp add: cell_def)

lemma set_cell_get [simp]: "m_array_epoll_data (set_cell fd c s) x = (if x = fd then c else m_array_epoll_data s x)"
  by (simp add: set_cell_def)

lemma frame_cut:
  assumes "m_data_recv c = take k (frame (host_le d) (v, b))" and "4 \<le> k" and "k \<le> length b + 4" and "1 \<le> length b" and "length b < 5000"
  shows "get_body_length_callback d c = Some (int (length b))"
proof -
  have "m_data_recv c @ [0] = frame_head (host_le d) v (length b) @ take (k - 4) b @ [0]"
    using assms(1,2) by (simp add: frame_eq)
  moreover have "c_int (int (length (m_data_recv c))) = int k"
    using assms by (simp add: c_int_small)
  ultimately show ?thesis using assms get_body_length_frame [of "int k" "host_le d" v "length b" "take (k - 4) b @ [0]"]
    by (simp add: get_body_length_callback_def)
qed

lemma recv_again:
  assumes "cell s fd = Some (Some c)" and "m_data_recv c = take k (frame (host_le d) (v, b))" and "k < length b + 4" and "1 \<le> length b" and "length b \<le> 4096"
    and "sys_read y = (\<lambda>_. RdErr 11)"
  shows "dealwith_recv d y fd s = Some (s, 0)"
proof (cases "k < 4")
  case True
  then show ?thesis using assms by (simp add: dealwith_recv_def get_head_length_callback_def get_head_length_def c_int_small again_def)
next
  case False
  then have "get_body_length_callback d c = Some (int (length b))" using assms frame_cut [of c k d v b] by simp
  then show ?thesis using assms False by (simp add: dealwith_recv_def get_head_length_callback_def get_head_length_def c_int_small again_def)
qed

lemma recv_head:
  assumes "cell s fd = Some (Some c)" and "length (m_data_recv c) = k" and "k < 4"
    and "sys_read y (4 - int k) = RdBytes bs" and "bs \<noteq> []"
  shows "dealwith_recv d y fd s = Some (set_cell fd (Some (c\<lparr>m_data_recv := m_data_recv c @ bs\<rparr>)) (log_read fd bs s), 0)"
  using assms by (cases bs) (simp_all add: dealwith_recv_def get_head_length_callback_def get_head_length_def c_int_small)

lemma recv_more:
  assumes "cell s fd = Some (Some c)" and "m_data_recv c = take k (frame (host_le d) (v, b))" and "4 \<le> k" and "k < length b + 4" and "length b \<le> 4096"
    and "sys_read y (int (length b + 4 - k)) = RdBytes bs" and "bs \<noteq> []" and "length bs < length b + 4 - k"
  shows "dealwith_recv d y fd s = Some (set_cell fd (Some (c\<lparr>m_data_recv := m_data_recv c @ bs\<rparr>)) (log_read fd bs s), 0)"
proof -
  have "get_body_length_callback d c = Some (int (length b))" using assms frame_cut [of c k d v b] by simp
  moreover have "sys_read y (int (length b) - (int k - 4)) = RdBytes bs" using assms by (simp add: diff_diff_eq2)
  moreover have "int (length bs) < int (length b) - (int k - 4)" using assms by simp
  ultimately show ?thesis using assms by (cases bs) (simp_all del: of_nat_Suc list.size add: dealwith_recv_def get_head_length_callback_def get_head_length_def c_int_small Let_def)
qed

lemma recv_done:
  assumes "cell s fd = Some (Some c)" and "m_data_recv c = take k (frame (host_le d) (v, b))" and "4 \<le> k" and "k < length b + 4" and "length b \<le> 4096"
    and "sys_read y (int (length b + 4 - k)) = RdBytes bs" and "m_data_recv c @ bs = frame (host_le d) (v, b)" and "m_is_authed c"
  shows "\<exists>s1. same_but_queue (set_cell fd (Some (c\<lparr>m_data_recv := m_data_recv c @ bs\<rparr>)) (log_read fd bs s)) s1
    \<and> dealwith_recv d y fd s = Some (set_cell fd (Some (c\<lparr>m_data_recv := []\<rparr>))
        (s1\<lparr>m_queue_adapter_cmd := add_queue (msg_of d c b) (m_queue_adapter_cmd s1)\<rparr>), 0)"
proof -
  let ?c = "c\<lparr>m_data_recv := m_data_recv c @ bs\<rparr>"
  let ?s = "set_cell fd (Some ?c) (log_read fd bs s)"
  have l: "length bs = length b + 4 - k" using arg_cong [OF assms(7), of length] assms(2,4) by simp
  have "get_body (host_le d) (m_data_recv ?c @ [0]) (c_int (int (length (m_data_recv ?c)))) [] = Some (b, 0)"
    using assms get_body_frame [of b "host_le d" v "[0]" "[]"] by (simp add: frame_eq c_int_small add.commute)
  then obtain s1 where s1: "same_but_queue ?s s1"
      "data_notify_callback d y enum_sock_data_recv (Some ?c) ?s = Some (s1\<lparr>m_queue_adapter_cmd := add_queue (msg_of d ?c b) (m_queue_adapter_cmd s1)\<rparr>, TCP_CHECK_OK)"
    using callback_delivers [of d ?c b ?s y] assms(8) by auto
  have "get_body_length_callback d c = Some (int (length b))" using assms frame_cut [of c k d v b] by simp
  moreover have "sys_read y (int (length b) - (int k - 4)) = RdBytes bs" using assms by (simp add: diff_diff_eq2)
  moreover have "msg_of d ?c b = msg_of d c b" by (simp add: msg_of_def)
  moreover obtain x xs where "bs = x # xs" using l assms(4) by (cases bs) auto
  ultimately have "dealwith_recv d y fd s = Some (set_cell fd (Some (c\<lparr>m_data_recv := []\<rparr>))
        (s1\<lparr>m_queue_adapter_cmd := add_queue (msg_of d c b) (m_queue_adapter_cmd s1)\<rparr>), 0)"
    using assms s1(2) l by (simp add: dealwith_recv_def get_head_length_callback_def get_head_length_def c_int_small Let_def)
  then show ?thesis using s1(1) by blast
qed

text \<open>A connection whose peer sends the bytes \<open>p\<close>: at each event the socket has up to \<open>k\<close> of them, and none (\<open>EAGAIN\<close>) when \<open>k\<close> is zero or \<open>p\<close> is used up.\<close>

definition stream_sys :: "byte list \<Rightarrow> nat \<times> sys \<Rightarrow> sys" where
  "stream_sys p ky = (snd ky)\<lparr>sys_read := (\<lambda>n. if fst ky = 0 \<or> p = [] then RdErr 11 else RdBytes (take (min (fst ky) (nat n)) p))\<rparr>"

definition received :: "tcpserver \<Rightarrow> nat" where
  "received s = length (concat (map snd (reads s)))"

fun feed :: "deps \<Rightarrow> int \<Rightarrow> (nat \<times> sys) list \<Rightarrow> byte list \<times> tcpserver \<Rightarrow> (byte list \<times> tcpserver) option" where
  "feed d fd [] (p, s) = Some (p, s)"
| "feed d fd (ky # kys) (p, s) = do {
     s' \<leftarrow> reactor_event d s (Ev_client fd (stream_sys p ky));
     feed d fd kys (drop (received s' - received s) p, s')
   }"

lemma received_log [simp]: "received (set_cell fd c (log_read fd bs s)) = received s + length bs"
  by (simp add: received_def set_cell_def log_read_def)

lemma received_same: "same_but_queue s s' \<Longrightarrow> received s' = received s \<and> m_array_epoll_data s' = m_array_epoll_data s \<and> m_queue_adapter_cmd s' = m_queue_adapter_cmd s"
  by (auto simp: same_but_queue_def received_def)

text \<open>The connection stands \<open>k\<close> bytes into the first of the frames \<open>rest\<close>.\<close>

definition part :: "deps \<Rightarrow> (int \<times> byte list) list \<Rightarrow> nat \<Rightarrow> byte list" where
  "part d rest k = (case rest of [] \<Rightarrow> [] | f # _ \<Rightarrow> take k (frame (host_le d) f))"

definition at_point :: "deps \<Rightarrow> int \<Rightarrow> socket_client \<Rightarrow> byte list \<Rightarrow> tcpserver \<Rightarrow> (int \<times> byte list) list \<Rightarrow> nat \<Rightarrow> bool" where
  "at_point d fd c p s rest k \<longleftrightarrow> m_array_epoll_data s fd = Some (c\<lparr>m_data_recv := part d rest k\<rparr>)
     \<and> p = drop k (concat (map (frame (host_le d)) rest)) \<and> (case rest of [] \<Rightarrow> k = 0 | f # _ \<Rightarrow> k < length (snd f) + 4)"

lemma recv_step_idle:
  assumes "at_point d fd c p s rest k" and "0 \<le> fd" and "fd < int m_epoll_maxsize"
    and "\<forall>f \<in> set rest. 1 \<le> length (snd f) \<and> length (snd f) \<le> 4096" and "fst ky = 0 \<or> p = []"
  shows "reactor_event d s (Ev_client fd (stream_sys p ky)) = Some s"
proof -
  obtain v b where vb: "part d rest k = take k (frame (host_le d) (v, b))" "k < length b + 4" "1 \<le> length b" "length b \<le> 4096"
  proof (cases rest)
    case Nil
    show ?thesis by (rule that [of 0 "[0]"]) (use Nil assms(1) in \<open>simp_all add: part_def at_point_def\<close>)
  next
    case (Cons f r)
    show ?thesis by (rule that [of "fst f" "snd f"]) (use Cons assms(1,4) in \<open>simp_all add: part_def at_point_def\<close>)
  qed
  have "dealwith_recv d (stream_sys p ky) fd s = Some (s, 0)"
    by (rule recv_again [where c = "c\<lparr>m_data_recv := part d rest k\<rparr>" and k = k and v = v and b = b])
       (use assms vb in \<open>auto simp: cell_in at_point_def stream_sys_def\<close>)
  then show ?thesis by (simp add: reactor_event_def)
qed

lemma recv_step:
  assumes at: "at_point d fd c p s (f # rest) k" and fd: "0 \<le> fd" "fd < int m_epoll_maxsize"
    and len: "1 \<le> length (snd f)" "length (snd f) \<le> 4096" and m: "0 < fst ky" and auth: "m_is_authed c"
  shows "\<exists>s' n. reactor_event d s (Ev_client fd (stream_sys p ky)) = Some s' \<and> received s' = received s + n \<and> 0 < n \<and> n \<le> length p
    \<and> (at_point d fd c (drop n p) s' (f # rest) (k + n) \<and> m_list (m_queue_adapter_cmd s') = m_list (m_queue_adapter_cmd s)
       \<or> at_point d fd c (drop n p) s' rest 0 \<and> m_list (m_queue_adapter_cmd s') = m_list (m_queue_adapter_cmd s) @ [msg_of d c (snd f)])"
proof -
  let ?h = "host_le d"
  let ?F = "frame ?h f"
  let ?c = "c\<lparr>m_data_recv := take k ?F\<rparr>"
  obtain v b where f: "f = (v, b)" by (cases f)
  have k: "k < length b + 4" and c: "cell s fd = Some (Some ?c)" and p: "p = drop k ?F @ concat (map (frame ?h) rest)"
    using at fd f by (simp_all add: at_point_def part_def cell_in)
  have ne: "p \<noteq> []" using k f by (simp add: p)
  define w where "w = (if k < 4 then 4 - k else length b + 4 - k)"
  define n where "n = min (fst ky) w"
  have w: "0 < w" "w \<le> length b + 4 - k" using k len f by (auto simp: w_def)
  have n: "0 < n" "n \<le> w" using m w by (auto simp: n_def)
  define bs where "bs = take n p"
  have bs: "bs = take n (drop k ?F)" "length bs = n" "bs \<noteq> []" using n w k f by (auto simp: bs_def p)
  have app: "take k ?F @ bs = take (k + n) ?F" by (simp add: bs take_add)
  have rd: "sys_read (stream_sys p ky) (int w) = RdBytes bs" using m ne by (simp add: stream_sys_def bs_def n_def)
  have np: "n \<le> length p" using n w k f by (simp add: p)
  let ?s1 = "set_cell fd (Some (?c\<lparr>m_data_recv := m_data_recv ?c @ bs\<rparr>)) (log_read fd bs s)"
  have drp: "drop n p = drop (k + n) (concat (map (frame ?h) (f # rest)))" using at by (simp add: at_point_def add.commute)
  show ?thesis
  proof (cases "k < 4 \<or> n < w")
    case True
    have "dealwith_recv d (stream_sys p ky) fd s = Some (?s1, 0)"
    proof (cases "k < 4")
      case True
      then show ?thesis using recv_head [of s fd ?c k "stream_sys p ky" bs d] c rd bs(3) k f by (simp add: w_def of_nat_diff)
    next
      case False
      then show ?thesis using recv_more [of s fd ?c k d v b "stream_sys p ky" bs] True c rd bs k f len by (simp add: w_def of_nat_diff)
    qed
    moreover have "k + n < length b + 4" using True n w k len f by (auto simp: w_def split: if_splits)
    ultimately have "reactor_event d s (Ev_client fd (stream_sys p ky)) = Some ?s1 \<and> received ?s1 = received s + n
        \<and> at_point d fd c (drop n p) ?s1 (f # rest) (k + n) \<and> m_list (m_queue_adapter_cmd ?s1) = m_list (m_queue_adapter_cmd s)"
      using app f drp bs by (simp add: reactor_event_def at_point_def part_def set_cell_def log_read_def received_def)
    then show ?thesis using n np by blast
  next
    case False
    then have kn: "k + n = length b + 4" "4 \<le> k" using n k by (auto simp: w_def)
    then have full: "take k ?F @ bs = ?F" using app f by simp
    then obtain s1 where s1: "same_but_queue ?s1 s1" "dealwith_recv d (stream_sys p ky) fd s = Some (set_cell fd (Some (?c\<lparr>m_data_recv := []\<rparr>))
        (s1\<lparr>m_queue_adapter_cmd := add_queue (msg_of d ?c b) (m_queue_adapter_cmd s1)\<rparr>), 0)"
      using recv_done [of s fd ?c k d v b "stream_sys p ky" bs] c rd k kn f len auth by (auto simp: w_def of_nat_diff)
    let ?s2 = "set_cell fd (Some (?c\<lparr>m_data_recv := []\<rparr>)) (s1\<lparr>m_queue_adapter_cmd := add_queue (msg_of d ?c b) (m_queue_adapter_cmd s1)\<rparr>)"
    have "received ?s2 = received s1" "m_queue_adapter_cmd ?s2 = add_queue (msg_of d ?c b) (m_queue_adapter_cmd s1)"
      by (simp_all add: received_def set_cell_def)
    moreover have "received s1 = received s + n" "m_queue_adapter_cmd s1 = m_queue_adapter_cmd s"
      using received_same [OF s1(1)] bs by (simp_all add: set_cell_def log_read_def received_def)
    moreover have "msg_of d ?c b = msg_of d c b" by (simp add: msg_of_def)
    moreover have "at_point d fd c (drop n p) ?s2 rest 0"
      using kn f by (cases rest) (simp_all add: at_point_def part_def p)
    moreover have "reactor_event d s (Ev_client fd (stream_sys p ky)) = Some ?s2" using s1(2) by (simp add: reactor_event_def)
    ultimately show ?thesis using n np f by (auto simp: add_queue_def)
  qed
qed

lemma feed_run:
  assumes "at_point d fd c p s rest k" and fd: "0 \<le> fd" "fd < int m_epoll_maxsize"
    and "\<forall>f \<in> set rest. 1 \<le> length (snd f) \<and> length (snd f) \<le> 4096" and auth: "m_is_authed c"
  shows "\<exists>p' s' sent rest' k'. feed d fd kys (p, s) = Some (p', s') \<and> rest = sent @ rest' \<and> at_point d fd c p' s' rest' k'
    \<and> m_list (m_queue_adapter_cmd s') = m_list (m_queue_adapter_cmd s) @ map (\<lambda>f. msg_of d c (snd f)) sent
    \<and> length p' \<le> length p - length (filter (\<lambda>ky. 0 < fst ky) kys)"
  using assms(1,4)
proof (induction kys arbitrary: p s rest k)
  case Nil
  then show ?case by fastforce
next
  case (Cons ky kys)
  show ?case
  proof (cases "fst ky = 0 \<or> p = []")
    case True
    have "feed d fd (ky # kys) (p, s) = feed d fd kys (p, s)"
      using recv_step_idle [OF Cons.prems(1) fd Cons.prems(2) True] by simp
    then show ?thesis using Cons.IH [OF Cons.prems] True by (auto; fastforce)
  next
    case False
    then obtain f r where r: "rest = f # r" using Cons.prems(1) by (cases rest) (auto simp: at_point_def)
    from False Cons.prems r obtain s' n where st: "reactor_event d s (Ev_client fd (stream_sys p ky)) = Some s'" "received s' = received s + n" "0 < n" "n \<le> length p"
        and alt: "at_point d fd c (drop n p) s' (f # r) (k + n) \<and> m_list (m_queue_adapter_cmd s') = m_list (m_queue_adapter_cmd s)
          \<or> at_point d fd c (drop n p) s' r 0 \<and> m_list (m_queue_adapter_cmd s') = m_list (m_queue_adapter_cmd s) @ [msg_of d c (snd f)]"
      using recv_step [of d fd c p s f r k ky] fd auth by auto
    have fe: "feed d fd (ky # kys) (p, s) = feed d fd kys (drop n p, s')" using st by simp
    have le: "x \<le> length p - length (filter (\<lambda>ky. 0 < fst ky) (ky # kys))" if "x \<le> length (drop n p) - length (filter (\<lambda>ky. 0 < fst ky) kys)" for x
      using that st(3) by (auto intro: order_trans)
    from alt show ?thesis
    proof
      assume a: "at_point d fd c (drop n p) s' (f # r) (k + n) \<and> m_list (m_queue_adapter_cmd s') = m_list (m_queue_adapter_cmd s)"
      then show ?thesis using Cons.IH [of "drop n p" s' "f # r" "k + n"] Cons.prems(2) r fe le by fastforce
    next
      assume a: "at_point d fd c (drop n p) s' r 0 \<and> m_list (m_queue_adapter_cmd s') = m_list (m_queue_adapter_cmd s) @ [msg_of d c (snd f)]"
      then obtain p' s'' sent rest' k' where "feed d fd kys (drop n p, s') = Some (p', s'')" "r = sent @ rest'" "at_point d fd c p' s'' rest' k'"
          "m_list (m_queue_adapter_cmd s'') = m_list (m_queue_adapter_cmd s') @ map (\<lambda>f. msg_of d c (snd f)) sent"
          "length p' \<le> length (drop n p) - length (filter (\<lambda>ky. 0 < fst ky) kys)"
        using Cons.IH [of "drop n p" s' r 0] Cons.prems(2) r by auto
      then show ?thesis using a r fe le
        by (intro exI [of _ p'] exI [of _ s''] exI [of _ "f # sent"] exI [of _ rest'] exI [of _ k']) simp
    qed
  qed
qed


text \<open>A server for examples: a host of little-endian order, and system calls that succeed.\<close>

definition plain_deps :: deps where
  "plain_deps = \<lparr>host_le = True, boost_split = split_any, boost_trim = trim_spaces, get_md5 = (\<lambda>s. s), m_verify_key = [120]\<rparr>"

definition quiet_sys :: sys where
  "quiet_sys = \<lparr>sys_time = 10, sys_read = (\<lambda>_. RdErr 11), sys_send = (\<lambda>_ bs. int (length bs)), sys_write = (\<lambda>_. 1), sys_pipe_read = 1\<rparr>"


text \<open>
  A body of more than 4096 bytes that the socket hands out at once ends the connection: the 4096 bytes that are read at most are taken for the whole body, and the
  callback refuses the frame.
\<close>

lemma recv_large_body_refused:
  assumes c: "cell s fd = Some (Some c)" and f: "m_data_recv c = frame_head (host_le d) v n" and n: "4096 < n" "n < 5000"
    and r: "sys_read y 4096 = RdBytes bs" "length bs = 4096"
  shows "\<exists>s'. dealwith_recv d y fd s = Some (s', - 1)"
proof -
  have g: "get_body_length (host_le d) (frame_head (host_le d) v n @ r) l = Some (int n)" if "4 \<le> l" "l < 2 ^ 31" for r l
    using get_body_length_frame [OF that, of "host_le d" v n r] n by simp
  let ?c = "c\<lparr>m_data_recv := m_data_recv c @ bs\<rparr>"
  have "data_notify_callback d y enum_sock_data_recv (Some ?c) t = Some (t, TCP_CHECK_ERROR)" for t
    using g [of "int (4 + length bs)" "bs @ [0]"] n r by (simp add: data_notify_callback_def get_body_def f c_int_small get_head_length_def)
  moreover obtain x xs where "bs = x # xs" using r(2) by (cases bs) auto
  moreover have "get_body_length_callback d c = Some (int n)" using g [of 4 "[0]"] by (simp add: get_body_length_callback_def f c_int_small)
  ultimately show ?thesis using c r n
    by (auto simp: dealwith_recv_def get_head_length_callback_def get_head_length_def c_int_small Let_def f simp del: list.size)
qed

end
