(* ===== verification/TcpInv.thy ===== *)
theory TcpInv
  imports TcpServer
begin

text \<open>
  The invariant of the reactor of \<open>template_tcp\<close> over everything that can happen to it: events, timeouts and the commands of other threads.
\<close>

section \<open>The invariant\<close>

text \<open>What a client has sent so far: part of a head, or a head that announces more.\<close>

definition body_len :: "deps \<Rightarrow> byte list \<Rightarrow> int option" where
  "body_len d b = get_body_length (host_le d) (b @ [0]) (c_int (int (length b)))"

definition buf_ok :: "deps \<Rightarrow> byte list \<Rightarrow> bool" where
  "buf_ok d b \<longleftrightarrow> length b \<le> 4 \<or> (\<exists>n. body_len d b = Some n \<and> n < 5000 \<and> int (length b) \<le> n + 4)"

text \<open>Cells belong to their descriptors, the map of identities is the inverse of the identities of the clients, and the counters count.\<close>

definition live :: "tcpserver \<Rightarrow> int set" where
  "live s = {fd. m_array_epoll_data s fd \<noteq> None}"

definition client_ok :: "deps \<Rightarrow> tcpserver \<Rightarrow> int \<Rightarrow> socket_client \<Rightarrow> bool" where
  "client_ok d s fd c \<longleftrightarrow> 0 \<le> fd \<and> fd < int m_epoll_maxsize \<and> m_fd c = fd \<and> buf_ok d (m_data_recv c)
     \<and> (m_socket_identity c \<noteq> [] \<longrightarrow> m_map_socket_ientity s (m_socket_identity c) = Some \<lparr>clientfd = fd, fd_unify_tag = m_unify_tag c\<rparr>)"

definition entry_ok :: "tcpserver \<Rightarrow> byte list \<Rightarrow> STU_SOCKET_INFO \<Rightarrow> bool" where
  "entry_ok s k i \<longleftrightarrow> k \<noteq> [] \<and> (\<exists>c. m_array_epoll_data s (clientfd i) = Some c \<and> m_unify_tag c = fd_unify_tag i \<and> m_socket_identity c = k)"

definition server_inv :: "deps \<Rightarrow> tcpserver \<Rightarrow> bool" where
  "server_inv d s \<longleftrightarrow> (\<forall>fd c. m_array_epoll_data s fd = Some c \<longrightarrow> client_ok d s fd c)
     \<and> (\<forall>k i. m_map_socket_ientity s k = Some i \<longrightarrow> entry_ok s k i)
     \<and> m_clientcount s = int (card (live s))
     \<and> (\<forall>r \<in> set (m_list (m_queue_rtn s)). 0 \<le> clientfd r)
     \<and> m_size (m_queue_rtn s) = int (length (m_list (m_queue_rtn s)))
     \<and> pipe_bytes s \<le> length (m_list (m_queue_rtn s))"

lemma inv_client: "server_inv d s \<Longrightarrow> m_array_epoll_data s fd = Some c \<Longrightarrow> client_ok d s fd c"
  by (simp add: server_inv_def)

lemma inv_entry: "server_inv d s \<Longrightarrow> m_map_socket_ientity s k = Some i \<Longrightarrow> entry_ok s k i"
  by (simp add: server_inv_def)

lemma inv_cell: "server_inv d s \<Longrightarrow> m_array_epoll_data s fd = Some c \<Longrightarrow> cell s fd = Some (Some c)"
  using inv_client [of d s fd c] by (simp add: cell_in client_ok_def)

lemma live_bounded: "server_inv d s \<Longrightarrow> live s \<subseteq> {0..<int m_epoll_maxsize}"
  using inv_client [of d s] by (auto simp: live_def client_ok_def)

lemma finite_live: "server_inv d s \<Longrightarrow> finite (live s)"
  using live_bounded finite_subset by blast

lemma card_live: "server_inv d s \<Longrightarrow> card (live s) \<le> 200000"
  using card_mono [OF _ live_bounded [of d s]] by (simp add: m_epoll_maxsize_def)

lemma server_inv_init: "server_inv d (tcpserver_init now interval invalid)"
  by (simp add: server_inv_def tcpserver_init_def live_def block_queue_def)

text \<open>Only these components matter.\<close>

lemma server_invI:
  assumes "\<And>fd c. m_array_epoll_data s fd = Some c \<Longrightarrow> client_ok d s fd c" and "\<And>k i. m_map_socket_ientity s k = Some i \<Longrightarrow> entry_ok s k i"
    and "m_clientcount s = int (card (live s))" and "\<forall>r \<in> set (m_list (m_queue_rtn s)). 0 \<le> clientfd r"
    and "m_size (m_queue_rtn s) = int (length (m_list (m_queue_rtn s)))" and "pipe_bytes s \<le> length (m_list (m_queue_rtn s))"
  shows "server_inv d s"
  using assms by (simp add: server_inv_def)

lemma server_inv_rest:
  assumes "server_inv d s"
  shows "m_clientcount s = int (card (live s))" and "\<forall>r \<in> set (m_list (m_queue_rtn s)). 0 \<le> clientfd r"
    and "m_size (m_queue_rtn s) = int (length (m_list (m_queue_rtn s)))" and "pipe_bytes s \<le> length (m_list (m_queue_rtn s))"
  using assms by (simp_all add: server_inv_def)

lemma server_inv_cong:
  assumes "m_array_epoll_data s' = m_array_epoll_data s" and "m_map_socket_ientity s' = m_map_socket_ientity s" and "m_clientcount s' = m_clientcount s"
    and "m_queue_rtn s' = m_queue_rtn s" and "pipe_bytes s' \<le> pipe_bytes s" and inv: "server_inv d s"
  shows "server_inv d s'"
proof (rule server_invI)
  show "client_ok d s' fd c" if "m_array_epoll_data s' fd = Some c" for fd c
    using inv_client [OF inv, of fd c] that assms(1,2) by (simp add: client_ok_def)
  show "entry_ok s' k i" if "m_map_socket_ientity s' k = Some i" for k i
    using inv_entry [OF inv, of k i] that assms(1,2) by (simp add: entry_ok_def)
qed (use server_inv_rest [OF inv] assms(1,3-5) in \<open>simp_all add: live_def\<close>)

text \<open>A change of a client that keeps its descriptor, its tag and its identity.\<close>

lemma server_inv_client:
  assumes inv: "server_inv d s" and c: "m_array_epoll_data s fd = Some c" and "m_fd c' = m_fd c" and "m_unify_tag c' = m_unify_tag c"
    and "m_socket_identity c' = m_socket_identity c" and "buf_ok d (m_data_recv c')"
  shows "server_inv d (set_cell fd (Some c') s)"
proof (rule server_invI)
  let ?s = "set_cell fd (Some c') s"
  have m: "m_map_socket_ientity ?s = m_map_socket_ientity s" by (simp add: set_cell_def)
  show "client_ok d ?s x e" if "m_array_epoll_data ?s x = Some e" for x e
    using that inv_client [OF inv, of x] inv_client [OF inv c] assms(3-6) m by (auto simp: client_ok_def split: if_splits)
  show "entry_ok ?s k i" if "m_map_socket_ientity ?s k = Some i" for k i
    using inv_entry [OF inv, of k i] that m c assms(4,5) by (auto simp: entry_ok_def)
  have "live ?s = live s" using c by (auto simp: live_def)
  then show "m_clientcount ?s = int (card (live ?s))" using server_inv_rest [OF inv] by (simp add: set_cell_def)
qed (use server_inv_rest [OF inv] in \<open>simp_all add: set_cell_def\<close>)

section \<open>Closing\<close>

lemma close_internal_inv:
  assumes inv: "server_inv d s" and c: "m_array_epoll_data s fd = Some c"
  shows "\<exists>s'. close_internal d y fd s = Some (s', - 1) \<and> server_inv d s' \<and> m_array_epoll_data s' = (m_array_epoll_data s)(fd := None)
    \<and> m_map_socket_ientity s' = (if m_socket_identity c = [] then m_map_socket_ientity s else (m_map_socket_ientity s)(m_socket_identity c := None))
    \<and> m_queue_rtn s' = m_queue_rtn s \<and> pipe_bytes s' = pipe_bytes s \<and> closes s' = closes s @ [fd] \<and> sends s' = sends s
    \<and> m_invalid_socket_timeout_seconds s' = m_invalid_socket_timeout_seconds s \<and> m_queue_adapter_cmd s' = m_queue_adapter_cmd s
    \<and> m_last_timeout_check_seconds s' = m_last_timeout_check_seconds s"
proof -
  let ?m = "if m_socket_identity c = [] then m_map_socket_ientity s else (m_map_socket_ientity s)(m_socket_identity c := None)"
  let ?s = "(set_cell fd None s)\<lparr>m_clientcount := m_clientcount s - 1, closes := closes s @ [fd], m_map_socket_ientity := ?m\<rparr>"
  have cnt: "m_clientcount s = int (card (live s))" using inv by (simp add: server_inv_def)
  have fin: "finite (live s)" "fd \<in> live s" using finite_live [OF inv] c by (auto simp: live_def)
  have l: "live ?s = live s - {fd}" by (auto simp: live_def set_cell_def)
  have cnt': "m_clientcount ?s = int (card (live ?s))" using cnt card_Suc_Diff1 [OF fin] unfolding l by simp
  have eq: "close_internal d y fd s = Some (?s, - 1)"
    using inv_cell [OF inv c] cnt card_live [OF inv] by (simp add: close_internal_def data_notify_callback_def set_cell_def)
  have ent: "entry_ok ?s k i" if "?m k = Some i" for k i
  proof -
    have m: "m_map_socket_ientity s k = Some i" and ne: "m_socket_identity c \<noteq> [] \<longrightarrow> k \<noteq> m_socket_identity c" using that by (auto split: if_splits)
    then have e: "entry_ok s k i" using inv_entry [OF inv] by simp
    then have "clientfd i \<noteq> fd" using c ne by (auto simp: entry_ok_def)
    then show ?thesis using e by (simp add: entry_ok_def set_cell_def)
  qed
  have cl: "client_ok d ?s x c'" if "m_array_epoll_data ?s x = Some c'" for x c'
  proof -
    have x: "x \<noteq> fd" "m_array_epoll_data s x = Some c'" using that by (auto simp: set_cell_def split: if_splits)
    then have "m_socket_identity c' \<noteq> [] \<longrightarrow> m_socket_identity c' \<noteq> m_socket_identity c"
      using inv_client [OF inv x(2)] inv_client [OF inv c] by (auto simp: client_ok_def)
    then show ?thesis using inv_client [OF inv x(2)] by (simp add: client_ok_def)
  qed
  have "server_inv d ?s"
  proof (rule server_invI)
    show "entry_ok ?s k i" if "m_map_socket_ientity ?s k = Some i" for k i using ent that by simp
  qed (use cl cnt' server_inv_rest [OF inv] in \<open>simp_all add: set_cell_def\<close>)
  then show ?thesis using eq by (intro exI [of _ ?s]) (simp add: set_cell_def)
qed

section \<open>Commands and received data\<close>

lemma add_command_inv:
  assumes "server_inv d s" and "0 \<le> clientfd r"
  shows "server_inv d (fst (write_byte_to_pipe y (add_rtn r s)))"
proof -
  let ?s = "add_rtn r s"
  have a: "m_array_epoll_data ?s = m_array_epoll_data s" "m_map_socket_ientity ?s = m_map_socket_ientity s" "live ?s = live s"
    by (simp_all add: add_rtn_def live_def)
  have inv: "server_inv d ?s"
  proof (rule server_invI)
    show "client_ok d ?s fd c" if "m_array_epoll_data ?s fd = Some c" for fd c
      using inv_client [OF assms(1), of fd c] that a by (simp add: client_ok_def)
    show "entry_ok ?s k i" if "m_map_socket_ientity ?s k = Some i" for k i
      using inv_entry [OF assms(1), of k i] that a by (simp add: entry_ok_def)
    show "m_clientcount ?s = int (card (live ?s))" using server_inv_rest [OF assms(1)] a by (simp add: add_rtn_def)
  qed (use server_inv_rest [OF assms(1)] assms(2) in \<open>auto simp: add_rtn_def add_queue_def\<close>)
  have "server_inv d (?s\<lparr>pipe_bytes := pipe_bytes ?s + 1\<rparr>)"
  proof (rule server_invI)
    show "client_ok d (?s\<lparr>pipe_bytes := pipe_bytes ?s + 1\<rparr>) fd c" if "m_array_epoll_data (?s\<lparr>pipe_bytes := pipe_bytes ?s + 1\<rparr>) fd = Some c" for fd c
      using inv_client [OF inv, of fd c] that by (simp add: client_ok_def)
    show "entry_ok (?s\<lparr>pipe_bytes := pipe_bytes ?s + 1\<rparr>) k i" if "m_map_socket_ientity (?s\<lparr>pipe_bytes := pipe_bytes ?s + 1\<rparr>) k = Some i" for k i
      using inv_entry [OF inv, of k i] that by (simp add: entry_ok_def)
  qed (use server_inv_rest [OF inv] server_inv_rest [OF assms(1)] in \<open>auto simp: live_def add_rtn_def add_queue_def\<close>)
  then show ?thesis using inv write_loop_outcome [of y 0 ?s] by (auto simp: write_byte_to_pipe_def)
qed

lemma command_inv:
  assumes "server_inv d s"
  shows "0 \<le> fd \<Longrightarrow> server_inv d (fst (send_data y fd tag data s))" and "0 \<le> fd \<Longrightarrow> server_inv d (fst (close_socket y fd tag s))"
    and "0 \<le> fd \<Longrightarrow> server_inv d (fst (socket_auth_ok y fd tag k s))" and "server_inv d (fst (send_data_ientity y k data s))"
  using add_command_inv [OF assms] by (simp_all add: send_data_def close_socket_def socket_auth_ok_def send_data_ientity_def)

lemma head_at_append: "4 \<le> length b \<Longrightarrow> head_at h (b @ r) = head_at h b"
  by (simp add: head_at_def bread_def)

lemma body_len_head:
  assumes "4 \<le> length b" and "length b < 2 ^ 31"
  shows "\<exists>hd. head_at (host_le d) b = Some hd \<and> body_len d b =
    Some (let len = hton16 (host_le d) (head_length hd) in if len \<ge> 5000 \<or> len = 0 then - 1 else uint len)"
proof -
  have "\<not> word_of_int (int (length b)) < (4 :: u64)" using assms by (simp add: word_less_alt unsigned_of_nat take_bit_nat_eq_self)
  moreover have "\<exists>hd. head_at (host_le d) b = Some hd" using assms(1) by (simp add: head_at_def bread_def)
  ultimately show ?thesis using assms head_at_append [of b "host_le d"] by (auto simp: body_len_def get_body_length_def c_int_small Let_def)
qed

lemma body_len_cases:
  assumes "4 \<le> length b" and "length b < 2 ^ 31"
  obtains n where "body_len d b = Some n" "n = - 1 \<or> 1 \<le> n" "n < 5000"
proof -
  obtain hd where "head_at (host_le d) b = Some hd" and b: "body_len d b =
      Some (let len = hton16 (host_le d) (head_length hd) in if len \<ge> 5000 \<or> len = 0 then - 1 else uint len)"
    using body_len_head [OF assms] by blast
  define u where "u = uint (hton16 (host_le d) (head_length hd))"
  have "0 \<le> u" by (simp add: u_def)
  then show ?thesis
    by (intro that [OF b]) (auto simp: Let_def word_le_def word_uint_eq_iff not_le u_def [symmetric])
qed

lemma body_len_append:
  assumes "4 \<le> length b" and "length (b @ bs) < 2 ^ 31"
  shows "body_len d (b @ bs) = body_len d b"
  using body_len_head [of b d] body_len_head [of "b @ bs" d] head_at_append [OF assms(1), of "host_le d" bs] assms by auto

lemma get_body_returns:
  fixes d :: deps
  assumes "4 \<le> length b" and "length b < 2 ^ 31"
  shows "\<exists>c r. get_body (host_le d) (b @ [0]) (c_int (int (length b))) [] = Some (c, r)"
proof -
  obtain n where "body_len d b = Some n" "n = - 1 \<or> 1 \<le> n" using body_len_cases [OF assms] by metis
  then show ?thesis using assms by (auto simp: get_body_def body_len_def bread_def get_head_length_def c_int_small)
qed

lemma callback_returns:
  assumes "server_inv d s" and "0 \<le> m_fd c" and "4 \<le> length (m_data_recv c)" and "length (m_data_recv c) < 2 ^ 31"
  shows "\<exists>s' r. data_notify_callback d y enum_sock_data_recv (Some c) s = Some (s', r) \<and> server_inv d s' \<and> m_array_epoll_data s' = m_array_epoll_data s"
proof -
  obtain body r where b: "get_body (host_le d) (m_data_recv c @ [0]) (c_int (int (length (m_data_recv c)))) [] = Some (body, r)"
    using get_body_returns [OF assms(3,4)] by blast
  let ?hb = "get_content_path (decode_content (boost_split d) (boost_trim d) body Map.empty) = CONTENT_PATH_HEARTBEAT"
  let ?s1 = "if ?hb then fst (reply_data y (m_fd c) (m_unify_tag c) (fst (encode_buffer (host_le d) 0 (fst (encode_heartbeat_rtn [])) [])) s) else s"
  let ?s2 = "?s1\<lparr>m_queue_adapter_cmd := add_queue (msg_of d c body) (m_queue_adapter_cmd ?s1)\<rparr>"
  have "server_inv d ?s1" using command_inv(1) [OF assms(1,2)] assms(1) by (simp add: reply_data_def)
  then have "server_inv d ?s2" by (rule server_inv_cong [rotated 5]) simp_all
  moreover have "m_array_epoll_data ?s2 = m_array_epoll_data s" using received_same [OF reply_data_same] by simp
  moreover have "data_notify_callback d y enum_sock_data_recv (Some c) s \<in> {Some (s, TCP_CHECK_ERROR), Some (?s2, TCP_CHECK_OK)}"
    using b by (simp add: data_notify_callback_def msg_of_def Let_def)
  ultimately show ?thesis using assms(1) by auto
qed

lemma inv_log_read: "server_inv d s \<Longrightarrow> server_inv d (log_read fd bs s)"
  by (rule server_inv_cong [of _ s]) (simp_all add: log_read_def)

text \<open>The socket gives at most what is asked for.\<close>

definition reads_bounded :: "sys \<Rightarrow> bool" where
  "reads_bounded y \<longleftrightarrow> (\<forall>n bs. sys_read y n = RdBytes bs \<longrightarrow> int (length bs) \<le> n)"

lemma inv_append:
  assumes "server_inv d s" and "m_array_epoll_data s fd = Some c" and "buf_ok d (m_data_recv c @ bs)"
  shows "server_inv d (set_cell fd (Some (c\<lparr>m_data_recv := m_data_recv c @ bs\<rparr>)) (log_read fd bs s))"
  using assms by (intro server_inv_client [where c = c] inv_log_read) (simp_all add: log_read_def)

lemma recv_head_inv:
  assumes inv: "server_inv d s" and c: "m_array_epoll_data s fd = Some c" and y: "reads_bounded y" and l: "length (m_data_recv c) < 4"
  shows "\<exists>s' r. dealwith_recv d y fd s = Some (s', r) \<and> server_inv d s' \<and> m_array_epoll_data s' fd \<noteq> None"
proof -
  let ?n = "4 - int (length (m_data_recv c))"
  note simps = dealwith_recv_def inv_cell [OF inv c] get_head_length_callback_def get_head_length_def c_int_small
  show ?thesis
  proof (cases "sys_read y ?n")
    case (RdErr e)
    then show ?thesis using l inv c by (simp add: simps)
  next
    case (RdBytes bs)
    show ?thesis
    proof (cases bs)
      case Nil
      then show ?thesis using RdBytes l inv c by (simp add: simps)
    next
      case (Cons x xs)
      have "int (length bs) \<le> ?n" using y RdBytes by (simp add: reads_bounded_def)
      then have "server_inv d (set_cell fd (Some (c\<lparr>m_data_recv := m_data_recv c @ bs\<rparr>)) (log_read fd bs s))"
        using inv_append [OF inv c] by (simp add: buf_ok_def)
      then show ?thesis using recv_head [of s fd c "length (m_data_recv c)" y bs d] RdBytes Cons l inv_cell [OF inv c] by simp
    qed
  qed
qed

lemma recv_body_inv:
  assumes inv: "server_inv d s" and c: "m_array_epoll_data s fd = Some c" and y: "reads_bounded y" and l: "4 \<le> length (m_data_recv c)"
  shows "\<exists>s' r. dealwith_recv d y fd s = Some (s', r) \<and> server_inv d s' \<and> m_array_epoll_data s' fd \<noteq> None"
proof -
  let ?b = "m_data_recv c"
  have ok: "buf_ok d ?b" "0 \<le> m_fd c" using inv_client [OF inv c] by (auto simp: client_ok_def)
  then have small: "length ?b < 5004" using l by (auto simp: buf_ok_def)
  obtain n where n: "body_len d ?b = Some n" "n = - 1 \<or> 1 \<le> n" "n < 5000" using body_len_cases [of ?b d] l small by auto
  have gl: "get_body_length_callback d c = Some n" using n(1) by (simp add: get_body_length_callback_def body_len_def)
  note simps = dealwith_recv_def inv_cell [OF inv c] get_head_length_callback_def get_head_length_def c_int_small gl Let_def
  show ?thesis
  proof (cases "n = - 1")
    case True
    then show ?thesis using n l small inv c by (simp add: simps)
  next
    case False
    then have lb: "int (length ?b) \<le> n + 4" "1 \<le> n" using ok n by (auto simp: buf_ok_def)
    define w where "w = (if n - (int (length ?b) - 4) > 4096 then 4096 else n - (int (length ?b) - 4))"
    have w: "0 \<le> w" "int (length ?b) + w \<le> n + 4" using lb by (auto simp: w_def)
    have sm: "c_int (n - (int (length ?b) - 4)) = n - (int (length ?b) - 4)" using lb n(3) by (intro c_int_small) auto
    show ?thesis
    proof (cases "sys_read y w")
      case (RdErr e)
      then show ?thesis using n lb l small inv c w sm by (simp add: simps w_def)
    next
      case (RdBytes bs)
      show ?thesis
      proof (cases bs)
        case Nil
        then show ?thesis using RdBytes n lb l small inv c w sm by (simp add: simps w_def)
      next
        case (Cons x xs)
        let ?c = "c\<lparr>m_data_recv := ?b @ bs\<rparr>"
        let ?s = "set_cell fd (Some ?c) (log_read fd bs s)"
        have bw: "int (length bs) \<le> w" using y RdBytes by (simp add: reads_bounded_def)
        then have "body_len d (?b @ bs) = Some n" using body_len_append [of ?b bs d] l small w n by simp
        then have i1: "server_inv d ?s" using bw w n by (intro inv_append [OF inv c]) (auto simp: buf_ok_def)
        have len: "4 \<le> length (m_data_recv ?c)" "length (m_data_recv ?c) < 2 ^ 31" using l bw w n(3) by simp_all
        have "0 \<le> m_fd ?c" using ok by simp
        from callback_returns [OF i1 this len, of y] obtain s2 r where cb: "data_notify_callback d y enum_sock_data_recv (Some ?c) ?s = Some (s2, r)"
            "server_inv d s2" "m_array_epoll_data s2 = m_array_epoll_data ?s" by blast
        have i3: "server_inv d (set_cell fd (Some (?c\<lparr>m_data_recv := []\<rparr>)) s2)"
          by (rule server_inv_client [OF cb(2), where c = ?c]) (simp_all add: cb(3) buf_ok_def)
        have "dealwith_recv d y fd s = (if int (length bs) < w then Some (?s, 0)
            else if r \<noteq> TCP_CHECK_OK then Some (s2, - 1) else Some (set_cell fd (Some (?c\<lparr>m_data_recv := []\<rparr>)) s2, 0))"
          using RdBytes Cons n lb l small w sm cb(1) by (auto simp: simps w_def)
        then show ?thesis using i1 cb(2,3) i3 by auto
      qed
    qed
  qed
qed

lemma dealwith_recv_inv:
  assumes "server_inv d s" and "m_array_epoll_data s fd = Some c" and "reads_bounded y"
  shows "\<exists>s' r. dealwith_recv d y fd s = Some (s', r) \<and> server_inv d s' \<and> m_array_epoll_data s' fd \<noteq> None"
  using recv_head_inv [OF assms] recv_body_inv [OF assms] by (cases "length (m_data_recv c) < 4") simp_all

section \<open>Connections and commands\<close>

text \<open>A descriptor that \<open>accept\<close> returns is not in use, and the table has a cell for it.\<close>

definition accept_ok :: "accept_sys \<Rightarrow> tcpserver \<Rightarrow> bool" where
  "accept_ok a s \<longleftrightarrow> acc_fd a = - 1 \<or> 0 \<le> acc_fd a \<and> acc_fd a < int m_epoll_maxsize \<and> m_array_epoll_data s (acc_fd a) = None"

lemma new_connection_inv:
  assumes inv: "server_inv d s" and a: "accept_ok a s"
  shows "\<exists>s' r. dealwith_new_connection a s = Some (s', r) \<and> server_inv d s'"
proof (cases "acc_fd a = - 1 \<or> non_blocking (acc_getfl a) (acc_setfl a) = - 1 \<or> acc_setsockopt a = - 1 \<or> acc_epoll_add a = - 1")
  case True
  then show ?thesis using inv by (auto simp: dealwith_new_connection_def)
next
  case False
  let ?fd = "acc_fd a"
  have fd: "0 \<le> ?fd" "?fd < int m_epoll_maxsize" "m_array_epoll_data s ?fd = None" using a False by (auto simp: accept_ok_def)
  let ?c = "(new_connect_callback (acc_time a) ?fd (snd (get_unify_tag ?fd s)))\<lparr>m_clientip := acc_peer a\<rparr>"
  let ?s = "(set_cell ?fd (Some ?c) s)\<lparr>m_unify_id := m_unify_id s + 1, m_clientcount := m_clientcount s + 1, m_client_history_count := m_client_history_count s + 1\<rparr>"
  have cnt: "m_clientcount s = int (card (live s))" using server_inv_rest [OF inv] by simp
  then have eq: "dealwith_new_connection a s = Some (?s, 0)"
    using False fd card_live [OF inv] by (simp add: dealwith_new_connection_def get_unify_tag_def cell_def set_cell_def Let_def)
  have "live ?s = insert ?fd (live s)" by (auto simp: live_def)
  then have cnt': "m_clientcount ?s = int (card (live ?s))" using cnt finite_live [OF inv] fd(3) by (simp add: live_def)
  have "server_inv d ?s"
  proof (rule server_invI)
    show "client_ok d ?s x c" if "m_array_epoll_data ?s x = Some c" for x c
      using that inv_client [OF inv, of x c] fd
      by (auto simp: client_ok_def new_connect_callback_def socket_client_new_def buf_ok_def set_cell_def split: if_splits)
    show "entry_ok ?s k i" if "m_map_socket_ientity ?s k = Some i" for k i
      using that inv_entry [OF inv, of k i] fd by (auto simp: entry_ok_def set_cell_def)
  qed (use cnt' server_inv_rest [OF inv] in \<open>simp_all add: set_cell_def\<close>)
  then show ?thesis using eq by blast
qed

lemma senddata_inv:
  assumes inv: "server_inv d s" and c: "m_array_epoll_data s fd = Some c"
  shows "\<exists>s' r. senddata_internal d y data fd s = Some (s', r) \<and> server_inv d s' \<and> sends s' = sends s @ [(fd, data)]"
proof -
  let ?s = "s\<lparr>sends := sends s @ [(fd, data)]\<rparr>"
  have i: "server_inv d ?s" by (rule server_inv_cong [OF _ _ _ _ _ inv]) simp_all
  then obtain s' where cl: "close_internal d y fd ?s = Some (s', - 1)" "server_inv d s'" "sends s' = sends ?s"
    using close_internal_inv [of d ?s fd c y] c by auto
  show ?thesis
  proof (cases "sys_send y fd data = - 1")
    case True
    then show ?thesis using cl by (simp add: senddata_internal_def)
  next
    case False
    then show ?thesis using i by (cases "sys_send y fd data = int (length data)") (simp_all add: senddata_internal_def Let_def)
  qed
qed

lemma pipe_send_inv:
  assumes inv: "server_inv d s" and c: "m_array_epoll_data s (clientfd info) = Some c" and t: "pipe_target rtn s = Some info" and "cmd_type rtn = PIPE_CMD_SEND"
  shows "\<exists>s'. pipe_send d y rtn info c s = Some (s', 0) \<and> server_inv d s' \<and> sends s' = sends s @ [(clientfd info, str_data_send rtn)]"
proof -
  let ?c = "c\<lparr>m_last_update_seconds := sys_time y\<rparr>"
  let ?s = "set_cell (clientfd info) (Some ?c) s"
  have "server_inv d ?s" using inv_client [OF inv c] by (intro server_inv_client [OF inv c]) (simp_all add: client_ok_def)
  then obtain s' r where "senddata_internal d y (str_data_send rtn) (clientfd info) ?s = Some (s', r)" "server_inv d s'"
      "sends s' = sends s @ [(clientfd info, str_data_send rtn)]"
    using senddata_inv [of d ?s "clientfd info" ?c y "str_data_send rtn"] by (auto simp: set_cell_def)
  then show ?thesis using t assms(4) by (auto simp: pipe_send_def pipe_target_def Let_def set_cell_def split: if_splits)
qed

text \<open>A client that changes its state to that of an identity nobody holds.\<close>

lemma inv_new_identity:
  assumes inv: "server_inv d s" and c: "m_array_epoll_data s fd = Some c" and k: "m_map_socket_ientity s k = None" "k \<noteq> []" and e: "m_socket_identity c = []"
  shows "server_inv d (insert_identity k \<lparr>clientfd = fd, fd_unify_tag = m_unify_tag c\<rparr> (set_cell fd (Some (c\<lparr>m_socket_identity := k, m_is_authed := b\<rparr>)) s))"
    (is "server_inv d ?s")
proof (rule server_invI)
  have m: "m_map_socket_ientity ?s = (m_map_socket_ientity s)(k \<mapsto> \<lparr>clientfd = fd, fd_unify_tag = m_unify_tag c\<rparr>)"
    and a: "m_array_epoll_data ?s = (m_array_epoll_data s)(fd \<mapsto> c\<lparr>m_socket_identity := k, m_is_authed := b\<rparr>)"
    and r: "m_clientcount ?s = m_clientcount s" "m_queue_rtn ?s = m_queue_rtn s" "pipe_bytes ?s = pipe_bytes s"
    using k by (simp_all add: insert_identity_def set_cell_def)
  show "client_ok d ?s x c'" if "m_array_epoll_data ?s x = Some c'" for x c'
    using that inv_client [OF inv, of x] inv_client [OF inv c] k unfolding client_ok_def m a by (auto split: if_splits)
  show "entry_ok ?s k' i" if "m_map_socket_ientity ?s k' = Some i" for k' i
  proof (cases "k' = k")
    case True
    then show ?thesis using that k unfolding entry_ok_def m a by auto
  next
    case False
    then have "entry_ok s k' i" using that inv_entry [OF inv, of k' i] unfolding m by simp
    moreover from this have "clientfd i \<noteq> fd" using c e by (auto simp: entry_ok_def)
    ultimately show ?thesis unfolding entry_ok_def a by auto
  qed
  have "live ?s = live s" using c unfolding live_def a by auto
  then show "m_clientcount ?s = int (card (live ?s))" using server_inv_rest [OF inv] r by simp
qed (use server_inv_rest [OF inv] k in \<open>simp_all add: insert_identity_def set_cell_def\<close>)

text \<open>A client that is authenticated again keeps its identity.\<close>

definition auth_ok :: "STU_EPOLL_RTN \<Rightarrow> tcpserver \<Rightarrow> bool" where
  "auth_ok rtn s \<longleftrightarrow> (cmd_type rtn = PIPE_CMD_AUTH_OK \<longrightarrow> (case m_array_epoll_data s (clientfd rtn) of None \<Rightarrow> True
     | Some c \<Rightarrow> m_unify_tag c = fd_unify_tag rtn \<longrightarrow> m_socket_identity c = [] \<or> m_socket_identity c = socket_ientity rtn))"

lemma pipe_auth_inv:
  assumes inv: "server_inv d s" and c: "m_array_epoll_data s fd = Some c" and r: "clientfd rtn = fd" "fd_unify_tag rtn = m_unify_tag c"
    and a: "m_socket_identity c = [] \<or> m_socket_identity c = socket_ientity rtn"
  shows "\<exists>s'. pipe_auth d y rtn s = Some (s', 0) \<and> server_inv d s'
    \<and> (socket_ientity rtn \<noteq> [] \<longrightarrow> m_map_socket_ientity s' (socket_ientity rtn) = Some \<lparr>clientfd = fd, fd_unify_tag = m_unify_tag c\<rparr>
        \<and> m_array_epoll_data s' fd = Some (c\<lparr>m_socket_identity := socket_ientity rtn, m_is_authed := True\<rparr>))"
proof (cases "socket_ientity rtn = []")
  case True
  then show ?thesis using inv inv_cell [OF inv c] r by (auto simp: pipe_auth_def)
next
  case ne: False
  let ?k = "socket_ientity rtn"
  let ?i = "\<lparr>clientfd = fd, fd_unify_tag = m_unify_tag c\<rparr>"
  let ?c = "c\<lparr>m_socket_identity := ?k, m_is_authed := True\<rparr>"
  let ?s = "set_cell fd (Some ?c) s"
  have fd: "m_fd c = fd" using inv_client [OF inv c] by (simp add: client_ok_def)
  have ms: "m_map_socket_ientity ?s = m_map_socket_ientity s" by (simp add: set_cell_def)
  note simps = pipe_auth_def inv_cell [OF inv c] r fd ne Let_def ms
  show ?thesis
  proof (cases "m_map_socket_ientity s ?k")
    case None
    then have e: "m_socket_identity c = []" using a inv_client [OF inv c] by (auto simp: client_ok_def)
    show ?thesis using inv_new_identity [OF inv c None ne e, of True] None by (simp add: simps) (simp add: insert_identity_def set_cell_def)
  next
    case (Some i2)
    obtain c2 where c2: "m_array_epoll_data s (clientfd i2) = Some c2" "m_unify_tag c2 = fd_unify_tag i2" "m_socket_identity c2 = ?k"
      using inv_entry [OF inv Some] by (auto simp: entry_ok_def)
    show ?thesis
    proof (cases "clientfd i2 = fd")
      case True
      then have "c2 = c" "i2 = ?i" using c c2 by auto
      moreover have "server_inv d ?s" using \<open>c2 = c\<close> c2 inv_client [OF inv c] by (intro server_inv_client [OF inv c]) (simp_all add: client_ok_def)
      ultimately show ?thesis using True Some by (simp add: simps)
    next
      case False
      then have e: "m_socket_identity c = []" using a Some inv_client [OF inv c] by (auto simp: client_ok_def)
      let ?c' = "c\<lparr>m_is_authed := True\<rparr>"
      let ?t = "set_cell fd (Some ?c') s"
      have "server_inv d ?t" using inv_client [OF inv c] by (intro server_inv_client [OF inv c]) (simp_all add: client_ok_def)
      then obtain t' where t: "close_internal d y (clientfd i2) ?t = Some (t', - 1)" "server_inv d t'"
          "m_array_epoll_data t' = (m_array_epoll_data ?t)(clientfd i2 := None)" "m_map_socket_ientity t' = (m_map_socket_ientity ?t)(?k := None)"
        using close_internal_inv [of d ?t "clientfd i2" c2 y] c2 False ne by (auto simp: set_cell_def)
      have cl: "close_internal d y (clientfd i2) ?s = Some (set_cell fd (Some ?c) t', - 1)"
        using t(1) c2 ne False inv_cell [OF inv c2(1)]
        by (auto simp: close_internal_def cell_def set_cell_def data_notify_callback_def Let_def fun_upd_twist split: if_splits bind_splits)
      have tc: "m_array_epoll_data t' fd = Some ?c'" using t(3) False by simp
      have "server_inv d (insert_identity ?k ?i (set_cell fd (Some ?c) t'))"
        using inv_new_identity [OF t(2) tc _ ne, of True] t(4) e by simp
      then show ?thesis using cl Some False t(4) by (simp add: simps) (simp add: insert_identity_def set_cell_def)
    qed
  qed
qed

lemma pipe_dispatch_inv:
  assumes i: "server_inv d s" and nn: "0 \<le> clientfd rtn" and au: "auth_ok rtn s"
  shows "\<exists>s' r. pipe_dispatch d y rtn s = Some (s', r) \<and> server_inv d s'"
proof (cases "pipe_target rtn s")
  case None
  then show ?thesis using i by (simp add: pipe_dispatch_def)
next
  case (Some info)
  have t0: "0 \<le> clientfd info"
    using Some nn inv_entry [OF i] inv_client [OF i] by (fastforce simp: pipe_target_def Let_def entry_ok_def client_ok_def split: if_splits)
  show ?thesis
  proof (cases "clientfd info \<ge> 200000 \<or> m_array_epoll_data s (clientfd info) = None")
    case True
    then show ?thesis using i Some t0 by (auto simp: pipe_dispatch_def cell_def m_epoll_maxsize_def)
  next
    case False
    then obtain c where c: "m_array_epoll_data s (clientfd info) = Some c" by auto
    note simps = pipe_dispatch_def Some inv_cell [OF i c]
    consider "m_fd c \<noteq> clientfd info \<or> m_unify_tag c \<noteq> fd_unify_tag info" | "cmd_type rtn = PIPE_CMD_SEND" "m_unify_tag c = fd_unify_tag info"
      | "cmd_type rtn = PIPE_CMD_CLOSE" "m_unify_tag c = fd_unify_tag info" | "cmd_type rtn = PIPE_CMD_AUTH_OK" "m_unify_tag c = fd_unify_tag info"
      | "cmd_type rtn \<notin> {PIPE_CMD_SEND, PIPE_CMD_CLOSE, PIPE_CMD_AUTH_OK}" by auto
    then show ?thesis
    proof cases
      case 1
      then show ?thesis using i False by (simp add: simps)
    next
      case 2
      then show ?thesis using pipe_send_inv [OF i c Some 2(1), of y] False inv_client [OF i c] by (auto simp: simps client_ok_def)
    next
      case 3
      then show ?thesis using close_internal_inv [OF i c, of y] False inv_client [OF i c] by (auto simp: simps client_ok_def)
    next
      case 4
      have e: "clientfd rtn = clientfd info" "fd_unify_tag rtn = m_unify_tag c" using Some 4 by (auto simp: pipe_target_def)
      have "m_socket_identity c = [] \<or> m_socket_identity c = socket_ientity rtn" using au 4 by (simp add: auth_ok_def e c)
      then have "\<exists>s'. pipe_auth d y rtn s = Some (s', 0) \<and> server_inv d s'" using pipe_auth_inv [OF i c e] by blast
      then show ?thesis using 4 False inv_client [OF i c] by (auto simp: simps client_ok_def)
    next
      case 5
      then show ?thesis using i False inv_client [OF i c] by (auto simp: simps)
    qed
  qed
qed

text \<open>Taking the oldest command from the queue.\<close>

definition take_cmd :: "tcpserver \<Rightarrow> tcpserver" where
  "take_cmd s = s\<lparr>pipe_bytes := pipe_bytes s - 1, m_queue_rtn := fst (dequeue_nodelay (m_queue_rtn s))\<rparr>"

lemma pipe_cmd_eq:
  "sys_pipe_read y = 1 \<Longrightarrow> 0 < pipe_bytes s \<Longrightarrow> m_list (m_queue_rtn s) = rtn # q \<Longrightarrow> dealwith_pipe_cmd d y s = pipe_dispatch d y rtn (take_cmd s)"
  by (simp add: dealwith_pipe_cmd_def take_cmd_def dequeue_nodelay_def)

lemma take_cmd_inv:
  assumes inv: "server_inv d s" and p: "0 < pipe_bytes s"
  shows "server_inv d (take_cmd s)"
proof (rule server_invI)
  show "client_ok d (take_cmd s) x c" if "m_array_epoll_data (take_cmd s) x = Some c" for x c
    using inv_client [OF inv, of x c] that by (simp add: client_ok_def take_cmd_def)
  show "entry_ok (take_cmd s) k i" if "m_map_socket_ientity (take_cmd s) k = Some i" for k i
    using inv_entry [OF inv, of k i] that by (simp add: entry_ok_def take_cmd_def)
qed (use server_inv_rest [OF inv] p in \<open>auto simp: live_def take_cmd_def dequeue_nodelay_def split: list.splits\<close>)

lemma pipe_cmd_inv:
  assumes inv: "server_inv d s" and p: "0 < pipe_bytes s" and a: "\<forall>rtn q. m_list (m_queue_rtn s) = rtn # q \<longrightarrow> auth_ok rtn s"
  shows "\<exists>s' r. dealwith_pipe_cmd d y s = Some (s', r) \<and> server_inv d s'"
proof (cases "sys_pipe_read y = 1")
  case False
  then show ?thesis using inv by (simp add: dealwith_pipe_cmd_def)
next
  case True
  obtain rtn q where q: "m_list (m_queue_rtn s) = rtn # q" using server_inv_rest(4) [OF inv] p by (cases "m_list (m_queue_rtn s)") auto
  have "0 \<le> clientfd rtn" using server_inv_rest(2) [OF inv] q by simp
  moreover have "auth_ok rtn (take_cmd s)" using a q by (simp add: auth_ok_def take_cmd_def)
  ultimately show ?thesis using pipe_dispatch_inv [OF take_cmd_inv [OF inv p]] pipe_cmd_eq [OF True p q] by simp
qed

section \<open>Timeouts\<close>

definition expired :: "tcpserver \<Rightarrow> u64 \<Rightarrow> socket_client \<Rightarrow> bool" where
  "expired s now c \<longleftrightarrow> m_last_update_seconds c < now \<and> now - m_last_update_seconds c > word_of_int (m_invalid_socket_timeout_seconds s)"

definition without_expired :: "tcpserver \<Rightarrow> u64 \<Rightarrow> int set \<Rightarrow> int \<Rightarrow> socket_client option" where
  "without_expired s now F fd = (case m_array_epoll_data s fd of None \<Rightarrow> None | Some c \<Rightarrow> if fd \<in> F \<and> expired s now c then None else Some c)"

lemma timeout_cell_inv:
  assumes inv: "server_inv d s" and "fd < m_epoll_maxsize"
  shows "\<exists>s'. timeout_cell d y now s fd = Some s' \<and> server_inv d s' \<and> m_array_epoll_data s' = without_expired s now {int fd}
    \<and> m_invalid_socket_timeout_seconds s' = m_invalid_socket_timeout_seconds s \<and> m_last_timeout_check_seconds s' = m_last_timeout_check_seconds s"
proof (cases "m_array_epoll_data s (int fd)")
  case None
  then have "without_expired s now {int fd} = m_array_epoll_data s" by (auto simp: without_expired_def fun_eq_iff split: option.splits)
  then show ?thesis using None assms by (simp add: timeout_cell_def cell_in)
next
  case (Some c)
  have f: "m_fd c = int fd" using inv_client [OF inv Some] by (simp add: client_ok_def)
  show ?thesis
  proof (cases "expired s now c")
    case True
    then have "without_expired s now {int fd} = (m_array_epoll_data s)(int fd := None)"
      using Some by (auto simp: without_expired_def fun_eq_iff split: option.splits)
    then show ?thesis using True Some f inv_cell [OF inv Some] close_internal_inv [OF inv Some, of y] by (auto simp: timeout_cell_def expired_def)
  next
    case False
    then have "without_expired s now {int fd} = m_array_epoll_data s"
      using Some by (auto simp: without_expired_def fun_eq_iff split: option.splits)
    then show ?thesis using False Some inv inv_cell [OF inv Some] by (auto simp: timeout_cell_def expired_def)
  qed
qed

lemma without_expired_twice:
  assumes "m_array_epoll_data s' = without_expired s now F" and "m_invalid_socket_timeout_seconds s' = m_invalid_socket_timeout_seconds s"
  shows "without_expired s' now G = without_expired s now (F \<union> G)"
  using assms(2) by (auto simp: without_expired_def [of s'] assms(1) fun_eq_iff without_expired_def expired_def split: option.splits)

lemma timeouts_inv:
  assumes "server_inv d s" and "\<forall>fd \<in> set fds. fd < m_epoll_maxsize"
  shows "\<exists>s'. adds (timeout_cell d y now) s fds = Some s' \<and> server_inv d s' \<and> m_array_epoll_data s' = without_expired s now (int ` set fds)
    \<and> m_last_timeout_check_seconds s' = m_last_timeout_check_seconds s"
  using assms
proof (induction fds arbitrary: s)
  case Nil
  moreover have "without_expired s now {} = m_array_epoll_data s" by (auto simp: without_expired_def fun_eq_iff split: option.splits)
  ultimately show ?case by simp
next
  case (Cons fd fds)
  obtain s1 where s1: "timeout_cell d y now s fd = Some s1" "server_inv d s1" "m_array_epoll_data s1 = without_expired s now {int fd}"
      "m_invalid_socket_timeout_seconds s1 = m_invalid_socket_timeout_seconds s" "m_last_timeout_check_seconds s1 = m_last_timeout_check_seconds s"
    using timeout_cell_inv [of d s fd y now] Cons.prems by auto
  show ?case using Cons.IH [OF s1(2)] Cons.prems(2) s1 without_expired_twice [OF s1(3,4)] by simp
qed

lemma expired_all: "server_inv d s \<Longrightarrow> without_expired s now (int ` {0..<m_epoll_maxsize}) = without_expired s now UNIV"
proof
  fix fd
  assume inv: "server_inv d s"
  have "fd \<in> int ` {0..<m_epoll_maxsize}" if "m_array_epoll_data s fd = Some c" for c
    using inv_client [OF inv that] by (auto simp: client_ok_def image_iff intro!: bexI [of _ "nat fd"])
  then show "without_expired s now (int ` {0..<m_epoll_maxsize}) fd = without_expired s now UNIV fd"
    by (auto simp: without_expired_def split: option.splits)
qed

definition timeout_due :: "u64 \<Rightarrow> tcpserver \<Rightarrow> bool" where
  "timeout_due now s \<longleftrightarrow> now > m_last_timeout_check_seconds s \<and> now - m_last_timeout_check_seconds s \<ge> word_of_int (m_check_timeout_interval_seconds s)"

lemma check_timeout_spec:
  assumes inv: "server_inv d s"
  shows "\<exists>s'. check_timeout d y s = Some s' \<and> server_inv d s'
    \<and> m_array_epoll_data s' = (if timeout_due (sys_time y) s then without_expired s (sys_time y) UNIV else m_array_epoll_data s)
    \<and> m_last_timeout_check_seconds s' = (if timeout_due (sys_time y) s then sys_time y else m_last_timeout_check_seconds s)"
proof (cases "timeout_due (sys_time y) s")
  case False
  then show ?thesis using inv by (auto simp: check_timeout_def timeout_due_def Let_def)
next
  case True
  let ?s = "s\<lparr>m_last_timeout_check_seconds := sys_time y\<rparr>"
  have i: "server_inv d ?s" by (rule server_inv_cong [OF _ _ _ _ _ inv]) simp_all
  moreover have "without_expired ?s (sys_time y) F = without_expired s (sys_time y) F" for F
    by (auto simp: without_expired_def expired_def fun_eq_iff split: option.splits)
  ultimately show ?thesis using timeouts_inv [OF i, of "[0..<m_epoll_maxsize]" y "sys_time y"] True expired_all [OF inv]
    by (auto simp: check_timeout_def timeout_due_def Let_def)
qed

section \<open>Reachable states\<close>

text \<open>What may happen: the kernel keeps its promises, and a client that is authenticated again keeps its identity.\<close>

definition allowed :: "tcpserver \<Rightarrow> event \<Rightarrow> bool" where
  "allowed s e \<longleftrightarrow> (case e of Ev_listen a \<Rightarrow> accept_ok a s
     | Ev_pipe y \<Rightarrow> 0 < pipe_bytes s \<and> (case m_list (m_queue_rtn s) of [] \<Rightarrow> True | rtn # _ \<Rightarrow> auth_ok rtn s)
     | Ev_client fd y \<Rightarrow> m_array_epoll_data s fd \<noteq> None \<and> reads_bounded y)"

inductive server_reach :: "deps \<Rightarrow> tcpserver \<Rightarrow> bool" for d where
  start: "server_reach d (tcpserver_init now interval invalid)"
| event: "server_reach d s \<Longrightarrow> allowed s e \<Longrightarrow> reactor_event d s e = Some s' \<Longrightarrow> server_reach d s'"
| timeouts: "server_reach d s \<Longrightarrow> check_timeout d y s = Some s' \<Longrightarrow> server_reach d s'"
| cmd_send: "server_reach d s \<Longrightarrow> 0 \<le> fd \<Longrightarrow> server_reach d (fst (reply_data y fd tag data s))"
| cmd_close: "server_reach d s \<Longrightarrow> 0 \<le> fd \<Longrightarrow> server_reach d (fst (reply_close y fd tag s))"
| cmd_auth: "server_reach d s \<Longrightarrow> 0 \<le> fd \<Longrightarrow> server_reach d (fst (reply_auth_ok y fd tag k s))"
| cmd_send_identity: "server_reach d s \<Longrightarrow> server_reach d (fst (reply_data_identity y k data s))"

lemma reactor_event_inv:
  assumes inv: "server_inv d s" and a: "allowed s e"
  shows "\<exists>s'. reactor_event d s e = Some s' \<and> server_inv d s'"
proof (cases e)
  case (Ev_listen x)
  then show ?thesis using new_connection_inv [OF inv, of x] a by (auto simp: reactor_event_def allowed_def)
next
  case (Ev_pipe y)
  then show ?thesis using pipe_cmd_inv [OF inv, of y] a by (auto simp: reactor_event_def allowed_def split: list.splits)
next
  case (Ev_client fd y)
  then obtain c where "m_array_epoll_data s fd = Some c" "reads_bounded y" using a by (auto simp: allowed_def)
  then obtain s1 r where s1: "dealwith_recv d y fd s = Some (s1, r)" "server_inv d s1" "m_array_epoll_data s1 fd \<noteq> None"
    using dealwith_recv_inv [OF inv] by blast
  then obtain c1 where "m_array_epoll_data s1 fd = Some c1" by auto
  then show ?thesis using Ev_client s1 close_internal_inv [OF s1(2), of fd c1 y] by (cases "r = - 1") (auto simp: reactor_event_def)
qed

lemma server_reach_inv: "server_reach d s \<Longrightarrow> server_inv d s"
proof (induction rule: server_reach.induct)
  case (start now interval invalid)
  show ?case by (rule server_inv_init)
next
  case (event s e s')
  then show ?case using reactor_event_inv by fastforce
next
  case (timeouts s y s')
  then show ?case using check_timeout_spec [of d s y] by auto
qed (simp_all add: command_inv reply_data_def reply_close_def reply_auth_ok_def reply_data_identity_def)

section \<open>Properties\<close>

text \<open>The client a command is addressed to: by descriptor and tag, or by its identity.\<close>

definition addressed :: "tcpserver \<Rightarrow> STU_EPOLL_RTN \<Rightarrow> int \<Rightarrow> socket_client \<Rightarrow> bool" where
  "addressed s rtn fd c \<longleftrightarrow> m_array_epoll_data s fd = Some c
     \<and> (if cmd_type rtn = PIPE_CMD_AUTH_OK \<or> socket_ientity rtn = [] then fd = clientfd rtn \<and> m_unify_tag c = fd_unify_tag rtn
        else m_socket_identity c = socket_ientity rtn)"

lemma pipe_target_addressed:
  assumes inv: "server_inv d s" and "addressed s rtn fd c"
  shows "pipe_target rtn s = Some \<lparr>clientfd = fd, fd_unify_tag = m_unify_tag c\<rparr>"
proof (cases "cmd_type rtn = PIPE_CMD_AUTH_OK \<or> socket_ientity rtn = []")
  case True
  then show ?thesis using assms(2) by (auto simp: addressed_def pipe_target_def Let_def)
next
  case False
  then have "m_array_epoll_data s fd = Some c" "m_socket_identity c = socket_ientity rtn" using assms(2) by (auto simp: addressed_def)
  then show ?thesis using False inv_client [OF inv, of fd c] by (auto simp: pipe_target_def client_ok_def)
qed

lemma pipe_dispatch_addressed:
  assumes inv: "server_inv d s" and a: "addressed s rtn fd c"
  shows "pipe_dispatch d y rtn s =
    (if cmd_type rtn = PIPE_CMD_SEND then pipe_send d y rtn \<lparr>clientfd = fd, fd_unify_tag = m_unify_tag c\<rparr> c s
     else if cmd_type rtn = PIPE_CMD_CLOSE then do { (s, _) \<leftarrow> close_internal d y fd s; Some (s, 0) }
     else if cmd_type rtn = PIPE_CMD_AUTH_OK then pipe_auth d y rtn s else Some (s, - 1))"
proof -
  have c: "m_array_epoll_data s fd = Some c" using a by (simp add: addressed_def)
  then show ?thesis using pipe_target_addressed [OF inv a] inv_cell [OF inv c] inv_client [OF inv c]
    by (simp add: pipe_dispatch_def client_ok_def m_epoll_maxsize_def)
qed

lemma pipe_dispatch_refused:
  assumes inv: "server_inv d s" and nn: "0 \<le> clientfd rtn" and na: "\<nexists>fd c. addressed s rtn fd c"
  shows "pipe_dispatch d y rtn s = Some (s, - 1)"
proof (cases "pipe_target rtn s")
  case None
  then show ?thesis by (simp add: pipe_dispatch_def)
next
  case (Some info)
  have own: "cmd_type rtn = PIPE_CMD_AUTH_OK \<or> socket_ientity rtn = []"
    using Some na inv_entry [OF inv, of "socket_ientity rtn"] by (fastforce simp: pipe_target_def addressed_def entry_ok_def split: if_splits)
  then have i: "clientfd info = clientfd rtn" "fd_unify_tag info = fd_unify_tag rtn" using Some by (auto simp: pipe_target_def Let_def split: if_splits)
  then show ?thesis
  proof (cases "m_array_epoll_data s (clientfd rtn)")
    case None
    then show ?thesis using Some i nn by (simp add: pipe_dispatch_def cell_def m_epoll_maxsize_def)
  next
    case (Some c)
    then have "m_unify_tag c \<noteq> fd_unify_tag rtn" using na own by (auto simp: addressed_def)
    then show ?thesis using \<open>pipe_target rtn s = Some info\<close> Some i inv_cell [OF inv Some] by (simp add: pipe_dispatch_def)
  qed
qed

lemma close_internal_queue: "close_internal d y fd s = Some (s', r) \<Longrightarrow> m_queue_rtn s' = m_queue_rtn s \<and> pipe_bytes s' = pipe_bytes s"
  by (auto simp: close_internal_def data_notify_callback_def set_cell_def Let_def split: bind_splits option.splits if_splits)

lemma senddata_queue: "senddata_internal d y data fd s = Some (s', r) \<Longrightarrow> m_queue_rtn s' = m_queue_rtn s \<and> pipe_bytes s' = pipe_bytes s"
  by (auto simp: senddata_internal_def Let_def dest!: close_internal_queue split: bind_splits if_splits)

lemma pipe_dispatch_queue: "pipe_dispatch d y rtn s = Some (s', r) \<Longrightarrow> m_queue_rtn s' = m_queue_rtn s \<and> pipe_bytes s' = pipe_bytes s"
  by (auto simp: pipe_dispatch_def pipe_send_def pipe_auth_def insert_identity_def set_cell_def Let_def dest!: close_internal_queue senddata_queue
      split: bind_splits option.splits if_splits)

lemma pipe_dispatch_effect:
  assumes i: "server_inv d s" and nn: "0 \<le> clientfd rtn" and a: "addressed s rtn fd c" and au: "auth_ok rtn s"
  shows "\<exists>s' r. pipe_dispatch d y rtn s = Some (s', r)
    \<and> (cmd_type rtn = PIPE_CMD_SEND \<longrightarrow> sends s' = sends s @ [(fd, str_data_send rtn)])
    \<and> (cmd_type rtn = PIPE_CMD_CLOSE \<longrightarrow> closes s' = closes s @ [fd] \<and> m_array_epoll_data s' = (m_array_epoll_data s)(fd := None))
    \<and> (cmd_type rtn = PIPE_CMD_AUTH_OK \<and> socket_ientity rtn \<noteq> [] \<longrightarrow>
        m_array_epoll_data s' fd = Some (c\<lparr>m_socket_identity := socket_ientity rtn, m_is_authed := True\<rparr>)
        \<and> m_map_socket_ientity s' (socket_ientity rtn) = Some \<lparr>clientfd = fd, fd_unify_tag = m_unify_tag c\<rparr>)"
proof -
  have c: "m_array_epoll_data s fd = Some c" using a by (simp add: addressed_def)
  have t: "pipe_target rtn s = Some \<lparr>clientfd = fd, fd_unify_tag = m_unify_tag c\<rparr>" by (rule pipe_target_addressed [OF i a])
  obtain s' r where s': "pipe_dispatch d y rtn s = Some (s', r)" using pipe_dispatch_inv [OF i nn au] by blast
  note d = s' [unfolded pipe_dispatch_addressed [OF i a]]
  have "cmd_type rtn = PIPE_CMD_SEND \<longrightarrow> sends s' = sends s @ [(fd, str_data_send rtn)]"
    using d pipe_send_inv [OF i _ t, of c y] c by auto
  moreover have "cmd_type rtn = PIPE_CMD_CLOSE \<longrightarrow> closes s' = closes s @ [fd] \<and> m_array_epoll_data s' = (m_array_epoll_data s)(fd := None)"
    using d close_internal_inv [OF i c, of y] by auto
  moreover have "m_array_epoll_data s' fd = Some (c\<lparr>m_socket_identity := socket_ientity rtn, m_is_authed := True\<rparr>)
      \<and> m_map_socket_ientity s' (socket_ientity rtn) = Some \<lparr>clientfd = fd, fd_unify_tag = m_unify_tag c\<rparr>"
    if k: "cmd_type rtn = PIPE_CMD_AUTH_OK \<and> socket_ientity rtn \<noteq> []"
  proof -
    have r: "clientfd rtn = fd" "fd_unify_tag rtn = m_unify_tag c" using a k by (auto simp: addressed_def)
    have "m_socket_identity c = [] \<or> m_socket_identity c = socket_ientity rtn" using au k c r by (simp add: auth_ok_def)
    from pipe_auth_inv [OF i c r this, of y] show ?thesis using d k by auto
  qed
  ultimately show ?thesis using s' by blast
qed

lemma addressed_unique:
  assumes "server_inv d s" and "addressed s rtn fd c" and "addressed s rtn fd' c'"
  shows "fd' = fd \<and> c' = c"
proof -
  have "fd' = fd" using pipe_target_addressed [OF assms(1,2)] pipe_target_addressed [OF assms(1,3)] by simp
  then show ?thesis using assms(2,3) by (simp add: addressed_def)
qed




text \<open>A connection on descriptor 5, opened at time 0.\<close>

definition peer5 :: accept_sys where
  "peer5 = \<lparr>acc_fd = 5, acc_getfl = 0, acc_setfl = 0, acc_setsockopt = 0, acc_epoll_add = 0, acc_peer = [49], acc_time = 0\<rparr>"

definition one_client :: tcpserver where
  "one_client = (tcpserver_init 0 1 1)\<lparr>m_array_epoll_data := (\<lambda>_. None)(5 \<mapsto> (socket_client_new 0 5 (push_bit 32 5 + 1))\<lparr>m_clientip := [49]\<rparr>),
     m_unify_id := 1, m_clientcount := 1, m_client_history_count := 1\<rparr>"

lemma one_client_reach: "server_reach d one_client"
proof (rule server_reach.event [OF server_reach.start [of d 0 1 1]])
  show "allowed (tcpserver_init 0 1 1) (Ev_listen peer5)"
    by (simp add: allowed_def accept_ok_def peer5_def tcpserver_init_def m_epoll_maxsize_def)
  show "reactor_event d (tcpserver_init 0 1 1) (Ev_listen peer5) = Some one_client"
    by (simp add: reactor_event_def dealwith_new_connection_def peer5_def non_blocking_def get_unify_tag_def cell_def m_epoll_maxsize_def set_cell_def
        new_connect_callback_def one_client_def tcpserver_init_def)
qed




text \<open>
  Without the assumption on identities.  A client authenticates as \<open>A\<close>, then as \<open>B\<close>, and leaves; its descriptor 5 goes to a stranger.  When a client on descriptor 6
  authenticates as \<open>A\<close>, the stranger's connection is closed, and \<open>A\<close> still leads to the descriptor and tag of the client that left.
\<close>

definition auth_cmd :: "int \<Rightarrow> u64 \<Rightarrow> byte list \<Rightarrow> tcpserver \<Rightarrow> tcpserver option" where
  "auth_cmd fd tag k s = map_option fst (dealwith_pipe_cmd plain_deps quiet_sys (fst (reply_auth_ok quiet_sys fd tag k s)))"

definition reauth_run :: "tcpserver option" where
  "reauth_run = do {
     s \<leftarrow> auth_cmd 5 21474836481 [65] one_client;
     s \<leftarrow> auth_cmd 5 21474836481 [66] s;
     (s, _) \<leftarrow> dealwith_pipe_cmd plain_deps quiet_sys (fst (reply_close quiet_sys 5 21474836481 s));
     s \<leftarrow> reactor_event plain_deps s (Ev_listen peer5);
     s \<leftarrow> reactor_event plain_deps s (Ev_listen (peer5\<lparr>acc_fd := 6\<rparr>));
     auth_cmd 6 25769803779 [65] s
   }"

lemma tcp_reauth_closes_stranger:
  "\<exists>s. reauth_run = Some s \<and> closes s = [5, 5] \<and> m_array_epoll_data s 5 = None \<and> map_option m_socket_identity (m_array_epoll_data s 6) = Some [65]
     \<and> m_map_socket_ientity s [65] = Some \<lparr>clientfd = 5, fd_unify_tag = 21474836481\<rparr>"
proof -
  have "map_option (\<lambda>s. (closes s, m_array_epoll_data s 5, map_option m_socket_identity (m_array_epoll_data s 6), m_map_socket_ientity s [65])) reauth_run
    = Some ([5, 5], None, Some [65], Some \<lparr>clientfd = 5, fd_unify_tag = 21474836481\<rparr>)" by code_simp
  then show ?thesis by auto
qed

text \<open>An event for a descriptor that a command of the same round has closed is taken for a failed read: the count goes down and \<open>close\<close> is called once more.\<close>

lemma tcp_stale_event_miscounts:
  "cell s fd = Some None \<Longrightarrow> - (2 ^ 31) \<le> m_clientcount s - 1 \<Longrightarrow> m_clientcount s < 2 ^ 31 \<Longrightarrow>
   \<exists>s'. reactor_event d s (Ev_client fd y) = Some s' \<and> m_clientcount s' = m_clientcount s - 1 \<and> closes s' = closes s @ [fd]"
  by (auto simp: reactor_event_def dealwith_recv_def close_internal_def)

text \<open>A descriptor of 200000 or more is written behind the table.\<close>

lemma tcp_accept_overflow:
  "acc_fd a \<ge> 200000 \<Longrightarrow> non_blocking (acc_getfl a) (acc_setfl a) \<noteq> - 1 \<Longrightarrow> acc_setsockopt a \<noteq> - 1 \<Longrightarrow> acc_epoll_add a \<noteq> - 1 \<Longrightarrow>
   dealwith_new_connection a s = None"
  by (simp add: dealwith_new_connection_def get_unify_tag_def cell_def m_epoll_maxsize_def)

end
