(* ===== verification/TcpDispatch.thy ===== *)
theory TcpDispatch
  imports TcpInv
begin

text \<open>
  \<open>template_tcp/src/main/dispatcher.cpp\<close>: the worker side of the TCP server, which answers requests for random keys and authentications.  The keys are held in Redis;
  the client of Redis, the pool it comes from, random numbers and the clock are parameters.
\<close>

section \<open>Definitions\<close>

text \<open>The store as the methods of \<open>redis_client\<close> show it, and what \<open>fetch_obj_from_pool\<close> answers.\<close>

record 'r cache =
  redis_get :: "byte list \<Rightarrow> 'r \<Rightarrow> int"
  redis_set :: "byte list \<Rightarrow> byte list \<Rightarrow> 'r \<Rightarrow> 'r \<times> int"
  redis_expire :: "byte list \<Rightarrow> int \<Rightarrow> 'r \<Rightarrow> 'r"
  redis_del :: "byte list \<Rightarrow> 'r \<Rightarrow> 'r"
  pool_fetch :: "'r \<Rightarrow> int"

definition PREFIX_RANDOMKEY :: "byte list" where "PREFIX_RANDOMKEY = ascii ''randomkey''"

definition set_randomkey_cache :: "'r cache \<Rightarrow> byte list \<Rightarrow> 'r \<Rightarrow> 'r \<times> int" where
  "set_randomkey_cache C key r =
     (if pool_fetch C r = - 1 then (r, - 1)
      else let (r, result) = redis_set C (PREFIX_RANDOMKEY @ key) (ascii ''0'') r
        in if result = - 1 then (r, - 1) else (redis_expire C (PREFIX_RANDOMKEY @ key) 120 r, 0))"

definition remove_randomkey_cache :: "'r cache \<Rightarrow> byte list \<Rightarrow> 'r \<Rightarrow> 'r \<times> int" where
  "remove_randomkey_cache C key r = (if pool_fetch C r = - 1 then (r, - 1) else (redis_del C (PREFIX_RANDOMKEY @ key) r, 0))"

definition query_randomkey_cache :: "'r cache \<Rightarrow> byte list \<Rightarrow> 'r \<Rightarrow> int" where
  "query_randomkey_cache C key r =
     (if pool_fetch C r = - 1 then - 1
      else let result = redis_get C (PREFIX_RANDOMKEY @ key) r
        in if result \<noteq> 0 \<and> result \<noteq> 1 \<and> result \<noteq> - 1 then - 1 else result)"

definition fetch_tokenid :: "byte list \<Rightarrow> byte list \<Rightarrow> byte list \<times> int" where
  "fetch_tokenid m_server_domain gameinternalno = (gameinternalno @ ascii ''@'' @ m_server_domain @ ascii ''/resourcerandomidxxxx'', 0)"

text \<open>Refusal: an answer and the end of the connection.  \<open>y\<close> and \<open>y'\<close> are the system calls of the two commands.\<close>

definition refuse :: "sys \<Rightarrow> sys \<Rightarrow> deps \<Rightarrow> STU_MSG_INFO \<Rightarrow> byte list \<Rightarrow> tcpserver \<Rightarrow> tcpserver" where
  "refuse y y' d msg rtn_content s =
     fst (reply_close y' (msg_fd msg) (msg_tag msg) (fst (reply_data y (msg_fd msg) (msg_tag msg) (fst (encode_buffer (host_le d) 0 rtn_content [])) s)))"

definition process_auth :: "sys \<Rightarrow> sys \<Rightarrow> deps \<Rightarrow> 'r cache \<Rightarrow> byte list \<Rightarrow> STU_MSG_INFO \<Rightarrow> tcpserver \<times> 'r \<Rightarrow> tcpserver \<times> 'r" where
  "process_auth y y' d C m_server_domain prequest sr =
     (let (s, r) = sr;
          m = decode_content (boost_split d) (boost_trim d) (msg_content prequest) Map.empty;
          seqid = get_vaule (ascii ''seqid'') m;
          gameinternalno = get_vaule (ascii ''gameinternalno'') m;
          randomkey = get_vaule (ascii ''key'') m
      in if randomkey = [] then (refuse y y' d prequest (fst (encode_auth False [] seqid [])) s, r)
         else if query_randomkey_cache C randomkey r \<noteq> 1 then (refuse y y' d prequest (fst (encode_auth False [] seqid [])) s, r)
         else let r = fst (remove_randomkey_cache C randomkey r);
                  (tokenid, result) = fetch_tokenid m_server_domain gameinternalno
           in if result = - 1 \<or> tokenid = [] then (refuse y y' d prequest (fst (encode_auth False [] seqid [])) s, r)
              else let rtn_buffer = fst (encode_buffer (host_le d) 0 (fst (encode_auth True [] seqid tokenid)) []);
                       s = fst (reply_auth_ok y (msg_fd prequest) (msg_tag prequest) tokenid s)
                in (fst (reply_data y' (msg_fd prequest) (msg_tag prequest) rtn_buffer s), r))"

text \<open>\<open>nonce\<close> is the text of \<open>random()\<close> and \<open>time(NULL)\<close>.\<close>

definition process_getkey :: "sys \<Rightarrow> sys \<Rightarrow> deps \<Rightarrow> 'r cache \<Rightarrow> byte list \<Rightarrow> STU_MSG_INFO \<Rightarrow> tcpserver \<times> 'r \<Rightarrow> tcpserver \<times> 'r" where
  "process_getkey y y' d C nonce prequest sr =
     (let (s, r) = sr;
          m = decode_content (boost_split d) (boost_trim d) (msg_content prequest) Map.empty;
          gameinternalno = get_vaule (ascii ''gameinternalno'') m;
          randomkey = get_md5 d (gameinternalno @ nonce);
          (r, result) = set_randomkey_cache C randomkey r
      in if result = - 1 then (refuse y y' d prequest (fst (encode_getkey_rtn False randomkey [])) s, r)
         else (fst (reply_data y (msg_fd prequest) (msg_tag prequest) (fst (encode_buffer (host_le d) 0 (fst (encode_getkey_rtn True randomkey [])) [])) s), r))"

text \<open>One round of \<open>adapter_cmd_doit\<close>: the message becomes a task of the pool, or is passed on to the application server.\<close>

datatype task = Task_auth STU_MSG_INFO | Task_getkey STU_MSG_INFO

record dispatcher =
  m_queue_task :: "task block_queue"
  zmq_sent :: "byte list list"

definition adapter_cmd :: "STU_MSG_INFO \<Rightarrow> dispatcher \<Rightarrow> dispatcher" where
  "adapter_cmd msg w =
     (if msg_content_path msg = CONTENT_PATH_AUTH then w\<lparr>m_queue_task := add_queue (Task_auth msg) (m_queue_task w)\<rparr>
      else if msg_content_path msg = CONTENT_PATH_GETKEY then w\<lparr>m_queue_task := add_queue (Task_getkey msg) (m_queue_task w)\<rparr>
      else w\<lparr>zmq_sent := zmq_sent w @ [msg_content msg]\<rparr>)"

definition adapter_cmd_doit :: "int \<Rightarrow> STU_MSG_INFO list \<Rightarrow> tcpserver \<times> dispatcher \<Rightarrow> tcpserver \<times> dispatcher" where
  "adapter_cmd_doit result during sw =
     (let (s, w) = sw; (q, data, r) = dequeue_expand result during (m_queue_adapter_cmd s); s = s\<lparr>m_queue_adapter_cmd := q\<rparr>
      in case data of None \<Rightarrow> (s, w) | Some msg \<Rightarrow> (s, adapter_cmd msg w))"

text \<open>A message for a client from the application server; \<open>tokenid\<close> is that of the JSON object \<open>str_data\<close>.\<close>

definition zmq_sub_recv_callback :: "sys \<Rightarrow> deps \<Rightarrow> byte list \<Rightarrow> byte list \<Rightarrow> byte list \<Rightarrow> tcpserver \<Rightarrow> tcpserver" where
  "zmq_sub_recv_callback y d m_server_domain tokenid str_data s =
     (if tokenid = [] then s
      else if find_from tokenid m_server_domain 0 = None then s
      else fst (reply_data_identity y tokenid (fst (encode_buffer (host_le d) 0 str_data [])) s))"

section \<open>An authentication\<close>

lemma write_ok: "sys_write y 0 \<noteq> - 1 \<Longrightarrow> write_byte_to_pipe y s = (s\<lparr>pipe_bytes := pipe_bytes s + 1\<rparr>, 0)"
  by (simp add: write_byte_to_pipe_def write_loop.simps)

lemma pipe_auth_sends: "pipe_auth d y rtn s = Some (s', r) \<Longrightarrow> sends s' = sends s"
  by (auto simp: pipe_auth_def insert_identity_def set_cell_def close_internal_def data_notify_callback_def Let_def
      split: bind_splits option.splits if_splits)

text \<open>The two commands of a successful authentication, executed one after the other.\<close>

lemma auth_then_send:
  assumes inv: "server_inv d s" and c: "m_array_epoll_data s fd = Some c" and e: "m_socket_identity c = []" and k: "tok \<noteq> []"
    and q: "m_list (m_queue_rtn s) =
      [\<lparr>clientfd = fd, fd_unify_tag = m_unify_tag c, socket_ientity = tok, str_data_send = [], cmd_type = PIPE_CMD_AUTH_OK\<rparr>,
       \<lparr>clientfd = fd, fd_unify_tag = m_unify_tag c, socket_ientity = [], str_data_send = data, cmd_type = PIPE_CMD_SEND\<rparr>]"
    and p: "pipe_bytes s = 2" and z: "sys_pipe_read z = 1" "sys_pipe_read z' = 1" and snd: "sys_send z' fd data = int (length data)"
  shows "\<exists>s2 s3. dealwith_pipe_cmd d z s = Some (s2, 0) \<and> dealwith_pipe_cmd d z' s2 = Some (s3, 0)
    \<and> m_array_epoll_data s3 fd = Some (c\<lparr>m_socket_identity := tok, m_is_authed := True, m_last_update_seconds := sys_time z'\<rparr>)
    \<and> m_map_socket_ientity s3 tok = Some \<lparr>clientfd = fd, fd_unify_tag = m_unify_tag c\<rparr>
    \<and> sends s3 = sends s @ [(fd, data)] \<and> m_list (m_queue_rtn s3) = []"
proof -
  let ?a = "\<lparr>clientfd = fd, fd_unify_tag = m_unify_tag c, socket_ientity = tok, str_data_send = [], cmd_type = PIPE_CMD_AUTH_OK\<rparr>"
  let ?b = "\<lparr>clientfd = fd, fd_unify_tag = m_unify_tag c, socket_ientity = [], str_data_send = data, cmd_type = PIPE_CMD_SEND\<rparr>"
  let ?c = "c\<lparr>m_socket_identity := tok, m_is_authed := True\<rparr>"
  have i1: "server_inv d (take_cmd s)" using take_cmd_inv [OF inv] p by simp
  have c1: "m_array_epoll_data (take_cmd s) fd = Some c" and r1: "sends (take_cmd s) = sends s" "m_list (m_queue_rtn (take_cmd s)) = [?b]" "pipe_bytes (take_cmd s) = 1"
    using c q p by (simp_all add: take_cmd_def dequeue_nodelay_def)
  obtain s2 where s2: "pipe_auth d z ?a (take_cmd s) = Some (s2, 0)" "server_inv d s2"
      "m_map_socket_ientity s2 tok = Some \<lparr>clientfd = fd, fd_unify_tag = m_unify_tag c\<rparr>" "m_array_epoll_data s2 fd = Some ?c"
    using pipe_auth_inv [OF i1 c1, of ?a z] e k by auto
  have d1: "pipe_dispatch d z ?a (take_cmd s) = Some (s2, 0)"
    using pipe_dispatch_addressed [OF i1, of ?a fd c z] c1 s2(1) by (simp add: addressed_def)
  then have e1: "dealwith_pipe_cmd d z s = Some (s2, 0)" using pipe_cmd_eq [OF z(1) _ q] p by simp
  have q2: "m_list (m_queue_rtn s2) = [?b]" "pipe_bytes s2 = 1" using pipe_dispatch_queue [OF d1] r1 by simp_all
  let ?t = "take_cmd s2"
  have i2: "server_inv d ?t" using take_cmd_inv [OF s2(2)] q2 by simp
  have c2: "m_array_epoll_data ?t fd = Some ?c" and r2: "sends ?t = sends s" "m_list (m_queue_rtn ?t) = []" "m_map_socket_ientity ?t = m_map_socket_ientity s2"
    using s2(4) q2 pipe_auth_sends [OF s2(1)] r1(1) by (simp_all add: take_cmd_def dequeue_nodelay_def)
  let ?s3 = "(set_cell fd (Some (?c\<lparr>m_last_update_seconds := sys_time z'\<rparr>)) ?t)\<lparr>sends := sends s @ [(fd, data)]\<rparr>"
  have "pipe_dispatch d z' ?b ?t = Some (?s3, 0)"
    using pipe_dispatch_addressed [OF i2, of ?b fd ?c z'] c2 snd r2(1)
    by (simp add: addressed_def pipe_send_def senddata_internal_def set_cell_def Let_def)
  then have "dealwith_pipe_cmd d z' s2 = Some (?s3, 0)" using pipe_cmd_eq [OF z(2) _ q2(1)] q2(2) by simp
  then show ?thesis using e1 s2(3) r2 by (intro exI [of _ s2] exI [of _ ?s3]) (simp add: set_cell_def)
qed


text \<open>A store of strings, for examples.\<close>

definition map_cache :: "(byte list \<rightharpoonup> byte list) cache" where
  "map_cache = \<lparr>redis_get = (\<lambda>k r. if r k = None then 0 else 1), redis_set = (\<lambda>k v r. (r(k \<mapsto> v), 0)), redis_expire = (\<lambda>_ _ r. r),
     redis_del = (\<lambda>k r. r(k := None)), pool_fetch = (\<lambda>_. 0)\<rparr>"

definition auth_msg :: STU_MSG_INFO where
  "auth_msg = \<lparr>msg_fd = 5, msg_tag = 21474836481, msg_tokenid = [], msg_content_path = CONTENT_PATH_AUTH,
     msg_content = ascii ''gameinternalno=7&key=k1&seqid=3''\<rparr>"

lemma auth_msg_map: "decode_content split_any trim_spaces (msg_content auth_msg) Map.empty (ascii ''key'') = Some (ascii ''k1'')"
    "decode_content split_any trim_spaces (msg_content auth_msg) Map.empty (ascii ''gameinternalno'') = Some (ascii ''7'')"
    "decode_content split_any trim_spaces (msg_content auth_msg) Map.empty (ascii ''seqid'') = Some (ascii ''3'')"
  by code_simp+




end
