(* ===== verification/TcpPool.thy ===== *)
theory TcpPool
  imports TcpServer "HOL-Library.Multiset"
begin

text \<open>
  \<open>template_tcp/src/main/template_pool.h\<close> and \<open>template_guard.h\<close>: a pool of client objects of a database and the guard that borrows one for a scope.  The objects are
  in a \<open>block_queue\<close>; what a wait for one answers, and what other threads give back meanwhile, are parameters.  \<open>NULL\<close> is \<open>None\<close>.  The measurement of the waiting
  time and of the low-water mark only writes log lines.
\<close>

section \<open>Definitions\<close>

record 'a template_pool =
  pool_queue :: "'a block_queue"
  m_objcount :: int

definition template_pool :: "'a template_pool" where
  "template_pool = \<lparr>pool_queue = block_queue, m_objcount = 0\<rparr>"

definition install_obj :: "'a \<Rightarrow> 'a template_pool \<Rightarrow> 'a template_pool" where
  "install_obj pobj p = p\<lparr>pool_queue := add_queue pobj (pool_queue p), m_objcount := m_objcount p + 1\<rparr>"

text \<open>\<open>w n\<close> is what happens during the \<open>n\<close>-th attempt.\<close>

function fetch_loop :: "(nat \<Rightarrow> int \<times> 'a list) \<Rightarrow> nat \<Rightarrow> 'a block_queue \<Rightarrow> 'a block_queue \<times> 'a option \<times> int" where
  "fetch_loop w retry_count q =
     (if retry_count + 1 > 5 then (q, None, - 1)
      else let (q', pobj, result) = dequeue_expand (fst (w (retry_count + 1))) (snd (w (retry_count + 1))) q
        in if result \<noteq> 1 then fetch_loop w (retry_count + 1) q' else (q', pobj, 0))"
  by pat_completeness auto
termination by (relation "measure (\<lambda>(w, n, q). 5 - n)") auto

declare fetch_loop.simps [simp del]

definition fetch_obj :: "(nat \<Rightarrow> int \<times> 'a list) \<Rightarrow> 'a template_pool \<Rightarrow> 'a template_pool \<times> 'a option \<times> int" where
  "fetch_obj w p = (let (q, pobj, r) = fetch_loop w 0 (pool_queue p) in (p\<lparr>pool_queue := q\<rparr>, pobj, r))"

definition restore_obj :: "'a \<Rightarrow> 'a template_pool \<Rightarrow> 'a template_pool \<times> int" where
  "restore_obj pobj p = (p\<lparr>pool_queue := add_queue pobj (pool_queue p)\<rparr>, 0)"

text \<open>A guard is its \<open>m_pobj\<close>; its pool is never \<open>NULL\<close> where the code makes one.\<close>

definition fetch_obj_from_pool :: "(nat \<Rightarrow> int \<times> 'a list) \<Rightarrow> 'a option \<Rightarrow> 'a template_pool \<Rightarrow> 'a option \<times> 'a template_pool \<times> int" where
  "fetch_obj_from_pool w m_pobj p =
     (if m_pobj \<noteq> None then (m_pobj, p, 0)
      else let (p', pobj, result) = fetch_obj w p in if result = - 1 then (None, p', - 1) else (pobj, p', 0))"

definition template_guard_free :: "'a option \<Rightarrow> 'a template_pool \<Rightarrow> 'a template_pool" where
  "template_guard_free m_pobj p = (case m_pobj of None \<Rightarrow> p | Some pobj \<Rightarrow> fst (restore_obj pobj p))"

section \<open>Objects are neither lost nor doubled\<close>

definition objects :: "'a template_pool \<Rightarrow> 'a multiset" where
  "objects p = mset (m_list (pool_queue p))"

lemma dequeue_expand_alone:
  "dequeue_expand result [] q = (case m_list q of [] \<Rightarrow> (q, None, if result = 0 \<or> result = 110 then 0 else - 1)
     | y # ys \<Rightarrow> (q\<lparr>m_list := ys, m_size := m_size q - 1\<rparr>, Some y, 1))"
  by (simp add: dequeue_expand_def dequeue_def dequeue_nodelay_def split: list.split)

lemma fetch_loop_empty:
  "\<forall>i. snd (w i) = [] \<Longrightarrow> m_list q = [] \<Longrightarrow> fetch_loop w n q = (q, None, - 1)"
  by (induction w n q rule: fetch_loop.induct) (subst fetch_loop.simps, simp add: dequeue_expand_alone)

text \<open>An object that is there is fetched at once, the one that waits longest first; an empty pool answers \<open>-1\<close> after five attempts.\<close>

lemma fetch_obj_alone:
  assumes "\<forall>i. snd (w i) = []"
  shows "fetch_obj w p = (case m_list (pool_queue p) of [] \<Rightarrow> (p, None, - 1)
     | y # ys \<Rightarrow> (p\<lparr>pool_queue := (pool_queue p)\<lparr>m_list := ys, m_size := m_size (pool_queue p) - 1\<rparr>\<rparr>, Some y, 0))"
proof (cases "m_list (pool_queue p)")
  case Nil
  then show ?thesis using fetch_loop_empty [OF assms Nil] by (simp add: fetch_obj_def)
next
  case (Cons y ys)
  then show ?thesis using assms by (simp add: fetch_obj_def fetch_loop.simps [of w 0] dequeue_expand_alone)
qed

text \<open>Borrowing an object for a scope: the pool has the same objects and the same count before and after.\<close>

lemma guard_restores:
  assumes "\<forall>i. snd (w i) = []" and "fetch_obj_from_pool w None p = (g, p', r)"
  shows "r = (if g = None then - 1 else 0) \<and> objects p = objects p' + (case g of None \<Rightarrow> {#} | Some x \<Rightarrow> {#x#})
    \<and> objects (template_guard_free g p') = objects p \<and> getsize (pool_queue (template_guard_free g p')) = getsize (pool_queue p)
    \<and> m_objcount (template_guard_free g p') = m_objcount p"
  using assms fetch_obj_alone [OF assms(1), of p]
  by (auto simp: fetch_obj_from_pool_def template_guard_free_def restore_obj_def add_queue_def objects_def getsize_def split: list.splits)

end
