(* ===== verification/Spec2Isabelle.thy ===== *)
theory Spec2Isabelle
  imports Coding SortNode Bitmap DoubleQueue KvCache Practice MinHeap CString Net NetEcho Protocol MemAlloc BinMsg HttpRequest TcpDispatch TcpPool
begin

text \<open>
  A verification library for the repository's own C and C++ code under \<open>src/louluosrc/\<close>.  Paths below are relative to that directory.

  \<^bold>\<open>The program.\<close>  \<open>mycache/\<close> is a cache server.  Its network layer (\<open>net/net.h\<close>, \<open>net/net.c\<close>) polls descriptors and collects what clients
  send; a request parser (\<open>net/protocol.h\<close>) reads requests with the integer codecs of \<open>util/coding.h\<close>; two global byte queues
  (\<open>midware/midware.c\<close>, on the ring buffer \<open>struct/kfifo.c\<close>) stand between the network thread and the workers; the store (\<open>cache/kvcache.c\<close>)
  keeps its entries in an array of skip lists chosen by a string hash (\<open>struct/hash.c\<close>); memory comes from a pool (\<open>mem/minipwr_mem_pool.c\<close>)
  built on bitmaps (\<open>struct/bitmap.h\<close>) and red-black trees (\<open>struct/rbtree.c\<close>); \<open>struct/doublequeue.c\<close> and \<open>struct/skip_list.c\<close> are
  containers of their own.  \<open>template_http/\<close> is a frame for HTTP servers: a request parser (\<open>http/HttpRequestPacket.cpp\<close>) over text
  utilities (\<open>common/SDUtility.cpp\<close>, \<open>common/mycommon.cpp\<close>), and a binary message format (\<open>struct/cbinmsg.cpp\<close>) over a buffer cursor
  (\<open>struct/bufferoperation.cpp\<close>).  \<open>template_tcp/\<close> is a frame for servers that keep connections: a reactor thread (\<open>main/tcpserver.cpp\<close>) collects frames
  (\<open>main/protocol_codec.cpp\<close>) per client and hands their messages (\<open>main/message_codec.cpp\<close>) through callbacks (\<open>main/tcpservermanager.cpp\<close>) and a queue
  (\<open>main/block_queue.h\<close>) to workers (\<open>main/dispatcher.cpp\<close>), which borrow database clients from pools (\<open>main/template_pool.h\<close>) and answer with commands to the
  reactor.  \<open>sort_algorithms/\<close>, \<open>cstring/\<close> and \<open>practice/\<close> are libraries and exercises that stand alone.

  \<^bold>\<open>How C is modelled.\<close>  A function that can run into undefined behaviour, abort or fail to return has a result in \<^typ>\<open>'a option\<close>, where
  \<^term>\<open>None\<close> is each of these; a theorem that a call equals \<^term>\<open>Some r\<close> therefore says that it returns, that every access is inside a
  live object, that no signed addition overflows, and what the result is.  Loops that are not structural are \<open>partial_function (option)\<close>:
  there is no fuel anywhere, and the theorems prove that the loops end rather than assume it.  Unsigned C integers are words of their width;
  signed ones are integers with the range checked where the code adds (\<open>c_int\<close>, \<open>iadd\<close>).  Error codes of the source are values of the result.
  What is not under \<open>src/\<close> is a parameter: \<open>malloc\<close> (which addresses it may give, and whether it fails), the clock, the random levels of
  skip lists, the outcome of system calls, the byte order of the host, boost's \<open>split\<close> and \<open>trim\<close>, \<open>iconv\<close>.

  \<^bold>\<open>Preludes.\<close>  \<open>CPrelude\<close>: scalar types, the fault monad, checked array cells (collection \<open>cmem\<close>), folds with faults.  \<open>CHeap\<close>: a heap of live
  objects of one struct type, with allocation and release.  \<open>CText\<close>: digits, character classes, C strings and searching in byte lists.

  \<^bold>\<open>Theories of mycache.\<close>
  \<^item> \<open>Coding\<close> (\<open>util/coding.h\<close>): fixed-width integers, varints, zigzag.  Locale \<open>varint_reader\<close>, interpreted for both widths, gives the round trips.
  \<^item> \<open>Bitmap\<close> (\<open>struct/bitmap.h\<close>): bits and regions of words.  Locale \<open>bit_store\<close> derives the region operations from the single-bit ones.
  \<^item> \<open>DoubleQueue\<close> (\<open>struct/doublequeue.c\<close>): two rings of nodes exchanged under a lock.  Locale \<open>ptr_queue\<close> is the contract of a FIFO queue; the
    relation \<open>dq_step\<close> interleaves a producer and a consumer at their lock and semaphore operations, and its invariant gives delivery in order.
  \<^item> \<open>Kfifo\<close> (\<open>struct/kfifo.c\<close>): the ring buffer on wrapping 32-bit indices.  Locale \<open>byte_fifo\<close>; \<open>Midware\<close> (\<open>midware/midware.c\<close>) interprets
    it again for each of its two queues and shows that they do not disturb each other.
  \<^item> \<open>SkipCore\<close>, \<open>SkipList\<close> (\<open>struct/skip_list.c\<close>), \<open>HashString\<close> (\<open>struct/hash.c\<close>), \<open>KvCache\<close> (\<open>cache/kvcache.c\<close>): the walk over forward
    pointers that both list implementations contain, the chain invariant on the heap, and locale \<open>multimap\<close>, interpreted for each of them;
    the cache refines a map with times to live.
  \<^item> \<open>RbModel\<close>, \<open>RbHeap\<close>, \<open>RbInsert\<close>, \<open>RbErase\<close> (\<open>struct/rbtree.c\<close>): nodes with packed parent and colour; trees and trees with a hole laid out in
    the heap; insertion, deletion, traversal and replacement return, keep order, colours and black height, and touch nothing else.
  \<^item> \<open>MemPool\<close>, \<open>MemTree\<close>, \<open>MemAlloc\<close> (\<open>mem/minipwr_mem_pool.c\<close>): the pool over both of the above.  Locale \<open>cell_pool\<close> abstracts a pool to the
    set of its used cells; blocks held by a client that keeps the stated discipline never overlap, and one run without it shows an overlap.
  \<^item> \<open>Net\<close>, \<open>NetEcho\<close>, \<open>Protocol\<close> (\<open>net/net.h\<close>, \<open>net/net.c\<close>, \<open>net/protocol.h\<close>): the descriptor array, the collection of received data, the
    callbacks of the libev server as a step relation \<open>ev_step\<close>, the request parser.  Much of what is proved here are faults of the code.

  \<^bold>\<open>Theories of template_http.\<close>
  \<^item> \<open>CBuffer\<close> (\<open>struct/bufferoperation.cpp\<close>), \<open>BinMsg\<close> (\<open>struct/cbinmsg.cpp\<close>): the cursor with its bounds; fields, rows and records.  Locales
    \<open>codec\<close>, \<open>decode_loop\<close>, \<open>list_codec\<close> and \<open>safe_loop\<close> are interpreted first for fields in a row and then for rows in a record: the round
    trip, and that decoding arbitrary bytes returns without leaving the buffer.
  \<^item> \<open>SdUtil\<close> (\<open>common/SDUtility.cpp\<close>, \<open>common/mycommon.cpp\<close>): URL coding, hexadecimal text, addresses, hashes, maps as strings; locale
    \<open>boost_strings\<close> holds what is used of boost.  \<open>HttpRequest\<close> (\<open>http/HttpRequestPacket.cpp\<close>): GET and POST requests and errors.

  \<^bold>\<open>Theories of template_tcp.\<close>
  \<^item> \<open>TcpCodec\<close>: frames with their byte order, and messages; the round trip, and what is refused.
  \<^item> \<open>TcpServer\<close>: queues, clients, the table of clients, every handler of the reactor with its callbacks; the answers of system calls are a record that each handler takes.
    A stream of frames that arrives in pieces of any size is delivered, frame by frame, after at most as many events as it has bytes.
  \<^item> \<open>TcpInv\<close>: the relation \<open>server_reach\<close> covers accepted connections, data, errors, timeouts and the commands of other threads in any order; its invariant ties
    cells, identities and counters together, and gives what each command does and which clients a timeout closes.  Runs outside its assumptions show an identity that is
    left behind, a second close, and a write behind the table.
  \<^item> \<open>TcpDispatch\<close>: random keys and authentication, from the request over the command queue to the authenticated client; keys are good once.
  \<^item> \<open>TcpPool\<close>: pools and guards; objects are neither lost nor doubled.

  \<^bold>\<open>Theories of the other libraries.\<close>  \<open>SortBase\<close>, \<open>ExchangeSorts\<close>, \<open>InsertSorts\<close>, \<open>MergeSort\<close>, \<open>HeapSort\<close>, \<open>SortNode\<close> (\<open>sort_algorithms/\<close>): every
  routine interprets \<open>array_sort\<close> or its refinement \<open>range_sort\<close>, and the dispatch through function pointers rests on these facts.
  \<open>CString\<close> and \<open>MinHeap\<close> (\<open>cstring/\<close>): reference counts, slices and concatenation; heap construction.  \<open>Practice\<close> (\<open>practice/\<close>): a linked list,
  a search tree, a hexadecimal reader and a bit rewriting.

  \<^bold>\<open>Interaction with the environment.\<close>  The spin locks of \<open>kfifo.c\<close> and of the pool are taken as given: their sections are atomic.  Where the code
  leaves room for two threads without a lock over the whole operation (\<open>doublequeue.c\<close>), the interleavings are explicit.  The threads of \<open>template_tcp\<close> meet only in
  its queues, whose bodies run under a mutex; their commands may come between any two events.

  \<^bold>\<open>Not modelled.\<close>  Loggers, start-up code, the creation of sockets, and the wrappers of MySQL, Redis, memcached, MongoDB, ZeroMQ and libcurl, which turn arguments into calls of
  libraries that are not in the repository; drafts that do not compile (\<open>struct/kfifos.c\<close>, \<open>src/mem\<close>); copies of modelled files in other directories
  (\<open>swap_queue\<close>, \<open>practice/struct\<close>, \<open>notify_adapter_v2\<close>, \<open>xlgame_touch_server\<close>, \<open>logingame_server\<close>); \<open>cxx_utils\<close>, which nothing uses; vendored projects (qemu, apr, protobuf, liblfds, cJSON), which are
  nearly all of the repository's lines.
\<close>

end
